(* ===== verification/Prelude.thy ===== *)
theory Prelude
  imports Main "HOL-Library.Word"
begin

text \<open>
  Shared vocabulary of the development: machine-integer synonyms, the fault
  values that stand for undefined behaviour and for Lua errors, the result
  monad over them, and the list-as-memory operations (bounded reads and
  writes) with the lemmas that the component proofs use.
\<close>

unbundle bit_operations_syntax

type_synonym u8 = "8 word"
type_synonym u16 = "16 word"
type_synonym u32 = "32 word"
type_synonym u64 = "64 word"

named_theorems mem_simps
named_theorems res_simps

text \<open>
  A fault is an execution the C standard gives no meaning to (or that never
  returns), or a Lua error, which leaves the C function by \<open>longjmp\<close>.
\<close>

datatype fault =
    Null_deref
  | Out_of_bounds
  | Use_after_free
  | Uninit_read
  | Bad_conversion
  | Bad_shift
  | Int_overflow
  | Diverges
  | Out_of_fuel
  | Aborted
  | Lua_error string

type_synonym 'a res = "fault + 'a"

definition res_bind :: "'a res \<Rightarrow> ('a \<Rightarrow> 'b res) \<Rightarrow> 'b res" where
  "res_bind r k = (case r of Inl e \<Rightarrow> Inl e | Inr x \<Rightarrow> k x)"

lemma res_bind_simps [simp, res_simps]:
  "res_bind (Inr x) k = k x"
  "res_bind (Inl e) k = Inl e"
  by (simp_all add: res_bind_def)

lemma res_bind_cong [fundef_cong]:
  "r = r' \<Longrightarrow> (\<And>x. r' = Inr x \<Longrightarrow> k x = k' x) \<Longrightarrow> res_bind r k = res_bind r' k'"
  by (cases r') (simp_all add: res_bind_def)

lemma res_bind_Inr [res_simps]:
  "res_bind r k = Inr y \<longleftrightarrow> (\<exists>x. r = Inr x \<and> k x = Inr y)"
  by (cases r) (simp_all add: res_bind_def)

lemma res_bind_assoc: "res_bind (res_bind r f) g = res_bind r (\<lambda>x. res_bind (f x) g)"
  by (cases r) simp_all

definition res_ok :: "'a res \<Rightarrow> bool" where
  "res_ok r = (case r of Inl _ \<Rightarrow> False | Inr _ \<Rightarrow> True)"

lemma res_ok_simps [simp]: "res_ok (Inr x)" "\<not> res_ok (Inl e)"
  by (simp_all add: res_ok_def)

section \<open>Lists as blocks of memory\<close>

text \<open>\<open>mem_read m off n\<close> and \<open>mem_write m off bs\<close> fail outside the block.\<close>

definition mem_read :: "'a list \<Rightarrow> nat \<Rightarrow> nat \<Rightarrow> 'a list res" where
  "mem_read m off n =
     (if off + n \<le> length m then Inr (take n (drop off m)) else Inl Out_of_bounds)"

definition mem_write :: "'a list \<Rightarrow> nat \<Rightarrow> 'a list \<Rightarrow> 'a list res" where
  "mem_write m off bs =
     (if off + length bs \<le> length m
      then Inr (take off m @ bs @ drop (off + length bs) m) else Inl Out_of_bounds)"

definition mem_get :: "'a list \<Rightarrow> nat \<Rightarrow> 'a res" where
  "mem_get m i = (if i < length m then Inr (m ! i) else Inl Out_of_bounds)"

definition mem_set :: "'a list \<Rightarrow> nat \<Rightarrow> 'a \<Rightarrow> 'a list res" where
  "mem_set m i x = (if i < length m then Inr (m[i := x]) else Inl Out_of_bounds)"

lemma mem_read_ok [mem_simps]:
  "off + n \<le> length m \<Longrightarrow> mem_read m off n = Inr (take n (drop off m))"
  by (simp add: mem_read_def)

lemma mem_write_ok [mem_simps]:
  "off + length bs \<le> length m \<Longrightarrow>
     mem_write m off bs = Inr (take off m @ bs @ drop (off + length bs) m)"
  by (simp add: mem_write_def)

lemma mem_get_ok [mem_simps]: "i < length m \<Longrightarrow> mem_get m i = Inr (m ! i)"
  by (simp add: mem_get_def)

lemma mem_set_ok [mem_simps]: "i < length m \<Longrightarrow> mem_set m i x = Inr (m[i := x])"
  by (simp add: mem_set_def)

lemma mem_write_length: "mem_write m off bs = Inr m' \<Longrightarrow> length m' = length m"
  by (auto simp: mem_write_def split: if_splits)

lemma mem_write_take [mem_simps]:
  "off + length bs \<le> length m \<Longrightarrow>
     take (off + length bs) (take off m @ bs @ drop (off + length bs) m) = take off m @ bs"
  by (cases "bs = []") auto

lemma nth_in_set_take: "i < n \<Longrightarrow> n \<le> length ys \<Longrightarrow> ys ! i \<in> set (take n ys)"
  by (auto simp: in_set_conv_nth intro!: exI [of _ i])

section \<open>Words\<close>

lemma sint_small: "unat (w :: u32) < 2 ^ 31 \<Longrightarrow> sint w = int (unat w)"
proof -
  assume "unat w < 2 ^ 31"
  then have "int (unat w) < int (2 ^ 31)" by (simp only: of_nat_less_iff)
  then have lt: "uint w < 2 ^ 31" by (simp only: uint_nat of_nat_power of_nat_numeral)
  have "- (2 ^ 31) \<le> uint w" by (rule order_trans [OF _ uint_ge_0]) simp
  then have "signed_take_bit 31 (uint w) = uint w"
    using lt by (intro signed_take_bit_int_eq_self)
  moreover have "sint w = signed_take_bit 31 (uint w)" by (simp add: sint_uint)
  ultimately show ?thesis by (simp only: uint_nat)
qed

lemma unat_of_nat_u32: "n < 2 ^ 32 \<Longrightarrow> unat (of_nat n :: u32) = n"
  by (simp add: unat_of_nat)

lemma high_bits_zero:
  assumes "unat (v :: 'a::len word) < 2 ^ k" "k \<le> n" shows "\<not> bit v n"
proof -
  have "unat v < 2 ^ n" using assms by (meson le_less_trans less_le_trans one_le_numeral power_increasing)
  then have "\<not> bit (unat v) n" by (simp add: bit_iff_odd)
  then show ?thesis by (simp add: bit_unsigned_iff bit_imp_le_length)
qed

lemma unat_ucast_u8: "unat (ucast (x :: u32) :: u8) = unat x mod 256"
  by (simp add: unsigned_ucast_eq unsigned_take_bit_eq take_bit_nat_def)

text \<open>Equality of words bit by bit, for the shift-and-mask code.\<close>

lemma bits8I:
  "\<lbrakk>bit x 0 = bit y 0; bit x 1 = bit y 1; bit x 2 = bit y 2; bit x 3 = bit y 3;
    bit x 4 = bit y 4; bit x 5 = bit y 5; bit x 6 = bit y 6; bit x 7 = bit y 7\<rbrakk>
   \<Longrightarrow> x = (y :: 8 word)"
proof (rule bit_word_eqI)
  fix k :: nat
  assume bits: "bit x 0 = bit y 0" "bit x 1 = bit y 1" "bit x 2 = bit y 2" "bit x 3 = bit y 3" "bit x 4 = bit y
    4" "bit x 5 = bit y 5" "bit x 6 = bit y 6" "bit x 7 = bit y 7" and "k < LENGTH(8)"
  then have "k \<in> set [0..<8]" by simp
  also have "[0..<8] = [0, 1, 2, 3, 4, 5, 6, 7]" by code_simp
  finally show "bit x k = bit y k" using bits by (auto simp only: list.set insert_iff empty_iff)
qed

lemma bits32I:
  "\<lbrakk>bit x 0 = bit y 0; bit x 1 = bit y 1; bit x 2 = bit y 2; bit x 3 = bit y 3;
    bit x 4 = bit y 4; bit x 5 = bit y 5; bit x 6 = bit y 6; bit x 7 = bit y 7;
    bit x 8 = bit y 8; bit x 9 = bit y 9; bit x 10 = bit y 10; bit x 11 = bit y 11;
    bit x 12 = bit y 12; bit x 13 = bit y 13; bit x 14 = bit y 14; bit x 15 = bit y 15;
    bit x 16 = bit y 16; bit x 17 = bit y 17; bit x 18 = bit y 18; bit x 19 = bit y 19;
    bit x 20 = bit y 20; bit x 21 = bit y 21; bit x 22 = bit y 22; bit x 23 = bit y 23;
    bit x 24 = bit y 24; bit x 25 = bit y 25; bit x 26 = bit y 26; bit x 27 = bit y 27;
    bit x 28 = bit y 28; bit x 29 = bit y 29; bit x 30 = bit y 30; bit x 31 = bit y 31\<rbrakk>
   \<Longrightarrow> x = (y :: 32 word)"
proof (rule bit_word_eqI)
  fix k :: nat
  assume bits: "bit x 0 = bit y 0" "bit x 1 = bit y 1" "bit x 2 = bit y 2" "bit x 3 = bit y 3" "bit x 4 = bit y
    4" "bit x 5 = bit y 5" "bit x 6 = bit y 6" "bit x 7 = bit y 7" "bit x 8 = bit y 8" "bit x 9
    = bit y 9" "bit x 10 = bit y 10" "bit x 11 = bit y 11" "bit x 12 = bit y 12" "bit x 13 = bit
    y 13" "bit x 14 = bit y 14" "bit x 15 = bit y 15" "bit x 16 = bit y 16" "bit x 17 = bit y
    17" "bit x 18 = bit y 18" "bit x 19 = bit y 19" "bit x 20 = bit y 20" "bit x 21 = bit y 21"
    "bit x 22 = bit y 22" "bit x 23 = bit y 23" "bit x 24 = bit y 24" "bit x 25 = bit y 25" "bit
    x 26 = bit y 26" "bit x 27 = bit y 27" "bit x 28 = bit y 28" "bit x 29 = bit y 29" "bit x 30
    = bit y 30" "bit x 31 = bit y 31" and "k < LENGTH(32)"
  then have "k \<in> set [0..<32]" by simp
  also have "[0..<32] = [0, 1, 2, 3, 4, 5, 6, 7, 8, 9, 10, 11, 12, 13, 14, 15, 16, 17, 18, 19, 20, 21, 22, 23, 24, 25,
    26, 27, 28, 29, 30, 31]" by code_simp
  finally show "bit x k = bit y k" using bits by (auto simp only: list.set insert_iff empty_iff)
qed

section \<open>Logarithms\<close>

text \<open>The position of the highest bit.\<close>

fun nlog2 :: "nat \<Rightarrow> nat" where
  "nlog2 n = (if n < 2 then 0 else Suc (nlog2 (n div 2)))"

declare nlog2.simps [simp del]

lemma nlog2_bounds: "0 < n \<Longrightarrow> 2 ^ nlog2 n \<le> n \<and> n < 2 * 2 ^ nlog2 n"
proof (induction n rule: nlog2.induct)
  case (1 n)
  show ?case
  proof (cases "n < 2")
    case True
    with "1.prems" show ?thesis by (simp add: nlog2.simps [of n])
  next
    case False
    then have "2 ^ nlog2 (n div 2) \<le> n div 2 \<and> n div 2 < 2 * 2 ^ nlog2 (n div 2)"
      using "1.IH" by simp
    with False show ?thesis by (simp add: nlog2.simps [of n]) linarith
  qed
qed

lemma nlog2_le: "0 < n \<Longrightarrow> n < 2 ^ Suc m \<Longrightarrow> nlog2 n \<le> m"
proof -
  assume "0 < n" "n < 2 ^ Suc m"
  then have "(2 :: nat) ^ nlog2 n < 2 ^ Suc m" using nlog2_bounds [of n] by simp
  then show ?thesis by (simp only: power_strict_increasing_iff less_Suc_eq_le)
qed

end
