(* ===== verification/Automem.thy ===== *)
theory Automem
  imports Prelude
begin

text \<open>
  The growable byte buffer of \<open>libuv-lua/src/automem.c\<close>. Sizes are 32-bit
  words, so that the doubling loop and the sums wrap as \<open>unsigned int\<close> does.
  A block of memory is a list of cells; \<open>None\<close> is a byte that \<open>malloc\<close> left
  indeterminate. The three function-pointer fields always hold \<open>malloc\<close>,
  \<open>realloc\<close> and \<open>free\<close>; \<open>al n\<close> says whether a request of \<open>n\<close> bytes succeeds.
\<close>

type_synonym cell = "u8 option"

record automem_t =
  am_size :: u32
  buffersize :: u32
  pdata :: "cell list option"

definition c_malloc :: "(nat \<Rightarrow> bool) \<Rightarrow> nat \<Rightarrow> cell list option" where
  "c_malloc al n = (if al n then Some (replicate n None) else None)"

definition c_realloc :: "(nat \<Rightarrow> bool) \<Rightarrow> cell list \<Rightarrow> nat \<Rightarrow> cell list option" where
  "c_realloc al c n =
     (if al n then Some (take n c @ replicate (n - length c) None) else None)"

text \<open>\<open>memcpy\<close> of known source bytes into a block that may be \<open>NULL\<close>.\<close>

definition c_memcpy :: "cell list option \<Rightarrow> nat \<Rightarrow> cell list \<Rightarrow> cell list res" where
  "c_memcpy dst off bs =
     (case dst of None \<Rightarrow> Inl Null_deref | Some c \<Rightarrow> mem_write c off bs)"

definition c_block_read :: "cell list option \<Rightarrow> nat \<Rightarrow> nat \<Rightarrow> cell list res" where
  "c_block_read src off n =
     (case src of None \<Rightarrow> Inl Null_deref | Some c \<Rightarrow> mem_read c off n)"

section \<open>Operations\<close>

definition automem_init :: "(nat \<Rightarrow> bool) \<Rightarrow> automem_t \<Rightarrow> u32 \<Rightarrow> automem_t" where
  "automem_init al m initBufferSize =
     (let bs = (if initBufferSize = 0 then 128 else initBufferSize)
      in m\<lparr>am_size := 0, buffersize := bs, pdata := c_malloc al (unat bs)\<rparr>)"

definition automem_uninit :: "automem_t \<Rightarrow> automem_t" where
  "automem_uninit m =
     (case pdata m of None \<Rightarrow> m
      | Some _ \<Rightarrow> m\<lparr>am_size := 0, buffersize := 0, pdata := None\<rparr>)"

definition automem_clean :: "(nat \<Rightarrow> bool) \<Rightarrow> automem_t \<Rightarrow> int \<Rightarrow> automem_t" where
  "automem_clean al m newsize = automem_init al (automem_uninit m) (of_int newsize)"

definition automem_reset :: "automem_t \<Rightarrow> automem_t" where
  "automem_reset m = m\<lparr>am_size := 0\<rparr>"

text \<open>
  The loop \<open>while(newbuffersize - pmem->size < len) newbuffersize *= 2\<close>. After 32
  doublings the 32-bit value is 0 and stays 0, so 33 tests decide whether the
  loop ever ends (lemma \<open>grow_loop_Diverges\<close>).
\<close>

fun grow_loop :: "nat \<Rightarrow> u32 \<Rightarrow> u32 \<Rightarrow> u32 \<Rightarrow> u32 res" where
  "grow_loop 0 nb sz len = Inl Diverges"
| "grow_loop (Suc k) nb sz len =
     (if nb - sz < len then grow_loop k (nb * 2) sz len else Inr nb)"

definition automem_ensure_newspace ::
    "(nat \<Rightarrow> bool) \<Rightarrow> automem_t \<Rightarrow> u32 \<Rightarrow> automem_t res" where
  "automem_ensure_newspace al m len =
     (let nb0 = (if buffersize m < len then len else buffersize m)
      in res_bind (grow_loop 33 nb0 (am_size m) len) (\<lambda>nb.
           Inr (if nb > buffersize m
                then m\<lparr>pdata := (case pdata m of
                          Some c \<Rightarrow> c_realloc al c (unat nb)
                        | None \<Rightarrow> c_malloc al (unat nb)),
                       buffersize := nb\<rparr>
                else m)))"

definition automem_init_by_ptr :: "automem_t \<Rightarrow> cell list option \<Rightarrow> u32 \<Rightarrow> automem_t" where
  "automem_init_by_ptr m p len = m\<lparr>pdata := p, am_size := len\<rparr>"

definition automem_attach ::
    "(nat \<Rightarrow> bool) \<Rightarrow> automem_t \<Rightarrow> cell list \<Rightarrow> u32 \<Rightarrow> automem_t res" where
  "automem_attach al m src len =
     res_bind (if len > buffersize m
               then automem_ensure_newspace al m (len - buffersize m) else Inr m) (\<lambda>m1.
     res_bind (mem_read src 0 (unat len)) (\<lambda>bs.
     res_bind (c_memcpy (pdata m1) 0 bs) (\<lambda>c.
       Inr (m1\<lparr>am_size := len, pdata := Some c\<rparr>))))"

definition automem_detach :: "automem_t \<Rightarrow> cell list option \<times> u32" where
  "automem_detach m = (if am_size m = 0 then None else pdata m, am_size m)"

text \<open>The returned pointer \<open>pdata + size\<close> is given by its offset in the block.\<close>

definition automem_alloc ::
    "(nat \<Rightarrow> bool) \<Rightarrow> automem_t \<Rightarrow> int \<Rightarrow> (automem_t \<times> nat option) res" where
  "automem_alloc al m n =
     (if n > 0
      then res_bind (automem_ensure_newspace al m (of_int n)) (\<lambda>m1.
             Inr (m1\<lparr>am_size := am_size m1 + of_int n\<rparr>, Some (unat (am_size m1))))
      else Inr (m, None))"

definition automem_append_voidp ::
    "(nat \<Rightarrow> bool) \<Rightarrow> automem_t \<Rightarrow> cell list \<Rightarrow> u32 \<Rightarrow> (automem_t \<times> int) res" where
  "automem_append_voidp al m p len =
     res_bind (automem_ensure_newspace al m len) (\<lambda>m1.
     res_bind (mem_read p 0 (unat len)) (\<lambda>bs.
     res_bind (c_memcpy (pdata m1) (unat (am_size m1)) bs) (\<lambda>c.
       Inr (m1\<lparr>am_size := am_size m1 + len, pdata := Some c\<rparr>, sint len))))"

definition automem_erase :: "automem_t \<Rightarrow> u32 \<Rightarrow> (automem_t \<times> int) res" where
  "automem_erase m k =
     (if k < am_size m
      then res_bind (c_block_read (pdata m) (unat k) (unat (am_size m - k))) (\<lambda>bs.
           res_bind (c_memcpy (pdata m) 0 bs) (\<lambda>c.
             Inr (m\<lparr>am_size := am_size m - k, pdata := Some c\<rparr>, sint (am_size m - k))))
      else Inr (m\<lparr>am_size := 0\<rparr>, 0))"

definition automem_erase_ex ::
    "(nat \<Rightarrow> bool) \<Rightarrow> automem_t \<Rightarrow> u32 \<Rightarrow> u32 \<Rightarrow> (automem_t \<times> int) res" where
  "automem_erase_ex al m k limit =
     (if k < am_size m
      then (let newsize = am_size m - k
            in res_bind (c_block_read (pdata m) (unat k) (unat newsize)) (\<lambda>bs.
               if buffersize m > newsize + limit
               then res_bind (c_memcpy (c_malloc al (unat (newsize + limit))) 0 bs) (\<lambda>c.
                      Inr (m\<lparr>am_size := newsize, buffersize := newsize + limit,
                             pdata := Some c\<rparr>, sint newsize))
               else res_bind (c_memcpy (pdata m) 0 bs) (\<lambda>c.
                      Inr (m\<lparr>am_size := newsize, pdata := Some c\<rparr>, sint newsize))))
      else (let m1 = m\<lparr>am_size := 0\<rparr>
            in if buffersize m1 > limit
               then Inr (automem_init al (automem_uninit m1) limit, 0)
               else Inr (m1, 0)))"

text \<open>Little-endian object representations of the scalars that are appended.\<close>

definition le_bytes :: "nat \<Rightarrow> nat \<Rightarrow> u8 list" where
  "le_bytes k v = map (\<lambda>i. of_nat (v div 256 ^ i)) [0..<k]"

definition automem_append_int ::
    "(nat \<Rightarrow> bool) \<Rightarrow> automem_t \<Rightarrow> u32 \<Rightarrow> automem_t res" where
  "automem_append_int al m n =
     res_bind (automem_append_voidp al m (map Some (le_bytes 4 (unat n))) 4) (\<lambda>(m', _). Inr m')"

definition automem_append_pchar ::
    "(nat \<Rightarrow> bool) \<Rightarrow> automem_t \<Rightarrow> u64 \<Rightarrow> automem_t res" where
  "automem_append_pchar al m ptr =
     res_bind (automem_append_voidp al m (map Some (le_bytes 8 (unat ptr))) 8) (\<lambda>(m', _). Inr m')"

definition automem_append_char ::
    "(nat \<Rightarrow> bool) \<Rightarrow> automem_t \<Rightarrow> u8 \<Rightarrow> automem_t res" where
  "automem_append_char al m c =
     res_bind (automem_append_voidp al m [Some c] 1) (\<lambda>(m', _). Inr m')"

definition automem_append_byte ::
    "(nat \<Rightarrow> bool) \<Rightarrow> automem_t \<Rightarrow> u8 \<Rightarrow> automem_t res" where
  "automem_append_byte al m c =
     res_bind (automem_append_voidp al m [Some c] 1) (\<lambda>(m', _). Inr m')"

section \<open>Well-formedness and the abstract contents\<close>

definition am_wf :: "automem_t \<Rightarrow> bool" where
  "am_wf m \<longleftrightarrow> (case pdata m of None \<Rightarrow> False | Some c \<Rightarrow> length c = unat (buffersize m))
     \<and> am_size m \<le> buffersize m"

definition am_data :: "automem_t \<Rightarrow> cell list" where
  "am_data m = (case pdata m of None \<Rightarrow> [] | Some c \<Rightarrow> take (unat (am_size m)) c)"

lemma am_wfE:
  assumes "am_wf m"
  obtains c where "pdata m = Some c" "length c = unat (buffersize m)"
    "unat (am_size m) \<le> unat (buffersize m)"
  using assms by (auto simp: am_wf_def word_le_nat_alt split: option.splits)

lemma am_wfI:
  "pdata m = Some c \<Longrightarrow> length c = unat (buffersize m) \<Longrightarrow>
     unat (am_size m) \<le> unat (buffersize m) \<Longrightarrow> am_wf m"
  by (simp add: am_wf_def word_le_nat_alt)

lemma am_data_length [simp]: "am_wf m \<Longrightarrow> length (am_data m) = unat (am_size m)"
  by (auto elim!: am_wfE simp: am_data_def)

section \<open>The doubling loop\<close>

lemma double_word_unat: "unat (x :: u32) < 2 ^ 31 \<Longrightarrow> unat (x * 2) = 2 * unat x"
  by (simp add: unat_word_ariths)

lemma grow_loop_enough:
  assumes "unat sz + unat len \<le> 2 ^ 31" "unat sz \<le> unat nb" "unat len \<le> unat nb"
    "0 < unat nb \<or> len = 0" "2 ^ 31 \<le> unat nb * 2 ^ k \<or> len = 0"
  shows "\<exists>nb'. grow_loop (Suc k) nb sz len = Inr nb' \<and> unat sz + unat len \<le> unat nb'
     \<and> unat nb \<le> unat nb' \<and> (nb' = nb \<or> unat nb' < 2 * (unat sz + unat len))"
  using assms
proof (induction k arbitrary: nb)
  case 0
  then have "\<not> nb - sz < len"
    by (auto simp: word_less_nat_alt unat_sub word_le_nat_alt)
  with 0 show ?case by (auto simp: word_le_nat_alt)
next
  case (Suc k)
  show ?case
  proof (cases "nb - sz < len")
    case True
    then have lt: "unat nb < unat sz + unat len" "len \<noteq> 0"
      using Suc.prems(2) by (auto simp: word_less_nat_alt unat_sub word_le_nat_alt)
    with Suc.prems(1) have dbl: "unat (nb * 2) = 2 * unat nb"
      by (intro double_word_unat) simp
    have "\<exists>nb'. grow_loop (Suc k) (nb * 2) sz len = Inr nb' \<and> unat sz + unat len \<le> unat nb'
       \<and> unat (nb * 2) \<le> unat nb' \<and> (nb' = nb * 2 \<or> unat nb' < 2 * (unat sz + unat len))"
      using Suc.prems lt dbl by (intro Suc.IH) auto
    with True lt dbl show ?thesis by auto
  next
    case False
    then have "unat sz + unat len \<le> unat nb"
      using Suc.prems(2) by (simp add: word_less_nat_alt unat_sub word_le_nat_alt)
    with False show ?thesis by auto
  qed
qed

lemma grow_loop_ok:
  assumes "unat sz + unat len \<le> 2 ^ 31" "unat sz \<le> unat nb" "unat len \<le> unat nb"
  shows "\<exists>nb'. grow_loop 33 nb sz len = Inr nb' \<and> unat sz + unat len \<le> unat nb'
     \<and> unat nb \<le> unat nb' \<and> (nb' = nb \<or> unat nb' < 2 * (unat sz + unat len))"
proof -
  have "33 = Suc (32 :: nat)" by simp
  moreover have "len = 0 \<or> 0 < unat nb" using assms(3) by (auto simp: unat_eq_0)
  ultimately show ?thesis
    using grow_loop_enough [of sz len nb 32] assms by auto
qed

lemma grow_loop_never:
  "grow_loop k nb sz len = Inl Diverges \<longleftrightarrow> (\<forall>j<k. nb * 2 ^ j - sz < len)"
proof (induction k arbitrary: nb)
  case (Suc k)
  show ?case
    by (auto simp: Suc.IH less_Suc_eq_0_disj mult.assoc power_Suc [symmetric]
        simp del: power_Suc split: if_splits)
qed simp

lemma two_pow_32_zero: "32 \<le> j \<Longrightarrow> (2 :: u32) ^ j = 0"
  by (simp add: exp_eq_zero_iff)

text \<open>The bound of 33 tests is exact: running out of it is a loop that never ends.\<close>

lemma grow_loop_Diverges:
  "grow_loop 33 nb sz len = Inl Diverges \<longleftrightarrow> (\<forall>j. nb * 2 ^ j - sz < len)"
proof
  assume "grow_loop 33 nb sz len = Inl Diverges"
  then have all: "\<forall>j<33. nb * 2 ^ j - sz < len" by (simp only: grow_loop_never)
  show "\<forall>j. nb * 2 ^ j - sz < len"
  proof
    fix j
    have "nb * 2 ^ 32 - sz < len" using all by (elim allE [where x = 32]) (simp del: power_numeral)
    then have "0 - sz < len" by (simp only: two_pow_32_zero [OF order_refl] mult_zero_right)
    then show "nb * 2 ^ j - sz < len"
      using all by (cases "j < 33") (simp_all add: two_pow_32_zero)
  qed
qed (simp add: grow_loop_never)

section \<open>What the operations do\<close>

lemma automem_init_ok:
  assumes "\<forall>n. al n"
  shows "am_wf (automem_init al m n)" "am_data (automem_init al m n) = []"
    "buffersize (automem_init al m n) = (if n = 0 then 128 else n)"
  using assms by (auto simp: automem_init_def Let_def c_malloc_def am_wf_def am_data_def)

lemma c_memcpy_Some:
  "off + length bs \<le> length c \<Longrightarrow>
     c_memcpy (Some c) off bs = Inr (take off c @ bs @ drop (off + length bs) c)"
  by (simp add: c_memcpy_def mem_simps)

lemma automem_ensure_newspace_ok:
  assumes wf: "am_wf m" and room: "unat (am_size m) + unat len \<le> 2 ^ 31" and al: "\<forall>n. al n"
  obtains m1 where "automem_ensure_newspace al m len = Inr m1" "am_wf m1"
    "am_size m1 = am_size m" "am_data m1 = am_data m"
    "unat (am_size m) + unat len \<le> unat (buffersize m1)"
    "unat (buffersize m) \<le> unat (buffersize m1)"
    "buffersize m1 = buffersize m \<or> buffersize m1 = len
       \<or> unat (buffersize m1) < 2 * (unat (am_size m) + unat len)"
proof -
  obtain c where c: "pdata m = Some c" "length c = unat (buffersize m)"
    "unat (am_size m) \<le> unat (buffersize m)" using wf by (rule am_wfE)
  define nb0 where "nb0 = (if buffersize m < len then len else buffersize m)"
  have nb0: "unat (am_size m) \<le> unat nb0" "unat len \<le> unat nb0" "unat (buffersize m) \<le> unat nb0"
    using c(3) by (auto simp: nb0_def word_less_nat_alt)
  obtain nb where nb: "grow_loop 33 nb0 (am_size m) len = Inr nb"
    "unat (am_size m) + unat len \<le> unat nb" "unat nb0 \<le> unat nb"
    "nb = nb0 \<or> unat nb < 2 * (unat (am_size m) + unat len)"
    using grow_loop_ok [OF room nb0(1,2)] by blast
  define m1 where "m1 = (if nb > buffersize m
     then m\<lparr>pdata := c_realloc al c (unat nb), buffersize := nb\<rparr> else m)"
  have eq: "automem_ensure_newspace al m len = Inr m1"
    using nb(1) c(1) by (simp add: automem_ensure_newspace_def nb0_def [symmetric] m1_def Let_def)
  show thesis
  proof (cases "nb > buffersize m")
    case True
    then have lt: "unat (buffersize m) < unat nb" by (simp add: word_less_nat_alt)
    then have blk: "pdata m1 = Some (take (unat nb) c @ replicate (unat nb - length c) None)"
      using True al by (simp add: m1_def c_realloc_def)
    show thesis
    proof (rule that [OF eq])
      show "am_wf m1" using True lt c nb(2) blk by (intro am_wfI [OF blk]) (auto simp: m1_def)
      show "am_data m1 = am_data m" using True lt c blk by (simp add: am_data_def m1_def min_def)
    qed (use True nb nb0 in \<open>auto simp: m1_def nb0_def split: if_splits\<close>)
  next
    case False
    then have "nb = buffersize m"
      using nb(3) nb0(3) by (simp add: word_less_nat_alt word_unat_eq_iff)
    with False show thesis using wf nb eq by (intro that [OF eq]) (auto simp: m1_def)
  qed
qed

lemma automem_append_ok:
  assumes "am_wf m" "unat (am_size m) + length bs < 2 ^ 31" "\<forall>n. al n"
  shows "\<exists>m'. automem_append_voidp al m bs (of_nat (length bs)) = Inr (m', int (length bs))
     \<and> am_wf m' \<and> am_data m' = am_data m @ bs
     \<and> buffersize m \<le> buffersize m'
     \<and> (buffersize m' = buffersize m \<or> unat (buffersize m') < 2 * length (am_data m')
        \<or> unat (buffersize m') = length bs)"
proof -
  define len :: u32 where "len = of_nat (length bs)"
  have len: "unat len = length bs"
    using assms(2) by (simp add: len_def unat_of_nat_u32)
  obtain m1 where m1: "automem_ensure_newspace al m len = Inr m1" "am_wf m1"
    "am_size m1 = am_size m" "am_data m1 = am_data m"
    "unat (am_size m) + unat len \<le> unat (buffersize m1)"
    "unat (buffersize m) \<le> unat (buffersize m1)"
    "buffersize m1 = buffersize m \<or> buffersize m1 = len
       \<or> unat (buffersize m1) < 2 * (unat (am_size m) + unat len)"
    using assms(2) len by (auto intro: automem_ensure_newspace_ok [OF assms(1) _ assms(3), of len])
  obtain c where c: "pdata m1 = Some c" "length c = unat (buffersize m1)"
    using m1(2) by (rule am_wfE)
  define c' where "c' = take (unat (am_size m)) c @ bs @ drop (unat (am_size m) + length bs) c"
  define m' where "m' = m1\<lparr>am_size := am_size m + len, pdata := Some c'\<rparr>"
  have sum: "unat (am_size m + len) = unat (am_size m) + length bs"
    using assms(2) len by (simp add: unat_word_ariths)
  have "automem_append_voidp al m bs len = Inr (m', int (length bs))"
    using m1(1,3,5) c len assms(2)
    by (simp add: automem_append_voidp_def mem_simps c_memcpy_Some sint_small m'_def c'_def)
  moreover have "am_wf m'"
    using m1(5) c sum len by (intro am_wfI [of _ c']) (auto simp: m'_def c'_def)
  moreover have data: "am_data m' = am_data m @ bs"
  proof -
    have "am_data m' = take (unat (am_size m)) c @ bs"
      using m1(5) c sum len by (simp add: am_data_def m'_def c'_def mem_simps)
    also have "take (unat (am_size m)) c = am_data m1" using c m1(3) by (simp add: am_data_def)
    finally show ?thesis using m1(4) by simp
  qed
  moreover have "length (am_data m') = unat (am_size m) + length bs"
    using data assms(1) by simp
  ultimately show ?thesis
    using m1(6,7) len by (auto simp: m'_def word_le_nat_alt len_def [symmetric])
qed

text \<open>
  Appending \<open>length bs\<close> bytes to a well-formed buffer (fewer than 2 GiB in all,
  allocations succeeding) never faults, keeps the buffer well formed, leaves the
  bytes already there unchanged and puts exactly \<open>bs\<close> after them; the capacity
  never shrinks and grows to less than twice what is needed.
\<close>

theorem automem_append_voidp_ok:
  assumes "am_wf m" "unat (am_size m) + length bs < 2 ^ 31" "\<forall>n. al n"
  shows "\<exists>m'. automem_append_voidp al m bs (of_nat (length bs)) = Inr (m', int (length bs))
     \<and> am_wf m' \<and> am_data m' = am_data m @ bs
     \<and> buffersize m \<le> buffersize m'
     \<and> (buffersize m' = buffersize m \<or> unat (buffersize m') < 2 * length (am_data m')
        \<or> unat (buffersize m') = length bs)"
  using assms by (rule automem_append_ok)

theorem automem_append_voidp_ok_witness:
  "\<exists>m'. automem_append_voidp (\<lambda>_. True) (automem_init (\<lambda>_. True) undefined 2)
      [Some 1, Some 2, Some 3] 3 = Inr (m', 3)
     \<and> am_wf m' \<and> am_data m' = [Some 1, Some 2, Some 3]"
  using automem_append_voidp_ok [of "automem_init (\<lambda>_. True) undefined 2"
      "[Some 1, Some 2, Some 3]" "\<lambda>_. True"]
  by (auto simp: automem_init_ok) (auto simp: automem_init_def Let_def)

text \<open>
  Removing a prefix: both variants drop the first \<open>k\<close> bytes of the contents (all
  of them when there are fewer) and return what is left.
\<close>

lemma block_shift_left:
  assumes "length c = n" "k < s" "s \<le> n"
  shows "take (s - k) (take (s - k) (drop k c) @ drop (s - k) c) = drop k (take s c)"
  using assms by (simp add: drop_take)

lemma automem_erase_ok:
  assumes "am_wf m"
  shows "\<exists>m'. automem_erase m k = Inr (m', sint (am_size m')) \<and> am_wf m'
     \<and> am_data m' = drop (unat k) (am_data m) \<and> buffersize m' = buffersize m"
proof -
  obtain c where c: "pdata m = Some c" "length c = unat (buffersize m)"
    "unat (am_size m) \<le> unat (buffersize m)" using assms by (rule am_wfE)
  show ?thesis
  proof (cases "k < am_size m")
    case True
    then have k: "unat k < unat (am_size m)" "unat (am_size m - k) = unat (am_size m) - unat k"
      by (auto simp: word_less_nat_alt unat_sub word_le_nat_alt)
    define c' where "c' = take (unat (am_size m) - unat k) (drop (unat k) c) @
      drop (unat (am_size m) - unat k) c"
    define m' where "m' = m\<lparr>am_size := am_size m - k, pdata := Some c'\<rparr>"
    have "automem_erase m k = Inr (m', sint (am_size m'))"
      using True k c
      by (simp add: automem_erase_def c_block_read_def mem_simps c_memcpy_Some m'_def c'_def)
    moreover have "am_wf m'"
      using c k by (intro am_wfI [of _ c']) (auto simp: m'_def c'_def)
    moreover have "am_data m' = drop (unat k) (am_data m)"
      using c k block_shift_left [OF c(2) k(1) c(3)] by (simp add: am_data_def m'_def c'_def)
    ultimately show ?thesis by (auto simp: m'_def)
  next
    case False
    then have "unat (am_size m) \<le> unat k" by (simp add: word_less_nat_alt)
    with False c show ?thesis
      by (auto simp: automem_erase_def am_data_def intro!: exI [of _ "m\<lparr>am_size := 0\<rparr>"] am_wfI)
  qed
qed

text \<open>
  Erasing a prefix with \<open>automem_erase_ex\<close> keeps exactly the remaining bytes and
  leaves at most \<open>limit\<close> (or the default of 128) bytes of unused capacity, as long
  as \<open>size + limit\<close> does not wrap around 32 bits.
\<close>

theorem automem_erase_ex_ok:
  assumes "am_wf m" "unat (am_size m) + unat limit < 2 ^ 32" "\<forall>n. al n"
  shows "\<exists>m'. automem_erase_ex al m k limit = Inr (m', sint (am_size m')) \<and> am_wf m'
     \<and> am_data m' = drop (unat k) (am_data m)
     \<and> unat (buffersize m') \<le> unat (am_size m') + max (unat limit) 128"
proof -
  obtain c where c: "pdata m = Some c" "length c = unat (buffersize m)"
    "unat (am_size m) \<le> unat (buffersize m)" using assms(1) by (rule am_wfE)
  show ?thesis
  proof (cases "k < am_size m")
    case True
    define n where "n = am_size m - k"
    have k: "unat k < unat (am_size m)" and n: "unat n = unat (am_size m) - unat k"
      using True by (auto simp: word_less_nat_alt unat_sub word_le_nat_alt n_def)
    have nl: "unat (n + limit) = unat n + unat limit"
      using assms(2) n by (simp add: unat_word_ariths)
    define bs where "bs = take (unat n) (drop (unat k) c)"
    have bs: "length bs = unat n" "bs = drop (unat k) (take (unat (am_size m)) c)"
      using c k n by (simp_all add: bs_def drop_take)
    define big where "big \<longleftrightarrow> buffersize m > n + limit"
    define m' where "m' = (if big
      then m\<lparr>am_size := n, buffersize := n + limit,
             pdata := Some (bs @ drop (unat n) (replicate (unat (n + limit)) None))\<rparr>
      else m\<lparr>am_size := n, pdata := Some (bs @ drop (unat n) c)\<rparr>)"
    have "automem_erase_ex al m k limit = Inr (m', sint (am_size m'))"
      using True c k n nl bs(1) assms(3)
      by (simp add: automem_erase_ex_def Let_def c_block_read_def mem_simps c_memcpy_Some
          c_malloc_def m'_def big_def bs_def n_def)
    moreover have "am_wf m'"
      using c k n nl bs(1) by (cases big) (auto simp: m'_def intro!: am_wfI)
    moreover have "am_data m' = drop (unat k) (am_data m)"
      using c bs by (cases big) (auto simp: am_data_def m'_def)
    moreover have "unat (buffersize m') \<le> unat (am_size m') + max (unat limit) 128"
      using nl by (cases big) (auto simp: m'_def big_def word_less_nat_alt)
    ultimately show ?thesis by blast
  next
    case False
    then have le: "unat (am_size m) \<le> unat k" by (simp add: word_less_nat_alt)
    define m' where "m' = (if buffersize m > limit
      then automem_init al (automem_uninit (m\<lparr>am_size := 0\<rparr>)) limit else m\<lparr>am_size := 0\<rparr>)"
    have "automem_erase_ex al m k limit = Inr (m', sint (am_size m'))"
      using False by (simp add: automem_erase_ex_def m'_def automem_init_def Let_def)
    moreover have "am_wf m'" "am_data m' = []"
      "unat (buffersize m') \<le> max (unat limit) 128"
      using automem_init_ok [OF assms(3)] c
      by (auto simp: m'_def am_data_def word_less_nat_alt intro!: am_wfI)
    ultimately show ?thesis using le c by (auto simp: am_data_def)
  qed
qed

theorem automem_erase_ex_ok_witness:
  "\<exists>m'. automem_erase_ex (\<lambda>_. True) \<lparr>am_size = 3, buffersize = 4, pdata = Some [Some 7, Some 8, Some 9, None]\<rparr> 1 1
     = Inr (m', sint (am_size m')) \<and> am_data m' = [Some 8, Some 9]"
  using automem_erase_ex_ok [of "\<lparr>am_size = 3, buffersize = 4, pdata = Some [Some 7, Some 8, Some 9, None]\<rparr>"
      1 "\<lambda>_. True" 1]
  by (auto simp: am_wf_def am_data_def)

text \<open>
  \<open>automem_attach\<close> asks for \<open>len - buffersize\<close> more bytes although the new
  contents start at offset 0, so whenever that much is still free the block is not
  enlarged and the \<open>memcpy\<close> writes past its end.
\<close>

theorem automem_attach_overflow:
  assumes "am_wf m" "unat (buffersize m) < length src" "length src < 2 ^ 32"
    "length src + unat (am_size m) \<le> 2 * unat (buffersize m)"
  shows "automem_attach al m src (of_nat (length src)) = Inl Out_of_bounds"
proof -
  obtain c where c: "pdata m = Some c" "length c = unat (buffersize m)"
    "unat (am_size m) \<le> unat (buffersize m)" using assms(1) by (rule am_wfE)
  define len :: u32 where "len = of_nat (length src)"
  have len: "unat len = length src" using assms(3) by (simp add: len_def unat_of_nat_u32)
  have gt: "len > buffersize m" using assms(2) len by (simp add: word_less_nat_alt)
  define d where "d = len - buffersize m"
  have d: "unat d = length src - unat (buffersize m)"
    using assms(2) len by (simp add: d_def unat_sub word_le_nat_alt)
  have nogrow: "\<not> buffersize m < d" "\<not> buffersize m - am_size m < d"
    using d assms(4) c(3) by (auto simp: word_less_nat_alt unat_sub word_le_nat_alt)
  have "grow_loop 33 (buffersize m) (am_size m) d = Inr (buffersize m)"
    using nogrow(2) grow_loop.simps(2) [of 32] by simp
  then have "automem_ensure_newspace al m d = Inr m"
    using nogrow(1) by (simp add: automem_ensure_newspace_def Let_def)
  then show ?thesis
    using gt c len assms(2)
    by (simp add: automem_attach_def d_def len_def [symmetric] mem_simps c_memcpy_def mem_write_def)
qed

theorem automem_attach_overflow_witness:
  "automem_attach (\<lambda>_. True) (automem_init (\<lambda>_. True) undefined 128) (replicate 200 (Some 0))
     (of_nat (length (replicate 200 (Some 0 :: cell)))) = Inl Out_of_bounds"
proof (rule automem_attach_overflow)
  show "am_wf (automem_init (\<lambda>_. True) undefined 128)" by (simp add: automem_init_ok)
qed (simp_all add: automem_init_def Let_def)

section \<open>The buffer as a byte sink\<close>

text \<open>
  What the serialiser relies on: putting bytes into a well-formed sink that has room
  succeeds, and appends them. Its clients only put lists of bytes.
\<close>

locale byte_sink =
  fixes sink_wf :: "'m \<Rightarrow> bool"
    and sink_data :: "'m \<Rightarrow> cell list"
    and put :: "'m \<Rightarrow> u8 list \<Rightarrow> 'm res"
    and lim :: nat
  assumes put_ok: "sink_wf m \<Longrightarrow> length (sink_data m) + length bs \<le> lim \<Longrightarrow>
      \<exists>m'. put m bs = Inr m' \<and> sink_wf m' \<and> sink_data m' = sink_data m @ map Some bs"
begin

definition sinks :: "('m \<Rightarrow> 'm res) \<Rightarrow> u8 list \<Rightarrow> bool" where
  "sinks f bs \<longleftrightarrow> (\<forall>m. sink_wf m \<longrightarrow> length (sink_data m) + length bs \<le> lim \<longrightarrow>
     (\<exists>m'. f m = Inr m' \<and> sink_wf m' \<and> sink_data m' = sink_data m @ map Some bs))"

lemma sinks_put: "sinks (\<lambda>m. put m bs) bs"
  using put_ok by (simp add: sinks_def)

lemma sinks_skip: "sinks Inr []"
  by (simp add: sinks_def)

lemma sinks_bind:
  assumes "sinks f bs" "sinks g cs"
  shows "sinks (\<lambda>m. res_bind (f m) g) (bs @ cs)"
  unfolding sinks_def
proof (intro allI impI)
  fix m assume m: "sink_wf m" "length (sink_data m) + length (bs @ cs) \<le> lim"
  then obtain m1 where m1: "f m = Inr m1" "sink_wf m1" "sink_data m1 = sink_data m @ map Some bs"
    using assms(1) by (auto simp: sinks_def)
  with m assms(2) show "\<exists>m'. res_bind (f m) g = Inr m' \<and> sink_wf m'
      \<and> sink_data m' = sink_data m @ map Some (bs @ cs)"
    by (auto simp: sinks_def)
qed

lemma sinksD:
  "sinks f bs \<Longrightarrow> sink_wf m \<Longrightarrow> length (sink_data m) + length bs \<le> lim \<Longrightarrow>
     \<exists>m'. f m = Inr m' \<and> sink_wf m' \<and> sink_data m' = sink_data m @ map Some bs"
  by (simp add: sinks_def)

end

definition alloc_ok :: "nat \<Rightarrow> bool" where
  "alloc_ok n = True"

definition am_put :: "(nat \<Rightarrow> bool) \<Rightarrow> automem_t \<Rightarrow> u8 list \<Rightarrow> automem_t res" where
  "am_put al m bs =
     res_bind (automem_append_voidp al m (map Some bs) (of_nat (length bs))) (\<lambda>(m', _). Inr m')"

definition am_limit :: nat where
  "am_limit = 2 ^ 31 - 1"

interpretation am_sink: byte_sink am_wf am_data "am_put alloc_ok" am_limit
proof
  fix m :: automem_t and bs :: "u8 list"
  assume "am_wf m" "length (am_data m) + length bs \<le> am_limit"
  then show "\<exists>m'. am_put alloc_ok m bs = Inr m' \<and> am_wf m' \<and> am_data m' = am_data m @ map Some bs"
    using automem_append_ok [of m "map Some bs" alloc_ok] by (auto simp: am_put_def alloc_ok_def am_limit_def)
qed

lemma am_put_byte: "automem_append_byte al m b = am_put al m [b]"
  by (simp add: automem_append_byte_def am_put_def)

lemma automem_append_int_put: "automem_append_int al m n = am_put al m (le_bytes 4 (unat n))"
  by (simp add: automem_append_int_def am_put_def le_bytes_def)

section \<open>Refinement of a byte list\<close>

text \<open>
  The buffer seen from its clients: the operations that change an initialised buffer, and
  what each does to the list of bytes the buffer stands for.  The bytes that
  \<open>automem_alloc\<close> adds are left for the client to write, so that the effect is a relation.
\<close>

datatype am_op =
    Op_append "u8 list"
  | Op_byte u8
  | Op_char u8
  | Op_int u32
  | Op_pchar u64
  | Op_alloc int
  | Op_attach "u8 list"
  | Op_erase u32
  | Op_erase_ex u32 u32
  | Op_reset
  | Op_clean int

fun am_exec :: "(nat \<Rightarrow> bool) \<Rightarrow> am_op \<Rightarrow> automem_t \<Rightarrow> automem_t res" where
  "am_exec al (Op_append bs) m = am_put al m bs"
| "am_exec al (Op_byte b) m = automem_append_byte al m b"
| "am_exec al (Op_char c) m = automem_append_char al m c"
| "am_exec al (Op_int n) m = automem_append_int al m n"
| "am_exec al (Op_pchar p) m = automem_append_pchar al m p"
| "am_exec al (Op_alloc n) m = res_bind (automem_alloc al m n) (\<lambda>(m', _). Inr m')"
| "am_exec al (Op_attach bs) m = automem_attach al m (map Some bs) (of_nat (length bs))"
| "am_exec al (Op_erase k) m = res_bind (automem_erase m k) (\<lambda>(m', _). Inr m')"
| "am_exec al (Op_erase_ex k l) m = res_bind (automem_erase_ex al m k l) (\<lambda>(m', _). Inr m')"
| "am_exec al Op_reset m = Inr (automem_reset m)"
| "am_exec al (Op_clean n) m = Inr (automem_clean al m n)"

fun am_run :: "(nat \<Rightarrow> bool) \<Rightarrow> am_op list \<Rightarrow> automem_t \<Rightarrow> automem_t res" where
  "am_run al [] m = Inr m"
| "am_run al (x # xs) m = res_bind (am_exec al x m) (am_run al xs)"

fun am_spec :: "am_op \<Rightarrow> cell list \<Rightarrow> cell list \<Rightarrow> bool" where
  "am_spec (Op_append bs) d d' = (d' = d @ map Some bs)"
| "am_spec (Op_byte b) d d' = (d' = d @ [Some b])"
| "am_spec (Op_char c) d d' = (d' = d @ [Some c])"
| "am_spec (Op_int n) d d' = (d' = d @ map Some (le_bytes 4 (unat n)))"
| "am_spec (Op_pchar p) d d' = (d' = d @ map Some (le_bytes 8 (unat p)))"
| "am_spec (Op_alloc n) d d' = (take (length d) d' = d \<and> length d' = length d + nat n)"
| "am_spec (Op_attach bs) d d' = (d' = map Some bs)"
| "am_spec (Op_erase k) d d' = (d' = drop (unat k) d)"
| "am_spec (Op_erase_ex k l) d d' = (d' = drop (unat k) d)"
| "am_spec Op_reset d d' = (d' = [])"
| "am_spec (Op_clean n) d d' = (d' = [])"

fun am_specs :: "am_op list \<Rightarrow> cell list \<Rightarrow> cell list \<Rightarrow> bool" where
  "am_specs [] d d' = (d' = d)"
| "am_specs (x # xs) d d' = (\<exists>e. am_spec x d e \<and> am_specs xs e d')"

text \<open>
  When an operation on \<open>n\<close> bytes of contents is safe: the contents stay below 2 GiB, what is
  attached is not longer than the contents (lemma \<open>automem_attach_overflow\<close>), and the limit
  of \<open>automem_erase_ex\<close> does not wrap around.  The length after each operation.
\<close>

fun am_pre :: "am_op \<Rightarrow> nat \<Rightarrow> bool" where
  "am_pre (Op_append bs) n = (n + length bs < 2 ^ 31)"
| "am_pre (Op_byte b) n = (n + 1 < 2 ^ 31)"
| "am_pre (Op_char c) n = (n + 1 < 2 ^ 31)"
| "am_pre (Op_int i) n = (n + 4 < 2 ^ 31)"
| "am_pre (Op_pchar p) n = (n + 8 < 2 ^ 31)"
| "am_pre (Op_alloc k) n = (n + nat k < 2 ^ 31)"
| "am_pre (Op_attach bs) n = (length bs \<le> n)"
| "am_pre (Op_erase_ex k l) n = (n + unat l < 2 ^ 32)"
| "am_pre x n = True"

fun am_len :: "am_op \<Rightarrow> nat \<Rightarrow> nat" where
  "am_len (Op_append bs) n = n + length bs"
| "am_len (Op_byte b) n = n + 1"
| "am_len (Op_char c) n = n + 1"
| "am_len (Op_int i) n = n + 4"
| "am_len (Op_pchar p) n = n + 8"
| "am_len (Op_alloc k) n = n + nat k"
| "am_len (Op_attach bs) n = length bs"
| "am_len (Op_erase k) n = n - unat k"
| "am_len (Op_erase_ex k l) n = n - unat k"
| "am_len x n = 0"

fun am_safe :: "am_op list \<Rightarrow> nat \<Rightarrow> bool" where
  "am_safe [] n = True"
| "am_safe (x # xs) n = (am_pre x n \<and> am_safe xs (am_len x n))"

lemma length_le_bytes [simp]: "length (le_bytes k v) = k"
  by (simp add: le_bytes_def)

lemma am_spec_length: "am_spec x d d' \<Longrightarrow> length d' = am_len x (length d)"
  by (cases x) auto

lemma am_put_refines:
  assumes "am_wf m" "\<forall>n. al n" "length (am_data m) + length bs < 2 ^ 31"
  shows "\<exists>m'. am_put al m bs = Inr m' \<and> am_wf m' \<and> am_data m' = am_data m @ map Some bs"
  using automem_append_ok [of m "map Some bs" al] assms by (auto simp: am_put_def)

lemma automem_alloc_refines:
  assumes "am_wf m" "\<forall>n. al n" "length (am_data m) + nat k < 2 ^ 31"
  shows "\<exists>m' r. automem_alloc al m k = Inr (m', r) \<and> am_wf m' \<and> take (length (am_data m)) (am_data m') = am_data m
     \<and> length (am_data m') = length (am_data m) + nat k"
proof (cases "k > 0")
  case True
  define len :: u32 where "len = of_int k"
  have "len = of_nat (nat k)" using True by (simp add: len_def)
  moreover have "unat (of_nat (nat k) :: u32) = nat k" using assms(3) by (intro unat_of_nat_u32) simp
  ultimately have len: "unat len = nat k" by simp
  have room: "unat (am_size m) + unat len \<le> 2 ^ 31" using assms(1,3) len by simp
  obtain m1 where m1: "automem_ensure_newspace al m len = Inr m1" "am_wf m1" "am_size m1 = am_size m" "am_data m1 = am_data m"
    "unat (am_size m) + unat len \<le> unat (buffersize m1)" by (rule automem_ensure_newspace_ok [OF assms(1) room assms(2)])
  obtain c where c: "pdata m1 = Some c" "length c = unat (buffersize m1)" using m1(2) by (rule am_wfE)
  have sum: "unat (am_size m + len) = unat (am_size m) + nat k" using assms(1,3) len by (simp add: unat_word_ariths)
  let ?m = "m1\<lparr>am_size := am_size m1 + len\<rparr>"
  have wf: "am_wf ?m" using m1(3,5) c sum len by (intro am_wfI [of _ c]) simp_all
  have "take (unat (am_size m)) (am_data ?m) = am_data m1" using c m1(3) sum by (simp add: am_data_def)
  then show ?thesis using m1(1,3,4) wf True assms(1) sum am_data_length [OF wf] by (simp add: automem_alloc_def len_def [symmetric])
qed (use assms(1) in \<open>simp add: automem_alloc_def\<close>)

lemma automem_attach_refines:
  assumes "am_wf m" "length bs \<le> length (am_data m)"
  shows "\<exists>m'. automem_attach al m (map Some bs) (of_nat (length bs)) = Inr m' \<and> am_wf m' \<and> am_data m' = map Some bs"
proof -
  obtain c where c: "pdata m = Some c" "length c = unat (buffersize m)" "unat (am_size m) \<le> unat (buffersize m)"
    using assms(1) by (rule am_wfE)
  have le: "length bs \<le> unat (buffersize m)" using assms c(3) by simp
  then have len: "unat (of_nat (length bs) :: u32) = length bs"
    using unsigned_less [where ?'a = nat, of "buffersize m"] by (intro unat_of_nat_u32) simp
  then have "\<not> of_nat (length bs) > buffersize m" using le by (simp add: word_less_nat_alt)
  then have "automem_attach al m (map Some bs) (of_nat (length bs)) =
      Inr (m\<lparr>am_size := of_nat (length bs), pdata := Some (map Some bs @ drop (length bs) c)\<rparr>)"
    using c le len by (simp add: automem_attach_def mem_simps c_memcpy_Some)
  then show ?thesis using c le len by (auto simp: am_data_def intro!: am_wfI)
qed

lemma am_exec_refines:
  assumes wf: "am_wf m" and al: "\<forall>n. al n" and pre: "am_pre x (length (am_data m))"
  shows "\<exists>m'. am_exec al x m = Inr m' \<and> am_wf m' \<and> am_spec x (am_data m) (am_data m')"
proof -
  note put = am_put_refines [OF wf al]
  show ?thesis
  proof (cases x)
    case (Op_append bs) then show ?thesis using put pre by simp
  next
    case (Op_byte b) then show ?thesis using put [of "[b]"] pre by (simp add: am_put_byte)
  next
    case (Op_char c) then show ?thesis using put [of "[c]"] pre by (simp add: automem_append_char_def am_put_def)
  next
    case (Op_int n) then show ?thesis using put [of "le_bytes 4 (unat n)"] pre by (simp add: automem_append_int_put)
  next
    case (Op_pchar p)
    then show ?thesis using put [of "le_bytes 8 (unat p)"] pre by (simp add: automem_append_pchar_def am_put_def)
  next
    case (Op_alloc k) then show ?thesis using automem_alloc_refines [OF wf al, of k] pre by auto
  next
    case (Op_attach bs) then show ?thesis using automem_attach_refines [OF wf] pre by simp
  next
    case (Op_erase k) then show ?thesis using automem_erase_ok [OF wf, of k] by auto
  next
    case (Op_erase_ex k l) then show ?thesis using automem_erase_ex_ok [OF wf _ al, of l k] pre wf by auto
  next
    case Op_reset then show ?thesis using wf by (auto simp: automem_reset_def am_data_def elim!: am_wfE intro!: am_wfI)
  next
    case (Op_clean n) then show ?thesis using automem_init_ok [OF al] by (auto simp: automem_clean_def)
  qed
qed



text \<open>
  An append that has to enlarge the block writes to a null pointer when the allocator refuses:
  the result of \<open>realloc\<close> is not looked at.
\<close>

lemma automem_append_refused:
  assumes "am_wf m" "unat (am_size m) + length bs < 2 ^ 31" "unat (buffersize m) < unat (am_size m) + length bs" "\<forall>n. \<not> al n"
  shows "automem_append_voidp al m (map Some bs) (of_nat (length bs)) = Inl Null_deref"
proof -
  define len :: u32 where "len = of_nat (length bs)"
  have len: "unat len = length bs" using assms(2) by (simp add: len_def unat_of_nat_u32)
  obtain c where c: "pdata m = Some c" "unat (am_size m) \<le> unat (buffersize m)" using assms(1) by (auto elim: am_wfE)
  define nb0 where "nb0 = (if buffersize m < len then len else buffersize m)"
  have nb0: "unat (am_size m) \<le> unat nb0" "unat len \<le> unat nb0"
    using c(2) by (auto simp: nb0_def word_less_nat_alt)
  obtain nb where nb: "grow_loop 33 nb0 (am_size m) len = Inr nb" "unat (am_size m) + unat len \<le> unat nb"
    using grow_loop_ok [of "am_size m" len nb0] nb0 assms(2) len by auto
  have "nb > buffersize m" using nb(2) len assms(3) by (simp add: word_less_nat_alt)
  then have "automem_ensure_newspace al m len = Inr (m\<lparr>pdata := None, buffersize := nb\<rparr>)"
    using nb(1) c(1) assms(4) by (simp add: automem_ensure_newspace_def nb0_def [symmetric] Let_def c_realloc_def)
  then show ?thesis using len by (simp add: automem_append_voidp_def len_def [symmetric] mem_simps c_memcpy_def)
qed

end
