(* ===== verification/Minheap.thy ===== *)
theory Minheap
  imports Prelude "HOL-Library.Multiset"
begin

text \<open>
  The pointer heap of \<open>libuv-lua/src/minheap.c\<close>. Nodes live in a store indexed by
  their address; the heap's array \<open>p\<close> holds addresses and every node holds its own
  position, -1 when it is in no heap. Array accesses outside the allocated capacity
  are faults. Positions are naturals: they agree with the \<open>unsigned\<close> and \<open>int32_t\<close>
  arithmetic of the code while the heap has fewer than \<open>2 ^ 31\<close> entries, a bound
  that is part of the invariant. A slot the code has not written yet holds 0. The
  trailing underscore of the static functions is dropped from their names.
\<close>

type_synonym ptr = nat

record minheapnode =
  minheap_idx :: int
  ev_timeout :: int

type_synonym nstore = "ptr \<Rightarrow> minheapnode"

record min_heap =
  hp :: "ptr list"
  hn :: nat
  ha :: nat

definition minheap_elem_greater :: "nstore \<Rightarrow> ptr \<Rightarrow> ptr \<Rightarrow> bool" where
  "minheap_elem_greater ns a b \<longleftrightarrow> ev_timeout (ns a) > ev_timeout (ns b)"

definition minheap_init :: "min_heap" where
  "minheap_init = \<lparr>hp = [], hn = 0, ha = 0\<rparr>"

definition minheap_uninit :: "min_heap \<Rightarrow> min_heap" where
  "minheap_uninit s = s\<lparr>hp := [], hn := 0, ha := 0\<rparr>"

definition minheap_empty :: "min_heap \<Rightarrow> bool" where
  "minheap_empty s \<longleftrightarrow> hn s = 0"

definition minheap_size :: "min_heap \<Rightarrow> nat" where
  "minheap_size s = hn s"

definition minheap_elem_init :: "nstore \<Rightarrow> ptr \<Rightarrow> nstore" where
  "minheap_elem_init ns e = ns(e := (ns e)\<lparr>minheap_idx := -1\<rparr>)"

definition minheap_elm_is_top :: "nstore \<Rightarrow> ptr \<Rightarrow> bool" where
  "minheap_elm_is_top ns e \<longleftrightarrow> minheap_idx (ns e) = 0"

definition minheap_elm_inheap :: "nstore \<Rightarrow> ptr \<Rightarrow> bool" where
  "minheap_elm_inheap ns e \<longleftrightarrow> minheap_idx (ns e) \<noteq> -1"

text \<open>The assignment \<open>(s->p[i] = x)->minheap_idx = i\<close>.\<close>

definition mh_put :: "nstore \<Rightarrow> min_heap \<Rightarrow> nat \<Rightarrow> ptr \<Rightarrow> (nstore \<times> min_heap) res" where
  "mh_put ns s i x =
     res_bind (mem_set (hp s) i x) (\<lambda>p.
       Inr (ns(x := (ns x)\<lparr>minheap_idx := int i\<rparr>), s\<lparr>hp := p\<rparr>))"

lemma mh_put_hn: "mh_put ns s i x = Inr (ns', s') \<Longrightarrow> hn s' = hn s"
  by (auto simp: mh_put_def res_simps)

text \<open>
  \<open>realloc\<close> of the array: \<open>al\<close> says whether the request of \<open>n\<close> pointers succeeds. The
  doubled capacity is a 32-bit product.
\<close>

definition minheap_reserve ::
    "(nat \<Rightarrow> bool) \<Rightarrow> min_heap \<Rightarrow> nat \<Rightarrow> min_heap \<times> int" where
  "minheap_reserve al s n =
     (if ha s < n
      then (let a0 = (if ha s \<noteq> 0 then ha s * 2 mod 2 ^ 32 else 8);
                a = (if a0 < n then n else a0)
            in if al a
               then (s\<lparr>hp := take a (hp s) @ replicate (a - length (hp s)) 0, ha := a\<rparr>, 0)
               else (s, -1))
      else (s, 0))"

fun minheap_shift_up ::
    "nstore \<Rightarrow> min_heap \<Rightarrow> nat \<Rightarrow> ptr \<Rightarrow> (nstore \<times> min_heap) res" where
  "minheap_shift_up ns s hole e =
     (if hole = 0 then mh_put ns s hole e
      else res_bind (mem_get (hp s) ((hole - 1) div 2)) (\<lambda>pe.
             if minheap_elem_greater ns pe e
             then res_bind (mh_put ns s hole pe) (\<lambda>(ns1, s1).
                    minheap_shift_up ns1 s1 ((hole - 1) div 2) e)
             else mh_put ns s hole e))"

text \<open>
  \<open>min_child -= min_child == s->n || minheap_elem_greater(...)\<close>: the smaller of the two
  children, the second of which may not exist.
\<close>

definition mh_min_child :: "nstore \<Rightarrow> min_heap \<Rightarrow> nat \<Rightarrow> nat res" where
  "mh_min_child ns s mc =
     (if mc = hn s then Inr (mc - 1)
      else res_bind (mem_get (hp s) mc) (\<lambda>r.
           res_bind (mem_get (hp s) (mc - 1)) (\<lambda>l.
             Inr (if minheap_elem_greater ns r l then mc - 1 else mc))))"

lemma mh_min_child_cases: "mh_min_child ns s mc = Inr c \<Longrightarrow> c = mc \<or> c = mc - 1"
  by (auto simp: mh_min_child_def res_simps split: if_splits)

function minheap_shift_down ::
    "nstore \<Rightarrow> min_heap \<Rightarrow> nat \<Rightarrow> ptr \<Rightarrow> (nstore \<times> min_heap) res" where
  "minheap_shift_down ns s hole e =
     (if 2 * (hole + 1) \<le> hn s
      then res_bind (mh_min_child ns s (2 * (hole + 1))) (\<lambda>mc.
           res_bind (mem_get (hp s) mc) (\<lambda>ce.
             if \<not> minheap_elem_greater ns e ce then mh_put ns s hole e
             else res_bind (mh_put ns s hole ce) (\<lambda>(ns1, s1).
                    minheap_shift_down ns1 s1 mc e)))
      else mh_put ns s hole e)"
  by pat_completeness auto
termination
proof (relation "measure (\<lambda>(ns, s, hole, e). hn s - hole)", goal_cases)
  case (2 ns s hole e mc ce r ns1 s1)
  then show ?case
    by (auto dest!: mh_min_child_cases mh_put_hn)
qed simp

declare minheap_shift_up.simps [simp del] minheap_shift_down.simps [simp del]

text \<open>
  The \<open>do ... while\<close> variant. At \<open>hole = 0\<close>, which no caller passes, the unsigned
  \<open>(hole_index - 1) / 2\<close> is \<open>2 ^ 31 - 1\<close>.
\<close>

definition mh_parent :: "nat \<Rightarrow> nat" where
  "mh_parent h = (if h = 0 then 2147483647 else (h - 1) div 2)"

function minheap_shift_up_unconditional ::
    "nstore \<Rightarrow> min_heap \<Rightarrow> nat \<Rightarrow> ptr \<Rightarrow> (nstore \<times> min_heap) res" where
  "minheap_shift_up_unconditional ns s hole e =
     res_bind (mem_get (hp s) (mh_parent hole)) (\<lambda>pe.
     res_bind (mh_put ns s hole pe) (\<lambda>(ns1, s1).
       if mh_parent hole = 0 then mh_put ns1 s1 (mh_parent hole) e
       else res_bind (mem_get (hp s1) (mh_parent (mh_parent hole))) (\<lambda>ge.
              if minheap_elem_greater ns1 ge e
              then minheap_shift_up_unconditional ns1 s1 (mh_parent hole) e
              else mh_put ns1 s1 (mh_parent hole) e)))"
  by pat_completeness auto
termination
  by (relation "measure (\<lambda>(ns, s, hole, e). if hole = 0 then 4294967296 else hole)")
    (auto simp: mh_parent_def)

declare minheap_shift_up_unconditional.simps [simp del]

definition minheap_push ::
    "(nat \<Rightarrow> bool) \<Rightarrow> nstore \<Rightarrow> min_heap \<Rightarrow> ptr \<Rightarrow> ((nstore \<times> min_heap) \<times> int) res" where
  "minheap_push al ns s e =
     (let (s1, r) = minheap_reserve al s (hn s + 1)
      in if r \<noteq> 0 then Inr ((ns, s1), -1)
         else res_bind (minheap_shift_up ns (s1\<lparr>hn := hn s1 + 1\<rparr>) (hn s1) e) (\<lambda>st. Inr (st, 0)))"

definition minheap_pop ::
    "nstore \<Rightarrow> min_heap \<Rightarrow> ((nstore \<times> min_heap) \<times> ptr option) res" where
  "minheap_pop ns s =
     (if hn s \<noteq> 0
      then res_bind (mem_get (hp s) 0) (\<lambda>e.
           res_bind (mem_get (hp s) (hn s - 1)) (\<lambda>last.
           res_bind (minheap_shift_down ns (s\<lparr>hn := hn s - 1\<rparr>) 0 last) (\<lambda>(ns1, s1).
             Inr ((ns1(e := (ns1 e)\<lparr>minheap_idx := -1\<rparr>), s1), Some e))))
      else Inr ((ns, s), None))"

text \<open>
  Moving \<open>x\<close> into the slot \<open>idx\<close> (an \<open>int32_t\<close> passed as \<open>unsigned\<close>): the choice between the two shifts that
  \<open>minheap_erase\<close> and \<open>minheap_adjust\<close> both make.
\<close>

definition mh_shift_at ::
    "nstore \<Rightarrow> min_heap \<Rightarrow> int \<Rightarrow> ptr \<Rightarrow> (nstore \<times> min_heap) res" where
  "mh_shift_at ns s idx x =
     (let i = nat (idx mod 2 ^ 32)
      in if idx > 0
         then res_bind (mem_get (hp s) ((i - 1) div 2)) (\<lambda>pe.
                if minheap_elem_greater ns pe x
                then minheap_shift_up_unconditional ns s i x
                else minheap_shift_down ns s i x)
         else minheap_shift_down ns s i x)"

definition minheap_erase ::
    "nstore \<Rightarrow> min_heap \<Rightarrow> ptr \<Rightarrow> ((nstore \<times> min_heap) \<times> int) res" where
  "minheap_erase ns s e =
     (if minheap_idx (ns e) \<noteq> -1
      then if hn s = 0 then Inl Out_of_bounds
      else res_bind (mem_get (hp s) (hn s - 1)) (\<lambda>last.
           res_bind (mh_shift_at ns (s\<lparr>hn := hn s - 1\<rparr>) (minheap_idx (ns e)) last) (\<lambda>(ns1, s1).
             Inr ((ns1(e := (ns1 e)\<lparr>minheap_idx := -1\<rparr>), s1), 0)))
      else Inr ((ns, s), -1))"

definition minheap_adjust ::
    "(nat \<Rightarrow> bool) \<Rightarrow> nstore \<Rightarrow> min_heap \<Rightarrow> ptr \<Rightarrow> ((nstore \<times> min_heap) \<times> int) res" where
  "minheap_adjust al ns s e =
     (if minheap_idx (ns e) = -1 then minheap_push al ns s e
      else res_bind (mh_shift_at ns s (minheap_idx (ns e)) e) (\<lambda>st. Inr (st, 0)))"

section \<open>The invariant\<close>

definition par :: "nat \<Rightarrow> nat" where
  "par i = (i - 1) div 2"

definition heap_ok :: "(ptr \<Rightarrow> int) \<Rightarrow> ptr list \<Rightarrow> nat \<Rightarrow> bool" where
  "heap_ok tm ys n \<longleftrightarrow> (\<forall>i. 0 < i \<and> i < n \<longrightarrow> tm (ys ! par i) \<le> tm (ys ! i))"

definition mh_elems :: "min_heap \<Rightarrow> ptr list" where
  "mh_elems s = take (hn s) (hp s)"

definition idx_ok :: "nstore \<Rightarrow> ptr list \<Rightarrow> nat \<Rightarrow> bool" where
  "idx_ok ns p n \<longleftrightarrow> (\<forall>i<n. minheap_idx (ns (p ! i)) = int i)"

abbreviation tmo :: "nstore \<Rightarrow> ptr \<Rightarrow> int" where
  "tmo ns x \<equiv> ev_timeout (ns x)"

definition mh_wf :: "nstore \<Rightarrow> min_heap \<Rightarrow> bool" where
  "mh_wf ns s \<longleftrightarrow> length (hp s) = ha s \<and> hn s \<le> ha s \<and> hn s < 2 ^ 31 \<and> ha s < 2 ^ 32
     \<and> distinct (mh_elems s) \<and> idx_ok ns (hp s) (hn s) \<and> heap_ok (tmo ns) (hp s) (hn s)"

text \<open>
  The shifts carry a hole at \<open>h\<close> that \<open>e\<close> will fill. Of the array with \<open>e\<close> put in the
  hole, all but one edge is ordered: the edge above the hole while shifting up, the
  edges below it while shifting down.
\<close>

definition up_ok :: "(ptr \<Rightarrow> int) \<Rightarrow> ptr list \<Rightarrow> nat \<Rightarrow> nat \<Rightarrow> bool" where
  "up_ok tm ys n h \<longleftrightarrow>
     (\<forall>i. 0 < i \<and> i < n \<and> i \<noteq> h \<longrightarrow> tm (ys ! par i) \<le> tm (ys ! i)) \<and>
     (\<forall>i. 0 < i \<and> i < n \<and> par i = h \<and> 0 < h \<longrightarrow> tm (ys ! par h) \<le> tm (ys ! i))"

definition down_ok :: "(ptr \<Rightarrow> int) \<Rightarrow> ptr list \<Rightarrow> nat \<Rightarrow> nat \<Rightarrow> bool" where
  "down_ok tm ys n h \<longleftrightarrow>
     (\<forall>i. 0 < i \<and> i < n \<and> par i \<noteq> h \<longrightarrow> tm (ys ! par i) \<le> tm (ys ! i)) \<and>
     (\<forall>i. 0 < i \<and> i < n \<and> par i = h \<and> 0 < h \<longrightarrow> tm (ys ! par h) \<le> tm (ys ! i))"

definition slots_ok :: "nstore \<Rightarrow> ptr list \<Rightarrow> nat \<Rightarrow> nat \<Rightarrow> ptr \<Rightarrow> bool" where
  "slots_ok ns p n h e \<longleftrightarrow> n \<le> length p \<and> h < n \<and> distinct (take n (p[h := e])) \<and>
     (\<forall>i<n. i \<noteq> h \<longrightarrow> minheap_idx (ns (p ! i)) = int i)"

text \<open>What a shift that puts \<open>e\<close> into the hole of \<open>p\<close> has achieved.\<close>

definition placed :: "nstore \<Rightarrow> ptr list \<Rightarrow> nat \<Rightarrow> nat \<Rightarrow> ptr \<Rightarrow> nstore \<Rightarrow> ptr list \<Rightarrow> bool" where
  "placed ns p n h e ns' p' \<longleftrightarrow>
     length p' = length p \<and> mset (take n p') = mset (take n (p[h := e])) \<and>
     idx_ok ns' p' n \<and> heap_ok (tmo ns) p' n \<and> (\<forall>x. tmo ns' x = tmo ns x) \<and>
     (\<forall>x. x \<notin> set (take n (p[h := e])) \<longrightarrow> ns' x = ns x)"

lemma par_less: "0 < i \<Longrightarrow> par i < i"
  by (auto simp: par_def)

lemma par_eq_iff: "0 < i \<Longrightarrow> par i = h \<longleftrightarrow> i = 2 * h + 1 \<or> i = 2 * h + 2"
  by (auto simp: par_def)

lemma mset_move_hole:
  assumes "n \<le> length p" "h < n" "q < n" "h \<noteq> q"
  shows "mset (take n (p[h := p ! q, q := e])) = mset (take n (p[h := e]))"
proof -
  define ls where "ls = take n (p[h := e])"
  have len: "length ls = n" using assms by (simp add: ls_def)
  have "take n (p[h := p ! q, q := e]) = ls[q := ls ! h, h := ls ! q]"
    using assms by (intro nth_equalityI) (auto simp: ls_def nth_list_update)
  then show ?thesis
    using assms len mset_swap [of h ls q] by (simp add: ls_def)
qed

lemma distinct_take_nth:
  "distinct (take n ys) \<Longrightarrow> n \<le> length ys \<Longrightarrow> i < n \<Longrightarrow> j < n \<Longrightarrow> ys ! i = ys ! j \<longleftrightarrow> i = j"
  using nth_eq_iff_index_eq [of "take n ys" i j] by simp

lemma slots_move:
  assumes "slots_ok ns p n h e" "q < n" "q \<noteq> h"
  shows "slots_ok (ns(p ! q := (ns (p ! q))\<lparr>minheap_idx := int h\<rparr>)) (p[h := p ! q]) n q e"
proof -
  have p: "n \<le> length p" "h < n" "distinct (take n (p[h := e]))"
    "\<And>i. i < n \<Longrightarrow> i \<noteq> h \<Longrightarrow> minheap_idx (ns (p ! i)) = int i"
    using assms(1) by (auto simp: slots_ok_def)
  have "distinct (take n (p[h := p ! q, q := e]))"
    using mset_move_hole [of n p h q e] p assms(2,3) by (metis mset_eq_imp_distinct_iff)
  moreover have "p ! i \<noteq> p ! q" if "i < n" "i \<noteq> q" "i \<noteq> h" for i
    using distinct_take_nth [OF p(3), of i q] p(1,2) that assms(2,3)
    by (auto simp: nth_list_update split: if_splits)
  ultimately show ?thesis
    using p assms(2,3) by (auto simp: slots_ok_def nth_list_update)
qed

lemma placed_trans:
  assumes "placed ns1 (p[h := p ! q]) n q e ns' p'"
    and "n \<le> length p" "h < n" "q < n" "q \<noteq> h"
    and "ns1 = ns(p ! q := (ns (p ! q))\<lparr>minheap_idx := int h\<rparr>)"
  shows "placed ns p n h e ns' p'"
proof -
  have ms: "mset (take n (p[h := p ! q, q := e])) = mset (take n (p[h := e]))"
    using assms(2-5) by (intro mset_move_hole) auto
  then have st: "set (take n (p[h := p ! q, q := e])) = set (take n (p[h := e]))"
    by (metis set_mset_mset)
  have "p ! q \<in> set (take n (p[h := e]))"
    using nth_in_set_take [of q n "p[h := e]"] assms(2-5) by simp
  moreover have "tmo ns1 = tmo ns" using assms(6) by auto
  ultimately show ?thesis
    using assms(1,6) ms st by (auto simp: placed_def)
qed

lemma mh_put_ok:
  "i < length (hp s) \<Longrightarrow>
     mh_put ns s i x = Inr (ns(x := (ns x)\<lparr>minheap_idx := int i\<rparr>), s\<lparr>hp := (hp s)[i := x]\<rparr>)"
  by (simp add: mh_put_def mem_simps)

lemma placed_here:
  assumes "slots_ok ns p n h e" "heap_ok (tmo ns) (p[h := e]) n"
  shows "placed ns p n h e (ns(e := (ns e)\<lparr>minheap_idx := int h\<rparr>)) (p[h := e])"
proof -
  have p: "n \<le> length p" "h < n" "distinct (take n (p[h := e]))"
    "\<And>i. i < n \<Longrightarrow> i \<noteq> h \<Longrightarrow> minheap_idx (ns (p ! i)) = int i"
    using assms(1) by (auto simp: slots_ok_def)
  have "p ! i \<noteq> e" if "i < n" "i \<noteq> h" for i
    using distinct_take_nth [OF p(3), of i h] p(1,2) that by (auto simp: nth_list_update)
  moreover have "e \<in> set (take n (p[h := e]))"
    using nth_in_set_take [of h n "p[h := e]"] p(1,2) by simp
  ultimately show ?thesis
    using p assms(2) by (auto simp: placed_def idx_ok_def nth_list_update)
qed

section \<open>The shifts\<close>

lemma up_ok_stop:
  assumes "up_ok tm ys n h" "h < n" "h = 0 \<or> tm (ys ! par h) \<le> tm (ys ! h)"
  shows "heap_ok tm ys n"
  using assms unfolding up_ok_def heap_ok_def by (metis not_gr0)

lemma up_ok_move:
  assumes "up_ok tm (p[h := e]) n h" "n \<le> length p" "h < n" "0 < h" "tm (p ! par h) > tm e"
  shows "up_ok tm (p[h := p ! par h, par h := e]) n (par h)"
proof -
  define q where "q = par h"
  have q: "q < h" "q < n" using assms(3,4) par_less [of h] by (auto simp: q_def)
  have e1: "\<And>i. 0 < i \<Longrightarrow> i < n \<Longrightarrow> i \<noteq> h \<Longrightarrow> tm (p[h := e] ! par i) \<le> tm (p[h := e] ! i)"
    and e2: "\<And>i. 0 < i \<Longrightarrow> i < n \<Longrightarrow> par i = h \<Longrightarrow> tm (p[h := e] ! q) \<le> tm (p[h := e] ! i)"
    using assms(1,4) by (auto simp: up_ok_def q_def)
  have pi: "\<And>i. 0 < i \<Longrightarrow> i < n \<Longrightarrow> par i < n \<and> par i < i" by (auto simp: par_def)
  have "tm (p[h := p ! q, q := e] ! par i) \<le> tm (p[h := p ! q, q := e] ! i)"
    if i: "0 < i" "i < n" "i \<noteq> q" for i
  proof (cases "i = h")
    case True
    then show ?thesis using assms q i by (simp add: nth_list_update q_def [symmetric])
  next
    case False
    consider "par i = h" | "par i = q" | "par i \<noteq> h" "par i \<noteq> q" by blast
    then show ?thesis
    proof cases
      case 1
      then show ?thesis using e2 [OF i(1,2) 1] False i q pi [OF i(1,2)] assms(2,3)
        by (simp add: nth_list_update)
    next
      case 2
      then show ?thesis using e1 [OF i(1,2) False] False i q pi [OF i(1,2)] assms
        by (simp add: nth_list_update q_def [symmetric])
    next
      case 3
      then show ?thesis using e1 [OF i(1,2) False] False i q pi [OF i(1,2)] assms(2,3)
        by (simp add: nth_list_update)
    qed
  qed
  moreover have "tm (p[h := p ! q, q := e] ! par q) \<le> tm (p[h := p ! q, q := e] ! i)"
    if i: "0 < i" "i < n" "par i = q" "0 < q" for i
  proof -
    have pq: "par q < q" using i(4) by (rule par_less)
    have a: "tm (p ! par q) \<le> tm (p ! q)"
      using e1 [of q] q pq i(4) assms(2,3) by (simp add: nth_list_update)
    show ?thesis
    proof (cases "i = h")
      case True
      with a q pq assms(2,3) show ?thesis by (simp add: nth_list_update)
    next
      case False
      have "tm (p ! q) \<le> tm (p ! i)"
        using e1 [OF i(1,2) False] i(3) False q assms(2,3) by (simp add: nth_list_update)
      with a False q pq i assms(2,3) par_less [of i] show ?thesis by (simp add: nth_list_update)
    qed
  qed
  ultimately show ?thesis by (auto simp: up_ok_def q_def)
qed

lemma minheap_shift_up_placed:
  assumes "slots_ok ns (hp s) n h e" "up_ok (tmo ns) ((hp s)[h := e]) n h"
  shows "\<exists>ns' p'. minheap_shift_up ns s h e = Inr (ns', s\<lparr>hp := p'\<rparr>)
     \<and> placed ns (hp s) n h e ns' p'"
  using assms
proof (induction ns s h e rule: minheap_shift_up.induct)
  case (1 ns s h e)
  have p: "n \<le> length (hp s)" "h < n" using "1.prems"(1) by (auto simp: slots_ok_def)
  have stop: "\<exists>ns' p'. mh_put ns s h e = Inr (ns', s\<lparr>hp := p'\<rparr>) \<and> placed ns (hp s) n h e ns' p'"
    if "h = 0 \<or> tmo ns (hp s ! par h) \<le> tmo ns e"
  proof -
    have "heap_ok (tmo ns) ((hp s)[h := e]) n"
      using that p par_less [of h] "1.prems"(2)
      by (intro up_ok_stop) (auto simp: nth_list_update)
    then show ?thesis using placed_here [OF "1.prems"(1)] p by (auto simp: mh_put_ok)
  qed
  show ?case
  proof (cases "0 < h \<and> tmo ns (hp s ! par h) > tmo ns e")
    case False
    then show ?thesis
      using stop p
      by (subst minheap_shift_up.simps)
        (auto simp: mem_get_def minheap_elem_greater_def par_def not_less less_imp_le)
  next
    case True
    define q where "q = par h"
    have q: "q < n" "q \<noteq> h" using True p par_less [of h] by (auto simp: q_def)
    define ns1 where "ns1 = ns(hp s ! q := (ns (hp s ! q))\<lparr>minheap_idx := int h\<rparr>)"
    define s1 where "s1 = s\<lparr>hp := (hp s)[h := hp s ! q]\<rparr>"
    have put: "mh_put ns s h (hp s ! q) = Inr (ns1, s1)"
      using p by (simp add: mh_put_ok ns1_def s1_def)
    have tm: "tmo ns1 = tmo ns" by (auto simp: ns1_def)
    have "\<exists>ns' p'. minheap_shift_up ns1 s1 q e = Inr (ns', s1\<lparr>hp := p'\<rparr>)
        \<and> placed ns1 (hp s1) n q e ns' p'"
    proof (rule "1.IH" [of "hp s ! q" "(ns1, s1)" ns1 s1, folded par_def q_def])
      show "slots_ok ns1 (hp s1) n q e"
        using slots_move [OF "1.prems"(1) q] by (simp add: s1_def ns1_def)
      show "up_ok (tmo ns1) ((hp s1)[q := e]) n q"
        using up_ok_move [OF "1.prems"(2) p] True by (simp add: s1_def tm q_def)
    qed (use True p q put in \<open>auto simp: mem_get_def minheap_elem_greater_def q_def\<close>)
    then obtain ns' p' where up: "minheap_shift_up ns1 s1 q e = Inr (ns', s1\<lparr>hp := p'\<rparr>)"
      "placed ns1 (hp s1) n q e ns' p'" by blast
    have "minheap_shift_up ns s h e = Inr (ns', s\<lparr>hp := p'\<rparr>)"
      using True p q put up(1) q_def
      by (subst minheap_shift_up.simps)
        (simp add: mem_get_def minheap_elem_greater_def par_def s1_def)
    moreover have "placed ns (hp s) n h e ns' p'"
      using placed_trans [OF _ p q ns1_def] up(2) by (simp add: s1_def)
    ultimately show ?thesis by blast
  qed
qed

text \<open>
  Where its first move is justified, the unconditional variant does what
  \<open>minheap_shift_up\<close> does.
\<close>

lemma shift_up_unconditional_eq:
  assumes "0 < h" "h < length (hp s)" "minheap_elem_greater ns (hp s ! par h) e"
  shows "minheap_shift_up_unconditional ns s h e = minheap_shift_up ns s h e"
  using assms
proof (induction ns s h e rule: minheap_shift_up_unconditional.induct)
  case (1 ns s h e)
  define q where "q = par h"
  have mp: "mh_parent h = q" using "1.prems"(1) by (simp add: mh_parent_def q_def par_def)
  have q: "q < h" "q < length (hp s)" using "1.prems"(1,2) par_less [of h] by (auto simp: q_def)
  define ns1 where "ns1 = ns(hp s ! q := (ns (hp s ! q))\<lparr>minheap_idx := int h\<rparr>)"
  define s1 where "s1 = s\<lparr>hp := (hp s)[h := hp s ! q]\<rparr>"
  have put: "mh_put ns s h (hp s ! q) = Inr (ns1, s1)"
    using "1.prems"(2) by (simp add: mh_put_ok ns1_def s1_def)
  have up: "minheap_shift_up ns s h e = minheap_shift_up ns1 s1 q e"
    using "1.prems" q put
    by (subst minheap_shift_up.simps) (simp add: mem_get_def par_def q_def)
  show ?case
  proof (cases "q = 0")
    case True
    then have "minheap_shift_up_unconditional ns s h e = mh_put ns1 s1 q e"
      using q put mp by (subst minheap_shift_up_unconditional.simps) (simp add: mem_get_def)
    moreover have "minheap_shift_up ns1 s1 q e = mh_put ns1 s1 q e"
      using True by (subst minheap_shift_up.simps) simp
    ultimately show ?thesis using up by simp
  next
    case False
    define g where "g = par q"
    have g: "g < q" "mh_parent q = g" "g < length (hp s1)" "q < length (hp s1)"
      using False par_less [of q] q by (auto simp: g_def mh_parent_def par_def s1_def)
    have unc: "minheap_shift_up_unconditional ns s h e =
        (if minheap_elem_greater ns1 (hp s1 ! g) e
         then minheap_shift_up_unconditional ns1 s1 q e else mh_put ns1 s1 q e)"
      using q put mp g False
      by (subst minheap_shift_up_unconditional.simps) (simp add: mem_get_def)
    show ?thesis
    proof (cases "minheap_elem_greater ns1 (hp s1 ! g) e")
      case True
      have "minheap_shift_up_unconditional ns1 s1 q e = minheap_shift_up ns1 s1 q e"
        using "1.IH" [of "hp s ! q" "(ns1, s1)" ns1 s1 "hp s1 ! g"] True False q put mp g
        by (simp add: mem_get_def g_def)
      with True unc up show ?thesis by simp
    next
      case stop: False
      have "minheap_shift_up ns1 s1 q e = mh_put ns1 s1 q e"
        using stop False g
        by (subst minheap_shift_up.simps) (simp add: mem_get_def g_def par_def)
      with stop unc up show ?thesis by simp
    qed
  qed
qed

lemma down_ok_stop:
  assumes "down_ok tm ys n h" "\<And>i. 0 < i \<Longrightarrow> i < n \<Longrightarrow> par i = h \<Longrightarrow> tm (ys ! h) \<le> tm (ys ! i)"
  shows "heap_ok tm ys n"
  using assms unfolding down_ok_def heap_ok_def by metis

lemma down_ok_move:
  assumes "down_ok tm (p[h := e]) n h" "n \<le> length p" "c < n" "0 < c" "par c = h"
    "tm (p ! c) < tm e" "\<And>i. 0 < i \<Longrightarrow> i < n \<Longrightarrow> par i = h \<Longrightarrow> tm (p ! c) \<le> tm (p ! i)"
  shows "down_ok tm (p[h := p ! c, c := e]) n c"
proof -
  have h: "h < c" using par_less [OF assms(4)] assms(5) by simp
  have d1: "\<And>i. 0 < i \<Longrightarrow> i < n \<Longrightarrow> par i \<noteq> h \<Longrightarrow> tm (p[h := e] ! par i) \<le> tm (p[h := e] ! i)"
    and d2: "\<And>i. 0 < i \<Longrightarrow> i < n \<Longrightarrow> par i = h \<Longrightarrow> 0 < h \<Longrightarrow> tm (p[h := e] ! par h) \<le> tm (p[h := e] ! i)"
    using assms(1) by (auto simp: down_ok_def)
  have pi: "\<And>i. 0 < i \<Longrightarrow> i < n \<Longrightarrow> par i < n \<and> par i < i" by (auto simp: par_def)
  have "tm (p[h := p ! c, c := e] ! par i) \<le> tm (p[h := p ! c, c := e] ! i)"
    if i: "0 < i" "i < n" "par i \<noteq> c" for i
  proof -
    consider "i = c" | "i = h" | "i \<noteq> c" "i \<noteq> h" "par i = h" | "i \<noteq> c" "i \<noteq> h" "par i \<noteq> h" by blast
    then show ?thesis
    proof cases
      case 1
      then show ?thesis using assms h by (simp add: nth_list_update)
    next
      case 2
      then show ?thesis using d2 [OF assms(4,3,5)] pi [OF i(1,2)] assms h i
        by (simp add: nth_list_update)
    next
      case 3
      then show ?thesis using assms(7) [OF i(1,2)] pi [OF i(1,2)] assms(2,3) h i
        by (simp add: nth_list_update)
    next
      case 4
      then show ?thesis using d1 [OF i(1,2)] pi [OF i(1,2)] assms(2,3) h i
        by (simp add: nth_list_update)
    qed
  qed
  moreover have "tm (p[h := p ! c, c := e] ! par c) \<le> tm (p[h := p ! c, c := e] ! i)"
    if i: "0 < i" "i < n" "par i = c" for i
  proof -
    have "par i \<noteq> h" "i \<noteq> h" "i \<noteq> c" using i(3) h par_less [OF i(1)] by auto
    then show ?thesis
      using d1 [OF i(1,2)] i assms(2,3,5) h by (simp add: nth_list_update)
  qed
  ultimately show ?thesis by (auto simp: down_ok_def)
qed

lemma mh_min_child_ok:
  assumes "2 * (h + 1) \<le> hn s" "hn s \<le> length (hp s)"
  obtains c where "mh_min_child ns s (2 * (h + 1)) = Inr c" "c < hn s" "0 < c" "par c = h"
    "\<And>i. 0 < i \<Longrightarrow> i < hn s \<Longrightarrow> par i = h \<Longrightarrow> tmo ns (hp s ! c) \<le> tmo ns (hp s ! i)"
proof -
  define c where "c = (if 2 * (h + 1) = hn s \<or>
    minheap_elem_greater ns (hp s ! (2 * (h + 1))) (hp s ! (2 * (h + 1) - 1))
    then 2 * (h + 1) - 1 else 2 * (h + 1))"
  have "mh_min_child ns s (2 * (h + 1)) = Inr c"
    using assms by (auto simp: mh_min_child_def c_def mem_get_def)
  moreover have "c < hn s" "0 < c" "par c = h" using assms(1) by (auto simp: c_def par_def)
  moreover have "tmo ns (hp s ! c) \<le> tmo ns (hp s ! i)" if "0 < i" "i < hn s" "par i = h" for i
  proof -
    have "i = 2 * h + 1 \<or> i = 2 * h + 2" using that by (simp add: par_eq_iff)
    then show ?thesis using that(2) assms(1) by (auto simp: c_def minheap_elem_greater_def)
  qed
  ultimately show thesis by (rule that)
qed

lemma minheap_shift_down_placed:
  assumes "slots_ok ns (hp s) n h e" "down_ok (tmo ns) ((hp s)[h := e]) n h" "hn s = n"
  shows "\<exists>ns' p'. minheap_shift_down ns s h e = Inr (ns', s\<lparr>hp := p'\<rparr>)
     \<and> placed ns (hp s) n h e ns' p'"
  using assms
proof (induction ns s h e rule: minheap_shift_down.induct)
  case (1 ns s h e)
  have p: "n \<le> length (hp s)" "h < n" using "1.prems"(1) by (auto simp: slots_ok_def)
  have stop: "\<exists>ns' p'. mh_put ns s h e = Inr (ns', s\<lparr>hp := p'\<rparr>) \<and> placed ns (hp s) n h e ns' p'"
    if "\<And>i. 0 < i \<Longrightarrow> i < n \<Longrightarrow> par i = h \<Longrightarrow> tmo ns e \<le> tmo ns (hp s ! i)"
  proof -
    have "heap_ok (tmo ns) ((hp s)[h := e]) n"
      using that p par_less "1.prems"(2)
      by (intro down_ok_stop) (auto simp: nth_list_update)
    then show ?thesis using placed_here [OF "1.prems"(1)] p by (auto simp: mh_put_ok)
  qed
  show ?case
  proof (cases "2 * (h + 1) \<le> n")
    case False
    have "minheap_shift_down ns s h e = mh_put ns s h e"
      using False "1.prems"(3) by (subst minheap_shift_down.simps) simp
    moreover have "False" if "0 < i" "i < n" "par i = h" for i
      using that False by (auto simp: par_eq_iff)
    ultimately show ?thesis using stop by metis
  next
    case True
    then obtain c where c: "mh_min_child ns s (2 * (h + 1)) = Inr c" "c < n" "0 < c" "par c = h"
      "\<And>i. 0 < i \<Longrightarrow> i < n \<Longrightarrow> par i = h \<Longrightarrow> tmo ns (hp s ! c) \<le> tmo ns (hp s ! i)"
      using mh_min_child_ok [of h s ns] p(1) "1.prems"(3) by metis
    have ch: "c \<noteq> h" using par_less [OF c(3)] c(4) by simp
    have get: "mem_get (hp s) c = Inr (hp s ! c)" using c(2) p(1) by (simp add: mem_get_def)
    show ?thesis
    proof (cases "minheap_elem_greater ns e (hp s ! c)")
      case False
      then have "minheap_shift_down ns s h e = mh_put ns s h e"
        using True c(1) get "1.prems"(3) by (subst minheap_shift_down.simps) simp
      moreover have "tmo ns e \<le> tmo ns (hp s ! i)" if "0 < i" "i < n" "par i = h" for i
        using False c(5) [OF that] by (simp add: minheap_elem_greater_def)
      ultimately show ?thesis using stop by metis
    next
      case gr: True
      define ns1 where "ns1 = ns(hp s ! c := (ns (hp s ! c))\<lparr>minheap_idx := int h\<rparr>)"
      define s1 where "s1 = s\<lparr>hp := (hp s)[h := hp s ! c]\<rparr>"
      have put: "mh_put ns s h (hp s ! c) = Inr (ns1, s1)"
        using p by (simp add: mh_put_ok ns1_def s1_def)
      have tm: "tmo ns1 = tmo ns" by (auto simp: ns1_def)
      have "tmo ns (hp s ! c) < tmo ns e" using gr by (simp add: minheap_elem_greater_def)
      then have down: "down_ok (tmo ns) ((hp s)[h := hp s ! c, c := e]) n c"
        by (rule down_ok_move [OF "1.prems"(2) p(1) c(2,3,4) _ c(5)])
      have "\<exists>ns' p'. minheap_shift_down ns1 s1 c e = Inr (ns', s1\<lparr>hp := p'\<rparr>)
          \<and> placed ns1 (hp s1) n c e ns' p'"
      proof (rule "1.IH" [of c "hp s ! c" "(ns1, s1)" ns1 s1])
        show "slots_ok ns1 (hp s1) n c e"
          using slots_move [OF "1.prems"(1) c(2) ch] by (simp add: s1_def ns1_def)
        show "down_ok (tmo ns1) ((hp s1)[c := e]) n c"
          unfolding tm s1_def using down by simp
      qed (use True c gr put get "1.prems"(3) in \<open>auto simp: s1_def\<close>)
      then obtain ns' p' where dn: "minheap_shift_down ns1 s1 c e = Inr (ns', s1\<lparr>hp := p'\<rparr>)"
        "placed ns1 (hp s1) n c e ns' p'" by blast
      have "minheap_shift_down ns s h e = Inr (ns', s\<lparr>hp := p'\<rparr>)"
        using True gr c(1) get put dn(1) "1.prems"(3)
        by (subst minheap_shift_down.simps) (simp add: s1_def)
      moreover have "placed ns (hp s) n h e ns' p'"
        using placed_trans [OF _ p c(2) ch ns1_def] dn(2) by (simp add: s1_def)
      ultimately show ?thesis by blast
    qed
  qed
qed

section \<open>Push, pop, erase and adjust\<close>

lemma mh_wfD:
  assumes "mh_wf ns s"
  shows "length (hp s) = ha s" "hn s \<le> ha s" "hn s < 2 ^ 31" "distinct (take (hn s) (hp s))"
    "\<And>i. i < hn s \<Longrightarrow> minheap_idx (ns (hp s ! i)) = int i" "heap_ok (tmo ns) (hp s) (hn s)"
    "ha s < 2 ^ 32" "hn s \<le> length (hp s)"
  using assms by (auto simp: mh_wf_def mh_elems_def idx_ok_def)

lemma mh_elems_idx:
  assumes "mh_wf ns s" "x \<in> set (mh_elems s)"
  shows "\<exists>i<hn s. hp s ! i = x \<and> minheap_idx (ns x) = int i"
  using assms by (auto simp: mh_elems_def in_set_conv_nth dest: mh_wfD(5))

lemma mh_notin_elems: "mh_wf ns s \<Longrightarrow> minheap_idx (ns x) = -1 \<Longrightarrow> x \<notin> set (mh_elems s)"
  using mh_elems_idx by fastforce

lemma placed_wf:
  assumes "placed ns (hp s) n h e ns' p'" "slots_ok ns (hp s) n h e" "hn s' = n" "ha s' = length (hp s)"
    "hp s' = p'" "n < 2 ^ 31" "length (hp s) < 2 ^ 32"
  shows "mh_wf ns' s'" "mset (mh_elems s') = mset (take n ((hp s)[h := e]))"
proof -
  have "distinct (take n p')"
    using assms(1,2) unfolding placed_def slots_ok_def by (metis mset_eq_imp_distinct_iff)
  moreover have "tmo ns' = tmo ns" using assms(1) by (auto simp: placed_def)
  ultimately show "mh_wf ns' s'"
    using assms by (auto simp: mh_wf_def mh_elems_def placed_def slots_ok_def)
  show "mset (mh_elems s') = mset (take n ((hp s)[h := e]))"
    using assms by (auto simp: mh_elems_def placed_def)
qed

text \<open>The heap root is a minimum.\<close>

lemma heap_ok_root: "heap_ok tm ys n \<Longrightarrow> i < n \<Longrightarrow> tm (ys ! 0) \<le> tm (ys ! i)"
proof (induction i rule: less_induct)
  case (less i)
  show ?case
  proof (cases "i = 0")
    case False
    then have "par i < i" by (simp add: par_less)
    with less have "tm (ys ! 0) \<le> tm (ys ! par i)" by simp
    also have "\<dots> \<le> tm (ys ! i)" using less.prems False by (simp add: heap_ok_def)
    finally show ?thesis .
  qed simp
qed

definition mid_ok :: "(ptr \<Rightarrow> int) \<Rightarrow> ptr list \<Rightarrow> nat \<Rightarrow> nat \<Rightarrow> bool" where
  "mid_ok tm ys n h \<longleftrightarrow>
     (\<forall>i. 0 < i \<and> i < n \<and> i \<noteq> h \<and> par i \<noteq> h \<longrightarrow> tm (ys ! par i) \<le> tm (ys ! i)) \<and>
     (\<forall>i. 0 < i \<and> i < n \<and> par i = h \<and> 0 < h \<longrightarrow> tm (ys ! par h) \<le> tm (ys ! i))"

lemma mid_ok_up:
  "mid_ok tm ys n h \<Longrightarrow> 0 < h \<Longrightarrow> tm (ys ! h) < tm (ys ! par h) \<Longrightarrow> up_ok tm ys n h"
  unfolding mid_ok_def up_ok_def by (metis less_imp_le order_le_less_trans order_less_le_trans)

lemma mid_ok_down:
  "mid_ok tm ys n h \<Longrightarrow> h = 0 \<or> tm (ys ! par h) \<le> tm (ys ! h) \<Longrightarrow> down_ok tm ys n h"
  unfolding mid_ok_def down_ok_def by (metis not_gr0)

text \<open>Taking slot \<open>i\<close> out of a heap and putting the last entry there leaves \<open>mid_ok\<close>.\<close>

lemma heap_ok_mid:
  assumes "heap_ok tm p n" "n \<le> length p" "m \<le> n" "h < m"
  shows "mid_ok tm (p[h := x]) m h"
proof -
  have pi: "\<And>i. 0 < i \<Longrightarrow> i < m \<Longrightarrow> par i < i" by (rule par_less)
  have "tm (p ! par h) \<le> tm (p ! i)" if "0 < i" "i < m" "par i = h" "0 < h" for i
  proof -
    have "tm (p ! par h) \<le> tm (p ! h)" "tm (p ! h) \<le> tm (p ! i)"
      using assms that by (auto simp: heap_ok_def)
    then show ?thesis by simp
  qed
  moreover have "par h \<noteq> h" if "0 < h" using par_less [OF that] by simp
  moreover have "i \<noteq> h" if "par i = h" "0 < i" for i using par_less [OF that(2)] that(1) by simp
  ultimately show ?thesis
    using assms by (auto simp: mid_ok_def heap_ok_def nth_list_update)
qed

lemma mh_shift_at_placed:
  assumes "slots_ok ns (hp s) n i x" "mid_ok (tmo ns) ((hp s)[i := x]) n i" "hn s = n" "n < 2 ^ 31"
  shows "\<exists>ns' p'. mh_shift_at ns s (int i) x = Inr (ns', s\<lparr>hp := p'\<rparr>)
     \<and> placed ns (hp s) n i x ns' p'"
proof -
  have p: "n \<le> length (hp s)" "i < n" using assms(1) by (auto simp: slots_ok_def)
  have i: "nat (int i mod 4294967296) = i" "(i - Suc 0) div 2 < length (hp s)"
    using p assms(4) by (simp_all flip: nat_mod_as_int)
  show ?thesis
  proof (cases "0 < i \<and> tmo ns x < tmo ns (hp s ! par i)")
    case True
    then have "mh_shift_at ns s (int i) x = minheap_shift_up ns s i x"
      using p i shift_up_unconditional_eq [of i s ns x]
      by (simp add: mh_shift_at_def Let_def mem_get_def par_def minheap_elem_greater_def)
    moreover have "up_ok (tmo ns) ((hp s)[i := x]) n i"
      using True p par_less [of i] by (intro mid_ok_up [OF assms(2)]) (auto simp: nth_list_update)
    ultimately show ?thesis using minheap_shift_up_placed [OF assms(1)] by simp
  next
    case False
    then have "mh_shift_at ns s (int i) x = minheap_shift_down ns s i x"
      using p i
      by (auto simp: mh_shift_at_def Let_def mem_get_def par_def minheap_elem_greater_def)
    moreover have "down_ok (tmo ns) ((hp s)[i := x]) n i"
      using False p par_less [of i] by (intro mid_ok_down [OF assms(2)]) (auto simp: nth_list_update)
    ultimately show ?thesis using minheap_shift_down_placed [OF assms(1) _ assms(3)] by simp
  qed
qed

lemma mset_remove_slot:
  assumes "Suc n \<le> length p" "i \<le> n"
  shows "mset (take (Suc n) p) = add_mset (p ! i) (mset (take n (p[i := p ! n])))"
proof -
  define ls where "ls = take (Suc n) p"
  have len: "length ls = Suc n" using assms(1) by (simp add: ls_def)
  have "ls[i := ls ! n, n := ls ! i] = take n (p[i := p ! n]) @ [p ! i]"
    using assms by (intro nth_equalityI) (auto simp: ls_def nth_list_update nth_append less_Suc_eq)
  then show ?thesis
    using mset_swap [of n ls i] assms(2) len by (simp add: ls_def)
qed

lemma slots_ok_remove:
  assumes "mh_wf ns s" "hn s = Suc n" "i < n"
  shows "slots_ok ns (hp s) n i (hp s ! n)"
proof -
  note wf = mh_wfD [OF assms(1)]
  have "distinct (take (Suc n) (hp s))" using wf(4) assms(2) by simp
  moreover have "mset (take (Suc n) (hp s)) = mset (hp s ! i # take n ((hp s)[i := hp s ! n]))"
    using mset_remove_slot [of n "hp s" i] wf assms by simp
  ultimately have "distinct (hp s ! i # take n ((hp s)[i := hp s ! n]))"
    by (metis mset_eq_imp_distinct_iff)
  then show ?thesis using wf assms by (auto simp: slots_ok_def)
qed

text \<open>
  Removing the node in slot \<open>i\<close>, the common part of \<open>minheap_pop\<close> and
  \<open>minheap_erase\<close>: what the shift of the last entry leaves.
\<close>

lemma heap_remove:
  assumes wf: "mh_wf ns s" and n: "hn s = Suc n" and i: "i < n"
    and pl: "placed ns (hp s) n i (hp s ! n) ns' p'"
  defines "e \<equiv> hp s ! i"
  shows "mh_wf (ns'(e := (ns' e)\<lparr>minheap_idx := -1\<rparr>)) (s\<lparr>hn := n, hp := p'\<rparr>)"
    "mset (mh_elems s) = add_mset e (mset (take n p'))"
    "e \<notin> set (take n p')"
    "x \<notin> set (mh_elems s) \<Longrightarrow> ns' x = ns x"
proof -
  note w = mh_wfD [OF wf]
  have sl: "slots_ok ns (hp s) n i (hp s ! n)" by (rule slots_ok_remove [OF wf n i])
  have ms: "mset (take n p') = mset (take n ((hp s)[i := hp s ! n]))"
    using pl by (simp add: placed_def)
  have "mset (mh_elems s) = add_mset e (mset (take n ((hp s)[i := hp s ! n])))"
    unfolding mh_elems_def n e_def using w n i by (intro mset_remove_slot) auto
  with ms show el: "mset (mh_elems s) = add_mset e (mset (take n p'))" by simp
  then have "distinct (e # take n p')"
    using w(4) by (metis mh_elems_def mset.simps(2) mset_eq_imp_distinct_iff)
  then show notin: "e \<notin> set (take n p')" by simp
  have wf': "mh_wf ns' (s\<lparr>hn := n, hp := p'\<rparr>)"
    using placed_wf(1) [OF pl sl, of "s\<lparr>hn := n, hp := p'\<rparr>"] w n by simp
  have "p' ! j \<noteq> e" if "j < n" for j
    using notin nth_in_set_take [OF that, of p'] pl sl by (auto simp: placed_def slots_ok_def)
  moreover have "tmo (ns'(e := (ns' e)\<lparr>minheap_idx := -1\<rparr>)) = tmo ns'" by auto
  ultimately show "mh_wf (ns'(e := (ns' e)\<lparr>minheap_idx := -1\<rparr>)) (s\<lparr>hn := n, hp := p'\<rparr>)"
    using wf' by (auto simp: mh_wf_def mh_elems_def idx_ok_def)
  assume "x \<notin> set (mh_elems s)"
  then have "x \<notin> set (take n p')" using el by (metis insert_iff set_mset_add_mset_insert set_mset_mset)
  with ms have "x \<notin> set (take n ((hp s)[i := hp s ! n]))" by (metis set_mset_mset)
  then show "ns' x = ns x" using pl by (simp add: placed_def)
qed

lemma minheap_reserve_ok:
  assumes "mh_wf ns s" "\<forall>n. al n"
  obtains s1 where "minheap_reserve al s (hn s + 1) = (s1, 0)" "hn s1 = hn s"
    "hn s + 1 \<le> ha s1" "length (hp s1) = ha s1" "ha s1 < 2 ^ 32"
    "take (hn s) (hp s1) = take (hn s) (hp s)"
proof -
  note w = mh_wfD [OF assms(1)]
  define a where "a = (let a0 = (if ha s \<noteq> 0 then ha s * 2 mod 2 ^ 32 else 8)
    in if a0 < hn s + 1 then hn s + 1 else a0)"
  define s1 where "s1 = (if ha s < hn s + 1
    then s\<lparr>hp := take a (hp s) @ replicate (a - length (hp s)) 0, ha := a\<rparr> else s)"
  have a: "hn s + 1 \<le> a" "a < 2 ^ 32" using w(2,3) by (auto simp: a_def Let_def)
  show thesis
  proof (rule that)
    show "minheap_reserve al s (hn s + 1) = (s1, 0)"
      using assms(2) by (simp add: minheap_reserve_def s1_def a_def Let_def)
    show "take (hn s) (hp s1) = take (hn s) (hp s)"
      using a w(1,2) by (auto simp: s1_def min_def)
  qed (use a w(1,2,7) in \<open>auto simp: s1_def\<close>)
qed

lemma minheap_push_notin:
  assumes wf: "mh_wf ns s" and e: "e \<notin> set (mh_elems s)" and n: "hn s + 1 < 2 ^ 31"
    and al: "\<forall>n. al n"
  shows "\<exists>ns' s'. minheap_push al ns s e = Inr ((ns', s'), 0) \<and> mh_wf ns' s'
     \<and> mset (mh_elems s') = add_mset e (mset (mh_elems s))
     \<and> (\<forall>x. tmo ns' x = tmo ns x) \<and> (\<forall>x. x \<notin> set (mh_elems s') \<longrightarrow> ns' x = ns x)"
proof -
  note w = mh_wfD [OF wf]
  obtain s1 where s1: "minheap_reserve al s (hn s + 1) = (s1, 0)" "hn s1 = hn s"
    "hn s + 1 \<le> ha s1" "length (hp s1) = ha s1" "ha s1 < 2 ^ 32"
    "take (hn s) (hp s1) = take (hn s) (hp s)" using minheap_reserve_ok [OF wf al] by blast
  define s2 where "s2 = s1\<lparr>hn := hn s + 1\<rparr>"
  have nth: "hp s1 ! i = hp s ! i" if "i < hn s" for i using s1(6) that by (metis nth_take)
  have tk: "take (hn s + 1) ((hp s1)[hn s := e]) = mh_elems s @ [e]"
    using s1(3,4,6) by (simp add: take_Suc_conv_app_nth mh_elems_def)
  have sl: "slots_ok ns (hp s2) (hn s + 1) (hn s) e"
    using e s1(3,4) w(4,5) tk nth
    by (auto simp: slots_ok_def s2_def mh_elems_def)
  have "up_ok (tmo ns) ((hp s2)[hn s := e]) (hn s + 1) (hn s)"
    using w(6) nth par_less
    by (auto simp: up_ok_def heap_ok_def s2_def nth_list_update par_def)
  then obtain ns' p' where up: "minheap_shift_up ns s2 (hn s) e = Inr (ns', s2\<lparr>hp := p'\<rparr>)"
    and pl: "placed ns (hp s2) (hn s + 1) (hn s) e ns' p'"
    using minheap_shift_up_placed [OF sl] by blast
  have "minheap_push al ns s e = Inr ((ns', s2\<lparr>hp := p'\<rparr>), 0)"
    using s1(1,2) up by (simp add: minheap_push_def s2_def)
  moreover have wf': "mh_wf ns' (s2\<lparr>hp := p'\<rparr>)"
    and ms: "mset (mh_elems (s2\<lparr>hp := p'\<rparr>)) = mset (take (hn s + 1) ((hp s2)[hn s := e]))"
    using placed_wf [OF pl sl, of "s2\<lparr>hp := p'\<rparr>"] n s1(4,5) by (simp_all add: s2_def)
  moreover have "mset (mh_elems (s2\<lparr>hp := p'\<rparr>)) = add_mset e (mset (mh_elems s))"
    using ms tk by (simp add: s2_def)
  moreover have "set (mh_elems (s2\<lparr>hp := p'\<rparr>)) = set (take (hn s + 1) ((hp s2)[hn s := e]))"
    using ms by (metis set_mset_mset)
  ultimately show ?thesis using pl by (auto simp: placed_def)
qed

lemma minheap_push_ok:
  assumes "mh_wf ns s" "minheap_idx (ns e) = -1" "hn s + 1 < 2 ^ 31" "\<forall>n. al n"
  shows "\<exists>ns' s'. minheap_push al ns s e = Inr ((ns', s'), 0) \<and> mh_wf ns' s'
     \<and> mset (mh_elems s') = add_mset e (mset (mh_elems s))
     \<and> (\<forall>x. tmo ns' x = tmo ns x) \<and> (\<forall>x. x \<notin> set (mh_elems s') \<longrightarrow> ns' x = ns x)"
  using minheap_push_notin [OF assms(1) mh_notin_elems [OF assms(1,2)] assms(3,4)] .

lemma minheap_pop_ok:
  assumes wf: "mh_wf ns s" and ne: "hn s \<noteq> 0"
  defines "e \<equiv> hp s ! 0"
  shows "\<exists>ns' s'. minheap_pop ns s = Inr ((ns', s'), Some e) \<and> mh_wf ns' s'
     \<and> mset (mh_elems s) = add_mset e (mset (mh_elems s')) \<and> (\<forall>x\<in>set (mh_elems s). tmo ns e \<le> tmo ns x)
     \<and> minheap_idx (ns' e) = -1 \<and> (\<forall>x. tmo ns' x = tmo ns x)
     \<and> (\<forall>x. x \<notin> set (mh_elems s) \<longrightarrow> ns' x = ns x)"
proof -
  note w = mh_wfD [OF wf]
  obtain n where n: "hn s = Suc n" using ne by (cases "hn s") auto
  have gets: "mem_get (hp s) 0 = Inr e" "mem_get (hp s) n = Inr (hp s ! n)"
    using w n by (simp_all add: mem_get_def e_def)
  have min: "\<forall>x\<in>set (mh_elems s). tmo ns e \<le> tmo ns x"
    using heap_ok_root [OF w(6)] by (auto simp: mh_elems_def in_set_conv_nth e_def)
  show ?thesis
  proof (cases "n = 0")
    case True
    define ns' where "ns' = ns(e := (ns e)\<lparr>minheap_idx := -1\<rparr>)"
    define s' where "s' = s\<lparr>hn := 0, hp := (hp s)[0 := e]\<rparr>"
    have "minheap_pop ns s = Inr ((ns', s'), Some e)"
      using True n w gets
      by (simp add: minheap_pop_def minheap_shift_down.simps mh_put_ok ns'_def s'_def e_def)
    moreover have "mh_wf ns' s'" using w by (simp add: mh_wf_def s'_def mh_elems_def idx_ok_def heap_ok_def)
    moreover have "mh_elems s = [e]" "mh_elems s' = []"
      using True n w by (auto simp: mh_elems_def s'_def e_def take_Suc_conv_app_nth)
    ultimately show ?thesis using min by (auto simp: ns'_def)
  next
    case False
    have "down_ok (tmo ns) ((hp s)[0 := hp s ! n]) n 0"
      using heap_ok_mid [OF w(6), of n 0 "hp s ! n"] w n False by (intro mid_ok_down) auto
    then obtain ns1 p' where dn: "minheap_shift_down ns (s\<lparr>hn := n\<rparr>) 0 (hp s ! n) =
        Inr (ns1, s\<lparr>hn := n, hp := p'\<rparr>)"
      and pl: "placed ns (hp s) n 0 (hp s ! n) ns1 p'"
      using minheap_shift_down_placed [of ns "s\<lparr>hn := n\<rparr>" n 0 "hp s ! n"]
        slots_ok_remove [OF wf n, of 0] False by auto
    note rm = heap_remove [OF wf n _ pl, folded e_def]
    have "minheap_pop ns s = Inr ((ns1(e := (ns1 e)\<lparr>minheap_idx := -1\<rparr>), s\<lparr>hn := n, hp := p'\<rparr>), Some e)"
      using n gets dn by (simp add: minheap_pop_def)
    moreover have "tmo ns1 x = tmo ns x" for x using pl by (simp add: placed_def)
    moreover have "e \<in> set (mh_elems s)" using rm(2) False by (metis neq0_conv set_mset_mset union_single_eq_member)
    ultimately show ?thesis using rm False min by (auto simp: mh_elems_def)
  qed
qed

lemma minheap_erase_ok:
  assumes wf: "mh_wf ns s" and e: "e \<in> set (mh_elems s)"
  shows "\<exists>ns' s'. minheap_erase ns s e = Inr ((ns', s'), 0) \<and> mh_wf ns' s'
     \<and> mset (mh_elems s) = add_mset e (mset (mh_elems s'))
     \<and> minheap_idx (ns' e) = -1 \<and> (\<forall>x. tmo ns' x = tmo ns x)
     \<and> (\<forall>x. x \<notin> set (mh_elems s) \<longrightarrow> ns' x = ns x)"
proof -
  note w = mh_wfD [OF wf]
  obtain i where i: "i < hn s" "hp s ! i = e" "minheap_idx (ns e) = int i"
    using mh_elems_idx [OF wf e] by blast
  then obtain n where n: "hn s = Suc n" by (cases "hn s") auto
  have get: "mem_get (hp s) n = Inr (hp s ! n)" using w n by (simp add: mem_get_def)
  show ?thesis
  proof (cases "i = n")
    case True
    define ns' where "ns' = ns(e := (ns e)\<lparr>minheap_idx := -1\<rparr>)"
    define s' where "s' = s\<lparr>hn := n, hp := (hp s)[n := e]\<rparr>"
    have nodn: "minheap_shift_down ns (s\<lparr>hn := n\<rparr>) n e =
        Inr (ns(e := (ns e)\<lparr>minheap_idx := int n\<rparr>), s\<lparr>hn := n, hp := (hp s)[n := e]\<rparr>)"
      using w n by (subst minheap_shift_down.simps) (simp add: mh_put_ok)
    have ord: "tmo ns (hp s ! ((n - 1) div 2)) \<le> tmo ns e" if "0 < n"
      using w(6) n i True that by (auto simp: heap_ok_def par_def)
    have nn: "nat (int n mod 4294967296) = n" using n w(3) by (simp flip: nat_mod_as_int)
    have "mh_shift_at ns (s\<lparr>hn := n\<rparr>) (int n) e = minheap_shift_down ns (s\<lparr>hn := n\<rparr>) n e"
      using nn ord w n by (auto simp: mh_shift_at_def Let_def mem_get_def minheap_elem_greater_def)
    then have "minheap_erase ns s e = Inr ((ns', s'), 0)"
      using True i n get nodn by (auto simp: minheap_erase_def ns'_def s'_def)
    moreover have el: "mh_elems s = mh_elems s' @ [e]"
      using True i n w by (simp add: mh_elems_def s'_def take_Suc_conv_app_nth)
    moreover have "e \<notin> set (mh_elems s')" using el w(4) by (simp add: mh_elems_def) 
    moreover have "mh_wf ns' s'"
    proof -
      have "hp s ! j \<noteq> e" if "j < n" for j
        using distinct_take_nth [OF w(4), of j i] w i n that True by auto
      moreover have "tmo ns' = tmo ns" by (auto simp: ns'_def)
      moreover have "distinct (take n (hp s))" using el w(4) by (simp add: mh_elems_def s'_def)
      ultimately show ?thesis
        using w n by (auto simp: mh_wf_def s'_def mh_elems_def idx_ok_def heap_ok_def ns'_def
            nth_list_update par_def)
    qed
    ultimately show ?thesis by (auto simp: ns'_def)
  next
    case False
    with i n have in': "i < n" by simp
    obtain ns1 p' where sh: "mh_shift_at ns (s\<lparr>hn := n\<rparr>) (int i) (hp s ! n) =
        Inr (ns1, s\<lparr>hn := n, hp := p'\<rparr>)"
      and pl: "placed ns (hp s) n i (hp s ! n) ns1 p'"
      using mh_shift_at_placed [of ns "s\<lparr>hn := n\<rparr>" n i "hp s ! n"] slots_ok_remove [OF wf n in']
        heap_ok_mid [OF w(6), of n i "hp s ! n"] w n in' by auto
    note rm = heap_remove [OF wf n in' pl, unfolded i(2)]
    have "minheap_erase ns s e = Inr ((ns1(e := (ns1 e)\<lparr>minheap_idx := -1\<rparr>), s\<lparr>hn := n, hp := p'\<rparr>), 0)"
      using i n get sh by (simp add: minheap_erase_def)
    moreover have "tmo ns1 x = tmo ns x" for x using pl by (simp add: placed_def)
    ultimately show ?thesis using rm e by (auto simp: mh_elems_def)
  qed
qed

text \<open>
  \<open>minheap_adjust\<close> is called after the timeout of \<open>e\<close> was overwritten: the heap was
  well formed with some earlier timeout \<open>t\<close> of \<open>e\<close>.
\<close>

lemma heap_ok_retime:
  assumes "heap_ok (tmo (ns(e := (ns e)\<lparr>ev_timeout := t\<rparr>))) p n" "n \<le> length p" "i < n" "p ! i = e"
    "distinct (take n p)"
  shows "mid_ok (tmo ns) p n i"
proof -
  have ne: "p ! j \<noteq> e" if "j < n" "j \<noteq> i" for j
    using distinct_take_nth [OF assms(5,2), of j i] assms(3,4) that by auto
  have lt: "\<And>j. 0 < j \<Longrightarrow> j < n \<Longrightarrow> par j < n" by (auto simp: par_def)
  have h: "\<And>j. 0 < j \<Longrightarrow> j < n \<Longrightarrow> tmo (ns(e := (ns e)\<lparr>ev_timeout := t\<rparr>)) (p ! par j)
      \<le> tmo (ns(e := (ns e)\<lparr>ev_timeout := t\<rparr>)) (p ! j)" using assms(1) by (simp add: heap_ok_def)
  have "tmo ns (p ! par j) \<le> tmo ns (p ! j)" if "0 < j" "j < n" "j \<noteq> i" "par j \<noteq> i" for j
    using h [OF that(1,2)] ne [OF that(2,3)] ne [OF lt that(4), OF that(1,2)] by simp
  moreover have "tmo ns (p ! par i) \<le> tmo ns (p ! j)" if j: "0 < j" "j < n" "par j = i" "0 < i" for j
  proof -
    have "par i \<noteq> i" "j \<noteq> i" using par_less [OF j(4)] par_less [OF j(1)] j(3) by auto
    then show ?thesis
      using h [OF j(4) assms(3)] h [OF j(1,2)] j ne [OF j(2)] ne [OF lt [OF j(4) assms(3)]] assms(4)
      by simp
  qed
  ultimately show ?thesis by (auto simp: mid_ok_def)
qed

lemma minheap_adjust_ok:
  assumes wf: "mh_wf (ns(e := (ns e)\<lparr>ev_timeout := t\<rparr>)) s" and e: "e \<in> set (mh_elems s)"
  shows "\<exists>ns' s'. minheap_adjust al ns s e = Inr ((ns', s'), 0) \<and> mh_wf ns' s'
     \<and> mset (mh_elems s') = mset (mh_elems s) \<and> (\<forall>x. tmo ns' x = tmo ns x)
     \<and> (\<forall>x. x \<notin> set (mh_elems s) \<longrightarrow> ns' x = ns x)"
proof -
  define n where "n = hn s"
  note w = mh_wfD [OF wf, folded n_def]
  obtain i where i: "i < n" "hp s ! i = e" "minheap_idx (ns e) = int i"
    using mh_elems_idx [OF wf e] by (auto simp: n_def)
  have idx: "minheap_idx (ns (hp s ! j)) = int j" if "j < n" for j
    using w(5) [OF that] by (cases "hp s ! j = e") auto
  have upd: "(hp s)[i := e] = hp s" using i by (metis list_update_id)
  have sl: "slots_ok ns (hp s) n i e"
    using w(4,8) i(1) idx upd by (simp add: slots_ok_def)
  have "mid_ok (tmo ns) ((hp s)[i := e]) n i"
    using heap_ok_retime [OF w(6,8) i(1,2) w(4)] upd by simp
  then obtain ns' p' where sh: "mh_shift_at ns s (int i) e = Inr (ns', s\<lparr>hp := p'\<rparr>)"
    and pl: "placed ns (hp s) n i e ns' p'"
    using mh_shift_at_placed [OF sl _ n_def [symmetric] w(3)] by blast
  have "minheap_adjust al ns s e = Inr ((ns', s\<lparr>hp := p'\<rparr>), 0)"
    using i sh by (simp add: minheap_adjust_def)
  moreover have "mh_wf ns' (s\<lparr>hp := p'\<rparr>)"
    "mset (mh_elems (s\<lparr>hp := p'\<rparr>)) = mset (take n ((hp s)[i := e]))"
    using placed_wf [OF pl sl, of "s\<lparr>hp := p'\<rparr>"] w by (simp_all add: n_def)
  ultimately show ?thesis using pl upd by (auto simp: placed_def mh_elems_def n_def)
qed

section \<open>The heap as a queue of timeouts\<close>

text \<open>
  What the server's idle timer relies on: popping gives a node with the least
  timeout. Its derived facts: popping until the heap is empty gives every node once, in
  the order of the timeouts.
\<close>

locale timeout_queue =
  fixes q_wf :: "'s \<Rightarrow> bool"
    and q_elems :: "'s \<Rightarrow> ptr multiset"
    and q_key :: "'s \<Rightarrow> ptr \<Rightarrow> int"
    and q_pop :: "'s \<Rightarrow> ('s \<times> ptr option) res"
  assumes pop_empty: "q_wf s \<Longrightarrow> q_elems s = {#} \<Longrightarrow> q_pop s = Inr (s, None)"
    and pop_min: "q_wf s \<Longrightarrow> q_elems s \<noteq> {#} \<Longrightarrow>
      \<exists>s' e. q_pop s = Inr (s', Some e) \<and> q_wf s' \<and> q_elems s = add_mset e (q_elems s')
        \<and> (\<forall>x \<in># q_elems s. q_key s e \<le> q_key s x) \<and> q_key s' = q_key s"
begin

fun drain :: "nat \<Rightarrow> 's \<Rightarrow> ptr list res" where
  "drain 0 s = Inl Out_of_fuel"
| "drain (Suc k) s = res_bind (q_pop s) (\<lambda>(s', r).
     case r of None \<Rightarrow> Inr [] | Some e \<Rightarrow> res_bind (drain k s') (\<lambda>es. Inr (e # es)))"

lemma drain_sorted:
  "q_wf s \<Longrightarrow> size (q_elems s) < k \<Longrightarrow>
     \<exists>es. drain k s = Inr es \<and> mset es = q_elems s \<and> sorted (map (q_key s) es)"
proof (induction k arbitrary: s)
  case (Suc k)
  show ?case
  proof (cases "q_elems s = {#}")
    case True
    with Suc.prems show ?thesis by (simp add: pop_empty)
  next
    case False
    then obtain s' e where s': "q_pop s = Inr (s', Some e)" "q_wf s'"
      "q_elems s = add_mset e (q_elems s')" "\<forall>x \<in># q_elems s. q_key s e \<le> q_key s x"
      "q_key s' = q_key s" using pop_min [OF Suc.prems(1)] by blast
    with Suc.prems obtain es where "drain k s' = Inr es" "mset es = q_elems s'"
      "sorted (map (q_key s') es)" using Suc.IH [of s'] by auto
    with s' show ?thesis by (auto simp flip: set_mset_mset)
  qed
qed simp

end

definition mq_wf :: "nstore \<times> min_heap \<Rightarrow> bool" where
  "mq_wf st \<longleftrightarrow> mh_wf (fst st) (snd st)"

definition mq_elems :: "nstore \<times> min_heap \<Rightarrow> ptr multiset" where
  "mq_elems st = mset (mh_elems (snd st))"

definition mq_key :: "nstore \<times> min_heap \<Rightarrow> ptr \<Rightarrow> int" where
  "mq_key st x = ev_timeout (fst st x)"

definition mq_pop :: "nstore \<times> min_heap \<Rightarrow> ((nstore \<times> min_heap) \<times> ptr option) res" where
  "mq_pop st = minheap_pop (fst st) (snd st)"

lemma mh_elems_empty: "mh_wf ns s \<Longrightarrow> mh_elems s = [] \<longleftrightarrow> hn s = 0"
  by (auto simp: mh_elems_def dest: mh_wfD(8))

interpretation mq: timeout_queue mq_wf mq_elems mq_key mq_pop
proof
  fix st :: "nstore \<times> min_heap"
  assume wf: "mq_wf st"
  obtain ns s where st: "st = (ns, s)" by (cases st)
  show "mq_pop st = Inr (st, None)" if "mq_elems st = {#}"
    using wf that mh_elems_empty [of ns s]
    by (auto simp: st mq_wf_def mq_elems_def mq_pop_def minheap_pop_def)
  show "\<exists>s' e. mq_pop st = Inr (s', Some e) \<and> mq_wf s' \<and> mq_elems st = add_mset e (mq_elems s')
        \<and> (\<forall>x \<in># mq_elems st. mq_key st e \<le> mq_key st x) \<and> mq_key s' = mq_key st"
    if "mq_elems st \<noteq> {#}"
  proof -
    have "hn s \<noteq> 0" using wf that mh_elems_empty [of ns s] by (auto simp: st mq_wf_def mq_elems_def)
    with wf show ?thesis
      using minheap_pop_ok [of ns s]
      by (auto simp: st mq_wf_def mq_elems_def mq_pop_def mq_key_def fun_eq_iff)
  qed
qed

section \<open>Correctness of the operations\<close>

text \<open>A three-node heap for the witnesses.\<close>

definition ex_ns :: nstore where
  "ex_ns x = (if x = 1 then \<lparr>minheap_idx = 0, ev_timeout = 10\<rparr>
     else if x = 2 then \<lparr>minheap_idx = 1, ev_timeout = 20\<rparr>
     else if x = 3 then \<lparr>minheap_idx = 2, ev_timeout = 15\<rparr>
     else \<lparr>minheap_idx = -1, ev_timeout = 5\<rparr>)"

definition ex_heap :: min_heap where
  "ex_heap = \<lparr>hp = [1, 2, 3], hn = 3, ha = 3\<rparr>"

lemma ex_heap_wf: "mh_wf ex_ns ex_heap"
  by (auto simp: mh_wf_def ex_heap_def ex_ns_def mh_elems_def idx_ok_def heap_ok_def par_def
      less_Suc_eq numeral_3_eq_3)

text \<open>
  Pushing a node that is in no heap onto a well-formed heap (allocation
  succeeding) returns 0 and adds exactly that node; the heap order, the positions
  stored in the nodes and every timeout are right afterwards, and no node outside the
  heap is touched.
\<close>

theorem minheap_push_correct:
  assumes "mh_wf ns s" "minheap_idx (ns e) = -1" "hn s + 1 < 2 ^ 31" "\<forall>n. al n"
  shows "\<exists>ns' s'. minheap_push al ns s e = Inr ((ns', s'), 0) \<and> mh_wf ns' s'
     \<and> mset (mh_elems s') = add_mset e (mset (mh_elems s))
     \<and> (\<forall>x. ev_timeout (ns' x) = ev_timeout (ns x))
     \<and> (\<forall>x. x \<notin> set (mh_elems s') \<longrightarrow> ns' x = ns x)"
  using assms by (rule minheap_push_ok)

theorem minheap_push_correct_witness:
  "\<exists>ns' s'. minheap_push (\<lambda>_. True) ex_ns ex_heap 7 = Inr ((ns', s'), 0) \<and> mh_wf ns' s'
     \<and> mset (mh_elems s') = {#1, 2, 3, 7#}"
  using minheap_push_correct [OF ex_heap_wf, of 7 "\<lambda>_. True"]
  by (auto simp: ex_heap_def ex_ns_def mh_elems_def)

text \<open>
  C9. Popping a non-empty well-formed heap returns a node whose timeout is the least
  of all, removes exactly it, marks it as being in no heap, and leaves a
  well-formed heap and every timeout as it was.
\<close>

theorem minheap_pop_correct:
  assumes "mh_wf ns s" "\<not> minheap_empty s"
  shows "\<exists>ns' s' e. minheap_pop ns s = Inr ((ns', s'), Some e) \<and> mh_wf ns' s'
     \<and> mset (mh_elems s) = add_mset e (mset (mh_elems s'))
     \<and> (\<forall>x \<in> set (mh_elems s). ev_timeout (ns e) \<le> ev_timeout (ns x))
     \<and> \<not> minheap_elm_inheap ns' e \<and> (\<forall>x. ev_timeout (ns' x) = ev_timeout (ns x))
     \<and> (\<forall>x. x \<notin> set (mh_elems s) \<longrightarrow> ns' x = ns x)"
proof -
  have "hn s \<noteq> 0" using assms(2) by (simp add: minheap_empty_def)
  from minheap_pop_ok [OF assms(1) this] show ?thesis
    unfolding minheap_elm_inheap_def by blast
qed

theorem minheap_pop_correct_witness:
  "\<exists>ns' s' e. minheap_pop ex_ns ex_heap = Inr ((ns', s'), Some e) \<and> mh_wf ns' s'
     \<and> {#1, 2, 3#} = add_mset e (mset (mh_elems s'))"
  using minheap_pop_correct [OF ex_heap_wf]
  by (auto simp: ex_heap_def mh_elems_def minheap_empty_def)

text \<open>
  C17. Erasing any node of a well-formed heap, wherever it sits, removes exactly that
  node and restores the order and the positions; erasing a node that is in no heap
  changes nothing and returns -1.
\<close>

theorem minheap_erase_correct:
  assumes "mh_wf ns s" "e \<in> set (mh_elems s) \<or> minheap_idx (ns e) = -1"
  shows "\<exists>ns' s' r. minheap_erase ns s e = Inr ((ns', s'), r) \<and> mh_wf ns' s'
     \<and> mset (mh_elems s') = mset (mh_elems s) - {#e#} \<and> \<not> minheap_elm_inheap ns' e
     \<and> (r = -1 \<longleftrightarrow> e \<notin> set (mh_elems s)) \<and> (\<forall>x. ev_timeout (ns' x) = ev_timeout (ns x))"
proof (cases "e \<in> set (mh_elems s)")
  case True
  from minheap_erase_ok [OF assms(1) this] True show ?thesis by (auto simp: minheap_elm_inheap_def)
next
  case False
  with assms show ?thesis by (auto simp: minheap_erase_def minheap_elm_inheap_def diff_single_trivial)
qed

theorem minheap_erase_correct_witness:
  "\<exists>ns' s' r. minheap_erase ex_ns ex_heap 1 = Inr ((ns', s'), r) \<and> mh_wf ns' s'
     \<and> mset (mh_elems s') = {#2, 3#} \<and> r \<noteq> -1"
  using minheap_erase_correct [OF ex_heap_wf, of 1]
  by (auto simp: ex_heap_def mh_elems_def)

text \<open>
  After the timeout of a node in the heap was overwritten, \<open>minheap_adjust\<close> makes
  the heap well formed again without losing or adding a node.
\<close>

theorem minheap_adjust_correct:
  assumes "mh_wf (ns(e := (ns e)\<lparr>ev_timeout := t\<rparr>)) s" "e \<in> set (mh_elems s)"
  shows "\<exists>ns' s'. minheap_adjust al ns s e = Inr ((ns', s'), 0) \<and> mh_wf ns' s'
     \<and> mset (mh_elems s') = mset (mh_elems s)
     \<and> (\<forall>x. ev_timeout (ns' x) = ev_timeout (ns x))"
  using minheap_adjust_ok [OF assms] by blast

theorem minheap_adjust_correct_witness:
  "\<exists>ns' s'. minheap_adjust (\<lambda>_. True) (ex_ns(1 := (ex_ns 1)\<lparr>ev_timeout := 99\<rparr>)) ex_heap 1
     = Inr ((ns', s'), 0) \<and> mh_wf ns' s' \<and> mset (mh_elems s') = {#1, 2, 3#}"
proof -
  have "(ex_ns(1 := (ex_ns 1)\<lparr>ev_timeout := 99\<rparr>))(1 := (((ex_ns(1 := (ex_ns 1)\<lparr>ev_timeout := 99\<rparr>)) 1)\<lparr>ev_timeout := 10\<rparr>))
    = ex_ns" by (auto simp: ex_ns_def fun_eq_iff)
  with minheap_adjust_correct [of "ex_ns(1 := (ex_ns 1)\<lparr>ev_timeout := 99\<rparr>)" 1 10 ex_heap "\<lambda>_. True"]
    ex_heap_wf show ?thesis by (auto simp: ex_heap_def mh_elems_def)
qed

end
