(* ===== verification/Codec.thy ===== *)
theory Codec
  imports Complex_Main Automem
begin

text \<open>
  The Lua value codec and stream decoder of \<open>libuv-lua/src/lua-decoder.c\<close>: byte
  swapping, the 29-bit length format, the serialiser onto an automem buffer, the
  recursive parser onto the Lua stack, \<open>pack\<close>/\<open>unpack\<close> and the framing decoder.

  A Lua value is a tree. The pairs of a table are listed in the order \<open>lua_next\<close>
  visits them, \<open>LFun\<close> and \<open>LUser\<close> are functions and userdata by identity. Numbers are the bit patterns of IEEE doubles. A pointer into a buffer is
  the list of bytes from there to the end of the object, and reading past it is a
  fault. The Lua stack is a list with its top first.
\<close>

section \<open>Byte swapping\<close>

definition SWAP_U16 :: "u16 \<Rightarrow> u16" where
  "SWAP_U16 x = (push_bit 8 (x AND 0x00ff)) OR (drop_bit 8 (x AND 0xff00))"

definition SWAP_U32 :: "u32 \<Rightarrow> u32" where
  "SWAP_U32 x =
     (drop_bit 24 (x AND 0xff000000)) OR (drop_bit 8 (x AND 0x00ff0000)) OR
     (push_bit 8 (x AND 0x0000ff00)) OR (push_bit 24 (x AND 0x000000ff))"

definition SWAP_U64 :: "u64 \<Rightarrow> u64" where
  "SWAP_U64 x =
     (drop_bit 56 (x AND 0xFF00000000000000)) OR (drop_bit 40 (x AND 0x00FF000000000000)) OR
     (drop_bit 24 (x AND 0x0000FF0000000000)) OR (drop_bit 8 (x AND 0x000000FF00000000)) OR
     (push_bit 8 (x AND 0x00000000FF000000)) OR (push_bit 24 (x AND 0x0000000000FF0000)) OR
     (push_bit 40 (x AND 0x000000000000FF00)) OR (push_bit 56 (x AND 0x00000000000000FF))"

section \<open>The length format\<close>

definition luadef_write_length ::
    "(nat \<Rightarrow> bool) \<Rightarrow> automem_t \<Rightarrow> u32 \<Rightarrow> (automem_t \<times> int) res" where
  "luadef_write_length al m val0 =
     (let val = val0 AND 0x1FFFFFFF
      in if val < 0x80
         then res_bind (automem_append_byte al m (ucast val)) (\<lambda>m1. Inr (m1, 1))
         else if val < 0x4000
         then res_bind (automem_append_byte al m (ucast ((drop_bit 7 val AND 0x7f) OR 0x80))) (\<lambda>m1.
              res_bind (automem_append_byte al m1 (ucast (val AND 0x7f))) (\<lambda>m2. Inr (m2, 2)))
         else if val < 0x200000
         then res_bind (automem_append_byte al m (ucast ((drop_bit 14 val AND 0x7f) OR 0x80))) (\<lambda>m1.
              res_bind (automem_append_byte al m1 (ucast ((drop_bit 7 val AND 0x7f) OR 0x80))) (\<lambda>m2.
              res_bind (automem_append_byte al m2 (ucast (val AND 0x7f))) (\<lambda>m3. Inr (m3, 3))))
         else res_bind (automem_append_voidp al m
                (map Some [ucast ((drop_bit 22 val AND 0x7f) OR 0x80),
                           ucast ((drop_bit 15 val AND 0x7f) OR 0x80),
                           ucast ((drop_bit 8 val AND 0x7f) OR 0x80),
                           ucast (val AND 0xff)]) 4) (\<lambda>(m1, _). Inr (m1, 4)))"

text \<open>
  The accumulators of \<open>luadef_read_length\<close> after two, three and four bytes, and its
  final sign extension from 29 to 32 bits.
\<close>

definition fmt_acc1 :: "u8 \<Rightarrow> u32" where
  "fmt_acc1 b0 = push_bit 7 (ucast b0 AND 0x7f)"

definition fmt_acc2 :: "u8 \<Rightarrow> u8 \<Rightarrow> u32" where
  "fmt_acc2 b0 b1 = push_bit 7 (fmt_acc1 b0 OR (ucast b1 AND 0x7f))"

definition fmt_acc3 :: "u8 \<Rightarrow> u8 \<Rightarrow> u8 \<Rightarrow> u32" where
  "fmt_acc3 b0 b1 b2 = push_bit 8 (fmt_acc2 b0 b1 OR (ucast b2 AND 0x7f))"

definition fmt_sign :: "u32 \<Rightarrow> int" where
  "fmt_sign acc = sint ((- (acc AND push_bit 28 1)) OR acc)"

text \<open>The value (an \<open>int\<close>) and the number of bytes used.\<close>

definition luadef_read_length :: "u8 list \<Rightarrow> (int \<times> nat) res" where
  "luadef_read_length bytes =
     res_bind (mem_get bytes 0) (\<lambda>b0.
     if b0 < 128 then Inr (uint b0, 1)
     else res_bind (mem_get bytes 1) (\<lambda>b1.
       if b1 < 128 then Inr (fmt_sign (fmt_acc1 b0 OR ucast b1), 2)
       else res_bind (mem_get bytes 2) (\<lambda>b2.
         if b2 < 128 then Inr (fmt_sign (fmt_acc2 b0 b1 OR ucast b2), 3)
         else res_bind (mem_get bytes 3) (\<lambda>b3.
           Inr (fmt_sign (fmt_acc3 b0 b1 b2 OR ucast b3), 4)))))"

text \<open>The bytes that \<open>luadef_write_length\<close> appends.\<close>

definition len_bytes :: "u32 \<Rightarrow> u8 list" where
  "len_bytes val0 =
     (let val = val0 AND 0x1FFFFFFF
      in if val < 0x80 then [ucast val]
         else if val < 0x4000 then [ucast ((drop_bit 7 val AND 0x7f) OR 0x80), ucast (val AND 0x7f)]
         else if val < 0x200000
         then [ucast ((drop_bit 14 val AND 0x7f) OR 0x80), ucast ((drop_bit 7 val AND 0x7f) OR 0x80),
               ucast (val AND 0x7f)]
         else [ucast ((drop_bit 22 val AND 0x7f) OR 0x80), ucast ((drop_bit 15 val AND 0x7f) OR 0x80),
               ucast ((drop_bit 8 val AND 0x7f) OR 0x80), ucast (val AND 0xff)])"

lemma SWAP_U32_involution: "SWAP_U32 (SWAP_U32 x) = x"
  by (rule bits32I) (simp_all add: SWAP_U32_def bit_simps)

lemma cont_byte_ge: "\<not> (ucast ((x AND 0x7f) OR 0x80 :: u32) :: u8) < 128"
proof
  assume "(ucast ((x AND 0x7f) OR 0x80 :: u32) :: u8) < 128"
  then have "\<not> bit (ucast ((x AND 0x7f) OR 0x80 :: u32) :: u8) 7"
    by (intro high_bits_zero [where k = 7]) (simp_all add: word_less_nat_alt)
  then show False by (simp add: bit_simps)
qed

lemma low_byte_lt: "(ucast (x AND 0x7f :: u32) :: u8) < 128"
proof -
  have "x AND 0x7f \<le> (0x7f :: u32)" by (rule word_and_le1)
  then have "unat (x AND 0x7f) \<le> 127" by (simp add: word_le_nat_alt)
  then show ?thesis by (simp add: word_less_nat_alt unat_ucast_u8)
qed

lemma len_join2:
  "unat v < 2 ^ 14 \<Longrightarrow>
     fmt_acc1 (ucast ((drop_bit 7 v AND 0x7f) OR 0x80)) OR ucast (ucast (v AND 0x7f) :: u8) = v"
  by (rule bits32I) (simp_all add: fmt_acc1_def bit_simps high_bits_zero [where k = 14])

lemma len_join3:
  "unat v < 2 ^ 21 \<Longrightarrow>
     fmt_acc2 (ucast ((drop_bit 14 v AND 0x7f) OR 0x80)) (ucast ((drop_bit 7 v AND 0x7f) OR 0x80))
       OR ucast (ucast (v AND 0x7f) :: u8) = v"
  by (rule bits32I) (simp_all add: fmt_acc2_def fmt_acc1_def bit_simps high_bits_zero [where k = 21])

lemma len_join4:
  "unat v < 2 ^ 29 \<Longrightarrow>
     fmt_acc3 (ucast ((drop_bit 22 v AND 0x7f) OR 0x80)) (ucast ((drop_bit 15 v AND 0x7f) OR 0x80))
       (ucast ((drop_bit 8 v AND 0x7f) OR 0x80)) OR ucast (ucast (v AND 0xff) :: u8) = v"
  by (rule bits32I)
    (simp_all add: fmt_acc3_def fmt_acc2_def fmt_acc1_def bit_simps high_bits_zero [where k = 29])

lemma sign_extend_small:
  assumes "unat v < 2 ^ 28"
  shows "fmt_sign v = int (unat v)"
proof -
  have "v AND push_bit 28 1 = 0"
    by (rule bits32I) (simp_all add: bit_simps high_bits_zero [OF assms])
  then show ?thesis using assms by (simp add: fmt_sign_def sint_small)
qed

lemma mask29_id:
  assumes "unat (v :: u32) < 2 ^ 29"
  shows "v AND 0x1FFFFFFF = v"
  by (rule bits32I) (simp_all add: bit_simps high_bits_zero [OF assms])

lemma length_format_read:
  assumes "unat v < 2 ^ 28"
  shows "luadef_read_length (len_bytes v @ rest) = Inr (int (unat v), length (len_bytes v))"
proof -
  have m: "v AND 0x1FFFFFFF = v" using assms by (intro mask29_id) simp
  consider "v < 0x80" | "\<not> v < 0x80" "v < 0x4000" | "\<not> v < 0x80" "\<not> v < 0x4000" "v < 0x200000"
    | "\<not> v < 0x80" "\<not> v < 0x4000" "\<not> v < 0x200000" by blast
  then show ?thesis
  proof cases
    case 1
    then have un: "unat (ucast v :: u8) = unat v" by (simp add: unat_ucast_u8 word_less_nat_alt)
    then have "uint (ucast v :: u8) = int (unat v)" by (simp only: uint_nat)
    moreover have "(ucast v :: u8) < 128" using 1 un by (simp add: word_less_nat_alt)
    ultimately show ?thesis
      using 1 m by (simp add: len_bytes_def Let_def luadef_read_length_def mem_get_def)
  next
    case 2
    then have "unat v < 2 ^ 14" by (simp add: word_less_nat_alt)
    note join = len_join2 [OF this]
    from 2 m assms show ?thesis
      by (simp add: len_bytes_def Let_def luadef_read_length_def mem_get_def cont_byte_ge
          low_byte_lt join sign_extend_small)
  next
    case 3
    then have "unat v < 2 ^ 21" by (simp add: word_less_nat_alt)
    note join = len_join3 [OF this]
    from 3 m assms show ?thesis
      by (simp add: len_bytes_def Let_def luadef_read_length_def mem_get_def cont_byte_ge
          low_byte_lt join sign_extend_small)
  next
    case 4
    have "unat v < 2 ^ 29" using assms by simp
    note join = len_join4 [OF this]
    from 4 m assms show ?thesis
      by (simp add: len_bytes_def Let_def luadef_read_length_def mem_get_def cont_byte_ge
          join sign_extend_small)
  qed
qed

text \<open>
  A length below \<open>2 ^ 28\<close> written in the 1-to-4-byte format is read back exactly,
  with the number of bytes that were written, whatever follows it.
\<close>

theorem length_format_roundtrip:
  assumes "unat v < 2 ^ 28"
  shows "luadef_read_length (len_bytes v @ rest) = Inr (int (unat v), length (len_bytes v))"
  using assms by (rule length_format_read)

theorem length_format_roundtrip_witness:
  "luadef_read_length (len_bytes 300000 @ [7]) = Inr (300000, length (len_bytes 300000))"
  using length_format_roundtrip [of 300000 "[7]"] by simp

section \<open>Lua values and numbers\<close>

datatype lval =
    LNil
  | LBool bool
  | LNum u64
  | LStr "u8 list"
  | LTable "(lval \<times> lval) list"
  | LFun nat
  | LUser nat

text \<open>The value of a finite double; \<open>None\<close> for infinities and NaN.\<close>

definition dbl_val :: "u64 \<Rightarrow> rat option" where
  "dbl_val b =
     (let u = uint b; s = (if u div 2 ^ 63 = 1 then -1 else 1);
          e = nat ((u div 2 ^ 52) mod 2 ^ 11); m = u mod 2 ^ 52
      in if e = 2047 then None
         else if e = 0 then Some (of_int (s * m) / 2 ^ 1074)
         else if e \<ge> 1075 then Some (of_int (s * (2 ^ 52 + m)) * 2 ^ (e - 1075))
         else Some (of_int (s * (2 ^ 52 + m)) / 2 ^ (1075 - e)))"

text \<open>The double of an integer of at most 53 bits (\<open>lua_pushinteger\<close>).\<close>

definition dbl_of_int :: "int \<Rightarrow> u64" where
  "dbl_of_int i =
     (if i = 0 then 0
      else let n = nat \<bar>i\<bar>; k = nlog2 n
           in word_of_int ((if i < 0 then 2 ^ 63 else 0) + (int k + 1023) * 2 ^ 52
                + (int n * 2 ^ (52 - k) - 2 ^ 52)))"

definition trunc_rat :: "rat \<Rightarrow> int" where
  "trunc_rat q = (if q \<ge> 0 then \<lfloor>q\<rfloor> else \<lceil>q\<rceil>)"

text \<open>
  The \<open>LUA_TNUMBER\<close> branch of \<open>lua_pushdata\<close>: what is pushed for the double \<open>b\<close>. The
  conversion to \<open>int64_t\<close> is undefined for NaN, infinities and values out of range.
\<close>

definition push_number :: "u64 \<Rightarrow> lval list res" where
  "push_number b =
     (case dbl_val b of
        None \<Rightarrow> Inl Bad_conversion
      | Some q \<Rightarrow>
          let t = trunc_rat q
          in if t < - (2 ^ 63) \<or> t \<ge> 2 ^ 63 then Inl Bad_conversion
             else if \<not> (q - of_int t > 0)
             then (if 2147483647 \<ge> q \<and> -2147483648 \<le> q then Inr [LNum (dbl_of_int t)]
                   else if 4294967295 \<ge> q \<and> q \<ge> 0 then Inr [LNum (dbl_of_int t)]
                   else Inr [])
             else Inr [LNum b])"

section \<open>Parsing onto the Lua stack\<close>

fun le_nat :: "u8 list \<Rightarrow> nat" where
  "le_nat [] = 0"
| "le_nat (b # bs) = unat b + 256 * le_nat bs"

definition dbl_nan :: "u64 \<Rightarrow> bool" where
  "dbl_nan b \<longleftrightarrow> dbl_val b = None \<and> uint b mod 2 ^ 52 \<noteq> 0"

text \<open>Raw equality of table keys. Every table that is parsed is a fresh object.\<close>

fun key_eq :: "lval \<Rightarrow> lval \<Rightarrow> bool" where
  "key_eq (LBool a) (LBool b) = (a = b)"
| "key_eq (LNum a) (LNum b) =
     (if dbl_val a = None then \<not> dbl_nan a \<and> a = b else dbl_val a = dbl_val b)"
| "key_eq (LStr a) (LStr b) = (a = b)"
| "key_eq (LFun a) (LFun b) = (a = b)"
| "key_eq (LUser a) (LUser b) = (a = b)"
| "key_eq _ _ = False"

fun tbl_set :: "(lval \<times> lval) list \<Rightarrow> lval \<Rightarrow> lval \<Rightarrow> (lval \<times> lval) list" where
  "tbl_set [] k v = (if v = LNil then [] else [(k, v)])"
| "tbl_set ((k', v') # t) k v =
     (if key_eq k k' then (if v = LNil then t else (k', v) # t) else (k', v') # tbl_set t k v)"

text \<open>\<open>lua_settable(L, -3)\<close>: the value on top, the key below it, the table below that.\<close>

fun lua_settable3 :: "lval list \<Rightarrow> lval list res" where
  "lua_settable3 (v # LNil # LTable t # st) = Inl (Lua_error ''index is nil'')"
| "lua_settable3 (v # LNum b # LTable t # st) =
     (if dbl_nan b then Inl (Lua_error ''index is NaN'')
      else Inr (LTable (tbl_set t (LNum b) v) # st))"
| "lua_settable3 (v # k # LTable t # st) = Inr (LTable (tbl_set t k v) # st)"
| "lua_settable3 (v # k # x # st) = Inl (Lua_error ''attempt to index'')"
| "lua_settable3 _ = Inl Out_of_bounds"

text \<open>
  A negative length becomes a huge \<open>size_t\<close>, for which \<open>lua_pushlstring\<close> raises a memory
  error. The number of bytes used is \<open>-1\<close> for a malformed value.
\<close>

function lua_pushdata :: "u8 list \<Rightarrow> lval list \<Rightarrow> (lval list \<times> int) res"
  and lua_pushtable :: "u8 list \<Rightarrow> lval list \<Rightarrow> (lval list \<times> int) res"
  and lua_pushtable_loop :: "u8 list \<Rightarrow> lval list \<Rightarrow> nat \<Rightarrow> (lval list \<times> int) res" where
  "lua_pushdata buf st =
     (case buf of
        [] \<Rightarrow> Inl Out_of_bounds
      | c # r \<Rightarrow>
          if c = 4
          then res_bind (luadef_read_length r) (\<lambda>(lstr, used).
                 if lstr < 0 then Inl (Lua_error ''not enough memory'')
                 else res_bind (mem_read r used (nat lstr)) (\<lambda>s.
                        Inr (LStr s # st, 1 + int used + lstr)))
          else if c = 1
          then res_bind (mem_get r 0) (\<lambda>b. Inr (LBool (b \<noteq> 0) # st, 2))
          else if c = 3
          then res_bind (mem_read r 0 8) (\<lambda>d.
               res_bind (push_number (of_nat (le_nat d))) (\<lambda>vs. Inr (vs @ st, 9)))
          else if c = 0 then Inr (LNil # st, 1)
          else if c = 5
          then res_bind (lua_pushtable r st) (\<lambda>(st1, used).
                 if used = -1 then Inr (st1, -1) else Inr (st1, used + 1))
          else Inr (st, -1))"
| "lua_pushtable buf st = lua_pushtable_loop buf (LTable [] # st) 0"
| "lua_pushtable_loop buffer st n =
     (case buffer of
        [] \<Rightarrow> Inl Out_of_bounds
      | b # _ \<Rightarrow>
          if b = 0xFF then Inr (st, int n + 1)
          else res_bind (lua_pushdata buffer st) (\<lambda>(st1, used).
               if used > 0
               then res_bind (lua_pushdata (drop (nat used) buffer) st1) (\<lambda>(st2, used2).
                    if used2 > 0
                    then res_bind (lua_settable3 st2) (\<lambda>st3.
                         lua_pushtable_loop (drop (nat used + nat used2) buffer) st3
                           (n + nat used + nat used2))
                    else Inr (st2, -1))
               else Inr (st1, -1)))"
  by pat_completeness auto
termination
  by (relation "measure (case_sum (\<lambda>(buf, st). 4 * length buf)
       (case_sum (\<lambda>(buf, st). 4 * length buf + 2) (\<lambda>(buf, st, n). 4 * length buf + 1)))") auto

declare lua_pushdata.simps [simp del] lua_pushtable.simps [simp del] lua_pushtable_loop.simps [simp del]

section \<open>Serialising\<close>

function lua_def_serialone :: "(nat \<Rightarrow> bool) \<Rightarrow> automem_t \<Rightarrow> lval \<Rightarrow> automem_t res"
  and lua_defparser_serialtable ::
    "(nat \<Rightarrow> bool) \<Rightarrow> automem_t \<Rightarrow> (lval \<times> lval) list \<Rightarrow> automem_t res" where
  "lua_def_serialone al m (LBool b) =
     res_bind (automem_append_byte al m 1) (\<lambda>m1. automem_append_byte al m1 (if b then 1 else 0))"
| "lua_def_serialone al m (LStr s) =
     res_bind (automem_append_byte al m 4) (\<lambda>m1.
     res_bind (luadef_write_length al m1 (of_nat (length s))) (\<lambda>(m2, _).
       if length s > 0 then am_put al m2 s else Inr m2))"
| "lua_def_serialone al m (LNum d) =
     res_bind (automem_append_byte al m 3) (\<lambda>m1. am_put al m1 (le_bytes 8 (unat d)))"
| "lua_def_serialone al m (LTable t) =
     res_bind (automem_append_byte al m 5) (\<lambda>m1. lua_defparser_serialtable al m1 t)"
| "lua_def_serialone al m LNil = automem_append_byte al m 0"
| "lua_def_serialone al m (LFun f) = Inl (Lua_error ''Unsupport datatype to serialize.'')"
| "lua_def_serialone al m (LUser u) = Inl (Lua_error ''Unsupport datatype to serialize.'')"
| "lua_defparser_serialtable al m [] = automem_append_byte al m 0xFF"
| "lua_defparser_serialtable al m ((k, v) # t) =
     res_bind (lua_def_serialone al m k) (\<lambda>m1.
     res_bind (lua_def_serialone al m1 v) (\<lambda>m2. lua_defparser_serialtable al m2 t))"
  by pat_completeness auto
termination
  by (relation "measure (case_sum (\<lambda>(al, m, v). size v)
       (\<lambda>(al, m, t). size_list (size_prod size size) t))") auto

fun serial_args :: "(nat \<Rightarrow> bool) \<Rightarrow> automem_t \<Rightarrow> lval list \<Rightarrow> automem_t res" where
  "serial_args al m [] = Inr m"
| "serial_args al m (v # vs) = res_bind (lua_def_serialone al m v) (\<lambda>m1. serial_args al m1 vs)"

text \<open>\<open>lua_pushlstring(L, mem.pdata, mem.size)\<close> reads initialised bytes only.\<close>

definition am_bytes :: "automem_t \<Rightarrow> u8 list res" where
  "am_bytes m = (if None \<in> set (am_data m) then Inl Uninit_read else Inr (map the (am_data m)))"

definition lua_defparser_serial :: "(nat \<Rightarrow> bool) \<Rightarrow> lval list \<Rightarrow> u8 list res" where
  "lua_defparser_serial al args =
     res_bind (automem_append_int al (automem_init al undefined 20480) 0) (\<lambda>m1.
     res_bind (serial_args al m1 args) (\<lambda>m2.
     res_bind (automem_append_byte al m2 0xFF) (\<lambda>m3.
     res_bind (c_memcpy (pdata m3) 0 (map Some (le_bytes 4 (unat (SWAP_U32 (am_size m3 - 4)))))) (\<lambda>c.
       am_bytes (m3\<lparr>pdata := Some c\<rparr>)))))"

text \<open>
  \<open>unpack\<close>: the string is followed in memory by its terminating 0. The result is the
  stack and the number of values that Lua takes from its top.
\<close>

function deserial_loop :: "u8 list \<Rightarrow> lval list \<Rightarrow> nat \<Rightarrow> (lval list \<times> nat) res" where
  "deserial_loop s st i =
     (case s of
        [] \<Rightarrow> Inl Out_of_bounds
      | b # _ \<Rightarrow>
          if b = 0xFF then Inr (st, i)
          else res_bind (lua_pushdata s st) (\<lambda>(st1, used).
               if used > 0 then deserial_loop (drop (nat used) s) st1 (Suc i)
               else Inl (Lua_error ''Deserialize stream failed.'')))"
  by pat_completeness auto
termination
  by (relation "measure (\<lambda>(s, st, i). length s)") auto

declare deserial_loop.simps [simp del]

definition lua_defparser_deserial :: "u8 list \<Rightarrow> (lval list \<times> nat) res" where
  "lua_defparser_deserial s =
     (if length s > 5 \<and> le_nat (take 4 s) > 1
      then deserial_loop (drop 4 s @ [0]) [LStr s] 0 else Inr ([LStr s], 0))"

section \<open>Doubles of integers\<close>

text \<open>The three fields of a bit pattern put together from them.\<close>

lemma dbl_fields:
  fixes S E M :: int
  assumes "S = 0 \<or> S = 1" "0 \<le> E" "E < 2048" "0 \<le> M" "M < 2 ^ 52"
  defines "u \<equiv> S * 2 ^ 63 + E * 2 ^ 52 + M"
  shows "uint (word_of_int u :: u64) = u" "u div 2 ^ 63 = S" "u div 2 ^ 52 mod 2 ^ 11 = E" "u mod 2 ^ 52 = M"
proof -
  have b: "0 \<le> u" "u < 2 ^ 64" using assms by (auto simp: u_def)
  then show "uint (word_of_int u :: u64) = u" by (simp add: uint_word_of_int_eq take_bit_int_eq_self)
  show "u div 2 ^ 63 = S" using assms by (auto simp: u_def)
  have u: "u = M + (S * 2048 + E) * 2 ^ 52" by (simp add: u_def)
  have "u div 2 ^ 52 = S * 2048 + E" unfolding u using assms(4,5) by (subst div_mult_self1) auto
  then show "u div 2 ^ 52 mod 2 ^ 11 = E" using assms(1-3) by auto
  show "u mod 2 ^ 52 = M" unfolding u using assms(4,5) by (subst mod_mult_self1) auto
qed

lemma dbl_val_of_int:
  assumes "\<bar>i\<bar> < 2 ^ 53"
  shows "dbl_val (dbl_of_int i) = Some (of_int i)"
proof (cases "i = 0")
  case True
  then show ?thesis by (simp add: dbl_of_int_def dbl_val_def)
next
  case False
  define n where "n = nat \<bar>i\<bar>"
  define k where "k = nlog2 n"
  have n: "0 < n" "n < 2 ^ 53" using False assms by (auto simp: n_def nat_less_iff)
  have k: "2 ^ k \<le> n" "n < 2 * 2 ^ k" "k \<le> 52"
    using nlog2_bounds [OF n(1)] nlog2_le [of n 52] n by (auto simp: k_def)
  define N where "N = int n * 2 ^ (52 - k)"
  have p: "(2 :: int) ^ k * 2 ^ (52 - k) = 2 ^ 52" using k(3) by (simp flip: power_add)
  have N: "2 ^ 52 \<le> N" "N < 2 ^ 53"
  proof -
    have "int (2 ^ k) \<le> int n" "int n < int (2 * 2 ^ k)" using k(1,2) by (simp_all only: of_nat_le_iff of_nat_less_iff)
    then have "(2 :: int) ^ k \<le> int n" "int n < 2 * 2 ^ k" by simp_all
    then have "2 ^ k * 2 ^ (52 - k) \<le> N" "N < 2 * 2 ^ k * 2 ^ (52 - k)"
      by (simp_all add: N_def)
    then show "2 ^ 52 \<le> N" "N < 2 ^ 53" using p by simp_all
  qed
  define S :: int where "S = (if i < 0 then 1 else 0)"
  define u where "u = S * 2 ^ 63 + (int k + 1023) * 2 ^ 52 + (N - 2 ^ 52)"
  have w: "dbl_of_int i = word_of_int u"
    using False by (simp add: dbl_of_int_def Let_def u_def S_def N_def n_def k_def)
  have S: "S = 0 \<or> S = 1" by (simp add: S_def)
  have f: "uint (word_of_int u :: u64) = u" "u div 2 ^ 63 = S" "u div 2 ^ 52 mod 2 ^ 11 = int k + 1023"
    "u mod 2 ^ 52 = N - 2 ^ 52"
    using dbl_fields [OF S, of "int k + 1023" "N - 2 ^ 52", folded u_def] k(3) N by auto
  define sg :: int where "sg = (if S = 1 then -1 else 1)"
  have sg: "sg * int n = i" by (auto simp: sg_def S_def n_def)
  have e: "nat (int k + 1023) = k + 1023" by simp
  have "dbl_val (word_of_int u) = (if k = 52 then Some (of_int (sg * N))
      else Some (of_int (sg * N) / 2 ^ (52 - k)))"
    unfolding dbl_val_def Let_def f(1) f(2,3,4) e sg_def using k(3) by auto
  also have "\<dots> = Some (of_int (sg * int n))"
    using k(3) by (auto simp: N_def)
  finally show ?thesis using w sg by simp
qed

section \<open>The encoding as a function\<close>

text \<open>The bytes of a value, and the value that is read back from them.\<close>

function enc_val :: "lval \<Rightarrow> u8 list" and enc_pairs :: "(lval \<times> lval) list \<Rightarrow> u8 list" where
  "enc_val (LBool b) = [1, if b then 1 else 0]"
| "enc_val (LStr s) = 4 # len_bytes (of_nat (length s)) @ s"
| "enc_val (LNum d) = 3 # le_bytes 8 (unat d)"
| "enc_val (LTable t) = 5 # enc_pairs t"
| "enc_val LNil = [0]"
| "enc_val (LFun f) = []"
| "enc_val (LUser u) = []"
| "enc_pairs [] = [0xFF]"
| "enc_pairs ((k, v) # t) = enc_val k @ enc_val v @ enc_pairs t"
  by pat_completeness auto
termination
  by (relation "measure (case_sum size (size_list (size_prod size size)))") auto

text \<open>
  What becomes of a number, by its value \<open>q\<close>: a whole number from \<open>INT_MIN\<close> to \<open>UINT_MAX\<close> and a
  positive fraction come back unchanged (but for the sign of zero), a negative fraction from
  \<open>INT_MIN\<close> on is rounded towards zero, and other numbers do not come back.
\<close>

definition num_whole :: "rat \<Rightarrow> bool" where
  "num_whole q \<longleftrightarrow> of_int \<lfloor>q\<rfloor> = q"

definition num_exact :: "u64 \<Rightarrow> bool" where
  "num_exact d = (case dbl_val d of None \<Rightarrow> False
     | Some q \<Rightarrow> if num_whole q then -2147483648 \<le> q \<and> q \<le> 4294967295 else 0 < q)"

definition num_rounded :: "u64 \<Rightarrow> bool" where
  "num_rounded d = (case dbl_val d of None \<Rightarrow> False
     | Some q \<Rightarrow> \<not> num_whole q \<and> -2147483648 \<le> q \<and> q < 0)"

definition canon_num :: "u64 \<Rightarrow> u64" where
  "canon_num d = (case dbl_val d of None \<Rightarrow> d
     | Some q \<Rightarrow> if q = 0 then 0 else if \<not> num_whole q \<and> q < 0 then dbl_of_int \<lceil>q\<rceil> else d)"

function canon :: "lval \<Rightarrow> lval" and canon_pairs :: "(lval \<times> lval) list \<Rightarrow> (lval \<times> lval) list" where
  "canon (LBool b) = LBool b"
| "canon (LStr s) = LStr s"
| "canon (LNum d) = LNum (canon_num d)"
| "canon (LTable t) = LTable (canon_pairs t)"
| "canon LNil = LNil"
| "canon (LFun f) = LFun f"
| "canon (LUser u) = LUser u"
| "canon_pairs [] = []"
| "canon_pairs ((k, v) # t) = (canon k, canon v) # canon_pairs t"
  by pat_completeness auto
termination
  by (relation "measure (case_sum size (size_list (size_prod size size)))") auto

text \<open>
  The values that are read back: strings shorter than \<open>2 ^ 28\<close>, the numbers above, tables
  whose keys stay different.
\<close>

function dec_ok :: "lval \<Rightarrow> bool" and dec_ok_pairs :: "(lval \<times> lval) list \<Rightarrow> bool" where
  "dec_ok (LBool b) = True"
| "dec_ok (LStr s) = (length s < 2 ^ 28)"
| "dec_ok (LNum d) = (num_exact d \<or> num_rounded d)"
| "dec_ok (LTable t) = dec_ok_pairs t"
| "dec_ok LNil = True"
| "dec_ok (LFun f) = False"
| "dec_ok (LUser u) = False"
| "dec_ok_pairs [] = True"
| "dec_ok_pairs ((k, v) # t) =
     (dec_ok k \<and> k \<noteq> LNil \<and> dec_ok v \<and> v \<noteq> LNil
      \<and> list_all (\<lambda>p. \<not> key_eq (canon (fst p)) (canon k)) t \<and> dec_ok_pairs t)"
  by pat_completeness auto
termination
  by (relation "measure (case_sum size (size_list (size_prod size size)))") auto

definition enc_args :: "lval list \<Rightarrow> u8 list" where
  "enc_args args = concat (map enc_val args)"

section \<open>The serialiser writes the encoding\<close>

function no_fun :: "lval \<Rightarrow> bool" and no_fun_pairs :: "(lval \<times> lval) list \<Rightarrow> bool" where
  "no_fun (LFun f) = False"
| "no_fun (LUser u) = False"
| "no_fun (LTable t) = no_fun_pairs t"
| "no_fun LNil = True"
| "no_fun (LBool b) = True"
| "no_fun (LNum d) = True"
| "no_fun (LStr s) = True"
| "no_fun_pairs [] = True"
| "no_fun_pairs ((k, v) # t) = (no_fun k \<and> no_fun v \<and> no_fun_pairs t)"
  by pat_completeness auto
termination
  by (relation "measure (case_sum size (size_list (size_prod size size)))") auto

lemma dec_ok_no_fun: "dec_ok v \<Longrightarrow> no_fun v" "dec_ok_pairs t \<Longrightarrow> no_fun_pairs t"
  by (induction v and t rule: dec_ok_dec_ok_pairs.induct) auto

lemma sinks_step:
  "am_sink.sinks f bs \<Longrightarrow> am_sink.sinks g cs \<Longrightarrow> ds = bs @ cs \<Longrightarrow>
     am_sink.sinks (\<lambda>m. res_bind (f m) g) ds"
  by (simp add: am_sink.sinks_bind)

lemma sinks_byte: "am_sink.sinks (\<lambda>m. automem_append_byte alloc_ok m b) [b]"
  by (simp add: am_put_byte am_sink.sinks_put)

lemma am_put_4: "automem_append_voidp al m (map Some [a, b, c, d]) 4 =
    automem_append_voidp al m (map Some [a, b, c, d]) (of_nat (length [a, b, c, d]))"
  by simp

definition write_length_mem :: "(nat \<Rightarrow> bool) \<Rightarrow> automem_t \<Rightarrow> u32 \<Rightarrow> automem_t res" where
  "write_length_mem al m v = res_bind (luadef_write_length al m v) (\<lambda>(m1, _). Inr m1)"

lemma bind_write_length:
  "res_bind (luadef_write_length al m v) (\<lambda>(m1, _). k m1) = res_bind (write_length_mem al m v) k"
  by (simp add: write_length_mem_def res_bind_assoc case_prod_unfold)

lemma res_bind_return [simp]: "res_bind r Inr = r"
  by (cases r) simp_all

lemma sinks_write_length: "am_sink.sinks (\<lambda>m. write_length_mem alloc_ok m v) (len_bytes v)"
proof -
  define val where "val = v AND 0x1FFFFFFF"
  consider "val < 0x80" | "\<not> val < 0x80" "val < 0x4000" | "\<not> val < 0x80" "\<not> val < 0x4000" "val < 0x200000"
    | "\<not> val < 0x80" "\<not> val < 0x4000" "\<not> val < 0x200000" by blast
  then show ?thesis
  proof cases
    case 4
    then have "(\<lambda>m. write_length_mem alloc_ok m v) = (\<lambda>m. am_put alloc_ok m (len_bytes v))"
      by (simp add: write_length_mem_def luadef_write_length_def len_bytes_def Let_def am_put_def
          val_def [symmetric] res_bind_assoc case_prod_unfold)
    then show ?thesis by (simp add: am_sink.sinks_put)
  qed (simp_all add: write_length_mem_def luadef_write_length_def len_bytes_def Let_def
        val_def [symmetric] res_bind_assoc sinks_byte sinks_step [OF sinks_byte sinks_byte]
        sinks_step [OF sinks_byte sinks_step [OF sinks_byte sinks_byte]])
qed

lemma sinks_serial:
  "no_fun v \<Longrightarrow> am_sink.sinks (\<lambda>m. lua_def_serialone alloc_ok m v) (enc_val v)"
  "no_fun_pairs t \<Longrightarrow> am_sink.sinks (\<lambda>m. lua_defparser_serialtable alloc_ok m t) (enc_pairs t)"
proof (induction v and t rule: enc_val_enc_pairs.induct)
  case (2 s)
  have "am_sink.sinks (\<lambda>m. if length s > 0 then am_put alloc_ok m s else Inr m) s"
    by (cases s) (simp_all add: am_sink.sinks_put am_sink.sinks_skip)
  then show ?case
    by (simp add: bind_write_length sinks_step [OF sinks_byte sinks_step [OF sinks_write_length]])
next
  case (9 k v t)
  then show ?case by (simp add: sinks_step [OF _ sinks_step])
qed (simp_all add: sinks_byte sinks_step [OF sinks_byte] sinks_step [OF sinks_byte sinks_byte]
    am_sink.sinks_put sinks_step [OF sinks_byte am_sink.sinks_put])

lemma sinks_args:
  "list_all no_fun args \<Longrightarrow> am_sink.sinks (\<lambda>m. serial_args alloc_ok m args) (enc_args args)"
  by (induction args)
    (simp_all add: enc_args_def am_sink.sinks_skip sinks_step [OF sinks_serial(1)])

lemma am_bytes_Some: "am_data m = map Some bs \<Longrightarrow> am_bytes m = Inr bs"
  by (auto simp: am_bytes_def comp_def)

text \<open>Overwriting the four header bytes.\<close>

lemma patch_header:
  assumes "am_wf m" "am_data m = map Some (hd0 @ body)" "length hd1 = length hd0"
  shows "\<exists>c. c_memcpy (pdata m) 0 (map Some hd1) = Inr c
     \<and> am_data (m\<lparr>pdata := Some c\<rparr>) = map Some (hd1 @ body)"
proof -
  obtain c where c: "pdata m = Some c" "length c = unat (buffersize m)"
    "unat (am_size m) \<le> unat (buffersize m)" using assms(1) by (rule am_wfE)
  have tk: "take (unat (am_size m)) c = map Some hd0 @ map Some body"
    using assms(2) c by (simp add: am_data_def)
  have sz: "unat (am_size m) = length hd0 + length body"
    using am_data_length [OF assms(1)] assms(2) by simp
  have "drop (length hd0) (take (unat (am_size m)) c) = map Some body" using tk by simp
  then have "take (length body) (drop (length hd0) c) = map Some body" using sz by (simp add: drop_take)
  then show ?thesis
    using c sz assms(3) by (auto simp: c_memcpy_Some am_data_def)
qed

lemma pack_ok:
  assumes "list_all no_fun args" "length (enc_args args) + 5 < 2 ^ 31"
  shows "lua_defparser_serial alloc_ok args =
     Inr (le_bytes 4 (unat (SWAP_U32 (of_nat (length (enc_args args) + 1)))) @ enc_args args @ [0xFF])"
proof -
  define m0 where "m0 = automem_init alloc_ok undefined 20480"
  have m0: "am_wf m0" "am_data m0 = []"
    using automem_init_ok [of alloc_ok undefined 20480] by (simp_all add: m0_def alloc_ok_def)
  have "am_sink.sinks (\<lambda>m. res_bind (automem_append_int alloc_ok m 0) (\<lambda>m1.
      res_bind (serial_args alloc_ok m1 args) (\<lambda>m2. automem_append_byte alloc_ok m2 0xFF)))
      (le_bytes 4 0 @ enc_args args @ [0xFF])"
    by (intro am_sink.sinks_bind sinks_args assms(1) sinks_byte)
      (simp add: automem_append_int_put am_sink.sinks_put)
  from am_sink.sinksD [OF this m0(1)] m0(2) assms(2)
  obtain m3 where m3: "res_bind (automem_append_int alloc_ok m0 0) (\<lambda>m1.
      res_bind (serial_args alloc_ok m1 args) (\<lambda>m2. automem_append_byte alloc_ok m2 0xFF)) = Inr m3"
    "am_wf m3" "am_data m3 = map Some (le_bytes 4 0 @ enc_args args @ [0xFF])"
    by (auto simp: am_limit_def)
  have "unat (am_size m3) = length (enc_args args) + 5"
    using am_data_length [OF m3(2)] m3(3) by simp
  then have "unat (am_size m3) = unat (of_nat (length (enc_args args) + 5) :: u32)"
    using assms(2) by (subst unat_of_nat_u32) simp_all
  then have "am_size m3 = of_nat (length (enc_args args) + 5)" by (rule unsigned_word_eqI)
  then have sz: "am_size m3 - 4 = of_nat (length (enc_args args) + 1)" by simp
  obtain c where c: "c_memcpy (pdata m3) 0 (map Some (le_bytes 4 (unat (SWAP_U32 (am_size m3 - 4))))) = Inr c"
    "am_data (m3\<lparr>pdata := Some c\<rparr>) =
       map Some (le_bytes 4 (unat (SWAP_U32 (am_size m3 - 4))) @ enc_args args @ [0xFF])"
    using patch_header [OF m3(2,3), of "le_bytes 4 (unat (SWAP_U32 (am_size m3 - 4)))"] by auto
  have "lua_defparser_serial alloc_ok args = res_bind (Inr m3) (\<lambda>m3.
      res_bind (c_memcpy (pdata m3) 0 (map Some (le_bytes 4 (unat (SWAP_U32 (am_size m3 - 4)))))) (\<lambda>c.
       am_bytes (m3\<lparr>pdata := Some c\<rparr>)))"
    unfolding m3(1) [symmetric] lua_defparser_serial_def m0_def by (simp only: res_bind_assoc)
  then show ?thesis using c am_bytes_Some [OF c(2)] sz by simp
qed

section \<open>The parser reads the encoding back\<close>

lemma le_nat_le_bytes: "v < 256 ^ k \<Longrightarrow> le_nat (le_bytes k v) = v"
proof (induction k arbitrary: v)
  case (Suc k)
  have "le_bytes (Suc k) v = of_nat v # le_bytes k (v div 256)"
    by (simp add: le_bytes_def upt_conv_Cons map_Suc_upt [symmetric] div_mult2_eq del: upt_Suc)
  moreover have "v div 256 < 256 ^ k" using Suc.prems by (simp add: less_mult_imp_div_less mult.commute)
  ultimately show ?case using Suc.IH by (simp add: unat_of_nat)
qed (simp add: le_bytes_def)

lemma le_nat_u64: "of_nat (le_nat (le_bytes 8 (unat d))) = (d :: u64)"
  using unsigned_less [of d] by (subst le_nat_le_bytes) simp_all

lemma le_nat_u32: "le_nat (le_bytes 4 (unat d)) = unat (d :: u32)"
  using unsigned_less [of d] by (subst le_nat_le_bytes) simp_all

lemma enc_val_head:
  assumes "no_fun v" shows "\<exists>b bs. enc_val v = b # bs \<and> b \<noteq> 0xFF"
  using assms by (cases v) auto

lemma trunc_rat_bounds:
  assumes "- of_int b \<le> q" "q \<le> of_int b" "b < 2 ^ 53"
  shows "\<bar>trunc_rat q\<bar> < 2 ^ 53"
proof (cases "q \<ge> 0")
  case True
  with assms(2) have "0 \<le> \<lfloor>q\<rfloor>" "\<lfloor>q\<rfloor> \<le> b" by (simp_all add: floor_le_iff)
  with assms(3) have "\<bar>\<lfloor>q\<rfloor>\<bar> < 2 ^ 53" by linarith
  with True show ?thesis by (simp only: trunc_rat_def if_True)
next
  case False
  with assms(1) have "\<lceil>q\<rceil> \<le> 0" "- b \<le> \<lceil>q\<rceil>" by (simp_all add: le_ceiling_iff)
  with assms(3) have "\<bar>\<lceil>q\<rceil>\<bar> < 2 ^ 53" by linarith
  with False show ?thesis by (simp only: trunc_rat_def if_False)
qed

text \<open>A double is determined by its value, unless that is zero.\<close>

definition dbl_sig :: "u64 \<Rightarrow> nat" where
  "dbl_sig b = (let u = uint b; e = nat ((u div 2 ^ 52) mod 2 ^ 11); m = nat (u mod 2 ^ 52) in if e = 0 then m else 2 ^ 52 + m)"

definition dbl_exp :: "u64 \<Rightarrow> nat" where
  "dbl_exp b = (let e = nat ((uint b div 2 ^ 52) mod 2 ^ 11) in if e = 0 then 0 else e - 1)"

definition dbl_neg :: "u64 \<Rightarrow> bool" where
  "dbl_neg b \<longleftrightarrow> uint b div 2 ^ 63 = 1"

lemma dbl_val_scaled:
  assumes "dbl_val b = Some q"
  shows "q * 2 ^ 1074 = (if dbl_neg b then -1 else 1) * of_nat (dbl_sig b * 2 ^ dbl_exp b)"
proof -
  define u e m where "u = uint b" and "e = nat ((u div 2 ^ 52) mod 2 ^ 11)" and "m = u mod 2 ^ 52"
  have m: "0 \<le> m" by (simp add: m_def)
  define s :: int where "s = (if dbl_neg b then -1 else 1)"
  have v: "dbl_val b = (if e = 2047 then None else if e = 0 then Some (of_int (s * m) / 2 ^ 1074)
      else if e \<ge> 1075 then Some (of_int (s * (2 ^ 52 + m)) * 2 ^ (e - 1075)) else Some (of_int (s * (2 ^ 52 + m)) / 2 ^ (1075 - e)))"
    unfolding dbl_val_def Let_def u_def e_def m_def s_def dbl_neg_def ..
  have sg: "dbl_sig b = (if e = 0 then nat m else 2 ^ 52 + nat m)" "dbl_exp b = (if e = 0 then 0 else e - 1)"
    by (simp_all add: dbl_sig_def dbl_exp_def Let_def u_def e_def m_def)
  have "q * 2 ^ 1074 = of_int s * of_nat (dbl_sig b * 2 ^ dbl_exp b)"
  proof (cases "e = 0")
    case True
    then show ?thesis using assms v sg m by simp
  next
    case False
    define M where "M = 2 ^ 52 + nat m"
    have M: "of_int (2 ^ 52 + m) = (of_nat M :: rat)" using m by (simp add: M_def)
    show ?thesis
    proof (cases "e \<ge> 1075")
      case True
      then have "q = of_int s * of_nat M * 2 ^ (e - 1075)" using assms v False by (simp only: M of_int_mult split: if_splits) simp_all
      moreover have "(2 :: rat) ^ (e - 1075) * 2 ^ 1074 = 2 ^ (e - 1)"
        using True by (subst power_add [symmetric]) (rule arg_cong [where f = "power 2"], arith)
      ultimately have "q * 2 ^ 1074 = of_int s * of_nat M * 2 ^ (e - 1)" by (metis mult.assoc)
      then show ?thesis using sg False by (simp add: M_def)
    next
      case e: False
      then have "q = of_int s * of_nat M / 2 ^ (1075 - e)" using assms v False by (simp only: M of_int_mult split: if_splits) simp_all
      moreover have "(2 :: rat) ^ 1074 = 2 ^ (1075 - e) * 2 ^ (e - 1)"
        using e False by (subst power_add [symmetric]) (rule arg_cong [where f = "power 2"], arith)
      ultimately have "q * 2 ^ 1074 = of_int s * of_nat M / 2 ^ (1075 - e) * (2 ^ (1075 - e) * 2 ^ (e - 1))" by metis
      also have "\<dots> = of_int s * of_nat M * 2 ^ (e - 1)" by simp
      finally have "q * 2 ^ 1074 = of_int s * of_nat M * 2 ^ (e - 1)" .
      then show ?thesis using sg False by (simp add: M_def)
    qed
  qed
  then show ?thesis by (simp add: s_def split: if_splits)
qed

lemma dbl_sig_bounds: "dbl_sig b < 2 ^ 53" "0 < dbl_exp b \<Longrightarrow> 2 ^ 52 \<le> dbl_sig b"
proof -
  have "uint b mod 2 ^ 52 < 2 ^ 52" by (rule pos_mod_bound) simp
  then have "nat (uint b mod 2 ^ 52) < nat (2 ^ 52)" by (subst nat_less_eq_zless) (auto intro: pos_mod_sign)
  then have "nat (uint b mod 2 ^ 52) < 2 ^ 52" by (simp only: nat_power_eq nat_numeral)
  moreover define e m where "e = nat ((uint b div 2 ^ 52) mod 2 ^ 11)" and "m = nat (uint b mod 2 ^ 52)"
  moreover have "dbl_sig b = (if e = 0 then m else 2 ^ 52 + m)" "dbl_exp b = (if e = 0 then 0 else e - 1)"
    unfolding dbl_sig_def dbl_exp_def Let_def e_def m_def by (rule refl)+
  ultimately show "dbl_sig b < 2 ^ 53" "0 < dbl_exp b \<Longrightarrow> 2 ^ 52 \<le> dbl_sig b"
    by (simp_all only: split: if_splits) simp_all
qed

lemma dbl_parts_inj:
  assumes "dbl_neg a = dbl_neg b" "dbl_sig a = dbl_sig b" "dbl_exp a = dbl_exp b" shows "a = b"
proof -
  define ea eb ma mb where "ea = (uint a div 2 ^ 52) mod 2 ^ 11" and "eb = (uint b div 2 ^ 52) mod 2 ^ 11"
    and "ma = uint a mod 2 ^ 52" and "mb = uint b mod 2 ^ 52"
  have r: "0 \<le> ea" "0 \<le> eb" "0 \<le> ma" "0 \<le> mb" "ma < 2 ^ 52" "mb < 2 ^ 52"
    unfolding ea_def eb_def ma_def mb_def by (intro pos_mod_sign pos_mod_bound; simp)+
  have sig: "(if nat ea = 0 then nat ma else 2 ^ 52 + nat ma) = (if nat eb = 0 then nat mb else 2 ^ 52 + nat mb)"
    and ex: "(if nat ea = 0 then 0 else nat ea - 1) = (if nat eb = 0 then 0 else nat eb - 1)"
    using assms(2,3) unfolding dbl_sig_def dbl_exp_def Let_def ea_def eb_def ma_def mb_def by (blast, blast)
  have n: "nat ma < 2 ^ 52" "nat mb < 2 ^ 52" using r(5,6) by simp_all
  have "nat ma = nat mb \<and> nat ea = nat eb"
  proof (cases "nat ea = 0"; cases "nat eb = 0")
    assume "nat ea = 0" "nat eb = 0" then show ?thesis using sig by simp
  next
    assume "nat ea \<noteq> 0" "nat eb = 0" then show ?thesis using sig n by simp
  next
    assume "nat ea = 0" "nat eb \<noteq> 0" then show ?thesis using sig n by simp
  next
    assume "nat ea \<noteq> 0" "nat eb \<noteq> 0" then show ?thesis using sig ex by simp
  qed
  then have em: "ma = mb" "ea = eb" using r by auto
  have dec: "uint w = (uint w div 2 ^ 63) * 2 ^ 63 + (uint w div 2 ^ 52) mod 2 ^ 11 * 2 ^ 52 + uint w mod 2 ^ 52" for w :: u64
  proof -
    define A M where "A = uint w div 2 ^ 52" and "M = uint w mod 2 ^ 52"
    define Q R where "Q = A div 2 ^ 11" and "R = A mod 2 ^ 11"
    have "Q = uint w div 2 ^ 63" unfolding Q_def A_def by (simp flip: zdiv_zmult2_eq)
    moreover have "A = Q * 2 ^ 11 + R" unfolding Q_def R_def by (rule div_mult_mod_eq [symmetric])
    moreover have "uint w = A * 2 ^ 52 + M" unfolding A_def M_def by (rule div_mult_mod_eq [symmetric])
    moreover have "(Q * 2 ^ 11 + R) * 2 ^ 52 + M = Q * 2 ^ 63 + R * 2 ^ 52 + M" by simp
    ultimately show ?thesis unfolding A_def M_def R_def by metis
  qed
  have s: "uint w div 2 ^ 63 = 0 \<or> uint w div 2 ^ 63 = 1" for w :: u64
  proof -
    have "0 \<le> uint w div 2 ^ 63" "uint w div 2 ^ 63 < 2"
      using uint_bounded [of w] pos_imp_zdiv_nonneg_iff [of "2 ^ 63" "uint w"] by (simp_all add: uint_nonnegative)
    then show ?thesis by linarith
  qed
  have "uint a div 2 ^ 63 = uint b div 2 ^ 63" using assms(1) s [of a] s [of b] unfolding dbl_neg_def by metis
  then have "uint a = uint b"
    using dec [of a] dec [of b] em unfolding ea_def eb_def ma_def mb_def by metis
  then show ?thesis by (rule unsigned_word_eqI)
qed

lemma sig_exp_unique:
  fixes M N :: nat
  assumes "M * 2 ^ a = N * 2 ^ b" "M < 2 ^ 53" "N < 2 ^ 53" "0 < a \<Longrightarrow> 2 ^ 52 \<le> M" "0 < b \<Longrightarrow> 2 ^ 52 \<le> N"
  shows "M = N \<and> a = b"
proof -
  have no: False if eq: "M' * 2 ^ x = N' * 2 ^ y" and lt: "M' < 2 ^ 53" and ge: "2 ^ 52 \<le> N'" and xy: "x < y"
    for M' N' x y :: nat
  proof -
    obtain k where k: "y = x + Suc k" using xy less_iff_Suc_add [of x y] by auto
    have "M' = N' * 2 ^ Suc k" using eq unfolding k power_add by simp
    moreover have "N' * 2 \<le> N' * 2 ^ Suc k" by simp
    ultimately have "N' * 2 \<le> M'" by simp
    then show False using lt ge by simp
  qed
  have "a = b"
  proof (rule linorder_cases [of a b])
    assume "a < b" then show ?thesis using no [OF assms(1,2) assms(5)] by simp
  next
    assume "b < a" then show ?thesis using no [OF assms(1) [symmetric] assms(3) assms(4)] by simp
  qed
  then show ?thesis using assms(1) by simp
qed

lemma dbl_val_inj:
  assumes a: "dbl_val a = Some q" and b: "dbl_val b = Some q" and "q \<noteq> 0" shows "a = b"
proof -
  let ?n = "\<lambda>w. dbl_sig w * 2 ^ dbl_exp w"
  have e: "(if dbl_neg a then -1 else 1) * (of_nat (?n a) :: rat) = (if dbl_neg b then -1 else 1) * of_nat (?n b)"
    using dbl_val_scaled [OF a] dbl_val_scaled [OF b] by simp
  have "q * 2 ^ 1074 \<noteq> 0" using assms(3) by (simp only: mult_eq_0_iff power_eq_0_iff) simp
  then have "of_nat (?n b) \<noteq> (0 :: rat)" using dbl_val_scaled [OF b] by (metis mult_zero_right)
  then have pos: "(0 :: rat) < of_nat (?n b)" "(0 :: rat) \<le> of_nat (?n a)"
    by (simp_all only: of_nat_0_le_iff of_nat_0_less_iff of_nat_eq_0_iff neq0_conv)
  have sg: "dbl_neg a = dbl_neg b" using e pos by (cases "dbl_neg a"; cases "dbl_neg b"; simp only: if_True if_False simp_thms; linarith)
  then have "of_nat (?n a) = (of_nat (?n b) :: rat)" using e by (cases "dbl_neg b"; simp only: if_True if_False; linarith)
  then have "?n a = ?n b" by (simp only: of_nat_eq_iff)
  from sig_exp_unique [OF this dbl_sig_bounds(1) dbl_sig_bounds(1) dbl_sig_bounds(2) dbl_sig_bounds(2)]
  show ?thesis using dbl_parts_inj [OF sg] by blast
qed

lemma trunc_whole: "num_whole q \<Longrightarrow> of_int (trunc_rat q) = q"
  unfolding num_whole_def trunc_rat_def by (metis ceiling_of_int)

lemma trunc_less: "of_int (trunc_rat q) < q \<longleftrightarrow> \<not> num_whole q \<and> 0 < q"
proof (cases "0 < q")
  case True
  have "of_int \<lfloor>q\<rfloor> < q \<longleftrightarrow> of_int \<lfloor>q\<rfloor> \<noteq> q" using of_int_floor_le [of q] by linarith
  then show ?thesis using True by (simp add: trunc_rat_def num_whole_def)
next
  case False
  then have "q \<le> of_int (trunc_rat q)" by (auto simp: trunc_rat_def)
  then show ?thesis using False by simp
qed

text \<open>A fraction has fewer than 53 bits before the point.\<close>

lemma fraction_small:
  assumes "dbl_val d = Some q" "\<not> num_whole q" shows "\<bar>q\<bar> < 2 ^ 53"
proof -
  define B :: rat where "B = 2 ^ 1074"
  have B: "0 < B" unfolding B_def by (rule zero_less_power) simp
  define s :: int where "s = (if dbl_neg d then -1 else 1)"
  have sc: "q * B = of_int s * of_nat (dbl_sig d * 2 ^ dbl_exp d)"
    using dbl_val_scaled [OF assms(1)] unfolding B_def s_def by (cases "dbl_neg d") (simp_all only: if_True if_False of_int_minus of_int_1)
  have e: "dbl_exp d < 1074"
  proof (rule ccontr)
    assume "\<not> dbl_exp d < 1074"
    then obtain k where k: "dbl_exp d = k + 1074" using le_iff_add [of 1074 "dbl_exp d"] by (auto simp: add.commute)
    have "q * B = of_int (s * int (dbl_sig d * 2 ^ k)) * B"
      unfolding sc k power_add by (simp add: B_def del: power_numeral)
    then have "q = of_int (s * int (dbl_sig d * 2 ^ k))" using B by simp
    then show False using assms(2) by (simp only: num_whole_def floor_of_int)
  qed
  have "\<bar>q\<bar> * B = of_nat (dbl_sig d) * 2 ^ dbl_exp d"
    using arg_cong [OF sc, of abs] B by (simp add: abs_mult s_def)
  also have "\<dots> < 2 ^ 53 * 2 ^ dbl_exp d" using dbl_sig_bounds(1) [of d] by simp
  also have "\<dots> \<le> 2 ^ 53 * B" unfolding B_def using e by (intro mult_left_mono power_increasing) simp_all
  finally show ?thesis using B by simp
qed

text \<open>The code pushes the canonical form of a number, and nothing for numbers it cannot carry.\<close>

lemma push_number_canon:
  assumes "num_exact d \<or> num_rounded d"
  shows "push_number d = Inr [LNum (canon_num d)]" "\<exists>q. dbl_val (canon_num d) = Some q"
proof -
  obtain q where q: "dbl_val d = Some q" using assms by (auto simp: num_exact_def num_rounded_def split: option.splits)
  let ?t = "trunc_rat q"
  have b: "\<bar>?t\<bar> < 2 ^ 53"
  proof (cases "num_whole q")
    case True
    then show ?thesis using assms q by (intro trunc_rat_bounds [of 4294967295]) (auto simp: num_exact_def num_rounded_def)
  next
    case False
    have "\<bar>q\<bar> < 2 ^ 53" by (rule fraction_small [OF q False])
    then have "\<bar>of_int ?t\<bar> < (2 ^ 53 :: rat)" by (auto simp: trunc_rat_def abs_less_iff) linarith+
    then show ?thesis by (metis of_int_abs of_int_less_iff of_int_numeral of_int_power)
  qed
  have v: "dbl_val (dbl_of_int ?t) = Some (of_int ?t)" by (rule dbl_val_of_int [OF b])
  have rng: "\<not> (?t < - (2 ^ 63) \<or> ?t \<ge> 2 ^ 63)" using b by auto
  have pn: "push_number d = (if of_int ?t < q then Inr [LNum d]
      else if -2147483648 \<le> q \<and> q \<le> 4294967295 then Inr [LNum (dbl_of_int ?t)] else Inr [])"
    unfolding push_number_def q Let_def option.case using rng by auto
  show "push_number d = Inr [LNum (canon_num d)]"
  proof (cases "num_whole q")
    case True
    then have "of_int ?t = q" by (rule trunc_whole)
    then have "dbl_of_int ?t = (if q = 0 then 0 else d)"
      using dbl_val_inj [OF v] q by (auto simp: dbl_of_int_def)
    then show ?thesis using pn True assms q trunc_less [of q] by (auto simp: canon_num_def num_exact_def num_rounded_def)
  next
    case False
    then have "q \<noteq> 0" by (auto simp: num_whole_def)
    then show ?thesis using pn False assms q trunc_less [of q] by (auto simp: canon_num_def num_exact_def num_rounded_def trunc_rat_def)
  qed
  show "\<exists>q. dbl_val (canon_num d) = Some q"
  proof (cases "q < 0")
    case True
    then have "?t = \<lceil>q\<rceil>" by (simp add: trunc_rat_def)
    then show ?thesis using q v True by (simp add: canon_num_def)
  next
    case False
    have "dbl_val 0 = Some 0" by (simp add: dbl_val_def)
    then show ?thesis using q False by (simp add: canon_num_def)
  qed
qed

lemma dec_ok_num:
  assumes "dec_ok (LNum d)"
  obtains d' q where "push_number d = Inr [LNum d']" "canon (LNum d) = LNum d'" "dbl_val d' = Some q"
  using push_number_canon [of d] assms that by auto

lemma tbl_set_fresh:
  "list_all (\<lambda>p. \<not> key_eq k (fst p)) acc \<Longrightarrow> v \<noteq> LNil \<Longrightarrow> tbl_set acc k v = acc @ [(k, v)]"
  by (induction acc) auto

lemma canon_not_nil: "dec_ok v \<Longrightarrow> v \<noteq> LNil \<Longrightarrow> canon v \<noteq> LNil"
  by (cases v) (auto elim: dec_ok_num simp del: canon.simps(3) dec_ok.simps(3))

lemma settable_canon:
  assumes "dec_ok k" "k \<noteq> LNil" "dec_ok v" "v \<noteq> LNil"
    "list_all (\<lambda>p. \<not> key_eq (canon k) (fst p)) acc"
  shows "lua_settable3 (canon v # canon k # LTable acc # st) = Inr (LTable (acc @ [(canon k, canon v)]) # st)"
proof (cases k)
  case (LNum d)
  then obtain d' q where "canon k = LNum d'" "dbl_val d' = Some q" using assms(1) dec_ok_num by blast
  with assms canon_not_nil [OF assms(3,4)] show ?thesis by (simp add: dbl_nan_def tbl_set_fresh)
qed (use assms canon_not_nil [OF assms(3,4)] tbl_set_fresh [of "canon k" acc "canon v"] in simp_all)

lemma read_number: "mem_read (le_bytes 8 x @ rest) 0 8 = Inr (le_bytes 8 x)"
  by (simp add: mem_read_def)

lemma mem_read_str: "mem_read (xs @ s @ rest) (length xs) (length s) = Inr s"
  by (simp add: mem_read_def)

lemma pushdata_string:
  assumes "length s < 2 ^ 28"
  shows "lua_pushdata (enc_val (LStr s) @ rest) st = Inr (LStr s # st, int (length (enc_val (LStr s))))"
proof -
  have "unat (of_nat (length s) :: u32) = length s" using assms by (intro unat_of_nat_u32) simp
  then have rd: "luadef_read_length (len_bytes (of_nat (length s)) @ s @ rest) =
      Inr (int (length s), length (len_bytes (of_nat (length s))))"
    using length_format_read [of "of_nat (length s)" "s @ rest"] assms by simp
  then show ?thesis
    by (simp add: lua_pushdata.simps mem_read_str)
qed

lemma pushtable_loop_step:
  "buf = b # bs \<Longrightarrow> b \<noteq> 0xFF \<Longrightarrow> lua_pushdata buf st = Inr (st1, int u1) \<Longrightarrow> u1 > 0 \<Longrightarrow>
     lua_pushdata (drop u1 buf) st1 = Inr (st2, int u2) \<Longrightarrow> u2 > 0 \<Longrightarrow> lua_settable3 st2 = Inr st3 \<Longrightarrow>
     lua_pushtable_loop buf st n = lua_pushtable_loop (drop (u1 + u2) buf) st3 (n + u1 + u2)"
  by (simp add: lua_pushtable_loop.simps [of "b # bs"])

lemma pushdata_enc:
  "dec_ok v \<Longrightarrow> lua_pushdata (enc_val v @ rest) st = Inr (canon v # st, int (length (enc_val v)))"
  "dec_ok_pairs t \<Longrightarrow> list_all (\<lambda>x. list_all (\<lambda>p. \<not> key_eq (canon (fst x)) (fst p)) acc) t \<Longrightarrow>
     lua_pushtable_loop (enc_pairs t @ rest) (LTable acc # st) n =
       Inr (LTable (acc @ canon_pairs t) # st, int (n + length (enc_pairs t)))"
proof (induction v and t arbitrary: rest st and acc rest st n rule: dec_ok_dec_ok_pairs.induct)
  case (2 s)
  then show ?case by (simp add: pushdata_string del: enc_val.simps)
next
  case (3 d)
  then obtain d' q where "push_number d = Inr [LNum d']" "canon (LNum d) = LNum d'" by (rule dec_ok_num)
  then show ?case by (simp add: lua_pushdata.simps read_number le_nat_u64)
next
  case (4 t)
  then show ?case by (simp add: lua_pushdata.simps lua_pushtable.simps list_all_iff)
next
  case (8)
  then show ?case by (simp add: lua_pushtable_loop.simps)
next
  case (9 k v t)
  have ok: "dec_ok k" "k \<noteq> LNil" "dec_ok v" "v \<noteq> LNil" "dec_ok_pairs t" using "9.prems"(1) by simp_all
  obtain b bs where hd: "enc_val k = b # bs" "b \<noteq> 0xFF" using enc_val_head [OF dec_ok_no_fun(1) [OF ok(1)]] by blast
  define buf where "buf = enc_val k @ enc_val v @ enc_pairs t @ rest"
  obtain bs' where b: "buf = b # bs'" using hd(1) by (simp add: buf_def)
  have pos: "0 < length (enc_val k)" "0 < length (enc_val v)"
    using enc_val_head [OF dec_ok_no_fun(1) [OF ok(1)]] enc_val_head [OF dec_ok_no_fun(1) [OF ok(3)]] by auto
  have p1: "lua_pushdata buf st0 = Inr (canon k # st0, int (length (enc_val k)))" for st0
    unfolding buf_def using "9.IH"(1) ok(1) by blast
  have p2: "lua_pushdata (drop (length (enc_val k)) buf) st0 = Inr (canon v # st0, int (length (enc_val v)))" for st0
    using "9.IH"(2) ok(3) by (simp add: buf_def)
  have d: "drop (length (enc_val k) + length (enc_val v)) buf = enc_pairs t @ rest"
    by (simp add: buf_def)
  have s: "lua_settable3 (canon v # canon k # LTable acc # st) = Inr (LTable (acc @ [(canon k, canon v)]) # st)"
    using settable_canon [OF ok(1-4)] "9.prems"(2) by simp
  have l: "lua_pushtable_loop (enc_pairs t @ rest) (LTable (acc @ [(canon k, canon v)]) # st) n' =
     Inr (LTable (acc @ [(canon k, canon v)] @ canon_pairs t) # st, int (n' + length (enc_pairs t)))" for n'
    using "9.IH"(3) [of "acc @ [(canon k, canon v)]"] "9.prems" ok(5) by (auto simp: list_all_iff)
  have "lua_pushtable_loop buf (LTable acc # st) n =
      Inr (LTable (acc @ [(canon k, canon v)] @ canon_pairs t) # st,
        int (n + length (enc_val k) + length (enc_val v) + length (enc_pairs t)))"
    using pushtable_loop_step [OF b hd(2) p1 pos(1) p2 pos(2) s] by (simp add: d l)
  then show ?case by (simp add: buf_def)
qed (simp_all add: lua_pushdata.simps mem_get_def)

lemma deserial_loop_step:
  "buf = b # bs \<Longrightarrow> b \<noteq> 0xFF \<Longrightarrow> lua_pushdata buf st = Inr (st1, int used) \<Longrightarrow> used > 0 \<Longrightarrow>
     deserial_loop buf st i = deserial_loop (drop used buf) st1 (Suc i)"
  by (simp add: deserial_loop.simps [of "b # bs"])

lemma deserial_loop_enc:
  assumes "list_all dec_ok args"
  shows "deserial_loop (enc_args args @ 0xFF # rest) st i = Inr (rev (map canon args) @ st, i + length args)"
  using assms
proof (induction args arbitrary: st i)
  case Nil
  then show ?case by (simp add: enc_args_def deserial_loop.simps)
next
  case (Cons v args)
  have v: "dec_ok v" using Cons.prems by simp
  obtain b bs where hd: "enc_val v = b # bs" "b \<noteq> 0xFF" using enc_val_head [OF dec_ok_no_fun(1) [OF v]] by blast
  define buf where "buf = enc_val v @ enc_args args @ 0xFF # rest"
  obtain bs' where b: "buf = b # bs'" using hd(1) by (simp add: buf_def)
  have p: "lua_pushdata buf st = Inr (canon v # st, int (length (enc_val v)))"
    unfolding buf_def using pushdata_enc(1) [OF v] by blast
  have "deserial_loop buf st i = deserial_loop (drop (length (enc_val v)) buf) (canon v # st) (Suc i)"
    using deserial_loop_step [OF b hd(2) p] hd(1) by simp
  then show ?case using Cons by (simp add: buf_def enc_args_def)
qed

lemma enc_args_nonempty: "list_all no_fun args \<Longrightarrow> args \<noteq> [] \<Longrightarrow> enc_args args \<noteq> []"
  using enc_val_head by (cases args) (force simp: enc_args_def)+

lemma swap_small:
  assumes "unat (SWAP_U32 x) \<le> 1" shows "x = 0 \<or> x = 2 ^ 24"
proof -
  have "SWAP_U32 x = 0 \<or> SWAP_U32 x = 1" using assms by (auto simp: word_unat_eq_iff)
  then have "SWAP_U32 (SWAP_U32 x) = SWAP_U32 0 \<or> SWAP_U32 (SWAP_U32 x) = SWAP_U32 1" by auto
  moreover have "SWAP_U32 0 = 0" "SWAP_U32 1 = 2 ^ 24" by (simp_all add: SWAP_U32_def)
  ultimately show ?thesis by (simp only: SWAP_U32_involution)
qed

lemma pack_unpack_canon:
  assumes "list_all dec_ok args" "length (enc_args args) + 5 < 2 ^ 31"
    "length (enc_args args) + 1 \<noteq> 2 ^ 24"
  shows "\<exists>s. lua_defparser_serial alloc_ok args = Inr s
     \<and> lua_defparser_deserial s = Inr (rev (map canon args) @ [LStr s], length args)"
proof -
  define x :: u32 where "x = of_nat (length (enc_args args) + 1)"
  define s where "s = le_bytes 4 (unat (SWAP_U32 x)) @ enc_args args @ [0xFF]"
  have nf: "list_all no_fun args" using assms(1) dec_ok_no_fun(1) by (auto simp: list_all_iff)
  have ux: "unat x = length (enc_args args) + 1"
    unfolding x_def using assms(2) by (intro unat_of_nat_u32) simp
  then have "x \<noteq> 0" "x \<noteq> 2 ^ 24" using assms(3) by auto
  then have hdr: "\<not> unat (SWAP_U32 x) \<le> 1" using swap_small by blast
  have "lua_defparser_deserial s = Inr (rev (map canon args) @ [LStr s], length args)"
  proof (cases "args = []")
    case True
    then show ?thesis by (simp add: lua_defparser_deserial_def s_def enc_args_def)
  next
    case False
    then have "enc_args args \<noteq> []" by (rule enc_args_nonempty [OF nf])
    then show ?thesis
      using hdr deserial_loop_enc [OF assms(1), of "[0]" "[LStr s]" 0]
      by (simp add: lua_defparser_deserial_def s_def le_nat_u32)
  qed
  then show ?thesis using pack_ok [OF nf assms(2)] by (simp add: s_def x_def)
qed

text \<open>
  A payload of \<open>2 ^ 24\<close> bytes: the header is compared without swapping it back, is read
  as 1, and \<open>unpack\<close> returns no value at all.
\<close>

lemma unpack_drops_16MiB:
  assumes "list_all no_fun args" "length (enc_args args) + 1 = 2 ^ 24"
  shows "\<exists>s. lua_defparser_serial alloc_ok args = Inr s \<and> lua_defparser_deserial s = Inr ([LStr s], 0)"
proof -
  have "SWAP_U32 (of_nat (length (enc_args args) + 1)) = 1"
    unfolding assms(2) by (simp add: SWAP_U32_def)
  then have "lua_defparser_serial alloc_ok args = Inr (le_bytes 4 1 @ enc_args args @ [0xFF])"
    using pack_ok [OF assms(1)] assms(2) by simp
  moreover have "lua_defparser_deserial (le_bytes 4 1 @ enc_args args @ [0xFF]) =
      Inr ([LStr (le_bytes 4 1 @ enc_args args @ [0xFF])], 0)"
    using le_nat_u32 [of 1] by (simp add: lua_defparser_deserial_def)
  ultimately show ?thesis by blast
qed

lemma unpack_drops_16MiB_example:
  "\<exists>s. lua_defparser_serial alloc_ok [LStr (replicate (2 ^ 24 - 6) 0)] = Inr s
     \<and> lua_defparser_deserial s = Inr ([LStr s], 0)"
proof (rule unpack_drops_16MiB)
  have "length (len_bytes (0xFFFFFA :: u32)) = 4" by (simp add: len_bytes_def)
  then show "length (enc_args [LStr (replicate (2 ^ 24 - 6) 0)]) + 1 = 2 ^ 24"
    by (simp add: enc_args_def)
qed simp

text \<open>
  The values the format carries whole: no functions, numbers that are whole from \<open>INT_MIN\<close> to
  \<open>UINT_MAX\<close> or positive fractions, strings below \<open>2 ^ 28\<close> bytes, and tables of such values. As
  in every Lua table, no key or value is nil and no two keys are equal.
\<close>

function carried :: "lval \<Rightarrow> bool" and carried_pairs :: "(lval \<times> lval) list \<Rightarrow> bool" where
  "carried LNil = True"
| "carried (LBool b) = True"
| "carried (LNum d) = num_exact d"
| "carried (LStr s) = (length s < 2 ^ 28)"
| "carried (LTable t) = carried_pairs t"
| "carried (LFun f) = False"
| "carried (LUser u) = False"
| "carried_pairs [] = True"
| "carried_pairs ((k, v) # t) =
     (carried k \<and> k \<noteq> LNil \<and> carried v \<and> v \<noteq> LNil
      \<and> list_all (\<lambda>p. \<not> key_eq (fst p) k) t \<and> carried_pairs t)"
  by pat_completeness auto
termination
  by (relation "measure (case_sum size (size_list (size_prod size size)))") auto

text \<open>A value with the sign of its zeros dropped: the number \<open>-0\<close> is read back as \<open>0\<close>.\<close>

function unsigned_zero :: "lval \<Rightarrow> lval" and unsigned_zero_pairs :: "(lval \<times> lval) list \<Rightarrow> (lval \<times> lval) list" where
  "unsigned_zero (LNum d) = LNum (if d = 0x8000000000000000 then 0 else d)"
| "unsigned_zero (LTable t) = LTable (unsigned_zero_pairs t)"
| "unsigned_zero LNil = LNil"
| "unsigned_zero (LBool b) = LBool b"
| "unsigned_zero (LStr s) = LStr s"
| "unsigned_zero (LFun f) = LFun f"
| "unsigned_zero (LUser u) = LUser u"
| "unsigned_zero_pairs [] = []"
| "unsigned_zero_pairs ((k, v) # t) = (unsigned_zero k, unsigned_zero v) # unsigned_zero_pairs t"
  by pat_completeness auto
termination
  by (relation "measure (case_sum size (size_list (size_prod size size)))") auto

text \<open>Two doubles have the value zero.\<close>

lemma dbl_zero: "dbl_val d = Some 0 \<longleftrightarrow> d = 0 \<or> d = 0x8000000000000000"
proof
  assume z: "dbl_val d = Some 0"
  have "dbl_sig d * 2 ^ dbl_exp d = 0" using dbl_val_scaled [OF z] by (simp only: mult_zero_left) (simp split: if_splits)
  then have s: "dbl_sig d = 0" by simp
  then have e: "dbl_exp d = 0" using dbl_sig_bounds(2) [of d] by fastforce
  have p: "dbl_sig 0 = 0" "dbl_exp 0 = 0" "\<not> dbl_neg 0" "dbl_sig 0x8000000000000000 = 0"
    "dbl_exp 0x8000000000000000 = 0" "dbl_neg 0x8000000000000000" by code_simp+
  show "d = 0 \<or> d = 0x8000000000000000"
  proof (cases "dbl_neg d")
    case True
    then show ?thesis using dbl_parts_inj [of d "0x8000000000000000"] s e p(4-6) by simp
  next
    case False
    then show ?thesis using dbl_parts_inj [of d 0] s e p(1-3) by simp
  qed
next
  have "dbl_val 0 = Some 0" by (simp add: dbl_val_def)
  moreover have "dbl_val 0x8000000000000000 = Some 0" by code_simp
  ultimately show "d = 0 \<or> d = 0x8000000000000000 \<Longrightarrow> dbl_val d = Some 0" by auto
qed

lemma canon_num_exact: "num_exact d \<Longrightarrow> canon_num d = (if d = 0x8000000000000000 then 0 else d)"
  using dbl_zero [of d]
  by (auto simp: num_exact_def canon_num_def num_whole_def split: option.splits if_splits)

lemma key_eq_unsigned_zero: "key_eq (unsigned_zero k) (unsigned_zero k') \<longleftrightarrow> key_eq k k'"
proof -
  have v: "dbl_val (if d = 0x8000000000000000 then 0 else d) = dbl_val d" for d
    using dbl_zero [of 0] dbl_zero [of "0x8000000000000000"] by auto
  show ?thesis
  proof (cases k; cases k')
    fix d d' assume k: "k = LNum d" "k' = LNum d'"
    have "d = 0x8000000000000000 \<or> d' = 0x8000000000000000 \<Longrightarrow> dbl_val d \<noteq> None \<or> d' \<noteq> d"
      using dbl_zero [of d] by auto
    then show ?thesis
      using dbl_zero [of d] dbl_zero [of d'] by (auto simp: k v dbl_nan_def)
  qed simp_all
qed

lemma carried_canon:
  "carried v \<Longrightarrow> dec_ok v \<and> canon v = unsigned_zero v"
  "carried_pairs t \<Longrightarrow> dec_ok_pairs t \<and> canon_pairs t = unsigned_zero_pairs t
     \<and> list_all (\<lambda>p. canon (fst p) = unsigned_zero (fst p)) t"
  by (induction v and t rule: carried_carried_pairs.induct)
    (auto simp: canon_num_exact list_all_iff key_eq_unsigned_zero)



text \<open>
  What becomes of a number \<open>q\<close> with \<open>|q| < 2 ^ 63\<close>: a whole number from \<open>INT_MIN\<close> to
  \<open>UINT_MAX\<close> keeps its value; a positive fraction keeps its bits; a negative fraction not
  below \<open>INT_MIN\<close> is rounded towards zero; for every other number nothing is pushed, so
  the values after it move down by one.
\<close>

theorem push_number_value:
  assumes "dbl_val d = Some q" "\<bar>q\<bar> < 2 ^ 63"
  shows "push_number d =
     (if of_int \<lfloor>q\<rfloor> \<noteq> q \<and> q > 0 then Inr [LNum d]
      else if -2147483648 \<le> q \<and> q \<le> 4294967295 then Inr [LNum (dbl_of_int (trunc_rat q))]
      else Inr [])
   \<and> (-2147483648 \<le> q \<and> q \<le> 4294967295 \<longrightarrow>
        dbl_val (dbl_of_int (trunc_rat q)) = Some (of_int (trunc_rat q)))
   \<and> (of_int \<lfloor>q\<rfloor> = q \<longrightarrow> of_int (trunc_rat q) = q)"
proof -
  have tr: "q \<le> of_int (trunc_rat q) \<longleftrightarrow> \<not> (of_int \<lfloor>q\<rfloor> \<noteq> q \<and> q > 0)"
  proof (cases "q > 0")
    case True
    have "q \<le> of_int \<lfloor>q\<rfloor> \<longleftrightarrow> of_int \<lfloor>q\<rfloor> = q" using of_int_floor_le [of q] by linarith
    with True show ?thesis by (simp add: trunc_rat_def)
  next
    case False
    then show ?thesis by (auto simp: trunc_rat_def)
  qed
  have int: "of_int \<lfloor>q\<rfloor> = q \<Longrightarrow> of_int (trunc_rat q) = q"
    by (metis ceiling_of_int trunc_rat_def)
  have "- (2 ^ 63) \<le> trunc_rat q \<and> trunc_rat q < 2 ^ 63"
    using assms(2) by (auto simp: trunc_rat_def abs_less_iff floor_less_iff le_ceiling_iff)
  then have rng: "\<not> (trunc_rat q < - (2 ^ 63) \<or> trunc_rat q \<ge> 2 ^ 63)" by auto
  have val: "dbl_val (dbl_of_int (trunc_rat q)) = Some (of_int (trunc_rat q))"
    if "-2147483648 \<le> q" "q \<le> 4294967295"
    using that by (intro dbl_val_of_int trunc_rat_bounds [of 4294967295]) simp_all
  have "push_number d =
     (if q \<le> of_int (trunc_rat q)
      then (if -2147483648 \<le> q \<and> q \<le> 4294967295 then Inr [LNum (dbl_of_int (trunc_rat q))] else Inr [])
      else Inr [LNum d])"
    unfolding push_number_def assms(1) Let_def option.case using rng by auto
  with tr int val show ?thesis by auto
qed

theorem push_number_value_witness:
  "push_number 0xBFF8000000000000 = Inr [LNum (dbl_of_int (-1))]"
proof -
  have "dbl_val 0xBFF8000000000000 = Some (- 3 / 2)" by code_simp
  moreover have "trunc_rat (- 3 / 2) = -1" by code_simp
  ultimately show ?thesis using push_number_value [of "0xBFF8000000000000" "- 3 / 2"] by simp
qed

end
