(* ===== verification/Decoder.thy ===== *)
theory Decoder
  imports Codec
begin

text \<open>
  The framing decoder of \<open>libuv-lua/src/lua-decoder.c\<close>: \<open>lua_defparser_push\<close>, which turns the
  bytes of a stream into values on the Lua stack, \<open>lua_default_decoder\<close>, which keeps the
  incomplete bytes and calls the Lua callback, and \<open>defaultdecoder_create\<close>.

  Chunks are shorter than 2 GiB, where \<open>int\<close>, \<open>unsigned int\<close> and \<open>size_t\<close> agree. The
  pointer \<open>buf\<close> is the list of the bytes that may be read from there; a Lua string is
  followed by its terminating 0. \<open>call\<close> is the Lua virtual machine calling a value: an
  error value or the results.
\<close>

datatype pst = PST_START | PST_DATASTART | PST_ERRORDATA

record luadecoder =
  dmem :: automem_t
  doffset :: nat
  dst :: pst
  dsize :: u32

definition defaultdecoder_create :: "(nat \<Rightarrow> bool) \<Rightarrow> luadecoder" where
  "defaultdecoder_create al =
     \<lparr>dmem = automem_init al undefined 128, doffset = 0, dst = PST_START, dsize = 0\<rparr>"

text \<open>The inner loop of the \<open>_PST_DATASTART\<close> case; \<open>False\<close> when the data are malformed.\<close>

function push_data_loop :: "u8 list \<Rightarrow> nat \<Rightarrow> nat \<Rightarrow> lval list \<Rightarrow> (lval list \<times> nat \<times> bool) res" where
  "push_data_loop buf sz p st =
     (if p < sz
      then res_bind (mem_get buf p) (\<lambda>b.
           if b = 0xFF then Inr (st, p, True)
           else res_bind (lua_pushdata (drop p buf) st) (\<lambda>(st1, ret).
                if ret < 0 then Inr (st1, p, False)
                else if ret = 0 then Inl Diverges
                else push_data_loop buf sz (p + nat ret) st1))
      else Inr (st, p, True))"
  by pat_completeness auto
termination
  by (relation "measure (\<lambda>(buf, sz, p, st). sz - p)") auto

declare push_data_loop.simps [simp del]

lemma push_data_loop_p: "push_data_loop buf sz p st = Inr (st', p', b) \<Longrightarrow> p \<le> p'"
proof (induction buf sz p st arbitrary: rule: push_data_loop.induct)
  case (1 buf sz p st)
  show ?case
  proof (cases "p < sz")
    case True
    from "1.prems" True obtain b0 where b0: "mem_get buf p = Inr b0"
      by (subst (asm) push_data_loop.simps) (auto simp: res_bind_Inr)
    show ?thesis
    proof (cases "b0 = 0xFF")
      case False
      with "1.prems" True b0 obtain st1 ret where
        r: "lua_pushdata (drop p buf) st = Inr (st1, ret)"
        by (subst (asm) push_data_loop.simps) (auto simp: res_bind_Inr)
      with "1.prems" True b0 False "1.IH" [OF True b0 False r, of st1 ret] show ?thesis
        by (subst (asm) push_data_loop.simps) (auto split: if_splits)
    qed (use "1.prems" True b0 in \<open>subst (asm) push_data_loop.simps, auto\<close>)
  qed (use "1.prems" in \<open>subst (asm) push_data_loop.simps, auto\<close>)
qed

text \<open>
  In the states and sizes where no case of the \<open>switch\<close> changes anything, the loop never
  ends.
\<close>

function lua_defparser_push ::
    "luadecoder \<Rightarrow> u8 list \<Rightarrow> nat \<Rightarrow> nat \<Rightarrow> lval list \<Rightarrow> (luadecoder \<times> int \<times> lval list) res" where
  "lua_defparser_push decoder buf sz p st =
     (if p < sz
      then case dst decoder of
          PST_START \<Rightarrow>
            if sz \<ge> p + 4
            then res_bind (mem_read buf p 4) (\<lambda>h.
                 lua_defparser_push
                   (decoder\<lparr>dsize := SWAP_U32 (of_nat (le_nat h)), dst := PST_DATASTART\<rparr>)
                   buf sz (p + 4) st)
            else Inr (decoder, int p, st)
        | PST_DATASTART \<Rightarrow>
            if sz \<ge> unat (dsize decoder)
            then res_bind (push_data_loop buf sz p st) (\<lambda>(st1, p1, ok).
                 if ok then lua_defparser_push (decoder\<lparr>dst := PST_START\<rparr>) buf sz (p1 + 1) st1
                 else Inr (decoder\<lparr>dst := PST_ERRORDATA\<rparr>, -1, st1))
            else Inl Diverges
        | PST_ERRORDATA \<Rightarrow> Inl Diverges
      else Inr (decoder, int p, st))"
  by pat_completeness auto
termination
  by (relation "measure (\<lambda>(decoder, buf, sz, p, st). sz - p)")
    (auto dest: push_data_loop_p)

declare lua_defparser_push.simps [simp del]

text \<open>
  \<open>lua_pcallk(L, psh, LUA_MULTRET, ...)\<close>: the function and its arguments are replaced by the
  results or by the error value. The call itself is recorded.
\<close>

type_synonym lua_call = "lval \<Rightarrow> lval list \<Rightarrow> lval + lval list"

definition lua_pcallk ::
    "lua_call \<Rightarrow> int \<Rightarrow> lval list \<Rightarrow> (lval list \<times> lval \<times> lval list) res" where
  "lua_pcallk call psh st =
     (if psh < 0 \<or> nat psh \<ge> length st then Inl Out_of_bounds
      else let f = st ! nat psh; args = rev (take (nat psh) st); rest = drop (nat psh + 1) st
           in Inr ((case call f args of Inl e \<Rightarrow> e # rest | Inr rs \<Rightarrow> rev rs @ rest), f, args))"

text \<open>
  The loop of \<open>lua_default_decoder\<close>. \<open>inmem\<close> says that \<open>data\<close> is the decoder's own buffer.
  The branch for \<open>len <= offset\<close> after the call is the code's, though it is never taken.
\<close>

function decoder_loop ::
    "(nat \<Rightarrow> bool) \<Rightarrow> lua_call \<Rightarrow> u8 list \<Rightarrow> bool \<Rightarrow> int \<Rightarrow> luadecoder \<Rightarrow> nat \<Rightarrow> lval list
      \<Rightarrow> (lval \<times> lval list) list \<Rightarrow> (luadecoder \<times> lval list \<times> (lval \<times> lval list) list) res" where
  "decoder_loop al call data inmem argc decoder offset st calls =
     (if length data > offset
      then res_bind (lua_defparser_push decoder
             (drop offset data @ (if inmem then [] else [0])) (length data - offset) 0 st)
             (\<lambda>(decoder1, used, st1).
           if used > 0
           then if dst decoder1 = PST_START
                then res_bind (lua_pcallk call (int (length st1) - argc + 2) st1) (\<lambda>(st2, c).
                     decoder_loop al call data inmem argc decoder1 (offset + nat used) st2
                       (calls @ [c]))
                else decoder_loop al call data inmem argc decoder1 (offset + nat used) st1 calls
           else if length data > offset
           then if \<not> inmem
                then res_bind (am_put al (dmem decoder1) (drop offset data)) (\<lambda>m.
                     Inr (decoder1\<lparr>dmem := m, doffset := 0\<rparr>, st1, calls))
                else Inr (decoder1\<lparr>doffset := offset\<rparr>, st1, calls)
           else Inr (decoder1\<lparr>dmem := (if buffersize (dmem decoder1) > 10240
                        then automem_clean al (dmem decoder1) 32 else automem_reset (dmem decoder1)),
                      doffset := 0\<rparr>, st1, calls))
      else Inr (decoder, st, calls))"
  by pat_completeness auto
termination
  by (relation "measure (\<lambda>(al, call, data, inmem, argc, decoder, offset, st, calls). length data - offset)") auto

declare decoder_loop.simps [simp del]

fun is_function :: "lval \<Rightarrow> bool" where
  "is_function (LFun f) = True"
| "is_function _ = False"

text \<open>
  \<open>lua_default_decoder\<close>: the stack holds the decoder (\<open>self\<close>), callback, server, connection
  and data string.
\<close>

definition lua_default_decoder ::
    "(nat \<Rightarrow> bool) \<Rightarrow> lua_call \<Rightarrow> luadecoder \<Rightarrow> lval \<Rightarrow> lval \<Rightarrow> lval \<Rightarrow> lval \<Rightarrow> u8 list
      \<Rightarrow> (luadecoder \<times> (lval \<times> lval list) list) res" where
  "lua_default_decoder al call decoder self cb server conn str =
     (let buffered = unat (am_size (dmem decoder)) > doffset decoder
      in res_bind (if buffered then am_put al (dmem decoder) str else Inr (dmem decoder)) (\<lambda>m.
         let decoder1 = decoder\<lparr>dmem := m\<rparr>
         in if \<not> is_function cb then Inl (Lua_error ''Error callback type'')
            else res_bind (if buffered then am_bytes m else Inr str) (\<lambda>data.
                 let st0 = [conn, server, cb, LStr str, conn, server, cb, self]
                 in res_bind (decoder_loop al call data buffered (int (length st0)) decoder1
                      (if buffered then doffset decoder1 else 0) st0 []) (\<lambda>(decoder2, st, calls).
                    Inr (decoder2, calls)))))"

section \<open>Streams of whole frames\<close>

text \<open>What \<open>pack\<close> produces for a list of arguments (lemma \<open>pack_ok\<close>).\<close>

definition frame :: "lval list \<Rightarrow> u8 list" where
  "frame args = le_bytes 4 (unat (SWAP_U32 (of_nat (length (enc_args args) + 1)))) @ enc_args args @ [0xFF]"

definition frame_ok :: "lval list \<Rightarrow> bool" where
  "frame_ok args \<longleftrightarrow> list_all dec_ok args \<and> length (enc_args args) + 5 < 2 ^ 31"

definition frames :: "lval list list \<Rightarrow> u8 list" where
  "frames fs = concat (map frame fs)"

lemma length_frame: "length (frame args) = length (enc_args args) + 5"
  by (simp add: frame_def)

lemma pack_frame: "frame_ok args \<Longrightarrow> lua_defparser_serial alloc_ok args = Inr (frame args)"
  using pack_ok [of args] dec_ok_no_fun(1) by (auto simp: frame_ok_def frame_def list_all_iff)

lemma push_data_loop_step:
  "p < sz \<Longrightarrow> mem_get buf p = Inr b \<Longrightarrow> b \<noteq> 0xFF \<Longrightarrow>
     lua_pushdata (drop p buf) st = Inr (st1, int u) \<Longrightarrow> u > 0 \<Longrightarrow>
     push_data_loop buf sz p st = push_data_loop buf sz (p + u) st1"
  by (simp add: push_data_loop.simps [of buf sz p])

lemma push_start_step:
  "p + 4 \<le> sz \<Longrightarrow> dst d = PST_START \<Longrightarrow> mem_read buf p 4 = Inr h \<Longrightarrow>
     lua_defparser_push d buf sz p st =
       lua_defparser_push (d\<lparr>dsize := SWAP_U32 (of_nat (le_nat h)), dst := PST_DATASTART\<rparr>) buf sz (p + 4) st"
  by (simp add: lua_defparser_push.simps [of d])

lemma push_data_step:
  "p < sz \<Longrightarrow> dst d = PST_DATASTART \<Longrightarrow> unat (dsize d) \<le> sz \<Longrightarrow>
     push_data_loop buf sz p st = Inr (st1, p1, True) \<Longrightarrow>
     lua_defparser_push d buf sz p st = lua_defparser_push (d\<lparr>dst := PST_START\<rparr>) buf sz (p1 + 1) st1"
  by (simp add: lua_defparser_push.simps [of d])

lemma push_data_loop_enc:
  assumes "list_all dec_ok args" "length pre + length (enc_args args) < sz"
  shows "push_data_loop (pre @ enc_args args @ 0xFF # rest) sz (length pre) st =
     Inr (rev (map canon args) @ st, length pre + length (enc_args args), True)"
  using assms
proof (induction args arbitrary: pre st)
  case Nil
  then show ?case by (simp add: enc_args_def push_data_loop.simps mem_get_def)
next
  case (Cons v args)
  have v: "dec_ok v" using Cons.prems(1) by simp
  obtain b bs where hd: "enc_val v = b # bs" "b \<noteq> 0xFF" using enc_val_head [OF dec_ok_no_fun(1) [OF v]] by blast
  define buf where "buf = pre @ enc_val v @ enc_args args @ 0xFF # rest"
  have g: "mem_get buf (length pre) = Inr b" using hd(1) by (simp add: buf_def mem_get_def)
  have p: "lua_pushdata (drop (length pre) buf) st = Inr (canon v # st, int (length (enc_val v)))"
    using pushdata_enc(1) [OF v] by (simp add: buf_def)
  have "push_data_loop buf sz (length pre) st =
      push_data_loop buf sz (length (pre @ enc_val v)) (canon v # st)"
    using push_data_loop_step [OF _ g hd(2) p] Cons.prems(2) hd(1) by simp
  also have "\<dots> = Inr (rev (map canon args) @ canon v # st,
      length (pre @ enc_val v) + length (enc_args args), True)"
    using Cons.IH [of "pre @ enc_val v" "canon v # st"] Cons.prems by (simp add: buf_def enc_args_def)
  finally show ?case by (simp add: buf_def enc_args_def)
qed

lemma header_size:
  assumes "frame_ok args"
  shows "unat (SWAP_U32 (of_nat (le_nat (le_bytes 4 (unat (SWAP_U32 (of_nat (length (enc_args args) + 1))))))))
    = length (enc_args args) + 1"
proof -
  have "unat (of_nat (length (enc_args args) + 1) :: u32) = length (enc_args args) + 1"
    using assms by (intro unat_of_nat_u32) (simp add: frame_ok_def)
  then show ?thesis by (simp add: le_nat_u32 SWAP_U32_involution)
qed

lemma push_frame:
  assumes "frame_ok args" "dst d = PST_START" "length pre + length (frame args) \<le> sz"
  shows "\<exists>d'. lua_defparser_push d (pre @ frame args @ rest) sz (length pre) st =
       lua_defparser_push d' (pre @ frame args @ rest) sz (length (pre @ frame args)) (rev (map canon args) @ st)
     \<and> dst d' = PST_START \<and> dmem d' = dmem d \<and> doffset d' = doffset d"
proof -
  define h where "h = le_bytes 4 (unat (SWAP_U32 (of_nat (length (enc_args args) + 1))))"
  define n where "n = SWAP_U32 (of_nat (le_nat h))"
  define buf where "buf = pre @ frame args @ rest"
  define d1 where "d1 = d\<lparr>dsize := n, dst := PST_DATASTART\<rparr>"
  have n: "unat n = length (enc_args args) + 1" using header_size [OF assms(1)] by (simp add: n_def h_def)
  have h: "mem_read buf (length pre) 4 = Inr h" by (simp add: buf_def frame_def h_def mem_read_def)
  have b: "buf = (pre @ h) @ enc_args args @ 0xFF # rest" by (simp add: buf_def frame_def h_def)
  have lh: "length (pre @ h) = length pre + 4" by (simp add: h_def)
  have l: "push_data_loop buf sz (length pre + 4) st =
      Inr (rev (map canon args) @ st, length pre + 4 + length (enc_args args), True)"
    using push_data_loop_enc [of args "pre @ h" sz rest st] assms(1,3) lh
    by (simp add: b frame_ok_def length_frame)
  have "lua_defparser_push d buf sz (length pre) st = lua_defparser_push d1 buf sz (length pre + 4) st"
    unfolding d1_def n_def using assms(3) by (intro push_start_step assms(2) h) (simp add: length_frame)
  also have "\<dots> = lua_defparser_push (d1\<lparr>dst := PST_START\<rparr>) buf sz (length (pre @ frame args))
      (rev (map canon args) @ st)"
    using push_data_step [OF _ _ _ l, of d1] assms(3) n
    by (simp add: length_frame d1_def add.commute add.left_commute)
  finally show ?thesis
    by (auto simp: buf_def [symmetric] d1_def intro!: exI [of _ "d\<lparr>dsize := n, dst := PST_START\<rparr>"])
qed

lemma push_frames:
  assumes "list_all frame_ok fs" "dst d = PST_START" "length pre + length (frames fs) = sz"
  shows "\<exists>d'. lua_defparser_push d (pre @ frames fs @ rest) sz (length pre) st =
       Inr (d', int sz, rev (map canon (concat fs)) @ st)
     \<and> dst d' = PST_START \<and> dmem d' = dmem d \<and> doffset d' = doffset d"
  using assms
proof (induction fs arbitrary: d pre st)
  case Nil
  then show ?case by (simp add: frames_def lua_defparser_push.simps)
next
  case (Cons args fs)
  have fr: "frames (args # fs) = frame args @ frames fs" by (simp add: frames_def)
  obtain d1 where d1: "lua_defparser_push d (pre @ frame args @ frames fs @ rest) sz (length pre) st =
       lua_defparser_push d1 (pre @ frame args @ frames fs @ rest) sz (length (pre @ frame args))
         (rev (map canon args) @ st)"
     "dst d1 = PST_START" "dmem d1 = dmem d" "doffset d1 = doffset d"
    using push_frame [of args d pre sz "frames fs @ rest" st] Cons.prems by (auto simp: fr)
  from Cons.IH [OF _ d1(2), of "pre @ frame args" "rev (map canon args) @ st"] Cons.prems(1,3) d1
  show ?case by (auto simp: fr)
qed

text \<open>The decoder loop on the bytes of whole frames: one call with all their values.\<close>

lemma decoder_loop_frames:
  assumes "list_all frame_ok fs" "fs \<noteq> []" "dst d = PST_START" "drop off data = frames fs"
    "length st0 = 8" "st0 = conn # server # cb # st1"
  shows "\<exists>d' st'. decoder_loop al call data inmem 8 d off st0 [] =
       Inr (d', st', [(cb, server # conn # map canon (concat fs))])
     \<and> dst d' = PST_START \<and> dmem d' = dmem d \<and> doffset d' = doffset d"
proof -
  define vs where "vs = map canon (concat fs)"
  have pos: "0 < length (frames fs)" using assms(2) by (cases fs) (simp_all add: frames_def length_frame)
  have len: "length data - off = length (frames fs)" using arg_cong [OF assms(4), of length] by simp
  with pos have off: "off < length data" "\<not> off + length (frames fs) < length data" by linarith+
  obtain d1 where d1: "lua_defparser_push d (frames fs @ (if inmem then [] else [0])) (length (frames fs)) 0 st0 =
       Inr (d1, int (length (frames fs)), rev vs @ st0)"
     "dst d1 = PST_START" "dmem d1 = dmem d" "doffset d1 = doffset d"
    using push_frames [OF assms(1,3), of "[]" _ _ st0] by (auto simp: vs_def)
  define st2 where "st2 = (case call cb (server # conn # vs) of Inl e \<Rightarrow> e # st1 | Inr rs \<Rightarrow> rev rs @ st1)"
  have c: "lua_pcallk call (int (length (rev vs @ st0)) - 8 + 2) (rev vs @ st0) =
      Inr (st2, cb, server # conn # vs)"
    using assms(5,6) by (simp add: lua_pcallk_def Let_def nat_add_distrib nth_append st2_def)
  have "decoder_loop al call data inmem 8 d1 (off + length (frames fs)) st2 [(cb, server # conn # vs)] =
      Inr (d1, st2, [(cb, server # conn # vs)])"
    by (subst decoder_loop.simps) (simp only: off if_False)
  then have "decoder_loop al call data inmem 8 d off st0 [] = Inr (d1, st2, [(cb, server # conn # vs)])"
    using d1(1,2) c pos
    by (simp add: decoder_loop.simps [of al call data inmem 8 d] off len assms(4) del: length_append length_rev)
  with d1(2-4) show ?thesis by (auto simp: vs_def)
qed

lemma decode_frames:
  assumes "list_all frame_ok fs" "fs \<noteq> []" "dst d = PST_START"
    "unat (am_size (dmem d)) \<le> doffset d"
  shows "\<exists>d'. lua_default_decoder al call d self (LFun f) server conn (frames fs) =
       Inr (d', [(LFun f, server # conn # map canon (concat fs))])
     \<and> dst d' = PST_START \<and> dmem d' = dmem d \<and> doffset d' = doffset d"
proof -
  have nb: "\<not> unat (am_size (dmem d)) > doffset d" using assms(4) by simp
  obtain d' st' where "decoder_loop al call (frames fs) False 8 d 0
      [conn, server, LFun f, LStr (frames fs), conn, server, LFun f, self] [] =
       Inr (d', st', [(LFun f, server # conn # map canon (concat fs))])"
     "dst d' = PST_START" "dmem d' = dmem d" "doffset d' = doffset d"
    using decoder_loop_frames [OF assms(1-3) _ _ refl, where off = 0 and data = "frames fs"
        and inmem = False and al = al and call = call and conn = conn and server = server
        and cb = "LFun f" and ?st1.0 = "[LStr (frames fs), conn, server, LFun f, self]"] by auto
  with nb show ?thesis by (simp add: lua_default_decoder_def Let_def)
qed

text \<open>The same with bytes kept from earlier chunks: nothing is ever removed from the buffer.\<close>

lemma decode_buffered:
  assumes "list_all frame_ok fs" "fs \<noteq> []" "dst d = PST_START" "am_wf (dmem d)"
    "am_data (dmem d) = map Some pre" "doffset d = 0" "pre \<noteq> []" "pre @ str = frames fs"
    "length (frames fs) < 2 ^ 31"
  shows "\<exists>d'. lua_default_decoder alloc_ok call d self (LFun f) server conn str =
       Inr (d', [(LFun f, server # conn # map canon (concat fs))])
     \<and> dst d' = PST_START \<and> am_wf (dmem d') \<and> am_data (dmem d') = map Some (pre @ str) \<and> doffset d' = 0"
proof -
  have b: "unat (am_size (dmem d)) > doffset d"
    using am_data_length [OF assms(4)] assms(5-7) by (cases pre) simp_all
  have "length (am_data (dmem d)) + length str \<le> am_limit"
    using arg_cong [OF assms(8), of length] assms(5,9) by (simp add: am_limit_def)
  from am_sink.put_ok [OF assms(4) this] obtain m where m: "am_put alloc_ok (dmem d) str = Inr m"
    "am_wf m" "am_data m = map Some (pre @ str)" using assms(5) by auto
  obtain d' st' where "decoder_loop alloc_ok call (pre @ str) True 8 (d\<lparr>dmem := m\<rparr>) 0
      [conn, server, LFun f, LStr str, conn, server, LFun f, self] [] =
       Inr (d', st', [(LFun f, server # conn # map canon (concat fs))])"
     "dst d' = PST_START" "dmem d' = m" "doffset d' = 0"
    using decoder_loop_frames [OF assms(1,2) _ _ _ refl, where d = "d\<lparr>dmem := m\<rparr>" and off = 0
        and data = "pre @ str" and inmem = True and al = alloc_ok and call = call and conn = conn
        and server = server and cb = "LFun f" and ?st1.0 = "[LStr str, conn, server, LFun f, self]"]
      assms(3,6,8) by auto
  with b m am_bytes_Some [OF m(3)] assms(6) show ?thesis by (simp add: lua_default_decoder_def Let_def)
qed

lemma decode_short:
  assumes "dst d = PST_START" "am_wf (dmem d)" "am_data (dmem d) = []" "doffset d = 0"
    "0 < length str" "length str < 4"
  shows "\<exists>d'. lua_default_decoder alloc_ok call d self (LFun f) server conn str = Inr (d', [])
     \<and> dst d' = PST_START \<and> am_wf (dmem d') \<and> am_data (dmem d') = map Some str \<and> doffset d' = 0"
proof -
  have nb: "\<not> unat (am_size (dmem d)) > doffset d" using am_data_length [OF assms(2)] assms(3) by simp
  have "length (am_data (dmem d)) + length str \<le> am_limit" using assms(3,6) by (simp add: am_limit_def)
  from am_sink.put_ok [OF assms(2) this] obtain m where m: "am_put alloc_ok (dmem d) str = Inr m"
    "am_wf m" "am_data m = map Some str" using assms(3) by auto
  have p: "lua_defparser_push d (str @ [0]) (length str) 0 st = Inr (d, 0, st)" for st
    using assms(1,6) by (simp add: lua_defparser_push.simps)
  show ?thesis
    using nb m assms(1,5) p
    by (simp add: lua_default_decoder_def Let_def decoder_loop.simps [of alloc_ok call str])
qed

text \<open>
  C12. A chunk made of one or more whole frames, when nothing is buffered: the callback is
  called exactly once, with the server, the connection and the values of all the frames
  in order (the boundaries between frames in the chunk are lost), and the decoder is
  back in its initial state. With one frame these are the values that were packed.
\<close>

theorem decoder_whole_frames:
  assumes "list_all frame_ok fs" "fs \<noteq> []" "dst d = PST_START"
    "unat (am_size (dmem d)) \<le> doffset d"
  shows "\<exists>d'. lua_default_decoder al call d self (LFun f) server conn (frames fs) =
       Inr (d', [(LFun f, server # conn # map canon (concat fs))])
     \<and> dst d' = PST_START \<and> dmem d' = dmem d \<and> doffset d' = doffset d"
  using assms by (rule decode_frames)

theorem decoder_whole_frames_witness:
  "\<exists>d'. lua_default_decoder alloc_ok (\<lambda>f args. Inr []) (defaultdecoder_create alloc_ok) LNil (LFun 7)
      (LFun 1) (LFun 2) (frames [[LBool True], [LStr [65]]]) =
       Inr (d', [(LFun 7, [LFun 1, LFun 2, LBool True, LStr [65]])])"
proof -
  have "unat (am_size (dmem (defaultdecoder_create alloc_ok))) \<le> doffset (defaultdecoder_create alloc_ok)"
    by (simp add: defaultdecoder_create_def automem_init_def Let_def)
  then show ?thesis
    using decoder_whole_frames [of "[[LBool True], [LStr [65]]]" "defaultdecoder_create alloc_ok"
        alloc_ok "\<lambda>f args. Inr []" LNil 7 "LFun 1" "LFun 2"]
    by (auto simp: frame_ok_def enc_args_def len_bytes_def defaultdecoder_create_def)
qed

text \<open>
  A frame whose four header bytes arrive in two chunks is put together and delivered
  once; but the buffer is not emptied then, and the next frame that arrives is
  delivered together with the values of the frame delivered before.
\<close>

theorem decoder_split_header_redelivers:
  assumes "frame_ok a" "frame_ok b" "0 < k" "k < 4" "length (frame a) + length (frame b) < 2 ^ 31"
  shows "\<exists>d1 d2 d3.
     lua_default_decoder alloc_ok call (defaultdecoder_create alloc_ok) self (LFun f) server conn
       (take k (frame a)) = Inr (d1, [])
   \<and> lua_default_decoder alloc_ok call d1 self (LFun f) server conn (drop k (frame a)) =
       Inr (d2, [(LFun f, server # conn # map canon a)])
   \<and> lua_default_decoder alloc_ok call d2 self (LFun f) server conn (frame b) =
       Inr (d3, [(LFun f, server # conn # map canon (a @ b))])"
proof -
  define d0 where "d0 = defaultdecoder_create alloc_ok"
  have d0: "dst d0 = PST_START" "am_wf (dmem d0)" "am_data (dmem d0) = []" "doffset d0 = 0"
    using automem_init_ok [of alloc_ok] by (simp_all add: d0_def defaultdecoder_create_def alloc_ok_def)
  have k: "length (take k (frame a)) = k" using assms(4) by (simp add: length_frame)
  have ne: "frame a \<noteq> []" by (simp add: frame_def le_bytes_def)
  obtain d1 where d1: "lua_default_decoder alloc_ok call d0 self (LFun f) server conn (take k (frame a)) = Inr (d1, [])"
    "dst d1 = PST_START" "am_wf (dmem d1)" "am_data (dmem d1) = map Some (take k (frame a))" "doffset d1 = 0"
    using decode_short [OF d0, of "take k (frame a)" call self f server conn] assms(3,4) k ne by auto
  obtain d2 where d2: "lua_default_decoder alloc_ok call d1 self (LFun f) server conn (drop k (frame a)) =
       Inr (d2, [(LFun f, server # conn # map canon a)])"
    "dst d2 = PST_START" "am_wf (dmem d2)" "am_data (dmem d2) = map Some (frame a)" "doffset d2 = 0"
    using decode_buffered [of "[a]" d1 "take k (frame a)" "drop k (frame a)" call self f server conn]
      d1 assms(1,3,5) ne by (auto simp: frames_def)
  have "\<exists>d3. lua_default_decoder alloc_ok call d2 self (LFun f) server conn (frame b) =
       Inr (d3, [(LFun f, server # conn # map canon (a @ b))])"
    using decode_buffered [of "[a, b]" d2 "frame a" "frame b" call self f server conn]
      d2 assms(1,2,5) ne by (auto simp: frames_def)
  with d1(1) d2(1) show ?thesis unfolding d0_def by blast
qed

theorem decoder_split_header_redelivers_witness:
  "\<exists>d1 d2 d3.
     lua_default_decoder alloc_ok (\<lambda>f args. Inr []) (defaultdecoder_create alloc_ok) LNil (LFun 7) (LFun 1)
       (LFun 2) (take 2 (frame [LBool True])) = Inr (d1, [])
   \<and> lua_default_decoder alloc_ok (\<lambda>f args. Inr []) d1 LNil (LFun 7) (LFun 1) (LFun 2)
       (drop 2 (frame [LBool True])) = Inr (d2, [(LFun 7, [LFun 1, LFun 2, LBool True])])
   \<and> lua_default_decoder alloc_ok (\<lambda>f args. Inr []) d2 LNil (LFun 7) (LFun 1) (LFun 2) (frame [LNil]) =
       Inr (d3, [(LFun 7, [LFun 1, LFun 2, LBool True, LNil])])"
  using decoder_split_header_redelivers [of "[LBool True]" "[LNil]" 2 "\<lambda>f args. Inr []" LNil 7 "LFun 1" "LFun 2"]
  by (simp add: frame_ok_def enc_args_def length_frame)



end
