(* ===== verification/Registry.thy ===== *)
theory Registry
  imports Codec
begin

text \<open>
  References into the Lua registry: \<open>luaL_ref\<close> and \<open>luaL_unref\<close> of \<open>lua/src/lauxlib.c\<close>, by
  which the server keeps its connections, callbacks and decoders alive. The registry is
  a table with integer keys; key 0 heads the list of free references, each free slot
  holding the next one.
\<close>

datatype rcell = RNil | RInt int | RVal lval

record registry =
  rt :: "int \<Rightarrow> rcell"
  rtop :: nat

definition LUA_NOREF :: int where
  "LUA_NOREF = -2"

definition LUA_REFNIL :: int where
  "LUA_REFNIL = -1"

fun lua_tointeger :: "rcell \<Rightarrow> int" where
  "lua_tointeger (RInt i) = i"
| "lua_tointeger _ = 0"

text \<open>The length of the table: a border, found from the greatest key ever set.\<close>

fun border :: "(int \<Rightarrow> rcell) \<Rightarrow> nat \<Rightarrow> nat" where
  "border t 0 = 0"
| "border t (Suc n) = (if t (int (Suc n)) = RNil then border t n else Suc n)"

definition lua_rawlen :: "registry \<Rightarrow> int" where
  "lua_rawlen reg = int (border (rt reg) (rtop reg))"

definition lua_rawgeti :: "registry \<Rightarrow> int \<Rightarrow> lval" where
  "lua_rawgeti reg r =
     (case rt reg r of RNil \<Rightarrow> LNil | RInt i \<Rightarrow> LNum (dbl_of_int i) | RVal v \<Rightarrow> v)"

definition lua_rawseti :: "registry \<Rightarrow> int \<Rightarrow> rcell \<Rightarrow> registry" where
  "lua_rawseti reg r c = reg\<lparr>rt := (rt reg)(r := c), rtop := max (rtop reg) (nat r)\<rparr>"

definition luaL_ref :: "registry \<Rightarrow> lval \<Rightarrow> registry \<times> int" where
  "luaL_ref reg v =
     (if v = LNil then (reg, LUA_REFNIL)
      else let ref = lua_tointeger (rt reg 0)
           in if ref \<noteq> 0
              then (lua_rawseti (lua_rawseti reg 0 (rt reg ref)) ref (RVal v), ref)
              else (lua_rawseti reg (lua_rawlen reg + 1) (RVal v), lua_rawlen reg + 1))"

definition luaL_unref :: "registry \<Rightarrow> int \<Rightarrow> registry" where
  "luaL_unref reg ref =
     (if ref \<ge> 0 then lua_rawseti (lua_rawseti reg ref (rt reg 0)) 0 (RInt ref) else reg)"

section \<open>The live references\<close>

definition reg_map :: "registry \<Rightarrow> int \<Rightarrow> lval option" where
  "reg_map reg r = (if r \<ge> 1 then (case rt reg r of RVal v \<Rightarrow> Some v | _ \<Rightarrow> None) else None)"

fun free_chain :: "(int \<Rightarrow> rcell) \<Rightarrow> rcell \<Rightarrow> int list \<Rightarrow> bool" where
  "free_chain t c [] \<longleftrightarrow> c = RNil \<or> c = RInt 0"
| "free_chain t c (r # rs) \<longleftrightarrow> c = RInt r \<and> free_chain t (t r) rs"

definition reg_inv :: "registry \<Rightarrow> int list \<Rightarrow> bool" where
  "reg_inv reg fs \<longleftrightarrow> free_chain (rt reg) (rt reg 0) fs \<and> distinct fs
     \<and> (\<forall>r\<in>set fs. 1 \<le> r \<and> r \<le> int (rtop reg))
     \<and> (\<forall>r. 1 \<le> r \<and> r \<le> int (rtop reg) \<and> r \<notin> set fs \<longrightarrow> (\<exists>v. rt reg r = RVal v))
     \<and> (\<forall>r. int (rtop reg) < r \<longrightarrow> rt reg r = RNil)"

definition reg_wf :: "registry \<Rightarrow> bool" where
  "reg_wf reg \<longleftrightarrow> (\<exists>fs. reg_inv reg fs)"

definition reg_empty :: registry where
  "reg_empty = \<lparr>rt = (\<lambda>r. RNil), rtop = 0\<rparr>"

lemma reg_empty_wf: "reg_wf reg_empty" "reg_map reg_empty = Map.empty"
  by (auto simp: reg_wf_def reg_inv_def reg_empty_def reg_map_def intro!: exI [of _ "[]"])

lemma free_chain_upd: "r \<notin> set fs \<Longrightarrow> free_chain (t(r := c)) x fs = free_chain t x fs"
  by (induction fs arbitrary: x) auto

lemma free_chain_int: "free_chain t c fs \<Longrightarrow> r \<in> set fs \<Longrightarrow> c = RInt r \<or> (\<exists>q\<in>set fs. t q = RInt r)"
  by (induction fs arbitrary: c) auto

lemma free_chain_not_val: "free_chain t c fs \<Longrightarrow> r \<in> set fs \<Longrightarrow> \<nexists>v. t r = RVal v"
proof (induction fs arbitrary: c)
  case (Cons a fs)
  then show ?case by (cases fs) auto
qed simp

lemma border_full:
  assumes "n > 0 \<Longrightarrow> t (int n) \<noteq> RNil" shows "border t n = n"
  using assms by (cases n) auto

lemma reg_map_upd:
  "1 \<le> r \<Longrightarrow> rt reg' = (rt reg)(0 := c, r := RVal v) \<Longrightarrow> reg_map reg' = (reg_map reg)(r \<mapsto> v)"
  by (auto simp: reg_map_def fun_eq_iff)

lemma luaL_ref_ok:
  assumes "reg_wf reg" "v \<noteq> LNil" "luaL_ref reg v = (reg', r)"
  shows "reg_wf reg'" "1 \<le> r" "reg_map reg r = None" "reg_map reg' = (reg_map reg)(r \<mapsto> v)"
proof -
  obtain fs where inv: "reg_inv reg fs" using assms(1) by (auto simp: reg_wf_def)
  have "reg_wf reg' \<and> 1 \<le> r \<and> reg_map reg r = None \<and> reg_map reg' = (reg_map reg)(r \<mapsto> v)"
  proof (cases fs)
    case Nil
    then have "lua_tointeger (rt reg 0) = 0" using inv by (auto simp: reg_inv_def)
    moreover have "border (rt reg) (rtop reg) = rtop reg"
    proof (rule border_full)
      assume "rtop reg > 0"
      then have "\<exists>v. rt reg (int (rtop reg)) = RVal v" using inv Nil by (simp add: reg_inv_def)
      then show "rt reg (int (rtop reg)) \<noteq> RNil" by auto
    qed
    ultimately have r: "r = int (rtop reg) + 1" "reg' = lua_rawseti reg r (RVal v)"
      using assms(2,3) by (auto simp: luaL_ref_def lua_rawlen_def)
    have "reg_inv reg' []"
      using inv Nil r by (auto simp: reg_inv_def lua_rawseti_def)
    moreover have "reg_map reg r = None" using inv r(1) by (simp add: reg_inv_def reg_map_def)
    moreover have "reg_map reg' = (reg_map reg)(r \<mapsto> v)"
      using r by (intro reg_map_upd [of _ _ _ "rt reg 0"]) (simp_all add: lua_rawseti_def)
    ultimately show ?thesis using r(1) by (auto simp: reg_wf_def)
  next
    case (Cons a gs)
    then have a: "rt reg 0 = RInt a" "1 \<le> a" "a \<le> int (rtop reg)" "a \<notin> set gs"
      "free_chain (rt reg) (rt reg a) gs" using inv by (auto simp: reg_inv_def)
    then have r: "r = a" "rt reg' = (rt reg)(0 := rt reg a, a := RVal v)" "rtop reg' = rtop reg"
      using assms(2,3) by (auto simp: luaL_ref_def Let_def lua_rawseti_def)
    have "0 \<notin> set gs" using inv Cons by (auto simp: reg_inv_def)
    then have "reg_inv reg' gs"
      using inv Cons a r by (auto simp: reg_inv_def free_chain_upd)
    moreover have "reg_map reg a = None"
      using free_chain_not_val [of "rt reg" "rt reg 0" fs a] inv Cons
      by (auto simp: reg_inv_def reg_map_def split: rcell.splits)
    ultimately show ?thesis using r a reg_map_upd [of a reg' reg "rt reg a" v] by (auto simp: reg_wf_def)
  qed
  then show "reg_wf reg'" "1 \<le> r" "reg_map reg r = None" "reg_map reg' = (reg_map reg)(r \<mapsto> v)" by auto
qed

lemma luaL_unref_ok:
  assumes "reg_wf reg" "reg_map reg r \<noteq> None"
  shows "reg_wf (luaL_unref reg r)" "reg_map (luaL_unref reg r) = (reg_map reg)(r := None)"
proof -
  obtain fs where inv: "reg_inv reg fs" using assms(1) by (auto simp: reg_wf_def)
  obtain v where v: "1 \<le> r" "rt reg r = RVal v"
    using assms(2) by (auto simp: reg_map_def split: if_splits rcell.splits)
  have top: "r \<le> int (rtop reg)"
  proof (rule ccontr)
    assume "\<not> r \<le> int (rtop reg)"
    then have "rt reg r = RNil" using inv by (simp add: reg_inv_def)
    with v(2) show False by simp
  qed
  have nf: "r \<notin> set fs" "0 \<notin> set fs"
    using free_chain_not_val [of "rt reg" "rt reg 0" fs r] inv v by (auto simp: reg_inv_def)
  have t: "rt (luaL_unref reg r) = (rt reg)(r := rt reg 0, 0 := RInt r)" "rtop (luaL_unref reg r) = rtop reg"
    using v top by (auto simp: luaL_unref_def lua_rawseti_def)
  have "reg_inv (luaL_unref reg r) (r # fs)"
    using inv nf v(1) top unfolding reg_inv_def t by (auto simp: free_chain_upd)
  then show "reg_wf (luaL_unref reg r)" by (auto simp: reg_wf_def)
  have "\<nexists>v. rt reg 0 = RVal v" using inv by (cases fs) (auto simp: reg_inv_def)
  then show "reg_map (luaL_unref reg r) = (reg_map reg)(r := None)"
    unfolding reg_map_def t using v(1) by (auto simp: fun_eq_iff split: rcell.splits)
qed

section \<open>Reference stores\<close>

text \<open>What the server relies on, and what follows for any store of references.\<close>

locale ref_store =
  fixes st_wf :: "'s \<Rightarrow> bool"
    and st_map :: "'s \<Rightarrow> int \<Rightarrow> 'v option"
    and st_ref :: "'s \<Rightarrow> 'v \<Rightarrow> 's \<times> int"
    and st_unref :: "'s \<Rightarrow> int \<Rightarrow> 's"
    and st_val :: "'v \<Rightarrow> bool"
  assumes ref_wf: "st_wf s \<Longrightarrow> st_val v \<Longrightarrow> st_ref s v = (s', r) \<Longrightarrow> st_wf s'"
    and ref_fresh: "st_wf s \<Longrightarrow> st_val v \<Longrightarrow> st_ref s v = (s', r) \<Longrightarrow> st_map s r = None \<and> 1 \<le> r"
    and ref_map: "st_wf s \<Longrightarrow> st_val v \<Longrightarrow> st_ref s v = (s', r) \<Longrightarrow> st_map s' = (st_map s)(r \<mapsto> v)"
    and unref_wf: "st_wf s \<Longrightarrow> st_map s r \<noteq> None \<Longrightarrow> st_wf (st_unref s r)"
    and unref_map: "st_wf s \<Longrightarrow> st_map s r \<noteq> None \<Longrightarrow> st_map (st_unref s r) = (st_map s)(r := None)"
begin

fun ref_all :: "'s \<Rightarrow> 'v list \<Rightarrow> 's \<times> int list" where
  "ref_all s [] = (s, [])"
| "ref_all s (v # vs) = (let (s1, r) = st_ref s v; (s2, rs) = ref_all s1 vs in (s2, r # rs))"

lemma ref_all_distinct:
  assumes "st_wf s" "list_all st_val vs" "ref_all s vs = (s', rs)"
  shows "st_wf s' \<and> distinct rs \<and> (\<forall>r\<in>set rs. st_map s r = None)
     \<and> map (st_map s') rs = map Some vs \<and> (\<forall>r. r \<notin> set rs \<longrightarrow> st_map s' r = st_map s r)"
  using assms
proof (induction vs arbitrary: s rs)
  case (Cons v vs)
  obtain s1 r where 1: "st_ref s v = (s1, r)" by (cases "st_ref s v")
  obtain qs where 2: "ref_all s1 vs = (s', qs)" "rs = r # qs"
    using Cons.prems(3) 1 by (auto split: prod.splits)
  have v: "st_val v" using Cons.prems(2) by simp
  note l = ref_wf [OF Cons.prems(1) v 1] ref_fresh [OF Cons.prems(1) v 1] ref_map [OF Cons.prems(1) v 1]
  from Cons.IH [OF l(1) _ 2(1)] Cons.prems(2)
  have IH: "st_wf s'" "distinct qs" "\<forall>r\<in>set qs. st_map s1 r = None" "map (st_map s') qs = map Some vs"
    "\<forall>r. r \<notin> set qs \<longrightarrow> st_map s' r = st_map s1 r" by auto
  have "r \<notin> set qs" using IH(3) l(3) by auto
  moreover have "\<forall>q\<in>set qs. st_map s q = None" using IH(3) l(3) by (metis fun_upd_apply option.distinct(1))
  ultimately show ?case using IH l 2(2) by auto
qed simp

lemma unref_ref:
  assumes "st_wf s" "st_val v" "st_ref s v = (s', r)"
  shows "st_map (st_unref s' r) = st_map s"
  using unref_map [OF ref_wf [OF assms], of r] ref_map [OF assms] ref_fresh [OF assms]
  by (auto simp: fun_eq_iff)

end

interpretation lreg: ref_store reg_wf reg_map luaL_ref luaL_unref "\<lambda>v. v \<noteq> LNil"
proof
  fix s s' :: registry and v :: lval and r :: int
  assume "reg_wf s" "v \<noteq> LNil" "luaL_ref s v = (s', r)"
  note l = luaL_ref_ok [OF this]
  show "reg_wf s'" "reg_map s r = None \<and> 1 \<le> r" "reg_map s' = (reg_map s)(r \<mapsto> v)"
    using l by auto
qed (auto simp: luaL_unref_ok)

lemma reg_map_rawgeti: "reg_map reg r = Some v \<Longrightarrow> lua_rawgeti reg r = v"
  by (auto simp: reg_map_def lua_rawgeti_def split: if_splits rcell.splits)

text \<open>
  C34. A reference taken with \<open>luaL_ref\<close> is none of the live ones, reads back the value, and
  leaves every other live reference alone; releasing it restores the live
  references, so that slots are reused and never confused.
\<close>

theorem registry_ref_unref:
  assumes "reg_wf reg" "v \<noteq> LNil" "luaL_ref reg v = (reg', r)"
  shows "reg_map reg r = None \<and> lua_rawgeti reg' r = v \<and> reg_wf reg'
     \<and> (\<forall>q. q \<noteq> r \<longrightarrow> reg_map reg' q = reg_map reg q)
     \<and> reg_wf (luaL_unref reg' r) \<and> reg_map (luaL_unref reg' r) = reg_map reg"
  using lreg.ref_fresh [OF assms] lreg.ref_map [OF assms] lreg.ref_wf [OF assms] lreg.unref_ref [OF assms]
    lreg.unref_wf [of reg' r] reg_map_rawgeti [of reg' r v] by simp

theorem registry_ref_unref_witness:
  "reg_map reg_empty 1 = None \<and> lua_rawgeti (fst (luaL_ref reg_empty (LUser 5))) 1 = LUser 5"
  using registry_ref_unref [OF reg_empty_wf(1), of "LUser 5" "fst (luaL_ref reg_empty (LUser 5))" 1]
  by (simp add: luaL_ref_def reg_empty_def lua_rawlen_def lua_rawseti_def)

end
