(* ===== verification/TcpServer.thy ===== *)
theory TcpServer
  imports Minheap Registry Decoder
begin

text \<open>
  The TCP server of \<open>libuv-lua/src/tcpserver.c\<close>: connections, the handlers that libuv calls
  and the methods that Lua calls. A connection is named by its address, which is also
  the address of the heap node embedded in it. What the handlers ask of libuv (close,
  shutdown, write, timers) and of the Lua virtual machine is recorded as a list of
  events; what these return is a parameter. A Lua callback runs arbitrary Lua code, so
  it is a function on the state of the server. Object fields that C leaves
  uninitialised are \<open>None\<close>.
\<close>

record uv_tcpconn =
  c_ref :: int
  decoder_ref :: int

datatype event =
    Ev_read_start ptr
  | Ev_close ptr bool
  | Ev_shutdown ptr
  | Ev_write ptr "u8 list"
  | Ev_call lval "lval list"
  | Ev_timer_start nat nat
  | Ev_timer_stop
  | Ev_free
  | Ev_puts

record uv_tcpserver =
  s_ns :: nstore
  s_minheap :: min_heap
  s_conns :: "ptr \<Rightarrow> uv_tcpconn"
  s_idle_timeout :: int
  s_ref :: int
  s_onconn :: "int option"
  s_ondata :: "int option"
  s_onclose :: "int option"
  s_reg :: registry
  s_log :: "event list"

text \<open>
  The surroundings: allocation, calls of Lua values, the field \<open>decoder\<close> of a Lua object,
  the string of a number, the clock.
\<close>

record uvenv =
  e_al :: "nat \<Rightarrow> bool"
  e_lua :: "lval \<Rightarrow> lval list \<Rightarrow> uv_tcpserver \<Rightarrow> uv_tcpserver \<times> (lval + lval list)"
  e_decoder :: "lval \<Rightarrow> lval"
  e_numstr :: "u64 \<Rightarrow> u8 list"
  e_now :: int

definition emit :: "event \<Rightarrow> uv_tcpserver \<Rightarrow> uv_tcpserver" where
  "emit ev s = s\<lparr>s_log := s_log s @ [ev]\<rparr>"

definition pcall :: "uvenv \<Rightarrow> lval \<Rightarrow> lval list \<Rightarrow> uv_tcpserver \<Rightarrow> uv_tcpserver \<times> (lval + lval list)" where
  "pcall env f args s = e_lua env f args (emit (Ev_call f args) s)"

definition field_ref :: "int option \<Rightarrow> int res" where
  "field_ref r = (case r of None \<Rightarrow> Inl Uninit_read | Some i \<Rightarrow> Inr i)"

definition set_timeout_of :: "ptr \<Rightarrow> int \<Rightarrow> uv_tcpserver \<Rightarrow> uv_tcpserver" where
  "set_timeout_of p t s = s\<lparr>s_ns := (s_ns s)(p := (s_ns s p)\<lparr>ev_timeout := t\<rparr>)\<rparr>"

text \<open>A heap operation on the server's heap; its return value is ignored by every caller.\<close>

definition on_heap ::
    "(nstore \<Rightarrow> min_heap \<Rightarrow> ((nstore \<times> min_heap) \<times> int) res) \<Rightarrow> uv_tcpserver \<Rightarrow> uv_tcpserver res" where
  "on_heap f s = res_bind (f (s_ns s) (s_minheap s)) (\<lambda>((ns, h), _).
     Inr (s\<lparr>s_ns := ns, s_minheap := h\<rparr>))"

section \<open>Connections\<close>

definition uv_tcpconn_new :: "uvenv \<Rightarrow> ptr \<Rightarrow> uv_tcpserver \<Rightarrow> uv_tcpserver" where
  "uv_tcpconn_new env p s =
     (let (reg, r) = luaL_ref (s_reg s) (LUser p);
          s1 = s\<lparr>s_reg := reg, s_conns := (s_conns s)(p := \<lparr>c_ref = r, decoder_ref = LUA_NOREF\<rparr>)\<rparr>;
          s2 = (if s_idle_timeout s1 > 0
                then set_timeout_of p (e_now env + s_idle_timeout s1) s1 else s1)
      in s2\<lparr>s_ns := minheap_elem_init (s_ns s2) p\<rparr>)"

text \<open>\<open>lua_tolstring\<close>: strings and numbers have one.\<close>

fun lua_tolstring :: "uvenv \<Rightarrow> lval \<Rightarrow> u8 list option" where
  "lua_tolstring env (LStr b) = Some b"
| "lua_tolstring env (LNum d) = Some (e_numstr env d)"
| "lua_tolstring env _ = None"

fun echo_args :: "uvenv \<Rightarrow> lval list \<Rightarrow> automem_t \<Rightarrow> automem_t res" where
  "echo_args env [] m = Inr m"
| "echo_args env (v # vs) m =
     (case lua_tolstring env v of
        None \<Rightarrow> echo_args env vs m
      | Some b \<Rightarrow> if length b > 0
                then res_bind (am_put (e_al env) m b) (echo_args env vs) else echo_args env vs m)"

text \<open>The result is the number of Lua results, which is what \<open>uv_write\<close> returned.\<close>

definition uv_tcpconn_echo ::
    "uvenv \<Rightarrow> int \<Rightarrow> ptr \<Rightarrow> lval list \<Rightarrow> uv_tcpserver \<Rightarrow> (uv_tcpserver \<times> int) res" where
  "uv_tcpconn_echo env wr p args s =
     (if minheap_elm_inheap (s_ns s) p
      then res_bind (echo_args env args (automem_init (e_al env) undefined 512)) (\<lambda>m.
             if am_size m > 0
             then res_bind (am_bytes m) (\<lambda>b. Inr (emit (Ev_write p b) s, wr))
             else Inr (s, 0))
      else Inr (s, 0))"

definition uv_tcpconn_after_sendmem :: "int \<Rightarrow> uv_tcpserver \<Rightarrow> uv_tcpserver" where
  "uv_tcpconn_after_sendmem status s =
     emit Ev_free (emit Ev_free (if status < 0 then emit Ev_puts s else s))"

definition uv_tcpconn_setdecoder :: "uvenv \<Rightarrow> ptr \<Rightarrow> lval \<Rightarrow> uv_tcpserver \<Rightarrow> uv_tcpserver" where
  "uv_tcpconn_setdecoder env p v s =
     (if is_function (e_decoder env v)
      then let reg1 = (if decoder_ref (s_conns s p) \<noteq> LUA_NOREF
                       then luaL_unref (s_reg s) (decoder_ref (s_conns s p)) else s_reg s);
               (reg2, r) = luaL_ref reg1 v
           in s\<lparr>s_reg := reg2, s_conns := (s_conns s)(p := (s_conns s p)\<lparr>decoder_ref := r\<rparr>)\<rparr>
      else s)"

definition uv_tcpserver_onconnclose :: "uvenv \<Rightarrow> ptr \<Rightarrow> uv_tcpserver \<Rightarrow> uv_tcpserver res" where
  "uv_tcpserver_onconnclose env p s =
     res_bind (field_ref (s_onclose s)) (\<lambda>onclose.
     let s1 = (if onclose \<noteq> LUA_NOREF
               then let f = lua_rawgeti (s_reg s) onclose
                    in if is_function f
                       then fst (pcall env f [lua_rawgeti (s_reg s) (s_ref s),
                              lua_rawgeti (s_reg s) (c_ref (s_conns s p))] s)
                       else s
               else s)
     in res_bind (on_heap (\<lambda>ns h. minheap_erase ns h p) s1) (\<lambda>s2.
        let reg1 = luaL_unref (s_reg s2) (c_ref (s_conns s2 p));
            reg2 = (if decoder_ref (s_conns s2 p) \<noteq> LUA_NOREF
                    then luaL_unref reg1 (decoder_ref (s_conns s2 p)) else reg1)
        in Inr (s2\<lparr>s_reg := reg2\<rparr>)))"

definition uv_conn_shutdown_cb :: "ptr \<Rightarrow> uv_tcpserver \<Rightarrow> uv_tcpserver" where
  "uv_conn_shutdown_cb p s = emit (Ev_close p True) s"

section \<open>Handlers of the server\<close>

definition UV_ECANCELED :: int where
  "UV_ECANCELED = -125"

text \<open>The part of \<open>onread\<close> that hands the bytes to Lua, through the decoder if there is one.\<close>

definition onread_deliver :: "uvenv \<Rightarrow> ptr \<Rightarrow> int \<Rightarrow> u8 list \<Rightarrow> uv_tcpserver \<Rightarrow> uv_tcpserver" where
  "onread_deliver env p ondata bytes s =
     (let dec = lua_rawgeti (s_reg s) (decoder_ref (s_conns s p));
          fn = e_decoder env dec;
          has_decoder = decoder_ref (s_conns s p) \<noteq> LUA_NOREF \<and> is_function fn;
          cb = lua_rawgeti (s_reg s) ondata;
          srv = lua_rawgeti (s_reg s) (s_ref s);
          cn = lua_rawgeti (s_reg s) (c_ref (s_conns s p));
          (s1, r) = (if has_decoder then pcall env fn [dec, cb, srv, cn, LStr bytes] s
                     else pcall env cb [srv, cn, LStr bytes] s)
      in case r of Inl (LStr msg) \<Rightarrow> emit Ev_puts s1 | _ \<Rightarrow> s1)"

definition uv_tcpserver_onread ::
    "uvenv \<Rightarrow> ptr \<Rightarrow> int \<Rightarrow> u8 list option \<Rightarrow> uv_tcpserver \<Rightarrow> uv_tcpserver res" where
  "uv_tcpserver_onread env p nread buf s =
     (if nread > 0
      then res_bind (if s_idle_timeout s > 0
                     then let s1 = set_timeout_of p (e_now env) s
                          in if minheap_elm_inheap (s_ns s1) p
                             then on_heap (\<lambda>ns h. minheap_adjust (e_al env) ns h p) s1
                             else on_heap (\<lambda>ns h. minheap_push (e_al env) ns h p) s1
                     else Inr s) (\<lambda>s2.
           res_bind (field_ref (s_ondata s2)) (\<lambda>ondata.
           res_bind (if ondata \<noteq> LUA_NOREF
                     then case buf of
                            None \<Rightarrow> Inl Null_deref
                          | Some b \<Rightarrow> res_bind (mem_read b 0 (nat nread)) (\<lambda>bytes.
                                      Inr (onread_deliver env p ondata bytes s2))
                     else Inr s2) (\<lambda>s3.
             Inr (if buf \<noteq> None then emit Ev_free s3 else s3))))
      else if nread = UV_ECANCELED then Inr s
      else let s1 = emit (Ev_shutdown p) s in Inr (if buf \<noteq> None then emit Ev_free s1 else s1))"

text \<open>Both places of \<open>onconnection\<close> that start reading and enter the connection in the heap.\<close>

definition start_conn :: "uvenv \<Rightarrow> ptr \<Rightarrow> uv_tcpserver \<Rightarrow> uv_tcpserver res" where
  "start_conn env p s =
     on_heap (\<lambda>ns h. minheap_push (e_al env) ns h p)
       (set_timeout_of p (e_now env) (emit (Ev_read_start p) s))"

text \<open>The results that let a connection in: none, or a last one that is \<open>true\<close>.\<close>

definition conn_wanted :: "lval + lval list \<Rightarrow> bool" where
  "conn_wanted r = (case r of Inl _ \<Rightarrow> False | Inr vs \<Rightarrow> vs = [] \<or> last vs = LBool True)"

definition lua_tcpserver_onconnection ::
    "uvenv \<Rightarrow> ptr \<Rightarrow> int \<Rightarrow> int \<Rightarrow> int \<Rightarrow> uv_tcpserver \<Rightarrow> uv_tcpserver res" where
  "lua_tcpserver_onconnection env p accept read_start status s =
     (if status = 0
      then let s1 = uv_tcpconn_new env p s
           in if accept = 0
              then res_bind (field_ref (s_onconn s1)) (\<lambda>onconn.
                   if onconn \<noteq> LUA_NOREF
                   then let f = lua_rawgeti (s_reg s1) onconn
                        in if is_function f
                           then let (s2, r) = pcall env f [lua_rawgeti (s_reg s1) (s_ref s1),
                                      lua_rawgeti (s_reg s1) (c_ref (s_conns s1 p))] s1
                                in if conn_wanted r \<and> read_start = 0 then start_conn env p s2
                                   else Inr (emit (Ev_close p True)
                                          (case r of Inl (LStr m) \<Rightarrow> emit Ev_puts s2
                                           | Inl (LNum d) \<Rightarrow> emit Ev_puts s2 | _ \<Rightarrow> s2))
                           else Inr (emit (Ev_close p True) s1)
                   else if read_start = 0 then start_conn env p s1
                   else Inr (emit (Ev_close p True) s1))
              else Inr (emit (Ev_close p True) s1)
      else Inr s)"

lemma shift_down_hn: "minheap_shift_down ns h i e = Inr (ns', h') \<Longrightarrow> hn h' = hn h"
proof (induction ns h i e rule: minheap_shift_down.induct)
  case (1 ns h i e)
  show ?case
  proof (cases "2 * (i + 1) \<le> hn h")
    case True
    with "1.prems" obtain mc ce where mc: "mh_min_child ns h (2 * (i + 1)) = Inr mc"
      "mem_get (hp h) mc = Inr ce"
      by (subst (asm) minheap_shift_down.simps) (auto simp: res_bind_Inr)
    show ?thesis
    proof (cases "minheap_elem_greater ns e ce")
      case g: True
      with "1.prems" True mc obtain ns1 h1 where p: "mh_put ns h i ce = Inr (ns1, h1)"
        "minheap_shift_down ns1 h1 mc e = Inr (ns', h')"
        by (subst (asm) minheap_shift_down.simps) (auto simp: res_bind_Inr)
      then show ?thesis
        using "1.IH" [OF True mc _ p(1) refl p(2)] g mh_put_hn [OF p(1)] by simp
    next
      case False
      with "1.prems" True mc show ?thesis
        by (subst (asm) minheap_shift_down.simps) (auto dest: mh_put_hn)
    qed
  next
    case False
    with "1.prems" show ?thesis
      by (subst (asm) minheap_shift_down.simps) (auto dest: mh_put_hn)
  qed
qed

lemma minheap_pop_hn: "\<not> minheap_empty h \<Longrightarrow> minheap_pop ns h = Inr ((ns', h'), e) \<Longrightarrow> hn h' < hn h"
  by (auto simp: minheap_pop_def minheap_empty_def res_bind_Inr split: if_splits dest!: shift_down_hn)

text \<open>The loop of \<open>__gc\<close>, which closes every connection in the heap.\<close>

function gc_loop :: "uv_tcpserver \<Rightarrow> uv_tcpserver res" where
  "gc_loop s =
     (if minheap_empty (s_minheap s) then Inr s
      else res_bind (minheap_pop (s_ns s) (s_minheap s)) (\<lambda>((ns, h), e).
           case e of
             None \<Rightarrow> Inl Null_deref
           | Some p \<Rightarrow> gc_loop ((emit (Ev_close p False) s)\<lparr>s_ns := ns, s_minheap := h,
                         s_reg := luaL_unref (s_reg s) (c_ref (s_conns s p))\<rparr>)))"
  by pat_completeness auto
termination
  by (relation "measure (\<lambda>s. hn (s_minheap s))") (auto dest: minheap_pop_hn)

declare gc_loop.simps [simp del]

definition uv_server_gc :: "uv_tcpserver \<Rightarrow> (uv_tcpserver \<times> lval) res" where
  "uv_server_gc s = res_bind (gc_loop s) (\<lambda>s1. Inr (s1, LBool True))"

text \<open>The loop of the idle timer; \<open>tm\<close> is the present time less the idle timeout.\<close>

function ontimer_loop :: "int \<Rightarrow> uv_tcpserver \<Rightarrow> uv_tcpserver res" where
  "ontimer_loop tm s =
     (if minheap_empty (s_minheap s) then Inr s
      else res_bind (mem_get (hp (s_minheap s)) 0) (\<lambda>top.
           if tm > ev_timeout (s_ns s top)
           then res_bind (minheap_pop (s_ns s) (s_minheap s)) (\<lambda>((ns, h), e).
                case e of
                  None \<Rightarrow> Inl Null_deref
                | Some p \<Rightarrow> ontimer_loop tm ((emit (Ev_shutdown p) s)\<lparr>s_ns := ns, s_minheap := h\<rparr>))
           else Inr s))"
  by pat_completeness auto
termination
  by (relation "measure (\<lambda>(tm, s). hn (s_minheap s))") (auto dest: minheap_pop_hn)

declare ontimer_loop.simps [simp del]

definition uv_tcpserver_ontimer :: "uvenv \<Rightarrow> uv_tcpserver \<Rightarrow> uv_tcpserver res" where
  "uv_tcpserver_ontimer env s =
     (if s_idle_timeout s > 0 then ontimer_loop (e_now env - s_idle_timeout s) s else Inr s)"

definition uv_server_set_timeout :: "int \<Rightarrow> uv_tcpserver \<Rightarrow> uv_tcpserver" where
  "uv_server_set_timeout idle_timeout s =
     (let s1 = (if s_idle_timeout s \<noteq> 0 then emit Ev_timer_stop s else s)
      in if idle_timeout > 0
         then emit (Ev_timer_start 1000 2000) (s1\<lparr>s_idle_timeout := idle_timeout\<rparr>) else s1)"

section \<open>The invariant of the server\<close>

text \<open>
  \<open>Op\<close> is the set of open connections: accepted or being rejected, their close callback not
  yet run. Every node in the heap belongs to an open connection, and the registry keeps
  the object of every open connection and of its decoder alive, so that no node in the
  heap is freed memory. No reference is owned twice.
\<close>

definition heap_inv :: "uv_tcpserver \<Rightarrow> ptr set \<Rightarrow> bool" where
  "heap_inv s Op \<longleftrightarrow> mh_wf (s_ns s) (s_minheap s) \<and> set (mh_elems (s_minheap s)) \<subseteq> Op
     \<and> (\<forall>p\<in>Op. p \<notin> set (mh_elems (s_minheap s)) \<longrightarrow> minheap_idx (s_ns s p) = -1)"

definition refs_inv :: "registry \<Rightarrow> (ptr \<Rightarrow> uv_tcpconn) \<Rightarrow> ptr set \<Rightarrow> bool" where
  "refs_inv reg conns Op \<longleftrightarrow> reg_wf reg
     \<and> (\<forall>p\<in>Op. reg_map reg (c_ref (conns p)) = Some (LUser p))
     \<and> (\<forall>p\<in>Op. decoder_ref (conns p) \<noteq> LUA_NOREF \<longrightarrow>
          reg_map reg (decoder_ref (conns p)) \<noteq> None
          \<and> (\<forall>q\<in>Op. decoder_ref (conns p) \<noteq> c_ref (conns q)
               \<and> (q \<noteq> p \<longrightarrow> decoder_ref (conns q) \<noteq> decoder_ref (conns p))))"

definition srv_inv :: "uv_tcpserver \<Rightarrow> ptr set \<Rightarrow> bool" where
  "srv_inv s Op \<longleftrightarrow> heap_inv s Op \<and> refs_inv (s_reg s) (s_conns s) Op"

text \<open>
  What the server relies on of Lua code: a callback can reach the state only through the
  methods of this file, which keep the invariant (lemmas \<open>srv_inv_setdecoder\<close>,
  \<open>srv_inv_set_timeout\<close>) and do not touch the heap or the fields set at creation.
  Indexing \<open>nil\<close> gives no function.
\<close>

definition env_ok :: "uvenv \<Rightarrow> bool" where
  "env_ok env \<longleftrightarrow> \<not> is_function (e_decoder env LNil) \<and>
     (\<forall>f args s Op. srv_inv s Op \<longrightarrow>
        (let s' = fst (e_lua env f args s)
         in srv_inv s' Op \<and> s_ns s' = s_ns s \<and> s_minheap s' = s_minheap s
            \<and> s_onconn s' = s_onconn s \<and> s_ondata s' = s_ondata s \<and> s_onclose s' = s_onclose s))"

lemma emit_sel [simp]:
  "s_ns (emit ev s) = s_ns s" "s_minheap (emit ev s) = s_minheap s" "s_conns (emit ev s) = s_conns s"
  "s_reg (emit ev s) = s_reg s" "s_idle_timeout (emit ev s) = s_idle_timeout s" "s_ref (emit ev s) = s_ref s"
  "s_onconn (emit ev s) = s_onconn s" "s_ondata (emit ev s) = s_ondata s" "s_onclose (emit ev s) = s_onclose s"
  "s_log (emit ev s) = s_log s @ [ev]"
  by (simp_all add: emit_def)

lemma srv_inv_cong:
  "s_ns s' = s_ns s \<Longrightarrow> s_minheap s' = s_minheap s \<Longrightarrow> s_conns s' = s_conns s \<Longrightarrow> s_reg s' = s_reg s \<Longrightarrow>
     srv_inv s' Op = srv_inv s Op"
  by (simp add: srv_inv_def heap_inv_def)

lemma srv_inv_emit [simp]: "srv_inv (emit ev s) Op = srv_inv s Op"
  by (rule srv_inv_cong) simp_all

lemma mh_wf_frame:
  assumes "mh_wf ns h" "\<And>x. x \<in> set (mh_elems h) \<Longrightarrow> ns' x = ns x"
  shows "mh_wf ns' h"
proof -
  note w = mh_wfD [OF assms(1)]
  have same: "ns' (hp h ! i) = ns (hp h ! i)" if "i < hn h" for i
    using assms(2) nth_in_set_take [OF that, of "hp h"] w by (auto simp: mh_elems_def)
  have "tmo ns' (hp h ! par i) \<le> tmo ns' (hp h ! i)" if "0 < i" "i < hn h" for i
    using same [OF that(2)] same [of "par i"] par_less [OF that(1)] that assms(1)
    by (auto simp: mh_wf_def heap_ok_def)
  moreover have "idx_ok ns' (hp h) (hn h)" using same assms(1) by (simp add: mh_wf_def idx_ok_def)
  ultimately show ?thesis using assms(1) by (auto simp: mh_wf_def heap_ok_def)
qed

lemma push_or_fail:
  "minheap_push al ns h p = minheap_push (\<lambda>_. True) ns h p \<or> minheap_push al ns h p = Inr ((ns, h), -1)"
  by (auto simp: minheap_push_def minheap_reserve_def Let_def)

lemma heap_inv_notin:
  "heap_inv s Op \<Longrightarrow> minheap_idx (s_ns s p) = -1 \<Longrightarrow> p \<notin> set (mh_elems (s_minheap s))"
  using mh_notin_elems by (auto simp: heap_inv_def)

text \<open>Entering a connection whose node is in no heap.\<close>

lemma on_heap_push:
  assumes "heap_inv s Op" "p \<in> Op" "\<not> minheap_elm_inheap (s_ns s) p" "hn (s_minheap s) + 1 < 2 ^ 31"
  shows "\<exists>s'. on_heap (\<lambda>ns h. minheap_push al ns h p) s = Inr s' \<and> heap_inv s' Op
     \<and> s' = s\<lparr>s_ns := s_ns s', s_minheap := s_minheap s'\<rparr>
     \<and> (\<forall>x. ev_timeout (s_ns s' x) = ev_timeout (s_ns s x))
     \<and> ((\<forall>n. al n) \<longrightarrow> mset (mh_elems (s_minheap s')) = add_mset p (mset (mh_elems (s_minheap s))))"
proof -
  have idx: "minheap_idx (s_ns s p) = -1" using assms(3) by (simp add: minheap_elm_inheap_def)
  have wf: "mh_wf (s_ns s) (s_minheap s)" using assms(1) by (simp add: heap_inv_def)
  obtain ns' h' where ok: "minheap_push (\<lambda>_. True) (s_ns s) (s_minheap s) p = Inr ((ns', h'), 0)"
    "mh_wf ns' h'" "mset (mh_elems h') = add_mset p (mset (mh_elems (s_minheap s)))"
    "\<forall>x. tmo ns' x = tmo (s_ns s) x" "\<forall>x. x \<notin> set (mh_elems h') \<longrightarrow> ns' x = s_ns s x"
    using minheap_push_ok [OF wf idx assms(4), of "\<lambda>_. True"] by auto
  have el: "set (mh_elems h') = insert p (set (mh_elems (s_minheap s)))"
    using ok(3) by (metis set_mset_add_mset_insert set_mset_mset)
  from push_or_fail [of al "s_ns s" "s_minheap s" p] show ?thesis
  proof
    assume "minheap_push al (s_ns s) (s_minheap s) p = minheap_push (\<lambda>_. True) (s_ns s) (s_minheap s) p"
    with ok el assms(1,2) show ?thesis by (auto simp: on_heap_def heap_inv_def)
  next
    assume fail: "minheap_push al (s_ns s) (s_minheap s) p = Inr ((s_ns s, s_minheap s), -1)"
    have "\<not> (\<forall>n. al n)"
      using fail minheap_push_ok [OF wf idx assms(4), of al] by auto
    with fail assms(1) show ?thesis by (auto simp: on_heap_def)
  qed
qed

lemma set_timeout_of_sel [simp]:
  "s_minheap (set_timeout_of p t s) = s_minheap s" "s_conns (set_timeout_of p t s) = s_conns s"
  "s_reg (set_timeout_of p t s) = s_reg s" "s_log (set_timeout_of p t s) = s_log s"
  "s_ns (set_timeout_of p t s) = (s_ns s)(p := (s_ns s p)\<lparr>ev_timeout := t\<rparr>)"
  "s_onconn (set_timeout_of p t s) = s_onconn s" "s_ondata (set_timeout_of p t s) = s_ondata s"
  "s_onclose (set_timeout_of p t s) = s_onclose s" "s_ref (set_timeout_of p t s) = s_ref s"
  "s_idle_timeout (set_timeout_of p t s) = s_idle_timeout s"
  by (simp_all add: set_timeout_of_def)

lemma heap_inv_set_timeout:
  assumes "heap_inv s Op" "\<not> minheap_elm_inheap (s_ns s) p"
  shows "heap_inv (set_timeout_of p t s) Op"
proof -
  have "p \<notin> set (mh_elems (s_minheap s))"
    using heap_inv_notin [OF assms(1)] assms(2) by (simp add: minheap_elm_inheap_def)
  then have "mh_wf (s_ns (set_timeout_of p t s)) (s_minheap s)"
    using assms(1) by (simp only: heap_inv_def) (rule mh_wf_frame [of "s_ns s"], auto)
  with assms(1) show ?thesis by (auto simp: heap_inv_def)
qed

text \<open>Recording activity of a connection that is in the heap.\<close>

lemma on_heap_retime:
  assumes "heap_inv s Op" "p \<in> Op" "minheap_elm_inheap (s_ns s) p"
  shows "\<exists>s'. on_heap (\<lambda>ns h. minheap_adjust al ns h p) (set_timeout_of p t s) = Inr s' \<and> heap_inv s' Op
     \<and> s' = s\<lparr>s_ns := s_ns s', s_minheap := s_minheap s'\<rparr>
     \<and> (\<forall>x. ev_timeout (s_ns s' x) = (if x = p then t else ev_timeout (s_ns s x)))
     \<and> mset (mh_elems (s_minheap s')) = mset (mh_elems (s_minheap s))"
proof -
  define ns where "ns = s_ns (set_timeout_of p t s)"
  have el: "p \<in> set (mh_elems (s_minheap s))"
    using assms by (auto simp: heap_inv_def minheap_elm_inheap_def)
  have "ns(p := (ns p)\<lparr>ev_timeout := ev_timeout (s_ns s p)\<rparr>) = s_ns s" by (simp add: ns_def)
  then have "mh_wf (ns(p := (ns p)\<lparr>ev_timeout := ev_timeout (s_ns s p)\<rparr>)) (s_minheap s)"
    using assms(1) by (simp add: heap_inv_def)
  then obtain ns' h' where ok: "minheap_adjust al ns (s_minheap s) p = Inr ((ns', h'), 0)" "mh_wf ns' h'"
    "mset (mh_elems h') = mset (mh_elems (s_minheap s))" "\<forall>x. tmo ns' x = tmo ns x"
    "\<forall>x. x \<notin> set (mh_elems (s_minheap s)) \<longrightarrow> ns' x = ns x"
    using minheap_adjust_ok [OF _ el, of ns] by blast
  have "set (mh_elems h') = set (mh_elems (s_minheap s))" using ok(3) by (metis set_mset_mset)
  moreover have "on_heap (\<lambda>ns h. minheap_adjust al ns h p) (set_timeout_of p t s) =
      Inr ((set_timeout_of p t s)\<lparr>s_ns := ns', s_minheap := h'\<rparr>)"
    using ok(1) by (simp add: on_heap_def ns_def)
  ultimately show ?thesis
    using assms(1) ok el by (auto simp: heap_inv_def ns_def set_timeout_of_def)
qed

lemma on_heap_erase:
  assumes "heap_inv s Op" "p \<in> Op"
  shows "\<exists>s'. on_heap (\<lambda>ns h. minheap_erase ns h p) s = Inr s' \<and> heap_inv s' (Op - {p})
     \<and> s' = s\<lparr>s_ns := s_ns s', s_minheap := s_minheap s'\<rparr>
     \<and> mset (mh_elems (s_minheap s')) = mset (mh_elems (s_minheap s)) - {#p#}
     \<and> (\<forall>x. ev_timeout (s_ns s' x) = ev_timeout (s_ns s x))"
proof (cases "p \<in> set (mh_elems (s_minheap s))")
  case True
  have wf: "mh_wf (s_ns s) (s_minheap s)" using assms(1) by (simp add: heap_inv_def)
  from minheap_erase_ok [OF wf True] obtain ns' h' where
    ok: "minheap_erase (s_ns s) (s_minheap s) p = Inr ((ns', h'), 0)" "mh_wf ns' h'"
    "mset (mh_elems (s_minheap s)) = add_mset p (mset (mh_elems h'))"
    "minheap_idx (ns' p) = -1" "\<forall>x. tmo ns' x = tmo (s_ns s) x"
    "\<forall>x. x \<notin> set (mh_elems (s_minheap s)) \<longrightarrow> ns' x = s_ns s x" by blast
  have nin: "p \<notin> set (mh_elems h')" using mh_notin_elems [OF ok(2,4)] .
  have el: "set (mh_elems (s_minheap s)) = insert p (set (mh_elems h'))"
    using ok(3) by (metis set_mset_add_mset_insert set_mset_mset)
  show ?thesis using ok el nin assms(1) by (auto simp: on_heap_def heap_inv_def)
next
  case False
  then have "minheap_idx (s_ns s p) = -1" using assms by (auto simp: heap_inv_def)
  with False assms(1) show ?thesis
    by (auto simp: on_heap_def minheap_erase_def heap_inv_def diff_single_trivial)
qed

section \<open>References owned by the connections\<close>

lemma refs_inv_new:
  assumes "refs_inv reg conns Op" "p \<notin> Op" "luaL_ref reg (LUser p) = (reg', r)"
  shows "refs_inv reg' (conns(p := \<lparr>c_ref = r, decoder_ref = LUA_NOREF\<rparr>)) (insert p Op)"
proof -
  have wf: "reg_wf reg" using assms(1) by (simp add: refs_inv_def)
  note l = luaL_ref_ok [OF wf _ assms(3), simplified]
  have "c_ref (conns q) \<noteq> r" if "q \<in> Op" for q using assms(1) that l(3) by (auto simp: refs_inv_def)
  moreover have "decoder_ref (conns q) \<noteq> r" if "q \<in> Op" "decoder_ref (conns q) \<noteq> LUA_NOREF" for q
    using assms(1) that l(3) by (auto simp: refs_inv_def)
  ultimately show ?thesis
    using assms(1,2) l unfolding refs_inv_def by auto
qed

lemma refs_inv_unref_decoder:
  assumes "refs_inv reg conns Op" "p \<in> Op" "decoder_ref (conns p) \<noteq> LUA_NOREF"
  shows "refs_inv (luaL_unref reg (decoder_ref (conns p))) (conns(p := (conns p)\<lparr>decoder_ref := LUA_NOREF\<rparr>)) Op"
proof -
  have d: "reg_wf reg" "reg_map reg (decoder_ref (conns p)) \<noteq> None"
    "\<forall>q\<in>Op. decoder_ref (conns p) \<noteq> c_ref (conns q)"
    "\<forall>q\<in>Op. q \<noteq> p \<longrightarrow> decoder_ref (conns q) \<noteq> decoder_ref (conns p)"
    using assms by (auto simp: refs_inv_def)
  show ?thesis
    using assms(1) d luaL_unref_ok [OF d(1,2)] unfolding refs_inv_def by auto
qed

lemma refs_inv_unref_conn:
  assumes "refs_inv reg conns Op" "p \<in> Op"
  shows "refs_inv (luaL_unref reg (c_ref (conns p))) conns (Op - {p})"
proof -
  have d: "reg_wf reg" "reg_map reg (c_ref (conns p)) = Some (LUser p)"
    using assms by (auto simp: refs_inv_def)
  have "c_ref (conns q) \<noteq> c_ref (conns p)" if "q \<in> Op - {p}" for q
    using assms(1) d(2) that by (auto simp: refs_inv_def)
  then show ?thesis
    using assms(1,2) d luaL_unref_ok [OF d(1), of "c_ref (conns p)"] unfolding refs_inv_def by auto
qed

lemma reg_map_unref_swap:
  assumes "reg_wf reg" "reg_map reg a \<noteq> None" "reg_map reg b \<noteq> None" "a \<noteq> b"
  shows "reg_wf (luaL_unref (luaL_unref reg a) b)"
    "reg_map (luaL_unref (luaL_unref reg a) b) = reg_map (luaL_unref (luaL_unref reg b) a)"
proof -
  note ab = luaL_unref_ok [OF assms(1,2)] luaL_unref_ok [OF assms(1,3)]
  have b: "reg_map (luaL_unref reg a) b \<noteq> None" and a: "reg_map (luaL_unref reg b) a \<noteq> None"
    using ab assms by simp_all
  note l = luaL_unref_ok [OF ab(1) b] luaL_unref_ok [OF ab(3) a]
  show "reg_wf (luaL_unref (luaL_unref reg a) b)" by (rule l(1))
  show "reg_map (luaL_unref (luaL_unref reg a) b) = reg_map (luaL_unref (luaL_unref reg b) a)"
    unfolding l(2,4) ab(2,4) using assms(4) by (auto simp: fun_eq_iff)
qed

lemma refs_inv_map:
  "refs_inv reg conns Op \<Longrightarrow> reg_map reg' = reg_map reg \<Longrightarrow> reg_wf reg' \<Longrightarrow>
     (\<And>p. p \<in> Op \<Longrightarrow> conns' p = conns p) \<Longrightarrow> refs_inv reg' conns' Op"
  by (simp add: refs_inv_def)

text \<open>Closing releases the connection's reference, then that of its decoder.\<close>

definition close_refs :: "registry \<Rightarrow> uv_tcpconn \<Rightarrow> registry" where
  "close_refs reg c =
     (if decoder_ref c \<noteq> LUA_NOREF then luaL_unref (luaL_unref reg (c_ref c)) (decoder_ref c)
      else luaL_unref reg (c_ref c))"

lemma refs_inv_close:
  assumes "refs_inv reg conns Op" "p \<in> Op"
  shows "refs_inv (close_refs reg (conns p)) conns (Op - {p})"
proof (cases "decoder_ref (conns p) = LUA_NOREF")
  case True
  then show ?thesis using refs_inv_unref_conn [OF assms] by (simp add: close_refs_def)
next
  case False
  define d where "d = decoder_ref (conns p)"
  define c where "c = c_ref (conns p)"
  have live: "reg_wf reg" "reg_map reg c \<noteq> None" "reg_map reg d \<noteq> None"
    using assms False by (auto simp: refs_inv_def c_def d_def)
  moreover have "d \<noteq> c" using assms False unfolding refs_inv_def c_def d_def by blast
  ultimately have live: "reg_wf reg" "reg_map reg c \<noteq> None" "reg_map reg d \<noteq> None" "c \<noteq> d" by auto
  have "refs_inv (luaL_unref (luaL_unref reg d) c) (conns(p := (conns p)\<lparr>decoder_ref := LUA_NOREF\<rparr>)) (Op - {p})"
    using refs_inv_unref_conn [OF refs_inv_unref_decoder [OF assms False] assms(2)]
    by (simp add: c_def d_def)
  from refs_inv_map [OF this reg_map_unref_swap(2,1) [OF live], of conns]
  show ?thesis using False by (simp add: close_refs_def c_def d_def)
qed

lemma refs_inv_set:
  assumes "refs_inv reg conns Op" "p \<in> Op" "decoder_ref (conns p) = LUA_NOREF" "v \<noteq> LNil"
    "luaL_ref reg v = (reg', r)"
  shows "refs_inv reg' (conns(p := (conns p)\<lparr>decoder_ref := r\<rparr>)) Op"
proof -
  have wf: "reg_wf reg" using assms(1) by (simp add: refs_inv_def)
  note l = luaL_ref_ok [OF wf assms(4,5)]
  have "c_ref (conns q) \<noteq> r" if "q \<in> Op" for q using assms(1) that l(3) by (auto simp: refs_inv_def)
  moreover have "decoder_ref (conns q) \<noteq> r" if "q \<in> Op" for q
    using assms(1) that l(2,3) by (cases "decoder_ref (conns q) = LUA_NOREF") (auto simp: refs_inv_def LUA_NOREF_def)
  ultimately show ?thesis
    using assms(1,2) l unfolding refs_inv_def by auto
qed

lemma srv_inv_setdecoder:
  assumes "srv_inv s Op" "p \<in> Op" "\<not> is_function (e_decoder env LNil)"
  shows "srv_inv (uv_tcpconn_setdecoder env p v s) Op"
proof (cases "is_function (e_decoder env v)")
  case True
  then have v: "v \<noteq> LNil" using assms(3) by auto
  define c0 where "c0 = (s_conns s)(p := (s_conns s p)\<lparr>decoder_ref := LUA_NOREF\<rparr>)"
  define reg1 where "reg1 = (if decoder_ref (s_conns s p) \<noteq> LUA_NOREF
    then luaL_unref (s_reg s) (decoder_ref (s_conns s p)) else s_reg s)"
  have r1: "refs_inv reg1 c0 Op"
  proof (cases "decoder_ref (s_conns s p) = LUA_NOREF")
    case True
    then have "c0 = s_conns s" by (auto simp: c0_def)
    with True assms(1) show ?thesis by (simp add: reg1_def srv_inv_def)
  next
    case False
    with assms(1,2) show ?thesis by (simp add: reg1_def c0_def srv_inv_def refs_inv_unref_decoder)
  qed
  obtain reg2 r where r2: "luaL_ref reg1 v = (reg2, r)" by (cases "luaL_ref reg1 v")
  have "refs_inv reg2 (c0(p := (c0 p)\<lparr>decoder_ref := r\<rparr>)) Op"
    using refs_inv_set [OF r1 assms(2) _ v r2] by (simp add: c0_def)
  then show ?thesis
    using True r2 assms(1)
    by (simp add: uv_tcpconn_setdecoder_def reg1_def [symmetric] srv_inv_def heap_inv_def c0_def)
qed (use assms in \<open>simp add: uv_tcpconn_setdecoder_def\<close>)

lemma srv_inv_set_timeout: "srv_inv (uv_server_set_timeout t s) Op = srv_inv s Op"
  by (rule srv_inv_cong) (simp_all add: uv_server_set_timeout_def Let_def)

lemma srv_inv_echo: "uv_tcpconn_echo env wr p args s = Inr (s', r) \<Longrightarrow> srv_inv s' Op = srv_inv s Op"
  by (auto simp: uv_tcpconn_echo_def res_bind_Inr split: if_splits)

section \<open>The handlers keep the invariant\<close>

lemma pcall_ok:
  assumes "env_ok env" "srv_inv s Op" "pcall env f args s = (s', r)"
  shows "srv_inv s' Op" "s_ns s' = s_ns s" "s_minheap s' = s_minheap s"
    "s_ondata s' = s_ondata s" "s_onclose s' = s_onclose s"
proof -
  have "srv_inv (emit (Ev_call f args) s) Op" using assms(2) by simp
  with assms(1,3) have "srv_inv s' Op \<and> s_ns s' = s_ns s \<and> s_minheap s' = s_minheap s
      \<and> s_ondata s' = s_ondata s \<and> s_onclose s' = s_onclose s"
    unfolding env_ok_def pcall_def Let_def by (metis emit_sel fst_conv)
  then show "srv_inv s' Op" "s_ns s' = s_ns s" "s_minheap s' = s_minheap s"
    "s_ondata s' = s_ondata s" "s_onclose s' = s_onclose s" by simp_all
qed

lemma uv_tcpconn_new_ok:
  assumes "srv_inv s Op" "p \<notin> Op"
  shows "srv_inv (uv_tcpconn_new env p s) (insert p Op)"
    "s_minheap (uv_tcpconn_new env p s) = s_minheap s"
    "s_onconn (uv_tcpconn_new env p s) = s_onconn s"
    "\<not> minheap_elm_inheap (s_ns (uv_tcpconn_new env p s)) p"
proof -
  define s' where "s' = uv_tcpconn_new env p s"
  obtain reg r where r: "luaL_ref (s_reg s) (LUser p) = (reg, r)" by (cases "luaL_ref (s_reg s) (LUser p)")
  have f: "s_reg s' = reg" "s_conns s' = (s_conns s)(p := \<lparr>c_ref = r, decoder_ref = LUA_NOREF\<rparr>)"
    "s_minheap s' = s_minheap s" "s_onconn s' = s_onconn s" "\<And>x. x \<noteq> p \<Longrightarrow> s_ns s' x = s_ns s x"
    "minheap_idx (s_ns s' p) = -1"
    by (simp_all add: s'_def uv_tcpconn_new_def r Let_def minheap_elem_init_def)
  have "refs_inv (s_reg s') (s_conns s') (insert p Op)"
    unfolding f using assms by (intro refs_inv_new [OF _ _ r]) (simp_all add: srv_inv_def)
  then have refs: "refs_inv (s_reg s') (s_conns s') (insert p Op)" .
  have "mh_wf (s_ns s') (s_minheap s)"
  proof (rule mh_wf_frame [of "s_ns s"])
    show "mh_wf (s_ns s) (s_minheap s)" using assms(1) by (simp add: srv_inv_def heap_inv_def)
    show "s_ns s' x = s_ns s x" if "x \<in> set (mh_elems (s_minheap s))" for x
      using assms that by (intro f(5)) (auto simp: srv_inv_def heap_inv_def)
  qed
  moreover have "minheap_idx (s_ns s' q) = -1" if "q \<in> Op" "q \<notin> set (mh_elems (s_minheap s))" for q
    using that assms f(5) [of q] by (cases "q = p") (auto simp: srv_inv_def heap_inv_def)
  ultimately have "heap_inv s' (insert p Op)"
    using assms(1) f(3,6) by (auto simp: srv_inv_def heap_inv_def)
  with refs have "srv_inv s' (insert p Op)" by (simp add: srv_inv_def)
  then show "srv_inv (uv_tcpconn_new env p s) (insert p Op)"
    "s_minheap (uv_tcpconn_new env p s) = s_minheap s"
    "s_onconn (uv_tcpconn_new env p s) = s_onconn s"
    "\<not> minheap_elm_inheap (s_ns (uv_tcpconn_new env p s)) p"
    using f by (simp_all add: s'_def [symmetric] minheap_elm_inheap_def)
qed

lemma start_conn_ok:
  assumes "srv_inv s Op" "p \<in> Op" "\<not> minheap_elm_inheap (s_ns s) p" "hn (s_minheap s) + 1 < 2 ^ 31"
  shows "\<exists>s'. start_conn env p s = Inr s' \<and> srv_inv s' Op \<and> s_log s' = s_log s @ [Ev_read_start p]
     \<and> ev_timeout (s_ns s' p) = e_now env
     \<and> ((\<forall>n. e_al env n) \<longrightarrow> mset (mh_elems (s_minheap s')) = add_mset p (mset (mh_elems (s_minheap s))))"
proof -
  define s1 where "s1 = set_timeout_of p (e_now env) (emit (Ev_read_start p) s)"
  have "heap_inv (emit (Ev_read_start p) s) Op" using assms(1) by (simp add: srv_inv_def heap_inv_def)
  then have h: "heap_inv s1 Op"
    unfolding s1_def using assms(3) by (intro heap_inv_set_timeout) simp_all
  have i: "\<not> minheap_elm_inheap (s_ns s1) p" using assms(3) by (simp add: s1_def minheap_elm_inheap_def)
  have b: "hn (s_minheap s1) + 1 < 2 ^ 31" using assms(4) by (simp add: s1_def)
  obtain s' where s': "on_heap (\<lambda>ns h. minheap_push (e_al env) ns h p) s1 = Inr s'" "heap_inv s' Op"
    "s' = s1\<lparr>s_ns := s_ns s', s_minheap := s_minheap s'\<rparr>"
    "\<forall>x. ev_timeout (s_ns s' x) = ev_timeout (s_ns s1 x)"
    "(\<forall>n. e_al env n) \<longrightarrow> mset (mh_elems (s_minheap s')) = add_mset p (mset (mh_elems (s_minheap s1)))"
    using on_heap_push [OF h assms(2) i b] by blast
  have "s_reg s' = s_reg s1" "s_conns s' = s_conns s1" "s_log s' = s_log s1"
    by (subst s'(3), simp)+
  then have "srv_inv s' Op" "s_log s' = s_log s @ [Ev_read_start p]"
    using s'(2) assms(1) by (simp_all add: srv_inv_def s1_def)
  with s' show ?thesis by (auto simp: start_conn_def s1_def)
qed

text \<open>When a new connection is let in.\<close>

definition conn_admitted :: "uvenv \<Rightarrow> ptr \<Rightarrow> int \<Rightarrow> int \<Rightarrow> int \<Rightarrow> uv_tcpserver \<Rightarrow> bool" where
  "conn_admitted env p onconn accept read_start s \<longleftrightarrow> accept = 0 \<and> read_start = 0 \<and>
     (onconn = LUA_NOREF \<or>
      (let s1 = uv_tcpconn_new env p s; f = lua_rawgeti (s_reg s1) onconn
       in is_function f \<and> conn_wanted (snd (pcall env f [lua_rawgeti (s_reg s1) (s_ref s1),
            lua_rawgeti (s_reg s1) (c_ref (s_conns s1 p))] s1))))"

lemma onconnection_ok:
  assumes env: "env_ok env" and inv: "srv_inv s Op" and p: "p \<notin> Op"
    and n: "hn (s_minheap s) + 1 < 2 ^ 31" and on: "s_onconn s = Some onconn"
  shows "\<exists>s'. lua_tcpserver_onconnection env p accept read_start 0 s = Inr s' \<and> srv_inv s' (insert p Op)
     \<and> (if conn_admitted env p onconn accept read_start s
        then Ev_read_start p \<in> set (s_log s') \<and> ev_timeout (s_ns s' p) = e_now env
          \<and> ((\<forall>n. e_al env n) \<longrightarrow> mset (mh_elems (s_minheap s')) = add_mset p (mset (mh_elems (s_minheap s))))
        else last (s_log s') = Ev_close p True \<and> s_minheap s' = s_minheap s)"
proof -
  define s1 where "s1 = uv_tcpconn_new env p s"
  note s1 = uv_tcpconn_new_ok [OF inv p, of env, folded s1_def]
  define f where "f = lua_rawgeti (s_reg s1) onconn"
  define args where "args = [lua_rawgeti (s_reg s1) (s_ref s1), lua_rawgeti (s_reg s1) (c_ref (s_conns s1 p))]"
  obtain s2 r where pc: "pcall env f args s1 = (s2, r)" by (cases "pcall env f args s1")
  note s2 = pcall_ok [OF env s1(1) pc]
  note defs = lua_tcpserver_onconnection_def conn_admitted_def Let_def s1_def [symmetric] f_def [symmetric]
    args_def [symmetric] pc on s1(3) field_ref_def
  have st1: "\<exists>s'. start_conn env p s1 = Inr s' \<and> srv_inv s' (insert p Op) \<and> Ev_read_start p \<in> set (s_log s')
      \<and> ev_timeout (s_ns s' p) = e_now env
      \<and> ((\<forall>n. e_al env n) \<longrightarrow> mset (mh_elems (s_minheap s')) = add_mset p (mset (mh_elems (s_minheap s))))"
    using start_conn_ok [OF s1(1) _ s1(4), of env] s1(2) n by auto
  have st2: "\<exists>s'. start_conn env p s2 = Inr s' \<and> srv_inv s' (insert p Op) \<and> Ev_read_start p \<in> set (s_log s')
      \<and> ev_timeout (s_ns s' p) = e_now env
      \<and> ((\<forall>n. e_al env n) \<longrightarrow> mset (mh_elems (s_minheap s')) = add_mset p (mset (mh_elems (s_minheap s))))"
    using start_conn_ok [OF s2(1), of p env] s2(2,3) s1(2,4) n by auto
  have cl: "srv_inv (emit (Ev_close p True) s1) (insert p Op)" using s1(1) by simp
  show ?thesis
  proof (cases "conn_admitted env p onconn accept read_start s")
    case True
    then show ?thesis
      using st1 st2 by (cases "onconn = LUA_NOREF") (auto simp: defs)
  next
    case False
    have "s_minheap s2 = s_minheap s" using s2(3) s1(2) by simp
    with False show ?thesis
      using s1(1,2) s2(1) by (auto simp: defs split: sum.splits lval.splits)
  qed
qed

lemma onread_deliver_ok:
  assumes "env_ok env" "srv_inv s Op"
  shows "srv_inv (onread_deliver env p ondata bytes s) Op"
    "s_ns (onread_deliver env p ondata bytes s) = s_ns s"
    "s_minheap (onread_deliver env p ondata bytes s) = s_minheap s"
proof -
  define dec where "dec = lua_rawgeti (s_reg s) (decoder_ref (s_conns s p))"
  define has where "has \<longleftrightarrow> decoder_ref (s_conns s p) \<noteq> LUA_NOREF \<and> is_function (e_decoder env dec)"
  define cb where "cb = lua_rawgeti (s_reg s) ondata"
  define vs where "vs = [lua_rawgeti (s_reg s) (s_ref s), lua_rawgeti (s_reg s) (c_ref (s_conns s p)), LStr bytes]"
  define f where "f = (if has then e_decoder env dec else cb)"
  define args where "args = (if has then dec # cb # vs else vs)"
  obtain s1 r where e: "pcall env f args s = (s1, r)" by (cases "pcall env f args s")
  have d: "onread_deliver env p ondata bytes s = (case r of Inl (LStr msg) \<Rightarrow> emit Ev_puts s1 | _ \<Rightarrow> s1)"
    using e unfolding onread_deliver_def Let_def dec_def [symmetric] cb_def [symmetric] has_def [symmetric] f_def args_def vs_def
    by (cases has) simp_all
  note l = pcall_ok [OF assms e]
  show "srv_inv (onread_deliver env p ondata bytes s) Op"
    "s_ns (onread_deliver env p ondata bytes s) = s_ns s"
    "s_minheap (onread_deliver env p ondata bytes s) = s_minheap s"
    unfolding d using l(1-3) by (auto split: sum.splits lval.splits)
qed

text \<open>Noting the time of the last activity of a connection.\<close>

lemma touch_ok:
  assumes "srv_inv s Op" "p \<in> Op" "hn (s_minheap s) + 1 < 2 ^ 31"
  shows "\<exists>s'. (let s1 = set_timeout_of p t s
               in if minheap_elm_inheap (s_ns s1) p then on_heap (\<lambda>ns h. minheap_adjust al ns h p) s1
                  else on_heap (\<lambda>ns h. minheap_push al ns h p) s1) = Inr s'
     \<and> srv_inv s' Op \<and> s' = s\<lparr>s_ns := s_ns s', s_minheap := s_minheap s'\<rparr>
     \<and> (\<forall>x. ev_timeout (s_ns s' x) = (if x = p then t else ev_timeout (s_ns s x)))
     \<and> ((\<forall>n. al n) \<longrightarrow> set (mh_elems (s_minheap s')) = insert p (set (mh_elems (s_minheap s))))"
proof -
  define s1 where "s1 = set_timeout_of p t s"
  have h: "heap_inv s Op" using assms(1) by (simp add: srv_inv_def)
  have eq: "minheap_elm_inheap (s_ns s1) p = minheap_elm_inheap (s_ns s) p"
    by (simp add: s1_def minheap_elm_inheap_def)
  define F where "F = (if minheap_elm_inheap (s_ns s1) p then on_heap (\<lambda>ns h. minheap_adjust al ns h p) s1
      else on_heap (\<lambda>ns h. minheap_push al ns h p) s1)"
  have "\<exists>s'. F = Inr s' \<and> heap_inv s' Op \<and> s' = s\<lparr>s_ns := s_ns s', s_minheap := s_minheap s'\<rparr>
     \<and> (\<forall>x. ev_timeout (s_ns s' x) = (if x = p then t else ev_timeout (s_ns s x)))
     \<and> ((\<forall>n. al n) \<longrightarrow> set (mh_elems (s_minheap s')) = insert p (set (mh_elems (s_minheap s))))"
  proof (cases "minheap_elm_inheap (s_ns s) p")
    case True
    then have "p \<in> set (mh_elems (s_minheap s))"
      using h assms(2) by (auto simp: heap_inv_def minheap_elm_inheap_def)
    moreover obtain s' where "F = Inr s'" "heap_inv s' Op"
      "s' = s\<lparr>s_ns := s_ns s', s_minheap := s_minheap s'\<rparr>"
      "\<forall>x. ev_timeout (s_ns s' x) = (if x = p then t else ev_timeout (s_ns s x))"
      "mset (mh_elems (s_minheap s')) = mset (mh_elems (s_minheap s))"
      using on_heap_retime [OF h assms(2) True, of al t] True eq by (auto simp: F_def s1_def)
    ultimately show ?thesis by (metis insert_absorb set_mset_mset)
  next
    case False
    have h1: "heap_inv s1 Op" unfolding s1_def using h False by (rule heap_inv_set_timeout)
    have i: "\<not> minheap_elm_inheap (s_ns s1) p" using False eq by simp
    have b: "hn (s_minheap s1) + 1 < 2 ^ 31" using assms(3) by (simp add: s1_def)
    obtain s' where s': "F = Inr s'" "heap_inv s' Op"
      "s' = s1\<lparr>s_ns := s_ns s', s_minheap := s_minheap s'\<rparr>"
      "\<forall>x. ev_timeout (s_ns s' x) = ev_timeout (s_ns s1 x)"
      "(\<forall>n. al n) \<longrightarrow> mset (mh_elems (s_minheap s')) = add_mset p (mset (mh_elems (s_minheap s1)))"
      using on_heap_push [OF h1 assms(2) i b, of al] i by (auto simp: F_def)
    have "(\<forall>n. al n) \<longrightarrow> set (mh_elems (s_minheap s')) = insert p (set (mh_elems (s_minheap s)))"
      using s'(5) by (simp add: s1_def) (metis set_mset_add_mset_insert set_mset_mset)
    moreover have "s' = s\<lparr>s_ns := s_ns s', s_minheap := s_minheap s'\<rparr>"
      using s'(3) by (simp add: s1_def set_timeout_of_def)
    ultimately show ?thesis using s'(1,2,4) by (auto simp: s1_def)
  qed
  then obtain s' where s': "F = Inr s'" "heap_inv s' Op"
     "s' = s\<lparr>s_ns := s_ns s', s_minheap := s_minheap s'\<rparr>"
     "\<forall>x. ev_timeout (s_ns s' x) = (if x = p then t else ev_timeout (s_ns s x))"
     "(\<forall>n. al n) \<longrightarrow> set (mh_elems (s_minheap s')) = insert p (set (mh_elems (s_minheap s)))" by blast
  have "s_reg s' = s_reg s" "s_conns s' = s_conns s" by (subst s'(3), simp)+
  with s'(2) assms(1) have "srv_inv s' Op" by (simp add: srv_inv_def)
  with s' show ?thesis by (auto simp: F_def s1_def Let_def)
qed

lemma onread_ok:
  assumes env: "env_ok env" and inv: "srv_inv s Op" and p: "p \<in> Op" and n: "hn (s_minheap s) + 1 < 2 ^ 31"
    and od: "s_ondata s = Some ondata" and nr: "0 < nread" "nat nread \<le> length b"
  shows "\<exists>s'. uv_tcpserver_onread env p nread (Some b) s = Inr s' \<and> srv_inv s' Op
     \<and> last (s_log s') = Ev_free
     \<and> (s_idle_timeout s > 0 \<longrightarrow> ev_timeout (s_ns s' p) = e_now env
          \<and> (\<forall>x. x \<noteq> p \<longrightarrow> ev_timeout (s_ns s' x) = ev_timeout (s_ns s x))
          \<and> ((\<forall>n. e_al env n) \<longrightarrow> set (mh_elems (s_minheap s')) = insert p (set (mh_elems (s_minheap s)))))"
proof -
  define F where "F = (if s_idle_timeout s > 0
      then let s1 = set_timeout_of p (e_now env) s
           in if minheap_elm_inheap (s_ns s1) p then on_heap (\<lambda>ns h. minheap_adjust (e_al env) ns h p) s1
              else on_heap (\<lambda>ns h. minheap_push (e_al env) ns h p) s1
      else Inr s)"
  have "\<exists>s2. F = Inr s2 \<and> srv_inv s2 Op \<and> s2 = s\<lparr>s_ns := s_ns s2, s_minheap := s_minheap s2\<rparr>
     \<and> (s_idle_timeout s > 0 \<longrightarrow> (\<forall>x. ev_timeout (s_ns s2 x) = (if x = p then e_now env else ev_timeout (s_ns s x)))
     \<and> ((\<forall>n. e_al env n) \<longrightarrow> set (mh_elems (s_minheap s2)) = insert p (set (mh_elems (s_minheap s)))))"
    using touch_ok [OF inv p n, of "e_now env" "e_al env"] inv
    by (cases "s_idle_timeout s > 0") (simp_all add: F_def)
  then obtain s2 where s2: "F = Inr s2" "srv_inv s2 Op" "s2 = s\<lparr>s_ns := s_ns s2, s_minheap := s_minheap s2\<rparr>"
    "s_idle_timeout s > 0 \<longrightarrow> (\<forall>x. ev_timeout (s_ns s2 x) = (if x = p then e_now env else ev_timeout (s_ns s x)))
     \<and> ((\<forall>n. e_al env n) \<longrightarrow> set (mh_elems (s_minheap s2)) = insert p (set (mh_elems (s_minheap s))))" by blast
  have od2: "s_ondata s2 = Some ondata" by (subst s2(3)) (simp add: od)
  define s3 where "s3 = (if ondata \<noteq> LUA_NOREF then onread_deliver env p ondata (take (nat nread) b) s2 else s2)"
  have s3: "srv_inv s3 Op" "s_ns s3 = s_ns s2" "s_minheap s3 = s_minheap s2"
    using onread_deliver_ok [OF env s2(2)] s2(2) by (auto simp: s3_def)
  have "uv_tcpserver_onread env p nread (Some b) s = Inr (emit Ev_free s3)"
    using nr s2(1) od2 by (simp add: uv_tcpserver_onread_def F_def [symmetric] field_ref_def mem_read_def s3_def)
  with s3 s2(4) show ?thesis by auto
qed

lemma onconnclose_ok:
  assumes env: "env_ok env" and inv: "srv_inv s Op" and p: "p \<in> Op" and oc: "s_onclose s = Some onclose"
  shows "\<exists>s'. uv_tcpserver_onconnclose env p s = Inr s' \<and> srv_inv s' (Op - {p})
     \<and> mset (mh_elems (s_minheap s')) = mset (mh_elems (s_minheap s)) - {#p#}"
proof -
  define f where "f = lua_rawgeti (s_reg s) onclose"
  define args where "args = [lua_rawgeti (s_reg s) (s_ref s), lua_rawgeti (s_reg s) (c_ref (s_conns s p))]"
  define s1 where "s1 = (if onclose \<noteq> LUA_NOREF then (if is_function f then fst (pcall env f args s) else s) else s)"
  obtain t r where pc: "pcall env f args s = (t, r)" by (cases "pcall env f args s")
  have s1: "srv_inv s1 Op" "s_minheap s1 = s_minheap s"
    using pcall_ok [OF env inv pc] inv by (auto simp: s1_def pc)
  then have "heap_inv s1 Op" by (simp add: srv_inv_def)
  from on_heap_erase [OF this p] obtain s2 where
    s2: "on_heap (\<lambda>ns h. minheap_erase ns h p) s1 = Inr s2" "heap_inv s2 (Op - {p})"
     "s2 = s1\<lparr>s_ns := s_ns s2, s_minheap := s_minheap s2\<rparr>"
     "mset (mh_elems (s_minheap s2)) = mset (mh_elems (s_minheap s1)) - {#p#}" by blast
  have f2: "s_reg s2 = s_reg s1" "s_conns s2 = s_conns s1" by (subst s2(3), simp)+
  have "refs_inv (close_refs (s_reg s1) (s_conns s1 p)) (s_conns s1) (Op - {p})"
    using s1(1) p by (simp add: srv_inv_def refs_inv_close)
  then have "srv_inv (s2\<lparr>s_reg := close_refs (s_reg s1) (s_conns s1 p)\<rparr>) (Op - {p})"
    using s2(2) f2 by (simp add: srv_inv_def heap_inv_def)
  moreover have "uv_tcpserver_onconnclose env p s = res_bind (on_heap (\<lambda>ns h. minheap_erase ns h p) s1)
      (\<lambda>s2. Inr (s2\<lparr>s_reg := close_refs (s_reg s2) (s_conns s2 p)\<rparr>))"
    unfolding uv_tcpserver_onconnclose_def oc field_ref_def Let_def f_def [symmetric] args_def [symmetric]
      s1_def [symmetric] close_refs_def option.case res_bind_simps by (rule refl)
  then have "uv_tcpserver_onconnclose env p s = Inr (s2\<lparr>s_reg := close_refs (s_reg s1) (s_conns s1 p)\<rparr>)"
    using s2(1) f2 by simp
  ultimately show ?thesis using s2(4) s1(2) by simp
qed

section \<open>The loops over the heap\<close>

lemma heap_inv_pop:
  assumes "heap_inv s Op" "\<not> minheap_empty (s_minheap s)"
  obtains ns h e where "minheap_pop (s_ns s) (s_minheap s) = Inr ((ns, h), Some e)"
    "mem_get (hp (s_minheap s)) 0 = Inr e" "e \<in> Op"
    "mset (mh_elems (s_minheap s)) = add_mset e (mset (mh_elems h))"
    "\<forall>x\<in>set (mh_elems (s_minheap s)). ev_timeout (s_ns s e) \<le> ev_timeout (s_ns s x)"
    "\<forall>x. ev_timeout (ns x) = ev_timeout (s_ns s x)"
    "heap_inv (s\<lparr>s_ns := ns, s_minheap := h\<rparr>) Op"
    "e \<notin> set (mh_elems h)"
proof -
  have wf: "mh_wf (s_ns s) (s_minheap s)" using assms(1) by (simp add: heap_inv_def)
  have ne: "hn (s_minheap s) \<noteq> 0" using assms(2) by (simp add: minheap_empty_def)
  define e where "e = hp (s_minheap s) ! 0"
  obtain ns h where ok: "minheap_pop (s_ns s) (s_minheap s) = Inr ((ns, h), Some e)" "mh_wf ns h"
    "mset (mh_elems (s_minheap s)) = add_mset e (mset (mh_elems h))"
    "\<forall>x\<in>set (mh_elems (s_minheap s)). tmo (s_ns s) e \<le> tmo (s_ns s) x"
    "minheap_idx (ns e) = -1" "\<forall>x. tmo ns x = tmo (s_ns s) x"
    "\<forall>x. x \<notin> set (mh_elems (s_minheap s)) \<longrightarrow> ns x = s_ns s x"
    using minheap_pop_ok [OF wf ne] unfolding e_def by blast
  have el: "set (mh_elems (s_minheap s)) = insert e (set (mh_elems h))"
    using ok(3) by (metis set_mset_add_mset_insert set_mset_mset)
  have "mem_get (hp (s_minheap s)) 0 = Inr e"
    using mh_wfD [OF wf] ne by (simp add: mem_get_def e_def)
  moreover have "e \<in> Op" using el assms(1) by (auto simp: heap_inv_def)
  moreover have "minheap_idx (ns q) = -1" if "q \<in> Op" "q \<notin> set (mh_elems h)" for q
    using that ok(5,7) el assms(1) by (cases "q = e") (simp_all add: heap_inv_def)
  then have "heap_inv (s\<lparr>s_ns := ns, s_minheap := h\<rparr>) Op"
    using ok(2) el assms(1) by (auto simp: heap_inv_def)
  moreover have "e \<notin> set (mh_elems h)" by (rule mh_notin_elems [OF ok(2,5)])
  ultimately show thesis using that ok(1,3,4,6) by blast
qed

lemma ontimer_loop_ok:
  assumes "heap_inv s Op"
  shows "\<exists>s' es. ontimer_loop tm s = Inr s' \<and> heap_inv s' Op
     \<and> s' = s\<lparr>s_ns := s_ns s', s_minheap := s_minheap s', s_log := s_log s @ map Ev_shutdown es\<rparr>
     \<and> mset es = {#p \<in># mset (mh_elems (s_minheap s)). ev_timeout (s_ns s p) < tm#}
     \<and> mset (mh_elems (s_minheap s')) = {#p \<in># mset (mh_elems (s_minheap s)). \<not> ev_timeout (s_ns s p) < tm#}
     \<and> sorted (map (\<lambda>p. ev_timeout (s_ns s p)) es)
     \<and> (\<forall>x. ev_timeout (s_ns s' x) = ev_timeout (s_ns s x))"
  using assms
proof (induction tm s rule: ontimer_loop.induct)
  case (1 tm s)
  show ?case
  proof (cases "minheap_empty (s_minheap s)")
    case True
    then have "mh_elems (s_minheap s) = []" by (simp add: minheap_empty_def mh_elems_def)
    with True "1.prems" show ?thesis
      by (intro exI [of _ s] exI [of _ "[]"]) (simp add: ontimer_loop.simps)
  next
    case False
    obtain ns h e where pop: "minheap_pop (s_ns s) (s_minheap s) = Inr ((ns, h), Some e)"
      "mem_get (hp (s_minheap s)) 0 = Inr e" "e \<in> Op"
      "mset (mh_elems (s_minheap s)) = add_mset e (mset (mh_elems h))"
      "\<forall>x\<in>set (mh_elems (s_minheap s)). ev_timeout (s_ns s e) \<le> ev_timeout (s_ns s x)"
      "\<forall>x. ev_timeout (ns x) = ev_timeout (s_ns s x)"
      "heap_inv (s\<lparr>s_ns := ns, s_minheap := h\<rparr>) Op" "e \<notin> set (mh_elems h)"
      by (rule heap_inv_pop [OF "1.prems" False])
    show ?thesis
    proof (cases "ev_timeout (s_ns s e) < tm")
      case lt: True
      define t where "t = (emit (Ev_shutdown e) s)\<lparr>s_ns := ns, s_minheap := h\<rparr>"
      have t: "s_ns t = ns" "s_minheap t = h" "s_log t = s_log s @ [Ev_shutdown e]" by (simp_all add: t_def)
      have ht: "heap_inv t Op" using pop(7) t by (simp add: heap_inv_def)
      have step: "ontimer_loop tm s = ontimer_loop tm t"
        using False pop(1,2) lt by (simp add: ontimer_loop.simps [of tm s] t_def)
      obtain s' es where IH: "ontimer_loop tm t = Inr s'" "heap_inv s' Op"
        "s' = t\<lparr>s_ns := s_ns s', s_minheap := s_minheap s', s_log := s_log t @ map Ev_shutdown es\<rparr>"
        "mset es = {#p \<in># mset (mh_elems h). ev_timeout (s_ns s p) < tm#}"
        "mset (mh_elems (s_minheap s')) = {#p \<in># mset (mh_elems h). \<not> ev_timeout (s_ns s p) < tm#}"
        "sorted (map (\<lambda>p. ev_timeout (s_ns s p)) es)" "\<forall>x. ev_timeout (s_ns s' x) = ev_timeout (s_ns s x)"
        using "1.IH" [OF False pop(2) lt pop(1) refl refl, of e] pop(6) ht t unfolding t_def [symmetric] by auto
      have "set es \<subseteq> set (mh_elems (s_minheap s))"
        using arg_cong [OF IH(4), of set_mset] arg_cong [OF pop(4), of set_mset] by auto
      then have "sorted (map (\<lambda>p. ev_timeout (s_ns s p)) (e # es))" using IH(6) pop(5) by auto
      moreover have "s' = s\<lparr>s_ns := s_ns s', s_minheap := s_minheap s', s_log := s_log s @ map Ev_shutdown (e # es)\<rparr>"
        by (subst IH(3)) (simp add: t_def emit_def)
      ultimately show ?thesis
        using step IH(1,2,4,5,7) pop(4) lt by (intro exI [of _ s'] exI [of _ "e # es"]) simp
    next
      case ge: False
      then have "\<forall>p\<in>set (mh_elems (s_minheap s)). \<not> ev_timeout (s_ns s p) < tm" using pop(5) by fastforce
      then have "{#p \<in># mset (mh_elems (s_minheap s)). ev_timeout (s_ns s p) < tm#} = {#}"
        "{#p \<in># mset (mh_elems (s_minheap s)). \<not> ev_timeout (s_ns s p) < tm#} = mset (mh_elems (s_minheap s))"
        by (simp_all flip: mset_filter)
      moreover have "ontimer_loop tm s = Inr s"
        using False pop(2) ge by (simp add: ontimer_loop.simps [of tm s])
      ultimately show ?thesis using "1.prems" by (intro exI [of _ s] exI [of _ "[]"]) simp
    qed
  qed
qed

lemma gc_loop_ok:
  assumes "srv_inv s Op"
  shows "\<exists>s' es. gc_loop s = Inr s' \<and> srv_inv s' (Op - set es) \<and> minheap_empty (s_minheap s')
     \<and> s_log s' = s_log s @ map (\<lambda>p. Ev_close p False) es \<and> mset es = mset (mh_elems (s_minheap s))"
  using assms
proof (induction s arbitrary: Op rule: gc_loop.induct)
  case (1 s)
  show ?case
  proof (cases "minheap_empty (s_minheap s)")
    case True
    then have "mh_elems (s_minheap s) = []" by (simp add: minheap_empty_def mh_elems_def)
    with True "1.prems" show ?thesis by (intro exI [of _ s] exI [of _ "[]"]) (simp add: gc_loop.simps)
  next
    case False
    have h: "heap_inv s Op" and rf: "refs_inv (s_reg s) (s_conns s) Op"
      using "1.prems" by (simp_all add: srv_inv_def)
    obtain ns h e where pop: "minheap_pop (s_ns s) (s_minheap s) = Inr ((ns, h), Some e)"
      "mem_get (hp (s_minheap s)) 0 = Inr e" "e \<in> Op"
      "mset (mh_elems (s_minheap s)) = add_mset e (mset (mh_elems h))"
      "\<forall>x\<in>set (mh_elems (s_minheap s)). ev_timeout (s_ns s e) \<le> ev_timeout (s_ns s x)"
      "\<forall>x. ev_timeout (ns x) = ev_timeout (s_ns s x)"
      "heap_inv (s\<lparr>s_ns := ns, s_minheap := h\<rparr>) Op" "e \<notin> set (mh_elems h)"
      by (rule heap_inv_pop [OF h False])
    define t where "t = (emit (Ev_close e False) s)\<lparr>s_ns := ns, s_minheap := h,
       s_reg := luaL_unref (s_reg s) (c_ref (s_conns s e))\<rparr>"
    have "srv_inv t (Op - {e})"
      using pop(7,8) refs_inv_unref_conn [OF rf pop(3)] by (auto simp: srv_inv_def heap_inv_def t_def)
    then obtain s' es where IH: "gc_loop t = Inr s'" "srv_inv s' (Op - {e} - set es)"
      "minheap_empty (s_minheap s')" "s_log s' = s_log t @ map (\<lambda>p. Ev_close p False) es"
      "mset es = mset (mh_elems (s_minheap t))"
      using "1.IH" [OF False pop(1) refl refl, of e "Op - {e}"] unfolding t_def [symmetric] by auto
    have "gc_loop s = gc_loop t" using False pop(1) by (simp add: gc_loop.simps [of s] t_def)
    moreover have "Op - {e} - set es = Op - set (e # es)" by auto
    ultimately show ?thesis
      using IH pop(4) by (intro exI [of _ s'] exI [of _ "e # es"]) (simp add: t_def)
  qed
qed

section \<open>All histories of a server\<close>

text \<open>
  One event of the loop or one call from Lua. The surroundings may differ from step to
  step; the heap has room for one more node.
\<close>

inductive srv_step :: "uv_tcpserver \<times> ptr set \<Rightarrow> uv_tcpserver \<times> ptr set \<Rightarrow> bool" where
  accept: "\<lbrakk>env_ok env; p \<notin> Op; hn (s_minheap s) + 1 < 2 ^ 31;
     lua_tcpserver_onconnection env p acc rs 0 s = Inr s'\<rbrakk> \<Longrightarrow> srv_step (s, Op) (s', insert p Op)"
| failed: "\<lbrakk>status \<noteq> 0; lua_tcpserver_onconnection env p acc rs status s = Inr s'\<rbrakk>
     \<Longrightarrow> srv_step (s, Op) (s', Op)"
| read: "\<lbrakk>env_ok env; p \<in> Op; hn (s_minheap s) + 1 < 2 ^ 31;
     uv_tcpserver_onread env p nread buf s = Inr s'\<rbrakk> \<Longrightarrow> srv_step (s, Op) (s', Op)"
| shut: "p \<in> Op \<Longrightarrow> srv_step (s, Op) (uv_conn_shutdown_cb p s, Op)"
| close: "\<lbrakk>env_ok env; p \<in> Op; uv_tcpserver_onconnclose env p s = Inr s'\<rbrakk>
     \<Longrightarrow> srv_step (s, Op) (s', Op - {p})"
| timer: "uv_tcpserver_ontimer env s = Inr s' \<Longrightarrow> srv_step (s, Op) (s', Op)"
| sent: "srv_step (s, Op) (uv_tcpconn_after_sendmem status s, Op)"
| set_timeout: "srv_step (s, Op) (uv_server_set_timeout t s, Op)"
| set_decoder: "\<lbrakk>env_ok env; p \<in> Op\<rbrakk> \<Longrightarrow> srv_step (s, Op) (uv_tcpconn_setdecoder env p v s, Op)"
| echo: "uv_tcpconn_echo env wr p args s = Inr (s', r) \<Longrightarrow> srv_step (s, Op) (s', Op)"

lemma onread_inv:
  assumes "env_ok env" "srv_inv s Op" "p \<in> Op" "hn (s_minheap s) + 1 < 2 ^ 31"
    "uv_tcpserver_onread env p nread buf s = Inr s'"
  shows "srv_inv s' Op"
proof (cases "nread > 0")
  case True
  define F where "F = (if s_idle_timeout s > 0
      then let s1 = set_timeout_of p (e_now env) s
           in if minheap_elm_inheap (s_ns s1) p then on_heap (\<lambda>ns h. minheap_adjust (e_al env) ns h p) s1
              else on_heap (\<lambda>ns h. minheap_push (e_al env) ns h p) s1
      else Inr s)"
  obtain s2 where s2: "F = Inr s2" "srv_inv s2 Op"
    using touch_ok [OF assms(2-4), of "e_now env" "e_al env"] assms(2)
    by (cases "s_idle_timeout s > 0") (auto simp: F_def)
  have "srv_inv (onread_deliver env p ondata bytes s2) Op" for ondata bytes
    using onread_deliver_ok(1) [OF assms(1) s2(2)] .
  then show ?thesis
    using True assms(5) s2 unfolding uv_tcpserver_onread_def F_def [symmetric]
    by (auto simp: res_bind_Inr split: if_splits option.splits)
next
  case False
  with assms(2,5) show ?thesis by (auto simp: uv_tcpserver_onread_def Let_def split: if_splits)
qed

lemma ontimer_inv:
  assumes "srv_inv s Op" "uv_tcpserver_ontimer env s = Inr s'"
  shows "srv_inv s' Op"
proof (cases "s_idle_timeout s > 0")
  case True
  have "heap_inv s Op" using assms(1) by (simp add: srv_inv_def)
  from ontimer_loop_ok [OF this, of "e_now env - s_idle_timeout s"] True assms(2)
  obtain es where l: "heap_inv s' Op"
    "s' = s\<lparr>s_ns := s_ns s', s_minheap := s_minheap s', s_log := s_log s @ map Ev_shutdown es\<rparr>"
    by (auto simp: uv_tcpserver_ontimer_def)
  have "s_reg s' = s_reg s" "s_conns s' = s_conns s" by (subst l(2), simp)+
  with l(1) assms(1) show ?thesis by (simp add: srv_inv_def)
qed (use assms in \<open>auto simp: uv_tcpserver_ontimer_def\<close>)

lemma srv_step_inv: "srv_step a b \<Longrightarrow> srv_inv (fst a) (snd a) \<Longrightarrow> srv_inv (fst b) (snd b)"
proof (induction rule: srv_step.induct)
  case (accept env p Op s acc rs s')
  show ?case
  proof (cases "s_onconn s")
    case None
    then show ?thesis
      using accept uv_tcpconn_new_ok [of s Op p env]
      by (auto simp: lua_tcpserver_onconnection_def Let_def field_ref_def split: if_splits)
  next
    case (Some onconn)
    then show ?thesis using onconnection_ok [OF accept(1) _ accept(2,3) Some, of acc rs] accept by auto
  qed
next
  case (read env p Op s nread buf s')
  then show ?case using onread_inv by simp
next
  case (close env p Op s s')
  then show ?case
    using onconnclose_ok [of env s Op p] by (cases "s_onclose s") (auto simp: uv_tcpserver_onconnclose_def field_ref_def)
next
  case (timer env s s' Op)
  then show ?case using ontimer_inv by simp
next
  case (set_decoder env p Op s v)
  then show ?case by (simp add: srv_inv_setdecoder env_ok_def)
next
  case (echo env wr p args s s' r Op)
  then show ?case using srv_inv_echo by simp
qed (simp_all add: lua_tcpserver_onconnection_def uv_conn_shutdown_cb_def srv_inv_set_timeout
    uv_tcpconn_after_sendmem_def)

section \<open>What the server guarantees\<close>

text \<open>A server as \<open>lua_create_server\<close> leaves it, for the witnesses.\<close>

definition ex_env :: "int \<Rightarrow> uvenv" where
  "ex_env now = \<lparr>e_al = (\<lambda>_. True), e_lua = (\<lambda>f args s. (s, Inr [])), e_decoder = (\<lambda>_. LNil),
     e_numstr = (\<lambda>_. []), e_now = now\<rparr>"

definition ex_srv :: uv_tcpserver where
  "ex_srv = \<lparr>s_ns = (\<lambda>_. \<lparr>minheap_idx = -1, ev_timeout = 0\<rparr>), s_minheap = minheap_init,
     s_conns = (\<lambda>_. \<lparr>c_ref = 0, decoder_ref = LUA_NOREF\<rparr>), s_idle_timeout = 30, s_ref = 1,
     s_onconn = Some LUA_NOREF, s_ondata = Some LUA_NOREF, s_onclose = Some LUA_NOREF,
     s_reg = reg_empty, s_log = []\<rparr>"

lemma ex_env_ok: "env_ok (ex_env now)"
  by (simp add: env_ok_def ex_env_def)

lemma empty_heap_wf: "mh_wf ns minheap_init"
  by (simp add: mh_wf_def minheap_init_def mh_elems_def idx_ok_def heap_ok_def)

lemma empty_heap_elems [simp]: "mh_elems minheap_init = []" "hn minheap_init = 0"
  by (simp_all add: mh_elems_def minheap_init_def)

lemma ex_srv_inv: "srv_inv ex_srv {}"
  by (simp add: srv_inv_def heap_inv_def refs_inv_def ex_srv_def empty_heap_wf reg_empty_wf)

lemma ex_conn_inv: "srv_inv (uv_tcpconn_new (ex_env 100) 7 ex_srv) {7}"
  using uv_tcpconn_new_ok(1) [OF ex_srv_inv, of 7] by simp

lemma ex_conn_fields:
  "s_minheap (uv_tcpconn_new env p ex_srv) = minheap_init"
  "s_onconn (uv_tcpconn_new env p ex_srv) = Some LUA_NOREF"
  "s_ondata (uv_tcpconn_new env p ex_srv) = Some LUA_NOREF"
  "s_onclose (uv_tcpconn_new env p ex_srv) = Some LUA_NOREF"
  "s_idle_timeout (uv_tcpconn_new env p ex_srv) = 30"
  by (simp_all add: uv_tcpconn_new_def ex_srv_def Let_def set_timeout_of_def split: prod.splits)



text \<open>
  C32. A tick of the idle timer shuts down exactly the connections in the heap whose last
  activity is more than the idle timeout ago, the longest idle first, takes exactly
  these out of the heap, and leaves every other connection and every time as it was.
\<close>

theorem ontimer_expires_idle:
  assumes "heap_inv s Op" "s_idle_timeout s > 0"
  shows "\<exists>s' es. uv_tcpserver_ontimer env s = Inr s' \<and> heap_inv s' Op
     \<and> s_log s' = s_log s @ map Ev_shutdown es
     \<and> mset es = {#p \<in># mset (mh_elems (s_minheap s)). ev_timeout (s_ns s p) < e_now env - s_idle_timeout s#}
     \<and> mset (mh_elems (s_minheap s')) =
         {#p \<in># mset (mh_elems (s_minheap s)). \<not> ev_timeout (s_ns s p) < e_now env - s_idle_timeout s#}
     \<and> sorted (map (\<lambda>p. ev_timeout (s_ns s p)) es)
     \<and> (\<forall>x. ev_timeout (s_ns s' x) = ev_timeout (s_ns s x))"
proof -
  obtain s' es where l: "ontimer_loop (e_now env - s_idle_timeout s) s = Inr s'" "heap_inv s' Op"
     "s' = s\<lparr>s_ns := s_ns s', s_minheap := s_minheap s', s_log := s_log s @ map Ev_shutdown es\<rparr>"
     "mset es = {#p \<in># mset (mh_elems (s_minheap s)). ev_timeout (s_ns s p) < e_now env - s_idle_timeout s#}"
     "mset (mh_elems (s_minheap s')) =
         {#p \<in># mset (mh_elems (s_minheap s)). \<not> ev_timeout (s_ns s p) < e_now env - s_idle_timeout s#}"
     "sorted (map (\<lambda>p. ev_timeout (s_ns s p)) es)"
     "\<forall>x. ev_timeout (s_ns s' x) = ev_timeout (s_ns s x)"
    using ontimer_loop_ok [OF assms(1), of "e_now env - s_idle_timeout s"] by blast
  have "s_log s' = s_log s @ map Ev_shutdown es" by (subst l(3)) simp
  with l assms(2) show ?thesis by (auto simp: uv_tcpserver_ontimer_def)
qed

theorem ontimer_expires_idle_witness:
  "\<exists>s' es. uv_tcpserver_ontimer (ex_env 48) (ex_srv\<lparr>s_ns := ex_ns, s_minheap := ex_heap\<rparr>) = Inr s'
     \<and> s_log s' = map Ev_shutdown es \<and> mset es = {#1, 3#} \<and> mset (mh_elems (s_minheap s')) = {#2#}"
proof -
  have "heap_inv (ex_srv\<lparr>s_ns := ex_ns, s_minheap := ex_heap\<rparr>) {1, 2, 3}"
    using ex_heap_wf by (simp add: heap_inv_def) (simp add: ex_heap_def mh_elems_def)
  from ontimer_expires_idle [OF this, of "ex_env 48"] show ?thesis
    by (auto simp: ex_srv_def ex_env_def ex_heap_def ex_ns_def mh_elems_def)
qed

text \<open>
  Data from an open connection, with an idle timeout set: the handler returns, the
  connection is in the heap with the present time as its last activity, no other
  connection's time changes, the buffer is freed last, and the invariant holds.
\<close>

theorem onread_refreshes:
  assumes "env_ok env" "srv_inv s Op" "p \<in> Op" "hn (s_minheap s) + 1 < 2 ^ 31"
    "s_ondata s = Some ondata" "0 < nread" "nat nread \<le> length b" "s_idle_timeout s > 0" "\<forall>n. e_al env n"
  shows "\<exists>s'. uv_tcpserver_onread env p nread (Some b) s = Inr s' \<and> srv_inv s' Op
     \<and> last (s_log s') = Ev_free \<and> ev_timeout (s_ns s' p) = e_now env
     \<and> (\<forall>x. x \<noteq> p \<longrightarrow> ev_timeout (s_ns s' x) = ev_timeout (s_ns s x))
     \<and> set (mh_elems (s_minheap s')) = insert p (set (mh_elems (s_minheap s)))"
  using onread_ok [OF assms(1-7)] assms(8,9) by blast

theorem onread_refreshes_witness:
  "\<exists>s'. uv_tcpserver_onread (ex_env 200) 7 2 (Some [65, 66]) (uv_tcpconn_new (ex_env 100) 7 ex_srv) = Inr s'
     \<and> ev_timeout (s_ns s' 7) = 200 \<and> 7 \<in> set (mh_elems (s_minheap s'))"
  using onread_refreshes [OF ex_env_ok [of 200] ex_conn_inv, of 7 LUA_NOREF 2 "[65, 66]"]
  by (auto simp: ex_conn_fields minheap_init_def) (auto simp: ex_env_def)

text \<open>
  A new connection is either admitted (reading is started and it enters the heap with
  the present time) or closed with the heap untouched; it is admitted exactly when
  \<open>uv_accept\<close> and \<open>uv_read_start\<close> succeed and there is no \<open>onconn\<close> callback or the callback
  succeeds and returns nothing or a last value of \<open>true\<close>.
\<close>

theorem onconnection_admits_or_closes:
  assumes "env_ok env" "srv_inv s Op" "p \<notin> Op" "hn (s_minheap s) + 1 < 2 ^ 31" "s_onconn s = Some onconn"
    "\<forall>n. e_al env n"
  shows "\<exists>s'. lua_tcpserver_onconnection env p accept read_start 0 s = Inr s' \<and> srv_inv s' (insert p Op)
     \<and> (if conn_admitted env p onconn accept read_start s
        then Ev_read_start p \<in> set (s_log s') \<and> ev_timeout (s_ns s' p) = e_now env
          \<and> mset (mh_elems (s_minheap s')) = add_mset p (mset (mh_elems (s_minheap s)))
        else last (s_log s') = Ev_close p True \<and> s_minheap s' = s_minheap s)"
  using onconnection_ok [OF assms(1-5), of accept read_start] assms(6) by (auto split: if_splits)

theorem onconnection_admits_or_closes_witness:
  "\<exists>s'. lua_tcpserver_onconnection (ex_env 100) 7 0 0 0 ex_srv = Inr s'
     \<and> Ev_read_start 7 \<in> set (s_log s') \<and> mset (mh_elems (s_minheap s')) = {#7#}"
  using onconnection_admits_or_closes [OF ex_env_ok [of 100] ex_srv_inv, of 7 LUA_NOREF 0 0]
  by (auto simp: conn_admitted_def ex_srv_def minheap_init_def mh_elems_def) (auto simp: ex_env_def)

text \<open>
  When a connection is closed, its node leaves the heap (if it is still there), its
  reference and its decoder's are released, and every other connection keeps its
  place, its object and its decoder.
\<close>

theorem onconnclose_releases:
  assumes "env_ok env" "srv_inv s Op" "p \<in> Op" "s_onclose s = Some onclose"
  shows "\<exists>s'. uv_tcpserver_onconnclose env p s = Inr s' \<and> srv_inv s' (Op - {p})
     \<and> mset (mh_elems (s_minheap s')) = mset (mh_elems (s_minheap s)) - {#p#}"
  using assms by (rule onconnclose_ok)

theorem onconnclose_releases_witness:
  "\<exists>s'. uv_tcpserver_onconnclose (ex_env 200) 7 (uv_tcpconn_new (ex_env 100) 7 ex_srv) = Inr s'
     \<and> srv_inv s' {} \<and> mset (mh_elems (s_minheap s')) = {#}"
  using onconnclose_releases [OF ex_env_ok [of 200] ex_conn_inv, of 7 LUA_NOREF]
  by (auto simp: ex_conn_fields minheap_init_def mh_elems_def)

text \<open>
  C33. Collecting the server closes every connection that is in the heap exactly once,
  releases its object, and leaves the heap empty.
\<close>

theorem server_gc_closes_all:
  assumes "srv_inv s Op"
  shows "\<exists>s' es. uv_server_gc s = Inr (s', LBool True) \<and> srv_inv s' (Op - set es)
     \<and> minheap_empty (s_minheap s') \<and> s_log s' = s_log s @ map (\<lambda>p. Ev_close p False) es
     \<and> mset es = mset (mh_elems (s_minheap s))"
  using gc_loop_ok [OF assms] by (auto simp: uv_server_gc_def)

theorem server_gc_closes_all_witness:
  "\<exists>s s' es. lua_tcpserver_onconnection (ex_env 100) 7 0 0 0 ex_srv = Inr s
     \<and> uv_server_gc s = Inr (s', LBool True) \<and> minheap_empty (s_minheap s')
     \<and> s_log s' = s_log s @ map (\<lambda>p. Ev_close p False) es \<and> mset es = {#7#}"
proof -
  obtain s where s: "lua_tcpserver_onconnection (ex_env 100) 7 0 0 0 ex_srv = Inr s" "srv_inv s {7}"
    "mset (mh_elems (s_minheap s)) = {#7#}"
    using onconnection_ok [OF ex_env_ok [of 100] ex_srv_inv, of 7 LUA_NOREF 0 0]
    by (auto simp: conn_admitted_def ex_srv_def) (auto simp: ex_env_def)
  with server_gc_closes_all [OF s(2)] show ?thesis by auto
qed

end
