(* ===== verification/UvTimer.thy ===== *)
theory UvTimer
  imports Prelude "HOL-Library.Multiset"
begin

text \<open>
  The timers of \<open>libuv/src/unix/timer.c\<close>. A handle is named by its address. The loop's
  timer heap is represented by the list of the handles in it, in no particular order;
  \<open>heap_min\<close> is the contract of the binary heap of \<open>heap-inl.h\<close> (which theory HeapInl
  proves of its code): the least handle under \<open>timer_less_than\<close>. Times are 64-bit words. A callback is named by a number; running it is
  recorded, and its effect on the loop is a parameter.
\<close>

type_synonym thandle = nat

record uv_timer_t =
  t_active :: bool
  timer_cb :: "nat option"
  t_timeout :: u64
  t_repeat :: u64
  start_id :: u64

record uv_loop_t =
  l_time :: u64
  timer_counter :: u64
  l_timers :: "thandle \<Rightarrow> uv_timer_t"
  timer_heap :: "thandle list"
  fired :: "thandle list"

definition EINVAL :: int where
  "EINVAL = 22"

definition timer_less_than :: "uv_timer_t \<Rightarrow> uv_timer_t \<Rightarrow> bool" where
  "timer_less_than a b =
     (if t_timeout a < t_timeout b then True
      else if t_timeout b < t_timeout a then False
      else if start_id a < start_id b then True
      else if start_id b < start_id a then False
      else False)"

fun least :: "('a \<Rightarrow> 'a \<Rightarrow> bool) \<Rightarrow> 'a \<Rightarrow> 'a list \<Rightarrow> 'a" where
  "least lt x [] = x"
| "least lt x (y # ys) = least lt (if lt y x then y else x) ys"

definition heap_min :: "uv_loop_t \<Rightarrow> thandle option" where
  "heap_min lp = (case timer_heap lp of [] \<Rightarrow> None
     | h # hs \<Rightarrow> Some (least (\<lambda>a b. timer_less_than (l_timers lp a) (l_timers lp b)) h hs))"

definition upd_timer :: "thandle \<Rightarrow> (uv_timer_t \<Rightarrow> uv_timer_t) \<Rightarrow> uv_loop_t \<Rightarrow> uv_loop_t" where
  "upd_timer h f lp = lp\<lparr>l_timers := (l_timers lp)(h := f (l_timers lp h))\<rparr>"

definition uv_timer_init :: "thandle \<Rightarrow> uv_loop_t \<Rightarrow> uv_loop_t \<times> int" where
  "uv_timer_init h lp = (upd_timer h (\<lambda>t. t\<lparr>t_active := False, timer_cb := None, t_repeat := 0\<rparr>) lp, 0)"

definition uv_timer_stop :: "thandle \<Rightarrow> uv_loop_t \<Rightarrow> uv_loop_t \<times> int" where
  "uv_timer_stop h lp =
     (if \<not> t_active (l_timers lp h) then (lp, 0)
      else ((upd_timer h (\<lambda>t. t\<lparr>t_active := False\<rparr>) lp)\<lparr>timer_heap := remove1 h (timer_heap lp)\<rparr>, 0))"

definition clamped_timeout :: "u64 \<Rightarrow> u64 \<Rightarrow> u64" where
  "clamped_timeout time timeout = (if time + timeout < timeout then -1 else time + timeout)"

definition uv_timer_start ::
    "thandle \<Rightarrow> nat option \<Rightarrow> u64 \<Rightarrow> u64 \<Rightarrow> uv_loop_t \<Rightarrow> uv_loop_t \<times> int" where
  "uv_timer_start h cb timeout repeat lp =
     (case cb of
        None \<Rightarrow> (lp, - EINVAL)
      | Some c \<Rightarrow>
          let lp1 = (if t_active (l_timers lp h) then fst (uv_timer_stop h lp) else lp);
              lp2 = upd_timer h (\<lambda>t. t\<lparr>timer_cb := Some c, t_timeout := clamped_timeout (l_time lp1) timeout,
                      t_repeat := repeat, start_id := timer_counter lp1\<rparr>) lp1;
              lp3 = lp2\<lparr>timer_counter := timer_counter lp2 + 1, timer_heap := h # timer_heap lp2\<rparr>
          in (upd_timer h (\<lambda>t. t\<lparr>t_active := True\<rparr>) lp3, 0))"

definition uv_timer_again :: "thandle \<Rightarrow> uv_loop_t \<Rightarrow> uv_loop_t \<times> int" where
  "uv_timer_again h lp =
     (if timer_cb (l_timers lp h) = None then (lp, - EINVAL)
      else if t_repeat (l_timers lp h) \<noteq> 0
      then let lp1 = fst (uv_timer_stop h lp); t = l_timers lp1 h
           in (fst (uv_timer_start h (timer_cb t) (t_repeat t) (t_repeat t) lp1), 0)
      else (lp, 0))"

definition uv_timer_set_repeat :: "thandle \<Rightarrow> u64 \<Rightarrow> uv_loop_t \<Rightarrow> uv_loop_t" where
  "uv_timer_set_repeat h repeat lp = upd_timer h (\<lambda>t. t\<lparr>t_repeat := repeat\<rparr>) lp"

definition uv_timer_get_repeat :: "thandle \<Rightarrow> uv_loop_t \<Rightarrow> u64" where
  "uv_timer_get_repeat h lp = t_repeat (l_timers lp h)"

definition uv_next_timeout :: "uv_loop_t \<Rightarrow> int" where
  "uv_next_timeout lp =
     (case heap_min lp of
        None \<Rightarrow> -1
      | Some h \<Rightarrow>
          let t = t_timeout (l_timers lp h)
          in if t \<le> l_time lp then 0
             else let diff = t - l_time lp
                  in if diff > 2147483647 then 2147483647 else uint diff)"

definition uv_timer_close :: "thandle \<Rightarrow> uv_loop_t \<Rightarrow> uv_loop_t" where
  "uv_timer_close h lp = fst (uv_timer_stop h lp)"

text \<open>
  \<open>uv__run_timers\<close>. A callback may start timers that are due at once, so that the loop need
  not end; \<open>fuel\<close> bounds its iterations.
\<close>

fun uv_run_timers :: "(thandle \<Rightarrow> uv_loop_t \<Rightarrow> uv_loop_t) \<Rightarrow> nat \<Rightarrow> uv_loop_t \<Rightarrow> uv_loop_t res" where
  "uv_run_timers cb 0 lp = Inl Out_of_fuel"
| "uv_run_timers cb (Suc fuel) lp =
     (case heap_min lp of
        None \<Rightarrow> Inr lp
      | Some h \<Rightarrow>
          if t_timeout (l_timers lp h) > l_time lp then Inr lp
          else let lp1 = fst (uv_timer_again h (fst (uv_timer_stop h lp)))
               in uv_run_timers cb fuel (cb h (lp1\<lparr>fired := fired lp1 @ [h]\<rparr>)))"

section \<open>Invariant\<close>

text \<open>The heap holds the active handles, each once; an active handle has a callback.\<close>

definition timers_inv :: "uv_loop_t \<Rightarrow> bool" where
  "timers_inv lp \<longleftrightarrow> distinct (timer_heap lp)
     \<and> (\<forall>h. t_active (l_timers lp h) \<longleftrightarrow> h \<in> set (timer_heap lp))
     \<and> (\<forall>h. t_active (l_timers lp h) \<longrightarrow> timer_cb (l_timers lp h) \<noteq> None)"

lemmas timer_defs = uv_timer_stop_def uv_timer_start_def uv_timer_again_def uv_timer_init_def
  uv_timer_set_repeat_def upd_timer_def Let_def

lemma timers_inv_stop: "timers_inv lp \<Longrightarrow> timers_inv (fst (uv_timer_stop h lp))"
  by (auto simp: timers_inv_def timer_defs)

lemma stop_inactive: "\<not> t_active (l_timers (fst (uv_timer_stop h lp)) h)"
  by (simp add: timer_defs)

lemma timers_inv_start: "timers_inv lp \<Longrightarrow> timers_inv (fst (uv_timer_start h cb to rp lp))"
proof (cases cb)
  case (Some c)
  assume inv: "timers_inv lp"
  define lp1 where "lp1 = (if t_active (l_timers lp h) then fst (uv_timer_stop h lp) else lp)"
  have "timers_inv lp1" "\<not> t_active (l_timers lp1 h)"
    using inv timers_inv_stop [OF inv, of h] stop_inactive [of h lp] by (simp_all add: lp1_def)
  then show ?thesis
    using Some unfolding uv_timer_start_def Let_def lp1_def [symmetric]
    by (auto simp: timers_inv_def upd_timer_def)
qed (simp add: uv_timer_start_def)

lemma timers_inv_again: "timers_inv lp \<Longrightarrow> timers_inv (fst (uv_timer_again h lp))"
  by (auto simp: uv_timer_again_def Let_def intro: timers_inv_stop timers_inv_start)

section \<open>Running the due timers\<close>

lemma timer_less_trans:
  "\<not> timer_less_than b a \<Longrightarrow> \<not> timer_less_than c b \<Longrightarrow> \<not> timer_less_than c a"
  by (auto simp: timer_less_than_def split: if_splits)

lemma timer_less_asym: "timer_less_than a b \<Longrightarrow> \<not> timer_less_than b a"
  by (auto simp: timer_less_than_def split: if_splits)

lemma least_ok:
  assumes "\<And>a b c. \<not> lt b a \<Longrightarrow> \<not> lt c b \<Longrightarrow> \<not> lt c a" "\<And>a b. lt a b \<Longrightarrow> \<not> lt b a"
  shows "least lt x ys \<in> set (x # ys) \<and> (\<forall>y\<in>set (x # ys). \<not> lt y (least lt x ys))"
proof (induction ys arbitrary: x)
  case Nil
  then show ?case using assms(2) by auto
next
  case (Cons y ys)
  define z where "z = (if lt y x then y else x)"
  have l: "least lt z ys \<in> set (z # ys)" "\<forall>w\<in>set (z # ys). \<not> lt w (least lt z ys)" using Cons [of z] by auto
  have "\<not> lt x z" "\<not> lt y z" using assms(2) by (auto simp: z_def)
  with l(2) assms(1) have "\<not> lt x (least lt z ys)" "\<not> lt y (least lt z ys)" by (meson list.set_intros(1))+
  with l show ?case by (auto simp: z_def)
qed

lemma heap_min_ok:
  assumes "heap_min lp = Some h"
  shows "h \<in> set (timer_heap lp)
     \<and> (\<forall>x\<in>set (timer_heap lp). \<not> timer_less_than (l_timers lp x) (l_timers lp h))"
proof -
  define lt where "lt = (\<lambda>a b. timer_less_than (l_timers lp a) (l_timers lp b))"
  obtain x ys where x: "timer_heap lp = x # ys" "h = least lt x ys"
    using assms by (cases "timer_heap lp") (auto simp: heap_min_def lt_def)
  have "least lt x ys \<in> set (x # ys) \<and> (\<forall>y\<in>set (x # ys). \<not> lt y (least lt x ys))"
    by (rule least_ok) (auto simp: lt_def dest: timer_less_trans timer_less_asym)
  then show ?thesis unfolding x unfolding lt_def .
qed

lemma heap_min_None: "heap_min lp = None \<longleftrightarrow> timer_heap lp = []"
  by (cases "timer_heap lp") (simp_all add: heap_min_def)

lemma not_less_timeout: "\<not> timer_less_than a b \<Longrightarrow> t_timeout b \<le> t_timeout a"
  by (auto simp: timer_less_than_def not_less split: if_splits)

lemma clamped_future:
  assumes "time \<noteq> -1" "r \<noteq> 0" shows "time < clamped_timeout time r"
proof (cases "time + r < r")
  case True
  then show ?thesis using assms(1) word_order.not_eq_extremum [of time] by (simp add: clamped_timeout_def)
next
  case False
  have r: "0 < unat r" using assms(2) by (simp add: unat_gt_0)
  have "unat time + unat r < 2 ^ 64"
  proof (rule ccontr)
    assume a: "\<not> unat time + unat r < 2 ^ 64"
    have b: "unat time < 2 ^ 64" "unat r < 2 ^ 64"
      using unsigned_less [of time, where 'a = nat] unsigned_less [of r, where 'a = nat] by simp_all
    have "unat (time + r) = (unat time + unat r) mod 2 ^ 64" by (simp add: unat_word_ariths)
    also have "\<dots> = unat time + unat r - 2 ^ 64"
      using a b by (subst le_mod_geq) simp_all
    finally have "unat (time + r) < unat r" using a b by linarith
    with False show False by (simp add: word_less_nat_alt)
  qed
  then have "unat (time + r) = unat time + unat r" by (simp add: unat_word_ariths)
  with r False show ?thesis by (simp add: clamped_timeout_def word_less_nat_alt)
qed

definition due :: "uv_loop_t \<Rightarrow> thandle \<Rightarrow> bool" where
  "due lp h \<longleftrightarrow> t_timeout (l_timers lp h) \<le> l_time lp"

text \<open>Stopping and restarting the handle \<open>h\<close> that is in the heap.\<close>

lemma restart_ok:
  assumes "timers_inv lp" "h \<in> set (timer_heap lp)" "l_time lp \<noteq> -1"
  defines "lp1 \<equiv> fst (uv_timer_again h (fst (uv_timer_stop h lp)))"
  shows "timers_inv lp1" "l_time lp1 = l_time lp" "fired lp1 = fired lp"
    "x \<noteq> h \<Longrightarrow> l_timers lp1 x = l_timers lp x"
    "t_repeat (l_timers lp1 h) = t_repeat (l_timers lp h)"
    "t_repeat (l_timers lp h) = 0 \<Longrightarrow> timer_heap lp1 = remove1 h (timer_heap lp) \<and> \<not> t_active (l_timers lp1 h)"
    "t_repeat (l_timers lp h) \<noteq> 0 \<Longrightarrow> timer_heap lp1 = h # remove1 h (timer_heap lp) \<and> \<not> due lp1 h
        \<and> t_timeout (l_timers lp1 h) = clamped_timeout (l_time lp) (t_repeat (l_timers lp h))"
proof -
  have act: "t_active (l_timers lp h)" "timer_cb (l_timers lp h) \<noteq> None"
    using assms(1,2) by (auto simp: timers_inv_def)
  then obtain c where c: "timer_cb (l_timers lp h) = Some c" by auto
  have dis: "distinct (timer_heap lp)" using assms(1) by (simp add: timers_inv_def)
  show "timers_inv lp1" unfolding lp1_def by (intro timers_inv_again timers_inv_stop assms(1))
  show "l_time lp1 = l_time lp" "fired lp1 = fired lp" "x \<noteq> h \<Longrightarrow> l_timers lp1 x = l_timers lp x"
    "t_repeat (l_timers lp1 h) = t_repeat (l_timers lp h)"
    using act(1) c by (simp_all add: lp1_def timer_defs)
  show "timer_heap lp1 = remove1 h (timer_heap lp) \<and> \<not> t_active (l_timers lp1 h)" if "t_repeat (l_timers lp h) = 0"
    using that act(1) c by (simp add: lp1_def timer_defs)
  show "timer_heap lp1 = h # remove1 h (timer_heap lp) \<and> \<not> due lp1 h
      \<and> t_timeout (l_timers lp1 h) = clamped_timeout (l_time lp) (t_repeat (l_timers lp h))"
    if "t_repeat (l_timers lp h) \<noteq> 0"
    using that act(1) c clamped_future [OF assms(3) that] by (simp add: lp1_def timer_defs due_def)
qed

text \<open>What is left of a pass once the first timer has been stopped, started again and fired.\<close>

lemma first_fired:
  assumes inv: "timers_inv lp" and time: "l_time lp \<noteq> -1" and min: "heap_min lp = Some h" and h: "due lp h"
  defines "lp1 \<equiv> fst (uv_timer_again h (fst (uv_timer_stop h lp)))"
  defines "lp2 \<equiv> lp1\<lparr>fired := fired lp1 @ [h]\<rparr>"
  shows "timers_inv lp2" "l_time lp2 = l_time lp" "fired lp2 = fired lp @ [h]" "x \<noteq> h \<Longrightarrow> l_timers lp2 x = l_timers lp x"
    "filter (due lp2) (timer_heap lp2) = filter (due lp) (remove1 h (timer_heap lp))"
    "mset (filter (due lp) (timer_heap lp)) = add_mset h (mset (filter (due lp2) (timer_heap lp2)))"
    "if t_repeat (l_timers lp h) = 0 then \<not> t_active (l_timers lp2 h)
     else t_active (l_timers lp2 h) \<and> t_timeout (l_timers lp2 h) = clamped_timeout (l_time lp) (t_repeat (l_timers lp h))"
proof -
  have hin: "h \<in> set (timer_heap lp)" using heap_min_ok [OF min] by simp
  note r = restart_ok [OF inv hin time, folded lp1_def]
  have dis: "distinct (timer_heap lp)" using inv by (simp add: timers_inv_def)
  show "timers_inv lp2" using r(1) by (simp add: lp2_def timers_inv_def)
  show "l_time lp2 = l_time lp" "fired lp2 = fired lp @ [h]" using r(2,3) by (simp_all add: lp2_def)
  show same: "l_timers lp2 x = l_timers lp x" if "x \<noteq> h" for x using r(4) [OF that] by (simp add: lp2_def)
  have "due lp2 x = due lp x" if "x \<noteq> h" for x using same [OF that] r(2) by (simp add: due_def lp2_def)
  then have "filter (due lp2) (remove1 h (timer_heap lp)) = filter (due lp) (remove1 h (timer_heap lp))"
    using dis by (intro filter_cong) auto
  moreover have "filter (due lp2) (timer_heap lp2) = filter (due lp2) (remove1 h (timer_heap lp))"
    using r(6,7) by (cases "t_repeat (l_timers lp h) = 0") (auto simp: lp2_def due_def)
  ultimately show flt: "filter (due lp2) (timer_heap lp2) = filter (due lp) (remove1 h (timer_heap lp))" by simp
  have "mset (timer_heap lp) = add_mset h (mset (remove1 h (timer_heap lp)))" using hin by simp
  from arg_cong [OF this, of "filter_mset (due lp)"]
  have "filter_mset (due lp) (mset (timer_heap lp)) = add_mset h (filter_mset (due lp) (mset (remove1 h (timer_heap lp))))"
    by (simp only: filter_mset_add_mset h if_True)
  then show "mset (filter (due lp) (timer_heap lp)) = add_mset h (mset (filter (due lp2) (timer_heap lp2)))"
    by (simp only: flt mset_filter)
  show "if t_repeat (l_timers lp h) = 0 then \<not> t_active (l_timers lp2 h)
     else t_active (l_timers lp2 h) \<and> t_timeout (l_timers lp2 h) = clamped_timeout (l_time lp) (t_repeat (l_timers lp h))"
    using r(1,6,7) by (auto simp: lp2_def timers_inv_def)
qed

text \<open>
  What a callback may do to the timers of the loop for a pass to end: it may stop timers and
  start others, as long as none that it starts is due at once.  The calls of the timer
  interface are shown to be of this kind.
\<close>

definition due_set :: "uv_loop_t \<Rightarrow> thandle set" where
  "due_set lp = {x \<in> set (timer_heap lp). due lp x}"

definition quiet :: "uv_loop_t \<Rightarrow> uv_loop_t \<Rightarrow> bool" where
  "quiet lp lp' \<longleftrightarrow> timers_inv lp' \<and> l_time lp' = l_time lp \<and> fired lp' = fired lp \<and>
     (\<forall>x\<in>due_set lp'. x \<in> due_set lp \<and> t_timeout (l_timers lp' x) = t_timeout (l_timers lp x)
        \<and> start_id (l_timers lp' x) = start_id (l_timers lp x))"

definition cb_ok :: "(thandle \<Rightarrow> uv_loop_t \<Rightarrow> uv_loop_t) \<Rightarrow> bool" where
  "cb_ok cb \<longleftrightarrow> (\<forall>h lp. timers_inv lp \<longrightarrow> l_time lp \<noteq> -1 \<longrightarrow> quiet lp (cb h lp))"

definition untouched :: "(thandle \<Rightarrow> uv_loop_t \<Rightarrow> uv_loop_t) \<Rightarrow> thandle \<Rightarrow> bool" where
  "untouched cb x \<longleftrightarrow> (\<forall>h lp. l_timers (cb h lp) x = l_timers lp x)"

lemma quiet_refl: "timers_inv lp \<Longrightarrow> quiet lp lp"
  by (simp add: quiet_def)

lemma quiet_trans: "quiet lp1 lp2 \<Longrightarrow> quiet lp2 lp3 \<Longrightarrow> quiet lp1 lp3"
  unfolding quiet_def by (elim conjE) (intro conjI ballI, simp_all)

lemma quiet_stop: "timers_inv lp \<Longrightarrow> quiet lp (fst (uv_timer_stop h lp))"
  using timers_inv_stop [of lp h]
  by (auto simp: quiet_def due_set_def due_def timer_defs timers_inv_def)

lemma quiet_set_repeat: "timers_inv lp \<Longrightarrow> quiet lp (uv_timer_set_repeat h r lp)"
  by (auto simp: quiet_def due_set_def due_def timer_defs timers_inv_def)

lemma quiet_start:
  assumes inv: "timers_inv lp" and time: "l_time lp \<noteq> -1" and "timeout \<noteq> 0"
  shows "quiet lp (fst (uv_timer_start h cb timeout rep lp))"
proof (cases cb)
  case (Some c)
  let ?lp = "fst (uv_timer_start h cb timeout rep lp)"
  have t: "l_time ?lp = l_time lp" "fired ?lp = fired lp" "t_timeout (l_timers ?lp h) = clamped_timeout (l_time lp) timeout"
    using Some by (simp_all add: timer_defs)
  have o: "l_timers ?lp x = l_timers lp x" if "x \<noteq> h" for x using Some that by (simp add: timer_defs)
  have "x \<in> set (timer_heap ?lp) \<longrightarrow> x = h \<or> x \<in> set (timer_heap lp)" for x
    using Some by (auto simp: timer_defs dest: notin_set_remove1 split: if_splits)
  moreover have "\<not> due ?lp h" using t(1,3) clamped_future [OF time assms(3)] by (simp add: due_def)
  ultimately have "x \<noteq> h \<and> x \<in> due_set lp" if "x \<in> due_set ?lp" for x
    using that o [of x] t(1) by (cases "x = h") (auto simp: due_set_def due_def)
  then show ?thesis using timers_inv_start [OF inv] t(1,2) o by (simp add: quiet_def)
qed (use inv in \<open>simp add: uv_timer_start_def quiet_refl\<close>)

lemma quiet_again:
  assumes inv: "timers_inv lp" and time: "l_time lp \<noteq> -1"
  shows "quiet lp (fst (uv_timer_again h lp))"
proof -
  have t: "l_time (fst (uv_timer_stop h lp)) = l_time lp" by (simp add: timer_defs)
  have "quiet lp (fst (uv_timer_start h c r r (fst (uv_timer_stop h lp))))" if "r \<noteq> 0" for c r
    using quiet_trans [OF quiet_stop [OF inv] quiet_start [OF timers_inv_stop [OF inv]]] time t that by simp
  then show ?thesis using inv by (simp add: uv_timer_again_def Let_def quiet_refl timer_defs(1) upd_timer_def split: if_splits)
qed

lemma due_set_card: "timers_inv lp \<Longrightarrow> length (filter (due lp) (timer_heap lp)) = card (due_set lp)"
  by (simp add: due_set_def timers_inv_def distinct_card [symmetric])

lemma less_than_keys:
  "t_timeout a' = t_timeout a \<Longrightarrow> start_id a' = start_id a \<Longrightarrow> t_timeout b' = t_timeout b \<Longrightarrow> start_id b' = start_id b \<Longrightarrow>
     timer_less_than a' b' = timer_less_than a b"
  by (simp add: timer_less_than_def)

text \<open>A timer that no callback touches: it is fired exactly when it is due.\<close>

definition served :: "uv_loop_t \<Rightarrow> thandle list \<Rightarrow> uv_loop_t \<Rightarrow> thandle \<Rightarrow> bool" where
  "served lp es lp' x \<longleftrightarrow> (x \<in> set es \<longleftrightarrow> x \<in> due_set lp) \<and>
     (if x \<notin> set es then l_timers lp' x = l_timers lp x
      else if t_repeat (l_timers lp x) = 0 then \<not> t_active (l_timers lp' x)
      else t_active (l_timers lp' x)
        \<and> t_timeout (l_timers lp' x) = clamped_timeout (l_time lp) (t_repeat (l_timers lp x)))"

lemma served_step:
  assumes inv: "timers_inv lp2" "timers_inv lp3" and t: "l_time lp2 = l_time lp" "l_time lp3 = l_time lp"
    and same: "\<And>x. x \<noteq> h \<Longrightarrow> l_timers lp2 x = l_timers lp x" and x: "l_timers lp3 x = l_timers lp2 x"
    and h: "h \<in> due_set lp" and d: "due_set lp2 = due_set lp - {h}"
    and hr: "if t_repeat (l_timers lp h) = 0 then \<not> t_active (l_timers lp2 h)
      else t_active (l_timers lp2 h) \<and> t_timeout (l_timers lp2 h) = clamped_timeout (l_time lp) (t_repeat (l_timers lp h))"
    and s: "served lp3 es lp' x"
  shows "served lp (h # es) lp' x"
proof -
  have "x \<in> set (timer_heap lp3) \<longleftrightarrow> t_active (l_timers lp3 x)" "x \<in> set (timer_heap lp2) \<longleftrightarrow> t_active (l_timers lp2 x)"
    using inv by (simp_all add: timers_inv_def)
  then have m: "x \<in> due_set lp3 \<longleftrightarrow> x \<in> due_set lp2" using x t by (simp add: due_set_def due_def)
  show ?thesis
  proof (cases "x = h")
    case True
    then have "x \<notin> set es" using s m d by (simp add: served_def)
    then show ?thesis using s True h hr x by (simp add: served_def)
  next
    case False
    then show ?thesis using s m d same [OF False] x t by (simp add: served_def)
  qed
qed

lemma run_timers_ok:
  assumes "timers_inv lp" "l_time lp \<noteq> -1" "card (due_set lp) < fuel" and cb: "cb_ok cb"
  shows "\<exists>lp' es. uv_run_timers cb fuel lp = Inr lp' \<and> fired lp' = fired lp @ es
     \<and> distinct es \<and> set es \<subseteq> due_set lp
     \<and> sorted_wrt (\<lambda>a b. \<not> timer_less_than (l_timers lp b) (l_timers lp a)) es
     \<and> timers_inv lp' \<and> l_time lp' = l_time lp \<and> due_set lp' = {}
     \<and> (\<forall>x. untouched cb x \<longrightarrow> served lp es lp' x)"
  using assms(1-3)
proof (induction fuel arbitrary: lp)
  case (Suc fuel)
  show ?case
  proof (cases "heap_min lp")
    case None
    then have "due_set lp = {}" "uv_run_timers cb (Suc fuel) lp = Inr lp" using heap_min_None [of lp] by (simp_all add: due_set_def)
    then show ?thesis using Suc.prems(1) by (intro exI [of _ lp] exI [of _ "[]"]) (simp add: served_def)
  next
    case (Some h)
    note hm = heap_min_ok [OF Some]
    show ?thesis
    proof (cases "due lp h")
      case False
      have "\<not> due lp x" if "x \<in> set (timer_heap lp)" for x
        using hm that not_less_timeout [of "l_timers lp x" "l_timers lp h"] False by (fastforce simp: due_def)
      then have "due_set lp = {}" "uv_run_timers cb (Suc fuel) lp = Inr lp" using Some False by (auto simp: due_set_def due_def not_le)
      then show ?thesis using Suc.prems(1) by (intro exI [of _ lp] exI [of _ "[]"]) (simp add: served_def)
    next
      case True
      define lp1 where "lp1 = fst (uv_timer_again h (fst (uv_timer_stop h lp)))"
      define lp2 where "lp2 = lp1\<lparr>fired := fired lp1 @ [h]\<rparr>"
      define lp3 where "lp3 = cb h lp2"
      note r = first_fired [OF Suc.prems(1,2) Some True, folded lp1_def, folded lp2_def]
      have dis: "distinct (timer_heap lp)" using Suc.prems(1) by (simp add: timers_inv_def)
      have hd: "h \<in> due_set lp" using hm True by (simp add: due_set_def)
      have d2: "due_set lp2 = due_set lp - {h}"
        using arg_cong [OF r(5), of set] dis by (auto simp: due_set_def)
      have q: "quiet lp2 lp3" using cb r(1,2) Suc.prems(2) by (simp add: cb_ok_def lp3_def)
      then have q3: "timers_inv lp3" "l_time lp3 = l_time lp" "fired lp3 = fired lp @ [h]" "due_set lp3 \<subseteq> due_set lp - {h}"
        and key: "\<And>x. x \<in> due_set lp3 \<Longrightarrow> t_timeout (l_timers lp3 x) = t_timeout (l_timers lp x) \<and> start_id (l_timers lp3 x) = start_id (l_timers lp x)"
        using r(2,3,4) d2 by (auto simp: quiet_def)
      have fin: "finite (due_set lp)" by (simp add: due_set_def)
      have "card (due_set lp3) \<le> card (due_set lp - {h})" using fin by (intro card_mono q3(4)) simp
      then have "card (due_set lp3) < fuel" using Suc.prems(3) hd fin card_gt_0_iff [of "due_set lp"] by (auto simp: card_Diff_singleton)
      from Suc.IH [OF q3(1) _ this] obtain lp' es where IH: "uv_run_timers cb fuel lp3 = Inr lp'" "fired lp' = fired lp3 @ es"
        "distinct es" "set es \<subseteq> due_set lp3" "sorted_wrt (\<lambda>a b. \<not> timer_less_than (l_timers lp3 b) (l_timers lp3 a)) es"
        "timers_inv lp'" "l_time lp' = l_time lp3" "due_set lp' = {}" "\<forall>x. untouched cb x \<longrightarrow> served lp3 es lp' x"
        using q3(2) Suc.prems(2) by auto
      have "timer_less_than (l_timers lp3 b) (l_timers lp3 a) = timer_less_than (l_timers lp b) (l_timers lp a)" if "a \<in> set es" "b \<in> set es" for a b
        using key [of a] key [of b] IH(4) that by (intro less_than_keys) auto
      then have "sorted_wrt (\<lambda>a b. \<not> timer_less_than (l_timers lp b) (l_timers lp a)) es"
        using IH(5) by (intro sorted_wrt_mono_rel [OF _ IH(5)]) auto
      then have "sorted_wrt (\<lambda>a b. \<not> timer_less_than (l_timers lp b) (l_timers lp a)) (h # es)"
        using hm IH(4) q3(4) by (auto simp: due_set_def)
      moreover have "served lp (h # es) lp' x" if "untouched cb x" for x
        using IH(9) that by (intro served_step [OF r(1) q3(1) r(2) q3(2) r(4) _ hd d2 r(7)]) (simp_all add: untouched_def lp3_def)
      moreover have "uv_run_timers cb (Suc fuel) lp = Inr lp'"
        using Some True IH(1) by (simp add: due_def not_less lp3_def lp2_def lp1_def Let_def)
      moreover have "distinct (h # es)" "set (h # es) \<subseteq> due_set lp" using IH(3,4) q3(4) hd by auto
      ultimately show ?thesis using IH(2,6,7,8) q3(2,3) by (intro exI [of _ lp'] exI [of _ "h # es"]) simp
    qed
  qed
qed simp

text \<open>
  C18. A pass over the timers ends, for all callbacks that start no timer that is due at once
  and at every time but the last of the 64-bit clock: it runs callbacks of timers that were
  due, each once, in the order of timeout and start, and afterwards no timer is due.  A timer
  that the callbacks leave alone is run exactly when it was due; a one-shot timer is inactive
  afterwards, and a repeating one is active again at the present time plus its interval
  (clamped).
\<close>

theorem run_timers_fires_due:
  assumes "timers_inv lp" and "l_time lp \<noteq> -1" and "cb_ok cb" and "length (timer_heap lp) < fuel"
  shows "\<exists>lp' es. uv_run_timers cb fuel lp = Inr lp' \<and> fired lp' = fired lp @ es
     \<and> distinct es \<and> (\<forall>x\<in>set es. x \<in> set (timer_heap lp) \<and> due lp x)
     \<and> sorted_wrt (\<lambda>a b. \<not> timer_less_than (l_timers lp b) (l_timers lp a)) es
     \<and> timers_inv lp' \<and> (\<forall>x\<in>set (timer_heap lp'). \<not> due lp' x)
     \<and> (\<forall>x. (\<forall>h lp. l_timers (cb h lp) x = l_timers lp x) \<longrightarrow>
          (x \<in> set es \<longleftrightarrow> x \<in> set (timer_heap lp) \<and> due lp x) \<and>
          (if x \<notin> set es then l_timers lp' x = l_timers lp x
           else if t_repeat (l_timers lp x) = 0 then \<not> t_active (l_timers lp' x)
           else t_active (l_timers lp' x)
             \<and> t_timeout (l_timers lp' x) = clamped_timeout (l_time lp) (t_repeat (l_timers lp x))))"
proof -
  have "card (due_set lp) < fuel"
    using assms(4) length_filter_le [of "due lp" "timer_heap lp"] due_set_card [OF assms(1)] by linarith
  from run_timers_ok [OF assms(1,2) this assms(3)] obtain lp' es where
    r: "uv_run_timers cb fuel lp = Inr lp'" "fired lp' = fired lp @ es" "distinct es" "set es \<subseteq> due_set lp"
      "sorted_wrt (\<lambda>a b. \<not> timer_less_than (l_timers lp b) (l_timers lp a)) es" "timers_inv lp'" "due_set lp' = {}"
      "\<forall>x. untouched cb x \<longrightarrow> served lp es lp' x" by blast
  have "\<forall>x\<in>set es. x \<in> set (timer_heap lp) \<and> due lp x" "\<forall>x\<in>set (timer_heap lp'). \<not> due lp' x"
    using r(4,7) by (auto simp: due_set_def)
  moreover note r(8) [unfolded untouched_def served_def due_set_def mem_Collect_eq]
  ultimately show ?thesis using r(1,2,3,5,6) by blast
qed

definition ex_loop :: uv_loop_t where
  "ex_loop = \<lparr>l_time = 100, timer_counter = 3,
     l_timers = (\<lambda>h. \<lparr>t_active = (h = 1 \<or> h = 2), timer_cb = Some h, t_timeout = (if h = 1 then 90 else 200),
        t_repeat = 50, start_id = of_nat h\<rparr>),
     timer_heap = [2, 1], fired = []\<rparr>"

definition ex_cb :: "thandle \<Rightarrow> uv_loop_t \<Rightarrow> uv_loop_t" where
  "ex_cb h lp = fst (uv_timer_start 7 (Some 7) 10 0 (fst (uv_timer_stop 2 lp)))"

lemma ex_cb_ok: "cb_ok ex_cb"
  unfolding cb_ok_def ex_cb_def
proof (intro allI impI)
  fix h lp assume "timers_inv lp" "l_time lp \<noteq> -1"
  then show "quiet lp (fst (uv_timer_start 7 (Some 7) 10 0 (fst (uv_timer_stop 2 lp))))"
    by (intro quiet_trans [OF quiet_stop quiet_start] timers_inv_stop) (simp_all add: timer_defs)
qed

text \<open>The callback stops the timer 2 and starts the timer 7.\<close>

theorem run_timers_fires_due_witness:
  "\<exists>lp' es. uv_run_timers ex_cb 3 ex_loop = Inr lp' \<and> fired lp' = [1] \<and> t_timeout (l_timers lp' 1) = 150 \<and> timers_inv lp'"
proof -
  have inv: "timers_inv ex_loop" by (auto simp: timers_inv_def ex_loop_def)
  have u: "\<forall>h lp. l_timers (ex_cb h lp) 1 = l_timers lp 1" by (simp add: ex_cb_def timer_defs)
  obtain lp' es where r: "uv_run_timers ex_cb 3 ex_loop = Inr lp'" "fired lp' = es" "distinct es" "timers_inv lp'"
    "\<forall>x\<in>set es. x \<in> set (timer_heap ex_loop) \<and> due ex_loop x" "1 \<in> set es" "t_timeout (l_timers lp' 1) = 150"
    using run_timers_fires_due [OF inv _ ex_cb_ok, of 3] u by (auto simp: ex_loop_def due_def clamped_timeout_def)
  have "set es = {1}" using r(5,6) by (auto simp: ex_loop_def due_def)
  moreover have "length es = 1" using distinct_card [OF r(3)] \<open>set es = {1}\<close> by simp
  ultimately have "es = [1]" by (cases es) simp_all
  then show ?thesis using r by blast
qed

text \<open>A callback that starts its own timer with the timeout 0 keeps the pass going for ever.\<close>

definition restarting_cb :: "thandle \<Rightarrow> uv_loop_t \<Rightarrow> uv_loop_t" where
  "restarting_cb h lp = fst (uv_timer_start h (Some 0) 0 0 lp)"

lemma restarting_pass_never_ends:
  assumes "timer_heap lp = [h]" "t_active (l_timers lp h)" "timer_cb (l_timers lp h) \<noteq> None" "t_repeat (l_timers lp h) = 0" "due lp h"
  shows "uv_run_timers restarting_cb fuel lp = Inl Out_of_fuel"
  using assms
proof (induction fuel arbitrary: lp)
  case (Suc fuel)
  define lp1 where "lp1 = fst (uv_timer_again h (fst (uv_timer_stop h lp)))"
  define lp2 where "lp2 = restarting_cb h (lp1\<lparr>fired := fired lp1 @ [h]\<rparr>)"
  have "uv_run_timers restarting_cb fuel lp2 = Inl Out_of_fuel"
  proof (rule Suc.IH)
    show "due lp2 h" using Suc.prems by (auto simp: lp2_def lp1_def restarting_cb_def timer_defs due_def clamped_timeout_def)
  qed (use Suc.prems in \<open>auto simp: lp2_def lp1_def restarting_cb_def timer_defs\<close>)
  then show ?case using Suc.prems(1,5) by (simp add: heap_min_def due_def not_less lp2_def lp1_def Let_def)
qed simp

text \<open>
  C35. The time that the loop may sleep: -1 when there is no timer, and otherwise the time
  until the first timeout, not less than 0 and not more than \<open>INT_MAX\<close>.
\<close>

theorem next_timeout_bounds:
  "uv_next_timeout lp =
     (if timer_heap lp = [] then -1
      else min 2147483647 (Min ((\<lambda>x. max 0 (uint (t_timeout (l_timers lp x)) - uint (l_time lp))) ` set (timer_heap lp))))"
proof (cases "heap_min lp")
  case None
  then show ?thesis by (simp add: uv_next_timeout_def heap_min_None [symmetric])
next
  case (Some h)
  note hm = heap_min_ok [OF Some]
  let ?d = "\<lambda>x. max 0 (uint (t_timeout (l_timers lp x)) - uint (l_time lp))"
  have le: "uint (t_timeout (l_timers lp h)) \<le> uint (t_timeout (l_timers lp x))" if "x \<in> set (timer_heap lp)" for x
    using hm that not_less_timeout [of "l_timers lp x" "l_timers lp h"] by (simp add: word_le_def)
  have min: "Min (?d ` set (timer_heap lp)) = ?d h"
  proof (rule Min_eqI)
    show "?d h \<le> y" if "y \<in> ?d ` set (timer_heap lp)" for y using that le by fastforce
  qed (use hm in auto)
  define t where "t = t_timeout (l_timers lp h)"
  have "uv_next_timeout lp = min 2147483647 (max 0 (uint t - uint (l_time lp)))"
  proof (cases "t \<le> l_time lp")
    case True
    then show ?thesis by (simp add: uv_next_timeout_def Some Let_def t_def [symmetric] word_le_def)
  next
    case False
    then have lt: "l_time lp < t" by simp
    then have d: "uint (t - l_time lp) = uint t - uint (l_time lp)"
      by (simp only: uint_minus_simple_alt [symmetric] less_imp_le)
    have big: "(t - l_time lp > 2147483647) = (uint (t - l_time lp) > 2147483647)" by (simp add: word_less_def)
    have "uv_next_timeout lp = (if uint (t - l_time lp) > 2147483647 then 2147483647 else uint (t - l_time lp))"
      unfolding uv_next_timeout_def Some option.case Let_def t_def [symmetric] big using False by simp
    then show ?thesis using d lt by (simp add: word_less_def min_def max_def)
  qed
  moreover have "timer_heap lp \<noteq> []" using hm by auto
  ultimately show ?thesis using min by (simp add: t_def)
qed

end
