(* ===== verification/UvLua.thy ===== *)
theory UvLua
  imports TcpServer UvTimer
begin

text \<open>
  The loop object and the timers that Lua sees: \<open>libuv-lua/src/uvlua.c\<close>, \<open>timer.c\<close> and
  \<open>uv_alloc\<close> of \<open>utils.c\<close>. A timer or server is named by its address, which also names its
  libuv handle and its node in the heap of the loop; that heap orders the nodes by their
  registry reference and keeps the objects of the loop. Userdata is not cleared when it is
  created: fields not yet assigned are \<open>None\<close>.
\<close>

record luatimer =
  ref_cb :: "int option"
  tm_ref :: "int option"

record lualoop =
  ll_uv :: uv_loop_t
  ll_ns :: nstore
  ll_minheap :: min_heap
  ll_timers :: "ptr \<Rightarrow> luatimer"
  ll_reg :: registry
  ll_calls :: "(lval \<times> lval list) list"

definition uv_alloc :: "nat \<Rightarrow> nat \<times> nat" where
  "uv_alloc suggested_size = (20480, 20480)"

section \<open>Timers\<close>

text \<open>The callback number under which \<open>lua_timer_callback\<close> is known to libuv.\<close>

definition lua_timer_callback_id :: nat where
  "lua_timer_callback_id = 1"

definition lua_timer_callback :: "ptr \<Rightarrow> lualoop \<Rightarrow> lualoop res" where
  "lua_timer_callback p ll =
     res_bind (field_ref (ref_cb (ll_timers ll p))) (\<lambda>cb.
     if cb = LUA_NOREF then Inr ll
     else res_bind (field_ref (tm_ref (ll_timers ll p))) (\<lambda>r.
          if r = LUA_NOREF then Inr ll
          else Inr (ll\<lparr>ll_calls := ll_calls ll @
                 [(lua_rawgeti (ll_reg ll) cb, [lua_rawgeti (ll_reg ll) r])]\<rparr>)))"

definition lua_timer_stop :: "ptr \<Rightarrow> lualoop \<Rightarrow> lualoop \<times> int" where
  "lua_timer_stop p ll = (let (uv, ret) = uv_timer_stop p (ll_uv ll) in (ll\<lparr>ll_uv := uv\<rparr>, ret))"

definition lua_time_start :: "ptr \<Rightarrow> lualoop \<Rightarrow> lualoop \<times> int" where
  "lua_time_start p ll = (let (uv, ret) = uv_timer_again p (ll_uv ll) in (ll\<lparr>ll_uv := uv\<rparr>, ret))"

text \<open>\<open>interval\<close> is \<open>None\<close> when the argument is missing or \<open>nil\<close>; the result is the interval.\<close>

definition lua_time_interval :: "ptr \<Rightarrow> int option \<Rightarrow> lualoop \<Rightarrow> lualoop \<times> u64" where
  "lua_time_interval p interval ll =
     (let uv = (case interval of
                  None \<Rightarrow> ll_uv ll
                | Some repeat \<Rightarrow>
                    if repeat > 0
                    then let restart = t_active (l_timers (ll_uv ll) p);
                             uv1 = (if restart then fst (uv_timer_stop p (ll_uv ll)) else ll_uv ll);
                             uv2 = uv_timer_set_repeat p (of_int repeat) uv1
                         in if restart then fst (uv_timer_again p uv2) else uv2
                    else ll_uv ll)
      in (ll\<lparr>ll_uv := uv\<rparr>, uv_timer_get_repeat p uv))"

text \<open>The result is the timer or the error code.\<close>

definition lua_create_timer ::
    "(nat \<Rightarrow> bool) \<Rightarrow> ptr \<Rightarrow> lval \<Rightarrow> u32 \<Rightarrow> lualoop \<Rightarrow> (lualoop \<times> lval) res" where
  "lua_create_timer al p f timer_val ll =
     (let (uv1, ret1) = uv_timer_init p (ll_uv ll);
          ll0 = ll\<lparr>ll_uv := uv1, ll_timers := (ll_timers ll)(p := \<lparr>ref_cb = None, tm_ref = None\<rparr>)\<rparr>
      in if ret1 = 0
         then let ll1 = ll0\<lparr>ll_timers := (ll_timers ll0)(p := (ll_timers ll0 p)\<lparr>ref_cb := Some LUA_NOREF\<rparr>)\<rparr>;
                  (uv2, ret) = (if timer_val > 0
                     then uv_timer_start p (Some lua_timer_callback_id) (ucast timer_val) (ucast timer_val) uv1
                     else (uv1, ret1));
                  ll2 = ll1\<lparr>ll_uv := uv2\<rparr>
              in if ret = 0
                 then let ll3 = (if is_function f
                            then let (reg, r) = luaL_ref (ll_reg ll2) f
                                 in ll2\<lparr>ll_reg := reg,
                                      ll_timers := (ll_timers ll2)(p := (ll_timers ll2 p)\<lparr>ref_cb := Some r\<rparr>)\<rparr>
                            else ll2);
                          (reg, r) = luaL_ref (ll_reg ll3) (LUser p);
                          ll4 = ll3\<lparr>ll_reg := reg,
                                  ll_timers := (ll_timers ll3)(p := (ll_timers ll3 p)\<lparr>tm_ref := Some r\<rparr>),
                                  ll_ns := (ll_ns ll3)(p := (ll_ns ll3 p)\<lparr>ev_timeout := r\<rparr>)\<rparr>
                      in res_bind (minheap_push al (ll_ns ll4) (ll_minheap ll4) p) (\<lambda>((ns, h), _).
                           Inr (ll4\<lparr>ll_ns := ns, ll_minheap := h\<rparr>, lua_rawgeti reg r))
                 else Inr (ll2, LNum (dbl_of_int ret))
         else Inr (ll0, LNum (dbl_of_int ret1)))"

section \<open>Servers\<close>

definition opt_ref :: "registry \<Rightarrow> lval \<Rightarrow> registry \<times> int option" where
  "opt_ref reg v =
     (if is_function v then let (reg', r) = luaL_ref reg v in (reg', Some r) else (reg, None))"

text \<open>
  \<open>addr\<close>, \<open>bind\<close> and \<open>listen\<close> are what \<open>uv_ip4_addr\<close>, \<open>uv_tcp_bind\<close> and \<open>uv_listen\<close> return. The
  result is the new server with its Lua object, or the first error code. The new server
  shares the registry.
\<close>

definition lua_create_server ::
    "(nat \<Rightarrow> bool) \<Rightarrow> ptr \<Rightarrow> lval \<Rightarrow> lval \<Rightarrow> lval \<Rightarrow> int \<Rightarrow> int \<Rightarrow> int \<Rightarrow> lualoop
      \<Rightarrow> (lualoop \<times> (int + uv_tcpserver \<times> lval)) res" where
  "lua_create_server al p onconn ondata onclose addr bind listen ll =
     (let (reg1, r1) = opt_ref (ll_reg ll) onconn;
          (reg2, r2) = opt_ref reg1 ondata;
          (reg3, r3) = opt_ref reg2 onclose;
          ret = (if addr \<noteq> 0 then addr else if bind \<noteq> 0 then bind else listen)
      in if ret = 0
         then let ns1 = minheap_elem_init (ll_ns ll) p;
                  (reg4, r) = luaL_ref reg3 (LUser p);
                  ns2 = ns1(p := (ns1 p)\<lparr>ev_timeout := r\<rparr>);
                  uv1 = fst (uv_timer_init p (ll_uv ll))
              in res_bind (minheap_push al ns2 (ll_minheap ll) p) (\<lambda>((ns, h), _).
                   Inr (ll\<lparr>ll_ns := ns, ll_minheap := h, ll_reg := reg4, ll_uv := uv1\<rparr>,
                     Inr (\<lparr>s_ns = (\<lambda>_. \<lparr>minheap_idx = -1, ev_timeout = 0\<rparr>), s_minheap = minheap_init,
                           s_conns = (\<lambda>_. \<lparr>c_ref = LUA_NOREF, decoder_ref = LUA_NOREF\<rparr>),
                           s_idle_timeout = 0, s_ref = r, s_onconn = r1, s_ondata = r2, s_onclose = r3,
                           s_reg = reg4, s_log = []\<rparr>, lua_rawgeti reg4 r)))
         else Inr (ll\<lparr>ll_reg := reg3\<rparr>, Inl ret))"

section \<open>The loop\<close>

definition lua_create_loop :: "uv_loop_t \<Rightarrow> registry \<Rightarrow> lualoop" where
  "lua_create_loop uv reg =
     \<lparr>ll_uv = uv, ll_ns = (\<lambda>_. \<lparr>minheap_idx = -1, ev_timeout = 0\<rparr>), ll_minheap = minheap_init,
      ll_timers = (\<lambda>_. \<lparr>ref_cb = None, tm_ref = None\<rparr>), ll_reg = reg, ll_calls = []\<rparr>"

definition lua_uv_run :: "int \<Rightarrow> lval" where
  "lua_uv_run ret = LNum (dbl_of_int ret)"

text \<open>The \<open>for\<close> loop of \<open>__gc\<close>, \<open>minheap_uninit\<close> included in its body as the code has it.\<close>

function loop_gc_nodes :: "nat \<Rightarrow> lualoop \<Rightarrow> lualoop res" where
  "loop_gc_nodes i ll =
     (if i < hn (ll_minheap ll)
      then res_bind (mem_get (hp (ll_minheap ll)) i) (\<lambda>n.
           let t = ev_timeout (ll_ns ll n);
               ll1 = (if t \<noteq> LUA_NOREF
                      then ll\<lparr>ll_reg := luaL_unref (ll_reg ll) t,
                              ll_ns := (ll_ns ll)(n := (ll_ns ll n)\<lparr>minheap_idx := -1\<rparr>)\<rparr>
                      else ll)
           in loop_gc_nodes (i + 1) (ll1\<lparr>ll_minheap := minheap_uninit (ll_minheap ll1)\<rparr>))
      else Inr ll)"
  by pat_completeness auto
termination
  by (relation "measure (\<lambda>(i, ll). hn (ll_minheap ll) - i)") (auto simp: minheap_uninit_def Let_def)

declare loop_gc_nodes.simps [simp del]

definition lua_loop_gc :: "lualoop \<Rightarrow> (lualoop \<times> lval) res" where
  "lua_loop_gc ll = res_bind (loop_gc_nodes 0 ll) (\<lambda>ll1. Inr (ll1, LBool True))"

section \<open>Properties\<close>

text \<open>The objects in the heap of the loop are those whose references it keeps.\<close>

definition loop_inv :: "lualoop \<Rightarrow> bool" where
  "loop_inv ll \<longleftrightarrow> timers_inv (ll_uv ll) \<and> reg_wf (ll_reg ll) \<and> mh_wf (ll_ns ll) (ll_minheap ll)
     \<and> (\<forall>p\<in>set (mh_elems (ll_minheap ll)). reg_map (ll_reg ll) (ev_timeout (ll_ns ll p)) = Some (LUser p))"

definition ex_ll :: lualoop where
  "ex_ll = lua_create_loop \<lparr>l_time = 100, timer_counter = 0,
     l_timers = (\<lambda>h. \<lparr>t_active = False, timer_cb = None, t_timeout = 0, t_repeat = 0, start_id = 0\<rparr>),
     timer_heap = [], fired = []\<rparr> reg_empty"

lemma ex_ll_inv: "loop_inv ex_ll"
  by (simp add: loop_inv_def ex_ll_def lua_create_loop_def timers_inv_def reg_empty_wf empty_heap_wf)

lemma luaL_ref_keeps:
  assumes "reg_wf reg" "v \<noteq> LNil" "luaL_ref reg v = (reg', r)"
  shows "reg_wf reg'" "reg_map reg' r = Some v" "reg_map reg q = Some w \<Longrightarrow> reg_map reg' q = Some w"
  using lreg.ref_wf [OF assms] lreg.ref_map [OF assms] lreg.ref_fresh [OF assms] by auto

text \<open>Entering an object with its reference \<open>r\<close> in the heap of the loop.\<close>

lemma loop_push:
  assumes "mh_wf ns h" "p \<notin> set (mh_elems h)" "hn h + 1 < 2 ^ 31" "\<forall>n. al n" "ns1 p = t"
    "\<And>x. x \<noteq> p \<Longrightarrow> ns1 x = ns x"
  shows "\<exists>ns' h'. minheap_push al (ns1(p := t\<lparr>ev_timeout := r\<rparr>)) h p = Inr ((ns', h'), 0) \<and> mh_wf ns' h'
     \<and> set (mh_elems h') = insert p (set (mh_elems h)) \<and> ev_timeout (ns' p) = r
     \<and> (\<forall>x. x \<noteq> p \<longrightarrow> ev_timeout (ns' x) = ev_timeout (ns x))"
proof -
  define ns2 where "ns2 = ns1(p := t\<lparr>ev_timeout := r\<rparr>)"
  have "mh_wf ns2 h"
    using assms(1) by (rule mh_wf_frame) (use assms(2,6) in \<open>auto simp: ns2_def\<close>)
  from minheap_push_notin [OF this assms(2-4)] obtain ns' h' where
    l: "minheap_push al ns2 h p = Inr ((ns', h'), 0)" "mh_wf ns' h'"
    "mset (mh_elems h') = add_mset p (mset (mh_elems h))" "\<forall>x. tmo ns' x = tmo ns2 x" by blast
  have "set (mh_elems h') = insert p (set (mh_elems h))"
    using l(3) by (metis set_mset_add_mset_insert set_mset_mset)
  with l assms(6) show ?thesis by (auto simp: ns2_def)
qed

lemma kept_push:
  assumes "set (mh_elems h') = insert p (set (mh_elems h))" "ev_timeout (ns' p) = r"
    "\<forall>x. x \<noteq> p \<longrightarrow> ev_timeout (ns' x) = ev_timeout (ns x)" "reg_map reg r = Some (LUser p)"
    "\<And>q. q \<in> set (mh_elems h) \<Longrightarrow> reg_map reg (ev_timeout (ns q)) = Some (LUser q)"
  shows "\<forall>q\<in>set (mh_elems h'). reg_map reg (ev_timeout (ns' q)) = Some (LUser q)"
proof
  fix q assume "q \<in> set (mh_elems h')"
  then show "reg_map reg (ev_timeout (ns' q)) = Some (LUser q)"
    using assms by (cases "q = p") simp_all
qed

lemma timers_inv_init:
  "timers_inv uv \<Longrightarrow> p \<notin> set (timer_heap uv) \<Longrightarrow> timers_inv (fst (uv_timer_init p uv))"
  by (auto simp: timers_inv_def timer_defs)

text \<open>
  A timer created with a positive interval and a function is active, due after one
  interval and repeating; its object and its function are kept alive by the registry;
  the object is entered in the heap of the loop, which stays well formed; and when the
  timer fires, exactly that function is called with that object.
\<close>

theorem create_timer_ok:
  assumes "loop_inv ll" "p \<notin> set (mh_elems (ll_minheap ll))" "p \<notin> set (timer_heap (ll_uv ll))"
    "hn (ll_minheap ll) + 1 < 2 ^ 31" "\<forall>n. al n" "v > 0"
  shows "\<exists>ll'. lua_create_timer al p (LFun g) v ll = Inr (ll', LUser p) \<and> loop_inv ll'
     \<and> set (mh_elems (ll_minheap ll')) = insert p (set (mh_elems (ll_minheap ll)))
     \<and> t_active (l_timers (ll_uv ll') p) \<and> t_repeat (l_timers (ll_uv ll') p) = ucast v
     \<and> t_timeout (l_timers (ll_uv ll') p) = clamped_timeout (l_time (ll_uv ll)) (ucast v)
     \<and> lua_timer_callback p ll' = Inr (ll'\<lparr>ll_calls := ll_calls ll' @ [(LFun g, [LUser p])]\<rparr>)"
proof -
  define uv1 where "uv1 = fst (uv_timer_init p (ll_uv ll))"
  define uv2 where "uv2 = fst (uv_timer_start p (Some lua_timer_callback_id) (ucast v) (ucast v) uv1)"
  have init: "uv_timer_init p (ll_uv ll) = (uv1, 0)" by (simp add: uv1_def uv_timer_init_def)
  have start: "uv_timer_start p (Some lua_timer_callback_id) (ucast v) (ucast v) uv1 = (uv2, 0)"
    by (simp add: uv2_def uv_timer_start_def Let_def)
  have tinv: "timers_inv uv2"
    using assms(1,3) unfolding uv2_def uv1_def by (intro timers_inv_start timers_inv_init) (simp_all add: loop_inv_def)
  have t: "t_active (l_timers uv2 p)" "t_repeat (l_timers uv2 p) = ucast v"
    "t_timeout (l_timers uv2 p) = clamped_timeout (l_time (ll_uv ll)) (ucast v)"
    by (simp_all add: uv2_def uv1_def timer_defs)
  have rw: "reg_wf (ll_reg ll)" and wf: "mh_wf (ll_ns ll) (ll_minheap ll)"
    and kp: "\<And>q. q \<in> set (mh_elems (ll_minheap ll)) \<Longrightarrow> reg_map (ll_reg ll) (ev_timeout (ll_ns ll q)) = Some (LUser q)"
    using assms(1) by (simp_all add: loop_inv_def)
  obtain reg1 r1 where r1: "luaL_ref (ll_reg ll) (LFun g) = (reg1, r1)" by (cases "luaL_ref (ll_reg ll) (LFun g)")
  note k1 = luaL_ref_keeps [OF rw _ r1, simplified]
  obtain reg2 r2 where r2: "luaL_ref reg1 (LUser p) = (reg2, r2)" by (cases "luaL_ref reg1 (LUser p)")
  note k2 = luaL_ref_keeps [OF k1(1) _ r2, simplified]
  obtain ns' h' where ph: "minheap_push al ((ll_ns ll)(p := (ll_ns ll p)\<lparr>ev_timeout := r2\<rparr>)) (ll_minheap ll) p = Inr ((ns', h'), 0)"
     "mh_wf ns' h'" "set (mh_elems h') = insert p (set (mh_elems (ll_minheap ll)))" "ev_timeout (ns' p) = r2"
     "\<forall>x. x \<noteq> p \<longrightarrow> ev_timeout (ns' x) = ev_timeout (ll_ns ll x)"
    using loop_push [OF wf assms(2,4,5) refl refl] by blast
  define ll' where "ll' = ll\<lparr>ll_uv := uv2, ll_ns := ns', ll_minheap := h', ll_reg := reg2,
    ll_timers := (ll_timers ll)(p := \<lparr>ref_cb = Some r1, tm_ref = Some r2\<rparr>)\<rparr>"
  have g1: "lua_rawgeti reg2 r1 = LFun g" "lua_rawgeti reg2 r2 = LUser p"
    using reg_map_rawgeti k2(3) [OF k1(2)] k2(2) by blast+
  have "r1 \<noteq> LUA_NOREF" "r2 \<noteq> LUA_NOREF"
    using k1(2) k2(2) by (auto simp: LUA_NOREF_def reg_map_def split: if_splits)
  then have cb: "lua_timer_callback p ll' = Inr (ll'\<lparr>ll_calls := ll_calls ll' @ [(LFun g, [LUser p])]\<rparr>)"
    using g1 by (simp add: lua_timer_callback_def field_ref_def ll'_def)
  have "lua_create_timer al p (LFun g) v ll = Inr (ll', LUser p)"
    using init start assms(6) r1 r2 ph(1) g1(2) by (simp add: lua_create_timer_def Let_def ll'_def)
  moreover have "loop_inv ll'"
    using tinv k2(1) ph(2) kept_push [OF ph(3-5) k2(2) k2(3) [OF k1(3) [OF kp]]]
    by (simp add: loop_inv_def ll'_def)
  ultimately show ?thesis using ph(3) t cb by (auto simp: ll'_def)
qed

theorem create_timer_ok_witness:
  "\<exists>ll'. lua_create_timer alloc_ok 7 (LFun 3) 1000 ex_ll = Inr (ll', LUser 7)
     \<and> t_timeout (l_timers (ll_uv ll') 7) = 1100
     \<and> lua_timer_callback 7 ll' = Inr (ll'\<lparr>ll_calls := ll_calls ll' @ [(LFun 3, [LUser 7])]\<rparr>)"
  using create_timer_ok [OF ex_ll_inv, of 7 alloc_ok 1000 3]
  by (auto simp: ex_ll_def lua_create_loop_def alloc_ok_def clamped_timeout_def)

text \<open>
  Changing the interval of a timer: the new interval is returned; an active timer stays
  active and is next due one new interval from now, an inactive one stays inactive.
\<close>

theorem time_interval_ok:
  assumes "timers_inv (ll_uv ll)" "0 < repeat" "repeat < 2 ^ 31"
  shows "case lua_time_interval p (Some repeat) ll of (ll', r) \<Rightarrow>
     r = of_int repeat \<and> timers_inv (ll_uv ll')
     \<and> (t_active (l_timers (ll_uv ll') p) \<longleftrightarrow> t_active (l_timers (ll_uv ll) p))
     \<and> (t_active (l_timers (ll_uv ll) p) \<longrightarrow>
          t_timeout (l_timers (ll_uv ll') p) = clamped_timeout (l_time (ll_uv ll)) (of_int repeat))
     \<and> (\<forall>q. q \<noteq> p \<longrightarrow> l_timers (ll_uv ll') q = l_timers (ll_uv ll) q)"
proof -
  have nz: "(of_int repeat :: u64) \<noteq> 0"
  proof -
    have "uint (of_int repeat :: u64) = repeat"
      using assms(2,3) by (simp add: uint_word_of_int_eq take_bit_int_eq_self)
    with assms(2) show ?thesis by auto
  qed
  have rep: "timers_inv (uv_timer_set_repeat p r uv) = timers_inv uv" for r uv
    by (auto simp: timers_inv_def timer_defs)
  show ?thesis
  proof (cases "t_active (l_timers (ll_uv ll) p)")
    case True
    then obtain c where c: "timer_cb (l_timers (ll_uv ll) p) = Some c" using assms(1) by (auto simp: timers_inv_def)
    define uv2 where "uv2 = uv_timer_set_repeat p (of_int repeat) (fst (uv_timer_stop p (ll_uv ll)))"
    have "timers_inv (fst (uv_timer_again p uv2))"
      unfolding uv2_def by (intro timers_inv_again) (simp add: rep timers_inv_stop assms(1))
    with True c nz assms(2) show ?thesis
      by (simp add: lua_time_interval_def Let_def uv2_def [symmetric])
        (simp add: uv2_def uv_timer_get_repeat_def timer_defs)
  next
    case False
    with assms rep show ?thesis
      by (simp add: lua_time_interval_def Let_def) (simp add: uv_timer_get_repeat_def timer_defs)
  qed
qed

theorem time_interval_ok_witness:
  "case lua_time_interval 1 (Some 25) (ex_ll\<lparr>ll_uv := ex_loop\<rparr>) of (ll', r) \<Rightarrow>
     r = 25 \<and> t_timeout (l_timers (ll_uv ll') 1) = 125"
proof -
  have "timers_inv ex_loop" by (auto simp: timers_inv_def ex_loop_def)
  then show ?thesis
    using time_interval_ok [of "ex_ll\<lparr>ll_uv := ex_loop\<rparr>" 25 1]
    by (auto simp: ex_loop_def clamped_timeout_def split: prod.splits)
qed

text \<open>
  A timer created with interval 0 has no libuv callback: whatever interval it is given
  later, starting it fails with \<open>EINVAL\<close> and it stays inactive.
\<close>

theorem zero_interval_timer_never_starts:
  assumes "lua_create_timer al p f 0 ll = Inr (ll', v)"
  shows "snd (lua_time_start p (fst (lua_time_interval p iv ll'))) = - EINVAL
     \<and> \<not> t_active (l_timers (ll_uv (fst (lua_time_start p (fst (lua_time_interval p iv ll'))))) p)"
proof -
  define uv1 where "uv1 = fst (uv_timer_init p (ll_uv ll))"
  have init: "uv_timer_init p (ll_uv ll) = (uv1, 0)" by (simp add: uv1_def uv_timer_init_def)
  have "ll_uv ll' = uv1"
    using assms init by (auto simp: lua_create_timer_def Let_def res_bind_Inr split: prod.splits if_splits)
  moreover have "timer_cb (l_timers uv1 p) = None" "\<not> t_active (l_timers uv1 p)"
    by (simp_all add: uv1_def timer_defs)
  ultimately show ?thesis
    by (simp add: lua_time_start_def lua_time_interval_def timer_defs split: option.splits prod.splits)
qed

theorem zero_interval_timer_never_starts_witness:
  "\<exists>ll' v. lua_create_timer alloc_ok 7 (LFun 3) 0 ex_ll = Inr (ll', v)
     \<and> snd (lua_time_start 7 (fst (lua_time_interval 7 (Some 1000) ll'))) = - EINVAL"
proof -
  obtain reg1 r1 where r1: "luaL_ref reg_empty (LFun 3) = (reg1, r1)" by (cases "luaL_ref reg_empty (LFun 3)")
  obtain reg2 r2 where r2: "luaL_ref reg1 (LUser 7) = (reg2, r2)" by (cases "luaL_ref reg1 (LUser 7)")
  obtain ns' h' where "minheap_push alloc_ok ((ll_ns ex_ll)(7 := (ll_ns ex_ll 7)\<lparr>ev_timeout := r2\<rparr>)) minheap_init 7
      = Inr ((ns', h'), 0)"
    using loop_push [OF empty_heap_wf [of "ll_ns ex_ll"] _ _ _ refl refl, of 7 alloc_ok r2]
    by (auto simp: alloc_ok_def)
  with r1 r2 obtain ll' v where c: "lua_create_timer alloc_ok 7 (LFun 3) 0 ex_ll = Inr (ll', v)"
    by (simp add: lua_create_timer_def ex_ll_def lua_create_loop_def uv_timer_init_def upd_timer_def Let_def)
  with zero_interval_timer_never_starts [OF c, of "Some 1000"] show ?thesis by blast
qed

text \<open>
  Creating a server with its three callbacks, when binding and listening succeed: the
  new server starts with an empty heap, no idle timeout and a well-formed registry (the
  state from which the server invariant is proved), its callback fields refer to exactly
  the three functions, its object is kept alive, and the loop invariant holds. When an
  address, bind or listen error occurs, the first error code is returned.
\<close>

theorem create_server_ok:
  assumes "loop_inv ll" "p \<notin> set (mh_elems (ll_minheap ll))" "p \<notin> set (timer_heap (ll_uv ll))"
    "hn (ll_minheap ll) + 1 < 2 ^ 31" "\<forall>n. al n"
  shows "if addr = 0 \<and> bind = 0 \<and> listen = 0
     then \<exists>ll' s. lua_create_server al p (LFun a) (LFun b) (LFun c) addr bind listen ll = Inr (ll', Inr (s, LUser p))
       \<and> loop_inv ll' \<and> s_minheap s = minheap_init \<and> s_idle_timeout s = 0 \<and> reg_wf (s_reg s) \<and> s_reg s = ll_reg ll'
       \<and> map_option (lua_rawgeti (s_reg s)) (s_onconn s) = Some (LFun a)
       \<and> map_option (lua_rawgeti (s_reg s)) (s_ondata s) = Some (LFun b)
       \<and> map_option (lua_rawgeti (s_reg s)) (s_onclose s) = Some (LFun c)
     else \<exists>ll'. lua_create_server al p (LFun a) (LFun b) (LFun c) addr bind listen ll =
       Inr (ll', Inl (if addr \<noteq> 0 then addr else if bind \<noteq> 0 then bind else listen))"
proof -
  have rw: "reg_wf (ll_reg ll)" and wf: "mh_wf (ll_ns ll) (ll_minheap ll)"
    and kp: "\<And>q. q \<in> set (mh_elems (ll_minheap ll)) \<Longrightarrow> reg_map (ll_reg ll) (ev_timeout (ll_ns ll q)) = Some (LUser q)"
    using assms(1) by (simp_all add: loop_inv_def)
  obtain reg1 r1 where r1: "luaL_ref (ll_reg ll) (LFun a) = (reg1, r1)" by (cases "luaL_ref (ll_reg ll) (LFun a)")
  note k1 = luaL_ref_keeps [OF rw _ r1, simplified]
  obtain reg2 r2 where r2: "luaL_ref reg1 (LFun b) = (reg2, r2)" by (cases "luaL_ref reg1 (LFun b)")
  note k2 = luaL_ref_keeps [OF k1(1) _ r2, simplified]
  obtain reg3 r3 where r3: "luaL_ref reg2 (LFun c) = (reg3, r3)" by (cases "luaL_ref reg2 (LFun c)")
  note k3 = luaL_ref_keeps [OF k2(1) _ r3, simplified]
  obtain reg4 r where r: "luaL_ref reg3 (LUser p) = (reg4, r)" by (cases "luaL_ref reg3 (LUser p)")
  note k4 = luaL_ref_keeps [OF k3(1) _ r, simplified]
  have live: "reg_map reg4 r1 = Some (LFun a)" "reg_map reg4 r2 = Some (LFun b)" "reg_map reg4 r3 = Some (LFun c)"
    using k4(3) [OF k3(3) [OF k2(3) [OF k1(2)]]] k4(3) [OF k3(3) [OF k2(2)]] k4(3) [OF k3(2)] by simp_all
  have opt: "opt_ref (ll_reg ll) (LFun a) = (reg1, Some r1)" "opt_ref reg1 (LFun b) = (reg2, Some r2)"
    "opt_ref reg2 (LFun c) = (reg3, Some r3)" using r1 r2 r3 by (simp_all add: opt_ref_def)
  show ?thesis
  proof (cases "addr = 0 \<and> bind = 0 \<and> listen = 0")
    case True
    define ns1 where "ns1 = minheap_elem_init (ll_ns ll) p"
    obtain ns' h' where ph: "minheap_push al (ns1(p := (ns1 p)\<lparr>ev_timeout := r\<rparr>)) (ll_minheap ll) p = Inr ((ns', h'), 0)"
       "mh_wf ns' h'" "set (mh_elems h') = insert p (set (mh_elems (ll_minheap ll)))" "ev_timeout (ns' p) = r"
       "\<forall>x. x \<noteq> p \<longrightarrow> ev_timeout (ns' x) = ev_timeout (ll_ns ll x)"
      using loop_push [OF wf assms(2,4,5) refl, of ns1 r] by (auto simp: ns1_def minheap_elem_init_def)
    define ll' where "ll' = ll\<lparr>ll_ns := ns', ll_minheap := h', ll_reg := reg4, ll_uv := fst (uv_timer_init p (ll_uv ll))\<rparr>"
    have "loop_inv ll'"
      using kept_push [OF ph(3-5) k4(2) k4(3) [OF k3(3) [OF k2(3) [OF k1(3) [OF kp]]]]] k4(1) ph(2)
        timers_inv_init [of "ll_uv ll" p] assms(1,3) by (simp add: loop_inv_def ll'_def)
    then show ?thesis
      using True opt r ph(1) live k4(1,2)
      by (simp add: lua_create_server_def Let_def ns1_def [symmetric] reg_map_rawgeti) (simp add: ll'_def)
  next
    case False
    then show ?thesis using opt by (auto simp: lua_create_server_def Let_def)
  qed
qed

theorem create_server_ok_witness:
  "\<exists>ll' s. lua_create_server alloc_ok 7 (LFun 1) (LFun 2) (LFun 3) 0 0 0 ex_ll = Inr (ll', Inr (s, LUser 7))
     \<and> reg_wf (s_reg s) \<and> s_minheap s = minheap_init"
  using create_server_ok [OF ex_ll_inv, of 7 alloc_ok 0 0 0 1 2 3]
  by (auto simp: ex_ll_def lua_create_loop_def alloc_ok_def)

text \<open>
  A server created without an \<open>onconn\<close> function has that field uninitialised, and the
  first connection that is accepted reads it.
\<close>

theorem server_without_callback_faults:
  assumes "lua_create_server al p v ondata onclose 0 0 0 ll = Inr (ll', Inr (s, obj))" "\<not> is_function v"
  shows "lua_tcpserver_onconnection env q 0 read_start 0 s = Inl Uninit_read"
proof -
  have "s_onconn s = None"
    using assms by (auto simp: lua_create_server_def opt_ref_def Let_def res_bind_Inr split: prod.splits if_splits)
  moreover have "s_onconn (uv_tcpconn_new env q s) = s_onconn s"
    by (simp add: uv_tcpconn_new_def Let_def split: prod.splits)
  ultimately show ?thesis by (simp add: lua_tcpserver_onconnection_def Let_def field_ref_def)
qed

lemma create_server_no_callbacks:
  "\<exists>ll' s obj. lua_create_server alloc_ok 7 LNil LNil LNil 0 0 0 ex_ll = Inr (ll', Inr (s, obj))"
proof -
  define ns1 where "ns1 = minheap_elem_init (ll_ns ex_ll) 7"
  obtain reg r where r: "luaL_ref reg_empty (LUser 7) = (reg, r)" by (cases "luaL_ref reg_empty (LUser 7)")
  obtain ns' h' where "minheap_push alloc_ok (ns1(7 := (ns1 7)\<lparr>ev_timeout := r\<rparr>)) minheap_init 7 = Inr ((ns', h'), 0)"
    using loop_push [OF empty_heap_wf [of "ll_ns ex_ll"] _ _ _ refl, of 7 alloc_ok ns1 r]
    by (auto simp: alloc_ok_def ns1_def minheap_elem_init_def)
  with r show ?thesis
    by (simp add: lua_create_server_def opt_ref_def Let_def ns1_def ex_ll_def lua_create_loop_def)
qed

theorem server_without_callback_faults_witness:
  "\<exists>ll' s obj. lua_create_server alloc_ok 7 LNil LNil LNil 0 0 0 ex_ll = Inr (ll', Inr (s, obj))
     \<and> lua_tcpserver_onconnection (ex_env 100) 8 0 0 0 s = Inl Uninit_read"
proof -
  obtain ll' s obj where c: "lua_create_server alloc_ok 7 LNil LNil LNil 0 0 0 ex_ll = Inr (ll', Inr (s, obj))"
    using create_server_no_callbacks by blast
  with server_without_callback_faults [OF c, of "ex_env 100" 8 0] show ?thesis by auto
qed

text \<open>
  Collecting the loop releases only the first object of its heap: the heap is emptied
  inside the loop over it, and the references of all the other objects stay in the
  registry for ever.
\<close>

theorem loop_gc_releases_first_only:
  assumes "loop_inv ll" "\<not> minheap_empty (ll_minheap ll)"
  shows "\<exists>ll' n. lua_loop_gc ll = Inr (ll', LBool True) \<and> n \<in> set (mh_elems (ll_minheap ll))
     \<and> minheap_empty (ll_minheap ll')
     \<and> reg_map (ll_reg ll') = (reg_map (ll_reg ll))(ev_timeout (ll_ns ll n) := None)
     \<and> (\<forall>q\<in>set (mh_elems (ll_minheap ll)) - {n}. reg_map (ll_reg ll') (ev_timeout (ll_ns ll q)) = Some (LUser q))"
proof -
  have ne: "0 < hn (ll_minheap ll)" using assms(2) by (simp add: minheap_empty_def)
  have wf: "mh_wf (ll_ns ll) (ll_minheap ll)" and rw: "reg_wf (ll_reg ll)"
    and kp: "\<forall>q\<in>set (mh_elems (ll_minheap ll)). reg_map (ll_reg ll) (ev_timeout (ll_ns ll q)) = Some (LUser q)"
    using assms(1) by (simp_all add: loop_inv_def)
  define n where "n = hp (ll_minheap ll) ! 0"
  define t where "t = ev_timeout (ll_ns ll n)"
  have get: "mem_get (hp (ll_minheap ll)) 0 = Inr n" using mh_wfD [OF wf] ne by (simp add: mem_get_def n_def)
  have n: "n \<in> set (mh_elems (ll_minheap ll))"
    using nth_in_set_take [OF ne, of "hp (ll_minheap ll)"] mh_wfD(1,2) [OF wf] by (simp add: n_def mh_elems_def)
  then have lv: "reg_map (ll_reg ll) t = Some (LUser n)" using kp by (simp add: t_def)
  then have nr: "t \<noteq> LUA_NOREF" by (auto simp: LUA_NOREF_def reg_map_def split: if_splits)
  define ll' where "ll' = ll\<lparr>ll_reg := luaL_unref (ll_reg ll) t,
    ll_ns := (ll_ns ll)(n := (ll_ns ll n)\<lparr>minheap_idx := -1\<rparr>), ll_minheap := minheap_uninit (ll_minheap ll)\<rparr>"
  have "loop_gc_nodes 1 ll' = Inr ll'" by (simp add: loop_gc_nodes.simps ll'_def minheap_uninit_def)
  then have "loop_gc_nodes 0 ll = Inr ll'"
    using ne get nr by (simp add: loop_gc_nodes.simps [of 0] t_def Let_def ll'_def)
  moreover have "reg_map (ll_reg ll') = (reg_map (ll_reg ll))(t := None)"
    using luaL_unref_ok(2) [OF rw, of t] lv by (simp add: ll'_def)
  moreover have "ev_timeout (ll_ns ll q) \<noteq> t" if "q \<in> set (mh_elems (ll_minheap ll)) - {n}" for q
    using kp lv that by auto
  ultimately show ?thesis
    using n kp by (intro exI [of _ ll'] exI [of _ n])
      (auto simp: lua_loop_gc_def t_def ll'_def minheap_empty_def minheap_uninit_def)
qed

definition ex_ll2 :: lualoop where
  "ex_ll2 = ex_ll\<lparr>ll_ns := (\<lambda>x. if x = 5 then \<lparr>minheap_idx = 0, ev_timeout = 1\<rparr> else \<lparr>minheap_idx = 1, ev_timeout = 2\<rparr>),
     ll_minheap := \<lparr>hp = [5, 6], hn = 2, ha = 2\<rparr>,
     ll_reg := \<lparr>rt = (\<lambda>r. if r = 1 then RVal (LUser 5) else if r = 2 then RVal (LUser 6) else RNil), rtop = 2\<rparr>\<rparr>"

lemma ex_ll2_inv: "loop_inv ex_ll2"
proof -
  have "reg_wf (ll_reg ex_ll2)"
    by (auto simp: reg_wf_def reg_inv_def ex_ll2_def intro!: exI [of _ "[]"])
  moreover have "mh_wf (ll_ns ex_ll2) (ll_minheap ex_ll2)"
    by (auto simp: mh_wf_def ex_ll2_def mh_elems_def idx_ok_def heap_ok_def par_def less_2_cases_iff)
  moreover have "timers_inv (ll_uv ex_ll2)" using ex_ll_inv by (simp add: loop_inv_def ex_ll2_def)
  ultimately show ?thesis by (auto simp: loop_inv_def) (auto simp: ex_ll2_def mh_elems_def reg_map_def)
qed

theorem loop_gc_releases_first_only_witness:
  "\<exists>ll' n. lua_loop_gc ex_ll2 = Inr (ll', LBool True) \<and> (n = 5 \<or> n = 6)
     \<and> (\<forall>q\<in>{5, 6} - {n}. reg_map (ll_reg ll') (ev_timeout (ll_ns ex_ll2 q)) = Some (LUser q))"
proof -
  have el: "set (mh_elems (ll_minheap ex_ll2)) = {5, 6}" by (simp add: ex_ll2_def mh_elems_def)
  have "\<not> minheap_empty (ll_minheap ex_ll2)" by (simp add: ex_ll2_def minheap_empty_def)
  from loop_gc_releases_first_only [OF ex_ll2_inv this] show ?thesis unfolding el by blast
qed

end
