(* ===== verification/Reactor.thy ===== *)
theory Reactor
  imports Prelude
begin

text \<open>
  The single-threaded reactor of \<open>reactor_thread2.c\<close>: events of a file descriptor are kept
  in a doubly linked list, the head of which is in the reactor's table; the kernel's epoll
  set has one entry per descriptor. Events live in a store indexed by their address; a
  freed event has no entry, and touching it is a fault. The epoll set follows the
  documented behaviour of \<open>epoll_ctl\<close>. What the other system calls return is a parameter
  (record \<open>os\<close>, one per event delivered). Output to the terminal is left out.
\<close>

type_synonym evp = nat

definition MAX_EPOLL_EVENTS :: nat where
  "MAX_EPOLL_EVENTS = 1024"

definition MAX_BUFFER_SIZE :: nat where
  "MAX_BUFFER_SIZE = 4096"

definition EPOLLIN :: u32 where
  "EPOLLIN = 1"

definition EPOLLOUT :: u32 where
  "EPOLLOUT = 4"

definition EAGAIN :: int where "EAGAIN = 11"
definition EEXIST :: int where "EEXIST = 17"
definition ENOENT :: int where "ENOENT = 2"
definition ENOSPC :: int where "ENOSPC = 28"
definition EPIPE :: int where "EPIPE = 32"

datatype ncallback = Accept_callback | Recv_callback | Send_callback

text \<open>\<open>ev_arg\<close>: whether the back pointer to the reactor has been set.\<close>

record Revent =
  ev_fd :: int
  ev_events :: u32
  ev_arg :: bool
  ev_callback :: ncallback
  ev_status :: int
  ev_buffer :: "u8 list"
  ev_length :: int
  ev_last_active :: int
  ev_prev :: "evp option"
  ev_next :: "evp option"

datatype rlog = Closed int | Sent int "u8 list"

text \<open>The reactor with the store of events, the kernel's epoll set and the calls made.\<close>

record Reactor =
  r_epoll_fd :: int
  r_events :: "evp option list"
  r_heap :: "evp \<Rightarrow> Revent option"
  r_kset :: "int \<Rightarrow> (u32 \<times> evp) option"
  r_log :: "rlog list"

datatype ctl_op = EPOLL_CTL_ADD | EPOLL_CTL_MOD | EPOLL_CTL_DEL

record os =
  os_accept :: int
  os_recv :: int
  os_data :: "u8 list"
  os_recv_errno :: int
  os_send :: int
  os_send_errno :: int
  os_malloc :: "evp option"
  os_ctl_fails :: "ctl_op \<Rightarrow> bool"
  os_time :: int

section \<open>System calls\<close>

text \<open>\<open>epoll_ctl\<close> on the set: the error number, 0 for success.\<close>

definition kset_ctl :: "(ctl_op \<Rightarrow> bool) \<Rightarrow> ctl_op \<Rightarrow> int \<Rightarrow> u32 \<times> evp \<Rightarrow> (int \<Rightarrow> (u32 \<times> evp) option)
    \<Rightarrow> (int \<Rightarrow> (u32 \<times> evp) option) \<times> int" where
  "kset_ctl fails op fd ev k =
     (case op of
        EPOLL_CTL_ADD \<Rightarrow>
          if k fd \<noteq> None then (k, EEXIST) else if fails op then (k, ENOSPC) else (k(fd \<mapsto> ev), 0)
      | EPOLL_CTL_MOD \<Rightarrow>
          if k fd = None then (k, ENOENT) else if fails op then (k, ENOSPC) else (k(fd \<mapsto> ev), 0)
      | EPOLL_CTL_DEL \<Rightarrow>
          if k fd = None then (k, ENOENT) else if fails op then (k, ENOSPC) else (k(fd := None), 0))"

definition epoll_ctl :: "os \<Rightarrow> ctl_op \<Rightarrow> int \<Rightarrow> u32 \<times> evp \<Rightarrow> Reactor \<Rightarrow> Reactor \<times> int" where
  "epoll_ctl sys op fd ev r =
     (let (k, err) = kset_ctl (os_ctl_fails sys) op fd ev (r_kset r) in (r\<lparr>r_kset := k\<rparr>, err))"

text \<open>Closing a descriptor also removes it from the epoll set.\<close>

definition sys_close :: "int \<Rightarrow> Reactor \<Rightarrow> Reactor" where
  "sys_close fd r = r\<lparr>r_kset := (r_kset r)(fd := None), r_log := r_log r @ [Closed fd]\<rparr>"

definition get_ev :: "Reactor \<Rightarrow> evp \<Rightarrow> Revent res" where
  "get_ev r p = (case r_heap r p of None \<Rightarrow> Inl Use_after_free | Some e \<Rightarrow> Inr e)"

definition set_ev :: "evp \<Rightarrow> (Revent \<Rightarrow> Revent) \<Rightarrow> Reactor \<Rightarrow> Reactor res" where
  "set_ev p f r = res_bind (get_ev r p) (\<lambda>e. Inr (r\<lparr>r_heap := (r_heap r)(p \<mapsto> f e)\<rparr>))"

definition free_ev :: "evp \<Rightarrow> Reactor \<Rightarrow> Reactor res" where
  "free_ev p r = res_bind (get_ev r p) (\<lambda>_. Inr (r\<lparr>r_heap := (r_heap r)(p := None)\<rparr>))"

text \<open>\<open>malloc\<close> of an event, which is cleared at once: a failed allocation is dereferenced.\<close>

definition new_ev :: "os \<Rightarrow> Reactor \<Rightarrow> (Reactor \<times> evp) res" where
  "new_ev sys r =
     (case os_malloc sys of
        None \<Rightarrow> Inl Null_deref
      | Some p \<Rightarrow> Inr (r\<lparr>r_heap := (r_heap r)(p \<mapsto>
          \<lparr>ev_fd = 0, ev_events = 0, ev_arg = False, ev_callback = Accept_callback, ev_status = 0,
           ev_buffer = replicate MAX_BUFFER_SIZE 0, ev_length = 0, ev_last_active = 0,
           ev_prev = None, ev_next = None\<rparr>)\<rparr>, p))"

definition fd_head :: "Reactor \<Rightarrow> int \<Rightarrow> evp option res" where
  "fd_head r fd = (if fd < 0 then Inl Out_of_bounds else mem_get (r_events r) (nat fd))"

definition set_head :: "int \<Rightarrow> evp option \<Rightarrow> Reactor \<Rightarrow> Reactor res" where
  "set_head fd h r =
     (if fd < 0 then Inl Out_of_bounds
      else res_bind (mem_set (r_events r) (nat fd) h) (\<lambda>es. Inr (r\<lparr>r_events := es\<rparr>)))"

section \<open>The event lists\<close>

definition reactor_init :: "int \<Rightarrow> bool \<Rightarrow> Reactor option" where
  "reactor_init epfd malloc_ok =
     (if \<not> malloc_ok then None
      else if epfd = -1 then None
      else Some \<lparr>r_epoll_fd = epfd, r_events = replicate MAX_EPOLL_EVENTS None, r_heap = (\<lambda>_. None),
                 r_kset = (\<lambda>_. None), r_log = []\<rparr>)"

text \<open>The events still allocated are not freed.\<close>

definition reactor_destroy :: "Reactor option \<Rightarrow> int" where
  "reactor_destroy r = (case r of None \<Rightarrow> -1 | Some _ \<Rightarrow> 0)"

definition revent_set ::
    "os \<Rightarrow> evp \<Rightarrow> int \<Rightarrow> u32 \<Rightarrow> int \<Rightarrow> int \<Rightarrow> ncallback \<Rightarrow> Reactor \<Rightarrow> (Reactor \<times> int) res" where
  "revent_set sys p fd event len status callback r =
     (if fd < 0 \<or> event \<ge> 2 ^ 31 \<or> len < 0 \<or> status < 0 then Inr (r, -1)
      else res_bind (set_ev p (\<lambda>e. e\<lparr>ev_fd := fd, ev_events := event, ev_arg := True,
             ev_callback := callback, ev_status := status, ev_length := len, ev_last_active := os_time sys,
             ev_next := None, ev_prev := None\<rparr>) r) (\<lambda>r1. Inr (r1, 0)))"

text \<open>
  \<open>for (e = ev; e != NULL; e = e->next) types |= e->events\<close>, and the search for the first
  event of a given type. A cyclic list would make them run for ever (\<open>None\<close>).
\<close>

partial_function (option) ev_types :: "(evp \<Rightarrow> Revent option) \<Rightarrow> evp option \<Rightarrow> u32 \<Rightarrow> u32 res option" where
  "ev_types h ev acc =
     (case ev of
        None \<Rightarrow> Some (Inr acc)
      | Some p \<Rightarrow> (case h p of
                     None \<Rightarrow> Some (Inl Use_after_free)
                   | Some e \<Rightarrow> ev_types h (ev_next e) (acc OR ev_events e)))"

partial_function (option) ev_find :: "(evp \<Rightarrow> Revent option) \<Rightarrow> evp option \<Rightarrow> u32 \<Rightarrow> evp option res option" where
  "ev_find h ev ty =
     (case ev of
        None \<Rightarrow> Some (Inr None)
      | Some p \<Rightarrow> (case h p of
                     None \<Rightarrow> Some (Inl Use_after_free)
                   | Some e \<Rightarrow> if ev_events e AND ty \<noteq> 0 then Some (Inr (Some p))
                              else ev_find h (ev_next e) ty))"

definition or_diverges :: "'a res option \<Rightarrow> 'a res" where
  "or_diverges x = (case x of None \<Rightarrow> Inl Diverges | Some r \<Rightarrow> r)"

text \<open>\<open>revent_add\<close>: the event becomes the head of the list, then the kernel is told.\<close>

definition revent_link :: "evp \<Rightarrow> int \<Rightarrow> Reactor \<Rightarrow> Reactor res" where
  "revent_link p fd r =
     res_bind (fd_head r fd) (\<lambda>head.
     res_bind (case head of
         None \<Rightarrow> set_head fd (Some p) r
       | Some q \<Rightarrow>
           res_bind (set_ev q (\<lambda>x. x\<lparr>ev_prev := Some p\<rparr>) r) (\<lambda>r1.
           res_bind (set_ev p (\<lambda>x. x\<lparr>ev_next := Some q, ev_prev := None\<rparr>) r1) (\<lambda>r2.
             set_head fd (Some p) r2))) (\<lambda>r3.
       set_ev p (\<lambda>x. x\<lparr>ev_status := 1\<rparr>) r3))"

definition revent_add :: "os \<Rightarrow> evp \<Rightarrow> Reactor \<Rightarrow> (Reactor \<times> int) res" where
  "revent_add sys p r =
     res_bind (get_ev r p) (\<lambda>e.
     if \<not> ev_arg e \<or> r_epoll_fd r < 0 \<or> ev_status e \<noteq> 0 then Inr (r, -1)
     else let fd = ev_fd e
          in res_bind (revent_link p fd r) (\<lambda>r4.
             let (r5, e1) = epoll_ctl sys EPOLL_CTL_ADD fd (ev_events e, p) r4
             in res_bind (if e1 = EEXIST
                          then res_bind (or_diverges (ev_types (r_heap r5) (Some p) 0)) (\<lambda>types.
                               Inr (epoll_ctl sys EPOLL_CTL_MOD fd (types, p) r5))
                          else Inr (r5, e1)) (\<lambda>(r6, e2).
                if e2 \<noteq> 0
                then res_bind (fd_head r6 fd) (\<lambda>h.
                     case h of
                       None \<Rightarrow> Inl Null_deref
                     | Some hp \<Rightarrow>
                         res_bind (get_ev r6 hp) (\<lambda>he.
                         res_bind (set_head fd (ev_next he) r6) (\<lambda>r7.
                         res_bind (set_ev p (\<lambda>x. x\<lparr>ev_status := 0\<rparr>) r7) (\<lambda>r8. Inr (r8, -1)))))
                else Inr (r6, 0))))"

text \<open>\<open>revent_del\<close>: taking the event out of its list, then telling the kernel.\<close>

definition revent_unlink :: "evp \<Rightarrow> Revent \<Rightarrow> Reactor \<Rightarrow> Reactor res" where
  "revent_unlink p e r =
     res_bind (fd_head r (ev_fd e)) (\<lambda>head.
     res_bind (if head = Some p then set_head (ev_fd e) (ev_next e) r else Inr r) (\<lambda>r1.
     res_bind (case ev_prev e of None \<Rightarrow> Inr r1
               | Some q \<Rightarrow> set_ev q (\<lambda>x. x\<lparr>ev_next := ev_next e\<rparr>) r1) (\<lambda>r2.
     res_bind (case ev_next e of None \<Rightarrow> Inr r2
               | Some q \<Rightarrow> set_ev q (\<lambda>x. x\<lparr>ev_prev := ev_prev e\<rparr>) r2) (\<lambda>r3.
       set_ev p (\<lambda>x. x\<lparr>ev_status := 0\<rparr>) r3))))"

definition revent_del :: "os \<Rightarrow> evp \<Rightarrow> Reactor \<Rightarrow> (Reactor \<times> int) res" where
  "revent_del sys p r =
     res_bind (get_ev r p) (\<lambda>e.
     if \<not> ev_arg e \<or> r_epoll_fd r < 0 \<or> ev_status e \<noteq> 1 then Inr (r, -1)
     else let fd = ev_fd e
          in res_bind (revent_unlink p e r) (\<lambda>r4.
             res_bind (fd_head r4 fd) (\<lambda>h.
             res_bind (or_diverges (ev_types (r_heap r4) h 0)) (\<lambda>types.
             let (r5, err) = (if types \<noteq> 0
                              then epoll_ctl sys EPOLL_CTL_MOD fd (types, the h) r4
                              else epoll_ctl sys EPOLL_CTL_DEL fd (0, p) r4)
             in Inr (r5, if err \<noteq> 0 then -1 else 0)))))"

text \<open>\<open>revent_del(ev); free(ev)\<close>: the event leaves the list of its descriptor.\<close>

definition del_free :: "os \<Rightarrow> evp \<Rightarrow> Reactor \<Rightarrow> Reactor res" where
  "del_free sys p r = res_bind (revent_del sys p r) (\<lambda>(r1, _). free_ev p r1)"

text \<open>Removing and freeing all the events of a descriptor, the head first.\<close>

partial_function (option) free_fd_events :: "os \<Rightarrow> int \<Rightarrow> Reactor \<Rightarrow> Reactor res option" where
  "free_fd_events sys fd r =
     (case fd_head r fd of
        Inl e \<Rightarrow> Some (Inl e)
      | Inr None \<Rightarrow> Some (Inr r)
      | Inr (Some p) \<Rightarrow>
          (case del_free sys p r of
             Inl e \<Rightarrow> Some (Inl e)
           | Inr r2 \<Rightarrow> free_fd_events sys fd r2))"

section \<open>Callbacks and dispatch\<close>

definition reactor_addlistener :: "os \<Rightarrow> int \<Rightarrow> Reactor \<Rightarrow> (Reactor \<times> int) res" where
  "reactor_addlistener sys fd r =
     (if fd < 0 then Inr (r, -1)
      else res_bind (new_ev sys r) (\<lambda>(r1, p).
           res_bind (revent_set sys p fd EPOLLIN 0 0 Accept_callback r1) (\<lambda>(r2, _).
           res_bind (revent_add sys p r2) (\<lambda>(r3, ret).
             if ret < 0 then res_bind (free_ev p r3) (\<lambda>r4. Inr (r4, 0)) else Inr (r3, 0)))))"

definition accept_callback :: "os \<Rightarrow> int \<Rightarrow> evp \<Rightarrow> Reactor \<Rightarrow> (Reactor \<times> int) res" where
  "accept_callback sys fd ev r =
     (let cli_fd = os_accept sys
      in if cli_fd = -1 then Inr (r, -1)
         else res_bind (new_ev sys r) (\<lambda>(r1, p).
              res_bind (revent_set sys p cli_fd EPOLLIN 0 0 Recv_callback r1) (\<lambda>(r2, _).
              res_bind (revent_add sys p r2) (\<lambda>(r3, ret).
                if ret < 0
                then res_bind (free_ev p r3) (\<lambda>r4. Inr (sys_close cli_fd r4, -1))
                else Inr (r3, cli_fd)))))"

text \<open>\<open>strcpy\<close> into a cleared buffer: the bytes up to the first 0.\<close>

definition c_strcpy :: "u8 list \<Rightarrow> u8 list \<Rightarrow> u8 list res" where
  "c_strcpy dst src =
     (let s = takeWhile (\<lambda>b. b \<noteq> 0) src
      in if s = src then Inl Out_of_bounds
         else mem_write dst 0 (s @ [0]))"

definition recv_callback :: "os \<Rightarrow> int \<Rightarrow> evp \<Rightarrow> Reactor \<Rightarrow> (Reactor \<times> int) res" where
  "recv_callback sys fd ev r =
     (let rc = os_recv sys
      in if rc \<le> 0
         then if os_recv_errno sys = EAGAIN then Inr (r, rc)
              else res_bind (or_diverges (free_fd_events sys fd r)) (\<lambda>r1.
                   res_bind (set_head fd None (sys_close fd r1)) (\<lambda>r2. Inr (r2, rc)))
         else res_bind (get_ev r ev) (\<lambda>e.
              res_bind (mem_write (ev_buffer e) 0 (os_data sys)) (\<lambda>b1.
              res_bind (mem_set b1 (nat rc) 0) (\<lambda>b2.
              res_bind (set_ev ev (\<lambda>x. x\<lparr>ev_buffer := b2\<rparr>) r) (\<lambda>r1.
              res_bind (new_ev sys r1) (\<lambda>(r2, w).
              res_bind (c_strcpy (replicate MAX_BUFFER_SIZE 0) b2) (\<lambda>wb.
              res_bind (set_ev w (\<lambda>x. x\<lparr>ev_buffer := wb\<rparr>) r2) (\<lambda>r3.
              res_bind (revent_set sys w fd EPOLLOUT rc 0 Send_callback r3) (\<lambda>(r4, _).
              res_bind (revent_add sys w r4) (\<lambda>(r5, ret).
                if ret < 0 then res_bind (free_ev w r5) (\<lambda>r6. Inr (r6, rc))
                else Inr (r5, rc)))))))))))"

definition send_callback :: "os \<Rightarrow> int \<Rightarrow> evp \<Rightarrow> Reactor \<Rightarrow> (Reactor \<times> int) res" where
  "send_callback sys fd ev r =
     res_bind (get_ev r ev) (\<lambda>e.
     res_bind (mem_read (ev_buffer e) 0 (nat (ev_length e))) (\<lambda>bytes.
     let rc = os_send sys;
         r0 = (if rc > 0 then r\<lparr>r_log := r_log r @ [Sent (ev_fd e) (take (nat rc) bytes)]\<rparr> else r)
     in res_bind (if rc > 0 \<or> os_send_errno sys \<noteq> EPIPE
                  then del_free sys ev r0
                  else or_diverges (free_fd_events sys fd r0)) (\<lambda>r2.
        res_bind (fd_head r2 fd) (\<lambda>h.
          Inr (if h = None then sys_close fd r2 else r2, rc)))))"

definition run_callback :: "os \<Rightarrow> evp \<Rightarrow> Reactor \<Rightarrow> Reactor res" where
  "run_callback sys ev r =
     res_bind (get_ev r ev) (\<lambda>e.
     res_bind ((case ev_callback e of
         Accept_callback \<Rightarrow> accept_callback | Recv_callback \<Rightarrow> recv_callback
       | Send_callback \<Rightarrow> send_callback) sys (ev_fd e) ev r) (\<lambda>(r1, _). Inr r1))"

text \<open>One ready descriptor: the first event of each type that is ready is run.\<close>

definition run_type :: "os \<Rightarrow> u32 \<Rightarrow> u32 \<Rightarrow> int \<Rightarrow> Reactor \<Rightarrow> Reactor res" where
  "run_type sys revents ty fd r =
     (if revents AND ty \<noteq> 0
      then res_bind (fd_head r fd) (\<lambda>h.
           res_bind (or_diverges (ev_find (r_heap r) h ty)) (\<lambda>f.
             case f of None \<Rightarrow> Inr r | Some ev \<Rightarrow> run_callback sys ev r))
      else Inr r)"

definition run_ready :: "os \<Rightarrow> u32 \<Rightarrow> evp \<Rightarrow> Reactor \<Rightarrow> Reactor res" where
  "run_ready sys revents ptr r =
     res_bind (get_ev r ptr) (\<lambda>e.
     res_bind (run_type sys revents EPOLLIN (ev_fd e) r) (\<lambda>r1.
       run_type sys revents EPOLLOUT (ev_fd e) r1))"

fun run_batch :: "(os \<times> u32 \<times> evp) list \<Rightarrow> Reactor \<Rightarrow> Reactor res" where
  "run_batch [] r = Inr r"
| "run_batch ((sys, revents, ptr) # rest) r =
     res_bind (run_ready sys revents ptr r) (run_batch rest)"

text \<open>
  \<open>reactor_run\<close> over the results of \<open>epoll_wait\<close>: an error number or the ready entries. It
  returns -1 after an error other than \<open>EAGAIN\<close>; \<open>None\<close> means it is still waiting.
\<close>

fun reactor_run :: "(int + (os \<times> u32 \<times> evp) list) list \<Rightarrow> Reactor \<Rightarrow> (Reactor \<times> int option) res" where
  "reactor_run [] r = (if r_epoll_fd r < 0 then Inr (r, Some (-1)) else Inr (r, None))"
| "reactor_run (w # ws) r =
     (if r_epoll_fd r < 0 then Inr (r, Some (-1))
      else case w of
          Inl err \<Rightarrow> if err = EAGAIN then reactor_run ws r else Inr (r, Some (-1))
        | Inr batch \<Rightarrow> res_bind (run_batch batch r) (reactor_run ws))"

text \<open>
  \<open>init_server\<close> over the results of its system calls: the descriptor or -1, and the sockets
  it leaves open. \<open>inet_pton\<close> returns 0 for text that is no address, which is not tested.
\<close>

record net =
  n_socket :: int
  n_pton :: int
  n_bind :: int
  n_listen :: int

definition init_server :: "net \<Rightarrow> int \<times> int list" where
  "init_server n =
     (let sock_fd = n_socket n
      in if sock_fd = -1 then (-1, [])
         else if n_pton n = -1 then (-1, [sock_fd])
         else if n_bind n = -1 then (-1, [sock_fd])
         else if n_listen n = -1 then (-1, [sock_fd])
         else (sock_fd, [sock_fd]))"

text \<open>
  \<open>main\<close>: the exit status once it ends (\<open>None\<close> while the reactor waits) and the last state of
  the reactor.
\<close>

definition reactor_main ::
    "nat \<Rightarrow> net \<Rightarrow> int \<Rightarrow> bool \<Rightarrow> os \<Rightarrow> (int + (os \<times> u32 \<times> evp) list) list
     \<Rightarrow> (Reactor option \<times> int option) res" where
  "reactor_main argc n epfd malloc_ok sys waits =
     (if argc \<noteq> 3 then Inr (None, Some 1)
      else let sock_fd = fst (init_server n)
           in case reactor_init epfd malloc_ok of
                None \<Rightarrow> Inr (None, Some 1)
              | Some r \<Rightarrow>
                  res_bind (reactor_addlistener sys sock_fd r) (\<lambda>(r1, _).
                  res_bind (reactor_run waits r1) (\<lambda>(r2, ret).
                    case ret of
                      None \<Rightarrow> Inr (Some r2, None)
                    | Some _ \<Rightarrow> Inr (Some (sys_close sock_fd r2), Some 0))))"

section \<open>The lists of events\<close>

primrec dll :: "(evp \<Rightarrow> Revent option) \<Rightarrow> evp option \<Rightarrow> evp option \<Rightarrow> evp list \<Rightarrow> bool" where
  "dll h pr hp [] = (hp = None)"
| "dll h pr hp (p # ps) =
     (hp = Some p \<and> (case h p of None \<Rightarrow> False
                    | Some e \<Rightarrow> ev_prev e = pr \<and> dll h (Some p) (ev_next e) ps))"

text \<open>The event types of a list, as the kernel is told them.\<close>

definition types_of :: "(evp \<Rightarrow> Revent option) \<Rightarrow> evp list \<Rightarrow> u32" where
  "types_of h ps = foldr (\<lambda>p a. (case h p of None \<Rightarrow> 0 | Some e \<Rightarrow> ev_events e) OR a) ps 0"

definition node_ok :: "int \<Rightarrow> Revent \<Rightarrow> bool" where
  "node_ok fd e = (ev_fd e = fd \<and> ev_arg e \<and> ev_status e = 1 \<and> length (ev_buffer e) = MAX_BUFFER_SIZE \<and>
     0 \<le> ev_length e \<and> ev_length e \<le> int MAX_BUFFER_SIZE \<and>
     (if ev_callback e = Send_callback then ev_events e = EPOLLOUT else ev_events e = EPOLLIN))"

text \<open>
  The state agrees with the abstract one, which is the list of events of each descriptor:
  the lists are well linked and share no event, every allocated event is in one of them,
  and the kernel's set has one entry per descriptor with events, holding all their types
  and one of them.
\<close>

definition rinv :: "Reactor \<Rightarrow> (int \<Rightarrow> evp list) \<Rightarrow> bool" where
  "rinv r L \<longleftrightarrow>
     0 \<le> r_epoll_fd r \<and> length (r_events r) = MAX_EPOLL_EVENTS \<and>
     (\<forall>fd. L fd \<noteq> [] \<longrightarrow> 0 \<le> fd \<and> nat fd < MAX_EPOLL_EVENTS) \<and>
     (\<forall>i < MAX_EPOLL_EVENTS. dll (r_heap r) None (r_events r ! i) (L (int i))) \<and>
     (\<forall>fd. distinct (L fd)) \<and>
     (\<forall>fd. \<forall>p \<in> set (L fd). \<exists>e. r_heap r p = Some e \<and> node_ok fd e) \<and>
     dom (r_heap r) = (\<Union>fd. set (L fd)) \<and>
     (\<forall>fd. L fd = [] \<longrightarrow> r_kset r fd = None) \<and>
     (\<forall>fd. L fd \<noteq> [] \<longrightarrow> (\<exists>p \<in> set (L fd). r_kset r fd = Some (types_of (r_heap r) (L fd), p)))"

lemma dll_cong: "(\<And>p. p \<in> set ps \<Longrightarrow> h p = h' p) \<Longrightarrow> dll h pr hp ps = dll h' pr hp ps"
  by (induction ps arbitrary: pr hp) (auto split: option.splits)

lemma types_of_cong:
  "(\<And>p. p \<in> set ps \<Longrightarrow> h p = h' p) \<Longrightarrow> types_of h ps = types_of h' ps"
  by (induction ps) (auto simp: types_of_def)

lemma ev_types_unfold:
  "ev_types h None acc = Some (Inr acc)"
  "h p = Some e \<Longrightarrow> ev_types h (Some p) acc = ev_types h (ev_next e) (acc OR ev_events e)"
  by (subst ev_types.simps; simp)+

lemma ev_find_unfold:
  "ev_find h None ty = Some (Inr None)"
  "h p = Some e \<Longrightarrow> ev_find h (Some p) ty =
     (if ev_events e AND ty \<noteq> 0 then Some (Inr (Some p)) else ev_find h (ev_next e) ty)"
  by (subst ev_find.simps; simp)+

lemma ev_types_dll: "dll h pr hp ps \<Longrightarrow> ev_types h hp acc = Some (Inr (acc OR types_of h ps))"
  by (induction ps arbitrary: pr hp acc)
    (auto simp: types_of_def ev_types_unfold or.assoc split: option.splits)

text \<open>The first event of a type, if there is one.\<close>

lemma ev_find_dll:
  "dll h pr hp ps \<Longrightarrow>
     ev_find h hp ty = Some (Inr (find (\<lambda>p. \<exists>e. h p = Some e \<and> ev_events e AND ty \<noteq> 0) ps))"
  by (induction ps arbitrary: pr hp) (auto simp: ev_find_unfold split: option.splits)

text \<open>A stretch of a list: from \<open>hp\<close>, after \<open>pr\<close>, up to \<open>nx\<close>, after \<open>la\<close>.\<close>

primrec seg :: "(evp \<Rightarrow> Revent option) \<Rightarrow> evp option \<Rightarrow> evp option \<Rightarrow> evp list \<Rightarrow> evp option \<Rightarrow> evp option \<Rightarrow> bool" where
  "seg h pr hp [] la nx = (pr = la \<and> hp = nx)"
| "seg h pr hp (p # ps) la nx =
     (hp = Some p \<and> (case h p of None \<Rightarrow> False
                    | Some e \<Rightarrow> ev_prev e = pr \<and> seg h (Some p) (ev_next e) ps la nx))"

lemma seg_cong: "(\<And>p. p \<in> set ps \<Longrightarrow> h p = h' p) \<Longrightarrow> seg h pr hp ps la nx = seg h' pr hp ps la nx"
  by (induction ps arbitrary: pr hp) (auto split: option.splits)

lemma dll_append: "dll h pr hp (xs @ ys) \<longleftrightarrow> (\<exists>la nx. seg h pr hp xs la nx \<and> dll h la nx ys)"
  by (induction xs arbitrary: pr hp) (auto split: option.splits)

lemma seg_append:
  "seg h pr hp (xs @ ys) la nx \<longleftrightarrow> (\<exists>la' nx'. seg h pr hp xs la' nx' \<and> seg h la' nx' ys la nx)"
  by (induction xs arbitrary: pr hp) (auto split: option.splits)

lemma seg_last: "seg h pr hp xs la nx \<Longrightarrow> la = (if xs = [] then pr else Some (last xs))"
  by (induction xs arbitrary: pr hp) (auto split: option.splits if_splits)

lemma dll_hd: "dll h pr hp ps \<Longrightarrow> hp = (case ps of [] \<Rightarrow> None | p # _ \<Rightarrow> Some p)"
  by (cases ps) auto

text \<open>The assignments of \<open>revent_del\<close> to the neighbours, and what they do to the list.\<close>

definition unlink :: "evp \<Rightarrow> Revent \<Rightarrow> (evp \<Rightarrow> Revent option) \<Rightarrow> evp \<Rightarrow> Revent option" where
  "unlink p e h =
     (let h1 = (case ev_prev e of None \<Rightarrow> h | Some q \<Rightarrow> h(q := map_option (\<lambda>x. x\<lparr>ev_next := ev_next e\<rparr>) (h q)));
          h2 = (case ev_next e of None \<Rightarrow> h1 | Some q \<Rightarrow> h1(q := map_option (\<lambda>x. x\<lparr>ev_prev := ev_prev e\<rparr>) (h1 q)))
      in h2(p := map_option (\<lambda>x. x\<lparr>ev_status := 0\<rparr>) (h2 p)))"

lemma dll_set_prev:
  "dll h pr hp ys \<Longrightarrow> distinct ys \<Longrightarrow>
     dll (case hp of None \<Rightarrow> h | Some q \<Rightarrow> h(q := map_option (\<lambda>x. x\<lparr>ev_prev := pr'\<rparr>) (h q))) pr' hp ys"
proof (cases ys)
  case (Cons q qs)
  assume l: "dll h pr hp ys" "distinct ys"
  then obtain e where e: "hp = Some q" "h q = Some e" "dll h (Some q) (ev_next e) qs"
    using Cons by (auto split: option.splits)
  have "dll (h(q \<mapsto> e\<lparr>ev_prev := pr'\<rparr>)) (Some q) (ev_next e) qs"
    using e(3) l(2) Cons by (subst dll_cong [of _ _ h]) auto
  then show ?thesis using Cons e by simp
qed simp

lemma seg_set_next:
  assumes "seg h pr hp xs la nx" "distinct xs" "xs \<noteq> []"
  shows "seg (h(last xs := map_option (\<lambda>x. x\<lparr>ev_next := nx'\<rparr>) (h (last xs)))) pr hp xs la nx'"
proof -
  obtain zs q where xs: "xs = zs @ [q]" using assms(3) by (cases xs rule: rev_cases) auto
  have "seg h pr hp (zs @ [q]) la nx" "q \<notin> set zs" using assms(1, 2) unfolding xs by simp_all
  then obtain la' nq where z: "seg h pr hp zs la' nq" "seg h la' nq [q] la nx"
    by (auto simp only: seg_append)
  then obtain e where e: "h q = Some e" by (cases "h q") simp_all
  have "seg (h(q := map_option (\<lambda>x. x\<lparr>ev_next := nx'\<rparr>) (h q))) pr hp zs la' nq"
    using z(1) \<open>q \<notin> set zs\<close> by (subst seg_cong [of _ _ h]) auto
  then show ?thesis unfolding xs seg_append using z e by (intro exI [of _ la'] exI [of _ nq]) simp
qed

lemma dll_unlink:
  assumes l: "dll h None hp (xs @ p # ys)" and d: "distinct (xs @ p # ys)" and p: "h p = Some e"
  shows "dll (unlink p e h) None (if xs = [] then ev_next e else hp) (xs @ ys)"
proof -
  obtain la nx where "seg h None hp xs la nx" "dll h la nx (p # ys)"
    using l by (auto simp only: dll_append)
  then have sx: "seg h None hp xs la (Some p)" and la: "ev_prev e = la" and sy: "dll h (Some p) (ev_next e) ys"
    using p by auto
  define h1 where "h1 = (case la of None \<Rightarrow> h | Some q \<Rightarrow> h(q := map_option (\<lambda>x. x\<lparr>ev_next := ev_next e\<rparr>) (h q)))"
  define h2 where "h2 = (case ev_next e of None \<Rightarrow> h1 | Some q \<Rightarrow> h1(q := map_option (\<lambda>x. x\<lparr>ev_prev := la\<rparr>) (h1 q)))"
  have ll: "la = (if xs = [] then None else Some (last xs))" by (rule seg_last [OF sx])
  have ny: "ev_next e = (case ys of [] \<Rightarrow> None | q # _ \<Rightarrow> Some q)" by (rule dll_hd [OF sy])
  have s1: "seg h1 None (if xs = [] then ev_next e else hp) xs la (ev_next e)"
    using seg_set_next [OF sx, of "ev_next e"] d ll by (auto simp: h1_def)
  have "xs \<noteq> [] \<Longrightarrow> last xs \<notin> set ys" using d by (cases xs rule: rev_cases) auto
  then have "dll h1 (Some p) (ev_next e) ys"
    using sy ll by (subst dll_cong [of _ _ h]) (auto simp: h1_def)
  from dll_set_prev [OF this] have s2: "dll h2 la (ev_next e) ys" using d by (simp add: h2_def)
  have "seg h2 None (if xs = [] then ev_next e else hp) xs la (ev_next e)"
    using s1 ny d by (subst seg_cong [of _ _ h1]) (auto simp: h2_def split: list.splits)
  then have "dll h2 None (if xs = [] then ev_next e else hp) (xs @ ys)"
    using s2 unfolding dll_append by blast
  moreover have "unlink p e h = h2(p := map_option (\<lambda>x. x\<lparr>ev_status := 0\<rparr>) (h2 p))"
    unfolding unlink_def Let_def la h1_def h2_def by (rule refl)
  ultimately show ?thesis using d by (subst dll_cong [of _ _ h2]) auto
qed

text \<open>An event without its links, which is what the operations on other events keep.\<close>

definition strip :: "Revent \<Rightarrow> Revent" where
  "strip e = e\<lparr>ev_prev := None, ev_next := None\<rparr>"

lemma node_ok_strip: "strip e = strip e' \<Longrightarrow> node_ok fd e = node_ok fd e'"
  by (cases e, cases e') (simp add: strip_def node_ok_def)

lemma strip_links [simp]: "strip (e\<lparr>ev_prev := a\<rparr>) = strip e" "strip (e\<lparr>ev_next := a\<rparr>) = strip e"
  by (simp_all add: strip_def)

definition same_nodes :: "evp set \<Rightarrow> (evp \<Rightarrow> Revent option) \<Rightarrow> (evp \<Rightarrow> Revent option) \<Rightarrow> bool" where
  "same_nodes A h h' = (\<forall>p \<in> A. map_option strip (h p) = map_option strip (h' p))"

lemma same_nodesE:
  assumes "same_nodes A h h'" "p \<in> A" "h p = Some e"
  obtains e' where "h' p = Some e'" "strip e' = strip e"
proof -
  have "map_option strip (h' p) = map_option strip (h p)" using assms(1, 2) unfolding same_nodes_def by simp
  then have "map_option strip (h' p) = Some (strip e)" using assms(3) by simp
  then show ?thesis using that by (cases "h' p") auto
qed

lemma types_of_same: "same_nodes (set ps) h h' \<Longrightarrow> types_of h ps = types_of h' ps"
proof (induction ps)
  case (Cons q ps)
  then have "map_option strip (h q) = map_option strip (h' q)" by (simp add: same_nodes_def)
  moreover have "ev_events e = ev_events (strip e)" for e by (simp add: strip_def)
  ultimately have "(case h q of None \<Rightarrow> 0 | Some e \<Rightarrow> ev_events e) = (case h' q of None \<Rightarrow> 0 | Some e \<Rightarrow> ev_events e)"
    by (cases "h q"; cases "h' q") (auto, metis)
  moreover have "types_of h ps = types_of h' ps" using Cons by (auto simp: same_nodes_def)
  ultimately show ?case by (simp add: types_of_def)
qed (simp add: types_of_def)

lemma unlink_same: "same_nodes (- {p}) h (unlink p e h)"
  by (auto simp: same_nodes_def unlink_def Let_def option.map_comp o_def split: option.splits)

lemma unlink_frame:
  "q \<noteq> p \<Longrightarrow> ev_prev e \<noteq> Some q \<Longrightarrow> ev_next e \<noteq> Some q \<Longrightarrow> unlink p e h q = h q"
  by (auto simp: unlink_def Let_def split: option.splits)

lemma dll_neighbours:
  assumes "dll h None hp (xs @ p # ys)" "distinct (xs @ p # ys)" "h p = Some e"
  shows "ev_prev e = (if xs = [] then None else Some (last xs))"
    "ev_next e = (case ys of [] \<Rightarrow> None | q # _ \<Rightarrow> Some q)"
    "hp = (if xs = [] then Some p else Some (hd xs))"
proof -
  obtain la nx where a: "seg h None hp xs la nx" "dll h la nx (p # ys)"
    using assms(1) by (auto simp only: dll_append)
  then show "ev_prev e = (if xs = [] then None else Some (last xs))" using seg_last [OF a(1)] assms(3) by simp
  show "ev_next e = (case ys of [] \<Rightarrow> None | q # _ \<Rightarrow> Some q)" using a(2) assms(3) by (intro dll_hd [of h "Some p"]) simp
  show "hp = (if xs = [] then Some p else Some (hd xs))" using dll_hd [OF assms(1)] by (cases xs) simp_all
qed

text \<open>The invariant after a change to the list of one descriptor.\<close>

lemma rinv_nodes: "rinv r L \<Longrightarrow> p \<in> set (L fd) \<Longrightarrow> \<exists>e. r_heap r p = Some e \<and> node_ok fd e"
  by (simp add: rinv_def)

lemma rinv_disjoint:
  assumes "rinv r L" "p \<in> set (L fd)" "p \<in> set (L fd')" shows "fd = fd'"
  using rinv_nodes [OF assms(1, 2)] rinv_nodes [OF assms(1, 3)] by (auto simp: node_ok_def)

definition kset_ok :: "(evp \<Rightarrow> Revent option) \<Rightarrow> evp list \<Rightarrow> (u32 \<times> evp) option \<Rightarrow> bool" where
  "kset_ok h ps k = (if ps = [] then k = None else \<exists>p \<in> set ps. k = Some (types_of h ps, p))"

lemma rinv_kset: "rinv r L \<Longrightarrow> kset_ok (r_heap r) (L fd) (r_kset r fd)"
  by (simp add: rinv_def kset_ok_def)

lemma rinv_change:
  assumes inv: "rinv r L" and fd: "0 \<le> fd" "nat fd < MAX_EPOLL_EVENTS"
    and ep: "r_epoll_fd r' = r_epoll_fd r" and es: "length (r_events r') = length (r_events r)"
    and others: "\<And>i. i \<noteq> nat fd \<Longrightarrow> r_events r' ! i = r_events r ! i"
    and frame: "\<And>q. q \<notin> set (L fd) \<Longrightarrow> q \<notin> set ps \<Longrightarrow> r_heap r' q = r_heap r q"
    and fresh: "\<And>q fd'. q \<in> set ps \<Longrightarrow> q \<in> set (L fd') \<Longrightarrow> fd' = fd"
    and l: "dll (r_heap r') None (r_events r' ! nat fd) ps" "distinct ps"
    and nodes: "\<And>q. q \<in> set ps \<Longrightarrow> \<exists>e. r_heap r' q = Some e \<and> node_ok fd e"
    and gone: "\<And>q. q \<in> set (L fd) \<Longrightarrow> q \<notin> set ps \<Longrightarrow> r_heap r' q = None"
    and k: "kset_ok (r_heap r') ps (r_kset r' fd)" "\<And>fd'. fd' \<noteq> fd \<Longrightarrow> r_kset r' fd' = r_kset r fd'"
  shows "rinv r' (L(fd := ps))"
proof -
  have same: "r_heap r' q = r_heap r q" if "q \<in> set (L fd')" "fd' \<noteq> fd" for q fd'
    using that rinv_disjoint [OF inv, of q fd' fd] fresh [of q fd'] by (intro frame) auto
  have other_dll: "dll (r_heap r') None (r_events r' ! i) (L (int i))" if "i < MAX_EPOLL_EVENTS" "i \<noteq> nat fd" for i
  proof -
    have "dll (r_heap r) None (r_events r ! i) (L (int i))" using inv that(1) by (simp add: rinv_def)
    moreover have "r_heap r' q = r_heap r q" if "q \<in> set (L (int i))" for q
      using that \<open>i \<noteq> nat fd\<close> by (intro same) auto
    ultimately show ?thesis using others [OF that(2)] dll_cong [of "L (int i)" "r_heap r'" "r_heap r"] by simp
  qed
  have other_nodes: "\<exists>e. r_heap r' q = Some e \<and> node_ok fd' e" if "q \<in> set (L fd')" "fd' \<noteq> fd" for q fd'
    using rinv_nodes [OF inv that(1)] same [OF that] by simp
  have other_k: "kset_ok (r_heap r') (L fd') (r_kset r' fd')" if "fd' \<noteq> fd" for fd'
    using rinv_kset [OF inv, of fd'] k(2) [OF that] types_of_cong [of "L fd'" "r_heap r'" "r_heap r"] same that
    by (simp add: kset_ok_def)
  have allk: "kset_ok (r_heap r') ((L(fd := ps)) fd') (r_kset r' fd')" for fd'
    using other_k k(1) by (cases "fd' = fd") simp_all
  have doms: "dom (r_heap r) = (\<Union>fd. set (L fd))" using inv by (simp add: rinv_def)
  have "q \<in> (\<Union>fd'. set ((L(fd := ps)) fd'))" if "q \<in> dom (r_heap r')" for q
  proof (cases "q \<in> set ps")
    case False
    then have "q \<notin> set (L fd)" using gone [of q] that by (auto simp: dom_def)
    then have "q \<in> dom (r_heap r)" using frame [of q] False that by (simp add: dom_def)
    then obtain fd' where "q \<in> set (L fd')" using doms by auto
    then show ?thesis using \<open>q \<notin> set (L fd)\<close> by (intro UN_I [of fd']) auto
  qed (auto intro: UN_I [of fd])
  moreover have "q \<in> dom (r_heap r')" if "q \<in> set ((L(fd := ps)) fd')" for q fd'
    using that nodes [of q] other_nodes [of q fd'] by (cases "fd' = fd") auto
  ultimately have dom': "dom (r_heap r') = (\<Union>fd'. set ((L(fd := ps)) fd'))" by blast
  show ?thesis unfolding rinv_def
  proof (intro conjI allI impI ballI)
    show "0 \<le> r_epoll_fd r'" "length (r_events r') = MAX_EPOLL_EVENTS"
      using inv ep es by (simp_all add: rinv_def)
    fix fd' assume "(L(fd := ps)) fd' \<noteq> []"
    then show "0 \<le> fd'" "nat fd' < MAX_EPOLL_EVENTS"
      using inv fd by (cases "fd' = fd"; simp add: rinv_def)+
  next
    fix i assume "i < MAX_EPOLL_EVENTS"
    then show "dll (r_heap r') None (r_events r' ! i) ((L(fd := ps)) (int i))"
      using other_dll [of i] l(1) fd by (cases "i = nat fd") auto
  next
    fix fd' show "distinct ((L(fd := ps)) fd')" using inv l(2) by (simp add: rinv_def)
  next
    fix fd' q assume "q \<in> set ((L(fd := ps)) fd')"
    then show "\<exists>e. r_heap r' q = Some e \<and> node_ok fd' e"
      using nodes [of q] other_nodes [of q fd'] by (cases "fd' = fd") simp_all
  next
    show "dom (r_heap r') = (\<Union>fd'. set ((L(fd := ps)) fd'))" by (rule dom')
  next
    fix fd' assume "(L(fd := ps)) fd' = []"
    then show "r_kset r' fd' = None" using allk [of fd'] by (simp only: kset_ok_def if_True)
  next
    fix fd' assume "(L(fd := ps)) fd' \<noteq> []"
    then show "\<exists>p \<in> set ((L(fd := ps)) fd'). r_kset r' fd' = Some (types_of (r_heap r') ((L(fd := ps)) fd'), p)"
      using allk [of fd'] by (simp only: kset_ok_def if_False)
  qed
qed

section \<open>Removing an event\<close>

lemma get_ev_ok: "r_heap r p = Some e \<Longrightarrow> get_ev r p = Inr e"
  by (simp add: get_ev_def)

lemma set_ev_ok: "r_heap r p = Some e \<Longrightarrow> set_ev p f r = Inr (r\<lparr>r_heap := (r_heap r)(p \<mapsto> f e)\<rparr>)"
  by (simp add: set_ev_def get_ev_ok)

lemma free_ev_ok: "r_heap r p = Some e \<Longrightarrow> free_ev p r = Inr (r\<lparr>r_heap := (r_heap r)(p := None)\<rparr>)"
  by (simp add: free_ev_def get_ev_ok)

lemma rinv_fd: "rinv r L \<Longrightarrow> L fd \<noteq> [] \<Longrightarrow> 0 \<le> fd \<and> nat fd < MAX_EPOLL_EVENTS"
  by (simp add: rinv_def)

lemma rinv_dll: "rinv r L \<Longrightarrow> 0 \<le> fd \<Longrightarrow> nat fd < MAX_EPOLL_EVENTS \<Longrightarrow>
    dll (r_heap r) None (r_events r ! nat fd) (L fd) \<and> distinct (L fd)"
  unfolding rinv_def by (metis int_nat_eq)

lemma fd_head_ok: "rinv r L \<Longrightarrow> 0 \<le> fd \<Longrightarrow> nat fd < MAX_EPOLL_EVENTS \<Longrightarrow> fd_head r fd = Inr (r_events r ! nat fd)"
  by (simp add: fd_head_def rinv_def mem_simps)

lemma set_head_ok:
  "length (r_events r) = MAX_EPOLL_EVENTS \<Longrightarrow> 0 \<le> fd \<Longrightarrow> nat fd < MAX_EPOLL_EVENTS \<Longrightarrow>
     set_head fd h r = Inr (r\<lparr>r_events := (r_events r)[nat fd := h]\<rparr>)"
  by (simp add: set_head_def mem_simps)

lemmas rok = get_ev_ok set_ev_ok free_ev_ok set_head_ok

text \<open>The links of \<open>revent_del\<close>: the assignments before the kernel is told.\<close>

definition del_links :: "evp \<Rightarrow> Revent \<Rightarrow> Reactor \<Rightarrow> Reactor" where
  "del_links p e r = r\<lparr>r_events := (if ev_prev e = None then (r_events r)[nat (ev_fd e) := ev_next e] else r_events r),
     r_heap := unlink p e (r_heap r)\<rparr>"

lemma revent_unlink_eq:
  assumes "length (r_events r) = MAX_EPOLL_EVENTS" "0 \<le> ev_fd e" "nat (ev_fd e) < MAX_EPOLL_EVENTS"
    and "(r_events r ! nat (ev_fd e) = Some p) = (ev_prev e = None)" and "r_heap r p = Some e"
    and "\<And>q. ev_prev e = Some q \<Longrightarrow> \<exists>x. r_heap r q = Some x"
    and "\<And>q. ev_next e = Some q \<Longrightarrow> \<exists>x. r_heap r q = Some x"
  shows "revent_unlink p e r = Inr (del_links p e r)"
proof -
  have fd: "fd_head r (ev_fd e) = Inr (r_events r ! nat (ev_fd e))"
    using assms(1-3) by (simp add: fd_head_def mem_simps)
  show ?thesis
    using assms(6, 7) assms(1-5)
    by (cases "ev_prev e"; cases "ev_next e")
      (auto simp: revent_unlink_def fd set_head_ok set_ev_def get_ev_def del_links_def unlink_def Let_def)
qed

definition ctl_ok :: "os \<Rightarrow> bool" where
  "ctl_ok sys = (\<not> os_ctl_fails sys EPOLL_CTL_MOD \<and> \<not> os_ctl_fails sys EPOLL_CTL_DEL)"

lemma types_of_nonzero:
  assumes "ps \<noteq> []" "\<And>q. q \<in> set ps \<Longrightarrow> \<exists>e. h q = Some e \<and> node_ok fd e"
  shows "types_of h ps \<noteq> 0"
proof -
  obtain q qs where ps: "ps = q # qs" using assms(1) by (cases ps) auto
  obtain e where e: "h q = Some e" "ev_events e = EPOLLIN \<or> ev_events e = EPOLLOUT"
    using assms(2) [of q] ps by (auto simp: node_ok_def split: if_splits)
  have "types_of h ps = ev_events e OR types_of h qs" using e ps by (simp add: types_of_def)
  moreover have "bit (ev_events e) 0 \<or> bit (ev_events e) 2"
    using e(2) by (auto simp: EPOLLIN_def EPOLLOUT_def)
  ultimately show ?thesis by (auto simp: bit_or_iff dest: arg_cong [where f = "\<lambda>x. bit x 0"] arg_cong [where f = "\<lambda>x. bit x 2"])
qed

lemma revent_del_eq:
  assumes inv: "rinv r L" and L: "L fd = xs @ p # ys" and p: "r_heap r p = Some e" and ok: "ctl_ok sys"
  shows "revent_del sys p r = Inr ((del_links p e r)\<lparr>r_kset := (r_kset r)(fd :=
     (if xs @ ys = [] then None else Some (types_of (unlink p e (r_heap r)) (xs @ ys), hd (xs @ ys))))\<rparr>, 0)"
proof -
  have fd: "0 \<le> fd" "nat fd < MAX_EPOLL_EVENTS" using rinv_fd [OF inv, of fd] L by auto
  have pin: "p \<in> set (L fd)" using L by simp
  have n: "ev_fd e = fd" "ev_arg e" "ev_status e = 1"
    using rinv_nodes [OF inv pin] p by (auto simp: node_ok_def)
  have ep: "\<not> r_epoll_fd r < 0" and len: "length (r_events r) = MAX_EPOLL_EVENTS" using inv by (auto simp: rinv_def)
  have d: "dll (r_heap r) None (r_events r ! nat fd) (xs @ p # ys)" "distinct (xs @ p # ys)"
    using rinv_dll [OF inv fd] L by auto
  note nb = dll_neighbours [OF d p]
  have nn: "\<exists>x. r_heap r q = Some x" if "q \<in> set (xs @ ys)" for q using rinv_nodes [OF inv, of q fd] that L by auto
  have ul: "revent_unlink p e r = Inr (del_links p e r)"
  proof (rule revent_unlink_eq)
    show "(r_events r ! nat (ev_fd e) = Some p) = (ev_prev e = None)"
      using nb(1, 3) d(2) n(1) by (cases xs) auto
    show "\<And>q. ev_prev e = Some q \<Longrightarrow> \<exists>x. r_heap r q = Some x"
      using nb(1) nn by (auto split: if_splits)
    show "\<And>q. ev_next e = Some q \<Longrightarrow> \<exists>x. r_heap r q = Some x"
      using nb(2) nn by (auto split: list.splits)
  qed (use len fd n p in simp_all)
  let ?h = "unlink p e (r_heap r)"
  have hd': "r_events (del_links p e r) ! nat fd = (if xs = [] then ev_next e else r_events r ! nat fd)"
    using nb(1) n(1) len fd by (simp add: del_links_def)
  have l': "dll ?h None (if xs = [] then ev_next e else r_events r ! nat fd) (xs @ ys)"
    by (rule dll_unlink [OF d p])
  have head': "fd_head (del_links p e r) fd = Inr (case xs @ ys of [] \<Rightarrow> None | q # _ \<Rightarrow> Some q)"
    using dll_hd [OF l'] hd' len fd by (simp add: fd_head_def mem_simps del_links_def)
  have types: "ev_types ?h (case xs @ ys of [] \<Rightarrow> None | q # _ \<Rightarrow> Some q) 0 = Some (Inr (types_of ?h (xs @ ys)))"
    using ev_types_dll [OF l', of 0] dll_hd [OF l'] by simp
  have same: "same_nodes (set (xs @ ys)) (r_heap r) ?h"
    using unlink_same [of p "r_heap r" e] d(2) by (auto simp: same_nodes_def)
  have nz: "types_of ?h (xs @ ys) \<noteq> 0" if "xs @ ys \<noteq> []"
  proof (rule types_of_nonzero [OF that, of _ fd])
    fix q assume q: "q \<in> set (xs @ ys)"
    then obtain x where x: "r_heap r q = Some x" "node_ok fd x" using rinv_nodes [OF inv, of q fd] L by auto
    from same_nodesE [OF same q x(1)] obtain x' where "?h q = Some x'" "strip x' = strip x" by blast
    then show "\<exists>e. ?h q = Some e \<and> node_ok fd e" using node_ok_strip x(2) by blast
  qed
  have z: "types_of ?h [] = 0" by (simp add: types_of_def)
  have k: "r_kset r fd \<noteq> None" using rinv_kset [OF inv, of fd] L by (auto simp: kset_ok_def)
  have [simp]: "r_heap (del_links p e r) = ?h" "r_kset (del_links p e r) = r_kset r" by (simp_all add: del_links_def)
  show ?thesis
    unfolding revent_del_def get_ev_ok [OF p] Let_def
    using n ep ok k z nz head' types by (cases "xs @ ys")
      (simp_all add: ul or_diverges_def epoll_ctl_def kset_ctl_def ctl_ok_def ENOENT_def)
qed

lemma unlink_self:
  "h p = Some e \<Longrightarrow> ev_prev e \<noteq> Some p \<Longrightarrow> ev_next e \<noteq> Some p \<Longrightarrow>
     unlink p e h p = Some (e\<lparr>ev_status := 0\<rparr>)"
  by (auto simp: unlink_def Let_def split: option.splits)

lemma del_free_ok:
  assumes inv: "rinv r L" and p: "p \<in> set (L fd)" and ok: "ctl_ok sys"
  shows "\<exists>r'. del_free sys p r = Inr r' \<and> rinv r' (L(fd := remove1 p (L fd))) \<and> r_log r' = r_log r \<and>
     same_nodes (- {p}) (r_heap r) (r_heap r')"
proof -
  obtain e where e: "r_heap r p = Some e" "node_ok fd e" using rinv_nodes [OF inv p] by blast
  obtain xs ys where L: "L fd = xs @ p # ys" using split_list [OF p] by blast
  have fd: "0 \<le> fd" "nat fd < MAX_EPOLL_EVENTS" using rinv_fd [OF inv, of fd] L by auto
  have d: "dll (r_heap r) None (r_events r ! nat fd) (xs @ p # ys)" "distinct (xs @ p # ys)"
    using rinv_dll [OF inv fd] L by auto
  have len: "length (r_events r) = MAX_EPOLL_EVENTS" using inv by (simp add: rinv_def)
  have efd: "ev_fd e = fd" using e(2) by (simp add: node_ok_def)
  note nb = dll_neighbours [OF d e(1)]
  have pn: "ev_prev e \<noteq> Some p" "ev_next e \<noteq> Some p"
    using nb(1, 2) d(2) last_in_set [of xs] by (auto split: if_splits list.splits)
  let ?h = "unlink p e (r_heap r)"
  let ?r = "(del_links p e r)\<lparr>r_kset := (r_kset r)(fd :=
     (if xs @ ys = [] then None else Some (types_of ?h (xs @ ys), hd (xs @ ys)))), r_heap := ?h(p := None)\<rparr>"
  have eq: "del_free sys p r = Inr ?r"
    using revent_del_eq [OF inv L e(1) ok] unlink_self [of "r_heap r" p e] e(1) pn
    by (simp add: del_free_def free_ev_ok del_links_def)
  have pnot: "p \<notin> set (xs @ ys)" using d(2) by simp
  have same: "same_nodes (- {p}) (r_heap r) (?h(p := None))"
    using unlink_same [of p "r_heap r" e] by (simp add: same_nodes_def)
  have "rinv ?r (L(fd := xs @ ys))"
  proof (rule rinv_change [OF inv fd])
    show "r_heap ?r q = r_heap r q" if "q \<notin> set (L fd)" "q \<notin> set (xs @ ys)" for q
    proof -
      have "xs \<noteq> [] \<Longrightarrow> last xs \<noteq> q" using that(2) by (cases xs rule: rev_cases) auto
      then show ?thesis using that L nb(1, 2) unlink_frame [of q p e "r_heap r"]
        by (auto split: if_splits list.splits)
    qed
    show "fd' = fd" if "q \<in> set (xs @ ys)" "q \<in> set (L fd')" for q fd'
      using rinv_disjoint [OF inv, of q fd' fd] that L by auto
    have "dll (?h(p := None)) None (if xs = [] then ev_next e else r_events r ! nat fd) (xs @ ys)"
      using dll_unlink [OF d e(1)] pnot by (subst dll_cong [of _ _ ?h]) auto
    then show "dll (r_heap ?r) None (r_events ?r ! nat fd) (xs @ ys)"
      using nb(1) efd len fd by (cases "xs = []") (simp_all add: del_links_def)
    show "distinct (xs @ ys)" using d(2) by auto
    show "\<exists>e. r_heap ?r q = Some e \<and> node_ok fd e" if q: "q \<in> set (xs @ ys)" for q
    proof -
      obtain x where x: "r_heap r q = Some x" "node_ok fd x" using rinv_nodes [OF inv, of q fd] L q by auto
      have "q \<in> - {p}" using pnot q by auto
      from same_nodesE [OF same this x(1)] obtain x' where "(?h(p := None)) q = Some x'" "strip x' = strip x" by blast
      then show ?thesis using node_ok_strip [of x' x fd] x(2) by auto
    qed
    show "r_heap ?r q = None" if "q \<in> set (L fd)" "q \<notin> set (xs @ ys)" for q using that L by auto
    have "types_of (?h(p := None)) (xs @ ys) = types_of ?h (xs @ ys)"
      using pnot by (intro types_of_cong) auto
    then show "kset_ok (r_heap ?r) (xs @ ys) (r_kset ?r fd)"
      by (cases "xs @ ys") (simp_all add: kset_ok_def)
  qed (simp_all add: del_links_def efd)
  moreover have "remove1 p (L fd) = xs @ ys" using L d(2) by (simp add: remove1_append)
  ultimately show ?thesis using eq same by (intro exI [of _ ?r]) (simp add: del_links_def)
qed

section \<open>Adding an event\<close>

text \<open>An event that is allocated, set, and in no list yet.\<close>

definition fresh_event :: "int \<Rightarrow> Revent \<Rightarrow> bool" where
  "fresh_event fd e = (ev_status e = 0 \<and> node_ok fd (e\<lparr>ev_status := 1\<rparr>) \<and> ev_prev e = None \<and> ev_next e = None)"

text \<open>The store after the links of \<open>revent_add\<close> are set.\<close>

definition add_links :: "evp \<Rightarrow> Revent \<Rightarrow> evp option \<Rightarrow> (evp \<Rightarrow> Revent option) \<Rightarrow> evp \<Rightarrow> Revent option" where
  "add_links p e hp h =
     (case hp of None \<Rightarrow> h | Some q \<Rightarrow> h(q := map_option (\<lambda>x. x\<lparr>ev_prev := Some p\<rparr>) (h q)))
       (p \<mapsto> e\<lparr>ev_next := hp, ev_status := 1\<rparr>)"

lemma dll_add_links:
  assumes "dll h None hp ps" "distinct ps" "p \<notin> set ps" "ev_prev e = None"
  shows "dll (add_links p e hp h) None (Some p) (p # ps)"
proof -
  have "dll (case hp of None \<Rightarrow> h | Some q \<Rightarrow> h(q := map_option (\<lambda>x. x\<lparr>ev_prev := Some p\<rparr>) (h q))) (Some p) hp ps"
    by (rule dll_set_prev [OF assms(1, 2)])
  then have "dll (add_links p e hp h) (Some p) hp ps"
    using assms(3) unfolding add_links_def by (subst (asm) dll_cong) auto
  then show ?thesis using assms(4) by (simp add: add_links_def)
qed

lemma add_links_same: "same_nodes (- {p}) h (add_links p e hp h)"
  by (auto simp: same_nodes_def add_links_def option.map_comp o_def split: option.splits)

lemma revent_add_eq:
  assumes inv: "rinv r L" and fd: "0 \<le> fd" "nat fd < MAX_EPOLL_EVENTS"
    and p: "r_heap r p = None" and e: "fresh_event fd e"
  defines "hp \<equiv> r_events r ! nat fd"
  defines "h' \<equiv> add_links p e hp ((r_heap r)(p \<mapsto> e))"
  defines "r' \<equiv> r\<lparr>r_events := (r_events r)[nat fd := Some p], r_heap := h',
                   r_kset := (r_kset r)(fd \<mapsto> (types_of h' (p # L fd), p))\<rparr>"
  shows "(if L fd = [] then \<not> os_ctl_fails sys EPOLL_CTL_ADD else \<not> os_ctl_fails sys EPOLL_CTL_MOD) \<Longrightarrow>
           revent_add sys p (r\<lparr>r_heap := (r_heap r)(p \<mapsto> e)\<rparr>) = Inr (r', 0)" (is "?ok \<Longrightarrow> _")
    and "L fd = [] \<Longrightarrow> os_ctl_fails sys EPOLL_CTL_ADD \<Longrightarrow>
           revent_add sys p (r\<lparr>r_heap := (r_heap r)(p \<mapsto> e)\<rparr>) = Inr (r\<lparr>r_heap := (r_heap r)(p \<mapsto> e)\<rparr>, -1)"
    and "L fd \<noteq> [] \<Longrightarrow> os_ctl_fails sys EPOLL_CTL_MOD \<Longrightarrow>
           revent_add sys p (r\<lparr>r_heap := (r_heap r)(p \<mapsto> e)\<rparr>)
             = Inr (r\<lparr>r_heap := h'(p \<mapsto> e\<lparr>ev_next := hp, ev_status := 0\<rparr>)\<rparr>, -1)"
proof -
  have ep: "\<not> r_epoll_fd r < 0" and len: "length (r_events r) = MAX_EPOLL_EVENTS" using inv by (auto simp: rinv_def)
  have d: "dll (r_heap r) None hp (L fd)" "distinct (L fd)" using rinv_dll [OF inv fd] hp_def by auto
  have pL: "p \<notin> set (L fd)" using rinv_nodes [OF inv, of p fd] p by auto
  have n: "ev_fd e = fd" "ev_arg e" "ev_status e = 0" "ev_prev e = None" "ev_next e = None"
    using e by (auto simp: fresh_event_def node_ok_def)
  have d1: "dll ((r_heap r)(p \<mapsto> e)) None hp (L fd)" using d(1) pL by (subst dll_cong [of _ _ "r_heap r"]) auto
  have d': "dll h' None (Some p) (p # L fd)" unfolding h'_def by (rule dll_add_links [OF d1 d(2) pL n(4)])
  have types: "ev_types h' (Some p) 0 = Some (Inr (types_of h' (p # L fd)))" using ev_types_dll [OF d', of 0] by simp
  have hq: "\<exists>q x. hp = Some q \<and> q \<noteq> p \<and> r_heap r q = Some x \<and> L fd \<noteq> []" if "hp \<noteq> None"
    using d(1) pL that by (cases "L fd") (auto split: option.splits)
  have kN: "r_kset r fd = None" if "L fd = []" using rinv_kset [OF inv, of fd] that by (simp add: kset_ok_def)
  have kS: "\<exists>t q. r_kset r fd = Some (t, q)" if "L fd \<noteq> []"
    using rinv_kset [OF inv, of fd] that by (auto simp: kset_ok_def)
  have hpL: "hp = None \<longleftrightarrow> L fd = []" using d(1) by (cases "L fd") auto
  have head: "fd_head (r\<lparr>r_heap := x\<rparr>) fd = Inr hp" for x using fd len by (simp add: fd_head_def hp_def mem_simps)
  have bak: "(r_events r)[nat fd := hp] = r_events r" by (simp add: hp_def)
  let ?rl = "r\<lparr>r_events := (r_events r)[nat fd := Some p], r_heap := h'\<rparr>"
  let ?r0 = "r\<lparr>r_heap := (r_heap r)(p \<mapsto> e)\<rparr>"
  have link: "revent_link p fd ?r0 = Inr ?rl"
  proof (cases hp)
    case None
    then have "h' = (r_heap r)(p \<mapsto> e\<lparr>ev_status := 1\<rparr>)" using n by (cases e) (simp add: h'_def add_links_def)
    then show ?thesis using None len fd by (simp add: revent_link_def head set_head_ok set_ev_ok)
  next
    case (Some q)
    then obtain x where x: "q \<noteq> p" "r_heap r q = Some x" using hq by auto
    have "h' = (r_heap r)(q \<mapsto> x\<lparr>ev_prev := Some p\<rparr>, p \<mapsto> e\<lparr>ev_next := Some q, ev_status := 1\<rparr>)"
      using x Some by (auto simp: h'_def add_links_def fun_upd_twist)
    moreover have "e\<lparr>ev_next := Some q, ev_prev := None, ev_status := 1\<rparr> = e\<lparr>ev_next := Some q, ev_status := 1\<rparr>"
      using n(4) by (cases e) simp
    ultimately show ?thesis using Some x len fd
      by (simp add: revent_link_def head set_head_ok set_ev_ok fun_upd_twist)
  qed
  have hp': "h' p = Some (e\<lparr>ev_next := hp, ev_status := 1\<rparr>)" by (simp add: h'_def add_links_def)
  have rl: "fd_head ?rl fd = Inr (Some p)" using fd len by (simp add: fd_head_def mem_simps)
  note defs = revent_add_def get_ev_def n link ep epoll_ctl_def kset_ctl_def or_diverges_def types ENOENT_def EEXIST_def ENOSPC_def
  show "revent_add sys p ?r0 = Inr (r', 0)" if ?ok
  proof (cases "L fd = []")
    case True
    have "types_of h' [p] = ev_events e" using hp' by (simp add: types_of_def)
    then show ?thesis using that True kN by (simp add: defs r'_def)
  next
    case False
    then obtain t q where "r_kset r fd = Some (t, q)" using kS by blast
    then show ?thesis using that False by (simp add: defs r'_def)
  qed
  have undo: "r\<lparr>r_events := (r_events r)[nat fd := hp], r_heap := x\<rparr> = r\<lparr>r_heap := x\<rparr>" for x
    unfolding bak by (cases r) simp
  show "revent_add sys p ?r0 = Inr (?r0, -1)" if "L fd = []" "os_ctl_fails sys EPOLL_CTL_ADD"
  proof -
    have "hp = None" using that(1) hpL by blast
    then have "h'(p \<mapsto> e\<lparr>ev_next := hp, ev_status := 0\<rparr>) = (r_heap r)(p \<mapsto> e)"
      using n by (cases e) (simp add: h'_def add_links_def)
    then show ?thesis using that len fd kN by (simp add: defs hp' rl set_head_ok set_ev_ok undo)
  qed
  show "revent_add sys p ?r0 = Inr (r\<lparr>r_heap := h'(p \<mapsto> e\<lparr>ev_next := hp, ev_status := 0\<rparr>)\<rparr>, -1)"
    if ne: "L fd \<noteq> []" and fails: "os_ctl_fails sys EPOLL_CTL_MOD"
  proof -
    obtain t q where "r_kset r fd = Some (t, q)" using kS [OF ne] by blast
    then show ?thesis using ne fails len fd by (simp add: defs hp' rl set_head_ok set_ev_ok undo)
  qed
qed

lemma revent_add_ok:
  assumes inv: "rinv r L" and fd: "0 \<le> fd" "nat fd < MAX_EPOLL_EVENTS"
    and p: "r_heap r p = None" and e: "fresh_event fd e"
    and ok: "if L fd = [] then \<not> os_ctl_fails sys EPOLL_CTL_ADD else \<not> os_ctl_fails sys EPOLL_CTL_MOD"
  shows "\<exists>r'. revent_add sys p (r\<lparr>r_heap := (r_heap r)(p \<mapsto> e)\<rparr>) = Inr (r', 0) \<and> rinv r' (L(fd := p # L fd)) \<and>
     r_log r' = r_log r \<and> same_nodes (- {p}) (r_heap r) (r_heap r') \<and>
     map_option strip (r_heap r' p) = Some (strip (e\<lparr>ev_status := 1\<rparr>))"
proof -
  let ?h = "add_links p e (r_events r ! nat fd) ((r_heap r)(p \<mapsto> e))"
  let ?r = "r\<lparr>r_events := (r_events r)[nat fd := Some p], r_heap := ?h,
              r_kset := (r_kset r)(fd \<mapsto> (types_of ?h (p # L fd), p))\<rparr>"
  have len: "length (r_events r) = MAX_EPOLL_EVENTS" using inv by (simp add: rinv_def)
  have d: "dll (r_heap r) None (r_events r ! nat fd) (L fd)" "distinct (L fd)" using rinv_dll [OF inv fd] by auto
  have pL: "p \<notin> set (L fd')" for fd' using rinv_nodes [OF inv, of p fd'] p by auto
  have d1: "dll ((r_heap r)(p \<mapsto> e)) None (r_events r ! nat fd) (L fd)"
    using d(1) pL [of fd] by (subst dll_cong [of _ _ "r_heap r"]) auto
  have hq: "r_events r ! nat fd = (case L fd of [] \<Rightarrow> None | q # _ \<Rightarrow> Some q)" by (rule dll_hd [OF d(1)])
  have same: "same_nodes (- {p}) (r_heap r) ?h"
    using add_links_same [of p "(r_heap r)(p \<mapsto> e)" e "r_events r ! nat fd"] by (simp add: same_nodes_def)
  have "rinv ?r (L(fd := p # L fd))"
  proof (rule rinv_change [OF inv fd])
    show "r_heap ?r q = r_heap r q" if "q \<notin> set (L fd)" "q \<notin> set (p # L fd)" for q
      using that hq by (auto simp: add_links_def split: option.splits list.splits)
    show "fd' = fd" if "q \<in> set (p # L fd)" "q \<in> set (L fd')" for q fd'
      using rinv_disjoint [OF inv, of q fd' fd] that pL by auto
    show "dll (r_heap ?r) None (r_events ?r ! nat fd) (p # L fd)"
      using dll_add_links [OF d1 d(2) pL, of e] e len fd by (simp add: fresh_event_def)
    show "distinct (p # L fd)" using d(2) pL by simp
    show "\<exists>e. r_heap ?r q = Some e \<and> node_ok fd e" if q: "q \<in> set (p # L fd)" for q
    proof (cases "q = p")
      case True
      then show ?thesis using e by (simp add: add_links_def fresh_event_def node_ok_def split: if_splits)
    next
      case False
      then obtain x where x: "r_heap r q = Some x" "node_ok fd x" using rinv_nodes [OF inv, of q fd] q by auto
      have "q \<in> - {p}" using False by simp
      from same_nodesE [OF same this x(1)] obtain x' where "?h q = Some x'" "strip x' = strip x" by blast
      then show ?thesis using node_ok_strip [of x' x fd] x(2) by auto
    qed
  qed (simp_all add: kset_ok_def)
  moreover have "strip (e\<lparr>ev_next := x, ev_status := 1\<rparr>) = strip (e\<lparr>ev_status := 1\<rparr>)" for x by (simp add: strip_def)
  ultimately show ?thesis using revent_add_eq(1) [OF inv fd p e ok] same
    by (intro exI [of _ ?r]) (simp add: add_links_def)
qed

text \<open>Closing a descriptor: all its events go, and only those.\<close>

lemma free_fd_events_ok:
  assumes "rinv r L" "0 \<le> fd" "nat fd < MAX_EPOLL_EVENTS" "ctl_ok sys"
  shows "\<exists>r'. free_fd_events sys fd r = Some (Inr r') \<and> rinv r' (L(fd := [])) \<and> r_log r' = r_log r"
  using assms(1)
proof (induction "L fd" arbitrary: r L)
  case Nil
  then have "fd_head r fd = Inr None"
    using rinv_dll [OF Nil(2) assms(2, 3)] fd_head_ok [OF Nil(2) assms(2, 3)] by (metis dll.simps(1))
  moreover have "L(fd := []) = L" using Nil(1) by auto
  ultimately show ?case using Nil(2) by (subst free_fd_events.simps) simp
next
  case (Cons p ps)
  have "fd_head r fd = Inr (Some p)"
    using rinv_dll [OF Cons(3) assms(2, 3)] fd_head_ok [OF Cons(3) assms(2, 3)] Cons(2) by (metis dll.simps(2))
  moreover obtain r1 where r1: "del_free sys p r = Inr r1" "rinv r1 (L(fd := remove1 p (L fd)))" "r_log r1 = r_log r"
    using del_free_ok [OF Cons(3), of p fd sys] Cons(2) assms(4) by (metis list.set_intros(1))
  moreover have "remove1 p (L fd) = ps" using Cons(2) by (metis remove1.simps(2))
  ultimately show ?case using Cons(1) [of "L(fd := ps)" r1] by (subst free_fd_events.simps) auto
qed

section \<open>Callbacks\<close>

text \<open>What the callbacks rely on: memory, a new descriptor in range, fewer than 4096 bytes received.\<close>

definition renv_ok :: "os \<Rightarrow> Reactor \<Rightarrow> bool" where
  "renv_ok sys r =
     (ctl_ok sys \<and> (case os_malloc sys of None \<Rightarrow> False | Some p \<Rightarrow> r_heap r p = None) \<and>
      (os_accept sys = -1 \<or>
         (0 \<le> os_accept sys \<and> nat (os_accept sys) < MAX_EPOLL_EVENTS \<and> r_events r ! nat (os_accept sys) = None)) \<and>
      (os_recv sys > 0 \<longrightarrow> length (os_data sys) = nat (os_recv sys) \<and> nat (os_recv sys) < MAX_BUFFER_SIZE))"

lemma dll_data:
  "(\<And>p. p \<in> set ps \<Longrightarrow> map_option (\<lambda>e. (ev_prev e, ev_next e)) (h p) = map_option (\<lambda>e. (ev_prev e, ev_next e)) (h' p)) \<Longrightarrow>
     dll h pr hp ps \<Longrightarrow> dll h' pr hp ps"
proof (induction ps arbitrary: pr hp)
  case (Cons p ps)
  obtain e where e: "hp = Some p" "h p = Some e" "ev_prev e = pr" "dll h (Some p) (ev_next e) ps"
    using Cons(3) by (auto split: option.splits)
  obtain e' where e': "h' p = Some e'" "ev_prev e' = pr" "ev_next e' = ev_next e"
    using Cons(2) [of p] e by (cases "h' p") auto
  have "dll h' (Some p) (ev_next e) ps" using Cons(1) [OF Cons(2) e(4)] by simp
  then show ?case using e e' by simp
qed simp

lemma rinv_data:
  assumes inv: "rinv r L" and p: "p \<in> set (L fd)" "r_heap r p = Some e"
    and e': "node_ok fd e'" "ev_prev e' = ev_prev e" "ev_next e' = ev_next e" "ev_events e' = ev_events e"
  shows "rinv (r\<lparr>r_heap := (r_heap r)(p \<mapsto> e')\<rparr>) L"
proof -
  let ?r = "r\<lparr>r_heap := (r_heap r)(p \<mapsto> e')\<rparr>"
  have "L fd \<noteq> []" using p by auto
  then have fd: "0 \<le> fd" "nat fd < MAX_EPOLL_EVENTS" using rinv_fd [OF inv, of fd] by auto
  have d: "dll (r_heap r) None (r_events r ! nat fd) (L fd)" "distinct (L fd)" using rinv_dll [OF inv fd] by auto
  have t: "types_of (r_heap ?r) ps = types_of (r_heap r) ps" for ps
    using p(2) e'(4) by (induction ps) (auto simp: types_of_def)
  have "rinv ?r (L(fd := L fd))"
  proof (rule rinv_change [OF inv fd])
    show "dll (r_heap ?r) None (r_events ?r ! nat fd) (L fd)"
      using p(2) e' by (auto intro!: dll_data [OF _ d(1)])
    show "\<exists>e. r_heap ?r q = Some e \<and> node_ok fd e" if "q \<in> set (L fd)" for q
      using rinv_nodes [OF inv that] e'(1) by auto
    show "kset_ok (r_heap ?r) (L fd) (r_kset ?r fd)"
      using rinv_kset [OF inv, of fd] t by (simp add: kset_ok_def)
    show "fd' = fd" if "q \<in> set (L fd)" "q \<in> set (L fd')" for q fd'
      using rinv_disjoint [OF inv that] by simp
  qed (use p d(2) in auto)
  then show ?thesis by simp
qed

lemma rinv_close: "rinv r L \<Longrightarrow> L fd = [] \<Longrightarrow> rinv (sys_close fd r) L"
  by (auto simp: rinv_def sys_close_def)

lemma rinv_log: "rinv r L \<Longrightarrow> rinv (r\<lparr>r_log := l\<rparr>) L"
  by (simp add: rinv_def)

text \<open>Allocating and setting an event, as \<open>malloc\<close>, \<open>memset\<close> and \<open>revent_set\<close> leave it.\<close>

definition made :: "os \<Rightarrow> int \<Rightarrow> u32 \<Rightarrow> int \<Rightarrow> ncallback \<Rightarrow> u8 list \<Rightarrow> Revent" where
  "made sys fd event len callback buf =
     \<lparr>ev_fd = fd, ev_events = event, ev_arg = True, ev_callback = callback, ev_status = 0, ev_buffer = buf,
      ev_length = len, ev_last_active = os_time sys, ev_prev = None, ev_next = None\<rparr>"

lemma fresh_made:
  "length buf = MAX_BUFFER_SIZE \<Longrightarrow> 0 \<le> len \<Longrightarrow> len \<le> int MAX_BUFFER_SIZE \<Longrightarrow>
     event = (if callback = Send_callback then EPOLLOUT else EPOLLIN) \<Longrightarrow>
     fresh_event fd (made sys fd event len callback buf)"
  by (simp add: fresh_event_def node_ok_def made_def)

lemma EPOLL_small: "EPOLLIN < 0x80000000" "EPOLLOUT < 0x80000000"
  by (simp_all add: EPOLLIN_def EPOLLOUT_def word_less_nat_alt)

lemma new_set:
  assumes "os_malloc sys = Some p" "0 \<le> fd" "0 \<le> len" "event < 0x80000000"
  shows "res_bind (new_ev sys r) (\<lambda>(r1, p). res_bind (revent_set sys p fd event len 0 callback r1) (\<lambda>(r2, _). k p r2))
    = k p (r\<lparr>r_heap := (r_heap r)(p \<mapsto> made sys fd event len callback (replicate MAX_BUFFER_SIZE 0))\<rparr>)"
  using assms by (simp add: new_ev_def revent_set_def set_ev_ok made_def flip: not_less)

lemma reactor_addlistener_ok:
  assumes inv: "rinv r L" and env: "renv_ok sys r" and fd: "0 \<le> fd" "nat fd < MAX_EPOLL_EVENTS" "L fd = []"
  shows "\<exists>r' L'. reactor_addlistener sys fd r = Inr (r', 0) \<and> rinv r' L' \<and>
     (if os_ctl_fails sys EPOLL_CTL_ADD then L' = L else L' = L(fd := [the (os_malloc sys)]))"
proof -
  obtain p where p: "os_malloc sys = Some p" "r_heap r p = None" using env by (auto simp: renv_ok_def split: option.splits)
  let ?e = "made sys fd EPOLLIN 0 Accept_callback (replicate MAX_BUFFER_SIZE 0)"
  have e: "fresh_event fd ?e" by (rule fresh_made) simp_all
  show ?thesis
  proof (cases "os_ctl_fails sys EPOLL_CTL_ADD")
    case True
    have "(r_heap r)(p := None) = r_heap r" using p by auto
    then have "reactor_addlistener sys fd r = Inr (r, 0)"
      using revent_add_eq(2) [OF inv fd(1, 2) p(2) e fd(3) True] fd p
      by (simp add: reactor_addlistener_def new_set EPOLL_small free_ev_ok)
    then show ?thesis using inv True by auto
  next
    case False
    then obtain r' where "revent_add sys p (r\<lparr>r_heap := (r_heap r)(p \<mapsto> ?e)\<rparr>) = Inr (r', 0)" "rinv r' (L(fd := p # L fd))"
      using revent_add_ok [OF inv fd(1, 2) p(2) e, of sys] fd(3) by auto
    then show ?thesis using False fd p by (auto simp: reactor_addlistener_def new_set EPOLL_small)
  qed
qed

lemma accept_callback_ok:
  assumes inv: "rinv r L" and env: "renv_ok sys r"
  defines "c \<equiv> os_accept sys"
  shows "\<exists>r' ret L'. accept_callback sys fd ev r = Inr (r', ret) \<and> rinv r' L' \<and>
     (if c = -1 then L' = L \<and> ret = -1 else if os_ctl_fails sys EPOLL_CTL_ADD then L' = L \<and> ret = -1
      else L' = L(c := [the (os_malloc sys)]) \<and> ret = c)"
proof (cases "c = -1")
  case True then show ?thesis using inv by (simp add: accept_callback_def c_def)
next
  case c: False
  obtain p where p: "os_malloc sys = Some p" "r_heap r p = None" using env by (auto simp: renv_ok_def split: option.splits)
  have fd: "0 \<le> c" "nat c < MAX_EPOLL_EVENTS" "r_events r ! nat c = None" using c env by (auto simp: renv_ok_def c_def)
  have Lc: "L c = []" using rinv_dll [OF inv fd(1, 2)] fd(3) by (cases "L c") auto
  let ?e = "made sys c EPOLLIN 0 Recv_callback (replicate MAX_BUFFER_SIZE 0)"
  have e: "fresh_event c ?e" by (rule fresh_made) simp_all
  show ?thesis
  proof (cases "os_ctl_fails sys EPOLL_CTL_ADD")
    case True
    have "(r_heap r)(p := None) = r_heap r" using p by auto
    then have "accept_callback sys fd ev r = Inr (sys_close c r, -1)"
      using revent_add_eq(2) [OF inv fd(1, 2) p(2) e Lc True] fd p c
      by (simp add: accept_callback_def new_set EPOLL_small free_ev_ok Let_def c_def)
    then show ?thesis using rinv_close [OF inv Lc] True c by auto
  next
    case False
    then obtain r' where "revent_add sys p (r\<lparr>r_heap := (r_heap r)(p \<mapsto> ?e)\<rparr>) = Inr (r', 0)" "rinv r' (L(c := [p]))"
      using revent_add_ok [OF inv fd(1, 2) p(2) e, of sys] Lc by auto
    then show ?thesis using False fd p c
      by (auto simp: accept_callback_def new_set EPOLL_small Let_def c_def)
  qed
qed

lemma recv_close_ok:
  assumes inv: "rinv r L" and ok: "ctl_ok sys" and fd: "0 \<le> fd" "nat fd < MAX_EPOLL_EVENTS"
    and rc: "os_recv sys \<le> 0" "os_recv_errno sys \<noteq> EAGAIN"
  shows "\<exists>r'. recv_callback sys fd ev r = Inr (r', os_recv sys) \<and> rinv r' (L(fd := [])) \<and>
     r_log r' = r_log r @ [Closed fd] \<and> r_kset r' fd = None"
proof -
  obtain r1 where r1: "free_fd_events sys fd r = Some (Inr r1)" "rinv r1 (L(fd := []))" "r_log r1 = r_log r"
    using free_fd_events_ok [OF inv fd ok] by blast
  have inv': "rinv (sys_close fd r1) (L(fd := []))" by (rule rinv_close [OF r1(2)]) simp
  have len: "length (r_events (sys_close fd r1)) = MAX_EPOLL_EVENTS" using inv' by (simp add: rinv_def)
  have "r_events (sys_close fd r1) ! nat fd = None" using rinv_dll [OF inv' fd] by simp
  then have id: "(r_events (sys_close fd r1))[nat fd := None] = r_events (sys_close fd r1)" by (metis list_update_id)
  have "recv_callback sys fd ev r = Inr (sys_close fd r1, os_recv sys)"
    using rc r1(1) fd len by (simp add: recv_callback_def or_diverges_def set_head_ok id)
  then show ?thesis using inv' r1(3) by (simp add: sys_close_def)
qed

text \<open>The buffer of the answer: the bytes up to the first 0.\<close>

definition echo_buf :: "u8 list \<Rightarrow> u8 list" where
  "echo_buf data = (let s = takeWhile (\<lambda>b. b \<noteq> 0) data in s @ replicate (MAX_BUFFER_SIZE - length s) 0)"

lemma strcpy_received:
  assumes "length data < MAX_BUFFER_SIZE" "length buf = MAX_BUFFER_SIZE"
  defines "b1 \<equiv> data @ drop (length data) buf"
  shows "c_strcpy (replicate MAX_BUFFER_SIZE 0) (b1[length data := 0]) = Inr (echo_buf data)"
proof -
  let ?s = "takeWhile (\<lambda>b. b \<noteq> 0) data"
  have b: "b1[length data := 0] = data @ 0 # drop (Suc (length data)) buf"
    using assms(1, 2) by (simp add: b1_def list_update_append Cons_nth_drop_Suc [symmetric])
  have tw: "takeWhile (\<lambda>b. b \<noteq> 0) (b1[length data := 0]) = ?s"
  proof -
    have "takeWhile (\<lambda>b. b \<noteq> 0) (data @ 0 # xs) = ?s" for xs by (induction data) auto
    then show ?thesis by (simp only: b)
  qed
  have ls: "length ?s \<le> length data" by (rule length_takeWhile_le)
  have ne: "?s \<noteq> b1[length data := 0]" using ls assms(1, 2) by (auto simp: b dest: arg_cong [where f = length])
  have "drop (Suc (length ?s)) (replicate MAX_BUFFER_SIZE (0 :: u8)) = replicate (MAX_BUFFER_SIZE - Suc (length ?s)) 0"
    by simp
  moreover have "0 # replicate (MAX_BUFFER_SIZE - Suc (length ?s)) (0 :: u8) = replicate (MAX_BUFFER_SIZE - length ?s) 0"
  proof -
    have "MAX_BUFFER_SIZE - length ?s = Suc (MAX_BUFFER_SIZE - Suc (length ?s))" using ls assms(1) by linarith
    then show ?thesis by (simp only: replicate_Suc)
  qed
  ultimately show ?thesis
    using ls assms(1) ne by (simp add: c_strcpy_def tw Let_def mem_write_ok echo_buf_def)
qed

lemma recv_data_ok:
  assumes inv: "rinv r L" and env: "renv_ok sys r" and ev: "ev \<in> set (L fd)" and rc: "os_recv sys > 0"
  shows "\<exists>r' w e'. os_malloc sys = Some w \<and> recv_callback sys fd ev r = Inr (r', os_recv sys) \<and>
     rinv r' (L(fd := w # L fd)) \<and> r_log r' = r_log r \<and>
     r_heap r' w = Some e' \<and> ev_callback e' = Send_callback \<and> ev_events e' = EPOLLOUT \<and>
     ev_length e' = os_recv sys \<and> ev_buffer e' = echo_buf (os_data sys)"
proof -
  obtain w where w: "os_malloc sys = Some w" "r_heap r w = None" using env by (auto simp: renv_ok_def split: option.splits)
  obtain e where e: "r_heap r ev = Some e" "node_ok fd e" using rinv_nodes [OF inv ev] by blast
  have Lne: "L fd \<noteq> []" using ev by auto
  then have fd: "0 \<le> fd" "nat fd < MAX_EPOLL_EVENTS" using rinv_fd [OF inv, of fd] by auto
  have dat: "length (os_data sys) = nat (os_recv sys)" "length (os_data sys) < MAX_BUFFER_SIZE"
    using env rc by (auto simp: renv_ok_def)
  have buf: "length (ev_buffer e) = MAX_BUFFER_SIZE" using e(2) by (simp add: node_ok_def)
  define b2 where "b2 = (os_data sys @ drop (length (os_data sys)) (ev_buffer e))[length (os_data sys) := 0]"
  define r1 where "r1 = r\<lparr>r_heap := (r_heap r)(ev \<mapsto> e\<lparr>ev_buffer := b2\<rparr>)\<rparr>"
  have lb2: "length b2 = MAX_BUFFER_SIZE" using buf dat by (simp add: b2_def)
  have inv1: "rinv r1 L" unfolding r1_def
    using e lb2 by (intro rinv_data [OF inv ev e(1)]) (auto simp: node_ok_def split: if_splits)
  have "w \<noteq> ev" using w e by auto
  then have w1: "r_heap r1 w = None" using w by (simp add: r1_def)
  let ?e = "made sys fd EPOLLOUT (os_recv sys) Send_callback (echo_buf (os_data sys))"
  have lech: "length (echo_buf (os_data sys)) = MAX_BUFFER_SIZE"
    using dat(2) length_takeWhile_le [of "\<lambda>b. b \<noteq> 0" "os_data sys"] by (simp add: echo_buf_def Let_def)
  have fe: "fresh_event fd ?e" using rc dat lech by (intro fresh_made) auto
  have "\<not> os_ctl_fails sys EPOLL_CTL_MOD" using env by (simp add: renv_ok_def ctl_ok_def)
  then obtain r' where r': "revent_add sys w (r1\<lparr>r_heap := (r_heap r1)(w \<mapsto> ?e)\<rparr>) = Inr (r', 0)"
    "rinv r' (L(fd := w # L fd))" "r_log r' = r_log r1" "map_option strip (r_heap r' w) = Some (strip (?e\<lparr>ev_status := 1\<rparr>))"
    using revent_add_ok [OF inv1 fd w1 fe, of sys] Lne by auto
  have "recv_callback sys fd ev r = Inr (r', os_recv sys)"
    using rc dat buf w fd r'(1) strcpy_received [OF dat(2) buf] e(1)
    by (simp add: recv_callback_def Let_def get_ev_ok mem_write_ok mem_set_ok set_ev_ok new_ev_def made_def
          r1_def b2_def revent_set_def EPOLL_small flip: not_less)
  moreover obtain e' where "r_heap r' w = Some e'" "strip e' = strip (?e\<lparr>ev_status := 1\<rparr>)" using r'(4) by auto
  moreover from this(2) have "ev_callback e' = Send_callback" "ev_events e' = EPOLLOUT"
     "ev_length e' = os_recv sys" "ev_buffer e' = echo_buf (os_data sys)"
    by (cases e', simp add: strip_def made_def)+
  ultimately show ?thesis using r' w by (intro exI [of _ r'] exI [of _ w] exI [of _ e']) (simp add: r1_def)
qed

lemma send_callback_ok:
  assumes inv: "rinv r L" and ok: "ctl_ok sys" and ev: "ev \<in> set (L fd)" "r_heap r ev = Some e"
  defines "ps \<equiv> (if os_send sys > 0 \<or> os_send_errno sys \<noteq> EPIPE then remove1 ev (L fd) else [])"
  shows "\<exists>r'. send_callback sys fd ev r = Inr (r', os_send sys) \<and> rinv r' (L(fd := ps)) \<and>
     r_log r' = r_log r @ (if os_send sys > 0 then [Sent fd (take (nat (os_send sys)) (take (nat (ev_length e)) (ev_buffer e)))] else [])
       @ (if ps = [] then [Closed fd] else [])"
proof -
  have fd: "0 \<le> fd" "nat fd < MAX_EPOLL_EVENTS" using rinv_fd [OF inv, of fd] ev(1) by (auto dest: length_pos_if_in_set)
  have n: "node_ok fd e" using rinv_nodes [OF inv ev(1)] ev(2) by simp
  have "nat (ev_length e) \<le> length (ev_buffer e)" using n by (auto simp: node_ok_def)
  then have rd: "mem_read (ev_buffer e) 0 (nat (ev_length e)) = Inr (take (nat (ev_length e)) (ev_buffer e))"
    by (simp add: mem_read_ok)
  define r0 where "r0 = (if os_send sys > 0 then r\<lparr>r_log := r_log r @ [Sent fd (take (nat (os_send sys)) (take (nat (ev_length e)) (ev_buffer e)))]\<rparr> else r)"
  have inv0: "rinv r0 L" using inv by (simp add: r0_def rinv_log)
  have "\<exists>r2. (if os_send sys > 0 \<or> os_send_errno sys \<noteq> EPIPE then del_free sys ev r0
              else or_diverges (free_fd_events sys fd r0)) = Inr r2 \<and> rinv r2 (L(fd := ps)) \<and> r_log r2 = r_log r0"
    using del_free_ok [OF inv0 ev(1) ok] free_fd_events_ok [OF inv0 fd ok] by (auto simp: ps_def or_diverges_def)
  then obtain r2 where r2: "(if os_send sys > 0 \<or> os_send_errno sys \<noteq> EPIPE then del_free sys ev r0
              else or_diverges (free_fd_events sys fd r0)) = Inr r2" "rinv r2 (L(fd := ps))" "r_log r2 = r_log r0" by blast
  have h: "fd_head r2 fd = Inr (case ps of [] \<Rightarrow> None | q # _ \<Rightarrow> Some q)"
    using fd_head_ok [OF r2(2) fd] rinv_dll [OF r2(2) fd] dll_hd [of "r_heap r2" None "r_events r2 ! nat fd" ps] by simp
  have efd: "ev_fd e = fd" using n by (simp add: node_ok_def)
  have "send_callback sys fd ev r = res_bind (Inr r2) (\<lambda>r2. res_bind (fd_head r2 fd) (\<lambda>h.
          Inr (if h = None then sys_close fd r2 else r2, os_send sys)))"
    unfolding send_callback_def Let_def get_ev_ok [OF ev(2)] res_bind_simps(1) rd efd
      r2(1) [unfolded r0_def, symmetric] by (rule refl)
  also have "\<dots> = Inr (if ps = [] then sys_close fd r2 else r2, os_send sys)"
    by (simp add: h split: list.splits)
  finally show ?thesis using r2 rinv_close [OF r2(2), of fd]
    by (auto simp: r0_def sys_close_def)
qed

lemma reactor_init_inv: "reactor_init epfd ok = Some r \<Longrightarrow> 0 \<le> epfd \<Longrightarrow> rinv r (\<lambda>_. [])"
  by (auto simp: reactor_init_def rinv_def split: if_splits)

section \<open>Dispatch\<close>

text \<open>Lists of other descriptors that have events stay as they are.\<close>

definition keeps_others :: "int \<Rightarrow> (int \<Rightarrow> evp list) \<Rightarrow> (int \<Rightarrow> evp list) \<Rightarrow> bool" where
  "keeps_others fd L L' = (\<forall>fd'. fd' \<noteq> fd \<longrightarrow> L fd' \<noteq> [] \<longrightarrow> L' fd' = L fd')"

lemma keeps_others_trans: "keeps_others fd L L' \<Longrightarrow> keeps_others fd L' L'' \<Longrightarrow> keeps_others fd L L''"
  by (simp add: keeps_others_def)

lemma keeps_others_upd [intro]: "keeps_others fd L (L(fd := ps))"
  by (simp add: keeps_others_def)

lemma rinv_keeps_upd: "rinv r' (L(fd := ps)) \<Longrightarrow> \<exists>L'. rinv r' L' \<and> keeps_others fd L L'"
  by blast

lemma keeps_others_refl [intro]: "keeps_others fd L L"
  by (simp add: keeps_others_def)

definition has_type :: "Reactor \<Rightarrow> u32 \<Rightarrow> evp \<Rightarrow> bool" where
  "has_type r ty p = (\<exists>e. r_heap r p = Some e \<and> ev_events e AND ty \<noteq> 0)"

lemma run_type_eq:
  assumes "rinv r L" "0 \<le> fd" "nat fd < MAX_EPOLL_EVENTS" "revents AND ty \<noteq> 0"
  shows "run_type sys revents ty fd r =
     (case find (has_type r ty) (L fd) of None \<Rightarrow> Inr r | Some ev \<Rightarrow> run_callback sys ev r)"
proof -
  have "dll (r_heap r) None (r_events r ! nat fd) (L fd)" using rinv_dll [OF assms(1-3)] by blast
  from ev_find_dll [OF this, of ty]
  have "ev_find (r_heap r) (r_events r ! nat fd) ty = Some (Inr (find (has_type r ty) (L fd)))"
    by (simp add: has_type_def [abs_def])
  then show ?thesis using fd_head_ok [OF assms(1-3)] assms(4) by (simp add: run_type_def or_diverges_def)
qed

lemma run_in_ok:
  assumes inv: "rinv r L" and env: "renv_ok sys r" and fd: "0 \<le> fd" "nat fd < MAX_EPOLL_EVENTS"
  shows "\<exists>r' L'. run_type sys revents EPOLLIN fd r = Inr r' \<and> rinv r' L' \<and> keeps_others fd L L'"
proof (cases "revents AND EPOLLIN \<noteq> 0 \<and> find (has_type r EPOLLIN) (L fd) \<noteq> None")
  case False
  then have "run_type sys revents EPOLLIN fd r = Inr r" using run_type_eq [OF inv fd, of revents EPOLLIN sys]
    by (cases "revents AND EPOLLIN = 0") (simp add: run_type_def, simp)
  then show ?thesis using inv by blast
next
  case True
  then obtain ev where f: "find (has_type r EPOLLIN) (L fd) = Some ev" by auto
  have eq: "run_type sys revents EPOLLIN fd r = run_callback sys ev r"
    using True f run_type_eq [OF inv fd, of revents EPOLLIN sys] by simp
  have ev: "ev \<in> set (L fd)" "has_type r EPOLLIN ev" using f by (auto simp: find_Some_iff)
  obtain e where e: "r_heap r ev = Some e" "node_ok fd e" using rinv_nodes [OF inv ev(1)] by blast
  have cb: "ev_fd e = fd" "ev_callback e \<noteq> Send_callback"
    using e ev(2) by (auto simp: node_ok_def has_type_def EPOLLIN_def EPOLLOUT_def split: if_splits)
  have ok: "ctl_ok sys" using env by (simp add: renv_ok_def)
  have rce: "run_callback sys ev r =
      res_bind ((case ev_callback e of Accept_callback \<Rightarrow> accept_callback | Recv_callback \<Rightarrow> recv_callback
       | Send_callback \<Rightarrow> send_callback) sys fd ev r) (\<lambda>(r1, _). Inr r1)"
    using e cb by (simp add: run_callback_def get_ev_ok)
  show ?thesis
  proof (cases "ev_callback e")
    case Accept_callback
    obtain r' ret L' where a: "accept_callback sys fd ev r = Inr (r', ret)" "rinv r' L'"
      "if os_accept sys = -1 then L' = L \<and> ret = -1 else if os_ctl_fails sys EPOLL_CTL_ADD then L' = L \<and> ret = -1
       else L' = L(os_accept sys := [the (os_malloc sys)]) \<and> ret = os_accept sys"
      using accept_callback_ok [OF inv env, of fd ev] by blast
    have "L (os_accept sys) = []" if "os_accept sys \<noteq> -1"
    proof -
      have "0 \<le> os_accept sys" "nat (os_accept sys) < MAX_EPOLL_EVENTS" "r_events r ! nat (os_accept sys) = None"
        using env that by (auto simp: renv_ok_def)
      then show ?thesis using rinv_dll [OF inv, of "os_accept sys"] by (cases "L (os_accept sys)") auto
    qed
    then have "keeps_others fd L L'" using a(3) by (auto simp: keeps_others_def split: if_splits)
    then show ?thesis using a eq rce Accept_callback by auto
  next
    case Recv_callback
    consider "os_recv sys > 0" | "os_recv sys \<le> 0" "os_recv_errno sys = EAGAIN"
      | "os_recv sys \<le> 0" "os_recv_errno sys \<noteq> EAGAIN" by linarith
    then show ?thesis
    proof cases
      case 1 then show ?thesis using recv_data_ok [OF inv env ev(1)] eq rce Recv_callback
        by (auto intro: rinv_keeps_upd)
    next
      case 2 then show ?thesis using inv eq rce Recv_callback
        by (auto simp: recv_callback_def)
    next
      case 3 then show ?thesis using recv_close_ok [OF inv ok fd, of ev] eq rce Recv_callback
        by (auto intro: rinv_keeps_upd)
    qed
  qed (use cb in simp)
qed

lemma run_out_ok:
  assumes inv: "rinv r L" and ok: "ctl_ok sys" and fd: "0 \<le> fd" "nat fd < MAX_EPOLL_EVENTS"
  shows "\<exists>r' L'. run_type sys revents EPOLLOUT fd r = Inr r' \<and> rinv r' L' \<and> keeps_others fd L L'"
proof (cases "revents AND EPOLLOUT \<noteq> 0 \<and> find (has_type r EPOLLOUT) (L fd) \<noteq> None")
  case False
  then have "run_type sys revents EPOLLOUT fd r = Inr r" using run_type_eq [OF inv fd, of revents EPOLLOUT sys]
    by (cases "revents AND EPOLLOUT = 0") (simp add: run_type_def, simp)
  then show ?thesis using inv by blast
next
  case True
  then obtain ev where f: "find (has_type r EPOLLOUT) (L fd) = Some ev" by auto
  have ev: "ev \<in> set (L fd)" "has_type r EPOLLOUT ev" using f by (auto simp: find_Some_iff)
  obtain e where e: "r_heap r ev = Some e" "node_ok fd e" using rinv_nodes [OF inv ev(1)] by blast
  have cb: "ev_fd e = fd" "ev_callback e = Send_callback"
    using e ev(2) by (auto simp: node_ok_def has_type_def EPOLLIN_def EPOLLOUT_def split: if_splits)
  have "run_type sys revents EPOLLOUT fd r = res_bind (send_callback sys fd ev r) (\<lambda>(r1, _). Inr r1)"
    using True f run_type_eq [OF inv fd, of revents EPOLLOUT sys] e cb by (simp add: run_callback_def get_ev_ok)
  then show ?thesis using send_callback_ok [OF inv ok ev(1) e(1)] by (auto intro: rinv_keeps_upd)
qed

lemma run_ready_ok:
  assumes inv: "rinv r L" and env: "renv_ok sys r" and ptr: "ptr \<in> set (L fd)"
  shows "\<exists>r' L'. run_ready sys revents ptr r = Inr r' \<and> rinv r' L' \<and> keeps_others fd L L'"
proof -
  have fd: "0 \<le> fd" "nat fd < MAX_EPOLL_EVENTS" using rinv_fd [OF inv, of fd] ptr by (auto dest: length_pos_if_in_set)
  obtain e where e: "r_heap r ptr = Some e" "ev_fd e = fd" using rinv_nodes [OF inv ptr] by (auto simp: node_ok_def)
  have ok: "ctl_ok sys" using env by (simp add: renv_ok_def)
  obtain r1 L1 where 1: "run_type sys revents EPOLLIN fd r = Inr r1" "rinv r1 L1" "keeps_others fd L L1"
    using run_in_ok [OF inv env fd] by blast
  obtain r2 L2 where 2: "run_type sys revents EPOLLOUT fd r1 = Inr r2" "rinv r2 L2" "keeps_others fd L1 L2"
    using run_out_ok [OF 1(2) ok fd] by blast
  show ?thesis using e 1 2 keeps_others_trans [OF 1(3) 2(3)] by (auto simp: run_ready_def get_ev_ok)
qed

text \<open>What each handled entry finds of the environment.\<close>

fun batch_env :: "(os \<times> u32 \<times> evp) list \<Rightarrow> Reactor \<Rightarrow> bool" where
  "batch_env [] r = True"
| "batch_env ((sys, revents, ptr) # rest) r =
     (renv_ok sys r \<and> (case run_ready sys revents ptr r of Inl _ \<Rightarrow> True | Inr r' \<Rightarrow> batch_env rest r'))"

lemma batch_ok:
  assumes "rinv r L" "batch_env batch r" "distinct fds"
    "list_all2 (\<lambda>(sys, revents, ptr) fd. ptr \<in> set (L fd)) batch fds"
  shows "\<exists>r' L'. run_batch batch r = Inr r' \<and> rinv r' L'"
  using assms
proof (induction batch arbitrary: r L fds)
  case (Cons b rest)
  obtain sys revents ptr where b: "b = (sys, revents, ptr)" by (cases b)
  obtain fd fds' where fds: "fds = fd # fds'" "ptr \<in> set (L fd)"
    "list_all2 (\<lambda>(sys, revents, ptr) fd. ptr \<in> set (L fd)) rest fds'"
    using Cons.prems(4) b by (auto simp: list_all2_Cons1)
  obtain r1 L1 where 1: "run_ready sys revents ptr r = Inr r1" "rinv r1 L1" "keeps_others fd L L1"
    using run_ready_ok [OF Cons.prems(1) _ fds(2), of sys revents] Cons.prems(2) b by auto
  have "L1 fd' = L fd'" if "fd' \<in> set fds'" "L fd' \<noteq> []" for fd'
    using 1(3) that Cons.prems(3) fds(1) by (auto simp: keeps_others_def)
  then have "list_all2 (\<lambda>(sys, revents, ptr) fd. ptr \<in> set (L1 fd)) rest fds'"
    using fds(3) by (auto simp: list_all2_conv_all_nth split: prod.splits) (metis empty_iff empty_set nth_mem)
  then show ?case using Cons.IH [OF 1(2), of fds'] Cons.prems(2, 3) b fds(1) 1(1) by auto
qed auto

section \<open>Properties\<close>


text \<open>
  When a receive event gets data and the descriptor is also writable, the same bytes
  are sent back at once, up to the first 0 byte among them (they are copied with
  \<open>strcpy\<close>): if there is none, exactly the data received. The lists of events are as before.
\<close>

theorem reactor_echoes:
  assumes inv: "rinv r L" and env: "renv_ok sys r" and fd: "find (has_type r EPOLLIN) (L fd) = Some ev"
    and e: "r_heap r ev = Some e" "ev_callback e = Recv_callback"
    and rc: "os_recv sys > 0" "os_send sys = os_recv sys" and nul: "0 \<notin> set (os_data sys)"
    and rev: "revents AND EPOLLIN \<noteq> 0" "revents AND EPOLLOUT \<noteq> 0" and ptr: "ptr \<in> set (L fd)"
  shows "\<exists>r'. run_ready sys revents ptr r = Inr r' \<and> rinv r' L \<and> r_log r' = r_log r @ [Sent fd (os_data sys)]"
proof -
  have ev: "ev \<in> set (L fd)" using fd by (auto simp: find_Some_iff)
  have rng: "0 \<le> fd" "nat fd < MAX_EPOLL_EVENTS" using rinv_fd [OF inv, of fd] ptr by (auto dest: length_pos_if_in_set)
  have ok: "ctl_ok sys" using env by (simp add: renv_ok_def)
  have efd: "ev_fd e = fd" using rinv_nodes [OF inv ev] e(1) by (auto simp: node_ok_def)
  obtain x where x: "r_heap r ptr = Some x" "ev_fd x = fd" using rinv_nodes [OF inv ptr] by (auto simp: node_ok_def)
  obtain r1 w e1 where 1: "recv_callback sys fd ev r = Inr (r1, os_recv sys)" "rinv r1 (L(fd := w # L fd))"
    "r_log r1 = r_log r" "r_heap r1 w = Some e1" "ev_callback e1 = Send_callback" "ev_events e1 = EPOLLOUT"
    "ev_length e1 = os_recv sys" "ev_buffer e1 = echo_buf (os_data sys)"
    using recv_data_ok [OF inv env ev rc(1)] by blast
  have in1: "run_type sys revents EPOLLIN fd r = Inr r1"
    using run_type_eq [OF inv rng rev(1)] fd e efd 1(1) by (simp add: run_callback_def get_ev_ok)
  have "has_type r1 EPOLLOUT w" using 1(4, 6) by (simp add: has_type_def EPOLLOUT_def)
  moreover have "ev_fd e1 = fd" using rinv_nodes [OF 1(2), of w fd] 1(4) by (auto simp: node_ok_def)
  ultimately have out: "run_type sys revents EPOLLOUT fd r1 = res_bind (send_callback sys fd w r1) (\<lambda>(r2, _). Inr r2)"
    using run_type_eq [OF 1(2) rng rev(2)] 1(4, 5) by (simp add: run_callback_def get_ev_ok)
  have tw: "takeWhile (\<lambda>b. b \<noteq> 0) (os_data sys) = os_data sys" using nul by (auto simp: takeWhile_eq_all_conv)
  have "nat (os_recv sys) = length (os_data sys)" using env rc by (simp add: renv_ok_def)
  then have data: "take (nat (os_recv sys)) (take (nat (ev_length e1)) (ev_buffer e1)) = os_data sys"
    unfolding 1(7, 8) echo_buf_def Let_def tw by simp
  have "L fd \<noteq> []" using ev by auto
  then obtain r2 where "send_callback sys fd w r1 = Inr (r2, os_recv sys)" "rinv r2 ((L(fd := w # L fd))(fd := L fd))"
    "r_log r2 = r_log r @ [Sent fd (os_data sys)]"
    using send_callback_ok [OF 1(2) ok _ 1(4), of fd] rc data 1(3) by auto
  then show ?thesis using x in1 out by (simp add: run_ready_def get_ev_ok fun_upd_triv)
qed

text \<open>A server with one client, descriptor 5, waiting for data in event 7; its answer is event 8.\<close>

definition ex_os :: "u8 list \<Rightarrow> os" where
  "ex_os data = \<lparr>os_accept = -1, os_recv = int (length data), os_data = data, os_recv_errno = 0, os_send = int (length data),
     os_send_errno = 0, os_malloc = Some 8, os_ctl_fails = (\<lambda>_. False), os_time = 0\<rparr>"

definition ex_reactor :: Reactor where
  "ex_reactor = \<lparr>r_epoll_fd = 4, r_events = (replicate MAX_EPOLL_EVENTS None)[5 := Some 7],
     r_heap = (\<lambda>_. None)(7 \<mapsto> (made (ex_os []) 5 EPOLLIN 0 Recv_callback (replicate MAX_BUFFER_SIZE 0))\<lparr>ev_status := 1\<rparr>),
     r_kset = (\<lambda>_. None)(5 \<mapsto> (EPOLLIN, 7)), r_log = []\<rparr>"

definition ex_lists :: "int \<Rightarrow> evp list" where
  "ex_lists = (\<lambda>_. [])(5 := [7])"

lemma ex_reactor_inv: "rinv ex_reactor ex_lists"
proof -
  have "nat 5 < MAX_EPOLL_EVENTS" by (simp add: MAX_EPOLL_EVENTS_def)
  then show ?thesis
    unfolding rinv_def ex_reactor_def ex_lists_def
    by (auto simp: nth_list_update made_def node_ok_def types_of_def split: if_splits)
qed

lemma ex_reactor_env: "length data < 100 \<Longrightarrow> renv_ok (ex_os data) ex_reactor"
  by (auto simp: renv_ok_def ex_os_def ex_reactor_def ctl_ok_def MAX_BUFFER_SIZE_def)


theorem reactor_echoes_witness:
  "\<exists>r'. run_ready (ex_os [72, 105]) 5 7 ex_reactor = Inr r' \<and> rinv r' ex_lists \<and>
     r_log r' = [Sent 5 [72, 105]]"
proof -
  have f: "find (has_type ex_reactor EPOLLIN) (ex_lists 5) = Some 7"
    by (simp add: ex_lists_def has_type_def ex_reactor_def made_def EPOLLIN_def)
  have env: "renv_ok (ex_os [72, 105]) ex_reactor" by (rule ex_reactor_env) simp
  obtain e where e: "r_heap ex_reactor 7 = Some e" "ev_callback e = Recv_callback" by (simp add: ex_reactor_def made_def)
  have "r_log ex_reactor = []" "ex_lists 5 = [7]" by (simp_all add: ex_reactor_def ex_lists_def)
  then show ?thesis using reactor_echoes [OF ex_reactor_inv env f e, of 5 7]
    by (simp add: ex_os_def EPOLLIN_def EPOLLOUT_def)
qed

text \<open>
  When receiving fails or the peer has closed (and the error number is not \<open>EAGAIN\<close>),
  all the events of the descriptor are removed and freed, its entry in the epoll set goes,
  it is closed once, and the events of the other descriptors are untouched.
\<close>

theorem recv_close_releases:
  assumes "rinv r L" "ctl_ok sys" "0 \<le> fd" "nat fd < MAX_EPOLL_EVENTS" "os_recv sys \<le> 0" "os_recv_errno sys \<noteq> EAGAIN"
  shows "\<exists>r'. recv_callback sys fd ev r = Inr (r', os_recv sys) \<and> rinv r' (L(fd := [])) \<and>
     r_log r' = r_log r @ [Closed fd] \<and> r_kset r' fd = None \<and> dom (r_heap r') = dom (r_heap r) - set (L fd)"
proof -
  obtain r' where r': "recv_callback sys fd ev r = Inr (r', os_recv sys)" "rinv r' (L(fd := []))"
    "r_log r' = r_log r @ [Closed fd]" "r_kset r' fd = None" using recv_close_ok [OF assms] by blast
  have "dom (r_heap r') = (\<Union>fd'. set ((L(fd := [])) fd'))" "dom (r_heap r) = (\<Union>fd. set (L fd))"
    using r'(2) assms(1) by (simp_all add: rinv_def)
  moreover have "(\<Union>fd'. set ((L(fd := [])) fd')) = (\<Union>fd. set (L fd)) - set (L fd)"
    using rinv_disjoint [OF assms(1)] by (auto split: if_splits)
  ultimately show ?thesis using r' by auto
qed

theorem recv_close_releases_witness:
  "\<exists>r'. recv_callback (ex_os []) 5 7 ex_reactor = Inr (r', 0) \<and> rinv r' (ex_lists(5 := [])) \<and>
     r_log r' = [Closed 5] \<and> r_kset r' 5 = None \<and> dom (r_heap r') = {}"
proof -
  have "r_log ex_reactor = []" "dom (r_heap ex_reactor) = {7}" "set (ex_lists 5) = {7}"
    by (simp_all add: ex_reactor_def ex_lists_def)
  then show ?thesis using recv_close_releases [OF ex_reactor_inv, of "ex_os []" 5 7]
    by (simp add: ex_os_def ctl_ok_def MAX_EPOLL_EVENTS_def EAGAIN_def)
qed

text \<open>
  A failed registration leaves a dangling pointer: if the kernel refuses the change
  when an answer is queued for a descriptor that has events, the new event is freed but the
  old head of the list keeps pointing back at it, and removing that head afterwards writes
  to freed memory.
\<close>

theorem failed_add_dangles:
  assumes inv: "rinv r L" and fd: "0 \<le> fd" "nat fd < MAX_EPOLL_EVENTS" and L: "L fd = q # qs"
    and p: "r_heap r p = None" and e: "fresh_event fd e" and fails: "os_ctl_fails sys EPOLL_CTL_MOD"
  shows "\<exists>r1. res_bind (revent_add sys p (r\<lparr>r_heap := (r_heap r)(p \<mapsto> e)\<rparr>))
                (\<lambda>(r1, ret). if ret < 0 then free_ev p r1 else Inr r1) = Inr r1 \<and>
              revent_del sys' q r1 = Inl Use_after_free"
proof -
  let ?h = "add_links p e (r_events r ! nat fd) ((r_heap r)(p \<mapsto> e))"
  let ?r1 = "r\<lparr>r_heap := ?h(p := None)\<rparr>"
  have ep: "\<not> r_epoll_fd r < 0" and len: "length (r_events r) = MAX_EPOLL_EVENTS" using inv by (auto simp: rinv_def)
  obtain x where x: "r_heap r q = Some x" "node_ok fd x" using rinv_nodes [OF inv, of q fd] L by auto
  have hd: "r_events r ! nat fd = Some q" using rinv_dll [OF inv fd] L by auto
  have "q \<noteq> p" using x p by auto
  then have hq: "(?h(p := None)) q = Some (x\<lparr>ev_prev := Some p\<rparr>)" using x hd by (simp add: add_links_def)
  have "L fd \<noteq> []" using L by simp
  from revent_add_eq(3) [OF inv fd p e this fails]
  have "res_bind (revent_add sys p (r\<lparr>r_heap := (r_heap r)(p \<mapsto> e)\<rparr>))
          (\<lambda>(r1, ret). if ret < 0 then free_ev p r1 else Inr r1) = Inr ?r1"
    by (simp add: free_ev_ok)
  moreover have "revent_del sys' q ?r1 = Inl Use_after_free"
    using x(2) ep hq hd len fd
    by (simp add: revent_del_def get_ev_def node_ok_def revent_unlink_def fd_head_def mem_simps set_head_def set_ev_def Let_def)
  ultimately show ?thesis by blast
qed

theorem failed_add_dangles_witness:
  "\<exists>r1. res_bind (revent_add (ex_os []\<lparr>os_ctl_fails := (\<lambda>_. True)\<rparr>) 8
           (ex_reactor\<lparr>r_heap := (r_heap ex_reactor)(8 \<mapsto> made (ex_os []) 5 EPOLLOUT 0 Send_callback (replicate MAX_BUFFER_SIZE 0))\<rparr>))
                (\<lambda>(r1, ret). if ret < 0 then free_ev 8 r1 else Inr r1) = Inr r1 \<and>
              revent_del (ex_os []) 7 r1 = Inl Use_after_free"
proof (rule failed_add_dangles [OF ex_reactor_inv, of 5])
  show "fresh_event 5 (made (ex_os []) 5 EPOLLOUT 0 Send_callback (replicate MAX_BUFFER_SIZE 0))"
    by (rule fresh_made) simp_all
qed (simp_all add: ex_lists_def ex_reactor_def MAX_EPOLL_EVENTS_def)

text \<open>Receiving as many bytes as the buffer holds writes one past its end.\<close>

theorem recv_full_buffer_overflows:
  assumes "r_heap r ev = Some e" "length (ev_buffer e) = MAX_BUFFER_SIZE"
    "length (os_data sys) = MAX_BUFFER_SIZE" "os_recv sys = int MAX_BUFFER_SIZE"
  shows "recv_callback sys fd ev r = Inl Out_of_bounds"
  using assms by (simp add: recv_callback_def get_ev_ok mem_write_def mem_set_def MAX_BUFFER_SIZE_def)

end
