(* ===== verification/NtyReactor.thy ===== *)
theory NtyReactor
  imports Reactor
begin

text \<open>
  The reactor of \<open>reactor_thread.c\<close>: one event per descriptor, in an array indexed by it; a
  client's event alternates between waiting for data and waiting to send it back. The
  array comes from \<open>malloc\<close> and is not cleared: its first contents are a parameter. The
  pointers the kernel holds are indices of the array.
\<close>

record ntyevent =
  n_fd :: int
  n_events :: u32
  n_arg :: bool
  n_callback :: ncallback
  n_status :: int
  n_buffer :: "u8 list"
  n_length :: int
  n_last_active :: int

record ntyreactor =
  t_epoll_fd :: int
  t_events :: "ntyevent list"
  t_kset :: "int \<Rightarrow> (u32 \<times> evp) option"
  t_log :: "rlog list"

record nos = os +
  os_fcntl :: int

section \<open>Operations\<close>

definition ntyreactor_init :: "int \<Rightarrow> bool \<Rightarrow> ntyevent list option \<Rightarrow> ntyreactor option" where
  "ntyreactor_init epfd malloc_ok mem =
     (if \<not> malloc_ok then None
      else if epfd = -1 then None
      else case mem of
          None \<Rightarrow> None
        | Some es \<Rightarrow> Some \<lparr>t_epoll_fd = epfd, t_events = es, t_kset = (\<lambda>_. None), t_log = []\<rparr>)"

definition ntyreactor_destroy :: "ntyreactor option \<Rightarrow> int" where
  "ntyreactor_destroy t = (case t of None \<Rightarrow> -1 | Some _ \<Rightarrow> 0)"

definition nty_close :: "int \<Rightarrow> ntyreactor \<Rightarrow> ntyreactor" where
  "nty_close fd t = t\<lparr>t_kset := (t_kset t)(fd := None), t_log := t_log t @ [Closed fd]\<rparr>"

definition nty_event_set ::
    "nos \<Rightarrow> nat \<Rightarrow> int \<Rightarrow> u32 \<Rightarrow> int \<Rightarrow> int \<Rightarrow> ncallback \<Rightarrow> ntyreactor \<Rightarrow> (ntyreactor \<times> int) res" where
  "nty_event_set sys i fd event len status callback t =
     (if fd < 0 \<or> event \<ge> 2 ^ 31 \<or> len < 0 \<or> status < 0 then Inr (t, -1)
      else res_bind (mem_get (t_events t) i) (\<lambda>e.
           Inr (t\<lparr>t_events := (t_events t)[i := e\<lparr>n_fd := fd, n_events := event, n_arg := True, n_callback := callback,
             n_status := status, n_length := len, n_last_active := os_time sys\<rparr>]\<rparr>, 0)))"

definition nty_event_add :: "nos \<Rightarrow> nat \<Rightarrow> ntyreactor \<Rightarrow> (ntyreactor \<times> int) res" where
  "nty_event_add sys i t =
     (if t_epoll_fd t < 0 then Inr (t, -1)
      else res_bind (mem_get (t_events t) i) (\<lambda>e.
           let (op, e1) = (if n_status e = 0 then (EPOLL_CTL_ADD, e\<lparr>n_status := 1\<rparr>) else (EPOLL_CTL_MOD, e));
               (k, err) = kset_ctl (os_ctl_fails sys) op (n_fd e) (n_events e, i) (t_kset t)
           in Inr (t\<lparr>t_events := (t_events t)[i := e1], t_kset := k\<rparr>, if err \<noteq> 0 then -1 else 0)))"

definition nty_event_del :: "nos \<Rightarrow> nat \<Rightarrow> ntyreactor \<Rightarrow> (ntyreactor \<times> int) res" where
  "nty_event_del sys i t =
     res_bind (mem_get (t_events t) i) (\<lambda>e.
     if t_epoll_fd t < 0 \<or> n_status e \<noteq> 1 then Inr (t, -1)
     else let (k, err) = kset_ctl (os_ctl_fails sys) EPOLL_CTL_DEL (n_fd e) (0, i) (t_kset t)
          in Inr (t\<lparr>t_events := (t_events t)[i := e\<lparr>n_status := 0\<rparr>], t_kset := k\<rparr>, if err \<noteq> 0 then -1 else 0))"

text \<open>\<open>reactor->events + fd\<close>: a negative index is out of range.\<close>

definition slot :: "int \<Rightarrow> nat res" where
  "slot fd = (if fd < 0 then Inl Out_of_bounds else Inr (nat fd))"

definition ntyreactor_addlistener :: "nos \<Rightarrow> int \<Rightarrow> ntyreactor \<Rightarrow> (ntyreactor \<times> int) res" where
  "ntyreactor_addlistener sys fd t =
     (if fd < 0 then Inr (t, -1)
      else res_bind (nty_event_set sys (nat fd) fd EPOLLIN 0 0 Accept_callback t) (\<lambda>(t1, _).
           res_bind (nty_event_add sys (nat fd) t1) (\<lambda>(t2, _). Inr (t2, 0))))"

text \<open>The search for an event that is not in use; the events looked at are those of the array.\<close>

fun free_slot :: "nat \<Rightarrow> ntyevent list \<Rightarrow> nat" where
  "free_slot i [] = i"
| "free_slot i (e # es) = (if n_status e = 0 then i else free_slot (i + 1) es)"

definition nty_accept_callback :: "nos \<Rightarrow> int \<Rightarrow> ntyreactor \<Rightarrow> (ntyreactor \<times> int) res" where
  "nty_accept_callback sys fd t =
     res_bind (slot fd) (\<lambda>i.
     res_bind (mem_get (t_events t) i) (\<lambda>ev.
     let cli_fd = os_accept sys
     in if cli_fd = -1 then Inr (t, -1)
        else if free_slot 0 (t_events t) = MAX_EPOLL_EVENTS then Inr (t, -1)
        else if os_fcntl sys < 0 then Inr (t, -1)
        else res_bind (slot cli_fd) (\<lambda>j.
             res_bind (nty_event_set sys j cli_fd EPOLLIN 0 0 Recv_callback t) (\<lambda>(t1, _).
             res_bind (nty_event_add sys j t1) (\<lambda>(t2, _). Inr (t2, 0))))))"

definition nty_recv_callback :: "nos \<Rightarrow> int \<Rightarrow> ntyreactor \<Rightarrow> (ntyreactor \<times> int) res" where
  "nty_recv_callback sys fd t =
     res_bind (slot fd) (\<lambda>i.
     res_bind (nty_event_del sys i t) (\<lambda>(t1, _).
     res_bind (mem_get (t_events t1) i) (\<lambda>ev.
     let rc = os_recv sys
     in if rc < 0 then Inr (nty_close (n_fd ev) t1, rc)
        else if rc = 0 then Inr (nty_close (n_fd ev) t1, rc)
        else res_bind (mem_write (n_buffer ev) 0 (os_data sys)) (\<lambda>b1.
             res_bind (mem_set b1 (nat rc) 0) (\<lambda>b2.
             res_bind (nty_event_set sys i (n_fd ev) EPOLLOUT rc 0 Send_callback
                 (t1\<lparr>t_events := (t_events t1)[i := ev\<lparr>n_buffer := b2\<rparr>]\<rparr>)) (\<lambda>(t2, _).
             res_bind (nty_event_add sys i t2) (\<lambda>(t3, _). Inr (t3, rc))))))))"

definition nty_send_callback :: "nos \<Rightarrow> int \<Rightarrow> ntyreactor \<Rightarrow> (ntyreactor \<times> int) res" where
  "nty_send_callback sys fd t =
     res_bind (slot fd) (\<lambda>i.
     res_bind (mem_get (t_events t) i) (\<lambda>ev.
     res_bind (mem_read (n_buffer ev) 0 (nat (n_length ev))) (\<lambda>bytes.
     let rc = os_send sys
     in if rc > 0
        then res_bind (nty_event_del sys i (t\<lparr>t_log := t_log t @ [Sent (n_fd ev) (take (nat rc) bytes)]\<rparr>)) (\<lambda>(t1, _).
             res_bind (nty_event_set sys i (n_fd ev) EPOLLIN 0 0 Recv_callback t1) (\<lambda>(t2, _).
             res_bind (nty_event_add sys i t2) (\<lambda>(t3, _). Inr (t3, rc))))
        else res_bind (nty_event_del sys i (nty_close (n_fd ev) t)) (\<lambda>(t1, _). Inr (t1, rc)))))"

definition nty_callback :: "nos \<Rightarrow> ntyevent \<Rightarrow> ntyreactor \<Rightarrow> ntyreactor res" where
  "nty_callback sys e t =
     res_bind ((case n_callback e of
         Accept_callback \<Rightarrow> nty_accept_callback | Recv_callback \<Rightarrow> nty_recv_callback
       | Send_callback \<Rightarrow> nty_send_callback) sys (n_fd e) t) (\<lambda>(t1, _). Inr t1)"

text \<open>One ready entry: the event is looked at again before the second test.\<close>

definition nty_type :: "nos \<Rightarrow> u32 \<Rightarrow> u32 \<Rightarrow> nat \<Rightarrow> ntyreactor \<Rightarrow> ntyreactor res" where
  "nty_type sys revents ty i t =
     res_bind (mem_get (t_events t) i) (\<lambda>e.
     if revents AND ty \<noteq> 0 \<and> n_events e AND ty \<noteq> 0 then nty_callback sys e t else Inr t)"

definition nty_ready :: "nos \<Rightarrow> u32 \<Rightarrow> nat \<Rightarrow> ntyreactor \<Rightarrow> ntyreactor res" where
  "nty_ready sys revents i t =
     res_bind (nty_type sys revents EPOLLIN i t) (nty_type sys revents EPOLLOUT i)"

fun nty_batch :: "(nos \<times> u32 \<times> nat) list \<Rightarrow> ntyreactor \<Rightarrow> ntyreactor res" where
  "nty_batch [] t = Inr t"
| "nty_batch ((sys, revents, i) # rest) t = res_bind (nty_ready sys revents i t) (nty_batch rest)"

fun ntyreactor_run :: "(int + (nos \<times> u32 \<times> nat) list) list \<Rightarrow> ntyreactor \<Rightarrow> (ntyreactor \<times> int option) res" where
  "ntyreactor_run [] t = (if t_epoll_fd t < 0 then Inr (t, Some (-1)) else Inr (t, None))"
| "ntyreactor_run (w # ws) t =
     (if t_epoll_fd t < 0 then Inr (t, Some (-1))
      else case w of
          Inl err \<Rightarrow> if err = EAGAIN then ntyreactor_run ws t else Inr (t, Some (-1))
        | Inr batch \<Rightarrow> res_bind (nty_batch batch t) (ntyreactor_run ws))"

text \<open>\<open>init_server\<close> is that of \<open>reactor_thread2.c\<close>.\<close>

definition nty_main ::
    "nat \<Rightarrow> net \<Rightarrow> int \<Rightarrow> bool \<Rightarrow> ntyevent list option \<Rightarrow> nos \<Rightarrow> (int + (nos \<times> u32 \<times> nat) list) list
     \<Rightarrow> (ntyreactor option \<times> int option) res" where
  "nty_main argc n epfd malloc_ok mem sys waits =
     (if argc \<noteq> 3 then Inr (None, Some 1)
      else let sock_fd = fst (init_server n)
           in case ntyreactor_init epfd malloc_ok mem of
                None \<Rightarrow> Inr (None, Some 1)
              | Some t \<Rightarrow>
                  res_bind (ntyreactor_addlistener sys sock_fd t) (\<lambda>(t1, _).
                  res_bind (ntyreactor_run waits t1) (\<lambda>(t2, ret).
                    case ret of
                      None \<Rightarrow> Inr (Some t2, None)
                    | Some _ \<Rightarrow> Inr (Some (nty_close sock_fd t2), Some 0))))"

section \<open>Invariant\<close>

definition nev_ok :: "int \<Rightarrow> ntyevent \<Rightarrow> bool" where
  "nev_ok fd e = (n_fd e = fd \<and> n_arg e \<and> n_status e = 1 \<and> 0 \<le> n_length e \<and> n_length e \<le> int MAX_BUFFER_SIZE \<and>
     (if n_callback e = Send_callback then n_events e = EPOLLOUT else n_events e = EPOLLIN))"

text \<open>A registered descriptor has its own event, which waits for what is registered.\<close>

definition ninv :: "ntyreactor \<Rightarrow> bool" where
  "ninv t \<longleftrightarrow> 0 \<le> t_epoll_fd t \<and> length (t_events t) = MAX_EPOLL_EVENTS \<and>
     (\<forall>e \<in> set (t_events t). length (n_buffer e) = MAX_BUFFER_SIZE) \<and>
     (\<forall>fd ty i. t_kset t fd = Some (ty, i) \<longrightarrow>
        0 \<le> fd \<and> i = nat fd \<and> i < MAX_EPOLL_EVENTS \<and> nev_ok fd (t_events t ! i) \<and> n_events (t_events t ! i) = ty)"

definition nenv_ok :: "nos \<Rightarrow> ntyreactor \<Rightarrow> bool" where
  "nenv_ok sys t =
     ((\<forall>op \<in> {EPOLL_CTL_ADD, EPOLL_CTL_MOD, EPOLL_CTL_DEL}. \<not> os_ctl_fails sys op) \<and>
      (os_accept sys = -1 \<or>
         (0 \<le> os_accept sys \<and> nat (os_accept sys) < MAX_EPOLL_EVENTS \<and> t_kset t (os_accept sys) = None)) \<and>
      (os_recv sys > 0 \<longrightarrow> length (os_data sys) = nat (os_recv sys) \<and> nat (os_recv sys) < MAX_BUFFER_SIZE))"

lemma no_fails: "nenv_ok sys t \<Longrightarrow> \<not> os_ctl_fails sys op"
  by (cases op) (simp_all add: nenv_ok_def)

text \<open>The event of one descriptor is rewritten, and registered or not.\<close>

definition nput :: "int \<Rightarrow> ntyevent \<Rightarrow> bool \<Rightarrow> rlog list \<Rightarrow> ntyreactor \<Rightarrow> ntyreactor" where
  "nput fd e reg log t = t\<lparr>t_events := (t_events t)[nat fd := e],
     t_kset := (t_kset t)(fd := if reg then Some (n_events e, nat fd) else None), t_log := log\<rparr>"

lemma ninv_nput:
  assumes "ninv t" "0 \<le> fd" "nat fd < MAX_EPOLL_EVENTS" "length (n_buffer e) = MAX_BUFFER_SIZE" "reg \<Longrightarrow> nev_ok fd e"
  shows "ninv (nput fd e reg log t)"
proof -
  have k: "t_kset t fd' = Some (ty, i) \<Longrightarrow>
      0 \<le> fd' \<and> i = nat fd' \<and> i < MAX_EPOLL_EVENTS \<and> nev_ok fd' (t_events t ! i) \<and> n_events (t_events t ! i) = ty" for fd' ty i
    using assms(1) by (simp add: ninv_def)
  have "0 \<le> fd' \<and> i = nat fd' \<and> i < MAX_EPOLL_EVENTS \<and> nev_ok fd' (t_events (nput fd e reg log t) ! i) \<and>
      n_events (t_events (nput fd e reg log t) ! i) = ty" if r: "t_kset (nput fd e reg log t) fd' = Some (ty, i)" for fd' ty i
  proof (cases "fd' = fd")
    case True
    then show ?thesis using r assms by (auto simp: nput_def ninv_def split: if_splits)
  next
    case False
    then have "t_kset t fd' = Some (ty, i)" using r by (simp add: nput_def)
    then show ?thesis using k [of fd' ty i] False assms(2) by (auto simp: nput_def nth_list_update)
  qed
  moreover have "\<forall>x \<in> set (t_events (nput fd e reg log t)). length (n_buffer x) = MAX_BUFFER_SIZE"
    using assms(1, 4) set_update_subset_insert [of "t_events t" "nat fd" e] by (auto simp: ninv_def nput_def)
  moreover have "0 \<le> t_epoll_fd (nput fd e reg log t)" "length (t_events (nput fd e reg log t)) = MAX_EPOLL_EVENTS"
    using assms(1) by (simp_all add: ninv_def nput_def)
  ultimately show ?thesis unfolding ninv_def by blast
qed

text \<open>Setting an event and registering it; taking a registered one out.\<close>

lemma set_add:
  assumes "ninv t" "0 \<le> fd" "nat fd < MAX_EPOLL_EVENTS" "t_kset t fd = None" "\<not> os_ctl_fails sys EPOLL_CTL_ADD"
    "ev < 0x80000000" "0 \<le> len"
  shows "res_bind (nty_event_set sys (nat fd) fd ev len 0 cb t) (\<lambda>(t1, _). res_bind (nty_event_add sys (nat fd) t1) (\<lambda>(t2, _). k t2))
    = k (nput fd ((t_events t ! nat fd)\<lparr>n_fd := fd, n_events := ev, n_arg := True, n_callback := cb,
            n_length := len, n_last_active := os_time sys, n_status := 1\<rparr>) True (t_log t) t)"
  using assms by (simp add: nty_event_set_def nty_event_add_def mem_get_ok kset_ctl_def nput_def ninv_def flip: not_less)

lemma del_registered:
  assumes "ninv t" "t_kset t fd = Some (ty, i)" "\<not> os_ctl_fails sys EPOLL_CTL_DEL"
  shows "nty_event_del sys i t = Inr (nput fd ((t_events t ! i)\<lparr>n_status := 0\<rparr>) False (t_log t) t, 0)"
proof -
  have "0 \<le> fd" "i = nat fd" "i < MAX_EPOLL_EVENTS" "nev_ok fd (t_events t ! i)" "length (t_events t) = MAX_EPOLL_EVENTS"
    "\<not> t_epoll_fd t < 0"
    using assms(1, 2) by (auto simp: ninv_def)
  then show ?thesis
    using assms(2, 3) by (simp add: nty_event_del_def mem_get_ok nev_ok_def kset_ctl_def nput_def)
qed

section \<open>Callbacks\<close>

text \<open>The event of a descriptor, set up for a callback.\<close>

definition nset :: "nos \<Rightarrow> int \<Rightarrow> u32 \<Rightarrow> int \<Rightarrow> ncallback \<Rightarrow> ntyevent \<Rightarrow> ntyevent" where
  "nset sys fd ev len cb e = e\<lparr>n_fd := fd, n_events := ev, n_arg := True, n_callback := cb,
     n_length := len, n_last_active := os_time sys, n_status := 1\<rparr>"

lemma nev_ok_nset:
  "0 \<le> len \<Longrightarrow> len \<le> int MAX_BUFFER_SIZE \<Longrightarrow> ev = (if cb = Send_callback then EPOLLOUT else EPOLLIN) \<Longrightarrow>
     nev_ok fd (nset sys fd ev len cb e)"
  by (simp add: nset_def nev_ok_def)

lemma nset_buffer [simp]: "n_buffer (nset sys fd ev len cb e) = n_buffer e" "n_events (nset sys fd ev len cb e) = ev"
  by (simp_all add: nset_def)

lemma ninv_slot:
  assumes "ninv t" "t_kset t fd = Some (ty, i)"
  shows "0 \<le> fd" "i = nat fd" "nat fd < MAX_EPOLL_EVENTS" "nev_ok fd (t_events t ! nat fd)"
    "n_events (t_events t ! nat fd) = ty" "length (n_buffer (t_events t ! nat fd)) = MAX_BUFFER_SIZE"
proof -
  show r: "0 \<le> fd" "i = nat fd" "nat fd < MAX_EPOLL_EVENTS" "nev_ok fd (t_events t ! nat fd)" "n_events (t_events t ! nat fd) = ty"
    using assms unfolding ninv_def by auto
  show "length (n_buffer (t_events t ! nat fd)) = MAX_BUFFER_SIZE"
    using assms(1) r(3) unfolding ninv_def by (metis nth_mem)
qed

lemma ninv_len: "ninv t \<Longrightarrow> length (t_events t) = MAX_EPOLL_EVENTS" "ninv t \<Longrightarrow> \<not> t_epoll_fd t < 0"
  by (auto simp: ninv_def)

lemma nty_addlistener_eq:
  assumes "ninv t" "0 \<le> fd" "nat fd < MAX_EPOLL_EVENTS" "t_kset t fd = None" "\<not> os_ctl_fails sys EPOLL_CTL_ADD"
  shows "ntyreactor_addlistener sys fd t =
     Inr (nput fd (nset sys fd EPOLLIN 0 Accept_callback (t_events t ! nat fd)) True (t_log t) t, 0)"
  using assms by (simp add: ntyreactor_addlistener_def set_add [where k = "\<lambda>t. Inr (t, 0)"] EPOLL_small nset_def)

lemma nty_accept_eq:
  assumes inv: "ninv t" and env: "nenv_ok sys t" and fd: "0 \<le> fd" "nat fd < MAX_EPOLL_EVENTS"
  shows "nty_accept_callback sys fd t =
     (if os_accept sys = -1 \<or> free_slot 0 (t_events t) = MAX_EPOLL_EVENTS \<or> os_fcntl sys < 0 then Inr (t, -1)
      else Inr (nput (os_accept sys) (nset sys (os_accept sys) EPOLLIN 0 Recv_callback (t_events t ! nat (os_accept sys)))
             True (t_log t) t, 0))"
proof -
  have m: "mem_get (t_events t) (nat fd) = Inr (t_events t ! nat fd)" using fd ninv_len [OF inv] by (simp add: mem_get_ok)
  have c: "os_accept sys \<noteq> -1 \<Longrightarrow> 0 \<le> os_accept sys \<and> nat (os_accept sys) < MAX_EPOLL_EVENTS \<and> t_kset t (os_accept sys) = None"
    using env by (auto simp: nenv_ok_def)
  show ?thesis
    using fd m c no_fails [OF env, of EPOLL_CTL_ADD] set_add [OF inv, of "os_accept sys" sys EPOLLIN 0 Recv_callback "\<lambda>t. Inr (t, 0)"]
    by (auto simp: nty_accept_callback_def slot_def Let_def EPOLL_small nset_def)
qed

lemma nty_recv_eq:
  assumes inv: "ninv t" and env: "nenv_ok sys t" and k: "t_kset t fd = Some (ty, i)"
  defines "e \<equiv> t_events t ! nat fd"
  shows "nty_recv_callback sys fd t =
     (if os_recv sys \<le> 0 then Inr (nput fd (e\<lparr>n_status := 0\<rparr>) False (t_log t @ [Closed fd]) t, os_recv sys)
      else Inr (nput fd (nset sys fd EPOLLOUT (os_recv sys) Send_callback
             (e\<lparr>n_buffer := (os_data sys @ drop (length (os_data sys)) (n_buffer e))[length (os_data sys) := 0]\<rparr>)) True (t_log t) t,
           os_recv sys))"
proof -
  note sl = ninv_slot [OF inv k]
  have efd: "n_fd e = fd" using sl(4) by (simp add: nev_ok_def e_def)
  let ?t1 = "nput fd (e\<lparr>n_status := 0\<rparr>) False (t_log t) t"
  have del: "nty_event_del sys (nat fd) t = Inr (?t1, 0)"
    using del_registered [OF inv k no_fails [OF env]] sl(2) e_def by simp
  have len: "length (t_events t) = MAX_EPOLL_EVENTS" by (rule ninv_len [OF inv])
  have g: "mem_get (t_events ?t1) (nat fd) = Inr (e\<lparr>n_status := 0\<rparr>)" using sl(3) len by (simp add: mem_get_def nput_def)
  show ?thesis
  proof (cases "os_recv sys \<le> 0")
    case True
    then show ?thesis using sl(1) del g efd by (cases "os_recv sys = 0") (simp_all add: nty_recv_callback_def slot_def nty_close_def nput_def Let_def)
  next
    case False
    have dat: "length (os_data sys) = nat (os_recv sys)" "length (os_data sys) < MAX_BUFFER_SIZE"
      using env False by (auto simp: nenv_ok_def)
    let ?b = "(os_data sys @ drop (length (os_data sys)) (n_buffer e))[length (os_data sys) := 0]"
    have lb: "length (n_buffer e) = MAX_BUFFER_SIZE" using sl(6) e_def by simp
    have w: "mem_write (n_buffer e) 0 (os_data sys) = Inr (os_data sys @ drop (length (os_data sys)) (n_buffer e))"
      using lb dat by (simp add: mem_write_ok)
    have w2: "mem_set (os_data sys @ drop (length (os_data sys)) (n_buffer e)) (nat (os_recv sys)) 0 = Inr ?b"
      using lb dat by (simp add: mem_set_ok)
    let ?t2 = "nput fd (e\<lparr>n_status := 0, n_buffer := ?b\<rparr>) False (t_log t) t"
    have t2: "?t1\<lparr>t_events := (t_events ?t1)[nat fd := e\<lparr>n_status := 0, n_buffer := ?b\<rparr>]\<rparr> = ?t2" by (simp add: nput_def)
    have inv2: "ninv ?t2" using lb dat by (intro ninv_nput [OF inv sl(1, 3)]) simp_all
    have "nty_recv_callback sys fd t = Inr (nput fd (nset sys fd EPOLLOUT (os_recv sys) Send_callback (t_events ?t2 ! nat fd))
            True (t_log ?t2) ?t2, os_recv sys)"
      using sl(1) del g efd False w w2 t2
        set_add [OF inv2 sl(1, 3), of sys EPOLLOUT "os_recv sys" Send_callback "\<lambda>t. Inr (t, os_recv sys)"] no_fails [OF env]
      by (simp add: nty_recv_callback_def slot_def Let_def EPOLL_small nset_def) (simp add: nput_def)
    also have "t_events ?t2 ! nat fd = e\<lparr>n_status := 0, n_buffer := ?b\<rparr>" using sl(3) len by (simp add: nput_def)
    finally show ?thesis using False by (simp add: nput_def nset_def)
  qed
qed

lemma ninv_log: "ninv t \<Longrightarrow> ninv (t\<lparr>t_log := l\<rparr>)"
  by (simp add: ninv_def)

lemma nty_send_eq:
  assumes inv: "ninv t" and nf: "\<And>op. \<not> os_ctl_fails sys op" and k: "t_kset t fd = Some (ty, i)"
  defines "e \<equiv> t_events t ! nat fd"
  shows "nty_send_callback sys fd t =
     (if os_send sys \<le> 0 then Inr (nput fd (e\<lparr>n_status := 0\<rparr>) False (t_log t @ [Closed fd]) t, os_send sys)
      else Inr (nput fd (nset sys fd EPOLLIN 0 Recv_callback (e\<lparr>n_status := 0\<rparr>)) True
             (t_log t @ [Sent fd (take (nat (os_send sys)) (take (nat (n_length e)) (n_buffer e)))]) t, os_send sys))"
proof -
  note sl = ninv_slot [OF inv k]
  have e: "n_fd e = fd" "n_status e = 1" "nat (n_length e) \<le> MAX_BUFFER_SIZE" using sl(4) by (auto simp: nev_ok_def e_def)
  have len: "length (t_events t) = MAX_EPOLL_EVENTS" "\<not> t_epoll_fd t < 0" by (rule ninv_len [OF inv])+
  have g: "mem_get (t_events t) (nat fd) = Inr e" using sl(3) len by (simp add: mem_get_ok e_def)
  have rd: "mem_read (n_buffer e) 0 (nat (n_length e)) = Inr (take (nat (n_length e)) (n_buffer e))"
    using e(3) sl(6) by (simp add: mem_read_ok e_def)
  show ?thesis
  proof (cases "os_send sys \<le> 0")
    case True
    then show ?thesis using sl(1, 3) g rd e len
      by (simp add: nty_send_callback_def slot_def Let_def nty_close_def nty_event_del_def kset_ctl_def nput_def ENOENT_def)
  next
    case False
    let ?l = "t_log t @ [Sent fd (take (nat (os_send sys)) (take (nat (n_length e)) (n_buffer e)))]"
    let ?t0 = "t\<lparr>t_log := ?l\<rparr>"
    have "t_kset ?t0 fd = Some (ty, i)" using k by simp
    from del_registered [OF ninv_log [OF inv] this nf]
    have del: "nty_event_del sys (nat fd) ?t0 = Inr (nput fd (e\<lparr>n_status := 0\<rparr>) False ?l t, 0)"
      using sl(2) by (simp add: nput_def e_def)
    have inv1: "ninv (nput fd (e\<lparr>n_status := 0\<rparr>) False ?l t)"
      using sl(6) by (intro ninv_nput [OF inv sl(1, 3)]) (simp_all add: e_def)
    have kn: "t_kset (nput fd (e\<lparr>n_status := 0\<rparr>) False ?l t) fd = None" by (simp add: nput_def)
    have "nty_send_callback sys fd t = Inr (nput fd (nset sys fd EPOLLIN 0 Recv_callback
            (t_events (nput fd (e\<lparr>n_status := 0\<rparr>) False ?l t) ! nat fd)) True ?l (nput fd (e\<lparr>n_status := 0\<rparr>) False ?l t), os_send sys)"
      using sl(1) g rd e False del nf
        set_add [OF inv1 sl(1, 3) kn, of sys EPOLLIN 0 Recv_callback "\<lambda>t. Inr (t, os_send sys)"]
      by (simp add: nty_send_callback_def slot_def Let_def EPOLL_small nset_def) (simp add: nput_def)
    moreover have "t_events (nput fd (e\<lparr>n_status := 0\<rparr>) False ?l t) ! nat fd = e\<lparr>n_status := 0\<rparr>"
      using sl(3) len by (simp add: nput_def)
    ultimately show ?thesis using False by (simp add: nput_def)
  qed
qed

text \<open>A callback keeps the invariant and the registrations of the other descriptors.\<close>

definition nkeeps :: "int \<Rightarrow> ntyreactor \<Rightarrow> ntyreactor \<Rightarrow> bool" where
  "nkeeps fd t t' = (\<forall>fd'. fd' \<noteq> fd \<longrightarrow> t_kset t fd' \<noteq> None \<longrightarrow> t_kset t' fd' = t_kset t fd')"

lemma nkeeps_simps [simp]: "nkeeps fd t t" "nkeeps fd t (nput fd e reg l t)"
  by (auto simp: nkeeps_def nput_def)

lemma nty_callback_ok:
  assumes inv: "ninv t" and env: "nenv_ok sys t" and k: "t_kset t fd = Some (ty, i)"
  shows "\<exists>t'. nty_callback sys (t_events t ! i) t = Inr t' \<and> ninv t' \<and> nkeeps fd t t'"
proof -
  note sl = ninv_slot [OF inv k]
  have e: "n_fd (t_events t ! nat fd) = fd" using sl(4) by (simp add: nev_ok_def)
  have dat: "os_recv sys > 0 \<Longrightarrow> length (os_data sys) = nat (os_recv sys) \<and> nat (os_recv sys) < MAX_BUFFER_SIZE"
    using env by (simp add: nenv_ok_def)
  have put: "ninv (nput fd x reg l t)" if "length (n_buffer x) = MAX_BUFFER_SIZE" "reg \<Longrightarrow> nev_ok fd x" for x reg l
    using that by (rule ninv_nput [OF inv sl(1, 3)])
  show ?thesis
  proof (cases "n_callback (t_events t ! nat fd)")
    case Accept_callback
    have acc: "os_accept sys \<noteq> -1 \<Longrightarrow> ninv (nput (os_accept sys) (nset sys (os_accept sys) EPOLLIN 0 Recv_callback
          (t_events t ! nat (os_accept sys))) True (t_log t) t)" (is "_ \<Longrightarrow> ninv ?t")
      using env inv by (intro ninv_nput nev_ok_nset) (auto simp: nenv_ok_def ninv_def)
    have "os_accept sys \<noteq> -1 \<Longrightarrow> nkeeps fd t ?t" using env by (auto simp: nkeeps_def nput_def nenv_ok_def)
    then show ?thesis using Accept_callback e sl(2) acc inv nty_accept_eq [OF inv env sl(1, 3)]
      by (auto simp: nty_callback_def)
  next
    case Recv_callback
    then show ?thesis using e sl nty_recv_eq [OF inv env k] dat
      by (auto simp: nty_callback_def intro!: put nev_ok_nset)
  next
    case Send_callback
    then show ?thesis using e sl nty_send_eq [OF inv no_fails [OF env] k]
      by (auto simp: nty_callback_def intro!: put nev_ok_nset)
  qed
qed

lemma EPOLL_disjoint: "EPOLLIN AND EPOLLOUT = 0" "EPOLLOUT AND EPOLLIN = 0" "EPOLLIN AND EPOLLIN \<noteq> 0" "EPOLLOUT AND EPOLLOUT \<noteq> 0"
  "EPOLLIN \<noteq> 0" "EPOLLOUT \<noteq> 0"
  by (simp_all add: EPOLLIN_def EPOLLOUT_def)

text \<open>After a readable event was handled its event waits to send only if it is registered for that.\<close>

lemma after_readable:
  assumes inv: "ninv t" and env: "nenv_ok sys t" and k: "t_kset t fd = Some (ty, i)"
    and cb: "n_callback (t_events t ! nat fd) \<noteq> Send_callback"
    and t1: "nty_callback sys (t_events t ! nat fd) t = Inr t1" and out: "n_events (t_events t1 ! nat fd) AND EPOLLOUT \<noteq> 0"
  shows "t_kset t1 fd = Some (EPOLLOUT, nat fd) \<and> n_callback (t_events t1 ! nat fd) = Send_callback"
proof -
  note sl = ninv_slot [OF inv k]
  have len: "length (t_events t) = MAX_EPOLL_EVENTS" by (rule ninv_len [OF inv])
  have e: "n_fd (t_events t ! nat fd) = fd" "n_events (t_events t ! nat fd) = EPOLLIN"
    using sl(4) cb by (auto simp: nev_ok_def)
  show ?thesis
  proof (cases "n_callback (t_events t ! nat fd)")
    case Accept_callback
    have "os_accept sys \<noteq> fd" "os_accept sys \<noteq> -1 \<Longrightarrow> 0 \<le> os_accept sys" using env k sl(1) by (auto simp: nenv_ok_def)
    then have "os_accept sys \<noteq> -1 \<Longrightarrow> nat (os_accept sys) \<noteq> nat fd" using sl(1) by linarith
    then have "n_events (t_events t1 ! nat fd) = EPOLLIN"
      using t1 Accept_callback e nty_accept_eq [OF inv env sl(1, 3)]
      by (auto simp: nty_callback_def nput_def split: if_splits)
    then show ?thesis using out EPOLL_disjoint by simp
  next
    case Recv_callback
    show ?thesis
    proof (cases "os_recv sys \<le> 0")
      case True
      then have "n_events (t_events t1 ! nat fd) = EPOLLIN"
        using t1 Recv_callback e sl(3) len nty_recv_eq [OF inv env k] by (auto simp: nty_callback_def nput_def)
      then show ?thesis using out EPOLL_disjoint by simp
    next
      case False
      then show ?thesis
        using t1 Recv_callback e sl(3) len nty_recv_eq [OF inv env k] by (auto simp: nty_callback_def nput_def nset_def)
    qed
  qed (use cb in simp)
qed

lemma nty_send_ok:
  assumes inv: "ninv t" and nf: "\<And>op. \<not> os_ctl_fails sys op" and k: "t_kset t fd = Some (ty, i)"
    and cb: "n_callback (t_events t ! nat fd) = Send_callback"
  shows "\<exists>t'. nty_callback sys (t_events t ! nat fd) t = Inr t' \<and> ninv t' \<and> nkeeps fd t t'"
proof -
  note sl = ninv_slot [OF inv k]
  have e: "n_fd (t_events t ! nat fd) = fd" using sl(4) by (simp add: nev_ok_def)
  show ?thesis using cb e sl nty_send_eq [OF inv nf k]
    by (auto simp: nty_callback_def intro!: ninv_nput [OF inv sl(1, 3)] nev_ok_nset)
qed

lemma nkeeps_trans: "nkeeps fd t t1 \<Longrightarrow> nkeeps fd t1 t2 \<Longrightarrow> nkeeps fd t t2"
  by (simp add: nkeeps_def)

lemma nty_ready_ok:
  assumes inv: "ninv t" and env: "nenv_ok sys t" and k: "t_kset t fd = Some (ty, i)"
  shows "\<exists>t'. nty_ready sys revents i t = Inr t' \<and> ninv t' \<and> nkeeps fd t t'"
proof -
  note sl = ninv_slot [OF inv k]
  let ?e = "t_events t ! nat fd"
  have g: "mem_get (t_events t) i = Inr ?e" using sl ninv_len [OF inv] by (simp add: mem_get_ok)
  show ?thesis
  proof (cases "revents AND EPOLLIN \<noteq> 0 \<and> n_events ?e AND EPOLLIN \<noteq> 0")
    case False
    then have "nty_ready sys revents i t = (if revents AND EPOLLOUT \<noteq> 0 \<and> n_events ?e AND EPOLLOUT \<noteq> 0
        then nty_callback sys ?e t else Inr t)"
      using g by (auto simp: nty_ready_def nty_type_def)
    then show ?thesis using nty_callback_ok [OF inv env k] inv sl(2) by auto
  next
    case True
    have cb: "n_callback ?e \<noteq> Send_callback" using sl(4) True by (auto simp: nev_ok_def EPOLL_disjoint)
    obtain t1 where t1: "nty_callback sys ?e t = Inr t1" "ninv t1" "nkeeps fd t t1"
      using nty_callback_ok [OF inv env k] sl(2) by auto
    let ?e1 = "t_events t1 ! nat fd"
    have g1: "mem_get (t_events t1) i = Inr ?e1" using sl ninv_len [OF t1(2)] by (simp add: mem_get_ok)
    have eq: "nty_ready sys revents i t = (if revents AND EPOLLOUT \<noteq> 0 \<and> n_events ?e1 AND EPOLLOUT \<noteq> 0
        then nty_callback sys ?e1 t1 else Inr t1)"
      using g g1 True t1(1) by (simp add: nty_ready_def nty_type_def)
    show ?thesis
    proof (cases "revents AND EPOLLOUT \<noteq> 0 \<and> n_events ?e1 AND EPOLLOUT \<noteq> 0")
      case False then show ?thesis using eq t1 by auto
    next
      case out: True
      then have "t_kset t1 fd = Some (EPOLLOUT, nat fd) \<and> n_callback ?e1 = Send_callback"
        using after_readable [OF inv env k cb t1(1)] by blast
      then obtain t2 where "nty_callback sys ?e1 t1 = Inr t2" "ninv t2" "nkeeps fd t1 t2"
        using nty_send_ok [OF t1(2) no_fails [OF env], of fd EPOLLOUT "nat fd"] by blast
      then show ?thesis using eq out nkeeps_trans [OF t1(3)] by auto
    qed
  qed
qed

section \<open>Properties\<close>

text \<open>The states of a server: started with one listening socket, then one ready entry after another.\<close>

inductive nty_reach :: "ntyreactor \<Rightarrow> bool" where
  start: "\<lbrakk>ntyreactor_init epfd True (Some mem) = Some t; 0 \<le> epfd; length mem = MAX_EPOLL_EVENTS;
           \<forall>e \<in> set mem. length (n_buffer e) = MAX_BUFFER_SIZE; 0 \<le> fd; nat fd < MAX_EPOLL_EVENTS;
           \<not> os_ctl_fails sys EPOLL_CTL_ADD; ntyreactor_addlistener sys fd t = Inr (t', ret)\<rbrakk> \<Longrightarrow> nty_reach t'"
| ready: "\<lbrakk>nty_reach t; t_kset t fd = Some (ty, i); nenv_ok sys t; nty_ready sys revents i t = Inr t'\<rbrakk> \<Longrightarrow> nty_reach t'"

lemma nty_start_ok:
  assumes "ntyreactor_init epfd True (Some mem) = Some t" "0 \<le> epfd" "length mem = MAX_EPOLL_EVENTS"
    "\<forall>e \<in> set mem. length (n_buffer e) = MAX_BUFFER_SIZE" "0 \<le> fd" "nat fd < MAX_EPOLL_EVENTS"
    "\<not> os_ctl_fails sys EPOLL_CTL_ADD"
  shows "\<exists>t'. ntyreactor_addlistener sys fd t = Inr (t', 0) \<and> ninv t' \<and> t_kset t' fd = Some (EPOLLIN, nat fd)"
proof -
  have t: "t = \<lparr>t_epoll_fd = epfd, t_events = mem, t_kset = (\<lambda>_. None), t_log = []\<rparr>"
    using assms(1) by (auto simp: ntyreactor_init_def split: if_splits)
  have inv: "ninv t" using assms t by (simp add: ninv_def)
  have lb: "length (n_buffer (t_events t ! nat fd)) = MAX_BUFFER_SIZE" using assms t by simp
  let ?t' = "nput fd (nset sys fd EPOLLIN 0 Accept_callback (t_events t ! nat fd)) True (t_log t) t"
  have "ninv ?t'" using lb by (intro ninv_nput [OF inv assms(5, 6)] nev_ok_nset) simp_all
  moreover have "ntyreactor_addlistener sys fd t = Inr (?t', 0)"
    using t by (intro nty_addlistener_eq [OF inv assms(5, 6) _ assms(7)]) simp
  ultimately show ?thesis by (intro exI [of _ ?t']) (simp add: nput_def)
qed

lemma nty_reach_inv: "nty_reach t \<Longrightarrow> ninv t"
proof (induction rule: nty_reach.induct)
  case (start epfd mem t fd sys t' ret)
  then show ?case using nty_start_ok [of epfd mem t fd sys] by auto
next
  case (ready t fd ty i sys revents t')
  then show ?case using nty_ready_ok [of t sys fd ty i revents] by auto
qed


text \<open>
  A client's bytes come back exactly as they were received, also those after a 0: data
  is received into the event's buffer, the event then waits to send, sends the same bytes,
  and waits for data again.
\<close>

theorem nty_echoes:
  assumes inv: "ninv t" and k: "t_kset t fd = Some (EPOLLIN, i)" and cb: "n_callback (t_events t ! i) = Recv_callback"
    and env: "nenv_ok sys t" and rc: "os_recv sys > 0"
    and nf: "\<And>op. \<not> os_ctl_fails sys' op" and snd: "os_send sys' = os_recv sys"
  shows "\<exists>t1 t2. nty_ready sys EPOLLIN i t = Inr t1 \<and> t_kset t1 = (t_kset t)(fd \<mapsto> (EPOLLOUT, i)) \<and>
     nty_ready sys' EPOLLOUT i t1 = Inr t2 \<and> t_kset t2 = t_kset t \<and> t_log t2 = t_log t @ [Sent fd (os_data sys)] \<and>
     n_callback (t_events t2 ! i) = Recv_callback"
proof -
  note sl = ninv_slot [OF inv k]
  let ?e = "t_events t ! nat fd"
  let ?b = "(os_data sys @ drop (length (os_data sys)) (n_buffer ?e))[length (os_data sys) := 0]"
  let ?e1 = "nset sys fd EPOLLOUT (os_recv sys) Send_callback (?e\<lparr>n_buffer := ?b\<rparr>)"
  let ?t1 = "nput fd ?e1 True (t_log t) t"
  have len: "length (t_events t) = MAX_EPOLL_EVENTS" by (rule ninv_len [OF inv])
  have e: "n_fd ?e = fd" using sl(4) by (simp add: nev_ok_def)
  have dat: "length (os_data sys) = nat (os_recv sys)" "nat (os_recv sys) < MAX_BUFFER_SIZE" using env rc by (auto simp: nenv_ok_def)
  have 1: "nty_recv_callback sys fd t = Inr (?t1, os_recv sys)" using nty_recv_eq [OF inv env k] rc by simp
  have inv1: "ninv ?t1" using sl(6) dat rc by (intro ninv_nput [OF inv sl(1, 3)] nev_ok_nset) auto
  have k1: "t_kset ?t1 fd = Some (EPOLLOUT, nat fd)" by (simp add: nput_def)
  have e1: "t_events ?t1 ! nat fd = ?e1" using sl(3) len by (simp add: nput_def)
  have "take (nat (os_recv sys)) (take (nat (n_length ?e1)) (n_buffer ?e1)) = os_data sys"
    using dat(1) sl(6) dat(2) by (simp add: nset_def list_update_append take_Cons')
  then have 2: "nty_send_callback sys' fd ?t1 = Inr (nput fd (nset sys' fd EPOLLIN 0 Recv_callback (?e1\<lparr>n_status := 0\<rparr>)) True
       (t_log t @ [Sent fd (os_data sys)]) ?t1, os_recv sys)"
    using nty_send_eq [OF inv1 nf k1] rc snd e1 by (simp add: nput_def)
  have r1: "nty_ready sys EPOLLIN i t = Inr ?t1"
    using sl cb e len 1 by (simp add: nty_ready_def nty_type_def mem_get_ok nty_callback_def EPOLL_disjoint nput_def)
  let ?t2 = "nput fd (nset sys' fd EPOLLIN 0 Recv_callback (?e1\<lparr>n_status := 0\<rparr>)) True (t_log t @ [Sent fd (os_data sys)]) ?t1"
  have r2: "nty_ready sys' EPOLLOUT i ?t1 = Inr ?t2"
    using sl(2, 3) e1 len 2 by (simp add: nty_ready_def nty_type_def mem_get_ok nty_callback_def EPOLL_disjoint nput_def nset_def)
  have "t_kset ?t1 = (t_kset t)(fd \<mapsto> (EPOLLOUT, i))" "t_kset ?t2 = t_kset t" "t_log ?t2 = t_log t @ [Sent fd (os_data sys)]"
    "n_callback (t_events ?t2 ! i) = Recv_callback"
    using sl(2, 3) k len by (auto simp: nput_def nset_def)
  then show ?thesis using r1 r2 by blast
qed

definition ex_nos :: "int \<Rightarrow> nos" where
  "ex_nos c = \<lparr>os_accept = c, os_recv = 3, os_data = [72, 0, 105], os_recv_errno = 0, os_send = 3,
     os_send_errno = 0, os_malloc = None, os_ctl_fails = (\<lambda>_. False), os_time = 0, os_fcntl = 0\<rparr>"

definition ex_mem :: "ntyevent list" where
  "ex_mem = replicate MAX_EPOLL_EVENTS \<lparr>n_fd = 9, n_events = 9, n_arg = False, n_callback = Send_callback, n_status = 0,
     n_buffer = replicate MAX_BUFFER_SIZE 7, n_length = 9, n_last_active = 9\<rparr>"

definition ex_t0 :: ntyreactor where
  "ex_t0 = \<lparr>t_epoll_fd = 4, t_events = ex_mem, t_kset = (\<lambda>_. None), t_log = []\<rparr>"

lemma ex_t0_facts:
  "ntyreactor_init 4 True (Some ex_mem) = Some ex_t0" "length ex_mem = MAX_EPOLL_EVENTS"
  "\<forall>e \<in> set ex_mem. length (n_buffer e) = MAX_BUFFER_SIZE" "nat 3 < MAX_EPOLL_EVENTS" "nat 5 < MAX_EPOLL_EVENTS"
  "\<not> os_ctl_fails (ex_nos c) op"
  by (auto simp: ntyreactor_init_def ex_t0_def ex_mem_def MAX_EPOLL_EVENTS_def ex_nos_def)


theorem nty_echoes_witness:
  "\<exists>t1 t2. nty_ready (ex_nos (-1)) EPOLLIN 5 (nput 5 (nset (ex_nos (-1)) 5 EPOLLIN 0 Recv_callback (t_events ex_t0 ! 5)) True [] ex_t0) = Inr t1 \<and>
     nty_ready (ex_nos (-1)) EPOLLOUT 5 t1 = Inr t2 \<and> t_log t2 = [Sent 5 [72, 0, 105]]"
proof -
  note f = ex_t0_facts
  let ?t = "nput 5 (nset (ex_nos (-1)) 5 EPOLLIN 0 Recv_callback (t_events ex_t0 ! 5)) True [] ex_t0"
  have i0: "ninv ex_t0" using f by (simp add: ninv_def ex_t0_def)
  have "length (n_buffer (t_events ex_t0 ! 5)) = MAX_BUFFER_SIZE" using f(2, 3, 5) by (simp add: ex_t0_def)
  then have inv: "ninv ?t" using f(5) by (intro ninv_nput [OF i0] nev_ok_nset) simp_all
  have k: "t_kset ?t 5 = Some (EPOLLIN, 5)" by (simp add: nput_def)
  have cb: "n_callback (t_events ?t ! 5) = Recv_callback" using f(2, 5) by (simp add: nput_def nset_def ex_t0_def)
  have env: "nenv_ok (ex_nos (-1)) ?t" by (simp add: nenv_ok_def ex_nos_def MAX_BUFFER_SIZE_def)
  have rc: "os_recv (ex_nos (-1)) > 0" "os_send (ex_nos (-1)) = os_recv (ex_nos (-1))" by (simp_all add: ex_nos_def)
  have l: "t_log ?t = []" "os_data (ex_nos (-1)) = [72, 0, 105]" by (simp_all add: nput_def ex_nos_def)
  show ?thesis using nty_echoes [OF inv k cb env rc(1) f(6) rc(2)] l by auto
qed

end
