(* ===== verification/MyNet.thy ===== *)
theory MyNet
  imports Reactor
begin

text \<open>
  The first servers of the repository: \<open>mynet_easy.c\<close>, which polls a list of clients,
  \<open>mynet_epoll.c\<close>, which waits for edge-triggered events, and the client \<open>myclient.c\<close>. What
  the system calls return is a parameter; descriptors closed and data sent are recorded.
\<close>

section \<open>Arguments\<close>

text \<open>\<open>short port = atoi(argv[2])\<close>: the number is reduced to 16 bits.\<close>

definition short_of :: "int \<Rightarrow> int" where
  "short_of n = sint (word_of_int n :: u16)"

definition easy_port :: "int \<Rightarrow> int option" where
  "easy_port n = (let port = short_of n in if port \<le> 0 \<or> port \<ge> 65535 then None else Some port)"

definition epoll_port :: "int \<Rightarrow> int option" where
  "epoll_port port = (if port \<le> 0 \<or> port \<ge> 65535 then None else Some port)"

definition client_port :: "int \<Rightarrow> int option" where
  "client_port n = (let port = short_of n in if port \<le> 0 \<or> port \<ge> 65536 then None else Some port)"

text \<open>The results of the calls that open a socket; \<open>su_addr\<close> is \<open>None\<close> for \<open>INADDR_NONE\<close>.\<close>

record netsetup =
  su_argc :: nat
  su_port :: int
  su_addr :: "u32 option"
  su_socket :: int
  su_getfl :: int
  su_setfl :: int
  su_bind :: int
  su_listen :: int
  su_connect :: int
  su_epoll :: int
  su_epoll_add :: int

text \<open>\<open>SocketNoblocking\<close> and \<open>set_non_blocking\<close> exit when \<open>fcntl\<close> fails.\<close>

definition SocketNoblocking :: "netsetup \<Rightarrow> int option" where
  "SocketNoblocking s = (if su_getfl s < 0 then None else if su_setfl s < 0 then None else Some (su_getfl s))"

definition set_non_blocking :: "netsetup \<Rightarrow> int option" where
  "set_non_blocking s =
     (if su_getfl s < 0 then None else if su_setfl s < 0 then None else Some (or (su_getfl s) 2048))"

text \<open>The listening socket and the port of \<open>mynet_easy\<close>, or exit.\<close>

definition easy_start :: "netsetup \<Rightarrow> (int \<times> int) option" where
  "easy_start s =
     (if su_argc s \<noteq> 3 then None
      else case easy_port (su_port s) of
          None \<Rightarrow> None
        | Some port \<Rightarrow>
            if su_addr s = None then None
            else if su_socket s < 0 then None
            else if SocketNoblocking s = None then None
            else if su_bind s \<noteq> 0 then None
            else if su_listen s = -1 then None
            else Some (su_socket s, port))"

definition epoll_start :: "netsetup \<Rightarrow> (int \<times> int) option" where
  "epoll_start s =
     (if su_argc s \<noteq> 3 then None
      else if su_addr s = None then None
      else case epoll_port (su_port s) of
          None \<Rightarrow> None
        | Some port \<Rightarrow>
            if set_non_blocking s = None then None
            else if su_socket s = -1 then None
            else if su_bind s = -1 then None
            else if su_listen s = -1 then None
            else if su_epoll_add s = -1 then None
            else Some (su_socket s, port))"

definition client_start :: "netsetup \<Rightarrow> (int \<times> int) option" where
  "client_start s =
     (if su_argc s \<noteq> 3 then None
      else case client_port (su_port s) of
          None \<Rightarrow> None
        | Some port \<Rightarrow>
            if su_addr s = None then None
            else if su_socket s < 0 then None
            else if su_connect s = -1 then None
            else Some (su_socket s, port))"

section \<open>The polling server\<close>

text \<open>
  The loop of \<open>del_fdlist_element\<close>, with its length as an argument. The function computes
  the length as \<open>sizeof(*array) / sizeof(int32_t)\<close>, the size of one element.
\<close>

function del_loop :: "nat \<Rightarrow> nat \<Rightarrow> bool \<Rightarrow> int \<Rightarrow> int list \<Rightarrow> int list" where
  "del_loop len i flag n array =
     (if i < len
      then let array1 = (if flag then (array[i - 1 := array ! i])[i := 0] else array)
           in del_loop len (i + 1) (flag \<or> array1 ! i = n) n array1
      else array)"
  by pat_completeness auto
termination by (relation "measure (\<lambda>(len, i, _). len - i)") auto

definition del_fdlist_element :: "int list \<Rightarrow> int \<Rightarrow> int list" where
  "del_fdlist_element array n = (let len = 4 div 4 in del_loop len 0 False n array)"

record easy =
  z_list :: "int list"
  z_flag :: int
  z_log :: "rlog list"

definition close_socket :: "int \<Rightarrow> easy \<Rightarrow> easy" where
  "close_socket fd z = z\<lparr>z_list := del_fdlist_element (z_list z) fd, z_log := z_log z @ [Closed fd]\<rparr>"

text \<open>\<open>"close\n"\<close>.\<close>

definition CLOSE_MSG :: "u8 list" where
  "CLOSE_MSG = [99, 108, 111, 115, 101, 10]"

text \<open>What \<open>recv\<close> leaves in the 4096 bytes: the data, ended by a 0 that may not fit.\<close>

definition recv_text :: "u8 list \<Rightarrow> u8 list res" where
  "recv_text data = (if length data < 4096 then Inr (takeWhile (\<lambda>b. b \<noteq> 0) data) else Inl Out_of_bounds)"

definition drop_client :: "int \<Rightarrow> easy \<Rightarrow> easy" where
  "drop_client fd z = (close_socket fd z)\<lparr>z_flag := short_of (z_flag z - 1)\<rparr>"

text \<open>One client: \<open>rx\<close> is what \<open>recv\<close> returns, an error, or data (none at the end of the stream).\<close>

definition easy_client :: "u8 list option \<Rightarrow> int \<Rightarrow> easy \<Rightarrow> easy res" where
  "easy_client rx fd z =
     (case rx of
        None \<Rightarrow> Inr (drop_client fd z)
      | Some data \<Rightarrow>
          if data = [] then Inr (drop_client fd z)
          else res_bind (recv_text data) (\<lambda>msg.
               Inr (if msg = CLOSE_MSG then drop_client fd z else z)))"

function easy_serve :: "(nat \<Rightarrow> u8 list option) \<Rightarrow> nat \<Rightarrow> easy \<Rightarrow> easy res" where
  "easy_serve rx i z =
     (if int i < z_flag z \<and> i < length (z_list z)
      then let cur_fd = short_of (z_list z ! i)
           in if cur_fd \<le> 0 then easy_serve rx (i + 1) z
              else res_bind (easy_client (rx i) cur_fd z) (easy_serve rx (i + 1))
      else if int i < z_flag z then Inl Out_of_bounds else Inr z)"
  by pat_completeness auto

text \<open>One round: a client that connects is appended, then all are served.\<close>

lemma del_loop_length [simp]: "length (del_loop len i flag n array) = length array"
  by (induction len i flag n array rule: del_loop.induct) (subst del_loop.simps, simp add: Let_def)

lemma easy_client_length: "easy_client rx fd z = Inr z' \<Longrightarrow> length (z_list z') = length (z_list z)"
  by (auto simp: easy_client_def drop_client_def close_socket_def del_fdlist_element_def res_bind_Inr
        split: option.splits if_splits)

termination easy_serve
proof (relation "measure (\<lambda>(_, i, z). length (z_list z) - i)")
  show "((rx, i + 1, z'), rx, i, z) \<in> measure (\<lambda>(_, i, z). length (z_list z) - i)"
    if "int i < z_flag z \<and> i < length (z_list z)" "easy_client (rx i) cur_fd z = Inr z'" for rx i z z' cur_fd
    using that easy_client_length by auto
qed auto

definition easy_round :: "int \<Rightarrow> (nat \<Rightarrow> u8 list option) \<Rightarrow> easy \<Rightarrow> easy res" where
  "easy_round cli_fd rx z =
     res_bind (if cli_fd \<noteq> -1
               then if z_flag z < 0 then Inl Out_of_bounds
                    else res_bind (mem_set (z_list z) (nat (z_flag z)) cli_fd) (\<lambda>l.
                         Inr (z\<lparr>z_list := l, z_flag := short_of (z_flag z + 1)\<rparr>))
               else Inr z) (easy_serve rx 0)"

section \<open>The epoll server\<close>

definition EPOLLET :: u32 where
  "EPOLLET = 0x80000000"

record epsrv =
  p_listen :: int
  p_kset :: "int \<Rightarrow> u32 option"
  p_log :: "rlog list"

record epos =
  eo_accept :: int
  eo_nonblock :: bool
  eo_ctl_fails :: bool
  eo_recv :: "u8 list option"
  eo_send :: int

text \<open>\<open>"server respond\n"\<close> with its terminating 0: 16 bytes are sent.\<close>

definition RESPONSE :: "u8 list" where
  "RESPONSE = [115, 101, 114, 118, 101, 114, 32, 114, 101, 115, 112, 111, 110, 100, 10, 0]"

text \<open>
  The descriptor is closed first, which takes it out of the epoll set; the \<open>epoll_ctl\<close> that
  follows names the closed descriptor as the epoll set and fails.
\<close>

definition ep_disconnect :: "int \<Rightarrow> epsrv \<Rightarrow> epsrv" where
  "ep_disconnect fd p = p\<lparr>p_kset := (p_kset p)(fd := None), p_log := p_log p @ [Closed fd]\<rparr>"

definition ep_accept :: "epos \<Rightarrow> epsrv \<Rightarrow> epsrv option" where
  "ep_accept sys p =
     (let client_fd = eo_accept sys
      in if client_fd = -1 then Some p
         else if \<not> eo_nonblock sys then None
         else Some (if eo_ctl_fails sys \<or> p_kset p client_fd \<noteq> None then p
                    else p\<lparr>p_kset := (p_kset p)(client_fd \<mapsto> (EPOLLOUT OR EPOLLIN OR EPOLLET))\<rparr>))"

definition ep_readable :: "epos \<Rightarrow> int \<Rightarrow> epsrv \<Rightarrow> epsrv res" where
  "ep_readable sys fd p =
     (case eo_recv sys of
        None \<Rightarrow> Inr p
      | Some data \<Rightarrow>
          if data = [] then Inr (ep_disconnect fd p)
          else res_bind (recv_text data) (\<lambda>msg.
               Inr (if msg = CLOSE_MSG then ep_disconnect fd p
                    else if eo_send sys > 0
                         then p\<lparr>p_log := p_log p @ [Sent fd (take (nat (eo_send sys)) RESPONSE)]\<rparr> else p)))"

text \<open>\<open>Inr None\<close>: the process exits.\<close>

definition ep_handle :: "epos \<Rightarrow> int \<Rightarrow> u32 \<Rightarrow> epsrv \<Rightarrow> epsrv option res" where
  "ep_handle sys fd events p =
     (if fd = p_listen p then Inr (ep_accept sys p)
      else if events AND EPOLLIN \<noteq> 0 then res_bind (ep_readable sys fd p) (\<lambda>q. Inr (Some q))
      else Inr (Some p))"

fun ep_batch :: "(epos \<times> int \<times> u32) list \<Rightarrow> epsrv \<Rightarrow> epsrv option res" where
  "ep_batch [] p = Inr (Some p)"
| "ep_batch ((sys, fd, events) # rest) p =
     res_bind (ep_handle sys fd events p) (\<lambda>q. case q of None \<Rightarrow> Inr None | Some p1 \<Rightarrow> ep_batch rest p1)"

text \<open>The results of \<open>epoll_wait\<close> one after another: \<open>None\<close> is an error.\<close>

fun ep_run :: "(epos \<times> int \<times> u32) list option list \<Rightarrow> epsrv \<Rightarrow> epsrv option res" where
  "ep_run [] p = Inr (Some p)"
| "ep_run (None # ws) p = Inr None"
| "ep_run (Some batch # ws) p =
     res_bind (ep_batch batch p) (\<lambda>q. case q of None \<Rightarrow> Inr None | Some p1 \<Rightarrow> ep_run ws p1)"

definition ep_init :: "int \<Rightarrow> epsrv" where
  "ep_init socket_fd = \<lparr>p_listen = socket_fd, p_kset = (\<lambda>_. None)(socket_fd \<mapsto> (EPOLLIN OR EPOLLET)), p_log = []\<rparr>"

section \<open>The client\<close>

text \<open>
  Each word read by \<open>scanf("%s")\<close> is stored with a terminating 0 in a cleared buffer of 4096
  bytes and written without it.
\<close>

fun client_loop :: "u8 list list \<Rightarrow> u8 list res" where
  "client_loop [] = Inr []"
| "client_loop (word # ws) =
     res_bind (mem_write (replicate 4096 0) 0 (word @ [0])) (\<lambda>buffer.
     res_bind (client_loop ws) (\<lambda>rest. Inr (takeWhile (\<lambda>b. b \<noteq> 0) buffer @ rest)))"

text \<open>A word of \<open>scanf\<close>: not empty, no white space and no 0.\<close>

definition scanned :: "u8 list \<Rightarrow> bool" where
  "scanned w = (w \<noteq> [] \<and> (\<forall>b \<in> set w. b \<notin> {0, 9, 10, 11, 12, 13, 32}))"

section \<open>Properties\<close>

lemma del_fdlist_noop: "del_fdlist_element array n = array"
  by (simp add: del_fdlist_element_def del_loop.simps [of 1 0] del_loop.simps [of 1 1])

lemma short_of_eq: "short_of n = (n + 32768) mod 65536 - 32768"
proof -
  have "short_of n = signed_take_bit 15 n"
    by (simp add: short_of_def sint_uint unsigned_of_int signed_take_bit_take_bit)
  also have "\<dots> = take_bit 16 (n + 32768) - 32768"
    by (simp add: signed_take_bit_eq_take_bit_shift)
  finally show ?thesis by (simp add: take_bit_eq_mod)
qed

lemma short_of_small: "- 32768 \<le> n \<Longrightarrow> n < 32768 \<Longrightarrow> short_of n = n"
  by (simp add: short_of_eq)

text \<open>What the loop does when it is given the real length of the list.\<close>

lemma del_loop_shift:
  "1 \<le> i \<Longrightarrow> i \<le> length a \<Longrightarrow>
     del_loop (length a) i True n a = (if i < length a then take (i - 1) a @ drop i a @ [0] else a)"
proof (induction "length a - i" arbitrary: i a)
  case 0 then show ?case by (subst del_loop.simps) simp
next
  case (Suc k)
  then have lt: "i < length a" by simp
  let ?b = "(a[i - 1 := a ! i])[i := 0]"
  have step: "del_loop (length a) i True n a = del_loop (length ?b) (i + 1) True n ?b"
    using lt by (subst del_loop.simps) (simp add: Let_def)
  have IH: "del_loop (length ?b) (i + 1) True n ?b = (if i + 1 < length ?b then take i ?b @ drop (i + 1) ?b @ [0] else ?b)"
    using Suc(1) [of ?b "i + 1"] Suc(2) lt by simp
  obtain x y xs zs where a: "a = xs @ x # y # zs" "length xs = i - 1"
  proof -
    have "a = take (i - 1) a @ a ! (i - 1) # a ! i # drop (i + 1) a"
      using lt Suc.prems(1) by (metis Cons_nth_drop_Suc Suc_eq_plus1 Suc_pred' append_take_drop_id less_imp_diff_less not_one_le_zero zero_less_iff_neq_zero less_one not_less)
    then show ?thesis using that lt by (metis length_take less_imp_diff_less less_imp_le min.absorb2)
  qed
  have "?b = xs @ y # 0 # zs" using a Suc.prems(1) by (cases i) (simp_all add: list_update_append nth_append)
  then show ?case using step IH a Suc.prems(1) lt by (cases zs) (auto simp: Suc_diff_le)
qed

text \<open>
  The polling server keeps its clients in the first \<open>flag\<close> entries of the list. When any
  client is dropped the list does not change, because the loop of \<open>del_fdlist_element\<close> runs
  over the size of one element only: the last client of the list is no longer served,
  whichever client was closed.
\<close>

theorem easy_drops_last_client:
  assumes "0 < z_flag z" "z_flag z \<le> int (length (z_list z))" "z_flag z < 32768"
  shows "z_list (drop_client fd z) = z_list z \<and> z_log (drop_client fd z) = z_log z @ [Closed fd] \<and>
     take (nat (z_flag (drop_client fd z))) (z_list (drop_client fd z)) = butlast (take (nat (z_flag z)) (z_list z))"
proof -
  have "z_flag (drop_client fd z) = z_flag z - 1" using assms by (simp add: drop_client_def short_of_small)
  moreover have "nat (z_flag z - 1) = nat (z_flag z) - 1" "nat (z_flag z) \<le> length (z_list z)" using assms by auto
  ultimately show ?thesis
    by (simp add: drop_client_def close_socket_def del_fdlist_noop butlast_take)
qed

theorem easy_drops_last_client_witness:
  "let z = drop_client 5 \<lparr>z_list = [5, 6, 0], z_flag = 2, z_log = []\<rparr>
   in z_log z = [Closed 5] \<and> take (nat (z_flag z)) (z_list z) = [5]"
  using easy_drops_last_client [of "\<lparr>z_list = [5, 6, 0], z_flag = 2, z_log = []\<rparr>" 5]
  by (auto simp: Let_def eval_nat_numeral)

text \<open>
  The port of the polling server, read into a 16-bit integer: exactly the numbers whose
  remainder modulo 65536 is from 1 to 32767 are taken, as that remainder. Ports above
  32767 are refused and 65537 is port 1; the test for 65535 never matters.
\<close>

theorem easy_port_range:
  "easy_port n = (if 0 < n mod 65536 \<and> n mod 65536 < 32768 then Some (n mod 65536) else None)"
proof -
  define m where "m = n mod 65536"
  have m: "0 \<le> m" "m < 65536" by (simp_all add: m_def)
  have "short_of n = (m + 32768) mod 65536 - 32768" by (simp add: short_of_eq m_def mod_add_left_eq)
  also have "\<dots> = (if m < 32768 then m else m - 65536)"
  proof (cases "m < 32768")
    case False
    have "(m + 32768) mod 65536 = (m - 32768) mod 65536" using mod_add_self2 [of "m - 32768" 65536] by (simp add: add.commute)
    then show ?thesis using False m by (simp add: mod_pos_pos_trivial)
  qed (use m in \<open>simp add: mod_pos_pos_trivial\<close>)
  finally have "short_of n = (if m < 32768 then m else m - 65536)" .
  then show ?thesis using m unfolding m_def [symmetric] by (simp add: easy_port_def Let_def)
qed

lemma client_loop_ok:
  "\<forall>w \<in> set ws. scanned w \<and> length w < 4096 \<Longrightarrow> client_loop ws = Inr (concat ws)"
proof (induction ws)
  case (Cons w ws)
  have w: "takeWhile (\<lambda>b. b \<noteq> 0) (w @ [0] @ xs) = w" for xs
    using Cons.prems by (subst takeWhile_append2) (auto simp: scanned_def)
  show ?case using Cons w by (simp add: mem_write_ok)
qed simp

text \<open>
  The client sends the words it reads one after another, without the white space between
  them; so the servers' command \<open>close\<close> followed by a newline never arrives from it: whatever
  part of its bytes a server receives at a time, the connection stays.
\<close>

theorem client_never_closes:
  assumes "\<forall>w \<in> set ws. scanned w \<and> length w < 4096" "concat ws = xs @ data @ ys" "data \<noteq> []" "length data < 4096"
  shows "client_loop ws = Inr (concat ws) \<and> easy_client (Some data) fd z = Inr z \<and>
     (\<exists>p'. ep_readable (sys\<lparr>eo_recv := Some data\<rparr>) fd p = Inr p' \<and> p_kset p' = p_kset p)"
proof -
  have nl: "10 \<notin> set (concat ws)" using assms(1) by (auto simp: scanned_def)
  have "10 \<notin> set (takeWhile (\<lambda>b. b \<noteq> 0) data)" using nl assms(2) by (auto dest: set_takeWhileD)
  then have "takeWhile (\<lambda>b. b \<noteq> 0) data \<noteq> CLOSE_MSG" by (auto simp: CLOSE_MSG_def)
  then show ?thesis using assms client_loop_ok [OF assms(1)]
    by (simp add: easy_client_def recv_text_def ep_readable_def)
qed

theorem client_never_closes_witness:
  "client_loop [[99, 108, 111, 115, 101], [98]] = Inr [99, 108, 111, 115, 101, 98] \<and>
   easy_client (Some [99, 108, 111, 115, 101]) 5 \<lparr>z_list = [5], z_flag = 1, z_log = []\<rparr>
     = Inr \<lparr>z_list = [5], z_flag = 1, z_log = []\<rparr>"
  using client_never_closes [of "[[99, 108, 111, 115, 101], [98]]" "[]" "[99, 108, 111, 115, 101]" "[98]" 5
      "\<lparr>z_list = [5], z_flag = 1, z_log = []\<rparr>"]
  by (simp add: scanned_def)

definition ep_entry_ok :: "int \<Rightarrow> epos \<times> int \<times> u32 \<Rightarrow> bool" where
  "ep_entry_ok ls = (\<lambda>(sys, fd, events). eo_nonblock sys \<and> (case eo_recv sys of None \<Rightarrow> True | Some d \<Rightarrow> length d < 4096))"

lemma ep_handle_ok:
  assumes "ep_entry_ok ls (sys, fd, events)" "p_listen p = ls" "p_kset p ls = Some (EPOLLIN OR EPOLLET)"
  shows "\<exists>q. ep_handle sys fd events p = Inr (Some q) \<and> p_listen q = ls \<and> p_kset q ls = Some (EPOLLIN OR EPOLLET)"
  using assms
  by (auto simp: ep_handle_def ep_accept_def ep_readable_def ep_entry_ok_def recv_text_def ep_disconnect_def Let_def
      split: option.splits if_splits)

lemma ep_batch_ok:
  "\<lbrakk>\<forall>b \<in> set batch. ep_entry_ok ls b; p_listen p = ls; p_kset p ls = Some (EPOLLIN OR EPOLLET)\<rbrakk> \<Longrightarrow>
     \<exists>q. ep_batch batch p = Inr (Some q) \<and> p_listen q = ls \<and> p_kset q ls = Some (EPOLLIN OR EPOLLET)"
proof (induction batch arbitrary: p)
  case (Cons b rest)
  obtain sys fd events where b: "b = (sys, fd, events)" by (cases b)
  obtain q where "ep_handle sys fd events p = Inr (Some q)" "p_listen q = ls" "p_kset q ls = Some (EPOLLIN OR EPOLLET)"
    using ep_handle_ok [of ls sys fd events p] Cons.prems b by auto
  then show ?case using Cons.IH [of q] Cons.prems b by auto
qed simp

text \<open>
  The epoll server does not stop or fault while every receive returns fewer than 4096
  bytes, \<open>fcntl\<close> works and waiting succeeds, and it goes on listening.
\<close>

theorem ep_run_listens:
  assumes "\<forall>w \<in> set ws. \<exists>batch. w = Some batch \<and> (\<forall>b \<in> set batch. ep_entry_ok ls b)"
    "p_listen p = ls" "p_kset p ls = Some (EPOLLIN OR EPOLLET)"
  shows "\<exists>q. ep_run ws p = Inr (Some q) \<and> p_kset q ls = Some (EPOLLIN OR EPOLLET)"
  using assms
proof (induction ws arbitrary: p)
  case (Cons w ws)
  obtain batch where w: "w = Some batch" "\<forall>b \<in> set batch. ep_entry_ok ls b" using Cons.prems(1) by auto
  obtain q where "ep_batch batch p = Inr (Some q)" "p_listen q = ls" "p_kset q ls = Some (EPOLLIN OR EPOLLET)"
    using ep_batch_ok [OF w(2) Cons.prems(2, 3)] by blast
  then show ?case using Cons.IH [of q] Cons.prems(1) w(1) by auto
qed simp

theorem ep_run_listens_witness:
  "\<exists>q. ep_run [Some [(\<lparr>eo_accept = 6, eo_nonblock = True, eo_ctl_fails = False, eo_recv = None, eo_send = 0\<rparr>, 3, 1)],
               Some [(\<lparr>eo_accept = -1, eo_nonblock = True, eo_ctl_fails = False, eo_recv = Some [65], eo_send = 16\<rparr>, 6, 1)]]
       (ep_init 3) = Inr (Some q) \<and> p_kset q 3 = Some (EPOLLIN OR EPOLLET)"
  by (rule ep_run_listens) (auto simp: ep_entry_ok_def ep_init_def)

end
