(* ===== verification/BitLib.thy ===== *)
theory BitLib
  imports Prelude
begin

text \<open>
  The two bit libraries: \<open>bit.c\<close> of LuaBitOp, whose results are signed, and \<open>lbitlib.c\<close> of
  Lua (\<open>bit32\<close>), whose results are unsigned. A Lua number is represented by the integer it
  stands for.  Both conversions to 32 bits add \<open>2^52 + 2^51\<close> as a double and take the low half of
  the bits (\<open>add_magic\<close>), which is exact from \<open>-2^51\<close> up to \<open>2^51\<close> and rounds outside.
  \<open>luaL_checkint\<close> converts to a 64-bit integer and reduces it to a signed 32-bit one. Shifts by 32 or more and
  signed overflow are faults, except that a left shift of a signed mask wraps, as compilers
  have it.
\<close>

section \<open>LuaBitOp\<close>

text \<open>
  The double nearest to an integer has a significand of 53 bits; ties go to the even one.  The
  low 32 bits of the double are those of the significand.
\<close>

definition half_even :: "nat \<Rightarrow> nat \<Rightarrow> nat" where
  "half_even s d = (let q = s div d; m = s mod d in if 2 * m > d \<or> 2 * m = d \<and> odd q then q + 1 else q)"

definition add_magic :: "int \<Rightarrow> u32" where
  "add_magic n =
     (let s = nat \<bar>n + 6755399441055744\<bar>; k = nlog2 s
      in of_nat (if k \<le> 52 then s * 2 ^ (52 - k) else half_even s (2 ^ (k - 52))))"

definition barg :: "int \<Rightarrow> u32" where
  "barg n = add_magic n"

definition BRET :: "u32 \<Rightarrow> int" where
  "BRET b = sint b"

definition bit_tobit :: "int \<Rightarrow> int" where
  "bit_tobit x = BRET (barg x)"

definition bit_bnot :: "int \<Rightarrow> int" where
  "bit_bnot x = BRET (NOT (barg x))"

text \<open>
  \<open>BIT_OP\<close>: the first argument, then the others from the last to the second. Without
  arguments \<open>barg\<close> raises an error.
\<close>

definition BIT_OP :: "(u32 \<Rightarrow> u32 \<Rightarrow> u32) \<Rightarrow> int list \<Rightarrow> int res" where
  "BIT_OP opr args =
     (case args of
        [] \<Rightarrow> Inl (Lua_error ''number expected'')
      | x # xs \<Rightarrow> Inr (BRET (foldl opr (barg x) (rev (map barg xs)))))"

definition bit_band :: "int list \<Rightarrow> int res" where
  "bit_band = BIT_OP (AND)"

definition bit_bor :: "int list \<Rightarrow> int res" where
  "bit_bor = BIT_OP (OR)"

definition bit_bxor :: "int list \<Rightarrow> int res" where
  "bit_bxor = BIT_OP (XOR)"

definition bshl :: "u32 \<Rightarrow> nat \<Rightarrow> u32 res" where
  "bshl b n = (if n < 32 then Inr (push_bit n b) else Inl Bad_shift)"

definition bshr :: "u32 \<Rightarrow> nat \<Rightarrow> u32 res" where
  "bshr b n = (if n < 32 then Inr (drop_bit n b) else Inl Bad_shift)"

definition bsar :: "u32 \<Rightarrow> nat \<Rightarrow> u32 res" where
  "bsar b n = (if n < 32 then Inr (signed_drop_bit n b) else Inl Bad_shift)"

definition brol :: "u32 \<Rightarrow> nat \<Rightarrow> u32 res" where
  "brol b n = res_bind (bshl b n) (\<lambda>l. res_bind (bshr b (32 - n)) (\<lambda>r. Inr (l OR r)))"

definition bror :: "u32 \<Rightarrow> nat \<Rightarrow> u32 res" where
  "bror b n = res_bind (bshl b (32 - n)) (\<lambda>l. res_bind (bshr b n) (\<lambda>r. Inr (l OR r)))"

definition BIT_SH :: "(u32 \<Rightarrow> nat \<Rightarrow> u32 res) \<Rightarrow> int \<Rightarrow> int \<Rightarrow> int res" where
  "BIT_SH fn x y = res_bind (fn (barg x) (unat (barg y AND 31))) (\<lambda>b. Inr (BRET b))"

definition bit_lshift :: "int \<Rightarrow> int \<Rightarrow> int res" where
  "bit_lshift = BIT_SH bshl"

definition bit_rshift :: "int \<Rightarrow> int \<Rightarrow> int res" where
  "bit_rshift = BIT_SH bshr"

definition bit_arshift :: "int \<Rightarrow> int \<Rightarrow> int res" where
  "bit_arshift = BIT_SH bsar"

definition bit_rol :: "int \<Rightarrow> int \<Rightarrow> int res" where
  "bit_rol = BIT_SH brol"

definition bit_ror :: "int \<Rightarrow> int \<Rightarrow> int res" where
  "bit_ror = BIT_SH bror"

definition bit_bswap :: "int \<Rightarrow> int" where
  "bit_bswap x =
     (let b = barg x
      in BRET (drop_bit 24 b OR (drop_bit 8 b AND 0xff00) OR push_bit 8 (b AND 0xff00) OR push_bit 24 b))"

definition hexdigits :: "bool \<Rightarrow> string" where
  "hexdigits upper = (if upper then ''0123456789ABCDEF'' else ''0123456789abcdef'')"

text \<open>\<open>for (i = n; --i >= 0; ) { buf[i] = hexdigits[b & 15]; b >>= 4; }\<close>: from the last digit on.\<close>

fun hex_loop :: "nat \<Rightarrow> string \<Rightarrow> u32 \<Rightarrow> string \<Rightarrow> string" where
  "hex_loop 0 ds b acc = acc"
| "hex_loop (Suc i) ds b acc = hex_loop i ds (drop_bit 4 b) (ds ! unat (b AND 15) # acc)"

definition bit_tohex :: "int \<Rightarrow> int option \<Rightarrow> string res" where
  "bit_tohex x y =
     (let b = barg x; n = (case y of None \<Rightarrow> 8 | Some k \<Rightarrow> sint (barg k))
      in if n = - (2 ^ 31) then Inl Int_overflow
         else let m = (if n < 0 then - n else n); k = (if m > 8 then 8 else m)
              in Inr (hex_loop (nat k) (hexdigits (n < 0)) b []))"

text \<open>The self-test of \<open>luaopen_bit\<close>: a known number and an arithmetic shift.\<close>

definition luaopen_bit :: "unit res" where
  "luaopen_bit =
     (if barg 1437217655 \<noteq> 1437217655 \<or> bsar (- 8) 2 \<noteq> Inr (- 2)
      then Inl (Lua_error ''bit library self-test failed'') else Inr ())"

section \<open>The library bit32\<close>

definition luaL_checkunsigned :: "int \<Rightarrow> u32" where
  "luaL_checkunsigned n = add_magic n"

definition luaL_checkint :: "int \<Rightarrow> int" where
  "luaL_checkint n = sint (word_of_int n :: u32)"

definition ALLONES :: u32 where
  "ALLONES = NOT (push_bit 1 (push_bit 31 (NOT 0)))"

definition trim :: "u32 \<Rightarrow> u32" where
  "trim x = x AND ALLONES"

definition mask_w :: "nat \<Rightarrow> u32" where
  "mask_w n = NOT (push_bit (n - 1) (push_bit 1 ALLONES))"

text \<open>The results are pushed as unsigned numbers.\<close>

definition push_u :: "u32 \<Rightarrow> int" where
  "push_u r = uint r"

definition andaux :: "int list \<Rightarrow> u32" where
  "andaux args = trim (foldl (\<lambda>r x. r AND luaL_checkunsigned x) (NOT 0) args)"

definition b_and :: "int list \<Rightarrow> int" where
  "b_and args = push_u (andaux args)"

definition b_test :: "int list \<Rightarrow> bool" where
  "b_test args = (andaux args \<noteq> 0)"

definition b_or :: "int list \<Rightarrow> int" where
  "b_or args = push_u (trim (foldl (\<lambda>r x. r OR luaL_checkunsigned x) 0 args))"

definition b_xor :: "int list \<Rightarrow> int" where
  "b_xor args = push_u (trim (foldl (\<lambda>r x. r XOR luaL_checkunsigned x) 0 args))"

definition b_not :: "int \<Rightarrow> int" where
  "b_not x = push_u (trim (NOT (luaL_checkunsigned x)))"

text \<open>Negating the least 32-bit integer overflows.\<close>

definition neg_int :: "int \<Rightarrow> int res" where
  "neg_int i = (if i = - (2 ^ 31) then Inl Int_overflow else Inr (- i))"

definition b_shift :: "u32 \<Rightarrow> int \<Rightarrow> int res" where
  "b_shift r i =
     (if i < 0
      then res_bind (neg_int i) (\<lambda>j.
           Inr (push_u (if j \<ge> 32 then 0 else drop_bit (nat j) (trim r))))
      else Inr (push_u (trim (if i \<ge> 32 then 0 else push_bit (nat i) r))))"

definition b_lshift :: "int \<Rightarrow> int \<Rightarrow> int res" where
  "b_lshift x y = b_shift (luaL_checkunsigned x) (luaL_checkint y)"

definition b_rshift :: "int \<Rightarrow> int \<Rightarrow> int res" where
  "b_rshift x y = res_bind (neg_int (luaL_checkint y)) (b_shift (luaL_checkunsigned x))"

definition b_arshift :: "int \<Rightarrow> int \<Rightarrow> int res" where
  "b_arshift x y =
     (let r = luaL_checkunsigned x; i = luaL_checkint y
      in if i < 0 \<or> r AND push_bit 31 1 = 0
         then res_bind (neg_int i) (b_shift r)
         else Inr (push_u (if i \<ge> 32 then ALLONES
                           else trim (drop_bit (nat i) r OR NOT (drop_bit (nat i) (NOT 0))))))"

text \<open>\<open>i &= 31\<close> on a signed integer is its remainder modulo 32.\<close>

definition b_rot :: "int \<Rightarrow> int \<Rightarrow> int" where
  "b_rot x i =
     (let r = trim (luaL_checkunsigned x); k = nat (i mod 32)
      in push_u (trim (if k \<noteq> 0 then push_bit k r OR drop_bit (32 - k) r else r)))"

definition b_lrot :: "int \<Rightarrow> int \<Rightarrow> int" where
  "b_lrot x y = b_rot x (luaL_checkint y)"

definition b_rrot :: "int \<Rightarrow> int \<Rightarrow> int res" where
  "b_rrot x y = res_bind (neg_int (luaL_checkint y)) (\<lambda>i. Inr (b_rot x i))"

definition fieldargs :: "int \<Rightarrow> int option \<Rightarrow> (nat \<times> nat) res" where
  "fieldargs farg warg =
     (let f = luaL_checkint farg; w = (case warg of None \<Rightarrow> 1 | Some k \<Rightarrow> luaL_checkint k)
      in if f < 0 then Inl (Lua_error ''field cannot be negative'')
         else if w \<le> 0 then Inl (Lua_error ''width must be positive'')
         else if f + w \<ge> 2 ^ 31 then Inl Int_overflow
         else if f + w > 32 then Inl (Lua_error ''trying to access non-existent bits'')
         else Inr (nat f, nat w))"

definition b_extract :: "int \<Rightarrow> int \<Rightarrow> int option \<Rightarrow> int res" where
  "b_extract x farg warg =
     res_bind (fieldargs farg warg) (\<lambda>(f, w).
       Inr (push_u (drop_bit f (luaL_checkunsigned x) AND mask_w w)))"

definition b_replace :: "int \<Rightarrow> int \<Rightarrow> int \<Rightarrow> int option \<Rightarrow> int res" where
  "b_replace x y farg warg =
     res_bind (fieldargs farg warg) (\<lambda>(f, w).
       let r = luaL_checkunsigned x; m = mask_w w; v = luaL_checkunsigned y AND m
       in Inr (push_u ((r AND NOT (push_bit f m)) OR push_bit f v)))"

section \<open>Properties\<close>

lemma nlog2_unique: "2 ^ k \<le> n \<Longrightarrow> n < 2 * 2 ^ k \<Longrightarrow> nlog2 n = k"
proof -
  assume n: "2 ^ k \<le> n" "n < 2 * 2 ^ k"
  have b: "2 ^ nlog2 n \<le> n \<and> n < 2 * 2 ^ nlog2 n" using n(1) by (intro nlog2_bounds) (rule less_le_trans [of _ "2 ^ k"], simp_all)
  have "(2 :: nat) ^ k < 2 ^ Suc (nlog2 n)" "(2 :: nat) ^ nlog2 n < 2 ^ Suc k" using n b by simp_all
  then show ?thesis by (simp only: power_strict_increasing_iff)
qed

lemma add_magic_exact:
  assumes "- (2 ^ 51) \<le> n" "n < 2 ^ 51" shows "add_magic n = word_of_int n"
proof -
  define s where "s = nat \<bar>n + 6755399441055744\<bar>"
  have s: "int s = n + 6755399441055744" using assms by (simp add: s_def)
  have "nlog2 s = 52"
  proof (rule nlog2_unique)
    have "(2 :: int) ^ 52 \<le> int s" "int s < 2 * 2 ^ 52" using s assms by simp_all
    then show "2 ^ 52 \<le> s" "s < 2 * 2 ^ 52" by simp_all
  qed
  then have "add_magic n = of_nat s" by (simp add: add_magic_def s_def [symmetric] Let_def)
  also have "\<dots> = word_of_int (int s)" by simp
  also have "\<dots> = word_of_int n + word_of_int 6755399441055744" unfolding s by simp
  also have "(word_of_int 6755399441055744 :: u32) = 0" by simp
  finally show ?thesis by simp
qed

lemma add_magic_small: "0 \<le> n \<Longrightarrow> n < 32 \<Longrightarrow> add_magic n = word_of_int n"
  by (rule add_magic_exact) simp_all

lemma ALLONES_eq: "ALLONES = NOT 0"
  by (rule bit_word_eqI) (simp only: ALLONES_def push_bit_push_bit bit_not_iff bit_push_bit_iff, simp)

lemma trim_id [simp]: "trim x = x"
  by (simp add: trim_def ALLONES_eq)

lemma mask_w_eq: "1 \<le> n \<Longrightarrow> n \<le> 32 \<Longrightarrow> mask_w n = mask n"
  by (rule bit_word_eqI) (auto simp: mask_w_def ALLONES_eq bit_simps)

lemma BRET_mod: "BRET b mod 2 ^ 32 = push_u b"
proof -
  have "uint b = take_bit 32 (sint b)" by (simp add: uint_sint)
  then show ?thesis by (simp add: BRET_def push_u_def take_bit_eq_mod)
qed

lemma luaL_checkint_small: "- (2 ^ 31) \<le> n \<Longrightarrow> n < 2 ^ 31 \<Longrightarrow> luaL_checkint n = n"
proof -
  assume n: "- (2 ^ 31) \<le> n" "n < 2 ^ 31"
  have "luaL_checkint n = signed_take_bit 31 n"
    by (simp add: luaL_checkint_def sint_uint unsigned_of_int signed_take_bit_take_bit)
  then show ?thesis using n by (simp add: signed_take_bit_int_eq_self)
qed

lemma shift_count: "0 \<le> n \<Longrightarrow> n < 32 \<Longrightarrow> unat (barg n AND 31) = nat n"
proof -
  assume n: "0 \<le> n" "n < 32"
  have "barg n AND 31 = take_bit 5 (barg n)" by (simp add: take_bit_eq_mask mask_numeral)
  also have "\<dots> = word_of_int (take_bit 5 n)" using n by (simp add: barg_def add_magic_small take_bit_of_int)
  also have "take_bit 5 n = n" using n by (simp add: take_bit_int_eq_self)
  finally have "uint (barg n AND 31) = take_bit 32 n" by (simp add: unsigned_of_int)
  also have "\<dots> = n" using n by (simp add: take_bit_int_eq_self)
  finally show ?thesis by (simp only: unat_eq_nat_uint)
qed

text \<open>The order of the operands does not matter.\<close>

lemma foldl_out:
  assumes "\<And>a b c. f (f a b) c = f (f a c) b"
  shows "foldl f (f a b) ys = f (foldl f a ys) b"
  by (induction ys arbitrary: a) (simp_all add: assms [of _ b])

lemma foldl_rev:
  assumes "\<And>a b c. f (f a b) c = f (f a c) b"
  shows "foldl f a (rev ys) = foldl f a ys"
proof (induction ys arbitrary: a)
  case (Cons y ys)
  then show ?case using foldl_out [of f a y ys, OF assms] by simp
qed simp

lemma BIT_OP_eq:
  assumes "\<And>a b c. f (f a b) c = f (f a c) b" "\<And>x. f z x = x" "args \<noteq> []"
  shows "BIT_OP f args = Inr (BRET (foldl (\<lambda>r x. f r (luaL_checkunsigned x)) z args))"
proof -
  obtain x xs where a: "args = x # xs" using assms(3) by (cases args) auto
  have "foldl f (barg x) (map barg xs) = foldl (\<lambda>r x. f r (luaL_checkunsigned x)) (barg x) xs"
    by (simp add: foldl_map barg_def luaL_checkunsigned_def)
  then show ?thesis using a assms(2) foldl_rev [of f, OF assms(1)]
    by (simp add: BIT_OP_def barg_def luaL_checkunsigned_def)
qed

lemma arith_shift:
  fixes r :: u32 assumes "k < 32"
  shows "signed_drop_bit k r = (if bit r 31 then drop_bit k r OR NOT (drop_bit k (NOT 0)) else drop_bit k r)"
  using assms by (intro bit_word_eqI) (auto simp: bit_simps not_less dest: bit_imp_le_length)

lemma sign_test: "(r :: u32) AND 2147483648 = 0 \<longleftrightarrow> \<not> bit r 31"
proof -
  have "(2147483648 :: u32) = 2 ^ 31" by simp
  then show ?thesis by (simp only: and_exp_eq_0_iff_not_bit)
qed

text \<open>The agreement of one result: the unsigned result is the signed one modulo \<open>2^32\<close>.\<close>

definition agree :: "int res \<Rightarrow> int res \<Rightarrow> bool" where
  "agree s u = (case s of Inl _ \<Rightarrow> False | Inr r \<Rightarrow> u = Inr (r mod 2 ^ 32))"

lemma agree_BRET: "agree (Inr (BRET b)) (Inr (push_u b))"
  unfolding agree_def sum.case BRET_mod ..

lemma shifts_agree:
  assumes n: "0 \<le> n" "n < 32"
  shows "agree (bit_lshift x n) (b_lshift x n)" "agree (bit_rshift x n) (b_rshift x n)"
    "agree (bit_arshift x n) (b_arshift x n)"
proof -
  have c: "luaL_checkint n = n" using n by (intro luaL_checkint_small) auto
  have k: "nat n < 32" using n by simp
  have neg: "neg_int n = Inr (- n)" "n \<noteq> 0 \<Longrightarrow> neg_int (- n) = Inr n" using n by (auto simp: neg_int_def)
  have a: "barg x = luaL_checkunsigned x" by (simp add: barg_def luaL_checkunsigned_def)
  have rs: "b_shift r (- n) = Inr (push_u (drop_bit (nat n) r))" for r
    using n neg by (cases "n = 0") (auto simp: b_shift_def)
  show "agree (bit_lshift x n) (b_lshift x n)"
    using n k c agree_BRET by (simp add: bit_lshift_def BIT_SH_def shift_count bshl_def b_lshift_def b_shift_def a)
  show "agree (bit_rshift x n) (b_rshift x n)"
    using n k c neg rs agree_BRET by (simp add: bit_rshift_def BIT_SH_def shift_count bshr_def b_rshift_def a)
  show "agree (bit_arshift x n) (b_arshift x n)"
    using n k c neg rs agree_BRET arith_shift [OF k, of "barg x"]
    by (simp add: bit_arshift_def BIT_SH_def shift_count bsar_def b_arshift_def Let_def sign_test a)
qed

lemma rotates_agree:
  assumes n: "0 < n" "n < 32"
  shows "agree (bit_rol x n) (Inr (b_lrot x n))" "agree (bit_ror x n) (b_rrot x n)"
proof -
  have c: "luaL_checkint n = n" using n by (intro luaL_checkint_small) auto
  have k: "nat n < 32" "32 - nat n < 32" "nat n \<noteq> 0" using n by auto
  have a: "barg x = luaL_checkunsigned x" by (simp add: barg_def luaL_checkunsigned_def)
  have sc: "unat (barg n AND 31) = nat n" using n by (intro shift_count) auto
  have m: "n mod 32 = n" "nat ((- n) mod 32) = 32 - nat n"
    using n by (simp_all add: zmod_zminus1_eq_if nat_diff_distrib)
  have neg: "neg_int n = Inr (- n)" using n by (simp add: neg_int_def)
  show "agree (bit_rol x n) (Inr (b_lrot x n))"
    using k c m sc agree_BRET by (simp add: bit_rol_def BIT_SH_def brol_def bshl_def bshr_def b_lrot_def b_rot_def Let_def a)
  have "32 - (32 - nat n) = nat n" "32 - nat n \<noteq> 0" using k(1) by auto
  then show "agree (bit_ror x n) (b_rrot x n)"
    using k c m neg sc agree_BRET by (simp add: bit_ror_def BIT_SH_def bror_def bshl_def bshr_def b_rrot_def b_rot_def Let_def a)
qed



text \<open>A shift by 32: \<open>bit\<close> takes the count modulo 32, \<open>bit32\<close> shifts everything out.\<close>

lemma shift_counts_differ: "bit_lshift 1 32 = Inr 1" "b_lshift 1 32 = Inr 0"
  by (simp_all add: bit_lshift_def BIT_SH_def barg_def add_magic_exact bshl_def BRET_def b_lshift_def b_shift_def luaL_checkint_small push_u_def)

text \<open>
  Replacing a field of a number and extracting it again gives the value stored, reduced to
  the width of the field, and all the bits outside the field are kept.
\<close>

theorem field_replace_extract:
  assumes "0 \<le> f" "0 < w" "f + w \<le> 32" and xy: "- (2 ^ 51) \<le> x" "x < 2 ^ 51" "- (2 ^ 51) \<le> y" "y < 2 ^ 51"
  shows "\<exists>r. b_replace x y f (Some w) = Inr r \<and> 0 \<le> r \<and> r < 2 ^ 32 \<and>
     b_extract r f (Some w) = Inr (y mod 2 ^ nat w) \<and>
     (\<forall>k < 32. k < nat f \<or> nat (f + w) \<le> k \<longrightarrow> bit r k = bit x k)"
proof -
  have c: "luaL_checkint f = f" "luaL_checkint w = w" using assms by (auto intro!: luaL_checkint_small)
  have fa: "fieldargs f (Some w) = Inr (nat f, nat w)" using assms c by (simp add: fieldargs_def Let_def)
  define a b where "a = nat f" and "b = nat w"
  have ab: "1 \<le> b" "b \<le> 32" "a + b \<le> 32" "nat (f + w) = a + b" using assms by (auto simp: a_def b_def nat_add_distrib)
  define r where "r = (word_of_int x AND NOT (push_bit a (mask b))) OR push_bit a (word_of_int y AND (mask b :: u32))"
  have rep: "b_replace x y f (Some w) = Inr (uint r)"
    using fa ab by (simp add: b_replace_def Let_def luaL_checkunsigned_def add_magic_exact [OF xy(1,2)] add_magic_exact [OF xy(3,4)] push_u_def mask_w_eq r_def flip: a_def b_def)
  have bits: "bit r k = (if k < a \<or> a + b \<le> k then bit x k else bit y (k - a))" if "k < 32" for k
    using that ab by (auto simp: r_def bit_simps)
  have "drop_bit a r AND mask b = (word_of_int (take_bit b y) :: u32)"
  proof (rule bit_word_eqI)
    fix k assume "k < LENGTH(32)"
    then have "bit (drop_bit a r AND mask b) k = (k < b \<and> bit r (a + k))" by (auto simp: bit_simps)
    also have "\<dots> = (k < b \<and> bit y k)" using bits [of "a + k"] ab by auto
    finally show "bit (drop_bit a r AND mask b) k = bit (word_of_int (take_bit b y) :: u32) k"
      using \<open>k < LENGTH(32)\<close> by (auto simp: bit_simps)
  qed
  moreover have ur: "- (2 ^ 51) \<le> uint r" "uint r < 2 ^ 51" by (rule order_trans [of _ 0], simp_all) (use uint_bounded [of r] in simp)
  ultimately have "b_extract (uint r) f (Some w) = Inr (uint (word_of_int (take_bit b y) :: u32))"
    using fa ab ur by (simp add: b_extract_def luaL_checkunsigned_def add_magic_exact [OF ur] push_u_def mask_w_eq flip: a_def b_def)
  also have "uint (word_of_int (take_bit b y) :: u32) = y mod 2 ^ b"
    using ab by (simp add: unsigned_of_int take_bit_eq_mod [symmetric])
  finally have ext: "b_extract (uint r) f (Some w) = Inr (y mod 2 ^ nat w)" by (simp add: b_def)
  have "bit (uint r) k = bit x k" if "k < 32" "k < a \<or> a + b \<le> k" for k
    using bits [OF that(1)] that(2) by (simp add: bit_uint_iff that(1))
  then show ?thesis using rep ext ab(4) uint_bounded [of r] by (intro exI [of _ "uint r"]) (simp add: a_def)
qed

theorem field_replace_extract_witness:
  "\<exists>r. b_replace 0xABCD 0x7F 4 (Some 8) = Inr r \<and> b_extract r 4 (Some 8) = Inr 0x7F"
  using field_replace_extract [of 4 8 "0xABCD" "0x7F"] by auto

lemma luaopen_bit_ok: "luaopen_bit = Inr ()"
  by (simp add: luaopen_bit_def barg_def add_magic_exact bsar_def)

lemma hex_loop_length: "length (hex_loop n ds b acc) = n + length acc"
  by (induction n ds b acc rule: hex_loop.induct) simp_all

lemma tohex_length: "bit_tohex x (Some n) = Inr h \<Longrightarrow> length h \<le> 8"
  by (auto simp: bit_tohex_def Let_def hex_loop_length split: if_splits)

text \<open>Rotating by a multiple of 32 shifts by 32, which C leaves undefined.\<close>

theorem rotate_by_0_undefined: "bit_rol x 0 = Inl Bad_shift \<and> bit_ror x 0 = Inl Bad_shift"
  by (simp add: bit_rol_def bit_ror_def BIT_SH_def brol_def bror_def bshl_def bshr_def barg_def add_magic_exact)

end
