(* ===== verification/Dbcs.thy ===== *)
theory Dbcs
  imports Prelude
begin

text \<open>
  The double-byte character sets of \<open>ldbcs.h\<close> and their conversion from and to UTF-8. The header
  is included with the tables of one character set (\<open>gbk.h\<close>, \<open>jis.h\<close>), which are a parameter
  here. A pointer into a Lua string is the rest of the string; the byte after its end is
  the terminating 0, and what follows it must not be read.
\<close>

record tables =
  from_uni :: "nat \<Rightarrow> (nat \<Rightarrow> u16) option"
  to_uni :: "nat \<Rightarrow> (nat \<Rightarrow> u16) option"
  to_uni_00 :: "nat \<Rightarrow> u16"
  dbcs_default :: u32
  uni_invalid :: u16

definition from_utf8 :: "tables \<Rightarrow> u32 \<Rightarrow> u32" where
  "from_utf8 T uni_code =
     (case from_uni T (unat (drop_bit 8 uni_code AND 0xFF)) of
        None \<Rightarrow> dbcs_default T
      | Some page \<Rightarrow> ucast (page (unat (uni_code AND 0xFF))))"

definition to_utf8 :: "tables \<Rightarrow> u32 \<Rightarrow> u32" where
  "to_utf8 T cp_code =
     (case to_uni T (unat (drop_bit 8 cp_code AND 0xFF)) of
        None \<Rightarrow> ucast (uni_invalid T)
      | Some page \<Rightarrow> ucast (page (unat (cp_code AND 0xFF))))"

section \<open>UTF-8\<close>

text \<open>\<open>(char) ((x | 0x80) & 0xBF)\<close>, a continuation byte.\<close>

definition cont :: "u32 \<Rightarrow> u8" where
  "cont x = ucast ((x OR 0x80) AND 0xBF)"

definition enc3 :: "u32 \<Rightarrow> u8 list" where
  "enc3 ch = [ucast (drop_bit 12 ch OR 0xE0), cont (drop_bit 6 ch), cont ch]"

definition utf8_encode :: "u32 \<Rightarrow> u8 list" where
  "utf8_encode ch =
     (if ch < 0x80 then [ucast ch]
      else if ch \<le> 0x7FF then [ucast (drop_bit 6 ch OR 0xC0), cont ch]
      else if ch \<le> 0xFFFF then enc3 ch
      else if ch \<le> 0x1FFFFF
        then [ucast (drop_bit 18 ch OR 0xF0), cont (drop_bit 12 ch), cont (drop_bit 6 ch), cont ch]
      else if ch \<le> 0x3FFFFFF
        then [ucast (drop_bit 24 ch OR 0xF8), cont (drop_bit 18 ch), cont (drop_bit 12 ch), cont (drop_bit 6 ch), cont ch]
      else if ch \<le> 0x7FFFFFFF
        then [ucast (drop_bit 30 ch OR 0xFC), cont (drop_bit 24 ch), cont (drop_bit 18 ch), cont (drop_bit 12 ch),
              cont (drop_bit 6 ch), cont ch]
      else enc3 0xFFFD)"

definition rd :: "u8 list \<Rightarrow> nat \<Rightarrow> u8 res" where
  "rd s k = (if k < length s then Inr (s ! k) else if k = length s then Inr 0 else Inl Out_of_bounds)"

definition is_cont :: "u8 \<Rightarrow> bool" where
  "is_cont b = (b AND 0xC0 = 0x80)"

text \<open>
  The loop over the continuation bytes: the number of them, the value and the shifted first
  byte, or (\<open>Inl\<close>) the first byte as shifted so far when a byte is not a continuation byte.
\<close>

function dec_loop :: "u8 list \<Rightarrow> u32 \<Rightarrow> nat \<Rightarrow> u32 \<Rightarrow> (u32 + nat \<times> u32 \<times> u32) res" where
  "dec_loop s ch count acc =
     (if ch AND 0x40 \<noteq> 0
      then res_bind (rd s (count + 1)) (\<lambda>cc.
           if \<not> is_cont cc then Inr (Inl ch)
           else dec_loop s (push_bit 1 ch) (count + 1) (push_bit 6 acc OR (ucast cc AND 0x3F)))
      else Inr (Inr (count, acc, ch)))"
  by pat_completeness auto

lemma bit6_iff: "(ch :: u32) AND 0x40 \<noteq> 0 \<longleftrightarrow> bit ch 6"
proof -
  have "(0x40 :: u32) = 2 ^ 6" by simp
  then show ?thesis by (simp only: and_exp_eq_0_iff_not_bit) simp
qed

lemma low_bits_shift:
  assumes "bit (ch :: u32) 6"
  shows "card {k. k \<le> 6 \<and> bit (push_bit 1 ch) k} < card {k. k \<le> 6 \<and> bit ch k}"
proof -
  let ?B = "{k. k \<le> 6 \<and> bit ch k}"
  have "{k. k \<le> 6 \<and> bit (push_bit 1 ch) k} \<subseteq> Suc ` (?B - {6})"
  proof
    fix k assume "k \<in> {k. k \<le> 6 \<and> bit (push_bit 1 ch) k}"
    then have "1 \<le> k" "k \<le> 6" "bit ch (k - 1)" by (simp_all only: bit_push_bit_iff mem_Collect_eq)
    then show "k \<in> Suc ` (?B - {6})" by (intro image_eqI [of _ _ "k - 1"]) auto
  qed
  then have "card {k. k \<le> 6 \<and> bit (push_bit 1 ch) k} \<le> card (Suc ` (?B - {6}))"
    by (intro card_mono) auto
  also have "\<dots> \<le> card (?B - {6})" by (rule card_image_le) simp
  also have "\<dots> < card ?B" using assms by (intro card_Diff1_less) auto
  finally show ?thesis .
qed

termination dec_loop
  by (relation "measure (\<lambda>(_, ch, _). card {k. k \<le> 6 \<and> bit ch k})") (auto simp only: in_measure case_prod_conv bit6_iff intro: low_bits_shift)

declare dec_loop.simps [simp del]

definition dec_long :: "u8 list \<Rightarrow> u32 \<Rightarrow> (nat \<times> u32) res" where
  "dec_long s ch =
     res_bind (dec_loop s ch 0 0) (\<lambda>r.
       case r of
         Inl ch1 \<Rightarrow> Inr (1, ch1)
       | Inr (count, acc, ch1) \<Rightarrow>
           if count > 5 then Inr (1, ch1)
           else Inr (count + 1, acc OR push_bit (count * 5) (ch1 AND 0x7F)))"

text \<open>The number of bytes and the code; \<open>s\<close> is the rest of the string.\<close>

definition utf8_decode :: "u8 list \<Rightarrow> (nat \<times> u32) res" where
  "utf8_decode s =
     (case s of
        [] \<Rightarrow> Inr (0, 0)
      | b0 # _ \<Rightarrow>
          let ch = ucast b0 :: u32
          in if ch < 0xC0 then Inr (1, ch)
             else if ch < 0xE0
             then if 1 \<ge> length s then Inr (1, ch)
                  else res_bind (rd s 1) (\<lambda>b1.
                       if \<not> is_cont b1 then Inr (1, ch)
                       else Inr (2, push_bit 6 (ch AND 0x1F) OR (ucast b1 AND 0x3F)))
             else if ch < 0xF0
             then if 2 \<ge> length s then Inr (1, ch)
                  else res_bind (rd s 1) (\<lambda>b1. res_bind (rd s 2) (\<lambda>b2.
                       if \<not> is_cont b1 \<or> \<not> is_cont b2 then Inr (1, ch)
                       else Inr (3, push_bit 12 (ch AND 0x0F) OR push_bit 6 (ucast b1 AND 0x3F) OR (ucast b2 AND 0x3F))))
             else dec_long s ch)"

definition add_utf8char :: "u8 list \<Rightarrow> u32 \<Rightarrow> u8 list" where
  "add_utf8char b ch = b @ utf8_encode ch"

section \<open>Double-byte characters\<close>

definition dbcs_decode :: "tables \<Rightarrow> u8 list \<Rightarrow> (nat \<times> u32) res" where
  "dbcs_decode T s =
     (case s of
        [] \<Rightarrow> Inr (0, 0)
      | b0 # _ \<Rightarrow>
          let ch = ucast b0 :: u32
          in if to_uni_00 T (unat ch) \<noteq> uni_invalid T then Inr (1, ch)
             else res_bind (rd s 1) (\<lambda>b1. Inr (2, push_bit 8 ch OR ucast b1)))"

definition add_dbcschar :: "u8 list \<Rightarrow> u32 \<Rightarrow> u8 list" where
  "add_dbcschar b ch =
     (if ch < 0x7F then b @ [ucast ch]
      else b @ [ucast (drop_bit 8 ch AND 0xFF), ucast (ch AND 0xFF)])"

text \<open>The pointer steps over the second byte of a pair even at the end of the string.\<close>

fun dbcs_length :: "u8 list \<Rightarrow> nat" where
  "dbcs_length [] = 0"
| "dbcs_length (b # bs) = Suc (dbcs_length (if b > 0x7F then drop 1 bs else bs))"

definition posrelat :: "int \<Rightarrow> nat \<Rightarrow> int" where
  "posrelat pos len = (if pos \<ge> 0 then pos else if - pos > int len then 0 else int len + pos + 1)"

text \<open>A step of the loops over a string never stands still.\<close>

lemma dec_long_pos: "dec_long s ch0 = Inr (n, ch) \<Longrightarrow> 0 < n"
  by (cases "dec_loop s ch0 0 0") (auto simp: dec_long_def split: sum.splits if_splits)

lemma utf8_decode_pos: "utf8_decode s = Inr (n, ch) \<Longrightarrow> s \<noteq> [] \<Longrightarrow> 0 < n"
  by (auto simp: utf8_decode_def Let_def res_bind_Inr dec_long_pos split: list.splits if_splits)

lemma dbcs_decode_pos: "dbcs_decode T s = Inr (n, ch) \<Longrightarrow> s \<noteq> [] \<Longrightarrow> 0 < n"
  by (auto simp: dbcs_decode_def Let_def res_bind_Inr split: list.splits if_splits)

function string_from_utf8 :: "tables \<Rightarrow> u8 list \<Rightarrow> u8 list \<Rightarrow> u8 list res" where
  "string_from_utf8 T s b =
     (if s = [] then Inr b
      else case utf8_decode s of
          Inl e \<Rightarrow> Inl e
        | Inr (n, ch) \<Rightarrow> string_from_utf8 T (drop n s) (add_dbcschar b (from_utf8 T ch)))"
  by pat_completeness auto
termination
  by (relation "measure (\<lambda>(_, s, _). length s)") (auto dest: utf8_decode_pos)

function string_to_utf8 :: "tables \<Rightarrow> u8 list \<Rightarrow> u8 list \<Rightarrow> u8 list res" where
  "string_to_utf8 T s b =
     (if s = [] then Inr b
      else case dbcs_decode T s of
          Inl e \<Rightarrow> Inl e
        | Inr (n, ch) \<Rightarrow> string_to_utf8 T (drop n s) (add_utf8char b (to_utf8 T ch)))"
  by pat_completeness auto
termination
  by (relation "measure (\<lambda>(_, s, _). length s)") (auto dest: dbcs_decode_pos)

declare string_from_utf8.simps [simp del] string_to_utf8.simps [simp del]

definition Ldbcs_len :: "u8 list \<Rightarrow> nat" where
  "Ldbcs_len s = dbcs_length s"

text \<open>The codes of \<open>k\<close> characters from a position, and the position after them.\<close>

fun take_codes :: "tables \<Rightarrow> nat \<Rightarrow> u8 list \<Rightarrow> (u8 list \<times> u32 list) res" where
  "take_codes T 0 s = Inr (s, [])"
| "take_codes T (Suc k) s =
     res_bind (dbcs_decode T s) (\<lambda>(n, ch).
     res_bind (take_codes T k (drop n s)) (\<lambda>(s1, cs). Inr (s1, ch # cs)))"

text \<open>The number of results returned to Lua and the codes pushed.\<close>

definition Ldbcs_byte :: "tables \<Rightarrow> u8 list \<Rightarrow> int option \<Rightarrow> int option \<Rightarrow> (int \<times> u32 list) res" where
  "Ldbcs_byte T s i j =
     (let len = dbcs_length s;
          posi0 = posrelat (case i of None \<Rightarrow> 1 | Some k \<Rightarrow> k) len;
          pose0 = posrelat (case j of None \<Rightarrow> posi0 | Some k \<Rightarrow> k) len;
          posi = (if posi0 < 1 then 1 else posi0);
          pose = (if pose0 > int len then int len else pose0)
      in if pose > pose then Inr (0, [])
         else let n = pose - posi + 1
              in if posi + n \<le> pose then Inl (Lua_error ''string slice too long'')
                 else res_bind (take_codes T (nat posi) s) (\<lambda>(start, _).
                      res_bind (take_codes T (nat n) start) (\<lambda>(_, cs). Inr (n, cs))))"

definition Ldbcs_char :: "int list \<Rightarrow> u8 list" where
  "Ldbcs_char codes = foldl (\<lambda>b c. add_dbcschar b (word_of_int c)) [] codes"

text \<open>\<open>fromutf8\<close> and \<open>toutf8\<close> take one string or a list of numbers.\<close>

datatype dbcs_arg = Str "u8 list" | Nums "int list" | Other

datatype dbcs_ret = RStr "u8 list" | RNums "u32 list"

definition Ldbcs_fromutf8 :: "tables \<Rightarrow> dbcs_arg \<Rightarrow> dbcs_ret res" where
  "Ldbcs_fromutf8 T a =
     (case a of
        Str s \<Rightarrow> res_bind (string_from_utf8 T s []) (\<lambda>b. Inr (RStr b))
      | Nums ns \<Rightarrow> Inr (RNums (map (\<lambda>n. from_utf8 T (word_of_int n)) ns))
      | Other \<Rightarrow> Inl (Lua_error ''string/number expected''))"

definition Ldbcs_toutf8 :: "tables \<Rightarrow> dbcs_arg \<Rightarrow> dbcs_ret res" where
  "Ldbcs_toutf8 T a =
     (case a of
        Str s \<Rightarrow> res_bind (string_to_utf8 T s []) (\<lambda>b. Inr (RStr b))
      | Nums ns \<Rightarrow> Inr (RNums (map (\<lambda>n. to_utf8 T (word_of_int n)) ns))
      | Other \<Rightarrow> Inl (Lua_error ''string/number expected''))"

section \<open>Round trips\<close>

lemma unat_bits8:
  "unat (x :: u8) = of_bool (bit x 0) + 2 * of_bool (bit x 1) + 4 * of_bool (bit x 2) + 8 * of_bool (bit x 3)
     + 16 * of_bool (bit x 4) + 32 * of_bool (bit x 5) + 64 * of_bool (bit x 6) + 128 * of_bool (bit x 7)"
proof -
  have "unat x < 2 ^ 8" using unsigned_less [of x, where 'a = nat] by simp
  then have "unat x = take_bit 8 (unat x)" by (simp only: take_bit_nat_eq_self)
  also have "\<dots> = 128 * of_bool (bit x 7) + take_bit 7 (unat x)"
    using take_bit_Suc_from_most [of 7 "unat x"] by (simp add: bit_unsigned_iff)
  also have "take_bit 7 (unat x) = 64 * of_bool (bit x 6) + take_bit 6 (unat x)"
    using take_bit_Suc_from_most [of 6 "unat x"] by (simp add: bit_unsigned_iff)
  also have "take_bit 6 (unat x) = 32 * of_bool (bit x 5) + take_bit 5 (unat x)"
    using take_bit_Suc_from_most [of 5 "unat x"] by (simp add: bit_unsigned_iff)
  also have "take_bit 5 (unat x) = 16 * of_bool (bit x 4) + take_bit 4 (unat x)"
    using take_bit_Suc_from_most [of 4 "unat x"] by (simp add: bit_unsigned_iff)
  also have "take_bit 4 (unat x) = 8 * of_bool (bit x 3) + take_bit 3 (unat x)"
    using take_bit_Suc_from_most [of 3 "unat x"] by (simp add: bit_unsigned_iff)
  also have "take_bit 3 (unat x) = 4 * of_bool (bit x 2) + take_bit 2 (unat x)"
    using take_bit_Suc_from_most [of 2 "unat x"] by (simp add: bit_unsigned_iff)
  also have "take_bit 2 (unat x) = 2 * of_bool (bit x 1) + take_bit 1 (unat x)"
    using take_bit_Suc_from_most [of 1 "unat x"] by (simp add: bit_unsigned_iff numeral_2_eq_2)
  also have "take_bit 1 (unat x) = of_bool (bit x 0)"
    using take_bit_Suc_from_most [of 0 "unat x"] by (simp add: bit_unsigned_iff)
  finally show ?thesis by simp
qed

lemma unat_u8_u32: "unat (ucast (x :: u8) :: u32) = unat x"
proof -
  have "unat x < 2 ^ 32" using unsigned_less [of x, where 'a = nat] by simp
  then show ?thesis by (simp add: unsigned_ucast_eq take_bit_nat_eq_self)
qed

lemma cont_ok [simp]: "is_cont (cont x)" "ucast (cont x) AND 0x3F = x AND (0x3F :: u32)"
proof -
  have "cont x AND 0xC0 = 0x80" by (rule bits8I) (simp_all add: cont_def bit_simps)
  then show "is_cont (cont x)" by (simp add: is_cont_def)
  show "ucast (cont x) AND 0x3F = x AND (0x3F :: u32)" by (rule bits32I) (simp_all add: cont_def bit_simps)
qed

lemma rd_nth: "k < length s \<Longrightarrow> rd s k = Inr (s ! k)"
  by (simp add: rd_def)

lemma dec_step:
  assumes "bit ch0 (6 - k)" "k \<le> 6" "rd s (k + 1) = Inr (cont x)"
  shows "dec_loop s (push_bit k ch0) k acc = dec_loop s (push_bit (k + 1) ch0) (k + 1) (push_bit 6 acc OR (x AND 0x3F))"
proof -
  have "bit (push_bit k ch0) 6" using assms(1, 2) by (simp add: bit_push_bit_iff)
  then have "push_bit k ch0 AND 0x40 \<noteq> 0" by (simp only: bit6_iff not_False_eq_True)
  moreover have "push_bit 1 (push_bit k ch0) = push_bit (k + 1) ch0" by (simp only: push_bit_push_bit add.commute)
  ultimately show ?thesis using assms(3) by (subst dec_loop.simps) (simp only: res_bind_simps cont_ok if_True if_False not_True_eq_False not_False_eq_True)
qed

lemma dec_stop:
  assumes "\<not> bit ch0 (6 - k)" "k \<le> 6"
  shows "dec_loop s (push_bit k ch0) k acc = Inr (Inr (k, acc, push_bit k ch0))"
proof -
  have "\<not> bit (push_bit k ch0) 6" using assms by (simp add: bit_push_bit_iff)
  then have "\<not> (push_bit k ch0 AND 0x40 \<noteq> 0)" by (simp only: bit6_iff not_False_eq_True)
  then show ?thesis by (subst dec_loop.simps) (simp only: if_False)
qed

text \<open>Which first bytes lead to which length.\<close>

lemma first_byte:
  "bit b0 7 \<Longrightarrow> bit b0 6 \<Longrightarrow> \<not> (ucast (b0 :: u8) :: u32) < 0xC0"
  "bit b0 7 \<Longrightarrow> bit b0 6 \<Longrightarrow> (ucast (b0 :: u8) :: u32) < 0xE0 \<longleftrightarrow> \<not> bit b0 5"
  "bit b0 7 \<Longrightarrow> bit b0 6 \<Longrightarrow> bit b0 5 \<Longrightarrow> (ucast (b0 :: u8) :: u32) < 0xF0 \<longleftrightarrow> \<not> bit b0 4"
  by (simp_all add: word_less_nat_alt unat_u8_u32 unat_bits8 of_bool_def)

lemma roundtrip1: "ch < 0x80 \<Longrightarrow> utf8_decode (ucast ch # rest) = Inr (1, ch)"
proof -
  assume "ch < 0x80"
  then have lt: "unat ch < 2 ^ 7" by (simp add: word_less_nat_alt)
  have "ucast (ucast ch :: u8) = ch" by (rule bits32I) (simp_all add: bit_simps high_bits_zero [OF lt])
  moreover have "ch < 0xC0" using lt by (simp add: word_less_nat_alt)
  ultimately show ?thesis by (simp add: utf8_decode_def)
qed

lemma roundtrip2:
  assumes "ch \<le> 0x7FF" shows "utf8_decode ([ucast (drop_bit 6 ch OR 0xC0), cont ch] @ rest) = Inr (2, ch)"
proof -
  have lt: "unat ch < 2 ^ 11" using assms by (simp add: word_le_nat_alt)
  let ?b = "ucast (drop_bit 6 ch OR 0xC0) :: u8"
  have b: "bit ?b 7" "bit ?b 6" "\<not> bit ?b 5" by (simp_all add: bit_simps high_bits_zero [OF lt])
  have v: "push_bit 6 (ucast ?b AND 0x1F) OR (ch AND 0x3F) = ch"
    by (rule bits32I) (simp_all add: bit_simps high_bits_zero [OF lt])
  show ?thesis using first_byte [of ?b] b v by (simp add: utf8_decode_def Let_def rd_def)
qed

lemma roundtrip3:
  assumes "ch \<le> 0xFFFF" shows "utf8_decode (enc3 ch @ rest) = Inr (3, ch)"
proof -
  have lt: "unat ch < 2 ^ 16" using assms by (simp add: word_le_nat_alt)
  let ?b = "ucast (drop_bit 12 ch OR 0xE0) :: u8"
  have b: "bit ?b 7" "bit ?b 6" "bit ?b 5" "\<not> bit ?b 4" by (simp_all add: bit_simps high_bits_zero [OF lt])
  have v: "push_bit 12 (ucast ?b AND 0x0F) OR push_bit 6 (drop_bit 6 ch AND 0x3F) OR (ch AND 0x3F) = ch"
    by (rule bits32I) (simp_all add: bit_simps high_bits_zero [OF lt])
  show ?thesis using first_byte [of ?b] b v by (simp add: utf8_decode_def enc3_def Let_def rd_def)
qed

lemma decode_long:
  assumes "bit b0 7" "bit b0 6" "bit b0 5" "bit b0 4"
  shows "utf8_decode (b0 # s) = dec_long (b0 # s) (ucast b0)"
  using first_byte [of b0] assms by (simp add: utf8_decode_def Let_def)

abbreviation add6 :: "u32 \<Rightarrow> u32 \<Rightarrow> u32" where
  "add6 a x \<equiv> push_bit 6 a OR (x AND 0x3F)"

lemma dec_run:
  assumes "n = length xs" "n \<le> 6" "\<forall>k < n. bit c (6 - k)" "\<not> bit c (6 - n)" "j \<le> n"
  shows "dec_loop (b0 # map cont xs @ rest) (push_bit j c) j acc = Inr (Inr (n, foldl add6 acc (drop j xs), push_bit n c))"
  using assms(5)
proof (induction "n - j" arbitrary: j acc)
  case 0
  then have "j = n" by simp
  then show ?case using dec_stop [OF assms(4, 2)] assms(1) by simp
next
  case (Suc d)
  then have j: "j < n" by simp
  have "rd (b0 # map cont xs @ rest) (j + 1) = Inr (cont (xs ! j))" using j assms(1) by (simp add: rd_def nth_append)
  then have "dec_loop (b0 # map cont xs @ rest) (push_bit j c) j acc
      = dec_loop (b0 # map cont xs @ rest) (push_bit (j + 1) c) (j + 1) (add6 acc (xs ! j))"
    using dec_step [of c j] assms(2, 3) j by simp
  also have "\<dots> = Inr (Inr (n, foldl add6 (add6 acc (xs ! j)) (drop (j + 1) xs), push_bit n c))"
    using Suc j by (intro Suc(1)) auto
  also have "foldl add6 (add6 acc (xs ! j)) (drop (j + 1) xs) = foldl add6 acc (drop j xs)"
  proof -
    have "drop j xs = xs ! j # drop (j + 1) xs" using j assms(1) Cons_nth_drop_Suc [of j xs] by simp
    then show ?thesis by (simp only: foldl_Cons)
  qed
  finally show ?case .
qed

lemma long_roundtrip:
  assumes "bit b0 7" "bit b0 6" "bit b0 5" "bit b0 4"
    and "n = length xs" "n \<le> 5" "\<forall>k < n. bit (ucast b0 :: u32) (6 - k)" "\<not> bit (ucast b0 :: u32) (6 - n)"
    and "foldl add6 0 xs OR push_bit (n * 5) (push_bit n (ucast b0) AND 0x7F) = ch"
  shows "utf8_decode (b0 # map cont xs @ rest) = Inr (Suc n, ch)"
proof -
  have "dec_loop (b0 # map cont xs @ rest) (ucast b0) 0 0 = Inr (Inr (n, foldl add6 0 xs, push_bit n (ucast b0)))"
    using dec_run [OF assms(5) _ assms(7, 8), of 0] assms(6) by simp
  then show ?thesis using decode_long [OF assms(1-4)] assms(6, 9) by (simp add: dec_long_def)
qed

lemma below3: "(\<forall>k < 3. P k) \<longleftrightarrow> P 0 \<and> P 1 \<and> P (2 :: nat)"
  by (auto simp: numeral_3_eq_3 less_Suc_eq numeral_2_eq_2)

lemma below4: "(\<forall>k < 4. P k) \<longleftrightarrow> (\<forall>k < 3. P k) \<and> P (3 :: nat)"
  by (auto simp: less_Suc_eq eval_nat_numeral)

lemma below5: "(\<forall>k < 5. P k) \<longleftrightarrow> (\<forall>k < 4. P k) \<and> P (4 :: nat)"
  by (auto simp: less_Suc_eq eval_nat_numeral)

lemma roundtrip4:
  assumes "ch \<le> 0x1FFFFF"
  shows "utf8_decode ([ucast (drop_bit 18 ch OR 0xF0), cont (drop_bit 12 ch), cont (drop_bit 6 ch), cont ch] @ rest) = Inr (4, ch)"
proof -
  have lt: "unat ch < 2 ^ 21" using assms by (simp add: word_le_nat_alt)
  let ?b = "ucast (drop_bit 18 ch OR 0xF0) :: u8" and ?xs = "[drop_bit 12 ch, drop_bit 6 ch, ch]"
  have "utf8_decode (?b # map cont ?xs @ rest) = Inr (Suc 3, ch)"
  proof (rule long_roundtrip)
    show "foldl add6 0 ?xs OR push_bit (3 * 5) (push_bit 3 (ucast ?b) AND 0x7F) = ch"
      by (rule bits32I) (simp_all add: bit_simps high_bits_zero [OF lt])
  qed (simp_all add: bit_simps high_bits_zero [OF lt] below3)
  then show ?thesis by simp
qed

lemma roundtrip5:
  assumes "ch \<le> 0x3FFFFFF"
  shows "utf8_decode ([ucast (drop_bit 24 ch OR 0xF8), cont (drop_bit 18 ch), cont (drop_bit 12 ch), cont (drop_bit 6 ch), cont ch] @ rest)
    = Inr (5, ch)"
proof -
  have lt: "unat ch < 2 ^ 26" using assms by (simp add: word_le_nat_alt)
  let ?b = "ucast (drop_bit 24 ch OR 0xF8) :: u8" and ?xs = "[drop_bit 18 ch, drop_bit 12 ch, drop_bit 6 ch, ch]"
  have "utf8_decode (?b # map cont ?xs @ rest) = Inr (Suc 4, ch)"
  proof (rule long_roundtrip)
    show "foldl add6 0 ?xs OR push_bit (4 * 5) (push_bit 4 (ucast ?b) AND 0x7F) = ch"
      by (rule bits32I) (simp_all add: bit_simps high_bits_zero [OF lt])
  qed (simp_all add: bit_simps high_bits_zero [OF lt] below3 below4)
  then show ?thesis by simp
qed

lemma roundtrip6:
  assumes "ch \<le> 0x7FFFFFFF"
  shows "utf8_decode ([ucast (drop_bit 30 ch OR 0xFC), cont (drop_bit 24 ch), cont (drop_bit 18 ch), cont (drop_bit 12 ch),
      cont (drop_bit 6 ch), cont ch] @ rest) = Inr (6, ch)"
proof -
  have lt: "unat ch < 2 ^ 31" using assms by (simp add: word_le_nat_alt)
  let ?b = "ucast (drop_bit 30 ch OR 0xFC) :: u8"
    and ?xs = "[drop_bit 24 ch, drop_bit 18 ch, drop_bit 12 ch, drop_bit 6 ch, ch]"
  have "utf8_decode (?b # map cont ?xs @ rest) = Inr (Suc 5, ch)"
  proof (rule long_roundtrip)
    show "foldl add6 0 ?xs OR push_bit (5 * 5) (push_bit 5 (ucast ?b) AND 0x7F) = ch"
      by (rule bits32I) (simp_all add: bit_simps high_bits_zero [OF lt])
  qed (simp_all add: bit_simps high_bits_zero [OF lt] below3 below4 below5)
  then show ?thesis by simp
qed

lemma utf8_encode_nonempty: "utf8_encode ch \<noteq> []"
  by (simp add: utf8_encode_def enc3_def)

lemma utf8_decode_encode: "ch \<le> 0x7FFFFFFF \<Longrightarrow> utf8_decode (utf8_encode ch @ rest) = Inr (length (utf8_encode ch), ch)"
  using roundtrip1 [of ch rest] roundtrip2 [of ch rest] roundtrip3 [of ch rest] roundtrip4 [of ch rest]
    roundtrip5 [of ch rest] roundtrip6 [of ch rest]
  by (simp add: utf8_encode_def enc3_def)

text \<open>
  C36. UTF-8: the bytes written for any code up to \<open>7FFFFFFF\<close>, followed by anything, are read
  back as that code, and exactly they are consumed.
\<close>

theorem utf8_roundtrip:
  assumes "ch \<le> 0x7FFFFFFF"
  shows "utf8_decode (utf8_encode ch @ rest) = Inr (length (utf8_encode ch), ch) \<and> length (utf8_encode ch) \<le> 6"
  using utf8_decode_encode [OF assms] by (auto simp: utf8_encode_def enc3_def)

theorem utf8_roundtrip_witness:
  "utf8_decode (utf8_encode 0x20AC @ [65]) = Inr (length (utf8_encode 0x20AC), 0x20AC)"
  using utf8_roundtrip [of "0x20AC" "[65]"] by (simp add: word_le_nat_alt)

section \<open>Strings\<close>

text \<open>
  What the tables must give for a code to survive the way to the character set and back:
  a single byte below \<open>7F\<close> that is a character of its own, or a pair whose first byte is not.
\<close>

definition code_ok :: "tables \<Rightarrow> u32 \<Rightarrow> bool" where
  "code_ok T c =
     (let d = from_utf8 T c
      in to_utf8 T d = c \<and> c \<le> 0x7FFFFFFF \<and>
         (if d < 0x7F then to_uni_00 T (unat d) \<noteq> uni_invalid T
          else d \<le> 0xFFFF \<and> to_uni_00 T (unat (drop_bit 8 d)) = uni_invalid T))"

lemma from_utf8_step:
  assumes "c \<le> 0x7FFFFFFF"
  shows "string_from_utf8 T (utf8_encode c @ s) b = string_from_utf8 T s (add_dbcschar b (from_utf8 T c))"
  using utf8_decode_encode [OF assms, of s] utf8_encode_nonempty [of c]
  by (subst string_from_utf8.simps) simp

lemma to_utf8_step:
  assumes "code_ok T c"
  shows "string_to_utf8 T (add_dbcschar [] (from_utf8 T c) @ s) b = string_to_utf8 T s (b @ utf8_encode c)"
proof -
  define d where "d = from_utf8 T c"
  have c: "to_utf8 T d = c" using assms by (simp add: code_ok_def d_def Let_def)
  show ?thesis
  proof (cases "d < 0x7F")
    case True
    then have lt: "unat d < 2 ^ 7" by (simp add: word_less_nat_alt)
    have "ucast (ucast d :: u8) = d" by (rule bits32I) (simp_all add: bit_simps high_bits_zero [OF lt])
    then show ?thesis using assms True c unfolding d_def [symmetric]
      by (subst string_to_utf8.simps) (simp add: code_ok_def Let_def add_dbcschar_def dbcs_decode_def add_utf8char_def flip: d_def)
  next
    case False
    have "d \<le> 0xFFFF" using assms False by (simp add: code_ok_def Let_def flip: d_def)
    then have lt: "unat d < 2 ^ 16" by (simp add: word_le_nat_alt)
    have hi: "ucast (ucast (drop_bit 8 d AND 0xFF) :: u8) = drop_bit 8 d"
      by (rule bits32I) (simp_all add: bit_simps high_bits_zero [OF lt])
    have v: "push_bit 8 (drop_bit 8 d) OR ucast (ucast (d AND 0xFF) :: u8) = d"
      by (rule bits32I) (simp_all add: bit_simps)
    show ?thesis using assms False c hi v unfolding d_def [symmetric]
      by (subst string_to_utf8.simps)
        (simp add: code_ok_def Let_def add_dbcschar_def dbcs_decode_def add_utf8char_def rd_def flip: d_def)
  qed
qed

lemma add_dbcschar_append: "add_dbcschar b ch = b @ add_dbcschar [] ch"
  by (simp add: add_dbcschar_def)

lemma from_utf8_all:
  "\<forall>c \<in> set cs. c \<le> 0x7FFFFFFF \<Longrightarrow>
     string_from_utf8 T (concat (map utf8_encode cs)) b = Inr (b @ concat (map (\<lambda>c. add_dbcschar [] (from_utf8 T c)) cs))"
proof (induction cs arbitrary: b)
  case Nil then show ?case by (subst string_from_utf8.simps) simp
next
  case (Cons c cs)
  then show ?case
    by (simp add: from_utf8_step) (subst add_dbcschar_append, simp)
qed

lemma to_utf8_all:
  "\<forall>c \<in> set cs. code_ok T c \<Longrightarrow>
     string_to_utf8 T (concat (map (\<lambda>c. add_dbcschar [] (from_utf8 T c)) cs)) b = Inr (b @ concat (map utf8_encode cs))"
proof (induction cs arbitrary: b)
  case Nil then show ?case by (subst string_to_utf8.simps) simp
qed (simp add: to_utf8_step)


text \<open>A part of the tables of GBK: ASCII, the euro sign, and the character \<open>4E00\<close>, which is \<open>D2BB\<close>.\<close>

definition ex_gbk :: tables where
  "ex_gbk = \<lparr>
     from_uni = (\<lambda>p. if p = 0 then Some (\<lambda>i. if i < 0x80 then of_nat i else 0xFFFE)
                    else if p = 0x4E then Some (\<lambda>i. if i = 0 then 0xD2BB else 0xFFFE) else None),
     to_uni = (\<lambda>p. if p = 0 then Some (\<lambda>i. if i < 0x80 then of_nat i else if i = 0x80 then 0x20AC else 0xFFFE)
                  else if p = 0xD2 then Some (\<lambda>i. if i = 0xBB then 0x4E00 else 0xFFFE) else None),
     to_uni_00 = (\<lambda>i. if i < 0x80 then of_nat i else if i = 0x80 then 0x20AC else 0xFFFE),
     dbcs_default = 0x3F, uni_invalid = 0xFFFE\<rparr>"


text \<open>
  \<open>byte\<close> is off by one: of a string of three single-byte characters it returns, for the
  position 1, the second; and when the end is before the start it returns a negative
  number of results, since the test for that compares \<open>pose\<close> with itself.
\<close>

theorem byte_off_by_one:
  assumes "\<forall>b \<in> {x, y, z}. b \<le> 0x7F \<and> to_uni_00 T (unat b) \<noteq> uni_invalid T"
  shows "Ldbcs_byte T [x, y, z] None None = Inr (1, [ucast y]) \<and>
     Ldbcs_byte T [x, y, z] (Some 3) (Some 1) = Inr (-1, [])"
proof -
  have l: "dbcs_length [x, y, z] = 3" using assms by (simp add: not_less)
  have d: "dbcs_decode T (b # s) = Inr (1, ucast b)" if "b \<in> {x, y, z}" for b s
    using assms that by (auto simp: dbcs_decode_def Let_def unat_u8_u32)
  have t: "take_codes T 1 [x, y, z] = Inr ([y, z], [ucast x])" "take_codes T 1 [y, z] = Inr ([z], [ucast y])"
    "take_codes T 3 [x, y, z] = Inr ([], [ucast x, ucast y, ucast z])"
    using d by (simp_all add: numeral_3_eq_3)
  show ?thesis using t by (simp add: Ldbcs_byte_def l Let_def posrelat_def)
qed

theorem byte_off_by_one_witness:
  "Ldbcs_byte ex_gbk [97, 98, 99] None None = Inr (1, [98]) \<and> Ldbcs_byte ex_gbk [97, 98, 99] (Some 3) (Some 1) = Inr (-1, [])"
  using byte_off_by_one [of 97 98 99 ex_gbk] by (simp add: ex_gbk_def word_le_nat_alt)

text \<open>The character \<open>7F\<close> becomes two bytes.\<close>

theorem del_becomes_pair: "add_dbcschar [] 0x7F = [0, 0x7F]"
  by (simp add: add_dbcschar_def)

end
