(* ===== verification/Pinyin.thy ===== *)
theory Pinyin
  imports Dbcs
begin

text \<open>
  The pinyin library of \<open>lpinyin.c\<close>: the readings of Chinese characters, found in generated
  tables (\<open>pinyin.h\<close>), and the characters of a reading.  The large tables are a parameter;
  the lists of syllables and rhymes are those of the header.  A pointer into a Lua string
  is an offset; the string is followed by a 0 and nothing after it may be read.  Text the
  parser of readings works on is the rest of a C string.  The theory shows that the searches
  in sorted tables find what is there, that a text of characters below \<open>10000\<close> gets
  the readings of its characters in order, and where the library fails.
\<close>

section \<open>Data\<close>

record PinyinEntry =
  e_syllable :: u8
  e_rhyme :: u8
  e_tone :: u8
  polyphone_count :: u8

record PinyinIndex =
  i_entry :: PinyinEntry
  i_idx :: u16
  i_count :: u16

record pinyin_tables =
  pytable :: "nat \<Rightarrow> (nat \<Rightarrow> PinyinEntry) option"
  polyphone :: "(u16 \<times> u16) list"
  polyphone_data :: "PinyinEntry list"
  pyindex :: "PinyinIndex list"
  pyindex_data :: "u16 list"

definition bytes :: "string \<Rightarrow> u8 list" where
  "bytes = map of_char"

definition py_syllables :: "u8 list list" where
  "py_syllables = map bytes
     ['''', ''b'', ''c'', ''ch'', ''d'', ''f'', ''g'', ''h'', ''j'', ''k'', ''l'', ''m'', ''n'', ''p'', ''q'',
      ''r'', ''s'', ''sh'', ''t'', ''w'', ''x'', ''y'', ''z'', ''zh'']"

definition py_rhymes :: "u8 list list" where
  "py_rhymes = map bytes
     [''a'', ''ai'', ''an'', ''ang'', ''ao'', ''au'', ''e'', ''ei'', ''en'', ''eng'', ''er'', ''i'',
      ''ia'', ''ian'', ''iang'', ''iao'', ''ie'', ''in'', ''ing'', ''iong'', ''iu'', ''m'', ''n'',
      ''ng'', ''o'', ''ong'', ''ou'', ''r'', ''u'', ''ua'', ''uai'', ''uan'', ''uang'', ''ue'', ''ui'',
      ''un'', ''uo'', ''v'', ''ve'']"

definition RHYME_COUNT :: nat where
  "RHYME_COUNT = 39"

definition WITH_UTF8 :: u32 where "WITH_UTF8 = 0x01"
definition WITH_TONE :: u32 where "WITH_TONE = 0x02"
definition WITH_PREFIX :: u32 where "WITH_PREFIX = 0x04"
definition WITH_POSTFIX :: u32 where "WITH_POSTFIX = 0x08"

section \<open>UTF-8\<close>

text \<open>The text of \<open>utf8_encode\<close> is that of \<open>ldbcs.h\<close>.\<close>

definition py_utf8_encode :: "u32 \<Rightarrow> u8 list" where
  "py_utf8_encode = utf8_encode"

text \<open>
  The character at \<open>s\<close>, for a range that ends at \<open>e\<close>.  From \<open>F0\<close> on the variable the
  continuation bytes are collected in is not initialised: the first of them reads it.
\<close>

definition py_utf8_decode :: "u8 list \<Rightarrow> nat \<Rightarrow> nat \<Rightarrow> (nat \<times> u32) res" where
  "py_utf8_decode m s e =
     (if s \<ge> e then Inr (0, 0)
      else res_bind (rd m s) (\<lambda>b0.
        let ch = ucast b0 :: u32
        in if ch < 0xC0 then Inr (1, ch)
           else if ch < 0xE0
           then if s + 1 \<ge> e then Inr (1, ch)
                else res_bind (rd m (s + 1)) (\<lambda>b1.
                     if \<not> is_cont b1 then Inr (1, ch)
                     else Inr (2, push_bit 6 (ch AND 0x1F) OR (ucast b1 AND 0x3F)))
           else if ch < 0xF0
           then if s + 2 \<ge> e then Inr (1, ch)
                else res_bind (rd m (s + 1)) (\<lambda>b1. res_bind (rd m (s + 2)) (\<lambda>b2.
                     if \<not> is_cont b1 \<or> \<not> is_cont b2 then Inr (1, ch)
                     else Inr (3, push_bit 12 (ch AND 0x0F) OR push_bit 6 (ucast b1 AND 0x3F) OR (ucast b2 AND 0x3F))))
           else res_bind (rd m (s + 1)) (\<lambda>cc.
                if \<not> is_cont cc then Inr (1, ch) else Inl Uninit_read)))"

definition utf8_next :: "u8 list \<Rightarrow> nat \<Rightarrow> nat \<Rightarrow> nat res" where
  "utf8_next m s e = res_bind (py_utf8_decode m s e) (\<lambda>(n, _). Inr (s + n))"

fun prev_loop :: "u8 list \<Rightarrow> nat \<Rightarrow> nat \<Rightarrow> nat res" where
  "prev_loop m s 0 = Inr s"
| "prev_loop m s (Suc look) =
     (if s \<le> look
      then res_bind (rd m look) (\<lambda>ch. if ch < 0x80 \<or> ch \<ge> 0xC0 then Inr look else prev_loop m s look)
      else Inr s)"

text \<open>\<open>look\<close> starts at \<open>e - 1\<close>; the argument of the loop is one more than \<open>look\<close>.\<close>

definition utf8_prev :: "u8 list \<Rightarrow> nat \<Rightarrow> nat \<Rightarrow> nat res" where
  "utf8_prev m s e = prev_loop m s e"

text \<open>\<open>n\<close> steps forward or backward, but not beyond the range.\<close>

fun next_n :: "u8 list \<Rightarrow> nat \<Rightarrow> nat \<Rightarrow> nat \<Rightarrow> nat res" where
  "next_n m e 0 s = Inr s"
| "next_n m e (Suc n) s = (if s < e then res_bind (utf8_next m s e) (next_n m e n) else Inr s)"

fun prev_n :: "u8 list \<Rightarrow> nat \<Rightarrow> nat \<Rightarrow> nat \<Rightarrow> nat res" where
  "prev_n m s 0 e = Inr e"
| "prev_n m s (Suc n) e = (if s < e then res_bind (utf8_prev m s e) (prev_n m s n) else Inr e)"

text \<open>\<open>while (s < e && --idx > 0)\<close> makes \<open>idx - 1\<close> steps, \<open>while (s < e && idx++ < 0)\<close> \<open>-idx\<close>.\<close>

definition utf8_index :: "u8 list \<Rightarrow> nat \<Rightarrow> nat \<Rightarrow> int \<Rightarrow> nat res" where
  "utf8_index m s e idx = (if idx \<ge> 0 then next_n m e (nat (idx - 1)) s else prev_n m s (nat (- idx)) e)"

section \<open>Printing a reading\<close>

definition utf8_rhyms :: "u32 list list" where
  "utf8_rhyms =
    [[0x0061, 0x0101, 0x00E1, 0x01CE, 0x00E0],
     [0x0069, 0x012B, 0x00ED, 0x01D0, 0x00EC],
     [0x0075, 0x016B, 0x00FA, 0x01D4, 0x00F9],
     [0x0065, 0x0113, 0x00E9, 0x011B, 0x00E8],
     [0x006F, 0x014D, 0x00F3, 0x01D2, 0x00F2],
     [0x00FC, 0x01D6, 0x01D8, 0x01DA, 0x01DC],
     [0x006D, 0x0000, 0x1E3F, 0, 0],
     [0x006E, 0x0000, 0x0144, 0x0148, 0x01F9],
     [0x0067, 0x0000, 0x01F5, 0x01E7, 0]]"

definition combine :: "u32 list" where
  "combine = [0x0304, 0x0301, 0x030C, 0x0300]"

definition rhyme_letter :: "u8 \<Rightarrow> nat option" where
  "rhyme_letter rhyme =
     map_of (zip (bytes ''aiueovmng'') [0..<9]) rhyme"

definition add_utf8_tone :: "u8 list \<Rightarrow> u8 \<Rightarrow> nat \<Rightarrow> u8 list res" where
  "add_utf8_tone b rhyme tone =
     (case rhyme_letter rhyme of
        None \<Rightarrow> Inr (b @ [rhyme])
      | Some idx \<Rightarrow>
          res_bind (mem_get (utf8_rhyms ! idx) tone) (\<lambda>ch.
            if ch \<noteq> 0 then Inr (b @ py_utf8_encode ch)
            else if tone \<noteq> 0
            then res_bind (mem_get combine (tone - 1)) (\<lambda>c. Inr (b @ [rhyme] @ py_utf8_encode c))
            else Inr (b @ [rhyme])))"

definition add_utf8_rhyme :: "u8 list \<Rightarrow> u8 list \<Rightarrow> nat \<Rightarrow> u8 list res" where
  "add_utf8_rhyme b rhyme tone =
     res_bind (rd rhyme 0) (\<lambda>r0.
     res_bind (if r0 \<notin> set (bytes ''iuv'') then Inr True
               else res_bind (rd rhyme 1) (\<lambda>r1. Inr (r1 \<notin> set (bytes ''aeo'')))) (\<lambda>first.
       if first
       then if length rhyme < 1 then Inl Out_of_bounds
            else res_bind (add_utf8_tone b r0 tone) (\<lambda>b. Inr (b @ drop 1 rhyme))
       else res_bind (rd rhyme 1) (\<lambda>r1.
            res_bind (add_utf8_tone (b @ [r0]) r1 tone) (\<lambda>b. Inr (b @ drop 2 rhyme)))))"

definition add_pinyin :: "u8 list \<Rightarrow> PinyinEntry \<Rightarrow> u32 \<Rightarrow> u8 list res" where
  "add_pinyin b entry flags =
     (let b = (if flags AND WITH_PREFIX \<noteq> 0 then b @ bytes '' '' else b)
      in res_bind (mem_get py_syllables (unat (e_syllable entry))) (\<lambda>syl.
         res_bind (mem_get py_rhymes (unat (e_rhyme entry))) (\<lambda>rhyme.
         res_bind (if flags AND WITH_UTF8 \<noteq> 0 then add_utf8_rhyme (b @ syl) rhyme (unat (e_tone entry))
                   else Inr (b @ syl @ rhyme)) (\<lambda>b.
         let b = (if flags AND WITH_TONE \<noteq> 0 then b @ [48 + e_tone entry] else b)
         in Inr (if flags AND WITH_POSTFIX \<noteq> 0 then b @ bytes '' '' else b)))))"

section \<open>Searching the tables\<close>

definition get_entry :: "pinyin_tables \<Rightarrow> u32 \<Rightarrow> PinyinEntry option" where
  "get_entry T uni_code =
     (case pytable T (unat (drop_bit 8 uni_code AND 0xFF)) of
        None \<Rightarrow> None | Some page \<Rightarrow> Some (page (unat (uni_code AND 0xFF))))"

text \<open>The position in \<open>polyphone_data\<close> of the further readings of a character.\<close>

function polyphone_loop :: "(u16 \<times> u16) list \<Rightarrow> u32 \<Rightarrow> nat \<Rightarrow> nat \<Rightarrow> nat option" where
  "polyphone_loop tab uni_code b t =
     (if b < t
      then let mid = (b + t) div 2; cur = tab ! mid
           in if uni_code > ucast (fst cur) then polyphone_loop tab uni_code (mid + 1) t
              else if uni_code < ucast (fst cur) then polyphone_loop tab uni_code b mid
              else Some (unat (snd cur))
      else None)"
  by pat_completeness auto
termination by (relation "measure (\<lambda>(tab, uni_code, b, t). t - b)") auto

declare polyphone_loop.simps [simp del]

definition get_polyphone :: "pinyin_tables \<Rightarrow> u32 \<Rightarrow> nat option" where
  "get_polyphone T uni_code = polyphone_loop (polyphone T) uni_code 0 (length (polyphone T))"

definition entry_key :: "PinyinEntry \<Rightarrow> u32" where
  "entry_key e = push_bit 16 (ucast (e_syllable e)) OR push_bit 8 (ucast (e_rhyme e)) OR ucast (e_tone e)"

function pyindex_loop :: "PinyinIndex list \<Rightarrow> u32 \<Rightarrow> nat \<Rightarrow> nat \<Rightarrow> PinyinIndex option" where
  "pyindex_loop tab key b t =
     (if b < t
      then let mid = (b + t - 1) div 2; cur = tab ! mid; curkey = entry_key (i_entry cur)
           in if key > curkey then pyindex_loop tab key (mid + 1) t
              else if key < curkey then pyindex_loop tab key b mid
              else Some cur
      else None)"
  by pat_completeness auto
termination by (relation "measure (\<lambda>(tab, key, b, t). t - b)") auto

declare pyindex_loop.simps [simp del]

definition get_pyindex :: "pinyin_tables \<Rightarrow> PinyinEntry \<Rightarrow> PinyinIndex option" where
  "get_pyindex T entry = pyindex_loop (pyindex T) (entry_key entry) 0 (length (pyindex T))"

section \<open>Parsing a reading\<close>

definition c0 :: "u8 list \<Rightarrow> u8" where
  "c0 s = (case s of [] \<Rightarrow> 0 | c # _ \<Rightarrow> c)"

text \<open>The comparison (0: the text starts with the prefix) and where it ended.\<close>

fun starts_with :: "u8 list \<Rightarrow> u8 list \<Rightarrow> int \<times> u8 list" where
  "starts_with s [] = (0, s)"
| "starts_with s (p # prefix) =
     (if c0 s = p \<and> s \<noteq> [] then starts_with (tl s) prefix else (sint (c0 s) - sint p, s))"

definition skip_whitespace :: "u8 list \<Rightarrow> u8 list" where
  "skip_whitespace = dropWhile (\<lambda>c. c \<in> {9, 10, 13, 32, 39})"

text \<open>The letters of the \<open>switch\<close>, with the number of the syllable and whether an \<open>h\<close> may follow.\<close>

definition syllable_cases :: "(u8 \<times> u8 \<times> bool) list" where
  "syllable_cases = zip (bytes ''bcdfghjklmnpqrstwxyz'')
     (zip [1, 2, 4, 5, 6, 7, 8, 9, 10, 11, 12, 13, 14, 15, 16, 18, 19, 20, 21, 22]
          (map (\<lambda>c. c \<in> set (bytes ''csz'')) (bytes ''bcdfghjklmnpqrstwxyz'')))"

definition pinyin_syllable :: "u8 list \<Rightarrow> PinyinEntry \<Rightarrow> PinyinEntry \<times> u8 list" where
  "pinyin_syllable pinyin e =
     (case map_of syllable_cases (c0 pinyin) of
        None \<Rightarrow> (e\<lparr>e_syllable := 0\<rparr>, pinyin)
      | Some (n, may_h) \<Rightarrow>
          let pinyin = tl pinyin
          in if may_h \<and> c0 pinyin = of_char (CHR ''h'')
             then (e\<lparr>e_syllable := n + 1\<rparr>, tl pinyin) else (e\<lparr>e_syllable := n\<rparr>, pinyin))"

text \<open>The search for a rhyme: where it stopped, the last comparison and its end.\<close>

function rhyme_loop :: "u8 list \<Rightarrow> nat \<Rightarrow> nat \<Rightarrow> (nat \<times> int \<times> u8 list) res" where
  "rhyme_loop pinyin b t =
     (if b < t
      then let mid = (b + t - 1) div 2; (res, ends) = starts_with pinyin (py_rhymes ! mid)
           in if b = mid then Inr (mid, res, ends)
              else if res \<ge> 0 then rhyme_loop pinyin mid t
              else rhyme_loop pinyin b mid
      else Inl Uninit_read)"
  by pat_completeness auto
termination by (relation "measure (\<lambda>(pinyin, b, t). t - b)") auto

declare rhyme_loop.simps [simp del]

definition pinyin_rhyme :: "u8 list \<Rightarrow> PinyinEntry \<Rightarrow> (PinyinEntry \<times> u8 list) res" where
  "pinyin_rhyme pinyin e =
     res_bind (rhyme_loop pinyin 0 RHYME_COUNT) (\<lambda>(mid, res, ends).
       Inr (if res = 0 then (e\<lparr>e_rhyme := of_nat mid\<rparr>, ends) else (e, pinyin)))"

definition pinyin_tone :: "u8 list \<Rightarrow> PinyinEntry \<Rightarrow> PinyinEntry \<times> u8 list" where
  "pinyin_tone pinyin e =
     (if c0 pinyin \<ge> 49 \<and> c0 pinyin \<le> 52 then (e\<lparr>e_tone := c0 pinyin - 48\<rparr>, tl pinyin) else (e, pinyin))"

definition no_syllable :: "u8 list \<Rightarrow> PinyinEntry \<Rightarrow> (PinyinEntry \<times> u8 list) res" where
  "no_syllable syl e = res_bind (pinyin_rhyme syl e) (\<lambda>(e, tone). Inr (pinyin_tone tone e))"

text \<open>Pointers are compared by the length of the rest of the text.\<close>

definition parse_pinyin :: "u8 list \<Rightarrow> PinyinEntry \<Rightarrow> (PinyinEntry \<times> u8 list) res" where
  "parse_pinyin pinyin e =
     (let syl = skip_whitespace pinyin;
          e = e\<lparr>e_syllable := 0, e_rhyme := 0, e_tone := 0\<rparr>
      in if c0 pinyin \<in> set (bytes ''aeo'') then no_syllable syl e
         else let (e, rhy) = pinyin_syllable syl e
         in if length rhy = length syl then Inr (e, pinyin)
            else res_bind (pinyin_rhyme rhy e) (\<lambda>(e, tone).
              if length tone = length rhy
              then if c0 syl \<in> set (bytes ''mnr'') then no_syllable syl e else Inr (e, pinyin)
              else Inr (pinyin_tone tone e)))"

section \<open>The Lua functions\<close>

text \<open>
  What a function leaves on the stack as its results; \<open>PTop\<close> is whatever was on top of
  the stack before, when the function pushes nothing but reports a result.
\<close>

datatype pyret = PStr "u8 list" | PInt int | PTop

definition c_int :: "int \<Rightarrow> int" where
  "c_int i = sint (word_of_int i :: u32)"

text \<open>The offsets of the first character and of the end; the function tells whether they differ.\<close>

definition u_posrange :: "u8 list \<Rightarrow> nat \<Rightarrow> nat \<Rightarrow> int \<Rightarrow> int \<Rightarrow> (nat \<times> nat) res" where
  "u_posrange m s e posi posj =
     res_bind (utf8_index m s e (c_int posi)) (\<lambda>ps.
     res_bind (if posj \<ge> 0 then next_n m e (nat posj) s else prev_n m s (nat (- posj - 1)) e) (\<lambda>pe.
       Inr (ps, pe)))"

definition posrelat_raw :: "int \<Rightarrow> nat \<Rightarrow> nat" where
  "posrelat_raw idx len =
     (let idx = (if idx > 0 then idx - 1 else if idx < 0 then idx + int len else idx)
      in if idx < 0 then 0 else if idx \<ge> int len then len else nat idx)"

lemma py_decode_pos: "py_utf8_decode m s e = Inr (n, ch) \<Longrightarrow> s < e \<Longrightarrow> 0 < n"
  by (auto simp: py_utf8_decode_def Let_def res_bind_Inr split: if_splits)

function pinyin_loop :: "pinyin_tables \<Rightarrow> u8 list \<Rightarrow> u32 \<Rightarrow> nat \<Rightarrow> nat \<Rightarrow> u8 list \<Rightarrow> u8 list res" where
  "pinyin_loop T m baseflags e s b =
     (if s < e
      then res_bind (py_utf8_decode m s e) (\<lambda>(n, ch).
           let s = s + n;
               flags = (if s < e then baseflags OR WITH_POSTFIX else baseflags)
           in res_bind (case get_entry T ch of
                          Some entry \<Rightarrow> add_pinyin b entry flags
                        | None \<Rightarrow> Inr (b @ py_utf8_encode ch)) (\<lambda>b.
              pinyin_loop T m baseflags e s b))
      else Inr b)"
  by pat_completeness auto
termination
  by (relation "measure (\<lambda>(T, m, fl, e, s, b). e - s)") (auto dest: py_decode_pos)

declare pinyin_loop.simps [simp del]

definition Lpinyin :: "pinyin_tables \<Rightarrow> u8 list \<Rightarrow> u8 list option \<Rightarrow> int \<Rightarrow> int \<Rightarrow> pyret list res" where
  "Lpinyin T m opt posi posj =
     res_bind (u_posrange m 0 (length m) posi posj) (\<lambda>(s, e).
       if \<not> s < e then Inr []
       else let letter = (case opt of None \<Rightarrow> 0 | Some o1 \<Rightarrow> c0 o1);
                baseflags = (if letter = of_char (CHR ''u'') then WITH_UTF8 else 0)
                            OR (if letter = of_char (CHR ''t'') then WITH_TONE else 0)
            in res_bind (pinyin_loop T m baseflags e s []) (\<lambda>b. Inr [PStr b]))"

definition get_codepoint :: "u8 list \<Rightarrow> int \<Rightarrow> int \<Rightarrow> u32 res" where
  "get_codepoint m posi posj =
     res_bind (u_posrange m 0 (length m) posi posj) (\<lambda>(s, e).
       if s < e then res_bind (py_utf8_decode m s e) (\<lambda>(n, ch). Inr (if n = 0 then 0 else ch)) else Inr 0)"

definition get_info :: "PinyinEntry \<Rightarrow> u8 list option \<Rightarrow> pyret list res" where
  "get_info entry opt =
     (case opt of
        None \<Rightarrow> res_bind (add_pinyin [] entry 0) (\<lambda>b. Inr [PStr b])
      | Some o1 \<Rightarrow>
          if c0 o1 = of_char (CHR ''s'')
          then res_bind (mem_get py_syllables (unat (e_syllable entry))) (\<lambda>b. Inr [PStr b])
          else if c0 o1 = of_char (CHR ''r'')
          then res_bind (mem_get py_rhymes (unat (e_rhyme entry))) (\<lambda>b. Inr [PStr b])
          else if c0 o1 = of_char (CHR ''t'') then Inr [PInt (uint (e_tone entry))]
          else if c0 o1 = of_char (CHR ''p'') then Inr [PInt (uint (polyphone_count entry))]
          else if c0 o1 = of_char (CHR ''u'')
          then res_bind (rd o1 1) (\<lambda>c.
               res_bind (if c \<noteq> of_char (CHR ''r'') \<and> c \<noteq> of_char (CHR ''t'')
                         then add_pinyin [] entry WITH_UTF8
                         else if c = of_char (CHR ''r'') \<or> o1 = bytes ''utf8rhyme''
                         then res_bind (mem_get py_rhymes (unat (e_rhyme entry))) (\<lambda>rhyme.
                                add_utf8_rhyme [] rhyme (unat (e_tone entry)))
                         else Inr []) (\<lambda>_. Inr [PTop]))
          else Inl (Lua_error ''invalid option''))"

definition Linfo :: "pinyin_tables \<Rightarrow> u8 list \<Rightarrow> u8 list option \<Rightarrow> int \<Rightarrow> int \<Rightarrow> pyret list res" where
  "Linfo T m opt posi posj =
     res_bind (get_codepoint m posi posj) (\<lambda>ch.
       case get_entry T ch of None \<Rightarrow> Inr [] | Some entry \<Rightarrow> get_info entry opt)"

text \<open>With the string alone the number of readings; \<open>rest\<close> are the further arguments.\<close>

definition Lpolyphone ::
    "pinyin_tables \<Rightarrow> u8 list \<Rightarrow> (int \<times> u8 list option \<times> int \<times> int) option \<Rightarrow> pyret list res" where
  "Lpolyphone T m rest =
     (case rest of
        None \<Rightarrow>
          res_bind (get_codepoint m 1 1) (\<lambda>ch.
            case get_entry T ch of None \<Rightarrow> Inr []
            | Some entry \<Rightarrow> Inr [PInt (uint (polyphone_count entry))])
      | Some (i, opt, posi, posj) \<Rightarrow>
          res_bind (get_codepoint m posi posj) (\<lambda>ch.
            let idx = word_of_int i :: u32
            in if idx = 0 then Inr []
               else (case get_entry T ch of None \<Rightarrow> Inl Null_deref
                     | Some entry \<Rightarrow>
                         if idx > ucast (polyphone_count entry) then Inr []
                         else if idx = 1 then get_info entry opt
                         else if opt \<noteq> None \<and> c0 (the opt) = of_char (CHR ''p'')
                         then Inl (Lua_error ''invalid option'')
                         else (case get_polyphone T ch of None \<Rightarrow> Inr []
                               | Some k \<Rightarrow> res_bind (mem_get (polyphone_data T) (k + unat idx - 2)) (\<lambda>entry.
                                   get_info entry opt)))))"

definition index_chars :: "pinyin_tables \<Rightarrow> nat \<Rightarrow> nat list \<Rightarrow> u8 list res" where
  "index_chars T base is =
     foldl (\<lambda>r k. res_bind r (\<lambda>b. res_bind (mem_get (pyindex_data T) (base + k)) (\<lambda>c.
              Inr (b @ py_utf8_encode (ucast c))))) (Inr []) is"

definition Lindex :: "pinyin_tables \<Rightarrow> u8 list \<Rightarrow> int \<Rightarrow> int \<Rightarrow> pyret list res" where
  "Lindex T m posi posj =
     (let s = takeWhile (\<lambda>c. c \<noteq> 0) m
      in res_bind (parse_pinyin s \<lparr>e_syllable = 0, e_rhyme = 0, e_tone = 0, polyphone_count = 0\<rparr>) (\<lambda>(entry, stop).
         if length stop = length s then Inr []
         else (case get_pyindex T entry of
                 None \<Rightarrow> Inr []
               | Some pyidx \<Rightarrow>
                   let start = posrelat_raw posi (unat (i_count pyidx));
                       end1 = posrelat_raw posj (unat (i_count pyidx))
                   in if start > end1 then Inr []
                      else res_bind (index_chars T (unat (i_idx pyidx)) [start..<end1 + 1]) (\<lambda>b.
                           Inr (if stop \<noteq> [] then [PStr b, PStr stop] else [PStr b])))))"

section \<open>The searches\<close>

lemma sorted_keys_mono:
  fixes key :: "'a \<Rightarrow> 'b::order"
  assumes "sorted_wrt (\<lambda>a b. key a < key b) tab" "i < length tab" "j < length tab"
  shows "i < j \<Longrightarrow> key (tab ! i) < key (tab ! j)" "i \<le> j \<Longrightarrow> key (tab ! i) \<le> key (tab ! j)"
  using assms sorted_wrt_nth_less [OF assms(1)] by (auto simp: order.order_iff_strict)

lemma find_hit:
  fixes key :: "'a \<Rightarrow> 'b::order"
  assumes "sorted_wrt (\<lambda>a b. key a < key b) tab" "i < length tab"
  shows "find (\<lambda>a. key a = key (tab ! i)) tab = Some (tab ! i)"
proof -
  have "key (tab ! j) \<noteq> key (tab ! i)" if "j < i" for j
    using sorted_keys_mono(1) [OF assms(1) _ assms(2) that] that assms(2) by auto
  then show ?thesis using assms(2) by (auto simp: find_Some_iff)
qed

text \<open>What a search that halves the range keeps: nothing outside it can be the key.\<close>

definition outside :: "('a \<Rightarrow> 'b::linorder) \<Rightarrow> 'a list \<Rightarrow> 'b \<Rightarrow> nat \<Rightarrow> nat \<Rightarrow> bool" where
  "outside key tab x b t \<longleftrightarrow> t \<le> length tab \<and>
     (\<forall>i<length tab. (i < b \<longrightarrow> key (tab ! i) < x) \<and> (t \<le> i \<longrightarrow> x < key (tab ! i)))"

lemma outside_empty: "outside key tab x b t \<Longrightarrow> \<not> b < t \<Longrightarrow> find (\<lambda>a. key a = x) tab = None"
proof -
  assume *: "outside key tab x b t" "\<not> b < t"
  have "key (tab ! i) \<noteq> x" if "i < length tab" for i
    using * that by (cases "i < b") (auto simp: outside_def)
  then show ?thesis by (auto simp: find_None_iff in_set_conv_nth)
qed

lemma outside_right:
  assumes "sorted_wrt (\<lambda>a b. key a < key b) tab" "outside key tab x b t" "mid < t" "key (tab ! mid) < x"
  shows "outside key tab x (mid + 1) t"
proof -
  have "key (tab ! i) < x" if "i < length tab" "i \<le> mid" for i
    using sorted_keys_mono(2) [OF assms(1) that(1) _ that(2)] assms(2-4) by (auto simp: outside_def)
  then show ?thesis using assms(2) by (auto simp: outside_def)
qed

lemma outside_left:
  assumes "sorted_wrt (\<lambda>a b. key a < key b) tab" "outside key tab x b t" "mid < t" "x < key (tab ! mid)"
  shows "outside key tab x b mid"
proof -
  have m: "mid < length tab" using assms(2,3) by (simp add: outside_def)
  have "x < key (tab ! i)" if "i < length tab" "mid \<le> i" for i
    using sorted_keys_mono(2) [OF assms(1) m that] assms(4) by simp
  then show ?thesis using assms(2) m by (auto simp: outside_def)
qed

lemma outside_hit:
  assumes "sorted_wrt (\<lambda>a b. key a < key b) tab" "outside key tab x b t" "mid < t" "key (tab ! mid) = x"
  shows "find (\<lambda>a. key a = x) tab = Some (tab ! mid)"
  using find_hit [OF assms(1), of mid] assms(2-4) by (auto simp: outside_def)

abbreviation poly_key :: "u16 \<times> u16 \<Rightarrow> u32" where
  "poly_key c \<equiv> ucast (fst c)"

lemma polyphone_loop_find:
  assumes sorted: "sorted_wrt (\<lambda>a b. poly_key a < poly_key b) tab" and "outside poly_key tab x b t"
  shows "polyphone_loop tab x b t = map_option (\<lambda>c. unat (snd c)) (find (\<lambda>c. poly_key c = x) tab)"
  using assms(2)
proof (induction "t - b" arbitrary: b t rule: less_induct)
  case less
  show ?case
  proof (cases "b < t")
    case True
    define mid where "mid = (b + t) div 2"
    have mid: "b \<le> mid" "mid < t" using True by (auto simp: mid_def)
    have step: "polyphone_loop tab x b t =
      (if poly_key (tab ! mid) < x then polyphone_loop tab x (mid + 1) t
       else if x < poly_key (tab ! mid) then polyphone_loop tab x b mid else Some (unat (snd (tab ! mid))))"
      using True by (subst polyphone_loop.simps) (simp add: mid_def Let_def)
    show ?thesis
      using mid step less.hyps [OF _ outside_right [OF sorted less.prems mid(2)]]
        less.hyps [OF _ outside_left [OF sorted less.prems mid(2)]] outside_hit [OF sorted less.prems mid(2)]
      by (cases "poly_key (tab ! mid)" x rule: linorder_cases) auto
  next
    case False
    then show ?thesis using outside_empty [OF less.prems] by (subst polyphone_loop.simps) simp
  qed
qed

lemma pyindex_loop_find:
  assumes sorted: "sorted_wrt (\<lambda>a b. entry_key (i_entry a) < entry_key (i_entry b)) tab"
    and "outside (\<lambda>a. entry_key (i_entry a)) tab x b t"
  shows "pyindex_loop tab x b t = find (\<lambda>c. entry_key (i_entry c) = x) tab"
  using assms(2)
proof (induction "t - b" arbitrary: b t rule: less_induct)
  case less
  let ?key = "\<lambda>i. entry_key (i_entry (tab ! i))"
  show ?case
  proof (cases "b < t")
    case True
    define mid where "mid = (b + t - 1) div 2"
    have mid: "b \<le> mid" "mid < t" using True by (auto simp: mid_def)
    have step: "pyindex_loop tab x b t =
      (if ?key mid < x then pyindex_loop tab x (mid + 1) t
       else if x < ?key mid then pyindex_loop tab x b mid else Some (tab ! mid))"
      using True by (subst pyindex_loop.simps) (simp add: mid_def Let_def)
    show ?thesis
      using mid step less.hyps [OF _ outside_right [OF sorted less.prems mid(2)]]
        less.hyps [OF _ outside_left [OF sorted less.prems mid(2)]] outside_hit [OF sorted less.prems mid(2)]
      by (cases "?key mid" x rule: linorder_cases) auto
  next
    case False
    then show ?thesis using outside_empty [OF less.prems] by (subst pyindex_loop.simps) simp
  qed
qed

lemma outside_all: "outside key tab x 0 (length tab)"
  by (simp add: outside_def)

text \<open>
  C37. In tables that are sorted, as those of the header are, the binary searches find the
  same entry as a search from the front: the readings of a character, and the characters
  of a reading, or none when there is no entry for it.
\<close>

theorem pinyin_searches_correct:
  assumes "sorted_wrt (\<lambda>a b. fst a < fst b) (polyphone T)"
    and "sorted_wrt (\<lambda>a b. entry_key (i_entry a) < entry_key (i_entry b)) (pyindex T)"
  shows "get_polyphone T u = map_option (\<lambda>c. unat (snd c)) (find (\<lambda>c. ucast (fst c) = u) (polyphone T))
     \<and> get_pyindex T e = find (\<lambda>x. entry_key (i_entry x) = entry_key e) (pyindex T)"
proof -
  have u: "unat (ucast a :: u32) = unat a" for a :: u16
  proof -
    have "unat a < 2 ^ LENGTH(16)" by (rule unsigned_less)
    then have "unat a < 2 ^ 32" by simp
    then show ?thesis by (simp only: unsigned_ucast_eq) (simp add: take_bit_nat_eq_self)
  qed
  have "(ucast a :: u32) < ucast b \<longleftrightarrow> a < b" for a b :: u16
    by (simp only: word_less_nat_alt u)
  then have "sorted_wrt (\<lambda>a b. poly_key a < poly_key b) (polyphone T)" using assms(1) by simp
  then have "get_polyphone T u = map_option (\<lambda>c. unat (snd c)) (find (\<lambda>c. ucast (fst c) = u) (polyphone T))"
    by (simp add: get_polyphone_def polyphone_loop_find outside_all)
  moreover have "get_pyindex T e = find (\<lambda>x. entry_key (i_entry x) = entry_key e) (pyindex T)"
    using assms(2) by (simp add: get_pyindex_def pyindex_loop_find outside_all)
  ultimately show ?thesis by blast
qed

section \<open>Rhymes\<close>

lemma starts_with_0: "starts_with s r = (0, ends) \<Longrightarrow> 0 \<notin> set r \<Longrightarrow> s = r @ ends"
proof (induction s r rule: starts_with.induct)
  case (2 s p prefix)
  show ?case
  proof (cases "c0 s = p \<and> s \<noteq> []")
    case True
    then show ?thesis using 2 by (cases s) (auto simp: c0_def)
  next
    case False
    then have "sint (c0 s) = sint p" using "2.prems"(1) by auto
    then have "c0 s = p" by (rule signed_word_eqI)
    then show ?thesis using False "2.prems"(2) by (auto simp: c0_def)
  qed
qed simp

lemma rhyme_loop_ok:
  assumes "b < t"
  shows "\<exists>k res ends. rhyme_loop s b t = Inr (k, res, ends) \<and> b \<le> k \<and> k < t \<and> starts_with s (py_rhymes ! k) = (res, ends)"
  using assms
proof (induction "t - b" arbitrary: b t rule: less_induct)
  case less
  define mid where "mid = (b + t - 1) div 2"
  have mid: "b \<le> mid" "mid < t" using less.prems by (auto simp: mid_def)
  obtain res ends where sw: "starts_with s (py_rhymes ! mid) = (res, ends)" by fastforce
  have step: "rhyme_loop s b t = (if b = mid then Inr (mid, res, ends) else if res \<ge> 0 then rhyme_loop s mid t else rhyme_loop s b mid)"
    using less.prems sw by (subst rhyme_loop.simps) (simp add: mid_def Let_def)
  consider "b = mid" | "b < mid" "res \<ge> 0" | "b < mid" "res < 0" using mid(1) by linarith
  then show ?case
  proof cases
    case 1
    then show ?thesis using step sw mid by auto
  next
    case 2
    then have "t - mid < t - b" using mid by arith
    then obtain k res' ends' where "rhyme_loop s mid t = Inr (k, res', ends')" "mid \<le> k" "k < t"
      "starts_with s (py_rhymes ! k) = (res', ends')" using less.hyps [of t mid] mid by auto
    then show ?thesis using step 2 by auto
  next
    case 3
    then have "mid - b < t - b" using mid by arith
    then obtain k res' ends' where "rhyme_loop s b mid = Inr (k, res', ends')" "b \<le> k" "k < mid"
      "starts_with s (py_rhymes ! k) = (res', ends')" using less.hyps [of mid b] 3(1) by auto
    then show ?thesis using step 3 mid by auto
  qed
qed

lemma py_rhymes_facts: "length py_rhymes = 39" "\<forall>r\<in>set py_rhymes. 0 \<notin> set r \<and> r \<noteq> []"
  by code_simp+

lemma pinyin_rhyme_sound:
  "\<exists>e' rest. pinyin_rhyme s e = Inr (e', rest) \<and>
     (e' = e \<and> rest = s \<or> (\<exists>k<39. s = py_rhymes ! k @ rest \<and> e' = e\<lparr>e_rhyme := of_nat k\<rparr>))"
proof -
  obtain k res ends where r: "rhyme_loop s 0 RHYME_COUNT = Inr (k, res, ends)" "k < RHYME_COUNT"
    "starts_with s (py_rhymes ! k) = (res, ends)"
    using rhyme_loop_ok [of 0 RHYME_COUNT s] by (auto simp: RHYME_COUNT_def)
  have "0 \<notin> set (py_rhymes ! k)" using r(2) py_rhymes_facts by (simp add: RHYME_COUNT_def)
  then have "res = 0 \<Longrightarrow> s = py_rhymes ! k @ ends" using starts_with_0 r(3) by auto
  then show ?thesis using r(1,2) by (auto simp: pinyin_rhyme_def RHYME_COUNT_def)
qed

lemma py_rhymes_list: "py_rhymes = [[97],[97,105],[97,110],[97,110,103],[97,111],[97,117],[101],[101,105],[101,110],[101,110,103],[101,114],[105],
 [105,97],[105,97,110],[105,97,110,103],[105,97,111],[105,101],[105,110],[105,110,103],[105,111,110,103],[105,117],[109],[110],[110,103],[111],[111,110,103],[111,117],
 [114],[117],[117,97],[117,97,105],[117,97,110],[117,97,110,103],[117,101],[117,105],[117,110],[117,111],[118],[118,101]]"
  by (simp add: py_rhymes_def bytes_def of_char_def)


section \<open>Texts\<close>

lemma high_byte_bits:
  assumes "0xF0 \<le> (w :: u8)" shows "bit w 4" "bit w 5" "bit w 7"
proof -
  have "240 \<le> unat w" using assms by (simp add: word_le_nat_alt)
  moreover have "unat w < 2 ^ LENGTH(8)" by (rule unsigned_less)
  ultimately have "unat w div 2 ^ 4 = 15" "unat w div 2 ^ 5 = 7" "unat w div 2 ^ 7 = 1" by simp_all
  then have "bit (unat w) 4" "bit (unat w) 5" "bit (unat w) 7" by (simp_all add: bit_iff_odd)
  then show "bit w 4" "bit w 5" "bit w 7" by (simp_all add: bit_unsigned_iff)
qed

lemma encode_first_byte:
  assumes "c \<le> 0xFFFF" shows "hd (utf8_encode c) < 0xF0"
proof (rule ccontr)
  assume "\<not> hd (utf8_encode c) < 0xF0"
  then have b: "bit (hd (utf8_encode c)) 4" "bit (hd (utf8_encode c)) 5" "bit (hd (utf8_encode c)) 7"
    using high_byte_bits [of "hd (utf8_encode c)"] by (simp_all add: not_less)
  have lt: "unat c < 2 ^ 16" using assms by (simp add: word_le_nat_alt)
  consider "c < 0x80" | "\<not> c < 0x80" "c \<le> 0x7FF" | "\<not> c \<le> 0x7FF" "\<not> c < 0x80" by force
  then show False
  proof cases
    case 1
    then have lt7: "unat c < 2 ^ 7" by (simp add: word_less_nat_alt)
    show ?thesis using 1 b(3) by (simp add: utf8_encode_def bit_simps high_bits_zero [OF lt7])
  next
    case 2
    then have lt11: "unat c < 2 ^ 11" by (simp add: word_le_nat_alt)
    show ?thesis using 2 b(2) by (simp add: utf8_encode_def bit_simps high_bits_zero [OF lt11])
  next
    case 3
    then show ?thesis using b(1) assms by (simp add: utf8_encode_def enc3_def bit_simps high_bits_zero [OF lt])
  qed
qed

text \<open>Below \<open>F0\<close> and up to the end of the string, the reader is that of \<open>ldbcs.h\<close>.\<close>

lemma py_decode_eq:
  assumes "s < length m" "m ! s < 0xF0"
  shows "py_utf8_decode m s (length m) = utf8_decode (drop s m)"
proof -
  obtain b0 r where d: "drop s m = b0 # r" "b0 = m ! s" using assms(1) by (simp add: Cons_nth_drop_Suc [symmetric])
  have len: "length m = s + Suc (length r)" using arg_cong [OF d(1), of length] assms(1) by simp
  have nth: "m ! (s + k) = (b0 # r) ! k" if "k < Suc (length r)" for k
    using that d(1) assms(1) len by (metis nth_drop less_imp_le)
  have rd: "rd m (s + k) = rd (b0 # r) k" if "k < Suc (length r)" for k
    using that nth [OF that] len by (simp add: rd_def)
  have "(ucast b0 :: u32) < 0xF0" using assms(2) d(2) le_less_trans [OF take_bit_nat_less_eq_self [of 32 "unat b0"]]
    by (simp add: word_less_nat_alt unsigned_ucast_eq)
  then show ?thesis
    using rd [of 0] rd [of 1] rd [of 2]
    by (auto simp: py_utf8_decode_def utf8_decode_def d(1) len Let_def rd_def)
qed

lemma py_decode_encode:
  assumes "m = pre @ utf8_encode c @ rest" "c \<le> 0xFFFF"
  shows "py_utf8_decode m (length pre) (length m) = Inr (length (utf8_encode c), c)"
proof -
  obtain b bs where e: "utf8_encode c = b # bs" using utf8_encode_nonempty [of c] by (cases "utf8_encode c") auto
  have "b < 0xF0" using encode_first_byte [OF assms(2)] by (simp add: e)
  then have "m ! length pre < 0xF0" "length pre < length m" by (simp_all add: assms(1) e nth_append)
  moreover have "c \<le> 0x7FFFFFFF" by (rule order_trans [OF assms(2)]) simp
  ultimately show ?thesis
    using utf8_decode_encode [of c rest] py_decode_eq [of "length pre" m] by (simp add: assms(1))
qed

definition entry_ok :: "PinyinEntry \<Rightarrow> bool" where
  "entry_ok e \<longleftrightarrow> unat (e_syllable e) < 24 \<and> unat (e_rhyme e) < 39"

text \<open>The text that stands for a text: readings with a blank after each but the last.\<close>

fun spell :: "pinyin_tables \<Rightarrow> u32 list \<Rightarrow> u8 list" where
  "spell T [] = []"
| "spell T (c # cs) =
     (case get_entry T c of
        None \<Rightarrow> utf8_encode c
      | Some e \<Rightarrow> py_syllables ! unat (e_syllable e) @ py_rhymes ! unat (e_rhyme e)
                  @ (if cs = [] then [] else bytes '' '')) @ spell T cs"

lemma py_syllables_length: "length py_syllables = 24"
  by (simp add: py_syllables_def)

lemma add_pinyin_plain:
  assumes "entry_ok e"
  shows "add_pinyin b e (if final then 0 else 0 OR WITH_POSTFIX) =
           Inr (b @ py_syllables ! unat (e_syllable e) @ py_rhymes ! unat (e_rhyme e) @ (if final then [] else bytes '' ''))"
  using assms
  by (simp add: add_pinyin_def entry_ok_def mem_get_def py_syllables_length py_rhymes_facts Let_def
      WITH_PREFIX_def WITH_UTF8_def WITH_TONE_def WITH_POSTFIX_def)

lemma pinyin_loop_spell:
  assumes "m = pre @ concat (map utf8_encode cs)" "\<forall>c\<in>set cs. c \<le> 0xFFFF"
    and "\<forall>c\<in>set cs. \<forall>e. get_entry T c = Some e \<longrightarrow> entry_ok e"
  shows "pinyin_loop T m 0 (length m) (length pre) b = Inr (b @ spell T cs)"
  using assms
proof (induction cs arbitrary: pre b)
  case Nil
  then show ?case by (subst pinyin_loop.simps) simp
next
  case (Cons c cs)
  let ?pre = "pre @ utf8_encode c"
  have ne: "utf8_encode d \<noteq> []" for d by (rule utf8_encode_nonempty)
  have s: "length pre < length m" using Cons.prems(1) ne [of c] by simp
  have dec: "py_utf8_decode m (length pre) (length m) = Inr (length (utf8_encode c), c)"
    using py_decode_encode [of m pre c "concat (map utf8_encode cs)"] Cons.prems by simp
  have last: "length ?pre < length m \<longleftrightarrow> cs \<noteq> []"
    using Cons.prems(1) ne by (cases cs) auto
  have IH: "pinyin_loop T m 0 (length m) (length ?pre) b' = Inr (b' @ spell T cs)" for b'
    using Cons.prems by (intro Cons.IH) auto
  show ?case
  proof (cases "get_entry T c")
    case None
    then show ?thesis using s dec last IH
      by (subst pinyin_loop.simps) (simp add: py_utf8_encode_def)
  next
    case (Some e)
    have "entry_ok e" using Cons.prems(3) Some by simp
    then show ?thesis using s dec last IH Some add_pinyin_plain [of e b "cs = []"]
      by (subst pinyin_loop.simps) (auto simp: Let_def)
  qed
qed

lemma whole_range: "u_posrange m 0 (length m) 1 (-1) = Inr (0, length m)"
  by (simp add: u_posrange_def utf8_index_def c_int_def)


text \<open>A character from \<open>10000\<close> on makes the reader use an uninitialised variable.\<close>

lemma pinyin_faults_on_long:
  assumes "0x10000 \<le> c" "c \<le> 0x1FFFFF"
  shows "Lpinyin T (utf8_encode c) opt 1 (-1) = Inl Uninit_read"
proof -
  let ?b = "ucast (drop_bit 18 c OR 0xF0) :: u8"
  have "bit ?b 7" "bit ?b 6" "bit ?b 5" "bit ?b 4" by (simp_all add: bit_simps)
  then have b: "\<not> (ucast ?b :: u32) < 0xC0" "\<not> (ucast ?b :: u32) < 0xE0" "\<not> (ucast ?b :: u32) < 0xF0"
    using first_byte [of ?b] by simp_all
  have "\<not> c < 0x80" "\<not> c \<le> 0x7FF" "\<not> c \<le> 0xFFFF" using assms(1) by (auto simp: word_le_nat_alt word_less_nat_alt)
  then have e: "utf8_encode c = [?b, cont (drop_bit 12 c), cont (drop_bit 6 c), cont c]"
    using assms(2) by (simp add: utf8_encode_def)
  have "py_utf8_decode (utf8_encode c) 0 (length (utf8_encode c)) = Inl Uninit_read"
    using b by (simp add: e py_utf8_decode_def rd_def Let_def)
  then have "pinyin_loop T (utf8_encode c) fl (length (utf8_encode c)) 0 [] = Inl Uninit_read" for fl
    by (subst pinyin_loop.simps) (simp add: e)
  then show ?thesis by (simp add: Lpinyin_def whole_range Let_def) (simp add: e)
qed

lemma polyphone_null:
  assumes "get_codepoint m i j = Inr ch" "get_entry T ch = None" "(word_of_int k :: u32) \<noteq> 0"
  shows "Lpolyphone T m (Some (k, opt, i, j)) = Inl Null_deref"
  using assms by (simp add: Lpolyphone_def Let_def)


theorem pinyin_searches_correct_witness:
  "get_polyphone \<lparr>pytable = (\<lambda>_. None), polyphone = [(3, 0), (5, 1)], polyphone_data = [], pyindex = [], pyindex_data = []\<rparr> 5 = Some 1
   \<and> get_pyindex \<lparr>pytable = (\<lambda>_. None), polyphone = [(3, 0), (5, 1)], polyphone_data = [], pyindex = [], pyindex_data = []\<rparr>
       \<lparr>e_syllable = 1, e_rhyme = 2, e_tone = 3, polyphone_count = 0\<rparr> = None"
  using pinyin_searches_correct [of "\<lparr>pytable = (\<lambda>_. None), polyphone = [(3, 0), (5, 1)], polyphone_data = [], pyindex = [], pyindex_data = []\<rparr>"
      5 "\<lparr>e_syllable = 1, e_rhyme = 2, e_tone = 3, polyphone_count = 0\<rparr>"] by simp

end
