(* ===== verification/Inet.thy ===== *)
theory Inet
  imports Prelude
begin

text \<open>
  The address conversions of libuv (\<open>libuv/src/inet.c\<close>): \<open>uv_inet_ntop\<close> prints an
  IPv4 or IPv6 address, \<open>uv_inet_pton\<close> reads one.  Addresses are lists of bytes, C
  strings the characters before the terminating 0.  A function gives the error code
  (\<open>Inl\<close>) or what it stores at \<open>dst\<close> (\<open>Inr\<close>); a write outside a local array or a
  read of bytes never written is a fault.  The theory shows that \<open>inet_pton4\<close>
  accepts exactly what \<open>inet_ntop4\<close> prints, that \<open>inet_pton6\<close> never leaves its
  16-byte buffer on any string.  Theory Inet6 shows that every address is read back
  from what is printed.
\<close>

section \<open>Library functions the code calls\<close>

definition xdigits_l :: string where
  "xdigits_l = ''0123456789abcdef''"

definition xdigits_u :: string where
  "xdigits_u = ''0123456789ABCDEF''"

definition digits :: string where
  "digits = ''0123456789''"

text \<open>\<open>strchr(s, c) - s\<close>, for a \<open>c\<close> that is not 0.\<close>

fun strchr :: "string \<Rightarrow> char \<Rightarrow> nat option" where
  "strchr [] c = None"
| "strchr (x # s) c = (if x = c then Some 0 else map_option Suc (strchr s c))"

text \<open>\<open>%u\<close> and \<open>%x\<close> of the printf family.\<close>

fun print_base :: "nat \<Rightarrow> nat \<Rightarrow> string" where
  "print_base b n =
     (if b < 2 \<or> n < b then [xdigits_l ! n]
      else print_base b (n div b) @ [xdigits_l ! (n mod b)])"

declare print_base.simps [simp del]

abbreviation dec :: "nat \<Rightarrow> string" where
  "dec \<equiv> print_base 10"

abbreviation hex :: "nat \<Rightarrow> string" where
  "hex \<equiv> print_base 16"

definition NUL :: char where
  "NUL = CHR 0x00"

text \<open>The C string at the start of a block of characters.\<close>

definition cstr :: "char list \<Rightarrow> string" where
  "cstr = takeWhile (\<lambda>c. c \<noteq> NUL)"

definition UV_ENOSPC :: int where
  "UV_ENOSPC = -28"

definition UV_EINVAL :: int where
  "UV_EINVAL = -22"

definition UV_EAFNOSUPPORT :: int where
  "UV_EAFNOSUPPORT = -97"

definition UV__INET_ADDRSTRLEN :: nat where
  "UV__INET_ADDRSTRLEN = 16"

definition UV__INET6_ADDRSTRLEN :: nat where
  "UV__INET6_ADDRSTRLEN = 46"

datatype family = AF_INET | AF_INET6 | AF_other

section \<open>IPv4\<close>

definition inet_fmt4 :: "u8 list \<Rightarrow> string" where
  "inet_fmt4 src = dec (unat (src ! 0)) @ ''.'' @ dec (unat (src ! 1)) @ ''.''
                   @ dec (unat (src ! 2)) @ ''.'' @ dec (unat (src ! 3))"

text \<open>\<open>snprintf\<close> gives the length it needs and stores what fits; \<open>strncpy\<close> fills the rest with 0.\<close>

definition inet_ntop4 :: "u8 list \<Rightarrow> nat \<Rightarrow> (int + char list) res" where
  "inet_ntop4 src sz =
     res_bind (mem_read src 0 4) (\<lambda>b.
       let s = inet_fmt4 b;
           l = length s;
           tmp = take (UV__INET_ADDRSTRLEN - 1) s
       in if l \<le> 0 \<or> sz \<le> l then Inr (Inl UV_ENOSPC)
          else let dst = take sz (tmp @ replicate (sz - length tmp) NUL)
               in res_bind (mem_set dst (sz - 1) NUL) (\<lambda>dst. Inr (Inr dst)))"

text \<open>
  The loop of \<open>inet_pton4\<close>.  \<open>tmp\<close> holds the bytes written so far, \<open>tp\<close> points to the
  last of them.
\<close>

fun inet_pton4_loop :: "string \<Rightarrow> u8 list \<Rightarrow> bool \<Rightarrow> nat \<Rightarrow> (int + u8 list) res" where
  "inet_pton4_loop [] tmp saw_digit octets =
     (if octets < 4 then Inr (Inl UV_EINVAL)
      else res_bind (mem_read tmp 0 4) (\<lambda>b. Inr (Inr b)))"
| "inet_pton4_loop (ch # src) tmp saw_digit octets =
     (case strchr digits ch of
        Some d \<Rightarrow>
          (let nw = unat (last tmp) * 10 + d in
           if saw_digit \<and> last tmp = 0 then Inr (Inl UV_EINVAL)
           else if nw > 255 then Inr (Inl UV_EINVAL)
           else let tmp = butlast tmp @ [of_nat nw] in
             if \<not> saw_digit
             then (if octets + 1 > 4 then Inr (Inl UV_EINVAL)
                   else inet_pton4_loop src tmp True (octets + 1))
             else inet_pton4_loop src tmp True octets)
      | None \<Rightarrow>
          if ch = CHR ''.'' \<and> saw_digit
          then (if octets = 4 then Inr (Inl UV_EINVAL)
                else if length tmp \<ge> 4 then Inl Out_of_bounds
                else inet_pton4_loop src (tmp @ [0]) False octets)
          else Inr (Inl UV_EINVAL))"

definition inet_pton4 :: "string \<Rightarrow> (int + u8 list) res" where
  "inet_pton4 src = inet_pton4_loop src [0] False 0"

section \<open>IPv6: printing\<close>

record zrun =
  zbase :: int
  zlen :: int

definition words6 :: "u8 list \<Rightarrow> u32 list" where
  "words6 src =
     foldl (\<lambda>words i. words[i div 2 := words ! (i div 2) OR
                              push_bit ((1 - i mod 2) * 8) (ucast (src ! i))])
       (replicate 8 0) [0..<16]"

definition better :: "zrun \<Rightarrow> zrun \<Rightarrow> zrun" where
  "better best cur = (if zbase best = -1 \<or> zlen cur > zlen best then cur else best)"

fun zscan :: "u32 list \<Rightarrow> nat list \<Rightarrow> zrun \<Rightarrow> zrun \<Rightarrow> zrun \<times> zrun" where
  "zscan words [] best cur = (best, cur)"
| "zscan words (i # is) best cur =
     (if words ! i = 0
      then zscan words is best
             (if zbase cur = -1 then cur\<lparr>zbase := int i, zlen := 1\<rparr> else cur\<lparr>zlen := zlen cur + 1\<rparr>)
      else if zbase cur \<noteq> -1 then zscan words is (better best cur) (cur\<lparr>zbase := -1\<rparr>)
      else zscan words is best cur)"

definition best_run :: "u32 list \<Rightarrow> zrun" where
  "best_run words =
     (let none = \<lparr>zbase = -1, zlen = 0\<rparr>;
          (best, cur) = zscan words [0..<8] none none;
          best = (if zbase cur \<noteq> -1 then better best cur else best)
      in if zbase best \<noteq> -1 \<and> zlen best < 2 then best\<lparr>zbase := -1\<rparr> else best)"

text \<open>Storing at \<open>tp\<close> in the local array; \<open>sprintf\<close> also stores the terminating 0.\<close>

definition put6 :: "string \<Rightarrow> string \<Rightarrow> string res" where
  "put6 tmp s = (if length tmp + length s \<le> UV__INET6_ADDRSTRLEN then Inr (tmp @ s) else Inl Out_of_bounds)"

definition sprintf6 :: "string \<Rightarrow> u32 \<Rightarrow> string res" where
  "sprintf6 tmp w =
     (if length tmp + length (hex (unat w)) + 1 \<le> UV__INET6_ADDRSTRLEN
      then Inr (tmp @ hex (unat w)) else Inl Out_of_bounds)"

definition in_run :: "zrun \<Rightarrow> nat \<Rightarrow> bool" where
  "in_run best i = (zbase best \<noteq> -1 \<and> int i \<ge> zbase best \<and> int i < zbase best + zlen best)"

definition encapsulated4 :: "u32 list \<Rightarrow> zrun \<Rightarrow> nat \<Rightarrow> bool" where
  "encapsulated4 words best i =
     (i = 6 \<and> zbase best = 0 \<and>
       (zlen best = 6 \<or> (zlen best = 7 \<and> words ! 7 \<noteq> 0x0001) \<or> (zlen best = 5 \<and> words ! 5 = 0xffff)))"

fun inet_ntop6_loop :: "u8 list \<Rightarrow> u32 list \<Rightarrow> zrun \<Rightarrow> nat list \<Rightarrow> string \<Rightarrow> (int + string) res" where
  "inet_ntop6_loop src words best [] tmp = Inr (Inr tmp)"
| "inet_ntop6_loop src words best (i # is) tmp =
     (if in_run best i
      then res_bind (if int i = zbase best then put6 tmp '':'' else Inr tmp)
             (inet_ntop6_loop src words best is)
      else res_bind (if i \<noteq> 0 then put6 tmp '':'' else Inr tmp) (\<lambda>tmp.
        if encapsulated4 words best i
        then res_bind (inet_ntop4 (drop 12 src) (UV__INET6_ADDRSTRLEN - length tmp)) (\<lambda>r.
               case r of Inl err \<Rightarrow> Inr (Inl err) | Inr s \<Rightarrow> Inr (Inr (tmp @ cstr s)))
        else res_bind (sprintf6 tmp (words ! i)) (inet_ntop6_loop src words best is)))"

text \<open>A run at the end is closed by a second colon.\<close>

definition trailing6 :: "zrun \<Rightarrow> string \<Rightarrow> string res" where
  "trailing6 best tmp = (if zbase best \<noteq> -1 \<and> zbase best + zlen best = 8 then put6 tmp '':'' else Inr tmp)"

definition inet_ntop6 :: "u8 list \<Rightarrow> nat \<Rightarrow> (int + char list) res" where
  "inet_ntop6 src sz =
     res_bind (mem_read src 0 16) (\<lambda>src.
       let words = words6 src;
           best = best_run words
       in res_bind (inet_ntop6_loop src words best [0..<8] []) (\<lambda>r.
            case r of Inl err \<Rightarrow> Inr (Inl err)
            | Inr tmp \<Rightarrow>
                res_bind (trailing6 best tmp) (\<lambda>tmp.
                res_bind (put6 tmp [NUL]) (\<lambda>tmp.
                  if length tmp > sz then Inr (Inl UV_ENOSPC) else Inr (Inr tmp)))))"

definition uv_inet_ntop :: "family \<Rightarrow> u8 list \<Rightarrow> nat \<Rightarrow> (int + char list) res" where
  "uv_inet_ntop af src sz =
     (case af of AF_INET \<Rightarrow> inet_ntop4 src sz
               | AF_INET6 \<Rightarrow> inet_ntop6 src sz
               | AF_other \<Rightarrow> Inr (Inl UV_EAFNOSUPPORT))"

section \<open>IPv6: reading\<close>

record pton6 =
  p_tmp :: "u8 list"
  p_tp :: nat
  p_colonp :: "nat option"
  p_curtok :: string
  p_seen :: nat
  p_val :: u32

definition xdigit :: "char \<Rightarrow> nat option" where
  "xdigit ch = (case strchr xdigits_l ch of Some d \<Rightarrow> Some d | None \<Rightarrow> strchr xdigits_u ch)"

text \<open>\<open>*tp++ = val >> 8; *tp++ = val\<close>.\<close>

definition flush6 :: "pton6 \<Rightarrow> pton6 res" where
  "flush6 p =
     res_bind (mem_write (p_tmp p) (p_tp p)
                 [ucast (drop_bit 8 (p_val p)) AND 0xff, ucast (p_val p) AND 0xff]) (\<lambda>tmp.
       Inr (p\<lparr>p_tmp := tmp, p_tp := p_tp p + 2\<rparr>))"

fun inet_pton6_loop :: "string \<Rightarrow> pton6 \<Rightarrow> (int + pton6) res" where
  "inet_pton6_loop [] p = Inr (Inr p)"
| "inet_pton6_loop (ch # src) p =
     (case xdigit ch of
        Some d \<Rightarrow>
          (let p = p\<lparr>p_val := push_bit 4 (p_val p) OR of_nat d, p_seen := p_seen p + 1\<rparr>
           in if p_seen p > 4 then Inr (Inl UV_EINVAL) else inet_pton6_loop src p)
      | None \<Rightarrow>
          if ch = CHR '':''
          then (let p = p\<lparr>p_curtok := src\<rparr> in
                if p_seen p = 0
                then (if p_colonp p \<noteq> None then Inr (Inl UV_EINVAL)
                      else inet_pton6_loop src (p\<lparr>p_colonp := Some (p_tp p)\<rparr>))
                else if src = [] then Inr (Inl UV_EINVAL)
                else if p_tp p + 2 > 16 then Inr (Inl UV_EINVAL)
                else res_bind (flush6 p) (\<lambda>p. inet_pton6_loop src (p\<lparr>p_seen := 0, p_val := 0\<rparr>)))
          else if ch = CHR ''.'' \<and> p_tp p + 4 \<le> 16
          then res_bind (inet_pton4 (p_curtok p)) (\<lambda>r.
                 case r of Inl err \<Rightarrow> Inr (Inl UV_EINVAL)
                 | Inr b \<Rightarrow> res_bind (mem_write (p_tmp p) (p_tp p) b) (\<lambda>tmp.
                     Inr (Inr (p\<lparr>p_tmp := tmp, p_tp := p_tp p + 4, p_seen := 0\<rparr>))))
          else Inr (Inl UV_EINVAL))"

text \<open>\<open>endp[-i] = colonp[n - i]; colonp[n - i] = 0\<close>, for \<open>i\<close> from 1 to \<open>n\<close>.\<close>

fun shift_loop :: "nat \<Rightarrow> nat \<Rightarrow> nat list \<Rightarrow> u8 list \<Rightarrow> u8 list res" where
  "shift_loop colonp n [] tmp = Inr tmp"
| "shift_loop colonp n (i # is) tmp =
     res_bind (mem_get tmp (colonp + n - i)) (\<lambda>x.
     res_bind (mem_set tmp (16 - i) x) (\<lambda>tmp.
     res_bind (mem_set tmp (colonp + n - i) 0) (shift_loop colonp n is)))"

definition pton6_shift :: "pton6 \<Rightarrow> (int + pton6) res" where
  "pton6_shift p =
     (case p_colonp p of None \<Rightarrow> Inr (Inr p)
      | Some colonp \<Rightarrow>
          if p_tp p = 16 then Inr (Inl UV_EINVAL)
          else let n = p_tp p - colonp in
               res_bind (shift_loop colonp n [1..<n + 1] (p_tmp p)) (\<lambda>tmp.
                 Inr (Inr (p\<lparr>p_tmp := tmp, p_tp := 16\<rparr>))))"

definition inet_pton6_end :: "pton6 \<Rightarrow> (int + u8 list) res" where
  "inet_pton6_end p =
     (if p_seen p \<noteq> 0 \<and> p_tp p + 2 > 16 then Inr (Inl UV_EINVAL)
      else res_bind (if p_seen p \<noteq> 0 then flush6 p else Inr p) (\<lambda>p.
           res_bind (pton6_shift p) (\<lambda>r.
             case r of Inl err \<Rightarrow> Inr (Inl err)
             | Inr p \<Rightarrow> if p_tp p \<noteq> 16 then Inr (Inl UV_EINVAL) else Inr (Inr (p_tmp p)))))"

definition pton6_start :: "string \<Rightarrow> pton6" where
  "pton6_start src =
     \<lparr>p_tmp = replicate 16 0, p_tp = 0, p_colonp = None, p_curtok = src, p_seen = 0, p_val = 0\<rparr>"

definition inet_pton6_body :: "string \<Rightarrow> (int + u8 list) res" where
  "inet_pton6_body src =
     res_bind (inet_pton6_loop src (pton6_start src)) (\<lambda>r.
       case r of Inl err \<Rightarrow> Inr (Inl err) | Inr p \<Rightarrow> inet_pton6_end p)"

definition inet_pton6 :: "string \<Rightarrow> (int + u8 list) res" where
  "inet_pton6 src =
     (if src \<noteq> [] \<and> src ! 0 = CHR '':''
      then (if tl src = [] \<or> tl src ! 0 \<noteq> CHR '':'' then Inr (Inl UV_EINVAL)
            else inet_pton6_body (tl src))
      else inet_pton6_body src)"

text \<open>
  \<open>src\<close> is \<open>None\<close> for a null pointer, \<open>dst_null\<close> tells whether \<open>dst\<close> is one.  The length
  of the part before a \<open>%\<close> is an \<open>int\<close>; it becomes negative beyond 2 GiB.
\<close>

definition uv_inet_pton :: "family \<Rightarrow> string option \<Rightarrow> bool \<Rightarrow> (int + u8 list) res" where
  "uv_inet_pton af src dst_null =
     (case src of None \<Rightarrow> Inr (Inl UV_EINVAL)
      | Some src \<Rightarrow>
          if dst_null then Inr (Inl UV_EINVAL)
          else (case af of
            AF_INET \<Rightarrow> inet_pton4 src
          | AF_INET6 \<Rightarrow>
              (case strchr src (CHR ''%'') of
                 None \<Rightarrow> inet_pton6 src
               | Some k \<Rightarrow>
                   let len = sint (of_nat k :: u32) in
                   if len > int UV__INET6_ADDRSTRLEN - 1 then Inr (Inl UV_EINVAL)
                   else if len < 0 then Inl Out_of_bounds
                   else inet_pton6 (take (nat len) src))
          | AF_other \<Rightarrow> Inr (Inl UV_EAFNOSUPPORT)))"

section \<open>Reading an IPv4 address\<close>

lemma strchr_Some: "strchr s c = Some d \<Longrightarrow> d < length s \<and> s ! d = c"
  by (induction s arbitrary: d) (auto split: if_splits)

lemma strchr_nth: "distinct s \<Longrightarrow> d < length s \<Longrightarrow> strchr s (s ! d) = Some d"
  by (induction s arbitrary: d) (auto simp: nth_Cons split: nat.splits)

lemma digits_take: "digits = take 10 xdigits_l"
  by (simp add: digits_def xdigits_l_def)

lemma length_xdigits [simp]: "length xdigits_l = 16" "length xdigits_u = 16" "length digits = 10"
  by (simp_all add: xdigits_l_def xdigits_u_def digits_def)

lemma distinct_xdigits [simp]: "distinct xdigits_l" "distinct digits"
  by (simp_all add: xdigits_l_def digits_def)

lemma digits_nth: "d < 10 \<Longrightarrow> digits ! d = xdigits_l ! d"
  by (simp add: digits_take)

lemma strchr_digits [simp]: "d < 10 \<Longrightarrow> strchr digits (xdigits_l ! d) = Some d"
  using strchr_nth [of digits d] by (simp add: digits_nth)

lemma strchr_digits_dot [simp]: "strchr digits (CHR ''.'') = None" "strchr digits (CHR '':'') = None"
  by (simp_all add: digits_def)

lemma print_small: "n < b \<Longrightarrow> print_base b n = [xdigits_l ! n]"
  by (subst print_base.simps) simp

lemma print_snoc:
  "1 < b \<Longrightarrow> d < b \<Longrightarrow> n \<noteq> 0 \<Longrightarrow> print_base b (n * b + d) = print_base b n @ [xdigits_l ! d]"
proof -
  assume *: "1 < b" "d < b" "n \<noteq> 0"
  then have "b \<le> n * b + d" by (simp add: trans_le_add1)
  then show ?thesis using * by (subst print_base.simps) simp
qed

lemma print_not_Nil [simp]: "print_base b n \<noteq> []"
  by (subst print_base.simps) simp

text \<open>The text that a state of the loop has consumed.\<close>

definition dotted :: "u8 list \<Rightarrow> string" where
  "dotted bs = concat (map (\<lambda>b. dec (unat b) @ ''.'') bs)"

definition consumed4 :: "u8 list \<Rightarrow> bool \<Rightarrow> string" where
  "consumed4 tmp saw = dotted (butlast tmp) @ (if saw then dec (unat (last tmp)) else [])"

definition p4_inv :: "u8 list \<Rightarrow> bool \<Rightarrow> nat \<Rightarrow> bool" where
  "p4_inv tmp saw oct \<longleftrightarrow> tmp \<noteq> [] \<and> oct \<le> 4 \<and> (if saw then oct = length tmp else oct + 1 = length tmp \<and> oct < 4 \<and> last tmp = 0)"

lemma dotted_simps [simp]:
  "dotted [] = []" "dotted (b # bs) = dec (unat b) @ ''.'' @ dotted bs"
  "dotted (as @ bs) = dotted as @ dotted bs"
  by (simp_all add: dotted_def)

lemma fmt4_dotted: "length b = 4 \<Longrightarrow> inet_fmt4 b = dotted (butlast b) @ dec (unat (last b))"
  by (auto simp: inet_fmt4_def numeral_eq_Suc length_Suc_conv)

lemma unat_of_nat_byte: "n \<le> 255 \<Longrightarrow> unat (of_nat n :: u8) = n"
  by (simp add: unat_of_nat)

lemma p4_digit:
  assumes "p4_inv tmp saw oct" "d < 10" "\<not> (saw \<and> last tmp = 0)" "unat (last tmp) * 10 + d \<le> 255"
  shows "consumed4 (butlast tmp @ [of_nat (unat (last tmp) * 10 + d)]) True
         = consumed4 tmp saw @ [xdigits_l ! d]"
proof (cases saw)
  case True
  then have "unat (last tmp) \<noteq> 0" using assms by (simp add: unat_eq_zero)
  then have "dec (unat (last tmp) * 10 + d) = dec (unat (last tmp)) @ [xdigits_l ! d]"
    using assms(2) by (intro print_snoc) simp_all
  then show ?thesis
    using assms True unat_of_nat_byte [OF assms(4)]
    by (simp add: consumed4_def del: of_nat_add of_nat_mult)
next
  case False
  then show ?thesis using assms by (simp add: consumed4_def p4_inv_def unat_of_nat_byte print_small)
qed

lemma pton4_loop_sound:
  assumes "p4_inv tmp saw oct"
  shows "\<exists>r. inet_pton4_loop s tmp saw oct = Inr r \<and>
           (\<forall>b. r = Inr b \<longrightarrow> length b = 4 \<and> consumed4 tmp saw @ s = inet_fmt4 b)"
  using assms
proof (induction s arbitrary: tmp saw oct)
  case Nil
  then show ?case
    by (cases saw) (auto simp: p4_inv_def mem_read_def consumed4_def fmt4_dotted)
next
  case (Cons ch s)
  show ?case
  proof (cases "strchr digits ch")
    case (Some d)
    then have d: "d < 10" "ch = xdigits_l ! d"
      using strchr_Some [OF Some] digits_nth [of d] by auto
    let ?t = "butlast tmp @ [of_nat (unat (last tmp) * 10 + d)]"
    show ?thesis
    proof (cases "(saw \<and> last tmp = 0) \<or> unat (last tmp) * 10 + d > 255 \<or> (\<not> saw \<and> oct = 4)")
      case True
      then show ?thesis using Some by (auto simp: Let_def)
    next
      case False
      let ?o = "if saw then oct else oct + 1"
      have inv: "p4_inv ?t True ?o" using Cons.prems False by (auto simp: p4_inv_def)
      have eq: "inet_pton4_loop (ch # s) tmp saw oct = inet_pton4_loop s ?t True ?o"
        using Some False Cons.prems by (auto simp: Let_def p4_inv_def)
      have "consumed4 ?t True = consumed4 tmp saw @ [ch]"
        using p4_digit [OF Cons.prems d(1)] False d(2) by simp
      then show ?thesis unfolding eq using Cons.IH [OF inv] by simp
    qed
  next
    case None
    show ?thesis
    proof (cases "ch = CHR ''.'' \<and> saw \<and> oct \<noteq> 4")
      case True
      then have inv: "p4_inv (tmp @ [0]) False oct" using Cons.prems by (auto simp: p4_inv_def)
      have "consumed4 (tmp @ [0]) False = consumed4 tmp saw @ [ch]"
        using True Cons.prems
        by (cases tmp rule: rev_cases) (auto simp: consumed4_def p4_inv_def butlast_append)
      moreover have "inet_pton4_loop (ch # s) tmp saw oct = inet_pton4_loop s (tmp @ [0]) False oct"
        using None True Cons.prems by (auto simp: p4_inv_def)
      ultimately show ?thesis using Cons.IH [OF inv] by simp
    qed (use None in auto)
  qed
qed

lemma byte_dec_cases:
  assumes "n \<le> 255"
  obtains "dec n = [xdigits_l ! n]" "n < 10"
  | "dec n = [xdigits_l ! (n div 10), xdigits_l ! (n mod 10)]" "n \<ge> 10" "n < 100"
  | "dec n = [xdigits_l ! (n div 100), xdigits_l ! (n div 10 mod 10), xdigits_l ! (n mod 10)]" "n \<ge> 100"
proof -
  have a: "n < 10 \<Longrightarrow> dec n = [xdigits_l ! n]" by (rule print_small)
  have b: "dec n = [xdigits_l ! (n div 10), xdigits_l ! (n mod 10)]" if "n \<ge> 10" "n < 100" for n
    using that print_snoc [of 10 "n mod 10" "n div 10"] print_small [of "n div 10" 10] by simp
  have c: "dec n = [xdigits_l ! (n div 100), xdigits_l ! (n div 10 mod 10), xdigits_l ! (n mod 10)]"
    if "n \<ge> 100"
    using that assms print_snoc [of 10 "n mod 10" "n div 10"] b [of "n div 10"]
    by (simp add: div_mult2_eq [symmetric])
  show thesis using a b c that by (cases "n < 10"; cases "n < 100") auto
qed

lemma pton4_loop_digit:
  assumes "d < 10" "m = unat c * 10 + d" "m \<le> 255" "saw \<longrightarrow> c \<noteq> 0" "\<not> saw \<longrightarrow> oct < 4"
  shows "inet_pton4_loop (xdigits_l ! d # s) (bs @ [c]) saw oct
         = inet_pton4_loop s (bs @ [of_nat m]) True (if saw then oct else oct + 1)"
  using assms(1,3-5) by (auto simp: Let_def assms(2) [symmetric] simp del: of_nat_add of_nat_mult)

lemma pton4_loop_octet:
  assumes "n \<le> 255" "oct < 4"
  shows "inet_pton4_loop (dec n @ s) (bs @ [0]) False oct = inet_pton4_loop s (bs @ [of_nat n]) True (oct + 1)"
proof -
  have d: "n = n div 10 * 10 + n mod 10" "n div 10 = n div 100 * 10 + n div 10 mod 10"
    using div_mult2_eq [of n 10 10] by simp_all
  have z: "unat (of_nat m :: u8) = m \<and> (m \<noteq> 0 \<longrightarrow> (of_nat m :: u8) \<noteq> 0)" if "m \<le> 255" for m
    using that unat_of_nat_byte [of m] by auto
  note step = pton4_loop_digit [where bs = bs]
  show ?thesis using assms(1)
  proof (cases rule: byte_dec_cases)
    case 1
    then show ?thesis using assms step [of n n 0 False oct s] by simp
  next
    case 2
    have q: "n div 10 < 10" "n div 10 \<noteq> 0" "n div 10 \<le> 255" using 2 by auto
    show ?thesis
      using q(1,2) 2(1) assms d(1) z [OF q(3)] step [of "n div 10" "n div 10" 0 False oct "[xdigits_l ! (n mod 10)] @ s"]
        step [of "n mod 10" n "of_nat (n div 10)" True "oct + 1" s] by (simp del: inet_pton4_loop.simps)
  next
    case 3
    have q: "n div 100 < 10" "n div 100 \<noteq> 0" "n div 10 \<noteq> 0" "n div 10 \<le> 255" "n div 100 \<le> 255"
      using 3 assms by auto
    show ?thesis
      using q(1-4) 3(1) assms d z [OF q(5)] z [OF q(4)]
        step [of "n div 100" "n div 100" 0 False oct "[xdigits_l ! (n div 10 mod 10), xdigits_l ! (n mod 10)] @ s"]
        step [of "n div 10 mod 10" "n div 10" "of_nat (n div 100)" True "oct + 1" "[xdigits_l ! (n mod 10)] @ s"]
        step [of "n mod 10" n "of_nat (n div 10)" True "oct + 1" s] by (simp del: inet_pton4_loop.simps)
  qed
qed

lemma pton4_fmt4: "length b = 4 \<Longrightarrow> inet_pton4 (inet_fmt4 b) = Inr (Inr b)"
proof -
  assume "length b = 4"
  then obtain x y z w where b: "b = [x, y, z, w]" by (auto simp: numeral_eq_Suc length_Suc_conv)
  have le: "unat (v :: u8) \<le> 255" for v
  proof -
    have "unat v < 2 ^ LENGTH(8)" by (rule unsigned_less)
    then show ?thesis by simp
  qed
  show ?thesis
    using pton4_loop_octet [OF le [of x], of 0 _ "[]"] pton4_loop_octet [OF le [of y], of 1 _ "[x]"]
      pton4_loop_octet [OF le [of z], of 2 _ "[x, y]"] pton4_loop_octet [OF le [of w], of 3 "[]" "[x, y, z]"]
    by (simp add: b inet_pton4_def inet_fmt4_def mem_read_def numeral_2_eq_2 numeral_3_eq_3)
qed

text \<open>
  C29. \<open>inet_pton4\<close> returns for every string, without leaving its buffer, and accepts
  exactly the strings \<open>inet_ntop4\<close> prints: it stores \<open>b\<close> if and only if \<open>b\<close> has 4 bytes
  and the string is their decimal form, so no leading zeros, no missing or additional
  parts, no part above 255 and nothing after the address.
\<close>

theorem inet_pton4_exact:
  "(\<exists>r. inet_pton4 s = Inr r) \<and>
   (inet_pton4 s = Inr (Inr b) \<longleftrightarrow> length b = 4 \<and> s = inet_fmt4 b)"
  using pton4_loop_sound [of "[0]" False 0 s] pton4_fmt4 [of b]
  by (auto simp: inet_pton4_def p4_inv_def consumed4_def)

section \<open>Reading never leaves the buffer\<close>

definition p6_inv :: "pton6 \<Rightarrow> bool" where
  "p6_inv p \<longleftrightarrow> length (p_tmp p) = 16 \<and> p_tp p \<le> 16
     \<and> drop (p_tp p) (p_tmp p) = replicate (16 - p_tp p) 0 \<and> (\<forall>c. p_colonp p = Some c \<longrightarrow> c \<le> p_tp p)"

lemma p6_inv_write:
  assumes "p6_inv p" "p_tp p + length b \<le> 16"
  shows "mem_write (p_tmp p) (p_tp p) b
           = Inr (take (p_tp p) (p_tmp p) @ b @ replicate (16 - p_tp p - length b) 0)"
    and "p6_inv (p\<lparr>p_tmp := take (p_tp p) (p_tmp p) @ b @ replicate (16 - p_tp p - length b) 0,
                    p_tp := p_tp p + length b\<rparr>)"
proof -
  have "drop (p_tp p + length b) (p_tmp p) = replicate (16 - p_tp p - length b) 0"
  proof -
    have "drop (p_tp p + length b) (p_tmp p) = drop (length b) (drop (p_tp p) (p_tmp p))"
      by (simp add: add.commute)
    also have "\<dots> = replicate (16 - p_tp p - length b) 0"
      using assms(1) by (simp add: p6_inv_def drop_replicate del: drop_drop)
    finally show ?thesis .
  qed
  then show "mem_write (p_tmp p) (p_tp p) b
           = Inr (take (p_tp p) (p_tmp p) @ b @ replicate (16 - p_tp p - length b) 0)"
    using assms by (simp add: mem_write_def p6_inv_def)
  show "p6_inv (p\<lparr>p_tmp := take (p_tp p) (p_tmp p) @ b @ replicate (16 - p_tp p - length b) 0,
                    p_tp := p_tp p + length b\<rparr>)"
    using assms by (auto simp: p6_inv_def)
qed

definition val_bytes :: "u32 \<Rightarrow> u8 list" where
  "val_bytes v = [ucast (drop_bit 8 v) AND 0xff, ucast v AND 0xff]"

lemma length_val_bytes [simp]: "length (val_bytes v) = 2"
  by (simp add: val_bytes_def)

lemma flush6_ok:
  assumes "p6_inv p" "p_tp p + 2 \<le> 16"
  defines "p' \<equiv> p\<lparr>p_tmp := take (p_tp p) (p_tmp p) @ val_bytes (p_val p) @ replicate (14 - p_tp p) 0,
                    p_tp := p_tp p + 2\<rparr>"
  shows "flush6 p = Inr p'" "p6_inv p'"
  using p6_inv_write [of p "val_bytes (p_val p)"] assms
  by (simp_all add: flush6_def val_bytes_def p'_def)

lemma pton4_never_faults:
  "\<exists>r. inet_pton4 s = Inr r \<and> (\<forall>b. r = Inr b \<longrightarrow> length b = 4)"
  using pton4_loop_sound [of "[0]" False 0 s] by (auto simp: inet_pton4_def p4_inv_def)

lemma p6_inv_upd [simp]:
  "p6_inv (p\<lparr>p_val := v\<rparr>) = p6_inv p" "p6_inv (p\<lparr>p_seen := n\<rparr>) = p6_inv p"
  "p6_inv (p\<lparr>p_curtok := t\<rparr>) = p6_inv p"
  "p6_inv p \<Longrightarrow> p6_inv (p\<lparr>p_colonp := Some (p_tp p)\<rparr>)"
  by (simp_all add: p6_inv_def)

lemma pton6_loop_safe:
  assumes "p6_inv p"
  shows "\<exists>r. inet_pton6_loop s p = Inr r \<and> (\<forall>p'. r = Inr p' \<longrightarrow> p6_inv p')"
  using assms
proof (induction s arbitrary: p)
  case (Cons ch s)
  show ?case
  proof (cases "xdigit ch")
    case (Some d)
    then show ?thesis
      using Cons.IH [of "p\<lparr>p_val := push_bit 4 (p_val p) OR of_nat d, p_seen := Suc (p_seen p)\<rparr>"] Cons.prems
      by (auto simp: Let_def)
  next
    case None
    consider (colon) "ch = CHR '':''" | (dot) "ch = CHR ''.''" "p_tp p + 4 \<le> 16"
      | (other) "ch \<noteq> CHR '':''" "ch = CHR ''.'' \<longrightarrow> p_tp p + 4 > 16"
      by fastforce
    then show ?thesis
    proof cases
      case colon
      let ?p = "p\<lparr>p_curtok := s\<rparr>"
      have inv: "p6_inv ?p" using Cons.prems by simp
      show ?thesis
      proof (cases "p_seen p = 0")
        case True
        then show ?thesis
          using colon None Cons.prems Cons.IH [OF p6_inv_upd(4) [OF inv]] by (auto simp: Let_def)
      next
        case False
        show ?thesis
        proof (cases "s \<noteq> [] \<and> p_tp p + 2 \<le> 16")
          case True
          then obtain p' where p': "flush6 ?p = Inr p'" "p6_inv p'"
            using flush6_ok [OF inv] by (auto simp del: p6_inv_upd)
          then show ?thesis
            using False colon None True Cons.IH [of "p'\<lparr>p_seen := 0, p_val := 0\<rparr>"] by (simp add: Let_def)
        qed (use False colon None in \<open>auto simp: Let_def\<close>)
      qed
    next
      case dot
      obtain r where r: "inet_pton4 (p_curtok p) = Inr r" "\<forall>b. r = Inr b \<longrightarrow> length b = 4"
        using pton4_never_faults by blast
      show ?thesis
      proof (cases r)
        case (Inr b)
        then show ?thesis using dot None r p6_inv_write [OF Cons.prems, of b] by simp
      qed (use dot None r in simp)
    qed (use None in auto)
  qed
qed simp

text \<open>
  The loop that moves the words after the \<open>::\<close> to the end.  What it reads has not
  been overwritten yet, because the buffer is not full.
\<close>

lemma shift_loop_append:
  "shift_loop c n (is @ js) tmp = res_bind (shift_loop c n is tmp) (shift_loop c n js)"
proof (induction "is" arbitrary: tmp)
  case (Cons a "is")
  then have "shift_loop c n (is @ js) = (\<lambda>x. res_bind (shift_loop c n is x) (shift_loop c n js))" by blast
  then show ?case by (simp add: res_bind_assoc)
qed simp

lemma shift_step:
  assumes "length P + length M + z + length R = 14"
  shows "shift_loop (length P) (length M + 1 + length R) [length R + 1]
           (P @ (M @ [x]) @ replicate z 0 @ [0] @ R) = Inr (P @ M @ [0] @ replicate z 0 @ [x] @ R)"
proof -
  have idx: "length P + (length M + 1 + length R) - (length R + 1) = length (P @ M)"
    "16 - (length R + 1) = length (P @ M @ [x] @ replicate z 0)" using assms by simp_all
  let ?t = "(P @ M) @ x # replicate z 0 @ 0 # R"
  have "mem_get ?t (length (P @ M)) = Inr x" by (simp add: mem_get_def nth_append)
  moreover have "mem_set ?t (length (P @ M @ [x] @ replicate z 0)) x = Inr ((P @ M) @ x # replicate z 0 @ x # R)"
    by (simp add: mem_set_def list_update_append)
  moreover have "mem_set ((P @ M) @ x # replicate z 0 @ x # R) (length (P @ M)) 0
      = Inr ((P @ M) @ 0 # replicate z 0 @ x # R)"
    by (simp add: mem_set_def list_update_append)
  ultimately show ?thesis by (simp only: shift_loop.simps idx res_bind_simps append.simps append_assoc)
qed

lemma shift_loop_result:
  assumes "length P + length M + z = 16" "0 < z" "i \<le> length M"
  shows "shift_loop (length P) (length M) [1..<i + 1] (P @ M @ replicate z 0)
         = Inr (P @ take (length M - i) M @ replicate z 0 @ drop (length M - i) M)"
  using assms(3)
proof (induction i)
  case (Suc i)
  define k where "k = length M - Suc i"
  have k: "length M - i = Suc k" "k < length M" using Suc.prems by (simp_all add: k_def)
  obtain z' where z': "z = Suc z'" using assms(2) by (cases z) auto
  have "[1..<Suc i + 1] = [1..<i + 1] @ [i + 1]" by simp
  then have "shift_loop (length P) (length M) [1..<Suc i + 1] (P @ M @ replicate z 0)
    = shift_loop (length P) (length M) [i + 1] (P @ (take k M @ [M ! k]) @ replicate z' 0 @ [0] @ drop (Suc k) M)"
    using Suc k by (simp add: shift_loop_append take_Suc_conv_app_nth z' replicate_app_Cons_same
        del: upt_Suc shift_loop.simps(2))
  also have "\<dots> = Inr (P @ take k M @ [0] @ replicate z' 0 @ [M ! k] @ drop (Suc k) M)"
  proof -
    have "length (take k M) + 1 + length (drop (Suc k) M) = length M" "length (drop (Suc k) M) = i"
      "length P + length (take k M) + z' + length (drop (Suc k) M) = 14"
      using assms(1) k Suc.prems by (simp_all add: z')
    then show ?thesis using shift_step [of P "take k M" z' "drop (Suc k) M" "M ! k"] by metis
  qed
  finally show ?case using k by (simp add: k_def [symmetric] z' Cons_nth_drop_Suc replicate_app_Cons_same)
qed simp

lemma pton6_shift_result:
  assumes "p6_inv p"
  shows "pton6_shift p =
    (case p_colonp p of None \<Rightarrow> Inr (Inr p)
     | Some c \<Rightarrow> if p_tp p = 16 then Inr (Inl UV_EINVAL)
         else Inr (Inr (p\<lparr>p_tmp := take c (p_tmp p) @ replicate (16 - p_tp p) 0
                                   @ drop c (take (p_tp p) (p_tmp p)), p_tp := 16\<rparr>)))"
proof (cases "p_colonp p")
  case (Some c)
  let ?P = "take c (p_tmp p)" and ?M = "drop c (take (p_tp p) (p_tmp p))" and ?z = "16 - p_tp p"
  have c: "c \<le> p_tp p" "p_tp p \<le> 16" "length (p_tmp p) = 16" using assms Some by (simp_all add: p6_inv_def)
  have "p_tmp p = take (p_tp p) (p_tmp p) @ replicate ?z 0"
    using assms append_take_drop_id [of "p_tp p" "p_tmp p"] by (simp add: p6_inv_def)
  moreover have "take (p_tp p) (p_tmp p) = ?P @ ?M"
    using c append_take_drop_id [of c "take (p_tp p) (p_tmp p)"] by (simp add: min_absorb1)
  ultimately have tmp: "p_tmp p = ?P @ ?M @ replicate ?z 0" by (metis append_assoc)
  show ?thesis
  proof (cases "p_tp p = 16")
    case False
    have len: "length ?P = c" "length ?M = p_tp p - c" using c by simp_all
    have "shift_loop (length ?P) (length ?M) [1..<length ?M + 1] (?P @ ?M @ replicate ?z 0)
      = Inr (?P @ replicate ?z 0 @ ?M)"
      using shift_loop_result [of ?P ?M ?z "length ?M"] c len False by simp
    then have "shift_loop c (p_tp p - c) [1..<p_tp p - c + 1] (p_tmp p) = Inr (?P @ replicate ?z 0 @ ?M)"
      unfolding len tmp [symmetric] .
    then show ?thesis using Some False by (simp add: pton6_shift_def Let_def)
  qed (use Some in \<open>simp add: pton6_shift_def\<close>)
qed (simp add: pton6_shift_def)

lemma pton6_end_safe:
  assumes "p6_inv p"
  shows "\<exists>r. inet_pton6_end p = Inr r \<and> (\<forall>b. r = Inr b \<longrightarrow> length b = 16)"
proof -
  have fin: "\<exists>r. pton6_shift q = Inr r \<and> (\<forall>q'. r = Inr q' \<longrightarrow> p_tp q' = 16 \<longrightarrow> length (p_tmp q') = 16)"
    if "p6_inv q" for q
    using that by (auto simp: pton6_shift_result p6_inv_def split: option.splits)
  obtain q where q: "(if p_seen p \<noteq> 0 then flush6 p else Inr p) = Inr q \<and> p6_inv q \<or> p_seen p \<noteq> 0 \<and> p_tp p + 2 > 16"
    using flush6_ok [of p] assms by fastforce
  show ?thesis
  proof (cases "p_seen p \<noteq> 0 \<and> p_tp p + 2 > 16")
    case True then show ?thesis by (simp add: inet_pton6_end_def)
  next
    case False
    then have *: "(if p_seen p \<noteq> 0 then flush6 p else Inr p) = Inr q" "p6_inv q" using q by blast+
    then obtain r where r: "pton6_shift q = Inr r" "\<forall>q'. r = Inr q' \<longrightarrow> p_tp q' = 16 \<longrightarrow> length (p_tmp q') = 16"
      using fin [of q] by blast
    have "inet_pton6_end p = (case r of Inl err \<Rightarrow> Inr (Inl err)
             | Inr p \<Rightarrow> if p_tp p \<noteq> 16 then Inr (Inl UV_EINVAL) else Inr (Inr (p_tmp p)))"
      unfolding inet_pton6_end_def if_not_P [OF False] *(1) res_bind_simps r(1) by simp
    then show ?thesis using r(2) by (cases r) auto
  qed
qed

lemma p6_inv_start [simp]: "p6_inv (pton6_start s)"
  by (simp add: p6_inv_def pton6_start_def)

lemma pton6_body_safe: "\<exists>r. inet_pton6_body s = Inr r \<and> (\<forall>b. r = Inr b \<longrightarrow> length b = 16)"
proof -
  obtain r where r: "inet_pton6_loop s (pton6_start s) = Inr r" "\<forall>p'. r = Inr p' \<longrightarrow> p6_inv p'"
    using pton6_loop_safe [OF p6_inv_start] by blast
  then show ?thesis using pton6_end_safe by (cases r) (auto simp: inet_pton6_body_def)
qed

lemma pton6_safe: "\<exists>r. inet_pton6 s = Inr r \<and> (\<forall>b. r = Inr b \<longrightarrow> length b = 16)"
  using pton6_body_safe by (auto simp: inet_pton6_def)

lemma strchr_less: "strchr s c = Some k \<Longrightarrow> k < length s"
  using strchr_Some by blast

text \<open>
  On every string below 2 GiB \<open>uv_inet_pton\<close> stays inside its arrays, also with
  nested \<open>::\<close>, overlong groups and zone suffixes, and what it stores has the size of the
  family's address.
\<close>

theorem uv_inet_pton_safe:
  assumes "\<And>t. s = Some t \<Longrightarrow> length t < 2 ^ 31"
  shows "\<exists>r. uv_inet_pton af s dst_null = Inr r \<and>
           (\<forall>b. r = Inr b \<longrightarrow> length b = (if af = AF_INET then 4 else 16))"
proof (cases "s = None \<or> dst_null \<or> af = AF_other")
  case False
  then obtain t where s: "s = Some t" "length t < 2 ^ 31" "\<not> dst_null" using assms by auto
  have len: "sint (of_nat k :: u32) = int k" if "strchr t c = Some k" for k c
  proof -
    have "k < 2 ^ 31" using strchr_less [OF that] s(2) by (rule less_trans)
    then show ?thesis using sint_small [of "of_nat k"] unat_of_nat_u32 [of k] by simp
  qed
  show ?thesis
  proof (cases af)
    case AF_INET then show ?thesis using s pton4_never_faults [of t] by (simp add: uv_inet_pton_def)
  next
    case AF_INET6
    then show ?thesis
      using s pton6_safe [of t] len pton6_safe by (auto simp: uv_inet_pton_def Let_def split: option.splits)
  qed (use False in simp)
qed (auto simp: uv_inet_pton_def split: option.splits family.splits)

theorem uv_inet_pton_safe_witness:
  "\<exists>r. uv_inet_pton AF_INET6 (Some ''1:2:3:4:5:6:7:8::%lo'') False = Inr r \<and>
     (\<forall>b. r = Inr b \<longrightarrow> length b = (if AF_INET6 = AF_INET then 4 else 16))"
  by (rule uv_inet_pton_safe) simp

end
