(* ===== verification/Inet6.thy ===== *)
theory Inet6
  imports Inet
begin

text \<open>
  Printing and reading IPv6 addresses (\<open>libuv/src/inet.c\<close>) against each other: how
  \<open>inet_pton6\<close> reads groups of digits, the double colon and a dotted tail, which run of
  zero words \<open>inet_ntop6\<close> leaves out, what it prints, and the round trip.
\<close>

section \<open>Reading groups\<close>

lemma or_shift4: "d < 16 \<Longrightarrow> push_bit 4 (of_nat m :: u32) OR of_nat d = of_nat (m * 16 + d)"
proof -
  assume "d < 16"
  then have z: "\<not> bit d n" if "4 \<le> n" for n
  proof -
    have "(16 :: nat) \<le> 2 ^ n" using power_increasing [OF that, of "2 :: nat"] by simp
    then have "d < 2 ^ n" using \<open>d < 16\<close> by simp
    then show ?thesis by (simp add: bit_iff_odd)
  qed
  have "push_bit 4 m OR d = push_bit 4 m + d"
    by (rule disjunctive_add [symmetric]) (auto simp: bit_push_bit_iff_nat z)
  then have "of_nat (push_bit 4 m OR d) = (of_nat (m * 16 + d) :: u32)"
    by (simp add: push_bit_eq_mult)
  then show ?thesis by (simp add: of_nat_or_eq of_nat_push_bit)
qed

lemma xdigit_nth [simp]: "d < 16 \<Longrightarrow> xdigit (xdigits_l ! d) = Some d"
  by (simp add: xdigit_def strchr_nth)

lemma xdigit_colon [simp]: "xdigit (CHR '':'') = None" "xdigit (CHR ''.'') = None"
  by (simp_all add: xdigit_def xdigits_l_def xdigits_u_def)

lemma print_split: "1 < b \<Longrightarrow> b \<le> n \<Longrightarrow> print_base b n = print_base b (n div b) @ [xdigits_l ! (n mod b)]"
  by (subst print_base.simps) simp

lemma print_length: "1 < b \<Longrightarrow> n < b ^ Suc k \<Longrightarrow> length (print_base b n) \<le> Suc k"
proof (induction k arbitrary: n)
  case 0
  then show ?case by (simp add: print_small)
next
  case (Suc k)
  show ?case
  proof (cases "n < b")
    case False
    have "n < b * b ^ Suc k" using Suc.prems by simp
    then have "n div b < b ^ Suc k" using Suc.prems by (simp add: less_mult_imp_div_less mult.commute)
    then show ?thesis using Suc False by (simp add: print_split)
  qed (simp add: print_small)
qed

text \<open>Digits move into \<open>val\<close>.\<close>

lemma pton6_hex:
  assumes "n < 65536" "p_seen p = 0" "p_val p = 0"
  shows "inet_pton6_loop (hex n @ s) p = inet_pton6_loop s (p\<lparr>p_val := of_nat n, p_seen := length (hex n)\<rparr>)"
  using assms(1)
proof (induction n arbitrary: s rule: less_induct)
  case (less n)
  show ?case
  proof (cases "n < 16")
    case True
    have "(of_nat n :: u32) = push_bit 4 0 OR of_nat n" by simp
    then show ?thesis using True assms by (simp add: print_small Let_def)
  next
    case False
    have "length (hex n) \<le> 4" using print_length [of 16 n 3] less.prems by simp
    moreover have "hex n = hex (n div 16) @ [xdigits_l ! (n mod 16)]" using False by (simp add: print_split)
    moreover have "push_bit 4 (of_nat (n div 16)) OR of_nat (n mod 16) = (of_nat n :: u32)"
      by (subst or_shift4) simp_all
    ultimately show ?thesis
      using less.IH [of "n div 16" "xdigits_l ! (n mod 16) # s"] less.prems False assms
      by (simp add: Let_def)
  qed
qed

lemma pton6_dec:
  assumes "n \<le> 255" "p_seen p = 0"
  shows "\<exists>v k. inet_pton6_loop (dec n @ s) p = inet_pton6_loop s (p\<lparr>p_val := v, p_seen := k\<rparr>)"
  using assms(1)
proof (cases rule: byte_dec_cases)
  case 3
  then have "n div 100 < 16" "n div 10 mod 10 < 16" "n mod 10 < 16" using assms by auto
  then show ?thesis using 3 assms by (auto simp: Let_def)
qed (use assms in \<open>auto simp: Let_def\<close>)

text \<open>The state after the groups whose bytes are \<open>B\<close>, before the text \<open>t\<close>.\<close>

definition p6_at :: "u8 list \<Rightarrow> nat option \<Rightarrow> string \<Rightarrow> pton6" where
  "p6_at B c t = \<lparr>p_tmp = B @ replicate (16 - length B) 0, p_tp = length B, p_colonp = c,
                  p_curtok = t, p_seen = 0, p_val = 0\<rparr>"

definition groups :: "u32 list \<Rightarrow> string" where
  "groups ws = concat (map (\<lambda>w. hex (unat w) @ '':'') ws)"

definition bytes6 :: "u32 list \<Rightarrow> u8 list" where
  "bytes6 ws = concat (map val_bytes ws)"

lemma groups_simps [simp]:
  "groups [] = []" "groups (w # ws) = hex (unat w) @ '':'' @ groups ws" "groups (us @ ws) = groups us @ groups ws"
  by (simp_all add: groups_def)

lemma bytes6_simps [simp]:
  "bytes6 [] = []" "bytes6 (w # ws) = val_bytes w @ bytes6 ws" "bytes6 (us @ ws) = bytes6 us @ bytes6 ws"
  by (simp_all add: bytes6_def)

lemma length_bytes6 [simp]: "length (bytes6 ws) = 2 * length ws"
  by (induction ws) simp_all

lemma p6_at_inv: "length B \<le> 16 \<Longrightarrow> (\<And>k. c = Some k \<Longrightarrow> k \<le> length B) \<Longrightarrow> p6_inv (p6_at B c t)"
  by (auto simp: p6_inv_def p6_at_def)

lemma p6_at_sel [simp]:
  "p_seen (p6_at B c t) = 0" "p_val (p6_at B c t) = 0" "p_tp (p6_at B c t) = length B"
  "p_colonp (p6_at B c t) = c" "p_curtok (p6_at B c t) = t"
  by (simp_all add: p6_at_def)

lemma flush6_at:
  assumes "length B + 2 \<le> 16"
  shows "flush6 ((p6_at B c t)\<lparr>p_val := v, p_seen := k, p_curtok := t'\<rparr>)
         = Inr ((p6_at (B @ val_bytes v) c t')\<lparr>p_val := v, p_seen := k\<rparr>)"
  using assms by (simp add: flush6_def p6_at_def mem_write_def val_bytes_def)

lemma pton6_group:
  assumes "unat w < 65536" "length B + 2 \<le> 16" "s \<noteq> []"
  shows "inet_pton6_loop (hex (unat w) @ CHR '':'' # s) (p6_at B c t)
         = inet_pton6_loop s (p6_at (B @ val_bytes w) c s)"
  using assms flush6_at [OF assms(2), where c = c and t = t and v = w and k = "length (hex (unat w))" and t' = s]
  by (simp add: pton6_hex Let_def p6_at_def)

lemma pton6_groups:
  assumes "\<forall>w\<in>set ws. unat w < 65536" "length B + 2 * length ws \<le> 16" "s \<noteq> []"
  shows "inet_pton6_loop (groups ws @ s) (p6_at B c (groups ws @ s))
         = inet_pton6_loop s (p6_at (B @ bytes6 ws) c s)"
  using assms
proof (induction ws arbitrary: B)
  case (Cons w ws)
  then show ?case using pton6_group [of w B "groups ws @ s" c] by simp
qed simp

lemma pton6_colon:
  "inet_pton6_loop (CHR '':'' # s) (p6_at B None t) = inet_pton6_loop s (p6_at B (Some (length B)) s)"
  by (simp add: Let_def p6_at_def)

text \<open>The address that the bytes and the position of the \<open>::\<close> stand for.\<close>

definition spread6 :: "u8 list \<Rightarrow> nat option \<Rightarrow> u8 list" where
  "spread6 B c = (case c of None \<Rightarrow> B | Some k \<Rightarrow> take k B @ replicate (16 - length B) 0 @ drop k B)"

definition complete6 :: "u8 list \<Rightarrow> nat option \<Rightarrow> bool" where
  "complete6 B c = (case c of None \<Rightarrow> length B = 16 | Some k \<Rightarrow> k \<le> length B \<and> length B < 16)"

lemma pton6_shift_at:
  assumes "complete6 B c"
  shows "res_bind (pton6_shift ((p6_at B c t)\<lparr>p_val := v, p_seen := k\<rparr>)) (\<lambda>r.
             case r of Inl err \<Rightarrow> Inr (Inl err)
             | Inr p \<Rightarrow> if p_tp p \<noteq> 16 then Inr (Inl UV_EINVAL) else Inr (Inr (p_tmp p)))
         = Inr (Inr (spread6 B c))"
proof -
  have "p6_inv ((p6_at B c t)\<lparr>p_val := v, p_seen := k\<rparr>)"
    using assms by (cases c) (auto simp: complete6_def intro!: p6_at_inv)
  then show ?thesis using assms
    by (auto simp: pton6_shift_result spread6_def complete6_def split: option.splits)
       (simp_all add: p6_at_def)
qed

lemma pton6_end_at:
  assumes "complete6 B c"
  shows "inet_pton6_end ((p6_at B c t)\<lparr>p_val := v\<rparr>) = Inr (Inr (spread6 B c))"
  using pton6_shift_at [OF assms, where v = v and k = 0 and t = t] by (simp add: inet_pton6_end_def p6_at_def)

definition finish6 :: "string \<Rightarrow> pton6 \<Rightarrow> (int + u8 list) res" where
  "finish6 s p = res_bind (inet_pton6_loop s p) (\<lambda>r.
       case r of Inl err \<Rightarrow> Inr (Inl err) | Inr p \<Rightarrow> inet_pton6_end p)"

lemma finish6_Nil: "complete6 B c \<Longrightarrow> finish6 [] (p6_at B c t) = Inr (Inr (spread6 B c))"
  using pton6_end_at [where v = 0 and t = t and B = B and c = c] by (simp add: finish6_def p6_at_def)

lemma finish6_hex:
  assumes "unat w < 65536" "complete6 (B @ val_bytes w) c"
  shows "finish6 (hex (unat w)) (p6_at B c t) = Inr (Inr (spread6 (B @ val_bytes w) c))"
proof -
  let ?p = "(p6_at B c t)\<lparr>p_val := w, p_seen := length (hex (unat w))\<rparr>"
  have len: "length B + 2 \<le> 16" using assms(2) by (auto simp: complete6_def split: option.splits)
  have fl: "flush6 ?p = Inr ((p6_at (B @ val_bytes w) c t)\<lparr>p_val := w, p_seen := length (hex (unat w))\<rparr>)"
    using flush6_at [OF len, where c = c and t = t and v = w and k = "length (hex (unat w))" and t' = t] by (simp add: p6_at_def)
  have "inet_pton6_end ?p = Inr (Inr (spread6 (B @ val_bytes w) c))"
    using len pton6_shift_at [OF assms(2)] by (simp add: inet_pton6_end_def fl)
  then show ?thesis
    using pton6_hex [of "unat w" "p6_at B c t" "[]"] assms(1) by (simp add: finish6_def)
qed

lemma finish6_dotted:
  assumes "length b = 4" "complete6 (B @ b) c"
  shows "finish6 (inet_fmt4 b) (p6_at B c (inet_fmt4 b)) = Inr (Inr (spread6 (B @ b) c))"
proof -
  let ?p = "p6_at B c (inet_fmt4 b)"
  obtain x s where s: "inet_fmt4 b = dec (unat (x :: u8)) @ CHR ''.'' # s" by (simp add: inet_fmt4_def)
  have "unat x < 2 ^ LENGTH(8)" by (rule unsigned_less)
  then have "unat x \<le> 255" by simp
  then obtain v k where "inet_pton6_loop (inet_fmt4 b) ?p
      = inet_pton6_loop (CHR ''.'' # s) (?p\<lparr>p_val := v, p_seen := k\<rparr>)"
    using pton6_dec [of "unat x" ?p "CHR ''.'' # s"] unfolding s by (auto simp del: inet_pton6_loop.simps)
  moreover have "length B + 4 \<le> 16" using assms by (auto simp: complete6_def split: option.splits)
  moreover have "mem_write (p_tmp ?p) (length B) b = Inr (p_tmp (p6_at (B @ b) c []))"
    using \<open>length B + 4 \<le> 16\<close> assms(1) by (simp add: mem_write_def p6_at_def)
  ultimately have "inet_pton6_loop (inet_fmt4 b) ?p = Inr (Inr ((p6_at (B @ b) c (inet_fmt4 b))\<lparr>p_val := v\<rparr>))"
    using pton4_fmt4 [OF assms(1)] assms(1) by (simp add: p6_at_def)
  then show ?thesis using assms(2) by (simp add: finish6_def pton6_end_at)
qed

lemma body_finish6: "inet_pton6_body s = finish6 s (p6_at [] None s)"
  by (simp add: inet_pton6_body_def finish6_def pton6_start_def p6_at_def)

section \<open>Printing\<close>

subsection \<open>The longest run of zero words\<close>

definition zero_run :: "u32 list \<Rightarrow> nat \<Rightarrow> zrun \<Rightarrow> bool" where
  "zero_run words n r \<longleftrightarrow> 0 \<le> zbase r \<and> 1 \<le> zlen r \<and> zbase r + zlen r \<le> int n \<and>
     (\<forall>i. zbase r \<le> int i \<and> int i < zbase r + zlen r \<longrightarrow> words ! i = 0)"

definition scan_inv :: "u32 list \<Rightarrow> nat \<Rightarrow> zrun \<Rightarrow> zrun \<Rightarrow> bool" where
  "scan_inv words n best cur \<longleftrightarrow> (zbase best \<noteq> -1 \<longrightarrow> zero_run words n best) \<and>
     (zbase cur \<noteq> -1 \<longrightarrow> zero_run words n cur \<and> zbase cur + zlen cur = int n)"

lemma zero_run_mono: "zero_run words n r \<Longrightarrow> n \<le> m \<Longrightarrow> zero_run words m r"
  by (auto simp: zero_run_def)

lemma better_cases: "better best cur = best \<and> zbase best \<noteq> -1 \<or> better best cur = cur"
  by (auto simp: better_def)

lemma scan_zero:
  assumes "scan_inv words n best cur" "words ! n = 0"
  shows "scan_inv words (Suc n) best
           (if zbase cur = -1 then cur\<lparr>zbase := int n, zlen := 1\<rparr> else cur\<lparr>zlen := zlen cur + 1\<rparr>)"
proof -
  have "words ! i = 0" if "zbase cur \<noteq> -1" "zbase cur \<le> int i" "int i < zbase cur + (zlen cur + 1)" for i
    using assms that by (cases "i = n") (auto simp: scan_inv_def zero_run_def)
  moreover have "words ! i = 0" if "int n \<le> int i" "int i < int n + 1" for i
    using assms(2) that by (cases "i = n") auto
  ultimately show ?thesis using assms(1) zero_run_mono [of words n best "Suc n"]
    by (auto simp: scan_inv_def zero_run_def)
qed

lemma zscan_inv:
  assumes "scan_inv words n best cur" "n \<le> m" "zscan words [n..<m] best cur = (best', cur')"
  shows "scan_inv words m best' cur'"
  using assms
proof (induction "m - n" arbitrary: n best cur)
  case (Suc k)
  then have step: "[n..<m] = n # [Suc n..<m]" "k = m - Suc n" "Suc n \<le> m" by (simp_all add: upt_conv_Cons)
  show ?case
  proof (cases "words ! n = 0")
    case True
    then show ?thesis using Suc.hyps(1) [OF step(2) scan_zero [OF Suc.prems(1) True] step(3)] Suc.prems step(1) by simp
  next
    case False
    have "scan_inv words (Suc n) (if zbase cur \<noteq> -1 then better best cur else best) (cur\<lparr>zbase := -1\<rparr>)"
      using Suc.prems(1) better_cases [of best cur] zero_run_mono [of words n _ "Suc n"]
      by (auto simp: scan_inv_def)
    then have "scan_inv words (Suc n) (if zbase cur \<noteq> -1 then better best cur else best)
        (if zbase cur \<noteq> -1 then cur\<lparr>zbase := -1\<rparr> else cur)"
      by (auto simp: scan_inv_def)
    then show ?thesis
      using Suc.hyps(1) [OF step(2) _ step(3)] Suc.prems(3) step(1) False by (auto split: if_splits)
  qed
qed simp

lemma best_run_zero:
  assumes "zbase (best_run words) \<noteq> -1"
  shows "zero_run words 8 (best_run words) \<and> 2 \<le> zlen (best_run words)"
proof -
  obtain best cur where z: "zscan words [0..<8] \<lparr>zbase = -1, zlen = 0\<rparr> \<lparr>zbase = -1, zlen = 0\<rparr> = (best, cur)"
    by fastforce
  have "scan_inv words 8 best cur" by (rule zscan_inv [OF _ _ z]) (simp_all add: scan_inv_def)
  then show ?thesis
    using assms better_cases [of best cur] by (auto simp: best_run_def z Let_def scan_inv_def split: if_splits)
qed

subsection \<open>The printed text\<close>

definition pieces :: "u32 list \<Rightarrow> string" where
  "pieces ws = concat (map (\<lambda>w. CHR '':'' # hex (unat w)) ws)"

lemma pieces_simps [simp]: "pieces [] = []" "pieces (w # ws) = CHR '':'' # hex (unat w) @ pieces ws"
  "pieces (us @ ws) = pieces us @ pieces ws"
  by (simp_all add: pieces_def)

lemma hex_pieces: "hex (unat w) @ pieces ws = groups (butlast (w # ws)) @ hex (unat (last (w # ws)))"
  by (induction ws arbitrary: w) simp_all

lemma pieces_groups: "ws \<noteq> [] \<Longrightarrow> pieces ws = CHR '':'' # groups (butlast ws) @ hex (unat (last ws))"
  by (cases ws) (simp_all add: hex_pieces del: butlast.simps last.simps)

lemma hex_length: "unat w < 65536 \<Longrightarrow> length (hex (unat (w :: u32))) \<le> 4"
  using print_length [of 16 "unat w" 3] by simp

definition wide :: "u32 list \<Rightarrow> bool" where
  "wide ws \<longleftrightarrow> length ws = 8 \<and> (\<forall>w\<in>set ws. unat w < 65536)"

lemma wide_nth: "wide ws \<Longrightarrow> i < 8 \<Longrightarrow> unat (ws ! i) < 65536"
  by (auto simp: wide_def)

text \<open>One word outside the run, then a range of them; 5 characters each.\<close>

lemma ntop6_word:
  assumes "wide ws" "\<not> in_run r i" "\<not> encapsulated4 ws r i" "i < 8" "length tmp \<le> 5 * i"
  shows "inet_ntop6_loop src ws r (i # is) tmp
         = inet_ntop6_loop src ws r is (tmp @ (if i = 0 then hex (unat (ws ! i)) else pieces [ws ! i]))"
    and "length (tmp @ (if i = 0 then hex (unat (ws ! i)) else pieces [ws ! i])) \<le> 5 * Suc i"
  using assms hex_length [OF wide_nth [OF assms(1,4)]]
  by (auto simp: put6_def sprintf6_def UV__INET6_ADDRSTRLEN_def)

lemma slice_Cons: "i < j \<Longrightarrow> j \<le> length ws \<Longrightarrow> drop i (take j ws) = ws ! i # drop (Suc i) (take j ws)"
  by (simp add: Cons_nth_drop_Suc [symmetric])

lemma ntop6_words:
  assumes "wide ws" "\<And>k. i \<le> k \<Longrightarrow> k < j \<Longrightarrow> \<not> in_run r k \<and> \<not> encapsulated4 ws r k"
    and "0 < i" "i \<le> j" "j \<le> 8" "length tmp \<le> 5 * i"
  shows "inet_ntop6_loop src ws r ([i..<j] @ is) tmp
         = inet_ntop6_loop src ws r is (tmp @ pieces (drop i (take j ws)))
         \<and> length (tmp @ pieces (drop i (take j ws))) \<le> 5 * j"
  using assms(2-)
proof (induction "j - i" arbitrary: i tmp)
  case (Suc n)
  then have ij: "i < j" "n = j - Suc i" by simp_all
  have out: "\<not> in_run r i" "\<not> encapsulated4 ws r i" using Suc.prems(1) [of i] ij(1) by simp_all
  have split: "drop i (take j ws) = ws ! i # drop (Suc i) (take j ws)"
    using ij(1) Suc.prems(4) assms(1) by (simp add: slice_Cons wide_def)
  have "length (tmp @ pieces [ws ! i]) \<le> 5 * Suc i"
    and eq: "inet_ntop6_loop src ws r ([i..<j] @ is) tmp
             = inet_ntop6_loop src ws r ([Suc i..<j] @ is) (tmp @ pieces [ws ! i])"
    using ntop6_word(1) [OF assms(1) out, of tmp src "[Suc i..<j] @ is"]
      ntop6_word(2) [OF assms(1) out, of tmp] Suc.prems ij(1)
    by (simp_all add: upt_conv_Cons del: inet_ntop6_loop.simps)
  then show ?case
    using Suc.hyps(1) [OF ij(2), of "tmp @ pieces [ws ! i]"] Suc.prems ij(1) by (simp add: split)
qed simp

lemma ntop6_run:
  assumes "\<And>k. i \<le> k \<Longrightarrow> k < j \<Longrightarrow> in_run r k \<and> int k \<noteq> zbase r"
  shows "inet_ntop6_loop src ws r ([i..<j] @ is) tmp = inet_ntop6_loop src ws r is tmp"
  using assms
proof (induction "j - i" arbitrary: i)
  case (Suc n)
  then have ij: "i < j" "n = j - Suc i" by simp_all
  have "inet_ntop6_loop src ws r ([Suc i..<j] @ is) tmp = inet_ntop6_loop src ws r is tmp"
    using Suc.hyps(1) [OF ij(2)] Suc.prems by simp
  moreover have "[i..<j] = i # [Suc i..<j]" using ij(1) by (simp add: upt_conv_Cons)
  ultimately show ?case using Suc.prems [of i] ij(1) by simp
qed simp

text \<open>The run itself prints one colon.\<close>

lemma ntop6_whole_run:
  assumes "zbase r = int k" "zlen r = int l" "0 < l" "length tmp < 46"
  shows "inet_ntop6_loop src ws r ([k..<k + l] @ is) tmp = inet_ntop6_loop src ws r is (tmp @ '':'')"
proof -
  have "[k..<k + l] = k # [Suc k..<k + l]" using assms(3) by (simp add: upt_conv_Cons)
  moreover have "in_run r k" using assms by (simp add: in_run_def)
  ultimately show ?thesis
    using assms ntop6_run [of "Suc k" "k + l" r src ws "is" "tmp @ '':''"]
    by (simp add: in_run_def put6_def UV__INET6_ADDRSTRLEN_def)
qed

text \<open>The words from the first on.\<close>

lemma ntop6_prefix:
  assumes "wide ws" "\<And>k. k < j \<Longrightarrow> \<not> in_run r k \<and> \<not> encapsulated4 ws r k" "0 < j" "j \<le> 8"
  shows "inet_ntop6_loop src ws r ([0..<j] @ is) []
         = inet_ntop6_loop src ws r is (groups (butlast (take j ws)) @ hex (unat (last (take j ws))))
         \<and> length (groups (butlast (take j ws)) @ hex (unat (last (take j ws)))) \<le> 5 * j"
proof -
  have "[0..<j] = 0 # [1..<j]" using assms(3) by (simp add: upt_conv_Cons)
  then have "inet_ntop6_loop src ws r ([0..<j] @ is) []
      = inet_ntop6_loop src ws r ([1..<j] @ is) (hex (unat (ws ! 0)))"
    using ntop6_word(1) [OF assms(1), of r 0 "[]" src "[1..<j] @ is"] assms(2) [of 0] assms(3) by simp
  moreover have "take j ws = ws ! 0 # drop 1 (take j ws)"
    using assms slice_Cons [of 0 j ws] by (simp add: wide_def)
  then have "groups (butlast (take j ws)) @ hex (unat (last (take j ws)))
      = hex (unat (ws ! 0)) @ pieces (drop 1 (take j ws))"
    using hex_pieces [of "ws ! 0" "drop 1 (take j ws)"] by simp
  moreover have "length (hex (unat (ws ! 0))) \<le> 5 * 1" using hex_length [OF wide_nth [OF assms(1), of 0]] by simp
  ultimately show ?thesis
    using ntop6_words [OF assms(1), of 1 j r "hex (unat (ws ! 0))" src "is"] assms(2-4) by simp
qed

subsection \<open>Words and bytes\<close>

definition word6 :: "u8 \<Rightarrow> u8 \<Rightarrow> u32" where
  "word6 x y = push_bit 8 (ucast x) OR ucast y"

lemma words6_prefix:
  "n \<le> m \<Longrightarrow>
   foldl (\<lambda>words i. words[i div 2 := words ! (i div 2) OR push_bit ((1 - i mod 2) * 8) (ucast (b ! i))])
     (replicate m 0) [0..<2 * n]
   = map (\<lambda>i. word6 (b ! (2 * i)) (b ! (2 * i + 1))) [0..<n] @ replicate (m - n) 0"
proof (induction n)
  case (Suc n)
  have "[0..<2 * Suc n] = [0..<2 * n] @ [2 * n, Suc (2 * n)]" by simp
  moreover have "replicate (m - n) (0 :: u32) = 0 # replicate (m - Suc n) 0"
    using Suc.prems by (metis Suc_diff_le diff_Suc_Suc replicate_Suc)
  moreover have "[0..<Suc n] = [0..<n] @ [n]" by simp
  ultimately show ?case
    using Suc by (simp add: word6_def list_update_append nth_append del: upt_Suc replicate.simps)
qed simp

lemma words6_list:
  "words6 b = map (\<lambda>i. word6 (b ! (2 * i)) (b ! (2 * i + 1))) [0..<8]"
  using words6_prefix [of 8 8 b] by (simp add: words6_def)

lemma val_bytes_word6 [simp]: "val_bytes (word6 x y) = [x, y]"
proof -
  have "ucast (drop_bit 8 (word6 x y)) AND 0xff = x" "ucast (word6 x y) AND 0xff = y"
    by (rule bits8I; simp add: word6_def bit_simps impossible_bit)+
  then show ?thesis by (simp add: val_bytes_def)
qed

lemma word6_less: "unat (word6 x y) < 65536"
proof -
  have "take_bit 16 (word6 x y) = word6 x y"
    by (rule bit_word_eqI) (auto simp: word6_def bit_simps dest: bit_imp_le_length)
  then have "unat (word6 x y) = take_bit 16 (unat (word6 x y))" by (metis unsigned_take_bit_eq)
  then show ?thesis using take_bit_nat_less_exp [of 16 "unat (word6 x y)"] by simp
qed

lemma wide_words6: "wide (words6 b)"
  by (auto simp: wide_def words6_list word6_less)

lemma bytes6_words6: "length b = 16 \<Longrightarrow> bytes6 (words6 b) = b"
proof -
  have "bytes6 (map (\<lambda>i. word6 (b ! (2 * i)) (b ! (2 * i + 1))) [0..<n]) = take (2 * n) b"
    if "2 * n \<le> length b" for n using that by (induction n) (simp_all add: take_Suc_conv_app_nth)
  from this [of 8] show "length b = 16 \<Longrightarrow> ?thesis" by (simp add: words6_list)
qed

lemma bytes6_zero: "(\<And>w. w \<in> set ws \<Longrightarrow> w = 0) \<Longrightarrow> bytes6 ws = replicate (2 * length ws) 0"
proof (induction ws)
  case (Cons w ws)
  then have "w = 0" "bytes6 ws = replicate (2 * length ws) 0" by simp_all
  then show ?case by (simp add: val_bytes_def)
qed simp

lemma spread6_run:
  assumes "wide ws" "k + l \<le> 8" "\<And>i. k \<le> i \<Longrightarrow> i < k + l \<Longrightarrow> ws ! i = 0"
  shows "spread6 (bytes6 (take k ws) @ bytes6 (drop (k + l) ws)) (Some (2 * k)) = bytes6 ws"
proof -
  have "bytes6 (take l (drop k ws)) = replicate (2 * length (take l (drop k ws))) 0"
    by (rule bytes6_zero) (use assms in \<open>auto simp: wide_def in_set_conv_nth\<close>)
  moreover have "ws = take k ws @ take l (drop k ws) @ drop (k + l) ws"
    by (metis append_take_drop_id drop_drop add.commute)
  then have "bytes6 ws = bytes6 (take k ws) @ bytes6 (take l (drop k ws)) @ bytes6 (drop (k + l) ws)"
    by (metis bytes6_simps(3))
  ultimately show ?thesis using assms by (auto simp: spread6_def wide_def)
qed

subsection \<open>What may follow the double colon\<close>

definition tail6 :: "string \<Rightarrow> u32 list \<Rightarrow> bool" where
  "tail6 R post \<longleftrightarrow> (\<forall>B c. complete6 (B @ bytes6 post) c \<longrightarrow>
     finish6 R (p6_at B c R) = Inr (Inr (spread6 (B @ bytes6 post) c)))"

lemma complete6_le: "complete6 B c \<Longrightarrow> length B \<le> 16"
  by (auto simp: complete6_def split: option.splits)

lemma tail6_Nil: "tail6 [] []"
  by (simp add: tail6_def finish6_Nil)

lemma tail6_groups:
  assumes "tail6 R post" "\<forall>w\<in>set ws. unat w < 65536" "R \<noteq> []"
  shows "tail6 (groups ws @ R) (ws @ post)"
  unfolding tail6_def
proof (intro allI impI)
  fix B c
  assume c: "complete6 (B @ bytes6 (ws @ post)) c"
  have "finish6 (groups ws @ R) (p6_at B c (groups ws @ R)) = finish6 R (p6_at (B @ bytes6 ws) c R)"
    using pton6_groups [OF assms(2) _ assms(3), of B c] complete6_le [OF c] by (simp add: finish6_def)
  then show "finish6 (groups ws @ R) (p6_at B c (groups ws @ R)) = Inr (Inr (spread6 (B @ bytes6 (ws @ post)) c))"
    using assms(1) c by (simp add: tail6_def)
qed

lemma tail6_hex: "unat w < 65536 \<Longrightarrow> tail6 (hex (unat w)) [w]"
  by (simp add: tail6_def finish6_hex)

lemma tail6_dotted: "length b = 4 \<Longrightarrow> bytes6 post = b \<Longrightarrow> tail6 (inet_fmt4 b) post"
  by (auto simp: tail6_def finish6_dotted)

lemma tail6_words:
  assumes "\<forall>w\<in>set post. unat w < 65536" "post \<noteq> []"
  shows "tail6 (groups (butlast post) @ hex (unat (last post))) post"
  using tail6_groups [OF tail6_hex [of "last post"], of "butlast post"] assms
  by (simp add: in_set_butlastD)

lemma print_digits: "1 < b \<Longrightarrow> b \<le> 16 \<Longrightarrow> set (print_base b n) \<subseteq> set xdigits_l"
proof (induction n rule: less_induct)
  case (less n)
  show ?case
  proof (cases "n < b")
    case False
    have "n mod b < b" using less.prems by (intro mod_less_divisor) simp
    then have "n mod b < length xdigits_l" using less.prems(2) by (simp only: length_xdigits)
    then have "xdigits_l ! (n mod b) \<in> set xdigits_l" by (rule nth_mem)
    moreover have "n div b < n" using less.prems False by simp
    ultimately show ?thesis using less False by (simp add: print_split)
  next
    case True
    then have "n < length xdigits_l" using less.prems(2) by (simp only: length_xdigits)
    then show ?thesis using True by (simp add: print_small)
  qed
qed

lemma hex_first: "(hex n @ s) ! 0 \<noteq> CHR '':''"
proof -
  have "hex n ! 0 \<in> set (hex n)" by (rule nth_mem) simp
  then have "hex n ! 0 \<in> set xdigits_l" using print_digits [of 16 n] by auto
  then show ?thesis by (auto simp: nth_append xdigits_l_def)
qed

lemma pton6_of_text:
  assumes "wide ws" "k + l \<le> 8" "0 < l" "\<And>i. k \<le> i \<Longrightarrow> i < k + l \<Longrightarrow> ws ! i = 0" "tail6 R (drop (k + l) ws)"
  shows "inet_pton6 ((if k = 0 then '':'' else groups (take k ws)) @ CHR '':'' # R) = Inr (Inr (bytes6 ws))"
proof -
  let ?s = "groups (take k ws) @ CHR '':'' # R"
  have len: "length (bytes6 (take k ws)) = 2 * k" "2 * k \<le> 16" using assms by (auto simp: wide_def)
  have "\<forall>w\<in>set (take k ws). unat w < 65536" using assms(1) by (auto simp: wide_def dest: in_set_takeD)
  then have "inet_pton6_body ?s = finish6 R (p6_at (bytes6 (take k ws)) (Some (2 * k)) R)"
    using pton6_groups [of "take k ws" "[]" "CHR '':'' # R" None] len pton6_colon [of R "bytes6 (take k ws)"] assms(1,2)
    by (simp add: body_finish6 finish6_def wide_def del: inet_pton6_loop.simps)
  also have "\<dots> = Inr (Inr (bytes6 ws))"
    using assms(5) spread6_run [OF assms(1,2,4)] len assms(1-3)
    by (simp add: tail6_def complete6_def wide_def)
  finally have body: "inet_pton6_body ?s = Inr (Inr (bytes6 ws))" .
  show ?thesis
  proof (cases "k = 0")
    case False
    then obtain w us where "take k ws = w # us" using assms(1) by (cases "take k ws") (auto simp: wide_def)
    then show ?thesis
      using body False hex_first [of "unat w"] by (simp add: inet_pton6_def)
  qed (use body in \<open>simp add: inet_pton6_def\<close>)
qed

subsection \<open>The text of an address and its reading\<close>

definition plain6 :: "string \<Rightarrow> bool" where
  "plain6 s \<longleftrightarrow> set s \<subseteq> set xdigits_l \<union> {CHR '':'', CHR ''.''}"

lemma plain6_simps [simp]:
  "plain6 []" "plain6 (s @ t) \<longleftrightarrow> plain6 s \<and> plain6 t"
  "plain6 (CHR '':'' # s) \<longleftrightarrow> plain6 s" "plain6 (CHR ''.'' # s) \<longleftrightarrow> plain6 s"
  "plain6 (hex n)" "plain6 (dec n)"
  using print_digits [of 16 n] print_digits [of 10 n] by (auto simp: plain6_def)

lemma plain6_groups [simp]: "plain6 (groups ws)"
  by (induction ws) simp_all

lemma plain6_pieces [simp]: "plain6 (pieces ws)"
  by (induction ws) simp_all

lemma plain6_fmt4 [simp]: "plain6 (inet_fmt4 b)"
  by (simp add: inet_fmt4_def)

lemma plain6_not: "plain6 s \<Longrightarrow> c \<notin> set xdigits_l \<Longrightarrow> c \<noteq> CHR '':'' \<Longrightarrow> c \<noteq> CHR ''.'' \<Longrightarrow> c \<notin> set s"
  by (auto simp: plain6_def)

lemma cstr_plain: "plain6 s \<Longrightarrow> cstr (s @ NUL # t) = s"
proof -
  assume "plain6 s"
  then have "NUL \<notin> set s" by (rule plain6_not) (simp_all add: NUL_def xdigits_l_def)
  then have "\<forall>c\<in>set s. c \<noteq> NUL" by auto
  then show ?thesis by (simp add: cstr_def takeWhile_append2)
qed

lemma strchr_None: "c \<notin> set s \<Longrightarrow> strchr s c = None"
  by (induction s) auto

lemma percent_plain: "plain6 s \<Longrightarrow> strchr s (CHR ''%'') = None"
  by (rule strchr_None, rule plain6_not) (simp_all add: xdigits_l_def)

lemma fmt4_length: "length (inet_fmt4 b) \<le> 15" "7 \<le> length (inet_fmt4 b)"
proof -
  have "length (dec (unat (x :: u8))) \<le> 3" for x
  proof -
    have "unat x < 2 ^ LENGTH(8)" by (rule unsigned_less)
    then show ?thesis using print_length [of 10 "unat x" 2] by simp
  qed
  note a = this [of "b ! 0"] this [of "b ! 1"] this [of "b ! 2"] this [of "b ! 3"]
  show "length (inet_fmt4 b) \<le> 15" using a by (simp add: inet_fmt4_def)
  have "length (dec n) \<ge> 1" for n using print_not_Nil [of 10 n] by (cases "dec n") auto
  note b = this [of "unat (b ! 0)"] this [of "unat (b ! 1)"] this [of "unat (b ! 2)"] this [of "unat (b ! 3)"]
  show "7 \<le> length (inet_fmt4 b)" using b by (simp add: inet_fmt4_def)
qed

lemma ntop4_ok:
  assumes "4 \<le> length b" "16 \<le> sz"
  shows "inet_ntop4 b sz = Inr (Inr (inet_fmt4 (take 4 b) @ NUL # replicate (sz - length (inet_fmt4 (take 4 b)) - 1) NUL))"
proof -
  let ?s = "inet_fmt4 (take 4 b)"
  have l: "length ?s \<le> 15" "7 \<le> length ?s" by (rule fmt4_length)+
  then obtain k where k: "sz = length ?s + Suc k"
    using assms less_imp_Suc_add [of "length ?s" sz] by auto
  have "(?s @ replicate (Suc k) NUL)[length ?s + k := NUL] = ?s @ replicate (Suc k) NUL"
    by (intro list_update_same_conv [THEN iffD2]) (auto simp: nth_append simp del: replicate.simps)
  moreover have "?s \<noteq> []" using l(2) by auto
  ultimately show ?thesis using l assms unfolding k
    by (simp add: inet_ntop4_def mem_read_def Let_def UV__INET_ADDRSTRLEN_def mem_set_def)
qed

text \<open>No run: eight groups.\<close>

lemma ntop6_no_run:
  assumes "length b = 16" "zbase (best_run (words6 b)) = -1"
  defines "t \<equiv> groups (butlast (words6 b)) @ hex (unat (last (words6 b)))"
  shows "inet_ntop6_loop b (words6 b) (best_run (words6 b)) [0..<8] [] = Inr (Inr t)" "length t \<le> 40"
    and "inet_pton6 t = Inr (Inr b)"
proof -
  let ?ws = "words6 b"
  have w: "wide ?ws" by (rule wide_words6)
  then have len: "length ?ws = 8" by (simp add: wide_def)
  have "\<not> in_run (best_run ?ws) k \<and> \<not> encapsulated4 ?ws (best_run ?ws) k" for k
    using assms(2) by (simp add: in_run_def encapsulated4_def)
  then show "inet_ntop6_loop b ?ws (best_run ?ws) [0..<8] [] = Inr (Inr t)" "length t \<le> 40"
    using ntop6_prefix [OF w, of 8 "best_run ?ws" b "[]"] len by (simp_all add: t_def)
  have ws: "?ws \<noteq> []" "\<forall>w\<in>set ?ws. unat w < 65536" using w by (auto simp: wide_def)
  have "complete6 (bytes6 ?ws) None" by (simp add: complete6_def len)
  then have "finish6 t (p6_at [] None t) = Inr (Inr (bytes6 ?ws))"
    using tail6_words [OF ws(2,1)] by (simp add: tail6_def t_def spread6_def)
  then have "inet_pton6_body t = Inr (Inr b)" by (simp add: body_finish6 bytes6_words6 assms(1))
  moreover have "t ! 0 \<noteq> CHR '':''"
    using hex_pieces [of "hd ?ws" "tl ?ws"] hex_first [of "unat (hd ?ws)" "pieces (tl ?ws)"] ws(1) by (simp add: t_def)
  ultimately show "inet_pton6 t = Inr (Inr b)" by (simp add: inet_pton6_def)
qed


text \<open>A run: one of the forms after the double colon.\<close>

definition printed6 :: "u8 list \<Rightarrow> string \<Rightarrow> bool" where
  "printed6 b t \<longleftrightarrow> (\<exists>tmp. inet_ntop6_loop b (words6 b) (best_run (words6 b)) [0..<8] [] = Inr (Inr tmp)
      \<and> trailing6 (best_run (words6 b)) tmp = Inr t)"

lemma bytes6_drop: "bytes6 (drop n ws) = drop (2 * n) (bytes6 ws)"
proof (cases "n \<le> length ws")
  case True
  have "bytes6 ws = bytes6 (take n ws) @ bytes6 (drop n ws)" by (metis append_take_drop_id bytes6_simps(3))
  then show ?thesis using True by simp
qed simp

lemma ntop6_encapsulated:
  assumes "length b = 16" "encapsulated4 ws r 6" "\<not> in_run r 6" "length tmp \<le> 10"
  shows "inet_ntop6_loop b ws r (6 # is) tmp = Inr (Inr (tmp @ CHR '':'' # inet_fmt4 (drop 12 b)))"
  using assms ntop4_ok [of "drop 12 b" "45 - length tmp"]
  by (simp add: put6_def UV__INET6_ADDRSTRLEN_def cstr_plain)

lemma ntop6_suffix_words:
  assumes "zbase r = int k" "zlen r = int l" "k + l < 8" "2 \<le> l" "length tmp \<le> 5 * k + 1"
    and "\<not> encapsulated4 ws r 6 \<or> 6 < k + l" "wide ws"
  shows "\<exists>R tmp'. tail6 R (drop (k + l) ws) \<and> plain6 R \<and> length (tmp @ R) \<le> 44 \<and>
           inet_ntop6_loop b ws r [k + l..<8] tmp = Inr (Inr tmp') \<and>
           trailing6 r tmp' = Inr (tmp @ CHR '':'' # R)"
proof -
  let ?post = "drop (k + l) ws"
  have post: "?post \<noteq> []" "\<forall>w\<in>set ?post. unat w < 65536"
    using assms(3,7) by (auto simp: wide_def dest: in_set_dropD)
  have len: "length tmp \<le> 5 * (k + l)" "take 8 ws = ws" using assms(4,5,7) by (simp_all add: wide_def)
  have "\<not> in_run r i \<and> \<not> encapsulated4 ws r i" if "k + l \<le> i" for i
    using that assms(1,2,6) by (auto simp: in_run_def encapsulated4_def)
  then have "inet_ntop6_loop b ws r [k + l..<8] tmp = Inr (Inr (tmp @ pieces ?post))" "length (tmp @ pieces ?post) \<le> 40"
    using ntop6_words [OF assms(7), of "k + l" 8 r tmp b "[]"] len assms(3,4) by simp_all
  moreover have "trailing6 r x = Inr x" for x using assms(1-3) by (simp add: trailing6_def)
  ultimately show ?thesis
    using tail6_words [OF post(2,1)] pieces_groups [OF post(1)]
    by (intro exI [of _ "groups (butlast ?post) @ hex (unat (last ?post))"] exI [of _ "tmp @ pieces ?post"]) simp
qed

lemma ntop6_suffix_dotted:
  assumes "length b = 16" "zbase r = 0" "zlen r = int l" "length tmp \<le> 1" "l = 5 \<or> l = 6"
    and "encapsulated4 (words6 b) r 6"
  shows "\<exists>R tmp'. tail6 R (drop l (words6 b)) \<and> plain6 R \<and> length (tmp @ R) \<le> 44 \<and>
           inet_ntop6_loop b (words6 b) r [l..<8] tmp = Inr (Inr tmp') \<and>
           trailing6 r tmp' = Inr (tmp @ CHR '':'' # R)"
proof -
  let ?ws = "words6 b" and ?f = "inet_fmt4 (drop 12 b)"
  have w: "wide ?ws" by (rule wide_words6)
  have w5: "unat (?ws ! 5) < 65536" by (rule wide_nth [OF w]) simp
  have out: "\<not> in_run r 6" using assms(2,3,5) by (auto simp: in_run_def)
  have tr: "trailing6 r x = Inr x" for x using assms(2,3,5) by (auto simp: trailing6_def)
  have t: "tail6 ?f (drop 6 ?ws)"
    by (rule tail6_dotted) (use assms(1) in \<open>simp_all add: bytes6_drop bytes6_words6\<close>)
  have f: "length ?f \<le> 15" "?f \<noteq> []" using fmt4_length [of "drop 12 b"] by auto
  show ?thesis
  proof (cases "l = 6")
    case True
    have "[6..<8] = [6, 7]" by (simp add: upt_rec)
    then have "inet_ntop6_loop b ?ws r [6..<8] tmp = Inr (Inr (tmp @ CHR '':'' # ?f))"
      using ntop6_encapsulated [OF assms(1,6) out] assms(4) by simp
    then show ?thesis using True t f assms(4) tr by (intro exI [of _ ?f] exI [of _ "tmp @ CHR '':'' # ?f"]) simp
  next
    case False
    then have l: "l = 5" using assms(5) by simp
    have out5: "\<not> in_run r 5" "\<not> encapsulated4 ?ws r 5" using assms(2,3) l by (simp_all add: in_run_def encapsulated4_def)
    have "[5..<8] = 5 # 6 # [7..<8]" by (simp add: upt_rec)
    moreover have "length (tmp @ pieces [?ws ! 5]) \<le> 10" using hex_length [OF w5] assms(4) by simp
    ultimately have "inet_ntop6_loop b ?ws r [5..<8] tmp = Inr (Inr (tmp @ CHR '':'' # groups [?ws ! 5] @ ?f))"
      using ntop6_word(1) [OF w out5, of tmp b "6 # [7..<8]"] assms(4)
        ntop6_encapsulated [OF assms(1,6) out, of "tmp @ pieces [?ws ! 5]" "[7..<8]"]
      by (simp del: inet_ntop6_loop.simps)
    moreover have "drop 5 ?ws = [?ws ! 5] @ drop 6 ?ws"
      using w Cons_nth_drop_Suc [of 5 ?ws] by (simp add: wide_def)
    then have "tail6 (groups [?ws ! 5] @ ?f) (drop 5 ?ws)"
      using tail6_groups [OF t, of "[?ws ! 5]"] w5 f(2) by simp
    moreover have "length (tmp @ groups [?ws ! 5] @ ?f) \<le> 44" using hex_length [OF w5] f(1) assms(4) by simp
    ultimately show ?thesis using l tr
      by (intro exI [of _ "groups [?ws ! 5] @ ?f"] exI [of _ "tmp @ CHR '':'' # groups [?ws ! 5] @ ?f"]) simp
  qed
qed

lemma ntop6_suffix:
  assumes "length b = 16" "zbase r = int k" "zlen r = int l" "k + l \<le> 8" "2 \<le> l" "length tmp \<le> 5 * k + 1"
  shows "\<exists>R tmp'. tail6 R (drop (k + l) (words6 b)) \<and> plain6 R \<and> length (tmp @ R) \<le> 44 \<and>
           inet_ntop6_loop b (words6 b) r [k + l..<8] tmp = Inr (Inr tmp') \<and>
           trailing6 r tmp' = Inr (tmp @ CHR '':'' # R)"
proof (cases "k + l = 8")
  case True
  have "drop 8 (words6 b) = []" using wide_words6 [of b] by (simp add: wide_def)
  moreover have "length tmp \<le> 31" "zbase r + zlen r = 8" using assms True by auto
  ultimately show ?thesis using True assms(2)
    by (intro exI [of _ "[]"] exI [of _ tmp])
      (simp add: tail6_Nil trailing6_def put6_def UV__INET6_ADDRSTRLEN_def)
next
  case False
  show ?thesis
  proof (cases "encapsulated4 (words6 b) r 6 \<and> k + l \<le> 6")
    case True
    then have "k = 0" "l = 5 \<or> l = 6" using assms(2,3) by (auto simp: encapsulated4_def)
    then show ?thesis using ntop6_suffix_dotted [OF assms(1) _ assms(3), of tmp] assms True by simp
  next
    case F: False
    show ?thesis
      by (rule ntop6_suffix_words [OF assms(2,3) _ assms(5,6) _ wide_words6]) (use F False assms(4) in auto)
  qed
qed

lemma ntop6_before_run:
  assumes "wide ws" "zbase r = int k" "zlen r = int l" "k + l \<le> 8" "2 \<le> l"
  defines "pre \<equiv> if k = 0 then '':'' else groups (take k ws)"
  shows "inet_ntop6_loop b ws r [0..<8] [] = inet_ntop6_loop b ws r [k + l..<8] pre \<and> length pre \<le> 5 * k + 1"
proof -
  have split: "[0..<8] = [0..<k] @ [k..<k + l] @ [k + l..<8]"
    using assms(4) upt_add_eq_append [of 0 "k + l" "8 - (k + l)"] upt_add_eq_append [of 0 k l] by simp
  show ?thesis
  proof (cases "k = 0")
    case True
    then show ?thesis
      using ntop6_whole_run [OF assms(2,3), of "[]" b ws "[k + l..<8]"] assms(5) by (simp add: split pre_def)
  next
    case False
    have out: "\<not> in_run r i \<and> \<not> encapsulated4 ws r i" if "i < k" for i
      using that assms(2) False by (simp add: in_run_def encapsulated4_def)
    let ?a = "groups (butlast (take k ws)) @ hex (unat (last (take k ws)))"
    have k8: "0 < k" "k \<le> 8" using False assms(4) by simp_all
    have "take k ws = butlast (take k ws) @ [last (take k ws)]"
      using k8 assms(1) by (intro append_butlast_last_id [symmetric]) (auto simp: wide_def)
    then have g: "?a @ '':'' = pre" using groups_simps(3) [of "butlast (take k ws)" "[last (take k ws)]"] False
      by (simp add: pre_def)
    have p: "inet_ntop6_loop b ws r [0..<8] [] = inet_ntop6_loop b ws r ([k..<k + l] @ [k + l..<8]) ?a"
      "length ?a \<le> 5 * k"
      using ntop6_prefix [OF assms(1) out k8, of b "[k..<k + l] @ [k + l..<8]"] by (simp_all add: split)
    have "length ?a < 46" using p(2) k8 by simp
    then have "inet_ntop6_loop b ws r [0..<8] [] = inet_ntop6_loop b ws r [k + l..<8] (?a @ '':'')"
      using ntop6_whole_run [OF assms(2,3), of ?a b ws "[k + l..<8]"] p(1) assms(5) by simp
    moreover have "length pre \<le> 5 * k + 1" using p(2) arg_cong [OF g, of length] by simp
    ultimately show ?thesis by (simp add: g del: append_assoc)
  qed
qed

lemma ntop6_with_run:
  assumes "length b = 16" "zbase (best_run (words6 b)) \<noteq> -1"
  shows "\<exists>t. plain6 t \<and> length t \<le> 45 \<and> inet_pton6 t = Inr (Inr b) \<and> printed6 b t"
proof -
  let ?ws = "words6 b" and ?r = "best_run (words6 b)"
  have w: "wide ?ws" by (rule wide_words6)
  have z: "zero_run ?ws 8 ?r" "2 \<le> zlen ?r" using best_run_zero assms(2) by blast+
  then have nn: "0 \<le> zbase ?r" "0 \<le> zlen ?r" by (simp_all add: zero_run_def)
  obtain k where k: "zbase ?r = int k" using nn(1) by (rule nonneg_int_cases)
  obtain l where l: "zlen ?r = int l" using nn(2) by (rule nonneg_int_cases)
  have bd: "k + l \<le> 8" "2 \<le> l" and zero: "\<And>i. k \<le> i \<Longrightarrow> i < k + l \<Longrightarrow> ?ws ! i = 0"
    using z by (auto simp: zero_run_def k l)
  let ?pre = "if k = 0 then '':'' else groups (take k ?ws)"
  have pre: "inet_ntop6_loop b ?ws ?r [0..<8] [] = inet_ntop6_loop b ?ws ?r [k + l..<8] ?pre" "length ?pre \<le> 5 * k + 1"
    using ntop6_before_run [OF w k l bd] by blast+
  obtain R tmp' where R: "tail6 R (drop (k + l) ?ws)" "plain6 R" "length (?pre @ R) \<le> 44"
    "inet_ntop6_loop b ?ws ?r [k + l..<8] ?pre = Inr (Inr tmp')" "trailing6 ?r tmp' = Inr (?pre @ CHR '':'' # R)"
    using ntop6_suffix [OF assms(1) k l bd pre(2)] by blast
  have "inet_pton6 (?pre @ CHR '':'' # R) = Inr (Inr b)"
    using pton6_of_text [OF w bd(1) _ zero R(1)] bd(2) bytes6_words6 [OF assms(1)] by simp
  moreover have "printed6 b (?pre @ CHR '':'' # R)" unfolding printed6_def pre(1) using R(4,5) by blast
  moreover have "plain6 (?pre @ CHR '':'' # R)" "length (?pre @ CHR '':'' # R) \<le> 45" using R(2,3) by simp_all
  ultimately show ?thesis by blast
qed

lemma ntop6_text:
  assumes "length b = 16"
  shows "\<exists>t. plain6 t \<and> length t \<le> 45 \<and> inet_pton6 t = Inr (Inr b) \<and> printed6 b t"
proof (cases "zbase (best_run (words6 b)) = -1")
  case True
  then show ?thesis using ntop6_no_run [OF assms True]
    by (intro exI conjI) (auto simp: printed6_def trailing6_def)
qed (rule ntop6_with_run [OF assms])

text \<open>
  C15. Every IPv4 and IPv6 address is printed into a buffer of 46 bytes, ended by a 0,
  and reading the printed text gives the address back.  For IPv6 this covers the
  choice of the longest run of zero words, the run at the start, in the middle and at
  the end, and the dotted form of embedded IPv4 addresses.
\<close>

theorem inet_roundtrip:
  assumes "length b = (if af = AF_INET then 4 else 16)" "af \<noteq> AF_other" "46 \<le> sz"
  shows "\<exists>dst. uv_inet_ntop af b sz = Inr (Inr dst) \<and> length dst \<le> sz \<and> NUL \<in> set dst
           \<and> uv_inet_pton af (Some (cstr dst)) False = Inr (Inr b)"
proof (cases "af = AF_INET")
  case True
  then show ?thesis
    using assms ntop4_ok [of b sz] pton4_fmt4 [of b] fmt4_length(1) [of b]
    by (simp add: uv_inet_ntop_def uv_inet_pton_def cstr_plain)
next
  case False
  then have af: "af = AF_INET6" "length b = 16" using assms by (cases af; simp)+
  obtain t where t: "plain6 t" "length t \<le> 45" "inet_pton6 t = Inr (Inr b)" "printed6 b t"
    using ntop6_text [OF af(2)] by blast
  have "inet_ntop6 b sz = Inr (Inr (t @ [NUL]))"
    using t(2,4) assms(3) af(2)
    by (auto simp: printed6_def inet_ntop6_def mem_read_def Let_def put6_def UV__INET6_ADDRSTRLEN_def)
  then show ?thesis using assms(3) af t
    by (simp add: uv_inet_ntop_def uv_inet_pton_def cstr_plain percent_plain)
qed

theorem inet_roundtrip_witness:
  "\<exists>dst. uv_inet_ntop AF_INET6 [0,0,0,0,0,0,0,0,0,0,0xff,0xff,192,168,0,1] 46 = Inr (Inr dst)
     \<and> length dst \<le> 46 \<and> NUL \<in> set dst
     \<and> uv_inet_pton AF_INET6 (Some (cstr dst)) False = Inr (Inr [0,0,0,0,0,0,0,0,0,0,0xff,0xff,192,168,0,1])"
  by (rule inet_roundtrip) simp_all

end
