(* ===== verification/HeapInl.thy ===== *)
theory HeapInl
  imports UvTimer
begin

text \<open>
  The pointer heap of \<open>libuv/src/heap-inl.h\<close>, which holds the timers of a loop.  Nodes
  are named by their address; the memory maps an address to the three pointers of
  \<open>struct heap_node\<close>, and \<open>struct heap\<close> has the pointer to the root and the number of
  elements.  A \<open>struct heap_node**\<close> is a slot: the root pointer or a child pointer of a
  node.  Reading through a null pointer is a fault.  A heap stands for the list of its
  nodes in the order of their positions in the complete tree; the operations are shown
  to swap entries of that list, and so to keep the heap order, to add and remove exactly
  the given node, and to give the timers of \<open>UvTimer\<close> the least handle.
\<close>

type_synonym hnode = nat

record heap_node =
  h_left :: "hnode option"
  h_right :: "hnode option"
  h_parent :: "hnode option"

record heap =
  hp_min :: "hnode option"
  nelts :: u32
  hp_mem :: "hnode \<Rightarrow> heap_node"

datatype slot = Min_slot | Left_slot hnode | Right_slot hnode

section \<open>Pointers\<close>

definition deref :: "hnode option \<Rightarrow> hnode res" where
  "deref p = (case p of None \<Rightarrow> Inl Null_deref | Some x \<Rightarrow> Inr x)"

definition set_left :: "hnode \<Rightarrow> hnode option \<Rightarrow> heap \<Rightarrow> heap" where
  "set_left x v h = h\<lparr>hp_mem := (hp_mem h)(x := (hp_mem h x)\<lparr>h_left := v\<rparr>)\<rparr>"

definition set_right :: "hnode \<Rightarrow> hnode option \<Rightarrow> heap \<Rightarrow> heap" where
  "set_right x v h = h\<lparr>hp_mem := (hp_mem h)(x := (hp_mem h x)\<lparr>h_right := v\<rparr>)\<rparr>"

definition set_parent :: "hnode \<Rightarrow> hnode option \<Rightarrow> heap \<Rightarrow> heap" where
  "set_parent x v h = h\<lparr>hp_mem := (hp_mem h)(x := (hp_mem h x)\<lparr>h_parent := v\<rparr>)\<rparr>"

text \<open>\<open>if (p != NULL) p->parent = x\<close>.\<close>

definition set_parent_of :: "hnode option \<Rightarrow> hnode \<Rightarrow> heap \<Rightarrow> heap" where
  "set_parent_of p x h = (case p of None \<Rightarrow> h | Some y \<Rightarrow> set_parent y (Some x) h)"

definition read_slot :: "slot \<Rightarrow> heap \<Rightarrow> hnode option" where
  "read_slot s h = (case s of Min_slot \<Rightarrow> hp_min h
     | Left_slot x \<Rightarrow> h_left (hp_mem h x) | Right_slot x \<Rightarrow> h_right (hp_mem h x))"

definition write_slot :: "slot \<Rightarrow> hnode option \<Rightarrow> heap \<Rightarrow> heap" where
  "write_slot s v h = (case s of Min_slot \<Rightarrow> h\<lparr>hp_min := v\<rparr>
     | Left_slot x \<Rightarrow> set_left x v h | Right_slot x \<Rightarrow> set_right x v h)"

section \<open>The operations\<close>

definition heap_init :: "heap \<Rightarrow> heap" where
  "heap_init h = h\<lparr>hp_min := None, nelts := 0\<rparr>"

definition heap_root :: "heap \<Rightarrow> hnode option" where
  "heap_root h = hp_min h"

definition relink_parent :: "hnode \<Rightarrow> hnode \<Rightarrow> heap \<Rightarrow> heap" where
  "relink_parent old new h =
     (case h_parent (hp_mem h new) of
        None \<Rightarrow> h\<lparr>hp_min := Some new\<rparr>
      | Some g \<Rightarrow> if h_left (hp_mem h g) = Some old then set_left g (Some new) h
                  else set_right g (Some new) h)"

definition heap_node_swap :: "hnode \<Rightarrow> hnode \<Rightarrow> heap \<Rightarrow> heap" where
  "heap_node_swap parent child h =
     (let t = hp_mem h parent;
          h = h\<lparr>hp_mem := (hp_mem h)(parent := hp_mem h child)\<rparr>;
          h = h\<lparr>hp_mem := (hp_mem h)(child := t)\<rparr>;
          h = set_parent parent (Some child) h;
          (h, sibling) =
            (if h_left (hp_mem h child) = Some child
             then (let h = set_left child (Some parent) h in (h, h_right (hp_mem h child)))
             else (let h = set_right child (Some parent) h in (h, h_left (hp_mem h child))));
          h = set_parent_of sibling child h;
          h = set_parent_of (h_left (hp_mem h parent)) parent h;
          h = set_parent_of (h_right (hp_mem h parent)) parent h
      in relink_parent parent child h)"

text \<open>The path from the root to position \<open>n\<close>, its first step in the lowest bit.\<close>

function path_loop :: "u32 \<Rightarrow> nat \<Rightarrow> u32 \<Rightarrow> u32 \<times> nat" where
  "path_loop n k path =
     (if n \<ge> 2 then path_loop (n div 2) (k + 1) (push_bit 1 path OR (n AND 1)) else (path, k))"
  by auto
termination
proof (relation "measure (\<lambda>(n, k, path). unat n)")
  fix n :: u32 and k :: nat and path :: u32
  assume "2 \<le> n"
  then have "2 \<le> unat n" by (simp add: word_le_nat_alt)
  then show "((n div 2, k + 1, push_bit 1 path OR (n AND 1)), n, k, path) \<in> measure (\<lambda>(n, k, path). unat n)"
    by (simp add: unat_div)
qed simp

declare path_loop.simps [simp del]

fun walk :: "nat \<Rightarrow> u32 \<Rightarrow> slot \<Rightarrow> slot \<Rightarrow> heap \<Rightarrow> (slot \<times> slot) res" where
  "walk 0 path parent child h = Inr (parent, child)"
| "walk (Suc k) path parent child h =
     res_bind (deref (read_slot child h)) (\<lambda>x.
       walk k (drop_bit 1 path) child (if path AND 1 \<noteq> 0 then Right_slot x else Left_slot x) h)"

fun up_loop :: "(hnode \<Rightarrow> hnode \<Rightarrow> bool) \<Rightarrow> nat \<Rightarrow> hnode \<Rightarrow> heap \<Rightarrow> heap res" where
  "up_loop lt 0 node h = Inl Out_of_fuel"
| "up_loop lt (Suc fuel) node h =
     (case h_parent (hp_mem h node) of
        None \<Rightarrow> Inr h
      | Some p \<Rightarrow> if lt node p then up_loop lt fuel node (heap_node_swap p node h) else Inr h)"

definition heap_insert :: "(hnode \<Rightarrow> hnode \<Rightarrow> bool) \<Rightarrow> hnode \<Rightarrow> heap \<Rightarrow> heap res" where
  "heap_insert lt newnode h =
     (let h = set_parent newnode None (set_right newnode None (set_left newnode None h));
          (path, k) = path_loop (1 + nelts h) 0 0
      in res_bind (walk k path Min_slot Min_slot h) (\<lambda>(parent, child).
           let h = set_parent newnode (read_slot parent h) h;
               h = write_slot child (Some newnode) h;
               h = h\<lparr>nelts := nelts h + 1\<rparr>
           in up_loop lt (unat (nelts h) + 1) newnode h))"

definition smaller_child :: "(hnode \<Rightarrow> hnode \<Rightarrow> bool) \<Rightarrow> hnode option \<Rightarrow> hnode \<Rightarrow> hnode" where
  "smaller_child lt c smallest =
     (case c of None \<Rightarrow> smallest | Some x \<Rightarrow> if lt x smallest then x else smallest)"

fun down_loop :: "(hnode \<Rightarrow> hnode \<Rightarrow> bool) \<Rightarrow> nat \<Rightarrow> hnode \<Rightarrow> heap \<Rightarrow> heap res" where
  "down_loop lt 0 child h = Inl Out_of_fuel"
| "down_loop lt (Suc fuel) child h =
     (let smallest = smaller_child lt (h_left (hp_mem h child)) child;
          smallest = smaller_child lt (h_right (hp_mem h child)) smallest
      in if smallest = child then Inr h
         else down_loop lt fuel child (heap_node_swap child smallest h))"

text \<open>\<open>child\<close> takes the place of \<open>node\<close>.\<close>

definition replace_node :: "hnode \<Rightarrow> hnode \<Rightarrow> heap \<Rightarrow> heap" where
  "replace_node node child h =
     (let h = set_left child (h_left (hp_mem h node)) h;
          h = set_right child (h_right (hp_mem h node)) h;
          h = set_parent child (h_parent (hp_mem h node)) h;
          h = set_parent_of (h_left (hp_mem h child)) child h;
          h = set_parent_of (h_right (hp_mem h child)) child h
      in case h_parent (hp_mem h node) of
           None \<Rightarrow> h\<lparr>hp_min := Some child\<rparr>
         | Some g \<Rightarrow> if h_left (hp_mem h g) = Some node then set_left g (Some child) h
                     else set_right g (Some child) h)"

definition heap_remove :: "(hnode \<Rightarrow> hnode \<Rightarrow> bool) \<Rightarrow> hnode \<Rightarrow> heap \<Rightarrow> heap res" where
  "heap_remove lt node h =
     (if nelts h = 0 then Inr h
      else let (path, k) = path_loop (nelts h) 0 0
           in res_bind (walk k path Min_slot Min_slot h) (\<lambda>(_, max).
                let h = h\<lparr>nelts := nelts h - 1\<rparr>;
                    child = read_slot max h;
                    h = write_slot max None h
                in if child = Some node
                   then Inr (if child = hp_min h then h\<lparr>hp_min := None\<rparr> else h)
                   else res_bind (deref child) (\<lambda>child.
                          let h = replace_node node child h
                          in res_bind (down_loop lt (unat (nelts h) + 1) child h)
                               (up_loop lt (unat (nelts h) + 1) child))))"

definition heap_dequeue :: "(hnode \<Rightarrow> hnode \<Rightarrow> bool) \<Rightarrow> heap \<Rightarrow> heap res" where
  "heap_dequeue lt h =
     (if nelts h = 0 then Inr h
      else res_bind (deref (heap_root h)) (\<lambda>m. heap_remove lt m h))"

section \<open>The list a heap stands for\<close>

definition nd :: "hnode list \<Rightarrow> nat \<Rightarrow> hnode" where
  "nd xs p = xs ! (p - 1)"

definition at :: "hnode list \<Rightarrow> nat \<Rightarrow> hnode option" where
  "at xs p = (if 1 \<le> p \<and> p \<le> length xs then Some (nd xs p) else None)"

definition swap_at :: "hnode list \<Rightarrow> nat \<Rightarrow> nat \<Rightarrow> hnode list" where
  "swap_at xs p q = xs[p - 1 := nd xs q, q - 1 := nd xs p]"

definition links :: "heap \<Rightarrow> hnode list \<Rightarrow> bool" where
  "links h xs \<longleftrightarrow> distinct xs \<and> hp_min h = at xs 1 \<and>
     (\<forall>p. 1 \<le> p \<and> p \<le> length xs \<longrightarrow>
        hp_mem h (nd xs p) = \<lparr>h_left = at xs (2 * p), h_right = at xs (2 * p + 1), h_parent = at xs (p div 2)\<rparr>)"

lemma nd_eq_iff: "distinct xs \<Longrightarrow> 1 \<le> p \<Longrightarrow> p \<le> length xs \<Longrightarrow> 1 \<le> q \<Longrightarrow> q \<le> length xs \<Longrightarrow> nd xs p = nd xs q \<longleftrightarrow> p = q"
  by (auto simp: nd_def nth_eq_iff_index_eq)

lemma at_eq_nd: "distinct xs \<Longrightarrow> 1 \<le> p \<Longrightarrow> p \<le> length xs \<Longrightarrow> at xs i = Some (nd xs p) \<longleftrightarrow> i = p"
  by (auto simp: at_def nd_eq_iff)

lemma at_Some: "1 \<le> p \<Longrightarrow> p \<le> length xs \<Longrightarrow> at xs p = Some (nd xs p)"
  by (simp add: at_def)

lemma at_0 [simp]: "at xs 0 = None"
  by (simp add: at_def)

lemma at_SomeD: "at xs p = Some x \<Longrightarrow> 1 \<le> p \<and> p \<le> length xs \<and> nd xs p = x"
  by (auto simp: at_def split: if_splits)

lemma length_swap_at [simp]: "length (swap_at xs p q) = length xs"
  by (simp add: swap_at_def)

lemma nd_swap_at:
  assumes "1 \<le> p" "p \<le> length xs" "1 \<le> q" "q \<le> length xs" "1 \<le> i" "i \<le> length xs"
  shows "nd (swap_at xs p q) i = (if i = p then nd xs q else if i = q then nd xs p else nd xs i)"
proof -
  have "i - 1 = p - 1 \<longleftrightarrow> i = p" "i - 1 = q - 1 \<longleftrightarrow> i = q" using assms by auto
  then show ?thesis using assms unfolding swap_at_def nd_def by (auto simp: nth_list_update)
qed

lemma at_swap_at:
  assumes "1 \<le> p" "p \<le> length xs" "1 \<le> q" "q \<le> length xs"
  shows "at (swap_at xs p q) i = (if i = p then at xs q else if i = q then at xs p else at xs i)"
  using assms nd_swap_at [OF assms, of i] by (auto simp: at_def)

lemma mset_swap_at:
  "1 \<le> p \<Longrightarrow> p \<le> length xs \<Longrightarrow> 1 \<le> q \<Longrightarrow> q \<le> length xs \<Longrightarrow> mset (swap_at xs p q) = mset xs"
  using mset_swap [of "q - 1" xs "p - 1"] by (simp add: swap_at_def nd_def)

lemma distinct_swap_at:
  "1 \<le> p \<Longrightarrow> p \<le> length xs \<Longrightarrow> 1 \<le> q \<Longrightarrow> q \<le> length xs \<Longrightarrow> distinct (swap_at xs p q) = distinct xs"
  by (rule mset_eq_imp_distinct_iff) (rule mset_swap_at)

section \<open>The pointer operations\<close>

lemma mem_set [simp]:
  "hp_mem (set_left x v h) y = (if y = x then (hp_mem h x)\<lparr>h_left := v\<rparr> else hp_mem h y)"
  "hp_mem (set_right x v h) y = (if y = x then (hp_mem h x)\<lparr>h_right := v\<rparr> else hp_mem h y)"
  "hp_mem (set_parent x v h) y = (if y = x then (hp_mem h x)\<lparr>h_parent := v\<rparr> else hp_mem h y)"
  "hp_mem (set_parent_of p x h) y = (if p = Some y then (hp_mem h y)\<lparr>h_parent := Some x\<rparr> else hp_mem h y)"
  by (auto simp: set_left_def set_right_def set_parent_def set_parent_of_def split: option.splits)

lemma min_set [simp]:
  "hp_min (set_left x v h) = hp_min h" "hp_min (set_right x v h) = hp_min h"
  "hp_min (set_parent x v h) = hp_min h" "hp_min (set_parent_of p x h) = hp_min h"
  "nelts (set_left x v h) = nelts h" "nelts (set_right x v h) = nelts h"
  "nelts (set_parent x v h) = nelts h" "nelts (set_parent_of p x h) = nelts h"
  by (auto simp: set_left_def set_right_def set_parent_def set_parent_of_def split: option.splits)

lemma mem_relink [simp]:
  "hp_mem (relink_parent old new h) y =
     (if h_parent (hp_mem h new) = Some y
      then if h_left (hp_mem h y) = Some old then (hp_mem h y)\<lparr>h_left := Some new\<rparr>
           else (hp_mem h y)\<lparr>h_right := Some new\<rparr>
      else hp_mem h y)"
  "hp_min (relink_parent old new h) = (if h_parent (hp_mem h new) = None then Some new else hp_min h)"
  "nelts (relink_parent old new h) = nelts h"
  by (auto simp: relink_parent_def split: option.splits)

lemma nelts_swap [simp]: "nelts (heap_node_swap p c h) = nelts h"
  by (simp add: heap_node_swap_def Let_def split: prod.splits)

lemma links_mem:
  "links h xs \<Longrightarrow> 1 \<le> p \<Longrightarrow> p \<le> length xs \<Longrightarrow>
     hp_mem h (nd xs p) = \<lparr>h_left = at xs (2 * p), h_right = at xs (2 * p + 1), h_parent = at xs (p div 2)\<rparr>"
  by (simp add: links_def)

lemma swap_nodes:
  assumes P: "hp_mem h P = \<lparr>h_left = Lp, h_right = Rp, h_parent = G\<rparr>"
    and C: "hp_mem h C = \<lparr>h_left = Lc, h_right = Rc, h_parent = Some P\<rparr>"
  defines "S \<equiv> if Lp = Some C then Rp else Lp"
  assumes ne: "P \<noteq> C" "S \<noteq> Some P" "S \<noteq> Some C" "Lc \<noteq> Some P" "Lc \<noteq> Some C" "Rc \<noteq> Some P" "Rc \<noteq> Some C"
    "G \<noteq> Some P" "G \<noteq> Some C"
  shows "hp_mem (heap_node_swap P C h) P = \<lparr>h_left = Lc, h_right = Rc, h_parent = Some C\<rparr>"
    and "hp_mem (heap_node_swap P C h) C =
           (if Lp = Some C then \<lparr>h_left = Some P, h_right = Rp, h_parent = G\<rparr>
            else \<lparr>h_left = Lp, h_right = Some P, h_parent = G\<rparr>)"
    and "y \<noteq> P \<Longrightarrow> y \<noteq> C \<Longrightarrow> hp_mem (heap_node_swap P C h) y =
           \<lparr>h_left = (if G = Some y \<and> h_left (hp_mem h y) = Some P then Some C else h_left (hp_mem h y)),
            h_right = (if G = Some y \<and> h_left (hp_mem h y) \<noteq> Some P then Some C else h_right (hp_mem h y)),
            h_parent = (if Lc = Some y \<or> Rc = Some y then Some P else if S = Some y then Some C
                        else h_parent (hp_mem h y))\<rparr>"
    and "hp_min (heap_node_swap P C h) = (if G = None then Some C else hp_min h)"
  using ne P C by (cases "Lp = Some C"; simp add: heap_node_swap_def Let_def S_def; fail)+

lemma links_swap:
  assumes h: "links h xs" and c: "2 \<le> c" "c \<le> length xs"
  shows "links (heap_node_swap (nd xs (c div 2)) (nd xs c) h) (swap_at xs (c div 2) c)"
proof -
  define q where "q = c div 2"
  have q: "1 \<le> q" "q \<le> length xs" "q \<noteq> c" using c by (auto simp: q_def)
  have c1: "1 \<le> c" using c by simp
  have d: "distinct xs" using h by (simp add: links_def)
  have par: "c = 2 * q \<or> c = 2 * q + 1" by (auto simp: q_def)
  let ?P = "nd xs q" and ?C = "nd xs c" and ?h' = "heap_node_swap (nd xs q) (nd xs c) h"
  have P: "hp_mem h ?P = \<lparr>h_left = at xs (2 * q), h_right = at xs (2 * q + 1), h_parent = at xs (q div 2)\<rparr>"
    using links_mem [OF h q(1,2)] .
  have C: "hp_mem h ?C = \<lparr>h_left = at xs (2 * c), h_right = at xs (2 * c + 1), h_parent = Some ?P\<rparr>"
    using links_mem [OF h c1 c(2)] at_Some [OF q(1,2)] by (simp add: q_def)
  note aq = at_eq_nd [OF d q(1,2)] and ac = at_eq_nd [OF d c1 c(2)]
  define S where "S = (if at xs (2 * q) = Some ?C then at xs (2 * q + 1) else at xs (2 * q))"
  have S: "S = at xs (if c = 2 * q then 2 * q + 1 else 2 * q)" by (auto simp: S_def ac)
  have ne: "?P \<noteq> ?C" "S \<noteq> Some ?P" "S \<noteq> Some ?C" "at xs (2 * c) \<noteq> Some ?P" "at xs (2 * c) \<noteq> Some ?C"
    "at xs (2 * c + 1) \<noteq> Some ?P" "at xs (2 * c + 1) \<noteq> Some ?C" "at xs (q div 2) \<noteq> Some ?P" "at xs (q div 2) \<noteq> Some ?C"
    using q c par by (auto simp: aq ac S nd_eq_iff [OF d])
  note res = swap_nodes [OF P C, folded S_def, OF ne]
  note sw = at_swap_at [OF q(1,2) c1 c(2)]
  have "hp_mem ?h' (nd (swap_at xs q c) p) = \<lparr>h_left = at (swap_at xs q c) (2 * p),
      h_right = at (swap_at xs q c) (2 * p + 1), h_parent = at (swap_at xs q c) (p div 2)\<rparr>"
    if p: "1 \<le> p" "p \<le> length xs" for p
  proof -
    consider (isq) "p = q" | (isc) "p = c" | (other) "p \<noteq> q" "p \<noteq> c" by blast
    then show ?thesis
    proof cases
      case isq
      have "nd (swap_at xs q c) q = ?C" using nd_swap_at [OF q(1,2) c1 c(2) q(1,2)] by simp
      then show ?thesis using isq res(2) par q(1,3) at_Some [OF q(1,2)] by (auto simp: sw ac)
    next
      case isc
      have "nd (swap_at xs q c) c = ?P" using nd_swap_at [OF q(1,2) c1 c(2) c1 c(2)] q(3) by simp
      then show ?thesis using isc res(1) par q at_Some [OF c1 c(2)] by (auto simp: sw)
    next
      case other
      have ne': "nd xs p \<noteq> ?P" "nd xs p \<noteq> ?C" using other nd_eq_iff [OF d p] q c1 c by simp_all
      note ap = at_eq_nd [OF d p]
      have "nd (swap_at xs q c) p = nd xs p" using other nd_swap_at [OF q(1,2) c1 c(2) p] by simp
      moreover have "hp_mem h (nd xs p) = \<lparr>h_left = at xs (2 * p), h_right = at xs (2 * p + 1), h_parent = at xs (p div 2)\<rparr>"
        using links_mem [OF h p] .
      ultimately have eq: "hp_mem ?h' (nd (swap_at xs q c) p) =
        \<lparr>h_left = (if q div 2 = p \<and> 2 * p = q then Some ?C else at xs (2 * p)),
         h_right = (if q div 2 = p \<and> 2 * p \<noteq> q then Some ?C else at xs (2 * p + 1)),
         h_parent = (if 2 * c = p \<or> 2 * c + 1 = p then Some ?P
                     else if (if c = 2 * q then 2 * q + 1 else 2 * q) = p then Some ?C else at xs (p div 2))\<rparr>"
        using res(3) [OF ne'] by (simp only: ap aq S heap_node.simps)
      have arith: "2 * p \<noteq> c" "2 * p + 1 \<noteq> c" "q div 2 = p \<and> 2 * p = q \<longleftrightarrow> 2 * p = q"
        "q div 2 = p \<and> 2 * p \<noteq> q \<longleftrightarrow> 2 * p + 1 = q" "2 * c = p \<or> 2 * c + 1 = p \<longleftrightarrow> p div 2 = c"
        "(if c = 2 * q then 2 * q + 1 else 2 * q) = p \<longleftrightarrow> p div 2 = q"
        using other par by auto
      show ?thesis
        unfolding eq sw arith(3-6) at_Some [OF q(1,2)] at_Some [OF c1 c(2)] using arith(1,2) q(3) by auto
    qed
  qed
  moreover have "hp_min ?h' = at (swap_at xs q c) 1"
  proof (cases "q = 1")
    case True
    then show ?thesis using res(4) at_Some [OF c1 c(2)] sw [of 1] by simp
  next
    case False
    have "1 \<le> q div 2" "q div 2 \<le> length xs" using False q by auto
    then show ?thesis using res(4) False c h at_Some [of "q div 2" xs] by (simp add: sw links_def)
  qed
  ultimately show ?thesis
    using d distinct_swap_at [OF q(1,2) c1 c(2)] by (simp add: links_def q_def)
qed

section \<open>Order\<close>

text \<open>What the heap asks of its comparison: a strict order whose incomparability is transitive.\<close>

locale node_order =
  fixes lt :: "hnode \<Rightarrow> hnode \<Rightarrow> bool"
  assumes asym: "lt a b \<Longrightarrow> \<not> lt b a"
    and not_lt_trans: "\<not> lt b a \<Longrightarrow> \<not> lt c b \<Longrightarrow> \<not> lt c a"

text \<open>Position \<open>i\<close> is not before its parent; the heap order; and the order but for one position.\<close>

definition ok_at :: "(hnode \<Rightarrow> hnode \<Rightarrow> bool) \<Rightarrow> hnode list \<Rightarrow> nat \<Rightarrow> bool" where
  "ok_at lt xs i \<longleftrightarrow> \<not> lt (nd xs i) (nd xs (i div 2))"

definition heap_ok :: "(hnode \<Rightarrow> hnode \<Rightarrow> bool) \<Rightarrow> hnode list \<Rightarrow> bool" where
  "heap_ok lt xs \<longleftrightarrow> (\<forall>i\<in>{2..length xs}. ok_at lt xs i)"

definition bridge :: "(hnode \<Rightarrow> hnode \<Rightarrow> bool) \<Rightarrow> hnode list \<Rightarrow> nat \<Rightarrow> bool" where
  "bridge lt xs p \<longleftrightarrow> (2 \<le> p \<longrightarrow> (\<forall>i\<in>{2..length xs}. i div 2 = p \<longrightarrow> \<not> lt (nd xs i) (nd xs (p div 2))))"

definition up_inv :: "(hnode \<Rightarrow> hnode \<Rightarrow> bool) \<Rightarrow> hnode list \<Rightarrow> nat \<Rightarrow> bool" where
  "up_inv lt xs p \<longleftrightarrow> (\<forall>i\<in>{2..length xs}. i \<noteq> p \<longrightarrow> ok_at lt xs i) \<and> bridge lt xs p"

definition down_inv :: "(hnode \<Rightarrow> hnode \<Rightarrow> bool) \<Rightarrow> hnode list \<Rightarrow> nat \<Rightarrow> bool" where
  "down_inv lt xs p \<longleftrightarrow> (\<forall>i\<in>{2..length xs}. i \<noteq> p \<longrightarrow> i div 2 \<noteq> p \<longrightarrow> ok_at lt xs i) \<and> bridge lt xs p"

lemma up_inv_done: "up_inv lt xs p \<Longrightarrow> p < 2 \<or> ok_at lt xs p \<Longrightarrow> heap_ok lt xs"
  by (auto simp: up_inv_def heap_ok_def)

lemma down_inv_done:
  "down_inv lt xs p \<Longrightarrow> (\<And>i. i \<in> {2..length xs} \<Longrightarrow> i div 2 = p \<Longrightarrow> ok_at lt xs i) \<Longrightarrow> up_inv lt xs p"
  by (auto simp: up_inv_def down_inv_def)

context node_order
begin

lemma up_step:
  assumes inv: "up_inv lt xs c" and c: "2 \<le> c" "c \<le> length xs" and less: "lt (nd xs c) (nd xs (c div 2))"
  shows "up_inv lt (swap_at xs (c div 2) c) (c div 2)"
proof -
  define q where "q = c div 2"
  have q: "1 \<le> q" "q \<le> length xs" "q \<noteq> c" "1 \<le> c" using c by (auto simp: q_def)
  note sw = nd_swap_at [OF q(1,2,4) c(2)]
  have ok: "ok_at lt xs i" if "i \<in> {2..length xs}" "i \<noteq> c" for i using inv that by (auto simp: up_inv_def)
  have "\<not> lt (nd xs q) (nd xs c)" using asym less by (simp add: q_def)
  have "ok_at lt (swap_at xs q c) i" if i: "i \<in> {2..length xs}" "i \<noteq> q" for i
  proof (cases "i = c")
    case True
    then show ?thesis using \<open>\<not> lt (nd xs q) (nd xs c)\<close> c q by (simp add: ok_at_def sw q_def [symmetric])
  next
    case False
    have i2: "1 \<le> i div 2" "i div 2 \<le> length xs" "1 \<le> i" "i \<le> length xs" using i by auto
    consider "i div 2 = q" | "i div 2 = c" | "i div 2 \<noteq> q" "i div 2 \<noteq> c" by blast
    then show ?thesis
    proof cases
      case 1
      then have "\<not> lt (nd xs i) (nd xs q)" using ok [OF i(1) False] by (simp add: ok_at_def)
      then have "\<not> lt (nd xs i) (nd xs c)" using \<open>\<not> lt (nd xs q) (nd xs c)\<close> not_lt_trans by blast
      then show ?thesis using 1 i2 i(2) False q by (simp add: ok_at_def sw)
    next
      case 2
      then have "\<not> lt (nd xs i) (nd xs q)" using inv i(1) c by (auto simp: up_inv_def bridge_def q_def)
      then show ?thesis using 2 i2 i(2) False q by (simp add: ok_at_def sw)
    next
      case 3
      then show ?thesis using ok [OF i(1) False] i2 i(2) False by (simp add: ok_at_def sw)
    qed
  qed
  moreover have "bridge lt (swap_at xs q c) q"
    unfolding bridge_def
  proof (intro impI ballI)
    fix i
    assume q2: "2 \<le> q" and i: "i \<in> {2..length (swap_at xs q c)}" "i div 2 = q"
    have q': "1 \<le> q div 2" "q div 2 \<le> length xs" "q div 2 \<noteq> q" "q div 2 \<noteq> c" using q2 q(2) c by (auto simp: q_def)
    have "\<not> lt (nd xs q) (nd xs (q div 2))" using ok [of q] q2 q by (simp add: ok_at_def)
    moreover have "\<not> lt (nd xs i) (nd xs q)" if "i \<noteq> c" using ok [of i] i that by (simp add: ok_at_def)
    ultimately have "\<not> lt (if i = c then nd xs q else nd xs i) (nd xs (q div 2))" using not_lt_trans by auto
    moreover have "i \<noteq> q" using i(2) q2 by auto
    ultimately show "\<not> lt (nd (swap_at xs q c) i) (nd (swap_at xs q c) (q div 2))"
      using i q' by (simp add: sw)
  qed
  ultimately show ?thesis by (simp add: up_inv_def q_def)
qed

lemma down_step:
  assumes inv: "down_inv lt xs p" and s: "s div 2 = p" "s \<in> {2..length xs}" and less: "lt (nd xs s) (nd xs p)"
    and least: "\<And>i. i \<in> {2..length xs} \<Longrightarrow> i div 2 = p \<Longrightarrow> \<not> lt (nd xs i) (nd xs s)"
  shows "down_inv lt (swap_at xs p s) s"
proof -
  have p: "1 \<le> p" "p \<le> length xs" "p \<noteq> s" "1 \<le> s" "s \<le> length xs" using s by auto
  note sw = nd_swap_at [OF p(1,2,4,5)]
  have ok: "ok_at lt xs i" if "i \<in> {2..length xs}" "i \<noteq> p" "i div 2 \<noteq> p" for i
    using inv that by (auto simp: down_inv_def)
  have "ok_at lt (swap_at xs p s) i" if i: "i \<in> {2..length xs}" "i \<noteq> s" "i div 2 \<noteq> s" for i
  proof -
    have i2: "1 \<le> i div 2" "i div 2 \<le> length xs" "1 \<le> i" "i \<le> length xs" "i div 2 \<noteq> i" using i by auto
    consider "i = p" | "i \<noteq> p" "i div 2 = p" | "i \<noteq> p" "i div 2 \<noteq> p" by blast
    then show ?thesis
    proof cases
      case 1
      then have "\<not> lt (nd xs s) (nd xs (p div 2))" using inv s i by (auto simp: down_inv_def bridge_def)
      then show ?thesis using 1 i2 i by (simp add: ok_at_def sw)
    next
      case 2
      then show ?thesis using least [OF i(1)] i2 i by (simp add: ok_at_def sw)
    next
      case 3
      then show ?thesis using ok [OF i(1)] i2 i by (simp add: ok_at_def sw)
    qed
  qed
  moreover have "bridge lt (swap_at xs p s) s"
    unfolding bridge_def
  proof (intro impI ballI)
    fix i
    assume i: "i \<in> {2..length (swap_at xs p s)}" "i div 2 = s"
    then have "i \<noteq> p" "i \<noteq> s" "i div 2 \<noteq> p" using s p by auto
    then have "\<not> lt (nd xs i) (nd xs s)" using ok [of i] i by (simp add: ok_at_def)
    then show "\<not> lt (nd (swap_at xs p s) i) (nd (swap_at xs p s) (s div 2))"
      using i s p \<open>i \<noteq> p\<close> \<open>i \<noteq> s\<close> by (simp add: sw)
  qed
  ultimately show ?thesis by (simp add: down_inv_def)
qed

lemma root_least:
  assumes "heap_ok lt xs" "1 \<le> i" "i \<le> length xs"
  shows "\<not> lt (nd xs i) (nd xs 1)"
  using assms(2,3)
proof (induction i rule: less_induct)
  case (less i)
  show ?case
  proof (cases "i = 1")
    case True
    then show ?thesis using asym by blast
  next
    case False
    then have "\<not> lt (nd xs (i div 2)) (nd xs 1)" using less by (intro less.IH) auto
    moreover have "\<not> lt (nd xs i) (nd xs (i div 2))"
      using assms(1) less.prems False by (auto simp: heap_ok_def ok_at_def)
    ultimately show ?thesis using not_lt_trans by blast
  qed
qed

section \<open>The loops\<close>

lemma up_loop_ok:
  assumes "links h xs" "at xs p = Some x" "up_inv lt xs p" "p < fuel"
  shows "\<exists>h' ys. up_loop lt fuel x h = Inr h' \<and> links h' ys \<and> heap_ok lt ys \<and> mset ys = mset xs \<and> nelts h' = nelts h"
  using assms
proof (induction fuel arbitrary: h xs p)
  case (Suc fuel)
  have p: "1 \<le> p" "p \<le> length xs" "x = nd xs p" using at_SomeD [OF Suc.prems(2)] by simp_all
  have par: "h_parent (hp_mem h x) = at xs (p div 2)" using links_mem [OF Suc.prems(1) p(1,2)] p(3) by simp
  show ?case
  proof (cases "2 \<le> p \<and> lt x (nd xs (p div 2))")
    case True
    let ?q = "p div 2" and ?h = "heap_node_swap (nd xs (p div 2)) x h" and ?xs = "swap_at xs (p div 2) p"
    have q: "1 \<le> ?q" "?q \<le> length xs" using True p by auto
    have "?q < p" using p(1) by simp
    then have fuel: "?q < fuel" using Suc.prems(4) by linarith
    have "at ?xs ?q = Some x" using at_swap_at [OF q p(1,2)] at_Some [OF p(1,2)] p(3) by simp
    moreover have "links ?h ?xs" using links_swap [OF Suc.prems(1)] True p by simp
    moreover have "up_inv lt ?xs ?q" using up_step [OF Suc.prems(3)] True p by simp
    ultimately obtain h' ys where "up_loop lt fuel x ?h = Inr h'" "links h' ys" "heap_ok lt ys"
      "mset ys = mset ?xs" "nelts h' = nelts ?h" using Suc.IH [of ?h ?xs ?q] fuel by blast
    moreover have "mset ?xs = mset xs" by (rule mset_swap_at [OF q p(1,2)])
    ultimately show ?thesis using True par at_Some [OF q] by auto
  next
    case False
    then have "up_loop lt (Suc fuel) x h = Inr h" using par p by (auto simp: at_def)
    moreover have "heap_ok lt xs" using up_inv_done [OF Suc.prems(3)] False p by (auto simp: ok_at_def)
    ultimately show ?thesis using Suc.prems(1) by auto
  qed
qed simp

text \<open>The child that \<open>smallest\<close> ends up at.\<close>

lemma smaller_child_props:
  "smaller_child lt c a = a \<or> c = Some (smaller_child lt c a) \<and> lt (smaller_child lt c a) a"
  "\<not> lt a (smaller_child lt c a)" "c = Some y \<Longrightarrow> \<not> lt y (smaller_child lt c a)"
  using asym by (auto simp: smaller_child_def split: option.splits)

lemma smallest_child:
  fixes l r :: "hnode option" and x :: hnode
  defines "s \<equiv> smaller_child lt r (smaller_child lt l x)"
  shows "s = x \<or> (l = Some s \<or> r = Some s) \<and> lt s x" "l = Some y \<or> r = Some y \<Longrightarrow> \<not> lt y s"
proof -
  define s1 where "s1 = smaller_child lt l x"
  note p1 = smaller_child_props [where c = l and a = x, folded s1_def]
    and p2 = smaller_child_props [where c = r and a = s1]
  have s: "s = smaller_child lt r s1" by (simp add: s_def s1_def)
  have "lt s x" if "lt s s1" using not_lt_trans [of x s1 s] p1(2) that by blast
  then show "s = x \<or> (l = Some s \<or> r = Some s) \<and> lt s x" using p1(1) p2(1) unfolding s by metis
  show "l = Some y \<or> r = Some y \<Longrightarrow> \<not> lt y s"
    using p1(3) [of y] p2(2) p2(3) [of y] not_lt_trans [of s1 s y] unfolding s by blast
qed

lemma at_child: "at xs (2 * p) = Some y \<or> at xs (2 * p + 1) = Some y \<Longrightarrow> 1 \<le> p \<Longrightarrow>
    \<exists>j\<in>{2..length xs}. j div 2 = p \<and> nd xs j = y"
  using at_SomeD [of xs "2 * p" y] at_SomeD [of xs "2 * p + 1" y]
  by (auto intro: bexI [of _ "2 * p"] bexI [of _ "2 * p + 1"])

lemma child_at: "j \<in> {2..length xs} \<Longrightarrow> j div 2 = p \<Longrightarrow>
    at xs (2 * p) = Some (nd xs j) \<or> at xs (2 * p + 1) = Some (nd xs j)"
proof -
  assume j: "j \<in> {2..length xs}" "j div 2 = p"
  then have "j = 2 * p \<or> j = 2 * p + 1" by auto
  then show ?thesis using j at_Some [of j xs] by auto
qed

lemma down_loop_ok:
  assumes "links h xs" "at xs p = Some x" "down_inv lt xs p" "length xs < p + fuel"
  shows "\<exists>h' ys p'. down_loop lt fuel x h = Inr h' \<and> links h' ys \<and> up_inv lt ys p' \<and> at ys p' = Some x
           \<and> mset ys = mset xs \<and> nelts h' = nelts h"
  using assms
proof (induction fuel arbitrary: h xs p)
  case 0
  then show ?case using at_SomeD [of xs p x] by simp
next
  case (Suc fuel)
  have p: "1 \<le> p" "p \<le> length xs" "x = nd xs p" using at_SomeD [OF Suc.prems(2)] by simp_all
  define s where "s = smaller_child lt (at xs (2 * p + 1)) (smaller_child lt (at xs (2 * p)) x)"
  note small = smallest_child [where r = "at xs (2 * p + 1)" and l = "at xs (2 * p)" and x = x, folded s_def]
  have step: "down_loop lt (Suc fuel) x h = (if s = x then Inr h else down_loop lt fuel x (heap_node_swap x s h))"
    using links_mem [OF Suc.prems(1) p(1,2)] p(3) by (simp add: s_def Let_def)
  show ?case
  proof (cases "s = x")
    case True
    have "ok_at lt xs i" if "i \<in> {2..length xs}" "i div 2 = p" for i
      using small(2) child_at [OF that] that(2) True p(3) by (auto simp: ok_at_def)
    then have "up_inv lt xs p" by (rule down_inv_done [OF Suc.prems(3)])
    then show ?thesis using step True Suc.prems(1,2) by auto
  next
    case False
    then obtain j where j: "j \<in> {2..length xs}" "j div 2 = p" "nd xs j = s" and lt: "lt s x"
      using small(1) at_child [of xs p s] p(1) by auto
    let ?h = "heap_node_swap x s h" and ?xs = "swap_at xs p j"
    have jr: "1 \<le> j" "j \<le> length xs" "p < j" using j(1,2) by auto
    have "links ?h ?xs" using links_swap [OF Suc.prems(1), of j] j p(3) by auto
    moreover have "at ?xs j = Some x"
      using at_swap_at [OF p(1,2) jr(1,2), of j] at_Some [OF p(1,2)] jr(3) p(3) by simp
    moreover have "down_inv lt ?xs j"
      using down_step [OF Suc.prems(3) j(2,1)] small(2) child_at lt j(3) p(3) by auto
    moreover have "length ?xs < j + fuel" using Suc.prems(4) jr(3) by simp
    ultimately obtain h' ys p' where "down_loop lt fuel x ?h = Inr h'" "links h' ys" "up_inv lt ys p'"
      "at ys p' = Some x" "mset ys = mset ?xs" "nelts h' = nelts ?h" using Suc.IH [of ?h ?xs j] by blast
    moreover have "mset ?xs = mset xs" by (rule mset_swap_at [OF p(1,2) jr(1,2)])
    ultimately show ?thesis using step False by auto
  qed
qed

end

section \<open>The path to a position\<close>

fun walkpos :: "u32 \<Rightarrow> nat \<Rightarrow> nat \<Rightarrow> nat" where
  "walkpos path 0 p = p"
| "walkpos path (Suc k) p = walkpos (drop_bit 1 path) k (2 * p + (if path AND 1 \<noteq> 0 then 1 else 0))"

lemma walkpos_ge: "p \<le> walkpos path k p"
proof (induction k arbitrary: path p)
  case (Suc k)
  let ?p = "2 * p + (if path AND 1 \<noteq> 0 then 1 else 0)"
  have "p \<le> ?p" by simp
  also have "\<dots> \<le> walkpos path (Suc k) p" using Suc.IH by simp
  finally show ?case .
qed simp

lemma unat_u32_eqI: "unat (a :: u32) = unat b \<Longrightarrow> a = b"
  by (rule unsigned_word_eqI)

lemma path_push:
  assumes "unat (path :: u32) < 2 ^ 31" "b = 0 \<or> b = 1"
  shows "drop_bit 1 (push_bit 1 path OR b) = path" "(push_bit 1 path OR b) AND 1 = b"
    "unat (push_bit 1 path OR b) = 2 * unat path + unat b"
proof -
  have "push_bit 1 path OR b = 2 * path + b"
    using assms(2) by (auto simp: push_bit_eq_mult or_one_eq)
  moreover have "unat (2 * path + b) = 2 * unat path + unat b"
    using assms by (auto simp: unat_word_ariths)
  ultimately show eq: "unat (push_bit 1 path OR b) = 2 * unat path + unat b" by simp
  have b: "unat b < 2" using assms(2) by auto
  have "unat (drop_bit 1 (push_bit 1 path OR b)) = unat path"
    by (simp only: drop_bit_eq_div unat_div eq) (use b in simp)
  then show "drop_bit 1 (push_bit 1 path OR b) = path" by (rule unat_u32_eqI)
  have "unat ((push_bit 1 path OR b) AND 1) = unat b"
    by (simp only: and_one_eq unat_mod eq) (use b in simp)
  then show "(push_bit 1 path OR b) AND 1 = b" by (rule unat_u32_eqI)
qed

lemma path_loop_pos:
  assumes "unat path < 2 ^ k" "unat n * 2 ^ k < 2 ^ 32" "1 \<le> n" "path_loop n k path = (path', k')"
  shows "walkpos path' k' 1 = walkpos path k (unat n)"
  using assms
proof (induction n k path rule: path_loop.induct)
  case (1 n k path)
  show ?case
  proof (cases "2 \<le> n")
    case True
    have n: "2 \<le> unat n" using True by (simp add: word_le_nat_alt)
    have "2 * 2 ^ k \<le> unat n * 2 ^ k" using n by simp
    then have "(2 :: nat) ^ Suc k < 2 ^ 32" using "1.prems"(2) by (simp only: power_Suc)
    then have "Suc k < 32" by (rule power_less_imp_less_exp [rotated]) simp
    then have k: "k < 31" by simp
    then have path: "unat path < 2 ^ 31"
      using "1.prems"(1) by (meson less_trans power_strict_increasing_iff one_less_numeral_iff semiring_norm(76))
    have "unat (n AND 1) = unat n mod 2" by (simp add: and_one_eq unat_mod)
    then have b: "n AND 1 = 0 \<or> n AND 1 = 1" "n AND 1 \<noteq> 0 \<longleftrightarrow> odd (unat n)" "unat (n AND 1) = unat n mod 2"
      by (auto simp: odd_iff_mod_2_eq_one intro!: unat_u32_eqI)
    have half: "unat (n div 2) = unat n div 2" by (simp add: unat_div)
    have "unat (push_bit 1 path OR (n AND 1)) < 2 ^ (k + 1)"
      using path_push(3) [OF path b(1)] "1.prems"(1) b(3) by simp
    moreover have "unat (n div 2) * 2 ^ (k + 1) < 2 ^ 32"
    proof -
      have "unat n div 2 * 2 \<le> unat n" by simp
      then have "unat n div 2 * 2 * 2 ^ k \<le> unat n * 2 ^ k" by (rule mult_le_mono1)
      also have "\<dots> < 2 ^ 32" by (rule "1.prems"(2))
      finally show ?thesis by (simp only: half power_add power_one_right mult.assoc mult.commute [of "2 ^ k" 2])
    qed
    moreover have "1 \<le> n div 2"
      using n by (simp add: word_le_nat_alt half)
    moreover have "path_loop (n div 2) (k + 1) (push_bit 1 path OR (n AND 1)) = (path', k')"
      using "1.prems"(4) True by (simp add: path_loop.simps [of n])
    ultimately have "walkpos path' k' 1 = walkpos (push_bit 1 path OR (n AND 1)) (k + 1) (unat (n div 2))"
      using "1.IH" True by blast
    also have "\<dots> = walkpos path k (2 * (unat n div 2) + unat n mod 2)"
      using path_push(1,2) [OF path b(1)] b(2) half by (auto simp: odd_iff_mod_2_eq_one even_iff_mod_2_eq_zero)
    finally show ?thesis by simp
  next
    case False
    then have "unat n = 1" using "1.prems"(3) by (simp add: word_le_nat_alt)
    then show ?thesis using "1.prems"(4) False by (simp add: path_loop.simps [of n])
  qed
qed

fun slot_pos :: "hnode list \<Rightarrow> slot \<Rightarrow> nat \<Rightarrow> bool" where
  "slot_pos xs Min_slot p \<longleftrightarrow> p = 1"
| "slot_pos xs (Left_slot x) p \<longleftrightarrow> even p \<and> at xs (p div 2) = Some x"
| "slot_pos xs (Right_slot x) p \<longleftrightarrow> odd p \<and> at xs (p div 2) = Some x"

lemma read_slot_at:
  assumes "links h xs" "slot_pos xs s p"
  shows "read_slot s h = at xs p"
proof (cases s)
  case Min_slot then show ?thesis using assms by (simp add: read_slot_def links_def)
next
  case (Left_slot x)
  then have "at xs (p div 2) = Some x" "p = 2 * (p div 2)" using assms(2) by auto
  then show ?thesis using links_mem [OF assms(1), of "p div 2"] at_SomeD [of xs "p div 2" x] Left_slot
    by (auto simp: read_slot_def)
next
  case (Right_slot x)
  then have "at xs (p div 2) = Some x" "p = 2 * (p div 2) + 1" using assms(2) by auto
  then show ?thesis using links_mem [OF assms(1), of "p div 2"] at_SomeD [of xs "p div 2" x] Right_slot
    by (auto simp: read_slot_def)
qed

lemma walk_ok:
  assumes "links h xs" "slot_pos xs child p" "slot_pos xs parent (p div 2) \<or> parent = child \<and> p = 1"
    and "walkpos path k p = n" "n \<le> length xs + 1" "1 \<le> p"
  shows "\<exists>par chi. walk k path parent child h = Inr (par, chi) \<and> slot_pos xs chi n
           \<and> (slot_pos xs par (n div 2) \<or> par = chi \<and> n = 1)"
  using assms
proof (induction k arbitrary: path p parent child)
  case (Suc k)
  let ?p = "2 * p + (if path AND 1 \<noteq> 0 then 1 else 0)"
  have "?p \<le> n" using walkpos_ge [of ?p "drop_bit 1 path" k] Suc.prems(4) by simp
  then have p: "p \<le> length xs" using Suc.prems(5,6) by (auto split: if_splits)
  then have r: "read_slot child h = Some (nd xs p)"
    using read_slot_at [OF Suc.prems(1,2)] at_Some Suc.prems(6) by simp
  let ?c = "if path AND 1 \<noteq> 0 then Right_slot (nd xs p) else Left_slot (nd xs p)"
  have "slot_pos xs ?c ?p" using at_Some [OF Suc.prems(6) p] by auto
  moreover have "?p div 2 = p" by simp
  ultimately show ?case
    using Suc.IH [of ?c ?p child "drop_bit 1 path"] Suc.prems r by (simp add: deref_def split: if_splits)
qed auto

section \<open>Linking and unlinking\<close>

lemma links_nelts [simp]: "links (h\<lparr>nelts := n\<rparr>) xs = links h xs"
  by (simp add: links_def)

lemma mem_write_slot [simp]:
  "hp_mem (write_slot s v h) y =
     (if s = Left_slot y then (hp_mem h y)\<lparr>h_left := v\<rparr>
      else if s = Right_slot y then (hp_mem h y)\<lparr>h_right := v\<rparr> else hp_mem h y)"
  "hp_min (write_slot s v h) = (if s = Min_slot then v else hp_min h)"
  "nelts (write_slot s v h) = nelts h"
  by (auto simp: write_slot_def split: slot.splits)

lemma nd_in_set: "1 \<le> p \<Longrightarrow> p \<le> length xs \<Longrightarrow> nd xs p \<in> set xs"
  unfolding nd_def by (rule nth_mem) arith

text \<open>The slot of position \<open>n\<close> belongs to the node at half of it.\<close>

lemma slot_of_node:
  assumes "distinct xs" "slot_pos xs s n" "1 \<le> p" "p \<le> length xs"
  shows "s = Left_slot (nd xs p) \<longleftrightarrow> n = 2 * p" "s = Right_slot (nd xs p) \<longleftrightarrow> n = 2 * p + 1" "s = Min_slot \<longleftrightarrow> n = 1"
proof -
  have "2 * p \<noteq> 1" "2 * p + 1 \<noteq> 1" using assms(3) by auto
  then show "s = Left_slot (nd xs p) \<longleftrightarrow> n = 2 * p" "s = Right_slot (nd xs p) \<longleftrightarrow> n = 2 * p + 1" "s = Min_slot \<longleftrightarrow> n = 1"
    using assms(2) at_eq_nd [OF assms(1,3,4), of "n div 2"] nd_eq_iff [OF assms(1) _ _ assms(3,4)]
    by (cases s; auto dest!: at_SomeD)+
qed

lemma nd_snoc: "1 \<le> p \<Longrightarrow> p \<le> length xs \<Longrightarrow> nd (xs @ [x]) p = nd xs p" "nd (xs @ [x]) (length xs + 1) = x"
proof -
  show "1 \<le> p \<Longrightarrow> p \<le> length xs \<Longrightarrow> nd (xs @ [x]) p = nd xs p"
    unfolding nd_def by (rule nth_append_left) arith
qed (simp add: nd_def)

lemma at_snoc: "at (xs @ [x]) p = (if p = length xs + 1 then Some x else at xs p)"
  by (auto simp: at_def nd_snoc nd_snoc(2) [simplified])

lemma links_insert:
  assumes h: "links h xs" and new: "new \<notin> set xs" "hp_mem h new = \<lparr>h_left = None, h_right = None, h_parent = None\<rparr>"
    and n: "n = length xs + 1" and s: "slot_pos xs chi n" "slot_pos xs par (n div 2) \<or> par = chi \<and> n = 1"
  shows "links (write_slot chi (Some new) (set_parent new (read_slot par h) h)) (xs @ [new])"
proof -
  have d: "distinct xs" using h by (simp add: links_def)
  have par: "read_slot par h = at xs (n div 2)"
    using s(2)
  proof
    assume "par = chi \<and> n = 1"
    then show ?thesis using read_slot_at [OF h s(1)] n by (simp add: at_def)
  qed (rule read_slot_at [OF h])
  have new': "chi \<noteq> Left_slot new" "chi \<noteq> Right_slot new"
    using s(1) new(1) nd_in_set by (auto dest!: at_SomeD)
  have root: "chi = Min_slot \<longleftrightarrow> n = 1" using s(1) by (cases chi) (auto dest: at_SomeD)
  show ?thesis
    unfolding links_def
  proof (intro conjI allI impI)
    show "distinct (xs @ [new])" using d new by simp
    show "hp_min (write_slot chi (Some new) (set_parent new (read_slot par h) h)) = at (xs @ [new]) 1"
      using root n h by (auto simp: at_snoc links_def)
    fix p
    assume p: "1 \<le> p \<and> p \<le> length (xs @ [new])"
    show "hp_mem (write_slot chi (Some new) (set_parent new (read_slot par h) h)) (nd (xs @ [new]) p)
      = \<lparr>h_left = at (xs @ [new]) (2 * p), h_right = at (xs @ [new]) (2 * p + 1), h_parent = at (xs @ [new]) (p div 2)\<rparr>"
    proof (cases "p = n")
      case True
      then have "nd (xs @ [new]) p = new" using n by (simp only: nd_snoc)
      then show ?thesis using True new' new(2) par n by (simp add: at_snoc) (simp add: at_def)
    next
      case False
      then have p': "1 \<le> p" "p \<le> length xs" using p n by auto
      then have eq: "nd (xs @ [new]) p = nd xs p" by (rule nd_snoc)
      have "nd xs p \<noteq> new" using new(1) nd_in_set [OF p'] by auto
      moreover have "p div 2 \<noteq> n" using p' n by auto
      ultimately show ?thesis
        using links_mem [OF h p'] slot_of_node [OF d s(1) p'] n by (auto simp: eq at_snoc)
    qed
  qed
qed

lemma links_unlink:
  assumes h: "links h (xs @ [x])" and s: "slot_pos (xs @ [x]) s (length xs + 1)"
  shows "links (write_slot s None h) xs"
proof -
  have d: "distinct (xs @ [x])" using h by (simp add: links_def)
  have root: "s = Min_slot \<longleftrightarrow> xs = []" using s by (cases s) (auto dest: at_SomeD)
  show ?thesis
    unfolding links_def
  proof (intro conjI allI impI)
    show "distinct xs" using d by simp
    show "hp_min (write_slot s None h) = at xs 1"
      using root h by (cases "xs = []") (simp_all add: links_def at_snoc, simp add: at_def)
    fix p
    assume p: "1 \<le> p \<and> p \<le> length xs"
    then have p': "1 \<le> p" "p \<le> length (xs @ [x])" and eq: "nd (xs @ [x]) p = nd xs p"
      by (simp_all add: nd_snoc)
    have "p div 2 \<noteq> length xs + 1" using p by auto
    moreover have "at xs (length xs + 1) = None" by (simp add: at_def)
    ultimately show "hp_mem (write_slot s None h) (nd xs p)
      = \<lparr>h_left = at xs (2 * p), h_right = at xs (2 * p + 1), h_parent = at xs (p div 2)\<rparr>"
      using links_mem [OF h p'] slot_of_node [OF d s p'] by (auto simp: eq at_snoc)
  qed
qed

lemma replace_nodes:
  assumes N: "hp_mem h N = \<lparr>h_left = L, h_right = R, h_parent = G\<rparr>"
    and ne: "N \<noteq> C" "L \<noteq> Some N" "L \<noteq> Some C" "R \<noteq> Some N" "R \<noteq> Some C" "G \<noteq> Some N" "G \<noteq> Some C"
  shows "hp_mem (replace_node N C h) C = \<lparr>h_left = L, h_right = R, h_parent = G\<rparr>"
    and "y \<noteq> N \<Longrightarrow> y \<noteq> C \<Longrightarrow> hp_mem (replace_node N C h) y =
           \<lparr>h_left = (if G = Some y \<and> h_left (hp_mem h y) = Some N then Some C else h_left (hp_mem h y)),
            h_right = (if G = Some y \<and> h_left (hp_mem h y) \<noteq> Some N then Some C else h_right (hp_mem h y)),
            h_parent = (if L = Some y \<or> R = Some y then Some C else h_parent (hp_mem h y))\<rparr>"
    and "hp_min (replace_node N C h) = (if G = None then Some C else hp_min h)"
  using ne N by (cases G; simp add: replace_node_def Let_def; fail)+

lemma nelts_replace [simp]: "nelts (replace_node N C h) = nelts h"
  by (simp add: replace_node_def Let_def split: option.splits)

definition put_at :: "hnode list \<Rightarrow> nat \<Rightarrow> hnode \<Rightarrow> hnode list" where
  "put_at xs p x = xs[p - 1 := x]"

lemma length_put_at [simp]: "length (put_at xs p x) = length xs"
  by (simp add: put_at_def)

lemma nd_put_at:
  "1 \<le> p \<Longrightarrow> p \<le> length xs \<Longrightarrow> 1 \<le> i \<Longrightarrow> i \<le> length xs \<Longrightarrow> nd (put_at xs p x) i = (if i = p then x else nd xs i)"
proof -
  assume a: "1 \<le> p" "p \<le> length xs" "1 \<le> i" "i \<le> length xs"
  then have "i - 1 = p - 1 \<longleftrightarrow> i = p" by auto
  then show ?thesis using a unfolding put_at_def nd_def by (auto simp: nth_list_update)
qed

lemma at_put_at:
  "1 \<le> p \<Longrightarrow> p \<le> length xs \<Longrightarrow> at (put_at xs p x) i = (if i = p then Some x else at xs i)"
  using nd_put_at [of p xs i x] by (auto simp: at_def)

lemma links_replace:
  assumes h: "links h xs" and p: "1 \<le> p" "p \<le> length xs" and C: "C \<notin> set xs"
  shows "links (replace_node (nd xs p) C h) (put_at xs p C)"
proof -
  let ?N = "nd xs p" and ?h' = "replace_node (nd xs p) C h"
  have d: "distinct xs" using h by (simp add: links_def)
  have out: "at xs i \<noteq> Some C" for i using C nd_in_set by (auto dest: at_SomeD)
  note ap = at_eq_nd [OF d p] and N = links_mem [OF h p]
  have ne: "?N \<noteq> C" "at xs (2 * p) \<noteq> Some ?N" "at xs (2 * p) \<noteq> Some C" "at xs (2 * p + 1) \<noteq> Some ?N"
    "at xs (2 * p + 1) \<noteq> Some C" "at xs (p div 2) \<noteq> Some ?N" "at xs (p div 2) \<noteq> Some C"
    using p out C nd_in_set [OF p] by (auto simp: ap)
  note res = replace_nodes [OF N ne] and put = at_put_at [OF p]
  show ?thesis
    unfolding links_def
  proof (intro conjI allI impI)
    show "distinct (put_at xs p C)" using d C by (simp add: put_at_def distinct_list_update)
    show "hp_min ?h' = at (put_at xs p C) 1"
    proof (cases "p = 1")
      case False
      then have "1 \<le> p div 2" "p div 2 \<le> length xs" using p by auto
      then show ?thesis using res(3) False h at_Some [of "p div 2" xs] by (simp add: put links_def)
    qed (use res(3) put [of C 1] in simp)
    fix i
    assume "1 \<le> i \<and> i \<le> length (put_at xs p C)"
    then have i: "1 \<le> i" "i \<le> length xs" by simp_all
    show "hp_mem ?h' (nd (put_at xs p C) i) = \<lparr>h_left = at (put_at xs p C) (2 * i),
        h_right = at (put_at xs p C) (2 * i + 1), h_parent = at (put_at xs p C) (i div 2)\<rparr>"
    proof (cases "i = p")
      case True
      moreover have "p div 2 \<noteq> p" using p by auto
      ultimately show ?thesis using res(1) nd_put_at [OF p i] p by (simp add: put)
    next
      case False
      have nei: "nd xs i \<noteq> ?N" "nd xs i \<noteq> C" using False nd_eq_iff [OF d i p] C nd_in_set [OF i] by auto
      have "hp_mem ?h' (nd xs i) =
        \<lparr>h_left = (if p div 2 = i \<and> 2 * i = p then Some C else at xs (2 * i)),
         h_right = (if p div 2 = i \<and> 2 * i \<noteq> p then Some C else at xs (2 * i + 1)),
         h_parent = (if 2 * p = i \<or> 2 * p + 1 = i then Some C else at xs (i div 2))\<rparr>"
        using res(2) [OF nei] links_mem [OF h i] by (simp only: ap at_eq_nd [OF d i] heap_node.simps)
      moreover have "p div 2 = i \<and> 2 * i = p \<longleftrightarrow> 2 * i = p" "p div 2 = i \<and> 2 * i \<noteq> p \<longleftrightarrow> 2 * i + 1 = p"
        "2 * p = i \<or> 2 * p + 1 = i \<longleftrightarrow> i div 2 = p" by auto
      ultimately show ?thesis using nd_put_at [OF p i] False by (simp add: put)
    qed
  qed
qed

section \<open>The operations keep the heap\<close>

definition heap_wf :: "(hnode \<Rightarrow> hnode \<Rightarrow> bool) \<Rightarrow> heap \<Rightarrow> hnode list \<Rightarrow> bool" where
  "heap_wf lt h xs \<longleftrightarrow> links h xs \<and> heap_ok lt xs \<and> unat (nelts h) = length xs"

lemma links_fresh:
  assumes "links h xs" "x \<notin> set xs"
  shows "links (set_parent x None (set_right x None (set_left x None h))) xs"
proof -
  have "nd xs p \<noteq> x" if "1 \<le> p" "p \<le> length xs" for p using nd_in_set [OF that] assms(2) by auto
  then show ?thesis using assms(1) by (simp add: links_def)
qed

lemma heap_ok_snoc: "heap_ok lt xs \<Longrightarrow> up_inv lt (xs @ [x]) (length xs + 1)"
proof -
  assume ok: "heap_ok lt xs"
  have "ok_at lt (xs @ [x]) i" if i: "i \<in> {2..length (xs @ [x])}" "i \<noteq> length xs + 1" for i
  proof -
    have "1 \<le> i" "i \<le> length xs" "1 \<le> i div 2" "i div 2 \<le> length xs" using i by auto
    then show ?thesis using ok i by (auto simp: heap_ok_def ok_at_def nd_snoc)
  qed
  moreover have "bridge lt (xs @ [x]) (length xs + 1)" by (auto simp: bridge_def)
  ultimately show ?thesis by (simp add: up_inv_def)
qed

lemma heap_ok_butlast: "heap_ok lt (xs @ [x]) \<Longrightarrow> heap_ok lt xs"
proof -
  assume ok: "heap_ok lt (xs @ [x])"
  have "ok_at lt xs i" if i: "i \<in> {2..length xs}" for i
  proof -
    have "1 \<le> i" "i \<le> length xs" "1 \<le> i div 2" "i div 2 \<le> length xs" using i by auto
    moreover have "ok_at lt (xs @ [x]) i" using ok i by (simp add: heap_ok_def)
    ultimately show ?thesis by (simp add: ok_at_def nd_snoc)
  qed
  then show ?thesis by (simp add: heap_ok_def)
qed

context node_order
begin

lemma down_inv_put:
  assumes ok: "heap_ok lt xs" and p: "1 \<le> p" "p \<le> length xs"
  shows "down_inv lt (put_at xs p x) p"
proof -
  have o: "ok_at lt xs i" if "i \<in> {2..length xs}" for i using ok that by (simp add: heap_ok_def)
  have "ok_at lt (put_at xs p x) i" if i: "i \<in> {2..length xs}" "i \<noteq> p" "i div 2 \<noteq> p" for i
  proof -
    have "1 \<le> i" "i \<le> length xs" "1 \<le> i div 2" "i div 2 \<le> length xs" using i by auto
    then show ?thesis using o [OF i(1)] i nd_put_at [OF p] by (simp add: ok_at_def)
  qed
  moreover have "bridge lt (put_at xs p x) p"
    unfolding bridge_def
  proof (intro impI ballI)
    fix i
    assume p2: "2 \<le> p" and i: "i \<in> {2..length (put_at xs p x)}" "i div 2 = p"
    have r: "1 \<le> i" "i \<le> length xs" "1 \<le> p div 2" "p div 2 \<le> length xs" "i \<noteq> p" "p div 2 \<noteq> p" using p2 p i by auto
    have "\<not> lt (nd xs i) (nd xs p)" "\<not> lt (nd xs p) (nd xs (p div 2))"
      using o [of i] o [of p] i p2 p by (simp_all add: ok_at_def)
    then have "\<not> lt (nd xs i) (nd xs (p div 2))" using not_lt_trans by blast
    then show "\<not> lt (nd (put_at xs p x) i) (nd (put_at xs p x) (p div 2))"
      using nd_put_at [OF p r(1,2)] nd_put_at [OF p r(3,4)] r(5,6) by simp
  qed
  ultimately show ?thesis by (simp add: down_inv_def)
qed

lemma heap_insert_ok:
  assumes wf: "heap_wf lt h xs" and x: "x \<notin> set xs" and room: "length xs < 2 ^ 32 - 1"
  shows "\<exists>h' ys. heap_insert lt x h = Inr h' \<and> heap_wf lt h' ys \<and> mset ys = add_mset x (mset xs)"
proof -
  define h1 where "h1 = set_parent x None (set_right x None (set_left x None h))"
  have l1: "links h1 xs" using links_fresh [OF _ x] wf by (simp add: h1_def heap_wf_def)
  have n1: "nelts h1 = nelts h" "unat (nelts h) = length xs" using wf by (simp_all add: h1_def heap_wf_def)
  have m1: "hp_mem h1 x = \<lparr>h_left = None, h_right = None, h_parent = None\<rparr>" by (simp add: h1_def)
  have cnt: "unat (1 + nelts h1) = length xs + 1" "unat (nelts h1 + 1) = length xs + 1"
    using n1 room by (simp_all add: unat_word_ariths)
  obtain path k where pk: "path_loop (1 + nelts h1) 0 0 = (path, k)" by fastforce
  have "1 \<le> 1 + nelts h1" using cnt(1) by (simp add: word_le_nat_alt)
  then have "walkpos path k 1 = length xs + 1"
    using path_loop_pos [OF _ _ _ pk] cnt(1) room by simp
  then obtain par chi where w: "walk k path Min_slot Min_slot h1 = Inr (par, chi)" "slot_pos xs chi (length xs + 1)"
    "slot_pos xs par ((length xs + 1) div 2) \<or> par = chi \<and> length xs + 1 = 1"
    using walk_ok [OF l1, of Min_slot 1 Min_slot path k] by auto
  define h2 where "h2 = (write_slot chi (Some x) (set_parent x (read_slot par h1) h1))\<lparr>nelts := nelts h1 + 1\<rparr>"
  have l2: "links h2 (xs @ [x])" using links_insert [OF l1 x m1 refl w(2,3)] by (simp add: h2_def)
  have "at (xs @ [x]) (length xs + 1) = Some x" by (simp add: at_snoc)
  moreover have "up_inv lt (xs @ [x]) (length xs + 1)" using heap_ok_snoc wf by (simp add: heap_wf_def)
  moreover have "length xs + 1 < unat (nelts h2) + 1" using cnt(2) by (simp add: h2_def)
  ultimately obtain h' ys where r: "up_loop lt (unat (nelts h2) + 1) x h2 = Inr h'" "links h' ys" "heap_ok lt ys"
    "mset ys = mset (xs @ [x])" "nelts h' = nelts h2" using up_loop_ok [OF l2] by blast
  have "heap_insert lt x h = Inr h'"
    using r(1) by (simp add: heap_insert_def Let_def h1_def [symmetric] pk w(1) h2_def del: up_loop.simps)
  moreover have "length ys = length xs + 1" using mset_eq_length [OF r(4)] by simp
  then have "heap_wf lt h' ys" using r cnt(2) by (simp add: heap_wf_def h2_def)
  ultimately show ?thesis using r(4) by auto
qed

lemma heap_remove_ok:
  assumes wf: "heap_wf lt h xs" and x: "x \<in> set xs"
  shows "\<exists>h' ys. heap_remove lt x h = Inr h' \<and> heap_wf lt h' ys \<and> mset ys = mset xs - {#x#}"
proof -
  obtain zs c where xs: "xs = zs @ [c]" using x by (cases xs rule: rev_cases) auto
  have l: "links h xs" and ok: "heap_ok lt zs" and n: "unat (nelts h) = length zs + 1"
    and d: "distinct zs" "c \<notin> set zs"
    using wf heap_ok_butlast [of lt zs c] by (auto simp: heap_wf_def xs links_def)
  obtain path k where pk: "path_loop (nelts h) 0 0 = (path, k)" by fastforce
  have "1 \<le> nelts h" using n by (simp add: word_le_nat_alt)
  moreover have "unat (nelts h) < 2 ^ LENGTH(32)" by (rule unsigned_less)
  ultimately have "walkpos path k 1 = length zs + 1" using path_loop_pos [OF _ _ _ pk] n by simp
  then obtain par chi where w: "walk k path Min_slot Min_slot h = Inr (par, chi)" "slot_pos xs chi (length zs + 1)"
    using walk_ok [OF l, of Min_slot 1 Min_slot path k] by (auto simp: xs)
  have rd: "read_slot chi h = Some c" using read_slot_at [OF l w(2)] by (simp add: xs at_snoc)
  define h1 where "h1 = (write_slot chi None h)\<lparr>nelts := nelts h - 1\<rparr>"
  have l1: "links h1 zs" using links_unlink [OF l [unfolded xs] w(2) [unfolded xs]] by (simp add: h1_def)
  have n1: "unat (nelts h1) = length zs" using n \<open>1 \<le> nelts h\<close> by (simp add: h1_def unat_sub)
  have ne: "nelts h \<noteq> 0" using n by auto
  have h1': "write_slot chi None (h\<lparr>nelts := nelts h - 1\<rparr>) = h1" "read_slot chi (h\<lparr>nelts := nelts h - 1\<rparr>) = read_slot chi h"
    by (cases chi; simp add: h1_def write_slot_def set_left_def set_right_def read_slot_def)+
  show ?thesis
  proof (cases "c = x")
    case True
    have "hp_min h1 \<noteq> Some c" using l1 d(2) nd_in_set by (auto simp: links_def dest: at_SomeD)
    then have "heap_remove lt x h = Inr h1"
      using True by (simp add: heap_remove_def ne pk w(1) Let_def h1' rd)
    moreover have "heap_wf lt h1 zs" using l1 ok n1 by (simp add: heap_wf_def)
    ultimately show ?thesis using True by (auto simp: xs)
  next
    case False
    then have "x \<in> set zs" using x by (auto simp: xs)
    then obtain p where p: "1 \<le> p" "p \<le> length zs" "nd zs p = x"
      by (auto simp: in_set_conv_nth nd_def intro!: that [of "Suc _"])
    define h2 where "h2 = replace_node x c h1"
    have l2: "links h2 (put_at zs p c)" using links_replace [OF l1 p(1,2) d(2)] p(3) by (simp add: h2_def)
    have n2: "nelts h2 = nelts h1" by (simp add: h2_def)
    have "at (put_at zs p c) p = Some c" using at_put_at [OF p(1,2)] by simp
    moreover have "length (put_at zs p c) < p + (unat (nelts h2) + 1)" using n1 n2 by simp
    ultimately obtain h3 ys q where r: "down_loop lt (unat (nelts h2) + 1) c h2 = Inr h3" "links h3 ys" "up_inv lt ys q"
      "at ys q = Some c" "mset ys = mset (put_at zs p c)" "nelts h3 = nelts h2"
      using down_loop_ok [OF l2 _ down_inv_put [OF ok p(1,2)]] by blast
    have "length ys = length zs" using mset_eq_length [OF r(5)] by simp
    then have "q < unat (nelts h2) + 1" using at_SomeD [OF r(4)] n1 n2 by simp
    then obtain h4 us where u: "up_loop lt (unat (nelts h2) + 1) c h3 = Inr h4" "links h4 us" "heap_ok lt us"
      "mset us = mset ys" "nelts h4 = nelts h3" using up_loop_ok [OF r(2,4,3)] by blast
    have "heap_remove lt x h = Inr h4"
      using False r(1) u(1) by (simp add: heap_remove_def ne pk w(1) Let_def h1' rd deref_def h2_def [symmetric] n2 [symmetric]
        del: up_loop.simps down_loop.simps)
    moreover have "length us = length zs" using mset_eq_length [OF u(4)] \<open>length ys = length zs\<close> by simp
    then have "heap_wf lt h4 us" using u r(6) n1 n2 by (simp add: heap_wf_def)
    moreover have "mset us = mset xs - {#x#}"
      using u(4) r(5) p False by (simp add: xs put_at_def mset_update nd_def)
    ultimately show ?thesis by auto
  qed
qed

lemma heap_dequeue_ok:
  assumes wf: "heap_wf lt h xs" and "xs \<noteq> []"
  shows "\<exists>h' ys. heap_dequeue lt h = Inr h' \<and> heap_wf lt h' ys \<and> mset ys = mset xs - {#nd xs 1#}"
proof -
  have len: "1 \<le> length xs" using assms(2) by (simp add: Suc_le_eq)
  then have "heap_root h = Some (nd xs 1)" "nelts h \<noteq> 0"
    using wf at_Some [OF order_refl len] by (auto simp: heap_wf_def links_def heap_root_def)
  then show ?thesis
    using heap_remove_ok [OF wf nd_in_set [OF order_refl len]] by (simp add: heap_dequeue_def deref_def)
qed

end

section \<open>The heap of the timers\<close>

definition timer_lt :: "(hnode \<Rightarrow> uv_timer_t) \<Rightarrow> hnode \<Rightarrow> hnode \<Rightarrow> bool" where
  "timer_lt tm a b = timer_less_than (tm a) (tm b)"

interpretation timer_order: node_order "timer_lt tm" for tm
  by unfold_locales (auto simp: timer_lt_def timer_less_than_def split: if_splits)

text \<open>
  A history of the heap: the fields of a handle that is not in the heap may change, a
  handle that is not in the heap is inserted, one that is in the heap is removed.
\<close>

datatype hop = Key hnode uv_timer_t | Ins hnode | Rem hnode

fun hop_step :: "hop \<Rightarrow> (hnode \<Rightarrow> uv_timer_t) \<times> heap \<Rightarrow> ((hnode \<Rightarrow> uv_timer_t) \<times> heap) res" where
  "hop_step (Key x t) (tm, h) = Inr (tm(x := t), h)"
| "hop_step (Ins x) (tm, h) = res_bind (heap_insert (timer_lt tm) x h) (\<lambda>h. Inr (tm, h))"
| "hop_step (Rem x) (tm, h) = res_bind (heap_remove (timer_lt tm) x h) (\<lambda>h. Inr (tm, h))"

fun hop_run :: "hop list \<Rightarrow> (hnode \<Rightarrow> uv_timer_t) \<times> heap \<Rightarrow> ((hnode \<Rightarrow> uv_timer_t) \<times> heap) res" where
  "hop_run [] s = Inr s"
| "hop_run (a # as) s = res_bind (hop_step a s) (hop_run as)"

text \<open>The abstract history: the nodes in the heap, in no particular order.\<close>

fun hop_nodes :: "hop list \<Rightarrow> hnode list \<Rightarrow> hnode list" where
  "hop_nodes [] S = S"
| "hop_nodes (Key x t # as) S = hop_nodes as S"
| "hop_nodes (Ins x # as) S = hop_nodes as (x # S)"
| "hop_nodes (Rem x # as) S = hop_nodes as (remove1 x S)"

fun hop_legal :: "hop list \<Rightarrow> hnode list \<Rightarrow> bool" where
  "hop_legal [] S = True"
| "hop_legal (Key x t # as) S = (x \<notin> set S \<and> hop_legal as S)"
| "hop_legal (Ins x # as) S = (x \<notin> set S \<and> length S < 2 ^ 32 - 1 \<and> hop_legal as (x # S))"
| "hop_legal (Rem x # as) S = (x \<in> set S \<and> hop_legal as (remove1 x S))"

lemma heap_wf_key:
  assumes "heap_wf (timer_lt tm) h xs" "x \<notin> set xs"
  shows "heap_wf (timer_lt (tm(x := t))) h xs"
proof -
  have "nd xs p \<noteq> x" if "1 \<le> p" "p \<le> length xs" for p using nd_in_set [OF that] assms(2) by auto
  moreover have "1 \<le> i" "1 \<le> i div 2" "i div 2 \<le> length xs" if "i \<in> {2..length xs}" for i using that by auto
  ultimately show ?thesis using assms(1)
    by (simp add: heap_wf_def heap_ok_def ok_at_def timer_lt_def)
qed

lemma heap_wf_init: "heap_wf lt (heap_init h) []"
  by (simp add: heap_wf_def heap_init_def links_def heap_ok_def at_def)

lemma hop_run_wf:
  assumes "heap_wf (timer_lt tm) h xs" "mset xs = mset S" "hop_legal as S"
  shows "\<exists>tm' h' ys. hop_run as (tm, h) = Inr (tm', h') \<and> heap_wf (timer_lt tm') h' ys \<and> mset ys = mset (hop_nodes as S)"
  using assms
proof (induction as S arbitrary: tm h xs rule: hop_legal.induct)
  case (2 x t as S)
  have "x \<notin> set xs" using 2 by (metis set_mset_mset hop_legal.simps(2))
  define tm1 where "tm1 = tm(x := t)"
  have "heap_wf (timer_lt tm1) h xs" unfolding tm1_def by (rule heap_wf_key [OF "2.prems"(1)]) fact
  from "2.IH" [OF this "2.prems"(2)] "2.prems"(3) show ?case by (simp add: tm1_def [symmetric])
next
  case (3 x as S)
  have x: "x \<notin> set xs" "length xs < 2 ^ 32 - 1"
    using 3 mset_eq_length [OF "3.prems"(2)] mset_eq_setD [OF "3.prems"(2)] by simp_all
  obtain h' ys where "heap_insert (timer_lt tm) x h = Inr h'" "heap_wf (timer_lt tm) h' ys" "mset ys = mset (x # S)"
    using timer_order.heap_insert_ok [OF "3.prems"(1) x] "3.prems"(2) by auto
  then show ?case using 3 by simp
next
  case (4 x as S)
  have x: "x \<in> set xs" using 4 mset_eq_setD [OF "4.prems"(2)] by simp
  obtain h' ys where "heap_remove (timer_lt tm) x h = Inr h'" "heap_wf (timer_lt tm) h' ys" "mset ys = mset (remove1 x S)"
    using timer_order.heap_remove_ok [OF "4.prems"(1) x] "4.prems"(2) by auto
  then show ?case using 4 by simp
qed auto

lemma heap_wf_root:
  assumes "heap_wf (timer_lt tm) h xs"
  shows "heap_root h = None \<longleftrightarrow> xs = []"
    and "heap_root h = Some m \<Longrightarrow> m \<in> set xs \<and> (\<forall>x\<in>set xs. \<not> timer_less_than (tm x) (tm m))"
proof -
  have r: "heap_root h = at xs 1" "heap_ok (timer_lt tm) xs" using assms by (simp_all add: heap_wf_def links_def heap_root_def)
  then show "heap_root h = None \<longleftrightarrow> xs = []" by (auto simp: at_def Suc_le_eq)
  assume "heap_root h = Some m"
  then have m: "1 \<le> length xs" "nd xs 1 = m" using r(1) at_SomeD [of xs 1 m] by auto
  have "\<not> timer_less_than (tm x) (tm m)" if x: "x \<in> set xs" for x
  proof -
    obtain j where "j < length xs" "x = xs ! j" using x by (auto simp: in_set_conv_nth)
    then show ?thesis
      using timer_order.root_least [OF r(2), of "Suc j"] m(2) by (simp add: nd_def timer_lt_def)
  qed
  then show "m \<in> set xs \<and> (\<forall>x\<in>set xs. \<not> timer_less_than (tm x) (tm m))" using nd_in_set [of 1 xs] m by auto
qed

text \<open>
  C4. Through every history of a timer heap no operation follows a null pointer or runs
  forever, the heap holds exactly the handles inserted and not removed, its counter is
  their number, and its root is one of them that no other is before: it is empty only
  when they all are gone.
\<close>

theorem heap_history:
  assumes "hop_legal as []"
  shows "\<exists>tm' h'. hop_run as (tm, heap_init h) = Inr (tm', h') \<and>
           unat (nelts h') = length (hop_nodes as []) \<and>
           (case heap_root h' of None \<Rightarrow> hop_nodes as [] = []
            | Some m \<Rightarrow> m \<in> set (hop_nodes as []) \<and>
                        (\<forall>x\<in>set (hop_nodes as []). \<not> timer_less_than (tm' x) (tm' m)))"
proof -
  obtain tm' h' ys where r: "hop_run as (tm, heap_init h) = Inr (tm', h')" "heap_wf (timer_lt tm') h' ys"
    "mset ys = mset (hop_nodes as [])"
    using hop_run_wf [OF heap_wf_init [of "timer_lt tm" h] _ assms, of] by auto
  have "unat (nelts h') = length (hop_nodes as [])" using r(2) mset_eq_length [OF r(3)] by (simp add: heap_wf_def)
  then show ?thesis
    using r(1) heap_wf_root [OF r(2)] mset_eq_setD [OF r(3)] by (auto split: option.splits)
qed

theorem heap_history_witness:
  "\<exists>tm' h'. hop_run [Ins 3, Ins 5, Rem 3]
       ((\<lambda>x. \<lparr>t_active = True, timer_cb = None, t_timeout = of_nat x, t_repeat = 0, start_id = 0\<rparr>),
        heap_init \<lparr>hp_min = None, nelts = 7, hp_mem = (\<lambda>_. \<lparr>h_left = None, h_right = None, h_parent = None\<rparr>)\<rparr>)
     = Inr (tm', h') \<and> unat (nelts h') = length (hop_nodes [Ins 3, Ins 5, Rem 3] []) \<and>
       (case heap_root h' of None \<Rightarrow> hop_nodes [Ins 3, Ins 5, Rem 3] [] = []
        | Some m \<Rightarrow> m \<in> set (hop_nodes [Ins 3, Ins 5, Rem 3] []) \<and>
            (\<forall>x\<in>set (hop_nodes [Ins 3, Ins 5, Rem 3] []). \<not> timer_less_than (tm' x) (tm' m)))"
  by (rule heap_history) simp

text \<open>
  The heap gives the timers what their model asks of it: when it holds the handles
  of the loop and no two of them were started with the same number, its root is the
  handle \<open>heap_min\<close> of the loop.
\<close>

theorem heap_root_timers:
  assumes "heap_wf (timer_lt (l_timers lp)) h xs" "set xs = set (timer_heap lp)"
    and "\<And>a b. a \<in> set xs \<Longrightarrow> b \<in> set xs \<Longrightarrow> start_id (l_timers lp a) = start_id (l_timers lp b) \<Longrightarrow> a = b"
  shows "heap_root h = heap_min lp"
proof (cases "heap_root h")
  case None
  then have "timer_heap lp = []" using heap_wf_root(1) [OF assms(1)] assms(2) by simp
  then show ?thesis using None heap_min_None [of lp] by simp
next
  case (Some m)
  note root = heap_wf_root(2) [OF assms(1) Some]
  obtain k where k: "heap_min lp = Some k" using root assms(2) heap_min_None [of lp] by fastforce
  note least = heap_min_ok [OF k]
  have "\<not> timer_less_than (l_timers lp k) (l_timers lp m)" "\<not> timer_less_than (l_timers lp m) (l_timers lp k)"
    using root least assms(2) by auto
  then have "start_id (l_timers lp k) = start_id (l_timers lp m)"
    by (auto simp: timer_less_than_def split: if_splits)
  then show ?thesis using assms(2,3) root least k Some by auto
qed

text \<open>One handle: the heap is its node, and the loop's least timer is it.\<close>

theorem heap_root_timers_witness:
  "heap_root \<lparr>hp_min = Some 4, nelts = 1, hp_mem = (\<lambda>_. \<lparr>h_left = None, h_right = None, h_parent = None\<rparr>)\<rparr>
   = heap_min \<lparr>l_time = 0, timer_counter = 1,
       l_timers = (\<lambda>_. \<lparr>t_active = True, timer_cb = Some 1, t_timeout = 9, t_repeat = 0, start_id = 0\<rparr>),
       timer_heap = [4], fired = []\<rparr>"
  by (rule heap_root_timers [of _ _ "[4]"]) (simp_all add: heap_wf_def links_def heap_ok_def at_def nd_def)

end
