(* ===== verification/UvQueue.thy ===== *)
theory UvQueue
  imports Prelude
begin

text \<open>
  The intrusive queues of \<open>libuv/src/queue.h\<close>: circular doubly linked lists whose nodes
  are fields of the structures they link.  The memory maps the address of a node to its two
  pointers; an address without a node (unallocated or freed memory) must not be used.
  The macros are functions on that memory.  A memory holds a family of queues when every
  queue of the family is a ring of distinct nodes linked both ways and no two queues
  share a node; the macros are shown to change the family as the operations on lists do.
  The locale \<open>queue_store\<close> is what the users of the macros rely on.
\<close>

section \<open>The macros\<close>

record 'a QUEUE =
  q_next :: 'a
  q_prev :: 'a

type_synonym 'a qmem = "'a \<Rightarrow> 'a QUEUE option"

definition QUEUE_NEXT :: "'a qmem \<Rightarrow> 'a \<Rightarrow> 'a res" where
  "QUEUE_NEXT s q = (case s q of None \<Rightarrow> Inl Use_after_free | Some n \<Rightarrow> Inr (q_next n))"

definition QUEUE_PREV :: "'a qmem \<Rightarrow> 'a \<Rightarrow> 'a res" where
  "QUEUE_PREV s q = (case s q of None \<Rightarrow> Inl Use_after_free | Some n \<Rightarrow> Inr (q_prev n))"

text \<open>The macros are lvalues: the assignments \<open>QUEUE_NEXT(q) = v\<close> and so on.\<close>

definition set_QUEUE_NEXT :: "'a \<Rightarrow> 'a \<Rightarrow> 'a qmem \<Rightarrow> 'a qmem res" where
  "set_QUEUE_NEXT q v s = (case s q of None \<Rightarrow> Inl Use_after_free | Some n \<Rightarrow> Inr (s(q \<mapsto> n\<lparr>q_next := v\<rparr>)))"

definition set_QUEUE_PREV :: "'a \<Rightarrow> 'a \<Rightarrow> 'a qmem \<Rightarrow> 'a qmem res" where
  "set_QUEUE_PREV q v s = (case s q of None \<Rightarrow> Inl Use_after_free | Some n \<Rightarrow> Inr (s(q \<mapsto> n\<lparr>q_prev := v\<rparr>)))"

definition set_QUEUE_PREV_NEXT :: "'a \<Rightarrow> 'a \<Rightarrow> 'a qmem \<Rightarrow> 'a qmem res" where
  "set_QUEUE_PREV_NEXT q v s = res_bind (QUEUE_PREV s q) (\<lambda>p. set_QUEUE_NEXT p v s)"

definition set_QUEUE_NEXT_PREV :: "'a \<Rightarrow> 'a \<Rightarrow> 'a qmem \<Rightarrow> 'a qmem res" where
  "set_QUEUE_NEXT_PREV q v s = res_bind (QUEUE_NEXT s q) (\<lambda>p. set_QUEUE_PREV p v s)"

definition QUEUE_EMPTY :: "'a qmem \<Rightarrow> 'a \<Rightarrow> bool res" where
  "QUEUE_EMPTY s q = res_bind (QUEUE_NEXT s q) (\<lambda>n. Inr (q = n))"

definition QUEUE_HEAD :: "'a qmem \<Rightarrow> 'a \<Rightarrow> 'a res" where
  "QUEUE_HEAD s q = QUEUE_NEXT s q"

definition QUEUE_INIT :: "'a \<Rightarrow> 'a qmem \<Rightarrow> 'a qmem res" where
  "QUEUE_INIT q s = res_bind (set_QUEUE_NEXT q q s) (set_QUEUE_PREV q q)"

definition QUEUE_ADD :: "'a \<Rightarrow> 'a \<Rightarrow> 'a qmem \<Rightarrow> 'a qmem res" where
  "QUEUE_ADD h n s =
     res_bind (QUEUE_NEXT s n) (\<lambda>v. res_bind (set_QUEUE_PREV_NEXT h v s) (\<lambda>s.
     res_bind (QUEUE_PREV s h) (\<lambda>v. res_bind (set_QUEUE_NEXT_PREV n v s) (\<lambda>s.
     res_bind (QUEUE_PREV s n) (\<lambda>v. res_bind (set_QUEUE_PREV h v s) (\<lambda>s.
     set_QUEUE_PREV_NEXT h h s))))))"

definition QUEUE_SPLIT :: "'a \<Rightarrow> 'a \<Rightarrow> 'a \<Rightarrow> 'a qmem \<Rightarrow> 'a qmem res" where
  "QUEUE_SPLIT h q n s =
     res_bind (QUEUE_PREV s h) (\<lambda>v. res_bind (set_QUEUE_PREV n v s) (\<lambda>s.
     res_bind (set_QUEUE_PREV_NEXT n n s) (\<lambda>s.
     res_bind (set_QUEUE_NEXT n q s) (\<lambda>s.
     res_bind (QUEUE_PREV s q) (\<lambda>v. res_bind (set_QUEUE_PREV h v s) (\<lambda>s.
     res_bind (set_QUEUE_PREV_NEXT h h s) (set_QUEUE_PREV q n)))))))"

definition QUEUE_INSERT_HEAD :: "'a \<Rightarrow> 'a \<Rightarrow> 'a qmem \<Rightarrow> 'a qmem res" where
  "QUEUE_INSERT_HEAD h q s =
     res_bind (QUEUE_NEXT s h) (\<lambda>v. res_bind (set_QUEUE_NEXT q v s) (\<lambda>s.
     res_bind (set_QUEUE_PREV q h s) (\<lambda>s.
     res_bind (set_QUEUE_NEXT_PREV q q s) (set_QUEUE_NEXT h q))))"

definition QUEUE_INSERT_TAIL :: "'a \<Rightarrow> 'a \<Rightarrow> 'a qmem \<Rightarrow> 'a qmem res" where
  "QUEUE_INSERT_TAIL h q s =
     res_bind (set_QUEUE_NEXT q h s) (\<lambda>s.
     res_bind (QUEUE_PREV s h) (\<lambda>v. res_bind (set_QUEUE_PREV q v s) (\<lambda>s.
     res_bind (set_QUEUE_PREV_NEXT q q s) (set_QUEUE_PREV h q))))"

definition QUEUE_REMOVE :: "'a \<Rightarrow> 'a qmem \<Rightarrow> 'a qmem res" where
  "QUEUE_REMOVE q s =
     res_bind (QUEUE_NEXT s q) (\<lambda>v. res_bind (set_QUEUE_PREV_NEXT q v s) (\<lambda>s.
     res_bind (QUEUE_PREV s q) (\<lambda>v. set_QUEUE_NEXT_PREV q v s)))"

text \<open>
  \<open>QUEUE_FOREACH\<close>: the nodes the loop visits with \<open>q\<close> when its body leaves the pointers
  alone.  A ring that does not come back to \<open>h\<close> makes it run forever.
\<close>

partial_function (option) foreach_loop :: "'a qmem \<Rightarrow> 'a \<Rightarrow> 'a \<Rightarrow> 'a list res option" where
  "foreach_loop s h q =
     (if q = h then Some (Inr [])
      else case QUEUE_NEXT s q of
             Inl e \<Rightarrow> Some (Inl e)
           | Inr q' \<Rightarrow> Option.bind (foreach_loop s h q') (\<lambda>r. Some (res_bind r (\<lambda>qs. Inr (q # qs)))))"

definition QUEUE_FOREACH :: "'a qmem \<Rightarrow> 'a \<Rightarrow> 'a list res option" where
  "QUEUE_FOREACH s h =
     (case QUEUE_NEXT s h of Inl e \<Rightarrow> Some (Inl e) | Inr q \<Rightarrow> foreach_loop s h q)"

section \<open>Rings\<close>

definition nx :: "'a qmem \<Rightarrow> 'a \<Rightarrow> 'a option" where
  "nx s a = map_option q_next (s a)"

definition pv :: "'a qmem \<Rightarrow> 'a \<Rightarrow> 'a option" where
  "pv s a = map_option q_prev (s a)"

definition link :: "'a qmem \<Rightarrow> 'a \<Rightarrow> 'a \<Rightarrow> bool" where
  "link s a b \<longleftrightarrow> nx s a = Some b \<and> pv s b = Some a"

fun seg :: "'a qmem \<Rightarrow> 'a \<Rightarrow> 'a list \<Rightarrow> bool" where
  "seg s a [] = True"
| "seg s a (x # xs) = (link s a x \<and> seg s x xs)"

definition is_queue :: "'a qmem \<Rightarrow> 'a \<Rightarrow> 'a list \<Rightarrow> bool" where
  "is_queue s h xs \<longleftrightarrow> distinct (h # xs) \<and> seg s h xs \<and> link s (last (h # xs)) h"

text \<open>The macros in terms of the two pointer maps.\<close>

lemma read_nx: "nx s q = Some v \<Longrightarrow> QUEUE_NEXT s q = Inr v"
  and read_pv: "pv s q = Some v \<Longrightarrow> QUEUE_PREV s q = Inr v"
  by (auto simp: nx_def pv_def QUEUE_NEXT_def QUEUE_PREV_def)

text \<open>Writing is described by the two maps of the new memory; \<open>eqv\<close> is that description.\<close>

definition upd_nx :: "'a qmem \<Rightarrow> 'a \<Rightarrow> 'a \<Rightarrow> 'a qmem" where
  "upd_nx s q v = s(q := map_option (\<lambda>n. n\<lparr>q_next := v\<rparr>) (s q))"

definition upd_pv :: "'a qmem \<Rightarrow> 'a \<Rightarrow> 'a \<Rightarrow> 'a qmem" where
  "upd_pv s q v = s(q := map_option (\<lambda>n. n\<lparr>q_prev := v\<rparr>) (s q))"

lemma set_nx: "q \<in> dom s \<Longrightarrow> set_QUEUE_NEXT q v s = Inr (upd_nx s q v)"
  and set_pv: "q \<in> dom s \<Longrightarrow> set_QUEUE_PREV q v s = Inr (upd_pv s q v)"
  by (auto simp: set_QUEUE_NEXT_def set_QUEUE_PREV_def upd_nx_def upd_pv_def)

lemma upd_simps [simp]:
  "dom (upd_nx s q v) = dom s" "dom (upd_pv s q v) = dom s"
  "nx (upd_pv s q v) = nx s" "pv (upd_nx s q v) = pv s"
  "a \<noteq> q \<Longrightarrow> upd_nx s q v a = s a" "a \<noteq> q \<Longrightarrow> upd_pv s q v a = s a"
  by (auto simp: upd_nx_def upd_pv_def nx_def pv_def option.map_comp comp_def split: if_splits)

lemma upd_nx_pv [simp]:
  "nx (upd_nx s q v) a = (if a = q \<and> q \<in> dom s then Some v else nx s a)"
  "pv (upd_pv s q v) a = (if a = q \<and> q \<in> dom s then Some v else pv s a)"
  by (cases "s q"; auto simp: upd_nx_def upd_pv_def nx_def pv_def)+

lemma nx_dom: "nx s a = Some b \<Longrightarrow> a \<in> dom s" and pv_dom: "pv s a = Some b \<Longrightarrow> a \<in> dom s"
  by (auto simp: nx_def pv_def)

lemma ring_append: "seg s a (xs @ y # ys) \<longleftrightarrow> seg s a xs \<and> link s (last (a # xs)) y \<and> seg s y ys"
  by (induction xs arbitrary: a) auto

lemma ring_cong:
  assumes "\<forall>v\<in>set (butlast (a # xs)). nx s' v = nx s v" "\<forall>v\<in>set xs. pv s' v = pv s v"
  shows "seg s' a xs = seg s a xs"
  using assms by (induction xs arbitrary: a) (auto simp: link_def)

lemma seg_dom: "seg s a xs \<Longrightarrow> set xs \<subseteq> dom s"
  by (induction xs arbitrary: a) (auto simp: link_def dest: pv_dom)

lemma is_queue_dom: "is_queue s h xs \<Longrightarrow> set (h # xs) \<subseteq> dom s"
  using seg_dom by (fastforce simp: is_queue_def link_def dest: pv_dom)

lemma is_queue_frame:
  assumes "is_queue s h xs" "\<forall>a\<in>set (h # xs). s' a = s a" shows "is_queue s' h xs"
proof -
  have *: "nx s' a = nx s a" "pv s' a = pv s a" if "a \<in> set (h # xs)" for a
    using assms(2) that by (auto simp: nx_def pv_def)
  have "seg s' h xs = seg s h xs" by (rule ring_cong) (auto simp: * dest: in_set_butlastD)
  then show ?thesis using assms(1) * [of h] * [of "last (h # xs)"] by (auto simp: is_queue_def link_def)
qed


section \<open>The macros on rings\<close>

text \<open>A macro that succeeds and touches only the given nodes.\<close>

definition changes :: "'a qmem res \<Rightarrow> 'a qmem \<Rightarrow> 'a set \<Rightarrow> ('a qmem \<Rightarrow> bool) \<Rightarrow> bool" where
  "changes r s A P \<longleftrightarrow> (\<exists>s'. r = Inr s' \<and> dom s' = dom s \<and> (\<forall>a. a \<notin> A \<longrightarrow> s' a = s a) \<and> P s')"

lemma last_not_butlast:
  assumes "distinct (a # xs)" shows "last (a # xs) \<notin> set (butlast (a # xs))"
proof -
  have "distinct (butlast (a # xs) @ [last (a # xs)])"
    using assms by (simp only: append_butlast_last_id list.distinct not_False_eq_True)
  then show ?thesis by (simp only: distinct_append) auto
qed

lemma queue_ends:
  assumes "is_queue s h xs"
  shows "nx s h = Some (hd (xs @ [h]))" "pv s h = Some (last (h # xs))"
  using assms by (cases xs; auto simp: is_queue_def link_def)+

lemma queue_init: "q \<in> dom s \<Longrightarrow> changes (QUEUE_INIT q s) s {q} (\<lambda>s'. is_queue s' q [])"
  by (auto simp: changes_def QUEUE_INIT_def set_nx set_pv is_queue_def link_def)

lemma queue_empty: "is_queue s h xs \<Longrightarrow> QUEUE_EMPTY s h = Inr (xs = [])"
  using queue_ends(1) [of s h xs] by (cases xs) (auto simp: QUEUE_EMPTY_def read_nx is_queue_def)

lemma queue_head: "is_queue s h (x # xs) \<Longrightarrow> QUEUE_HEAD s h = Inr x"
  using queue_ends(1) [of s h "x # xs"] by (simp add: QUEUE_HEAD_def read_nx)

lemma queue_insert_tail:
  assumes q: "is_queue s h xs" and new: "q \<in> dom s" "q \<notin> set (h # xs)"
  shows "changes (QUEUE_INSERT_TAIL h q s) s (set (q # h # xs)) (\<lambda>s'. is_queue s' h (xs @ [q]))"
proof -
  let ?l = "last (h # xs)"
  let ?s = "upd_pv (upd_nx (upd_pv (upd_nx s q h) q ?l) ?l q) h q"
  have d: "h \<in> dom s" "?l \<in> dom s" using is_queue_dom [OF q] last_in_set [of "h # xs"] by auto
  have l: "?l \<in> set (h # xs)" by (rule last_in_set) simp
  then have nq: "?l \<noteq> q" "h \<noteq> q" using new(2) by auto
  have "QUEUE_INSERT_TAIL h q s = Inr ?s"
    using d new(1) nq queue_ends(2) [OF q]
    by (simp add: QUEUE_INSERT_TAIL_def set_nx read_pv set_pv set_QUEUE_PREV_NEXT_def)
  moreover have "seg ?s h xs = seg s h xs"
  proof (rule ring_cong)
    have "?l \<notin> set (butlast (h # xs))" using q by (intro last_not_butlast) (simp add: is_queue_def)
    then show "\<forall>v\<in>set (butlast (h # xs)). nx ?s v = nx s v" using new(2) by (auto dest: in_set_butlastD split: if_splits)
    show "\<forall>v\<in>set xs. pv ?s v = pv s v" using q new(2) by (auto simp: is_queue_def)
  qed
  moreover have "?s a = s a" if "a \<notin> set (q # h # xs)" for a
  proof -
    have "a \<noteq> q" "a \<noteq> h" "a \<noteq> ?l" using that l by auto
    then show ?thesis by simp
  qed
  ultimately show ?thesis using q new d nq
    by (auto simp: changes_def is_queue_def ring_append link_def split: if_splits)
qed

lemma queue_insert_head:
  assumes q: "is_queue s h xs" and new: "q \<in> dom s" "q \<notin> set (h # xs)"
  shows "changes (QUEUE_INSERT_HEAD h q s) s (set (q # h # xs)) (\<lambda>s'. is_queue s' h (q # xs))"
proof -
  let ?f = "hd (xs @ [h])"
  let ?s = "upd_nx (upd_pv (upd_pv (upd_nx s q ?f) q h) ?f q) h q"
  have f: "?f \<in> set (h # xs)" by (cases xs) auto
  then have nq: "?f \<noteq> q" "h \<noteq> q" using new(2) by auto
  have d: "h \<in> dom s" "?f \<in> dom s" using is_queue_dom [OF q] f by auto
  have "QUEUE_INSERT_HEAD h q s = Inr ?s"
    using d new(1) nq queue_ends(1) [OF q]
    by (simp add: QUEUE_INSERT_HEAD_def set_nx read_nx set_pv set_QUEUE_NEXT_PREV_def)
  moreover have "?s a = s a" if "a \<notin> set (q # h # xs)" for a
  proof -
    have "a \<noteq> q" "a \<noteq> h" "a \<noteq> ?f" using that f by auto
    then show ?thesis by simp
  qed
  moreover have "is_queue ?s h (q # xs)"
  proof (cases xs)
    case Nil then show ?thesis using q new d nq by (auto simp: is_queue_def link_def)
  next
    case (Cons x ys)
    have "seg ?s x ys = seg s x ys"
      using q new(2) Cons by (intro ring_cong) (auto simp: is_queue_def dest: in_set_butlastD split: if_splits)
    then show ?thesis using q new d nq Cons by (auto simp: is_queue_def link_def)
  qed
  ultimately show ?thesis by (auto simp: changes_def)
qed

text \<open>Taking out the part of a ring between two nodes \<open>p\<close> and \<open>n\<close>.\<close>

lemma queue_remove:
  assumes q: "is_queue s h (ys @ x # zs)"
  shows "changes (QUEUE_REMOVE x s) s (set (h # ys @ zs)) (\<lambda>s'. is_queue s' h (ys @ zs))"
proof -
  let ?p = "last (h # ys)" and ?n = "hd (zs @ [h])"
  let ?s = "upd_pv (upd_nx s ?p ?n) ?n ?p"
  have n: "?n \<in> set (h # zs)" by (cases zs) auto
  have p: "?p \<in> set (h # ys)" by (rule last_in_set) simp
  have dis: "distinct (h # ys @ x # zs)" using q by (simp add: is_queue_def)
  have d: "?p \<in> dom s" "?n \<in> dom s" using is_queue_dom [OF q] p n by auto
  have xp: "pv s x = Some ?p" using q by (simp add: is_queue_def ring_append link_def)
  have xn: "nx s x = Some ?n" using q by (cases zs) (simp_all add: is_queue_def ring_append link_def)
  have "QUEUE_REMOVE x s = Inr ?s"
    using d xp xn by (simp add: QUEUE_REMOVE_def set_nx read_nx set_pv read_pv set_QUEUE_NEXT_PREV_def set_QUEUE_PREV_NEXT_def)
  moreover have "?s a = s a" if "a \<notin> set (h # ys @ zs)" for a
  proof -
    have "a \<noteq> ?p" "a \<noteq> ?n" using that n p by auto
    then show ?thesis by simp
  qed
  moreover have sy: "seg ?s h ys"
  proof -
    have "?p \<notin> set (butlast (h # ys))" using dis by (intro last_not_butlast) simp
    moreover have "?n \<notin> set ys" using dis n by auto
    ultimately have "seg ?s h ys = seg s h ys" by (intro ring_cong) (auto split: if_splits)
    then show ?thesis using q by (simp add: is_queue_def ring_append)
  qed
  moreover have "is_queue ?s h (ys @ zs)"
  proof (cases zs)
    case Nil then show ?thesis using q d sy by (auto simp: is_queue_def link_def)
  next
    case (Cons z zs')
    have "?p \<notin> set zs" using dis p by auto
    then have "seg ?s z zs' = seg s z zs'" using dis Cons
      by (intro ring_cong) (auto dest: in_set_butlastD split: if_splits)
    then show ?thesis using q d sy Cons \<open>?p \<notin> set zs\<close> dis
      by (auto simp: is_queue_def link_def ring_append split: if_splits)
  qed
  ultimately show ?thesis by (auto simp: changes_def)
qed

lemma queue_split:
  assumes q: "is_queue s h (ys @ x # zs)" and new: "n \<in> dom s" "n \<notin> set (h # ys @ x # zs)"
  shows "changes (QUEUE_SPLIT h x n s) s (set (n # h # ys @ x # zs))
           (\<lambda>s'. is_queue s' h ys \<and> is_queue s' n (x # zs))"
proof -
  let ?p = "last (h # ys)" and ?l = "last (x # zs)"
  let ?s1 = "upd_nx (upd_nx (upd_pv s n ?l) ?l n) n x"
  let ?s = "upd_pv (upd_nx (upd_pv ?s1 h ?p) ?p h) x n"
  have l: "?l \<in> set (x # zs)" and p: "?p \<in> set (h # ys)" by (rule last_in_set, simp)+
  have dis: "distinct (h # ys @ x # zs)" using q by (simp add: is_queue_def)
  have d: "?p \<in> dom s" "?l \<in> dom s" "h \<in> dom s" "x \<in> dom s" using is_queue_dom [OF q] p l by auto
  have "n \<notin> set (h # ys)" "n \<notin> set (x # zs)" "set (h # ys) \<inter> set (x # zs) = {}" "h \<in> set (h # ys)" "x \<in> set (x # zs)"
    using dis new(2) by auto
  then have ne: "x \<noteq> h" "x \<noteq> n" "h \<noteq> n" "?p \<noteq> n" "?l \<noteq> n" "?p \<noteq> ?l" "?l \<noteq> h" "?p \<noteq> x"
    and out: "?l \<notin> set (h # ys)" "?p \<notin> set (x # zs)"
    using p l unfolding disjoint_iff by metis+
  have hp: "pv s h = Some ?l" using queue_ends(2) [OF q] by simp
  have xp: "pv s x = Some ?p" using q by (simp add: is_queue_def ring_append link_def)
  have s1: "QUEUE_PREV ?s1 x = Inr ?p" by (rule read_pv) (use ne xp in simp)
  have "QUEUE_SPLIT h x n s = Inr ?s"
    using d hp ne s1 new(1)
    by (simp add: QUEUE_SPLIT_def set_nx set_pv read_pv set_QUEUE_PREV_NEXT_def del: last.simps)
  moreover have "?s a = s a" if "a \<notin> set (n # h # ys @ x # zs)" for a
  proof -
    have "a \<noteq> n" "a \<noteq> h" "a \<noteq> x" "a \<noteq> ?p" "a \<noteq> ?l" using that l p by auto
    then show ?thesis by (simp del: last.simps)
  qed
  moreover have "is_queue ?s h ys"
  proof -
    have "?p \<notin> set (butlast (h # ys))" using dis by (intro last_not_butlast) simp
    moreover have "n \<notin> set (butlast (h # ys))" "?l \<notin> set (butlast (h # ys))" "n \<notin> set ys" "h \<notin> set ys" "x \<notin> set ys"
      using dis new(2) in_set_butlastD [of n "h # ys"] in_set_butlastD [of ?l "h # ys"] out(1) by auto
    ultimately have "seg ?s h ys = seg s h ys" by (intro ring_cong) (auto simp del: last.simps butlast.simps split: if_splits)
    then show ?thesis using q d ne dis by (simp add: is_queue_def ring_append link_def del: last.simps)
  qed
  moreover have "is_queue ?s n (x # zs)"
  proof -
    have "?l \<notin> set (butlast (x # zs))" using dis by (intro last_not_butlast) simp
    moreover have "n \<notin> set (butlast (x # zs))" "?p \<notin> set (butlast (x # zs))" "n \<notin> set zs" "h \<notin> set zs" "x \<notin> set zs"
      using dis new(2) in_set_butlastD [of n "x # zs"] in_set_butlastD [of ?p "x # zs"] out(2) by auto
    ultimately have "seg ?s x zs = seg s x zs" by (intro ring_cong) (auto simp del: last.simps butlast.simps split: if_splits)
    then show ?thesis using q d ne dis new by (simp add: is_queue_def ring_append link_def last_ConsR del: last.simps)
  qed
  ultimately show ?thesis by (auto simp: changes_def)
qed

lemma queue_add:
  assumes q: "is_queue s h xs" "is_queue s n ys" and dj: "set (h # xs) \<inter> set (n # ys) = {}"
  shows "changes (QUEUE_ADD h n s) s (set (h # xs) \<union> set (n # ys)) (\<lambda>s'. is_queue s' h (xs @ ys))"
proof -
  let ?l = "last (h # xs)" and ?f = "hd (ys @ [n])" and ?m = "if ys = [] then last (h # xs) else last (n # ys)"
  let ?s = "upd_nx (upd_pv (upd_pv (upd_nx s ?l ?f) ?f ?l) h ?m) ?m h"
  have l: "?l \<in> set (h # xs)" by (rule last_in_set) simp
  have f: "?f \<in> set (n # ys)" by (cases ys) auto
  have m: "?m \<in> set (h # xs) \<union> set (n # ys)" by auto
  have d: "?l \<in> dom s" "?f \<in> dom s" "h \<in> dom s" "?m \<in> dom s"
    using is_queue_dom [OF q(1)] is_queue_dom [OF q(2)] l f m by auto
  have h: "h \<in> set (h # xs)" "n \<in> set (n # ys)" by simp_all
  have ne: "?l \<noteq> ?f" "?f \<noteq> h" "h \<noteq> n" "?l \<noteq> n" using dj l f h unfolding disjoint_iff by metis+
  have fn: "?f = n \<longleftrightarrow> ys = []" using q(2) by (cases ys) (auto simp: is_queue_def)
  have pn: "pv (upd_pv (upd_nx s ?l ?f) ?f ?l) n = Some ?m"
    using queue_ends(2) [OF q(2)] d(2) fn by auto
  have "QUEUE_ADD h n s = Inr ?s"
    using d ne pn queue_ends [OF q(1)] queue_ends(1) [OF q(2)]
    by (simp add: QUEUE_ADD_def set_nx read_nx set_pv read_pv set_QUEUE_NEXT_PREV_def set_QUEUE_PREV_NEXT_def del: last.simps)
  moreover have "?s a = s a" if "a \<notin> set (h # xs) \<union> set (n # ys)" for a
  proof -
    have "a \<noteq> h" "a \<noteq> ?l" "a \<noteq> ?f" "a \<noteq> ?m" using that l f m by auto
    then show ?thesis by (simp del: last.simps)
  qed
  moreover have "is_queue ?s h (xs @ ys)"
  proof (cases ys)
    case Nil
    have "?l \<notin> set (butlast (h # xs))" using q(1) by (intro last_not_butlast) (simp add: is_queue_def)
    moreover have "n \<notin> set xs" "h \<notin> set xs" using dj q(1) by (auto simp: is_queue_def)
    ultimately have "seg ?s h xs = seg s h xs"
      using Nil by (intro ring_cong) (auto simp del: last.simps butlast.simps split: if_splits)
    then show ?thesis using q d ne Nil by (simp add: is_queue_def link_def del: last.simps)
  next
    case (Cons y zs)
    have dis: "distinct (n # y # zs)" "distinct (h # xs)" using q Cons by (auto simp: is_queue_def)
    have "last (y # zs) \<in> set (y # zs)" by (rule last_in_set) simp
    then have my: "last (y # zs) \<notin> set (h # xs)" "?l \<notin> set (y # zs)" using dj Cons l by auto
    have "?l \<notin> set (butlast (h # xs))" "last (y # zs) \<notin> set (butlast (h # xs))" "y \<notin> set xs" "h \<notin> set xs"
      using dis dj Cons last_not_butlast [OF dis(2)] my(1) by (auto dest: in_set_butlastD simp del: last.simps butlast.simps)
    then have "seg ?s h xs = seg s h xs"
      using Cons by (intro ring_cong) (auto simp add: last_ConsR simp del: last.simps butlast.simps split: if_splits)
    moreover have "last (y # zs) \<notin> set (butlast (y # zs))" "?l \<notin> set (butlast (y # zs))" "y \<notin> set zs" "h \<notin> set zs"
      using dis dj Cons my(2) last_not_butlast [of y zs] by (auto dest: in_set_butlastD simp del: last.simps butlast.simps)
    then have "seg ?s y zs = seg s y zs"
      using Cons by (intro ring_cong) (auto simp del: butlast.simps split: if_splits)
    moreover have "?l \<noteq> last (y # zs)" using my(1) l by metis
    ultimately show ?thesis using q d ne Cons dj
      by (simp add: is_queue_def link_def ring_append)
  qed
  ultimately show ?thesis by (auto simp: changes_def)
qed

section \<open>Families of queues\<close>

type_synonym 'a queues = "'a \<Rightarrow> 'a list option"

definition nodes :: "'a queues \<Rightarrow> 'a set" where
  "nodes Q = {a. \<exists>h xs. Q h = Some xs \<and> a \<in> set (h # xs)}"

definition holds :: "'a qmem \<Rightarrow> 'a queues \<Rightarrow> bool" where
  "holds s Q \<longleftrightarrow> (\<forall>h xs. Q h = Some xs \<longrightarrow> is_queue s h xs) \<and>
     (\<forall>h xs g ys. Q h = Some xs \<longrightarrow> Q g = Some ys \<longrightarrow> h \<noteq> g \<longrightarrow> set (h # xs) \<inter> set (g # ys) = {})"

lemma holds_queue: "holds s Q \<Longrightarrow> Q h = Some xs \<Longrightarrow> is_queue s h xs"
  by (simp add: holds_def)

lemma holds_disjoint:
  "holds s Q \<Longrightarrow> Q h = Some xs \<Longrightarrow> Q g = Some ys \<Longrightarrow> h \<noteq> g \<Longrightarrow> set (h # xs) \<inter> set (g # ys) = {}"
  unfolding holds_def by blast

lemma holds_frame:
  assumes H: "holds s Q" and "\<forall>a\<in>nodes Q. s' a = s a" shows "holds s' Q"
proof -
  have "is_queue s' h xs" if "Q h = Some xs" for h xs
    using is_queue_frame [OF holds_queue [OF H that]] assms(2) that by (auto simp: nodes_def)
  then show ?thesis using H by (simp add: holds_def)
qed

lemma holds_nodes: "holds s Q \<Longrightarrow> nodes Q \<subseteq> dom s"
  using is_queue_dom by (fastforce simp: holds_def nodes_def)

lemma holds_forget: "holds s Q \<Longrightarrow> holds s (Q(h := None))"
  by (auto simp: holds_def split: if_splits)

lemma nodesI: "Q h = Some xs \<Longrightarrow> a \<in> set (h # xs) \<Longrightarrow> a \<in> nodes Q"
  by (auto simp: nodes_def)

text \<open>One queue changes, with nodes it had and new ones.\<close>

lemma holds_changes:
  assumes H: "holds s Q" and c: "changes r s A (\<lambda>s'. is_queue s' h ys)"
    and A: "A \<subseteq> N \<union> (case Q h of None \<Rightarrow> {} | Some xs \<Rightarrow> set (h # xs))"
    and ys: "set (h # ys) \<subseteq> N \<union> (case Q h of None \<Rightarrow> {} | Some xs \<Rightarrow> set (h # xs))"
    and N: "N \<inter> nodes Q = {}"
  shows "\<exists>s'. r = Inr s' \<and> dom s' = dom s \<and> holds s' (Q(h \<mapsto> ys))"
proof -
  obtain s' where s': "r = Inr s'" "dom s' = dom s" "\<And>a. a \<notin> A \<Longrightarrow> s' a = s a" "is_queue s' h ys"
    using c by (auto simp: changes_def)
  have other: "(A \<union> set (h # ys)) \<inter> set (g # zs) = {}" if "Q g = Some zs" "g \<noteq> h" for g zs
  proof -
    have "set (g # zs) \<subseteq> nodes Q" using that(1) by (auto simp: nodes_def)
    moreover have "set (h # xs) \<inter> set (g # zs) = {}" if "Q h = Some xs" for xs
      by (rule holds_disjoint [OF H that \<open>Q g = Some zs\<close>]) (use \<open>g \<noteq> h\<close> in simp)
    ultimately have "(N \<union> (case Q h of None \<Rightarrow> {} | Some xs \<Rightarrow> set (h # xs))) \<inter> set (g # zs) = {}"
      using N by (cases "Q h") (simp, blast, simp only: option.case, blast)
    then show ?thesis using A ys by blast
  qed
  have "is_queue s' g zs" if "Q g = Some zs" "g \<noteq> h" for g zs
    by (rule is_queue_frame [OF holds_queue [OF H that(1)]]) (use other [OF that] s'(3) in blast)
  then have "is_queue s' g zs" if "(Q(h \<mapsto> ys)) g = Some zs" for g zs
    using that s'(4) by (cases "g = h") auto
  moreover have "set (g # zs) \<inter> set (k # us) = {}"
    if "(Q(h \<mapsto> ys)) g = Some zs" "(Q(h \<mapsto> ys)) k = Some us" "g \<noteq> k" for g zs k us
    using that other [of g zs] other [of k us] holds_disjoint [OF H, of g zs k us]
    by (cases "g = h"; cases "k = h") auto
  ultimately have "holds s' (Q(h \<mapsto> ys))" unfolding holds_def by blast
  then show ?thesis using s'(1,2) by blast
qed

lemma holds_init:
  assumes "holds s Q" "q \<in> dom s" "q \<notin> nodes Q"
  shows "\<exists>s'. QUEUE_INIT q s = Inr s' \<and> dom s' = dom s \<and> holds s' (Q(q \<mapsto> []))"
  by (rule holds_changes [OF assms(1) queue_init [OF assms(2)], where N = "{q}"]) (use assms(3) in auto)

lemma new_node: "holds s Q \<Longrightarrow> Q h = Some xs \<Longrightarrow> q \<notin> nodes Q \<Longrightarrow> q \<notin> set (h # xs)"
  using nodesI by fast

lemma holds_insert_tail:
  assumes "holds s Q" "Q h = Some xs" "q \<in> dom s" "q \<notin> nodes Q"
  shows "\<exists>s'. QUEUE_INSERT_TAIL h q s = Inr s' \<and> dom s' = dom s \<and> holds s' (Q(h \<mapsto> xs @ [q]))"
  by (rule holds_changes [OF assms(1) queue_insert_tail [OF holds_queue [OF assms(1,2)] assms(3) new_node [OF assms(1,2,4)]], where N = "{q}"])
    (use assms(2,4) in auto)

lemma holds_insert_head:
  assumes "holds s Q" "Q h = Some xs" "q \<in> dom s" "q \<notin> nodes Q"
  shows "\<exists>s'. QUEUE_INSERT_HEAD h q s = Inr s' \<and> dom s' = dom s \<and> holds s' (Q(h \<mapsto> q # xs))"
  by (rule holds_changes [OF assms(1) queue_insert_head [OF holds_queue [OF assms(1,2)] assms(3) new_node [OF assms(1,2,4)]], where N = "{q}"])
    (use assms(2,4) in auto)

lemma holds_remove:
  assumes "holds s Q" "Q h = Some xs" "q \<in> set xs"
  shows "\<exists>s'. QUEUE_REMOVE q s = Inr s' \<and> dom s' = dom s \<and> holds s' (Q(h \<mapsto> remove1 q xs))"
proof -
  obtain ys zs where xs: "xs = ys @ q # zs" "q \<notin> set ys" using split_list_first [OF assms(3)] by auto
  have "is_queue s h (ys @ q # zs)" using holds_queue [OF assms(1,2)] xs by simp
  from queue_remove [OF this] have "changes (QUEUE_REMOVE q s) s (set (h # ys @ zs)) (\<lambda>s'. is_queue s' h (remove1 q xs))"
    using xs by (simp add: remove1_append)
  from holds_changes [OF assms(1) this, where N = "{}"] show ?thesis
    using assms(2) xs by (auto simp: remove1_append)
qed

text \<open>A queue is cut in two at a node; or, the other way round, a queue takes the nodes of another.\<close>

lemma holds_split:
  assumes H: "holds s Q" and h: "Q h = Some (ys @ x # zs)" and n: "n \<in> dom s" "n \<notin> nodes Q"
  shows "\<exists>s'. QUEUE_SPLIT h x n s = Inr s' \<and> dom s' = dom s \<and> holds s' (Q(h \<mapsto> ys, n \<mapsto> x # zs))"
proof -
  obtain s' where s': "QUEUE_SPLIT h x n s = Inr s'" "dom s' = dom s"
      "\<And>a. a \<notin> set (n # h # ys @ x # zs) \<Longrightarrow> s' a = s a" "is_queue s' h ys" "is_queue s' n (x # zs)"
    using queue_split [OF holds_queue [OF H h] n(1) new_node [OF H h n(2)]] by (auto simp: changes_def)
  have c: "changes (Inr s') s (set (n # h # ys @ x # zs)) (\<lambda>s'. is_queue s' h ys)"
    using s' by (simp add: changes_def)
  have H1: "holds s' (Q(h \<mapsto> ys))"
    using holds_changes [OF H c, where N = "{n}"] n(2) h by auto
  have nn: "set (n # x # zs) \<inter> nodes (Q(h \<mapsto> ys)) = {}"
  proof -
    have "set (g # us) \<inter> set (n # x # zs) = {}" if "Q g = Some us" "g \<noteq> h" for g us
      using holds_disjoint [OF H h that(1)] that(2) n(2) nodesI [of Q g us n] that(1) by auto
    moreover have "set (h # ys) \<inter> set (n # x # zs) = {}"
      using holds_queue [OF H h] new_node [OF H h n(2)] by (auto simp: is_queue_def)
    ultimately show ?thesis unfolding nodes_def fun_upd_apply by (auto split: if_splits)
  qed
  have c: "changes (Inr s') s' {} (\<lambda>s'. is_queue s' n (x # zs))" using s'(5) by (simp add: changes_def)
  have "holds s' (Q(h \<mapsto> ys, n \<mapsto> x # zs))"
    using holds_changes [OF H1 c, where N = "set (n # x # zs)"] nn by auto
  then show ?thesis using s'(1,2) by blast
qed

lemma holds_add:
  assumes H: "holds s Q" and h: "Q h = Some xs" "Q n = Some ys" "h \<noteq> n"
  shows "\<exists>s'. QUEUE_ADD h n s = Inr s' \<and> dom s' = dom s \<and> holds s' (Q(n := None, h \<mapsto> xs @ ys))"
proof -
  have nn: "set (n # ys) \<inter> nodes (Q(n := None)) = {}"
    using holds_disjoint [OF H h(2)] unfolding nodes_def fun_upd_apply by (auto split: if_splits)
  show ?thesis
    by (rule holds_changes [OF holds_forget [OF H] queue_add [OF holds_queue [OF H h(1)] holds_queue [OF H h(2)] holds_disjoint [OF H h]],
          where N = "set (n # ys)"]) (use h nn in auto)
qed

text \<open>\<open>QUEUE_FOREACH\<close> visits the nodes of a queue in order, and ends.\<close>

lemma foreach_seg:
  assumes "seg s a xs" "nx s (last (a # xs)) = Some h" "h \<notin> set xs"
  shows "foreach_loop s h (hd (xs @ [h])) = Some (Inr xs)"
  using assms
proof (induction xs arbitrary: a)
  case Nil
  then show ?case by (subst foreach_loop.simps) simp
next
  case (Cons x xs)
  have n: "nx s x = Some (hd (xs @ [h]))" using Cons.prems by (cases xs) (auto simp: link_def)
  have "foreach_loop s h (hd (xs @ [h])) = Some (Inr xs)"
    using Cons.prems by (intro Cons.IH [of x]) auto
  moreover have "x \<noteq> h" using Cons.prems(3) by auto
  ultimately show ?case by (subst foreach_loop.simps) (simp add: read_nx [OF n])
qed

lemma queue_foreach: "is_queue s h xs \<Longrightarrow> QUEUE_FOREACH s h = Some (Inr xs)"
  using foreach_seg [of s h xs h] queue_ends(1) [of s h xs]
  by (simp add: is_queue_def link_def QUEUE_FOREACH_def read_nx)

lemmas holds_empty = queue_empty [OF holds_queue]
lemmas holds_head = queue_head [OF holds_queue]

text \<open>A node that is in a queue does not look like an empty queue itself.\<close>

lemma holds_member:
  assumes "holds s Q" "Q h = Some xs" "x \<in> set xs" shows "QUEUE_EMPTY s x = Inr False"
proof -
  obtain ys zs where xs: "xs = ys @ x # zs" using split_list [OF assms(3)] by blast
  have q: "is_queue s h (ys @ x # zs)" using holds_queue [OF assms(1,2)] xs by simp
  then have "nx s x = Some (hd (zs @ [h]))" by (cases zs) (simp_all add: is_queue_def ring_append link_def)
  moreover have "x \<noteq> hd (zs @ [h])" using q by (cases zs) (auto simp: is_queue_def)
  ultimately show ?thesis by (simp add: QUEUE_EMPTY_def read_nx)
qed

section \<open>The interface\<close>

text \<open>What the users of the macros rely on: a family of lists of nodes.\<close>

locale queue_store =
  fixes holding :: "'s \<Rightarrow> 'a queues \<Rightarrow> bool"
    and live :: "'s \<Rightarrow> 'a set"
    and q_empty :: "'s \<Rightarrow> 'a \<Rightarrow> bool res"
    and q_head :: "'s \<Rightarrow> 'a \<Rightarrow> 'a res"
    and q_init :: "'a \<Rightarrow> 's \<Rightarrow> 's res"
    and q_insert_tail :: "'a \<Rightarrow> 'a \<Rightarrow> 's \<Rightarrow> 's res"
    and q_remove :: "'a \<Rightarrow> 's \<Rightarrow> 's res"
    and q_split :: "'a \<Rightarrow> 'a \<Rightarrow> 'a \<Rightarrow> 's \<Rightarrow> 's res"
  assumes empty_law: "holding s Q \<Longrightarrow> Q h = Some xs \<Longrightarrow> q_empty s h = Inr (xs = [])"
    and member_law: "holding s Q \<Longrightarrow> Q h = Some xs \<Longrightarrow> x \<in> set xs \<Longrightarrow> q_empty s x = Inr False"
    and head_law: "holding s Q \<Longrightarrow> Q h = Some (x # xs) \<Longrightarrow> q_head s h = Inr x"
    and init_law: "holding s Q \<Longrightarrow> q \<in> live s \<Longrightarrow> q \<notin> nodes Q \<Longrightarrow>
          \<exists>s'. q_init q s = Inr s' \<and> live s' = live s \<and> holding s' (Q(q \<mapsto> []))"
    and insert_tail_law: "holding s Q \<Longrightarrow> Q h = Some xs \<Longrightarrow> q \<in> live s \<Longrightarrow> q \<notin> nodes Q \<Longrightarrow>
          \<exists>s'. q_insert_tail h q s = Inr s' \<and> live s' = live s \<and> holding s' (Q(h \<mapsto> xs @ [q]))"
    and remove_law: "holding s Q \<Longrightarrow> Q h = Some xs \<Longrightarrow> q \<in> set xs \<Longrightarrow>
          \<exists>s'. q_remove q s = Inr s' \<and> live s' = live s \<and> holding s' (Q(h \<mapsto> remove1 q xs))"
    and split_law: "holding s Q \<Longrightarrow> Q h = Some (ys @ x # zs) \<Longrightarrow> n \<in> live s \<Longrightarrow> n \<notin> nodes Q \<Longrightarrow>
          \<exists>s'. q_split h x n s = Inr s' \<and> live s' = live s \<and> holding s' (Q(h \<mapsto> ys, n \<mapsto> x # zs))"
    and forget_law: "holding s Q \<Longrightarrow> holding s (Q(h := None))"
begin

text \<open>The first node is taken out.\<close>

lemma pop_front:
  assumes "holding s Q" "Q h = Some (x # xs)"
  shows "\<exists>s'. q_head s h = Inr x \<and> q_remove x s = Inr s' \<and> live s' = live s \<and> holding s' (Q(h \<mapsto> xs))"
  using head_law [OF assms] remove_law [OF assms, of x] by auto

text \<open>A node goes from one queue to the end of another.\<close>

lemma transfer:
  assumes "holding s Q" "Q h = Some xs" "x \<in> set xs" "Q g = Some ys" "g \<noteq> h"
    and "x \<in> live s" "x \<notin> nodes (Q(h \<mapsto> remove1 x xs))"
  shows "\<exists>s'. res_bind (q_remove x s) (q_insert_tail g x) = Inr s' \<and> live s' = live s \<and>
           holding s' (Q(h \<mapsto> remove1 x xs, g \<mapsto> ys @ [x]))"
proof -
  obtain s1 where s1: "q_remove x s = Inr s1" "live s1 = live s" "holding s1 (Q(h \<mapsto> remove1 x xs))"
    using remove_law [OF assms(1-3)] by blast
  then show ?thesis
    using insert_tail_law [OF s1(3), of g ys x] assms(4-7) by auto
qed

text \<open>A new queue takes everything a queue has.\<close>

lemma take_all:
  assumes "holding s Q" "Q h = Some xs" "n \<in> live s" "n \<notin> nodes Q"
  shows "\<exists>s'. res_bind (q_init n s) (\<lambda>s. res_bind (q_empty s h) (\<lambda>e. if e then Inr s
              else res_bind (q_head s h) (\<lambda>x. q_split h x n s))) = Inr s'
           \<and> live s' = live s \<and> holding s' (Q(h \<mapsto> [], n \<mapsto> xs))"
proof -
  have nh: "n \<noteq> h" using assms(2,4) nodesI [of Q h xs h] by auto
  obtain s1 where s1: "q_init n s = Inr s1" "live s1 = live s" "holding s1 (Q(n \<mapsto> []))"
    using init_law [OF assms(1,3,4)] by blast
  show ?thesis
  proof (cases xs)
    case Nil
    then show ?thesis using s1 empty_law [OF s1(3), of h] assms(2) nh
      by (auto simp: fun_upd_twist fun_upd_idem)
  next
    case (Cons x ys)
    have e: "q_empty s1 h = Inr False" "q_head s1 h = Inr x"
      using empty_law [OF s1(3), of h xs] head_law [OF s1(3), of h x ys] assms(2) nh Cons by auto
    have "(Q(n \<mapsto> []))(n := None) = Q" using assms(4) nodesI [of Q n _ n] by (cases "Q n") auto
    then have "holding s1 Q" using forget_law [OF s1(3), of n] by simp
    from split_law [OF this, of h "[]" x ys n] show ?thesis
      using s1 e assms Cons by auto
  qed
qed

end

interpretation uvq: queue_store holds dom QUEUE_EMPTY QUEUE_HEAD QUEUE_INIT QUEUE_INSERT_TAIL QUEUE_REMOVE QUEUE_SPLIT
  by unfold_locales (rule holds_empty holds_member holds_head holds_init holds_insert_tail holds_remove holds_split holds_forget; assumption)+

section \<open>Histories\<close>

text \<open>
  The operations on a family, with the queue a removed node is in; what an operation
  needs, its effect on the lists, and its effect on the memory.
\<close>

datatype 'a qop = Q_init 'a | Q_head 'a 'a | Q_tail 'a 'a | Q_remove 'a 'a | Q_split 'a 'a 'a | Q_add 'a 'a

definition fresh :: "'a set \<Rightarrow> 'a queues \<Rightarrow> 'a \<Rightarrow> bool" where
  "fresh A Q q \<longleftrightarrow> q \<in> A \<and> q \<notin> nodes Q"

fun qop_pre :: "'a set \<Rightarrow> 'a queues \<Rightarrow> 'a qop \<Rightarrow> bool" where
  "qop_pre A Q (Q_init q) = fresh A Q q"
| "qop_pre A Q (Q_head h q) = (Q h \<noteq> None \<and> fresh A Q q)"
| "qop_pre A Q (Q_tail h q) = (Q h \<noteq> None \<and> fresh A Q q)"
| "qop_pre A Q (Q_remove h q) = (\<exists>xs. Q h = Some xs \<and> q \<in> set xs)"
| "qop_pre A Q (Q_split h q n) = ((\<exists>xs. Q h = Some xs \<and> q \<in> set xs) \<and> fresh A Q n)"
| "qop_pre A Q (Q_add h n) = (Q h \<noteq> None \<and> Q n \<noteq> None \<and> h \<noteq> n)"

fun qop_spec :: "'a queues \<Rightarrow> 'a qop \<Rightarrow> 'a queues" where
  "qop_spec Q (Q_init q) = Q(q \<mapsto> [])"
| "qop_spec Q (Q_head h q) = Q(h \<mapsto> q # the (Q h))"
| "qop_spec Q (Q_tail h q) = Q(h \<mapsto> the (Q h) @ [q])"
| "qop_spec Q (Q_remove h q) = Q(h \<mapsto> remove1 q (the (Q h)))"
| "qop_spec Q (Q_split h q n) =
     Q(h \<mapsto> takeWhile (\<lambda>x. x \<noteq> q) (the (Q h)), n \<mapsto> dropWhile (\<lambda>x. x \<noteq> q) (the (Q h)))"
| "qop_spec Q (Q_add h n) = Q(n := None, h \<mapsto> the (Q h) @ the (Q n))"

fun qop_run :: "'a qop \<Rightarrow> 'a qmem \<Rightarrow> 'a qmem res" where
  "qop_run (Q_init q) s = QUEUE_INIT q s"
| "qop_run (Q_head h q) s = QUEUE_INSERT_HEAD h q s"
| "qop_run (Q_tail h q) s = QUEUE_INSERT_TAIL h q s"
| "qop_run (Q_remove h q) s = QUEUE_REMOVE q s"
| "qop_run (Q_split h q n) s = QUEUE_SPLIT h q n s"
| "qop_run (Q_add h n) s = QUEUE_ADD h n s"

lemma qop_step:
  assumes H: "holds s Q" and pre: "qop_pre (dom s) Q op"
  shows "\<exists>s'. qop_run op s = Inr s' \<and> dom s' = dom s \<and> holds s' (qop_spec Q op)"
  using pre
proof (cases op)
  case (Q_split h q n)
  then obtain xs where xs: "Q h = Some xs" "q \<in> set xs" "fresh (dom s) Q n" using pre by auto
  have "xs = takeWhile (\<lambda>x. x \<noteq> q) xs @ dropWhile (\<lambda>x. x \<noteq> q) xs" by simp
  moreover obtain zs where z: "dropWhile (\<lambda>x. x \<noteq> q) xs = q # zs"
    using xs(2) hd_dropWhile [of "\<lambda>x. x \<noteq> q" xs] by (cases "dropWhile (\<lambda>x. x \<noteq> q) xs") (auto simp: dropWhile_eq_Nil_conv)
  ultimately have "Q h = Some (takeWhile (\<lambda>x. x \<noteq> q) xs @ q # zs)" using xs(1) by simp
  from holds_split [OF H this] show ?thesis using xs z Q_split by (simp add: fresh_def)
qed (auto simp: fresh_def intro: holds_init [OF H] holds_insert_head [OF H] holds_insert_tail [OF H]
      holds_remove [OF H] holds_add [OF H])

fun qops_pre :: "'a set \<Rightarrow> 'a queues \<Rightarrow> 'a qop list \<Rightarrow> bool" where
  "qops_pre A Q [] = True"
| "qops_pre A Q (op # ops) = (qop_pre A Q op \<and> qops_pre A (qop_spec Q op) ops)"

fun qops_run :: "'a qop list \<Rightarrow> 'a qmem \<Rightarrow> 'a qmem res" where
  "qops_run [] s = Inr s"
| "qops_run (op # ops) s = res_bind (qop_run op s) (qops_run ops)"

lemma qops_refine:
  "holds s Q \<Longrightarrow> qops_pre (dom s) Q ops \<Longrightarrow>
     \<exists>s'. qops_run ops s = Inr s' \<and> holds s' (foldl qop_spec Q ops)"
proof (induction ops arbitrary: s Q)
  case (Cons op ops)
  obtain s' where s': "qop_run op s = Inr s'" "dom s' = dom s" "holds s' (qop_spec Q op)"
    using qop_step [OF Cons.prems(1), of op] Cons.prems(2) by auto
  with Cons.IH [OF s'(3)] Cons.prems(2) show ?case by simp
qed simp

text \<open>
  C7. Through every history of the macros, starting with memory without queues, the memory
  holds the queues that the same operations on lists give, and \<open>QUEUE_FOREACH\<close>,
  \<open>QUEUE_EMPTY\<close> and \<open>QUEUE_HEAD\<close> read them; no step touches memory that is not a node.
\<close>

theorem queue_history:
  assumes "qops_pre (dom s) (\<lambda>_. None) ops"
  shows "\<exists>s'. qops_run ops s = Inr s' \<and>
           (\<forall>h xs. foldl qop_spec (\<lambda>_. None) ops h = Some xs \<longrightarrow>
              QUEUE_FOREACH s' h = Some (Inr xs) \<and> QUEUE_EMPTY s' h = Inr (xs = []) \<and>
              (xs \<noteq> [] \<longrightarrow> QUEUE_HEAD s' h = Inr (hd xs)))"
proof -
  have "holds s (\<lambda>_. None)" by (simp add: holds_def)
  from qops_refine [OF this assms] obtain s'
    where s': "qops_run ops s = Inr s'" "holds s' (foldl qop_spec (\<lambda>_. None) ops)" by blast
  have "QUEUE_FOREACH s' h = Some (Inr xs) \<and> QUEUE_EMPTY s' h = Inr (xs = []) \<and>
          (xs \<noteq> [] \<longrightarrow> QUEUE_HEAD s' h = Inr (hd xs))" if "foldl qop_spec (\<lambda>_. None) ops h = Some xs" for h xs
    using queue_foreach [OF holds_queue [OF s'(2) that]] holds_empty [OF s'(2) that] holds_head [OF s'(2), of h] that
    by (cases xs) simp_all
  then show ?thesis using s'(1) by blast
qed

theorem queue_history_witness:
  "\<exists>s'. qops_run [Q_init 0, Q_tail 0 1, Q_head 0 2, Q_split 0 1 3, Q_tail 0 4, Q_remove 0 2, Q_add 0 3] (\<lambda>_. Some \<lparr>q_next = 0, q_prev = 0\<rparr>) = Inr s' \<and>
     QUEUE_FOREACH s' (0 :: nat) = Some (Inr [4, 1])"
proof -
  let ?ops = "[Q_init 0, Q_tail 0 1, Q_head 0 2, Q_split 0 1 3, Q_tail 0 4, Q_remove 0 2, Q_add 0 3] :: nat qop list"
  have "qops_pre (dom (\<lambda>_ :: nat. Some \<lparr>q_next = 0 :: nat, q_prev = 0\<rparr>)) (\<lambda>_. None) ?ops"
    by (simp add: fresh_def nodes_def dom_def)
  from queue_history [OF this] show ?thesis by auto
qed

end
