(* ===== verification/ThreadPool.thy ===== *)
theory ThreadPool
  imports UvQueue
begin

text \<open>
  The thread pool of \<open>libuv/src/threadpool.c\<close>.  Requests are submitted and cancelled by
  the threads of loops, executed by worker threads and finished on the loop that
  submitted them.  The state has the memory of the queue nodes (the queue of the
  pool, of the loops and of the requests themselves), the fields of the requests, the
  state of each thread and the history of what happened.  A step is one critical
  section, or the code between two of them: the sections of one mutex exclude each other.
  A condition variable has the workers that wait on it; a signal wakes one of
  them, if there is any, and workers may wake up without a signal.  The theory shows that
  no interleaving of the threads leaves the life cycle of a request or touches
  memory it must not, and that no wake-up is lost.
\<close>

section \<open>State\<close>

datatype qaddr = Wq | Exit_message | Loop_wq nat | Local_wq nat | Active_reqs nat | Work_wq nat | Req_queue nat

datatype work_fn = Queue_work | Cancelled_work

text \<open>The fields of \<open>uv_work_t\<close> and of the \<open>struct uv__work\<close> in it; \<open>loop\<close> is in both.\<close>

record uv_work =
  w_work :: "work_fn option"
  w_loop :: nat
  after_work_cb :: bool

datatype thread = Awake | Asleep | Running nat | Finished nat | Exited

text \<open>
  What happens to a request: submitted, taken by a worker, its function called, put on the
  queue of its loop; cancelled, the cancelled request put on the queue, cancelling refused;
  and \<open>w->done\<close> called with a status, with a call of the user's function if there is one.
\<close>

datatype event = Submitted nat | Taken nat | Worked nat | Completed nat
  | Cancel_ok nat | Cancel_queued nat | Cancel_busy nat | Done nat int bool

record pool =
  qs :: "qaddr qmem"
  reqs :: "nat \<Rightarrow> uv_work option"
  nthreads :: nat
  threads :: "nat \<Rightarrow> thread"
  pending :: "nat \<Rightarrow> bool"
  draining :: "nat \<Rightarrow> bool"
  cancelling :: "nat \<Rightarrow> nat option"
  exit_posted :: bool
  initialized :: bool
  hist :: "event list"

definition UV_EINVAL :: int where "UV_EINVAL = -22"
definition UV_EBUSY :: int where "UV_EBUSY = -16"
definition UV_ECANCELED :: int where "UV_ECANCELED = -125"

definition note_event :: "event \<Rightarrow> pool \<Rightarrow> pool" where
  "note_event e p = p\<lparr>hist := e # hist p\<rparr>"

definition set_thread :: "nat \<Rightarrow> thread \<Rightarrow> pool \<Rightarrow> pool" where
  "set_thread i t p = p\<lparr>threads := (threads p)(i := t)\<rparr>"

definition set_req :: "nat \<Rightarrow> uv_work \<Rightarrow> pool \<Rightarrow> pool" where
  "set_req w r p = p\<lparr>reqs := (reqs p)(w \<mapsto> r)\<rparr>"

definition get_req :: "nat \<Rightarrow> pool \<Rightarrow> uv_work res" where
  "get_req w p = (case reqs p w of None \<Rightarrow> Inl Use_after_free | Some r \<Rightarrow> Inr r)"

text \<open>A macro of \<open>queue.h\<close> on the memory of the pool.\<close>

definition on_qs :: "(qaddr qmem \<Rightarrow> qaddr qmem res) \<Rightarrow> pool \<Rightarrow> pool res" where
  "on_qs f p = res_bind (f (qs p)) (\<lambda>s. Inr (p\<lparr>qs := s\<rparr>))"

section \<open>The functions\<close>

text \<open>\<open>QUEUE_DATA(q, struct uv__work, wq)\<close>: the request a node is part of.\<close>

definition QUEUE_DATA :: "qaddr \<Rightarrow> nat res" where
  "QUEUE_DATA q = (case q of Work_wq w \<Rightarrow> Inr w | _ \<Rightarrow> Inl Bad_conversion)"

text \<open>\<open>j\<close> is the worker the system chooses to wake.\<close>

definition uv_cond_signal :: "nat \<Rightarrow> pool \<Rightarrow> pool" where
  "uv_cond_signal j p = (if threads p j = Asleep then set_thread j Awake p else p)"

definition uv_async_send :: "nat \<Rightarrow> pool \<Rightarrow> pool" where
  "uv_async_send l p = p\<lparr>pending := (pending p)(l := True)\<rparr>"

text \<open>The first critical section of the loop of \<open>worker\<close>, up to \<open>uv_cond_wait\<close> or to the unlock.\<close>

definition worker_take :: "nat \<Rightarrow> nat \<Rightarrow> pool \<Rightarrow> pool res" where
  "worker_take i j p =
     res_bind (QUEUE_EMPTY (qs p) Wq) (\<lambda>empty.
     if empty then Inr (set_thread i Asleep p)
     else res_bind (QUEUE_HEAD (qs p) Wq) (\<lambda>q.
       if q = Exit_message then Inr (set_thread i Exited (uv_cond_signal j p))
       else res_bind (on_qs (QUEUE_REMOVE q) p) (\<lambda>p.
            res_bind (on_qs (QUEUE_INIT q) p) (\<lambda>p.
            res_bind (QUEUE_DATA q) (\<lambda>w. Inr (set_thread i (Running w) (note_event (Taken w) p)))))))"

definition uv__cancelled :: "pool \<Rightarrow> pool res" where
  "uv__cancelled p = Inl Aborted"

text \<open>\<open>req->work_cb(req)\<close> is the user's function; that it was called is noted.\<close>

definition uv__queue_work :: "nat \<Rightarrow> pool \<Rightarrow> pool res" where
  "uv__queue_work w p = Inr (note_event (Worked w) p)"

text \<open>\<open>w->work(w)\<close>.\<close>

definition worker_work :: "nat \<Rightarrow> nat \<Rightarrow> pool \<Rightarrow> pool res" where
  "worker_work i w p =
     res_bind (get_req w p) (\<lambda>r.
     case w_work r of
       None \<Rightarrow> Inl Null_deref
     | Some Cancelled_work \<Rightarrow> uv__cancelled p
     | Some Queue_work \<Rightarrow> res_bind (uv__queue_work w p) (\<lambda>p. Inr (set_thread i (Finished w) p)))"

definition worker_finish :: "nat \<Rightarrow> nat \<Rightarrow> pool \<Rightarrow> pool res" where
  "worker_finish i w p =
     res_bind (get_req w p) (\<lambda>r.
     let p = set_req w (r\<lparr>w_work := None\<rparr>) p
     in res_bind (on_qs (QUEUE_INSERT_TAIL (Loop_wq (w_loop r)) (Work_wq w)) p) (\<lambda>p.
        Inr (set_thread i Awake (note_event (Completed w) (uv_async_send (w_loop r) p)))))"

definition post :: "qaddr \<Rightarrow> nat \<Rightarrow> pool \<Rightarrow> pool res" where
  "post q j p = res_bind (on_qs (QUEUE_INSERT_TAIL Wq q) p) (\<lambda>p. Inr (uv_cond_signal j p))"

text \<open>
  \<open>cleanup\<close> posts the exit message; then it waits until every worker has left its loop and
  takes the pool down (\<open>None\<close> while it waits).
\<close>

definition cleanup_post :: "nat \<Rightarrow> pool \<Rightarrow> pool res" where
  "cleanup_post j p =
     (if \<not> initialized p then Inr p
      else res_bind (post Exit_message j p) (\<lambda>p. Inr (p\<lparr>exit_posted := True\<rparr>)))"

definition cleanup_join :: "pool \<Rightarrow> pool option" where
  "cleanup_join p =
     (if \<forall>i<nthreads p. threads p i = Exited then Some (p\<lparr>nthreads := 0, initialized := False\<rparr>) else None)"

text \<open>
  The number of threads: \<open>val\<close> is what \<open>atoi\<close> makes of the environment variable, if it is
  set, and \<open>al\<close> says whether \<open>malloc\<close> succeeds.
\<close>

definition pool_size :: "int option \<Rightarrow> bool \<Rightarrow> u32" where
  "pool_size val al =
     (let n = (case val of None \<Rightarrow> 4 | Some v \<Rightarrow> word_of_int v);
          n = (if n = 0 then 1 else n);
          n = (if n > 128 then 128 else n)
      in if n > 4 \<and> \<not> al then 4 else n)"

text \<open>\<open>sys\<close>: the condition variable, the mutex and the threads can be created.\<close>

definition init_once :: "int option \<Rightarrow> bool \<Rightarrow> bool \<Rightarrow> pool \<Rightarrow> pool res" where
  "init_once val al sys p =
     (if \<not> sys then Inl Aborted
      else let n = unat (pool_size val al)
      in res_bind (on_qs (QUEUE_INIT Wq) p) (\<lambda>p.
         Inr (p\<lparr>nthreads := n, threads := (\<lambda>i. if i < n then Awake else Exited), initialized := True\<rparr>)))"

definition uv__work_submit :: "nat \<Rightarrow> nat \<Rightarrow> work_fn \<Rightarrow> nat \<Rightarrow> pool \<Rightarrow> pool res" where
  "uv__work_submit l w work j p =
     res_bind (get_req w p) (\<lambda>r.
       post (Work_wq w) j (set_req w (r\<lparr>w_loop := l, w_work := Some work\<rparr>) p))"

text \<open>The two parts of \<open>uv__work_cancel\<close>, before and after the mutexes are released.\<close>

definition uv__work_cancel1 :: "nat \<Rightarrow> nat \<Rightarrow> pool \<Rightarrow> (pool \<times> int option) res" where
  "uv__work_cancel1 l w p =
     res_bind (get_req w p) (\<lambda>r.
     res_bind (QUEUE_EMPTY (qs p) (Work_wq w)) (\<lambda>empty.
       let cancelled = (\<not> empty \<and> w_work r \<noteq> None)
       in if cancelled
          then res_bind (on_qs (QUEUE_REMOVE (Work_wq w)) p) (\<lambda>p.
               Inr (note_event (Cancel_ok w) (p\<lparr>cancelling := (cancelling p)(l \<mapsto> w)\<rparr>), None))
          else Inr (note_event (Cancel_busy w) p, Some UV_EBUSY)))"

definition uv__work_cancel2 :: "nat \<Rightarrow> nat \<Rightarrow> pool \<Rightarrow> pool res" where
  "uv__work_cancel2 l w p =
     res_bind (get_req w p) (\<lambda>r.
     let p = set_req w (r\<lparr>w_work := Some Cancelled_work\<rparr>) p
     in res_bind (on_qs (QUEUE_INSERT_TAIL (Loop_wq l) (Work_wq w)) p) (\<lambda>p.
        Inr (note_event (Cancel_queued w) ((uv_async_send l p)\<lparr>cancelling := (cancelling p)(l := None)\<rparr>))))"

text \<open>The active requests of a loop.\<close>

definition uv__has_active_reqs :: "nat \<Rightarrow> pool \<Rightarrow> bool res" where
  "uv__has_active_reqs l p = res_bind (QUEUE_EMPTY (qs p) (Active_reqs l)) (\<lambda>empty. Inr (\<not> empty))"

definition uv__req_register :: "nat \<Rightarrow> nat \<Rightarrow> pool \<Rightarrow> pool res" where
  "uv__req_register l w p = on_qs (QUEUE_INSERT_TAIL (Active_reqs l) (Req_queue w)) p"

definition uv__req_unregister :: "nat \<Rightarrow> nat \<Rightarrow> pool \<Rightarrow> pool res" where
  "uv__req_unregister l w p =
     res_bind (uv__has_active_reqs l p) (\<lambda>has.
       if \<not> has then Inl Aborted else on_qs (QUEUE_REMOVE (Req_queue w)) p)"

definition uv__queue_done :: "nat \<Rightarrow> int \<Rightarrow> pool \<Rightarrow> pool res" where
  "uv__queue_done w err p =
     res_bind (get_req w p) (\<lambda>r.
     res_bind (uv__req_unregister (w_loop r) w p) (\<lambda>p. Inr (note_event (Done w err (after_work_cb r)) p)))"

text \<open>
  \<open>uv__work_done\<close>: the part under the mutex, which moves the queue of the loop to a local
  one, and one round of the loop.  The loop's thread calls it for a pending \<open>uv_async_t\<close>.
\<close>

definition uv__work_done1 :: "nat \<Rightarrow> pool \<Rightarrow> pool res" where
  "uv__work_done1 l p =
     on_qs (\<lambda>s. res_bind (QUEUE_INIT (Local_wq l) s) (\<lambda>s. res_bind (QUEUE_EMPTY s (Loop_wq l)) (\<lambda>empty.
              if empty then Inr s
              else res_bind (QUEUE_HEAD s (Loop_wq l)) (\<lambda>q. QUEUE_SPLIT (Loop_wq l) q (Local_wq l) s))))
       (p\<lparr>pending := (pending p)(l := False), draining := (draining p)(l := True)\<rparr>)"

definition uv__work_done2 :: "nat \<Rightarrow> pool \<Rightarrow> pool res" where
  "uv__work_done2 l p =
     res_bind (QUEUE_EMPTY (qs p) (Local_wq l)) (\<lambda>empty.
     if empty then Inr (p\<lparr>draining := (draining p)(l := False)\<rparr>)
     else res_bind (QUEUE_HEAD (qs p) (Local_wq l)) (\<lambda>q.
          res_bind (on_qs (QUEUE_REMOVE q) p) (\<lambda>p.
          res_bind (QUEUE_DATA q) (\<lambda>w.
          res_bind (get_req w p) (\<lambda>r.
            uv__queue_done w (if w_work r = Some Cancelled_work then UV_ECANCELED else 0) p)))))"

definition uv_queue_work :: "nat \<Rightarrow> nat \<Rightarrow> bool \<Rightarrow> bool \<Rightarrow> nat \<Rightarrow> pool \<Rightarrow> (pool \<times> int) res" where
  "uv_queue_work l w work_cb after j p =
     (if \<not> work_cb then Inr (p, UV_EINVAL)
      else res_bind (uv__req_register l w p) (\<lambda>p.
           res_bind (get_req w p) (\<lambda>r.
           res_bind (uv__work_submit l w Queue_work j (set_req w (r\<lparr>w_loop := l, after_work_cb := after\<rparr>) p)) (\<lambda>p.
             Inr (note_event (Submitted w) p, 0)))))"

text \<open>\<open>uv_cancel\<close> for requests of the given type; the types with work in the pool go the same way.\<close>

datatype req_type = UV_FS | UV_GETADDRINFO | UV_GETNAMEINFO | UV_WORK | UV_OTHER_REQ

definition uv_cancel :: "req_type \<Rightarrow> nat \<Rightarrow> pool \<Rightarrow> (pool \<times> int option) res" where
  "uv_cancel ty w p =
     (if ty = UV_OTHER_REQ then Inr (p, Some UV_EINVAL)
      else res_bind (get_req w p) (\<lambda>r. uv__work_cancel1 (w_loop r) w p))"

section \<open>The life cycle of a request\<close>

text \<open>
  The specification: from the events of one request to its phase.  \<open>None\<close> stands for a
  history that must not happen.
\<close>

datatype phase = Idle | Queued | Executing | Executed | Finishing | Cancelling | Cancelled

fun about :: "event \<Rightarrow> nat" where
  "about (Submitted w) = w"
| "about (Taken w) = w"
| "about (Worked w) = w"
| "about (Completed w) = w"
| "about (Cancel_ok w) = w"
| "about (Cancel_queued w) = w"
| "about (Cancel_busy w) = w"
| "about (Done w _ _) = w"

fun life_step :: "phase \<Rightarrow> event \<Rightarrow> phase option" where
  "life_step Idle (Submitted _) = Some Queued"
| "life_step Queued (Taken _) = Some Executing"
| "life_step Executing (Worked _) = Some Executed"
| "life_step Executed (Completed _) = Some Finishing"
| "life_step Finishing (Done _ err _) = (if err = 0 then Some Idle else None)"
| "life_step Queued (Cancel_ok _) = Some Cancelling"
| "life_step Cancelled (Cancel_ok _) = Some Cancelling"
| "life_step Cancelling (Cancel_queued _) = Some Cancelled"
| "life_step Cancelled (Done _ err _) = (if err = UV_ECANCELED then Some Idle else None)"
| "life_step Executing (Cancel_busy _) = Some Executing"
| "life_step Executed (Cancel_busy _) = Some Executed"
| "life_step Finishing (Cancel_busy _) = Some Finishing"
| "life_step _ _ = None"

fun life :: "nat \<Rightarrow> event list \<Rightarrow> phase option" where
  "life w [] = Some Idle"
| "life w (e # es) = (if about e = w then Option.bind (life w es) (\<lambda>ph. life_step ph e) else life w es)"

abbreviation phase_of :: "pool \<Rightarrow> nat \<Rightarrow> phase option" where
  "phase_of p w \<equiv> life w (hist p)"

section \<open>Interleavings\<close>

text \<open>
  The steps of the threads.  A user allocates requests, and frees them only while they are idle; a
  request is submitted only while it is idle and cancelled only while it is not, both by a
  loop's thread that is not inside \<open>uv__work_cancel\<close>.  \<open>j\<close> is the worker a signal wakes.
\<close>

datatype action = Alloc nat uv_work "qaddr QUEUE" "qaddr QUEUE" | Free nat
  | Submit nat nat bool nat | Take nat nat | Work nat nat | Finish nat nat | Spurious nat
  | Cancel1 req_type nat | Cancel2 nat nat | Done1 nat | Done2 nat | Exit nat

definition may_wake :: "pool \<Rightarrow> nat \<Rightarrow> bool" where
  "may_wake p j \<longleftrightarrow> (\<exists>k<nthreads p. threads p k = Asleep) \<longrightarrow> j < nthreads p \<and> threads p j = Asleep"

definition loop_free :: "pool \<Rightarrow> nat \<Rightarrow> bool" where
  "loop_free p l \<longleftrightarrow> cancelling p l = None"

fun enabled :: "pool \<Rightarrow> action \<Rightarrow> bool" where
  "enabled p (Alloc w r a b) = (reqs p w = None)"
| "enabled p (Free w) = (reqs p w \<noteq> None \<and> phase_of p w = Some Idle)"
| "enabled p (Submit l w after j) =
     (reqs p w \<noteq> None \<and> phase_of p w = Some Idle \<and> loop_free p l \<and> may_wake p j)"
| "enabled p (Take i j) = (i < nthreads p \<and> threads p i = Awake \<and> may_wake p j)"
| "enabled p (Work i w) = (i < nthreads p \<and> threads p i = Running w)"
| "enabled p (Finish i w) = (i < nthreads p \<and> threads p i = Finished w)"
| "enabled p (Spurious i) = (i < nthreads p \<and> threads p i = Asleep)"
| "enabled p (Cancel1 ty w) =
     (case reqs p w of None \<Rightarrow> False
      | Some r \<Rightarrow> phase_of p w \<noteq> Some Idle \<and> loop_free p (w_loop r))"
| "enabled p (Cancel2 l w) = (cancelling p l = Some w)"
| "enabled p (Done1 l) = (pending p l \<and> \<not> draining p l \<and> loop_free p l)"
| "enabled p (Done2 l) = (draining p l \<and> loop_free p l)"
| "enabled p (Exit j) = (\<not> exit_posted p \<and> may_wake p j)"

fun act :: "action \<Rightarrow> pool \<Rightarrow> pool res" where
  "act (Alloc w r a b) p = Inr (p\<lparr>reqs := (reqs p)(w \<mapsto> r), qs := (qs p)(Work_wq w \<mapsto> a, Req_queue w \<mapsto> b)\<rparr>)"
| "act (Free w) p = Inr (p\<lparr>reqs := (reqs p)(w := None), qs := (qs p)(Work_wq w := None, Req_queue w := None)\<rparr>)"
| "act (Submit l w after j) p = map_sum id fst (uv_queue_work l w True after j p)"
| "act (Take i j) p = worker_take i j p"
| "act (Work i w) p = worker_work i w p"
| "act (Finish i w) p = worker_finish i w p"
| "act (Spurious i) p = Inr (set_thread i Awake p)"
| "act (Cancel1 ty w) p = map_sum id fst (uv_cancel ty w p)"
| "act (Cancel2 l w) p = uv__work_cancel2 l w p"
| "act (Done1 l) p = uv__work_done1 l p"
| "act (Done2 l) p = uv__work_done2 l p"
| "act (Exit j) p = cleanup_post j p"

text \<open>
  Before the pool is initialised: the queues of the loops are empty rings, there are no
  requests, and the other queue heads are memory with some contents.
\<close>

definition boot :: pool where
  "boot = \<lparr>qs = (\<lambda>a. case a of Work_wq _ \<Rightarrow> None | Req_queue _ \<Rightarrow> None | Wq \<Rightarrow> Some \<lparr>q_next = Exit_message, q_prev = Exit_message\<rparr>
                      | _ \<Rightarrow> Some \<lparr>q_next = a, q_prev = a\<rparr>),
     reqs = (\<lambda>_. None), nthreads = 0, threads = (\<lambda>_. Exited), pending = (\<lambda>_. False),
     draining = (\<lambda>_. False), cancelling = (\<lambda>_. None), exit_posted = False, initialized = False, hist = []\<rparr>"

inductive pool_reach :: "pool \<Rightarrow> bool" where
  start: "init_once val al sys boot = Inr p \<Longrightarrow> pool_reach p"
| step: "pool_reach p \<Longrightarrow> enabled p a \<Longrightarrow> act a p = Inr p' \<Longrightarrow> pool_reach p'"

lemma pool_size_bounds: "1 \<le> unat (pool_size val al) \<and> unat (pool_size val al) \<le> 128"
proof -
  have "pool_size val al \<noteq> 0" "pool_size val al \<le> 128"
    by (auto simp: pool_size_def Let_def split: option.splits)
  then show ?thesis by (auto simp: word_le_nat_alt unat_gt_0 Suc_le_eq)
qed

end
