(* ===== verification/PoolInv.thy ===== *)
theory PoolInv
  imports ThreadPool
begin

text \<open>
  The invariant of the thread pool of \<open>threadpool.c\<close> and that every step keeps it: the
  memory holds the queues that the phases of the requests call for, the fields of a request
  and the states of the threads agree with its phase, and a worker is awake while there
  is work.  The queues are used through the laws of \<open>queue_store\<close> only.
\<close>

section \<open>The invariant\<close>

text \<open>
  The queues: \<open>gq\<close> that of the pool, \<open>lq\<close> and \<open>dq\<close> those of a loop and of a running
  \<open>uv__work_done\<close>, \<open>ac\<close> the active requests of a loop, and a ring of its own for
  every request that is being executed (\<open>ex\<close>).
\<close>

definition fam :: "(nat \<Rightarrow> bool) \<Rightarrow> (nat \<Rightarrow> bool) \<Rightarrow> qaddr list \<Rightarrow> (nat \<Rightarrow> nat list) \<Rightarrow> (nat \<Rightarrow> nat list) \<Rightarrow>
    (nat \<Rightarrow> nat list) \<Rightarrow> qaddr queues" where
  "fam dr ex gq lq dq ac =
     (\<lambda>a. case a of Wq \<Rightarrow> Some gq | Exit_message \<Rightarrow> None | Loop_wq l \<Rightarrow> Some (map Work_wq (lq l))
        | Local_wq l \<Rightarrow> if dr l then Some (map Work_wq (dq l)) else None
        | Active_reqs l \<Rightarrow> Some (map Req_queue (ac l))
        | Work_wq w \<Rightarrow> if ex w then Some [] else None | Req_queue w \<Rightarrow> None)"

lemma fam_simps [simp]:
  "fam dr ex gq lq dq ac Wq = Some gq"
  "fam dr ex gq lq dq ac Exit_message = None"
  "fam dr ex gq lq dq ac (Loop_wq l) = Some (map Work_wq (lq l))"
  "fam dr ex gq lq dq ac (Local_wq l) = (if dr l then Some (map Work_wq (dq l)) else None)"
  "fam dr ex gq lq dq ac (Active_reqs l) = Some (map Req_queue (ac l))"
  "fam dr ex gq lq dq ac (Work_wq w) = (if ex w then Some [] else None)"
  "fam dr ex gq lq dq ac (Req_queue w) = None"
  by (simp_all add: fam_def)

lemma fam_upd:
  "(fam dr ex gq lq dq ac)(Wq \<mapsto> gq') = fam dr ex gq' lq dq ac"
  "(fam dr ex gq lq dq ac)(Loop_wq l \<mapsto> map Work_wq ws) = fam dr ex gq (lq(l := ws)) dq ac"
  "(fam dr ex gq lq dq ac)(Local_wq l \<mapsto> map Work_wq ws) = fam (dr(l := True)) ex gq lq (dq(l := ws)) ac"
  "(fam dr ex gq lq dq ac)(Local_wq l := None) = fam (dr(l := False)) ex gq lq dq ac"
  "(fam dr ex gq lq dq ac)(Active_reqs l \<mapsto> map Req_queue ws) = fam dr ex gq lq dq (ac(l := ws))"
  "(fam dr ex gq lq dq ac)(Work_wq w \<mapsto> []) = fam dr (ex(w := True)) gq lq dq ac"
  "(fam dr ex gq lq dq ac)(Work_wq w := None) = fam dr (ex(w := False)) gq lq dq ac"
  by (rule ext; simp add: fam_def split: qaddr.splits)+

lemma remove1_map_Work: "remove1 (Work_wq w) (map Work_wq ws) = map Work_wq (remove1 w ws)"
  by (induction ws) auto

lemma remove1_map_Req: "remove1 (Req_queue w) (map Req_queue ws) = map Req_queue (remove1 w ws)"
  by (induction ws) auto

definition gq_typed :: "qaddr list \<Rightarrow> bool" where
  "gq_typed gq \<longleftrightarrow> (\<forall>x\<in>set gq. x = Exit_message \<or> (\<exists>w. x = Work_wq w))"

lemma ex_qaddr:
  "(\<exists>h. P h) \<longleftrightarrow> P Wq \<or> P Exit_message \<or> (\<exists>l. P (Loop_wq l)) \<or> (\<exists>l. P (Local_wq l)) \<or> (\<exists>l. P (Active_reqs l)) \<or>
     (\<exists>w. P (Work_wq w)) \<or> (\<exists>w. P (Req_queue w))"
  by (metis qaddr.exhaust)

lemma nodes_fam:
  "a \<in> nodes (fam dr ex gq lq dq ac) \<longleftrightarrow> a = Wq \<or> a \<in> set gq \<or> (\<exists>l. a = Loop_wq l \<or> a \<in> Work_wq ` set (lq l)) \<or>
     (\<exists>l. dr l \<and> (a = Local_wq l \<or> a \<in> Work_wq ` set (dq l))) \<or>
     (\<exists>l. a = Active_reqs l \<or> a \<in> Req_queue ` set (ac l)) \<or> (\<exists>w. ex w \<and> a = Work_wq w)"
  unfolding nodes_def mem_Collect_eq ex_qaddr [of "\<lambda>h. \<exists>xs. _ h xs"] by (simp add: ex_disj_distrib) blast

lemma fam_nodes:
  "Work_wq w \<in> nodes (fam dr ex gq lq dq ac) \<longleftrightarrow>
     Work_wq w \<in> set gq \<or> (\<exists>l. w \<in> set (lq l) \<or> dr l \<and> w \<in> set (dq l)) \<or> ex w"
  "gq_typed gq \<Longrightarrow> Req_queue w \<in> nodes (fam dr ex gq lq dq ac) \<longleftrightarrow> (\<exists>l. w \<in> set (ac l))"
  "gq_typed gq \<Longrightarrow> Local_wq l \<in> nodes (fam dr ex gq lq dq ac) \<longleftrightarrow> dr l"
  "Exit_message \<in> nodes (fam dr ex gq lq dq ac) \<longleftrightarrow> Exit_message \<in> set gq"
  by (auto simp: nodes_fam gq_typed_def)

definition loop_of :: "pool \<Rightarrow> nat \<Rightarrow> nat option" where
  "loop_of p w = map_option w_loop (reqs p w)"

definition executing :: "pool \<Rightarrow> nat \<Rightarrow> bool" where
  "executing p w \<longleftrightarrow> phase_of p w = Some Executing \<or> phase_of p w = Some Executed"

definition mem_ok :: "pool \<Rightarrow> bool" where
  "mem_ok p \<longleftrightarrow> (\<forall>w. (Work_wq w \<in> dom (qs p) \<longleftrightarrow> reqs p w \<noteq> None) \<and> (Req_queue w \<in> dom (qs p) \<longleftrightarrow> reqs p w \<noteq> None))
     \<and> Wq \<in> dom (qs p) \<and> Exit_message \<in> dom (qs p) \<and> (\<forall>l. {Loop_wq l, Local_wq l, Active_reqs l} \<subseteq> dom (qs p))
     \<and> (\<forall>w. reqs p w = None \<longrightarrow> phase_of p w = Some Idle) \<and> (\<forall>w. phase_of p w \<noteq> None)"

definition gq_ok :: "pool \<Rightarrow> qaddr list \<Rightarrow> bool" where
  "gq_ok p gq \<longleftrightarrow> (\<forall>x. x \<in> set gq \<longleftrightarrow> x = Exit_message \<and> exit_posted p \<or> (\<exists>w. x = Work_wq w \<and> phase_of p w = Some Queued))"

definition lq_ok :: "pool \<Rightarrow> (nat \<Rightarrow> nat list) \<Rightarrow> (nat \<Rightarrow> nat list) \<Rightarrow> bool" where
  "lq_ok p lq dq \<longleftrightarrow> (\<forall>w l. (w \<in> set (lq l) \<or> draining p l \<and> w \<in> set (dq l)) \<longleftrightarrow>
       (phase_of p w = Some Finishing \<or> phase_of p w = Some Cancelled) \<and> loop_of p w = Some l)"

definition ac_ok :: "pool \<Rightarrow> (nat \<Rightarrow> nat list) \<Rightarrow> bool" where
  "ac_ok p ac \<longleftrightarrow> (\<forall>w l. w \<in> set (ac l) \<longleftrightarrow> phase_of p w \<noteq> Some Idle \<and> loop_of p w = Some l)"

definition cancel_ok :: "pool \<Rightarrow> bool" where
  "cancel_ok p \<longleftrightarrow> (\<forall>l w. cancelling p l = Some w \<longleftrightarrow> phase_of p w = Some Cancelling \<and> loop_of p w = Some l)"

definition work_ok :: "pool \<Rightarrow> bool" where
  "work_ok p \<longleftrightarrow> (\<forall>w r. reqs p w = Some r \<longrightarrow>
     (phase_of p w \<in> {Some Queued, Some Executing, Some Executed} \<longrightarrow> w_work r = Some Queue_work) \<and>
     (phase_of p w = Some Finishing \<longrightarrow> w_work r = None) \<and>
     (phase_of p w = Some Cancelled \<longrightarrow> w_work r = Some Cancelled_work))"

definition thr_ok :: "pool \<Rightarrow> bool" where
  "thr_ok p \<longleftrightarrow> 0 < nthreads p \<and>
     (\<forall>i. nthreads p \<le> i \<longrightarrow> threads p i = Exited) \<and>
     (\<forall>i<nthreads p. threads p i = Exited \<longrightarrow> exit_posted p) \<and>
     (\<forall>w. phase_of p w = Some Executing \<longleftrightarrow> (\<exists>i. threads p i = Running w)) \<and>
     (\<forall>w. phase_of p w = Some Executed \<longleftrightarrow> (\<exists>i. threads p i = Finished w)) \<and>
     (\<forall>i j w. threads p i = Running w \<longrightarrow> threads p j = Running w \<longrightarrow> i = j) \<and>
     (\<forall>i j w. threads p i = Finished w \<longrightarrow> threads p j = Finished w \<longrightarrow> i = j)"

text \<open>While the queue of the pool has work, some worker is about to look at it, or all have left.\<close>

definition attended :: "pool \<Rightarrow> bool" where
  "attended p \<longleftrightarrow> (\<exists>i<nthreads p. threads p i \<noteq> Asleep \<and> threads p i \<noteq> Exited) \<or> (\<forall>i<nthreads p. threads p i = Exited)"

definition wake_ok :: "pool \<Rightarrow> qaddr list \<Rightarrow> (nat \<Rightarrow> nat list) \<Rightarrow> bool" where
  "wake_ok p gq lq \<longleftrightarrow>
     (gq \<noteq> [] \<longrightarrow> attended p) \<and>
     (\<forall>l. lq l \<noteq> [] \<longrightarrow> pending p l)"

definition pool_inv :: "pool \<Rightarrow> qaddr list \<Rightarrow> (nat \<Rightarrow> nat list) \<Rightarrow> (nat \<Rightarrow> nat list) \<Rightarrow> (nat \<Rightarrow> nat list) \<Rightarrow> bool" where
  "pool_inv p gq lq dq ac \<longleftrightarrow> holds (qs p) (fam (draining p) (executing p) gq lq dq ac) \<and>
     mem_ok p \<and> gq_ok p gq \<and> lq_ok p lq dq \<and> ac_ok p ac \<and> cancel_ok p \<and> work_ok p \<and> thr_ok p \<and> wake_ok p gq lq"

lemma upd_pool_simps [simp]:
  "qs (note_event e p) = qs p" "reqs (note_event e p) = reqs p" "nthreads (note_event e p) = nthreads p"
  "threads (note_event e p) = threads p" "pending (note_event e p) = pending p" "draining (note_event e p) = draining p"
  "cancelling (note_event e p) = cancelling p" "exit_posted (note_event e p) = exit_posted p" "hist (note_event e p) = e # hist p"
  "qs (set_thread i t p) = qs p" "reqs (set_thread i t p) = reqs p" "nthreads (set_thread i t p) = nthreads p"
  "threads (set_thread i t p) = (threads p)(i := t)" "pending (set_thread i t p) = pending p" "draining (set_thread i t p) = draining p"
  "cancelling (set_thread i t p) = cancelling p" "exit_posted (set_thread i t p) = exit_posted p" "hist (set_thread i t p) = hist p"
  "qs (set_req w r p) = qs p" "reqs (set_req w r p) = (reqs p)(w \<mapsto> r)" "nthreads (set_req w r p) = nthreads p"
  "threads (set_req w r p) = threads p" "pending (set_req w r p) = pending p" "draining (set_req w r p) = draining p"
  "cancelling (set_req w r p) = cancelling p" "exit_posted (set_req w r p) = exit_posted p" "hist (set_req w r p) = hist p"
  by (simp_all add: note_event_def set_thread_def set_req_def)

lemma async_simps [simp]:
  "qs (uv_async_send l p) = qs p" "reqs (uv_async_send l p) = reqs p" "nthreads (uv_async_send l p) = nthreads p"
  "threads (uv_async_send l p) = threads p" "pending (uv_async_send l p) = (pending p)(l := True)"
  "draining (uv_async_send l p) = draining p" "cancelling (uv_async_send l p) = cancelling p"
  "exit_posted (uv_async_send l p) = exit_posted p" "hist (uv_async_send l p) = hist p"
  by (simp_all add: uv_async_send_def)

lemma signal_simps [simp]:
  "qs (uv_cond_signal j p) = qs p" "reqs (uv_cond_signal j p) = reqs p" "nthreads (uv_cond_signal j p) = nthreads p"
  "pending (uv_cond_signal j p) = pending p" "draining (uv_cond_signal j p) = draining p" "cancelling (uv_cond_signal j p) = cancelling p"
  "exit_posted (uv_cond_signal j p) = exit_posted p" "hist (uv_cond_signal j p) = hist p"
  "threads (uv_cond_signal j p) = (if threads p j = Asleep then (threads p)(j := Awake) else threads p)"
  by (simp_all add: uv_cond_signal_def)

lemmas inv_defs = mem_ok_def gq_ok_def lq_ok_def ac_ok_def cancel_ok_def work_ok_def thr_ok_def wake_ok_def

lemma gq_typedI: "gq_ok p gq \<Longrightarrow> gq_typed gq"
  by (auto simp: gq_ok_def gq_typed_def)

lemma phase_alloc: "mem_ok p \<Longrightarrow> phase_of p w \<noteq> Some Idle \<Longrightarrow> \<exists>r. reqs p w = Some r"
  by (cases "reqs p w") (auto simp: mem_ok_def)

lemma phase_some: "mem_ok p \<Longrightarrow> \<exists>ph. phase_of p w = Some ph"
  by (simp add: mem_ok_def)

lemma start_inv:
  assumes "init_once val al sys boot = Inr p"
  shows "pool_inv p [] (\<lambda>_. []) (\<lambda>_. []) (\<lambda>_. [])"
proof -
  have h: "holds (qs boot) ((fam (\<lambda>_. False) (\<lambda>_. False) [] (\<lambda>_. []) (\<lambda>_. []) (\<lambda>_. []))(Wq := None))"
    by (auto simp: holds_def boot_def fam_def is_queue_def link_def nx_def pv_def split: qaddr.splits if_splits)
  have d: "Wq \<in> dom (qs boot)" by (simp add: boot_def dom_def)
  have "Wq \<notin> nodes ((fam (\<lambda>_. False) (\<lambda>_. False) [] (\<lambda>_. []) (\<lambda>_. []) (\<lambda>_. []))(Wq := None))"
    by (auto simp: nodes_def fam_def split: qaddr.splits if_splits)
  with holds_init [OF h d] obtain s where s: "QUEUE_INIT Wq (qs boot) = Inr s" "dom s = dom (qs boot)"
    "holds s (fam (\<lambda>_. False) (\<lambda>_. False) [] (\<lambda>_. []) (\<lambda>_. []) (\<lambda>_. []))"
    by (auto simp: fam_upd)
  have n: "0 < unat (pool_size val al)" using pool_size_bounds [of val al] by simp
  have p: "p = boot\<lparr>qs := s, nthreads := unat (pool_size val al), threads := (\<lambda>i. if i < unat (pool_size val al) then Awake else Exited), initialized := True\<rparr>"
    using assms s(1) by (simp add: init_once_def on_qs_def Let_def split: if_splits)
  show ?thesis unfolding pool_inv_def
    using s(2,3) n by (auto simp: p inv_defs boot_def executing_def [abs_def] loop_of_def split: qaddr.splits)
qed


section \<open>The queues of the pool\<close>

text \<open>The laws of the interface, for the queues the steps use.\<close>

lemma fam_insert_wq:
  assumes "holds s (fam dr ex gq lq dq ac)" "q \<in> dom s" "q \<notin> nodes (fam dr ex gq lq dq ac)"
  shows "\<exists>s'. QUEUE_INSERT_TAIL Wq q s = Inr s' \<and> dom s' = dom s \<and> holds s' (fam dr ex (gq @ [q]) lq dq ac)"
  using uvq.insert_tail_law [OF assms(1) fam_simps(1) assms(2,3)] by (simp add: fam_upd)

lemma fam_insert_loop:
  assumes "holds s (fam dr ex gq lq dq ac)" "Work_wq w \<in> dom s" "Work_wq w \<notin> nodes (fam dr ex gq lq dq ac)"
  shows "\<exists>s'. QUEUE_INSERT_TAIL (Loop_wq l) (Work_wq w) s = Inr s' \<and> dom s' = dom s \<and>
           holds s' (fam dr ex gq (lq(l := lq l @ [w])) dq ac)"
  using uvq.insert_tail_law [OF assms(1) fam_simps(3) assms(2,3), of l] fam_upd(2) [of dr ex gq lq dq ac l "lq l @ [w]"] by simp

lemma fam_insert_active:
  assumes "holds s (fam dr ex gq lq dq ac)" "Req_queue w \<in> dom s" "Req_queue w \<notin> nodes (fam dr ex gq lq dq ac)"
  shows "\<exists>s'. QUEUE_INSERT_TAIL (Active_reqs l) (Req_queue w) s = Inr s' \<and> dom s' = dom s \<and>
           holds s' (fam dr ex gq lq dq (ac(l := ac l @ [w])))"
  using uvq.insert_tail_law [OF assms(1) fam_simps(5) assms(2,3), of l] fam_upd(5) [of dr ex gq lq dq ac l "ac l @ [w]"] by simp

lemma fam_remove_wq:
  assumes "holds s (fam dr ex gq lq dq ac)" "q \<in> set gq"
  shows "\<exists>s'. QUEUE_REMOVE q s = Inr s' \<and> dom s' = dom s \<and> holds s' (fam dr ex (remove1 q gq) lq dq ac)"
  using uvq.remove_law [OF assms(1) fam_simps(1) assms(2)] by (simp add: fam_upd)

lemma fam_remove_loop:
  assumes "holds s (fam dr ex gq lq dq ac)" "w \<in> set (lq l)"
  shows "\<exists>s'. QUEUE_REMOVE (Work_wq w) s = Inr s' \<and> dom s' = dom s \<and> holds s' (fam dr ex gq (lq(l := remove1 w (lq l))) dq ac)"
  using uvq.remove_law [OF assms(1) fam_simps(3), of "Work_wq w" l] assms(2) by (simp add: remove1_map_Work fam_upd)

lemma fam_remove_local:
  assumes "holds s (fam dr ex gq lq dq ac)" "dr l" "w \<in> set (dq l)"
  shows "\<exists>s'. QUEUE_REMOVE (Work_wq w) s = Inr s' \<and> dom s' = dom s \<and> holds s' (fam dr ex gq lq (dq(l := remove1 w (dq l))) ac)"
proof -
  have "dr(l := True) = dr" using assms(2) by (simp add: fun_upd_idem)
  then show ?thesis
    using uvq.remove_law [OF assms(1), of "Local_wq l" "map Work_wq (dq l)" "Work_wq w"] assms(2,3)
    by (simp add: remove1_map_Work fam_upd)
qed

lemma fam_remove_active:
  assumes "holds s (fam dr ex gq lq dq ac)" "w \<in> set (ac l)"
  shows "\<exists>s'. QUEUE_REMOVE (Req_queue w) s = Inr s' \<and> dom s' = dom s \<and> holds s' (fam dr ex gq lq dq (ac(l := remove1 w (ac l))))"
  using uvq.remove_law [OF assms(1) fam_simps(5), of "Req_queue w" l] assms(2) by (simp add: remove1_map_Req fam_upd)

lemma fam_distinct:
  assumes "holds s (fam dr ex gq lq dq ac)"
  shows "distinct gq" "distinct (lq l)" "dr l \<Longrightarrow> distinct (dq l)" "distinct (ac l)" "dr l \<Longrightarrow> set (lq l) \<inter> set (dq l) = {}"
proof -
  show "distinct gq" using holds_queue [OF assms fam_simps(1)] by (simp add: is_queue_def)
  show "distinct (lq l)" using holds_queue [OF assms fam_simps(3)] by (auto simp: is_queue_def distinct_map)
  show "distinct (ac l)" using holds_queue [OF assms fam_simps(5)] by (auto simp: is_queue_def distinct_map)
  show "distinct (dq l)" if "dr l" using holds_queue [OF assms, of "Local_wq l"] that by (auto simp: is_queue_def distinct_map)
  show "set (lq l) \<inter> set (dq l) = {}" if "dr l"
    using holds_disjoint [OF assms fam_simps(3), of "Local_wq l" _ l] that by auto
qed

section \<open>The steps keep the invariant\<close>

definition step_ok :: "pool res \<Rightarrow> bool" where
  "step_ok r \<longleftrightarrow> (\<exists>p gq lq dq ac. r = Inr p \<and> pool_inv p gq lq dq ac)"

lemma step_okI: "r = Inr p \<Longrightarrow> pool_inv p gq lq dq ac \<Longrightarrow> step_ok r"
  by (auto simp: step_ok_def)

lemma pool_invI:
  assumes "holds (qs p) (fam (draining p) (executing p) gq lq dq ac)" "mem_ok p" "gq_ok p gq" "lq_ok p lq dq"
    "ac_ok p ac" "cancel_ok p" "work_ok p" "thr_ok p" "wake_ok p gq lq"
  shows "pool_inv p gq lq dq ac"
  using assms by (simp add: pool_inv_def)

lemma pool_invD:
  assumes "pool_inv p gq lq dq ac"
  shows "holds (qs p) (fam (draining p) (executing p) gq lq dq ac)" "mem_ok p" "gq_ok p gq" "lq_ok p lq dq"
    "ac_ok p ac" "cancel_ok p" "work_ok p" "thr_ok p" "wake_ok p gq lq" "gq_typed gq"
  using assms gq_typedI [of p gq] by (simp_all add: pool_inv_def)

lemma thr_ok_upd:
  assumes T: "thr_ok p" and i: "i < nthreads p"
    and p': "nthreads p' = nthreads p" "threads p' = (threads p)(i := t)" "exit_posted p \<longrightarrow> exit_posted p'" "t = Exited \<longrightarrow> exit_posted p'"
    and ph: "\<And>w. phase_of p' w = Some Executing \<longleftrightarrow> t = Running w \<or> phase_of p w = Some Executing \<and> threads p i \<noteq> Running w"
      "\<And>w. phase_of p' w = Some Executed \<longleftrightarrow> t = Finished w \<or> phase_of p w = Some Executed \<and> threads p i \<noteq> Finished w"
    and new: "\<And>w. t = Running w \<Longrightarrow> phase_of p w \<noteq> Some Executing" "\<And>w. t = Finished w \<Longrightarrow> phase_of p w \<noteq> Some Executed"
  shows "thr_ok p'"
proof -
  have old: "phase_of p w = Some Executing \<longleftrightarrow> (\<exists>k. threads p k = Running w)"
    "phase_of p w = Some Executed \<longleftrightarrow> (\<exists>k. threads p k = Finished w)"
    "threads p k = Running w \<Longrightarrow> threads p k' = Running w \<Longrightarrow> k = k'"
    "threads p k = Finished w \<Longrightarrow> threads p k' = Finished w \<Longrightarrow> k = k'" for w k k'
    using T unfolding thr_ok_def by blast+
  have "phase_of p' w = Some Executing \<longleftrightarrow> (\<exists>k. threads p' k = Running w)" for w
    unfolding ph(1) p'(2) old(1) fun_upd_apply using old(3) by metis
  moreover have "phase_of p' w = Some Executed \<longleftrightarrow> (\<exists>k. threads p' k = Finished w)" for w
    unfolding ph(2) p'(2) old(2) fun_upd_apply using old(4) by metis
  moreover have "k = k'" if "threads p' k = Running w" "threads p' k' = Running w" for k k' w
    using that new(1) old(1,3) unfolding p'(2) fun_upd_apply by metis
  moreover have "k = k'" if "threads p' k = Finished w" "threads p' k' = Finished w" for k k' w
    using that new(2) old(2,4) unfolding p'(2) fun_upd_apply by metis
  moreover have "0 < nthreads p'" "\<forall>k. nthreads p' \<le> k \<longrightarrow> threads p' k = Exited" "\<forall>k<nthreads p'. threads p' k = Exited \<longrightarrow> exit_posted p'"
    using T i p' by (auto simp: thr_ok_def)
  ultimately show ?thesis unfolding thr_ok_def by blast
qed

lemma thr_ok_same:
  assumes "thr_ok p" "nthreads p' = nthreads p" "threads p' = threads p" "exit_posted p \<longrightarrow> exit_posted p'"
    "\<And>w. phase_of p' w = Some Executing \<longleftrightarrow> phase_of p w = Some Executing"
    "\<And>w. phase_of p' w = Some Executed \<longleftrightarrow> phase_of p w = Some Executed"
  shows "thr_ok p'"
  using assms(1) unfolding thr_ok_def assms(2,3,5,6) using assms(4) by blast

lemma thr_ok_signal:
  assumes T: "thr_ok p" and p': "nthreads p' = nthreads p" "threads p' = threads (uv_cond_signal j p)" "exit_posted p \<longrightarrow> exit_posted p'"
    "\<And>w. phase_of p' w = Some Executing \<longleftrightarrow> phase_of p w = Some Executing"
    "\<And>w. phase_of p' w = Some Executed \<longleftrightarrow> phase_of p w = Some Executed"
  shows "thr_ok p'"
proof (cases "threads p j = Asleep")
  case True
  then have "j < nthreads p" using T by (cases "j < nthreads p") (auto simp: thr_ok_def not_less)
  from thr_ok_upd [OF T this p'(1), of Awake] show ?thesis using p' True by simp
next
  case False
  then show ?thesis using p' by (intro thr_ok_same [OF T]) simp_all
qed

text \<open>A signal keeps a worker awake while the queue of the pool is not empty.\<close>

lemma attendedI: "i < nthreads p \<Longrightarrow> threads p i \<noteq> Asleep \<Longrightarrow> threads p i \<noteq> Exited \<Longrightarrow> attended p"
  by (auto simp: attended_def)

lemma attended_no_sleeper: "(\<And>i. i < nthreads p \<Longrightarrow> threads p i \<noteq> Asleep) \<Longrightarrow> attended p"
  by (auto simp: attended_def)

lemma signal_wakes:
  assumes "may_wake p j" shows "attended (uv_cond_signal j p)"
proof (cases "\<exists>k<nthreads p. threads p k = Asleep")
  case True
  then show ?thesis using assms by (intro attendedI [of j]) (auto simp: may_wake_def)
next
  case False
  then show ?thesis by (intro attended_no_sleeper) auto
qed

lemma exit_wakes:
  assumes "may_wake p j" "threads p i = Awake" shows "attended (set_thread i Exited (uv_cond_signal j p))"
proof (cases "\<exists>k<nthreads p. threads p k = Asleep")
  case True
  then show ?thesis using assms by (intro attendedI [of j]) (auto simp: may_wake_def)
next
  case False
  then show ?thesis by (intro attended_no_sleeper) auto
qed

lemma attended_thread: "threads p' i = t \<Longrightarrow> t \<noteq> Asleep \<Longrightarrow> t \<noteq> Exited \<Longrightarrow> i < nthreads p' \<Longrightarrow> attended p'"
  by (auto simp: attended_def)

lemma attended_same: "attended p \<Longrightarrow> threads p' = threads p \<Longrightarrow> nthreads p' = nthreads p \<Longrightarrow> attended p'"
  by (simp add: attended_def)

text \<open>Only the threads change, and the history without consequence.\<close>

lemma pool_inv_threads:
  assumes "pool_inv p gq lq dq ac" "qs p' = qs p" "reqs p' = reqs p" "pending p' = pending p" "draining p' = draining p"
    "cancelling p' = cancelling p" "exit_posted p' = exit_posted p" "\<And>w. phase_of p' w = phase_of p w" "thr_ok p'" "gq \<noteq> [] \<longrightarrow> attended p'"
  shows "pool_inv p' gq lq dq ac"
proof -
  have "executing p' = executing p" "loop_of p' = loop_of p" by (simp_all add: executing_def [abs_def] loop_of_def [abs_def] assms)
  then show ?thesis
    using pool_invD [OF assms(1)] assms(9,10)
    by (intro pool_invI) (simp_all add: assms mem_ok_def gq_ok_def lq_ok_def ac_ok_def cancel_ok_def work_ok_def wake_ok_def)
qed

lemma spurious_ok:
  assumes "pool_inv p gq lq dq ac" "enabled p (Spurious i)"
  shows "step_ok (act (Spurious i) p)"
proof (rule step_okI)
  show "act (Spurious i) p = Inr (set_thread i Awake p)" by simp
  have "thr_ok (set_thread i Awake p)"
    by (rule thr_ok_upd [OF pool_invD(8) [OF assms(1)], of i]) (use assms(2) in auto)
  moreover have "attended (set_thread i Awake p)" using assms(2) by (intro attendedI [of i]) auto
  ultimately show "pool_inv (set_thread i Awake p) gq lq dq ac" by (intro pool_inv_threads [OF assms(1)]) simp_all
qed

lemma finish_ok:
  assumes "pool_inv p gq lq dq ac" "enabled p (Finish i w)"
  shows "step_ok (act (Finish i w) p)"
proof -
  note I = pool_invD [OF assms(1)]
  have ph: "phase_of p w = Some Executed" and ti: "threads p i = Finished w" "i < nthreads p"
    using I(8) assms(2) by (auto simp: thr_ok_def)
  then obtain r where r: "reqs p w = Some r" using phase_alloc [OF I(2), of w] by auto
  let ?l = "w_loop r" and ?ex = "(executing p)(w := False)"
  let ?F = "fam (draining p) ?ex gq lq dq ac"
  have H: "holds (qs p) ?F" using holds_forget [OF I(1), of "Work_wq w"] by (simp add: fam_upd)
  have lf: "Work_wq w \<in> dom (qs p)" using I(2) r by (simp add: mem_ok_def)
  have "Work_wq w \<notin> nodes ?F" using I(3,4) ph by (auto simp: fam_nodes gq_ok_def lq_ok_def)
  from fam_insert_loop [OF H lf this] obtain s where s: "QUEUE_INSERT_TAIL (Loop_wq ?l) (Work_wq w) (qs p) = Inr s" "dom s = dom (qs p)"
    "holds s (fam (draining p) ?ex gq (lq(?l := lq ?l @ [w])) dq ac)"
    by blast
  let ?p = "set_thread i Awake (note_event (Completed w) (uv_async_send ?l ((set_req w (r\<lparr>w_work := None\<rparr>) p)\<lparr>qs := s\<rparr>)))"
  have ex: "executing ?p = ?ex" by (rule ext) (auto simp: executing_def ph)
  show ?thesis
  proof (rule step_okI)
    show "act (Finish i w) p = Inr ?p" using r s(1) by (simp add: worker_finish_def get_req_def on_qs_def)
    show "pool_inv ?p gq (lq(?l := lq ?l @ [w])) dq ac"
    proof (rule pool_invI)
      show "mem_ok ?p" using I(2) s(2) r ph by (auto simp: mem_ok_def)
      show "gq_ok ?p gq" using I(3) ph by (auto simp: gq_ok_def)
      show "lq_ok ?p (lq(?l := lq ?l @ [w])) dq" using I(4) ph r by (auto simp: lq_ok_def loop_of_def)
      show "ac_ok ?p ac" using I(5) ph r by (auto simp: ac_ok_def loop_of_def)
      show "cancel_ok ?p" using I(6) ph r by (auto simp: cancel_ok_def loop_of_def)
      show "work_ok ?p" using I(7) ph r by (auto simp: work_ok_def)
      show "thr_ok ?p" by (rule thr_ok_upd [OF I(8) ti(2)]) (use ph ti in auto)
      show "wake_ok ?p gq (lq(?l := lq ?l @ [w]))" using I(9) ti attendedI [of i ?p] by (auto simp: wake_ok_def)
    qed (use s(3) ex in simp)
  qed
qed


lemma work_step_ok:
  assumes "pool_inv p gq lq dq ac" "enabled p (Work i w)"
  shows "step_ok (act (Work i w) p)"
proof -
  note I = pool_invD [OF assms(1)]
  have ph: "phase_of p w = Some Executing" and ti: "threads p i = Running w" "i < nthreads p"
    using I(8) assms(2) by (auto simp: thr_ok_def)
  then obtain r where r: "reqs p w = Some r" using phase_alloc [OF I(2), of w] by auto
  then have wf: "w_work r = Some Queue_work" using I(7) ph by (simp add: work_ok_def)
  let ?p = "set_thread i (Finished w) (note_event (Worked w) p)"
  have ex: "executing ?p = executing p" by (rule ext) (auto simp: executing_def ph)
  show ?thesis
  proof (rule step_okI)
    show "act (Work i w) p = Inr ?p" using r wf by (simp add: worker_work_def get_req_def uv__queue_work_def)
    show "pool_inv ?p gq lq dq ac"
    proof (rule pool_invI)
      show "mem_ok ?p" using I(2) r ph by (auto simp: mem_ok_def)
      show "gq_ok ?p gq" using I(3) ph by (auto simp: gq_ok_def)
      show "lq_ok ?p lq dq" using I(4) ph by (auto simp: lq_ok_def loop_of_def)
      show "ac_ok ?p ac" using I(5) ph by (auto simp: ac_ok_def loop_of_def)
      show "cancel_ok ?p" using I(6) ph by (auto simp: cancel_ok_def loop_of_def)
      show "work_ok ?p" using I(7) ph r by (auto simp: work_ok_def)
      show "thr_ok ?p" by (rule thr_ok_upd [OF I(8) ti(2)]) (use ph ti in auto)
      show "wake_ok ?p gq lq" using I(9) ti attendedI [of i ?p] by (auto simp: wake_ok_def)
    qed (use I(1) ex in simp)
  qed
qed

lemma take_ok:
  assumes "pool_inv p gq lq dq ac" "enabled p (Take i j)"
  shows "step_ok (act (Take i j) p)"
proof -
  note I = pool_invD [OF assms(1)]
  have ti: "threads p i = Awake" "i < nthreads p" and mw: "may_wake p j" using assms(2) by auto
  have e: "QUEUE_EMPTY (qs p) Wq = Inr (gq = [])" by (rule uvq.empty_law [OF I(1)]) simp
  show ?thesis
  proof (cases gq)
    case Nil
    have "thr_ok (set_thread i Asleep p)" by (rule thr_ok_upd [OF I(8) ti(2)]) (use ti in auto)
    then have "pool_inv (set_thread i Asleep p) gq lq dq ac" by (intro pool_inv_threads [OF assms(1)]) (simp_all add: Nil)
    then show ?thesis using e Nil by (intro step_okI) (simp add: worker_take_def)
  next
    case (Cons q gq')
    have hd: "QUEUE_HEAD (qs p) Wq = Inr q" by (rule uvq.head_law [OF I(1)]) (simp add: Cons)
    have qs: "q = Exit_message \<and> exit_posted p \<or> (\<exists>w. q = Work_wq w \<and> phase_of p w = Some Queued)"
      using I(3) Cons by (auto simp: gq_ok_def)
    show ?thesis
    proof (cases "q = Exit_message")
      case True
      have xp: "exit_posted p" using qs True by auto
      have T1: "thr_ok (uv_cond_signal j p)" by (rule thr_ok_signal [OF I(8)]) auto
      have "thr_ok (set_thread i Exited (uv_cond_signal j p))" by (rule thr_ok_upd [OF T1, of i]) (use ti xp in auto)
      then have "pool_inv (set_thread i Exited (uv_cond_signal j p)) gq lq dq ac"
        using exit_wakes [OF mw ti(1)] by (intro pool_inv_threads [OF assms(1)]) simp_all
      then show ?thesis using e hd Cons True by (intro step_okI) (simp add: worker_take_def)
    next
      case False
      then obtain w where w: "q = Work_wq w" "phase_of p w = Some Queued" using qs by auto
      let ?ex = "(executing p)(w := True)"
      obtain s1 where s1: "QUEUE_REMOVE q (qs p) = Inr s1" "dom s1 = dom (qs p)"
          "holds s1 (fam (draining p) (executing p) gq' lq dq ac)"
        using fam_remove_wq [OF I(1), of q] Cons by auto
      have new: "Work_wq w \<notin> set gq'" using fam_distinct(1) [OF I(1)] Cons w(1) by simp
      then have "Work_wq w \<notin> nodes (fam (draining p) (executing p) gq' lq dq ac)"
        using I(4) w(2) by (auto simp: fam_nodes lq_ok_def executing_def)
      moreover have "Work_wq w \<in> dom s1" using s1(2) I(2) w(2) phase_alloc [OF I(2), of w] by (auto simp: mem_ok_def)
      ultimately obtain s2 where s2: "QUEUE_INIT q s1 = Inr s2" "dom s2 = dom (qs p)"
          "holds s2 (fam (draining p) ?ex gq' lq dq ac)"
        using uvq.init_law [OF s1(3), of "Work_wq w"] s1(2) w(1) by (auto simp: fam_upd)
      let ?p = "set_thread i (Running w) (note_event (Taken w) (p\<lparr>qs := s2\<rparr>))"
      have ex: "executing ?p = ?ex" by (rule ext) (auto simp: executing_def w(2))
      show ?thesis
      proof (rule step_okI)
        show "act (Take i j) p = Inr ?p" using e hd Cons False s1(1) s2(1) w(1)
          by (simp add: worker_take_def on_qs_def QUEUE_DATA_def)
        show "pool_inv ?p gq' lq dq ac"
        proof (rule pool_invI)
          show "mem_ok ?p" using I(2) s2(2) w(2) by (auto simp: mem_ok_def)
          show "gq_ok ?p gq'" unfolding gq_ok_def
          proof
            fix x
            have "x \<in> set gq' \<longleftrightarrow> x \<in> set gq \<and> x \<noteq> q" using fam_distinct(1) [OF I(1)] Cons by auto
            also have "\<dots> \<longleftrightarrow> (x = Exit_message \<and> exit_posted p \<or> (\<exists>w. x = Work_wq w \<and> phase_of p w = Some Queued)) \<and> x \<noteq> q"
              using I(3) unfolding gq_ok_def by blast
            finally show "x \<in> set gq' \<longleftrightarrow> x = Exit_message \<and> exit_posted ?p \<or> (\<exists>w. x = Work_wq w \<and> phase_of ?p w = Some Queued)"
              using w by auto
          qed
          show "lq_ok ?p lq dq" using I(4) w(2) by (auto simp: lq_ok_def loop_of_def)
          show "ac_ok ?p ac" using I(5) w(2) by (auto simp: ac_ok_def loop_of_def)
          show "cancel_ok ?p" using I(6) w(2) by (auto simp: cancel_ok_def loop_of_def)
          show "work_ok ?p" using I(7) w(2) by (auto simp: work_ok_def)
          show "thr_ok ?p" by (rule thr_ok_upd [OF I(8) ti(2)]) (use w(2) ti in auto)
          show "wake_ok ?p gq' lq" using I(9) ti attendedI [of i ?p] by (auto simp: wake_ok_def)
        qed (use s2(3) ex in simp)
      qed
    qed
  qed
qed


lemma gq_ok_remove:
  assumes "gq_ok p gq" "distinct gq" "hist p' = e # hist p" "about e = w" "phase_of p w = Some Queued"
    "life_step Queued e \<noteq> Some Queued" "exit_posted p' = exit_posted p"
  shows "gq_ok p' (remove1 (Work_wq w) gq)"
  unfolding gq_ok_def
proof
  fix x
  have "x \<in> set (remove1 (Work_wq w) gq) \<longleftrightarrow> x \<in> set gq \<and> x \<noteq> Work_wq w" using assms(2) by auto
  also have "\<dots> \<longleftrightarrow> (x = Exit_message \<and> exit_posted p \<or> (\<exists>w. x = Work_wq w \<and> phase_of p w = Some Queued)) \<and> x \<noteq> Work_wq w"
    using assms(1) unfolding gq_ok_def by blast
  finally show "x \<in> set (remove1 (Work_wq w) gq) \<longleftrightarrow>
      x = Exit_message \<and> exit_posted p' \<or> (\<exists>w. x = Work_wq w \<and> phase_of p' w = Some Queued)"
    using assms(3-7) by auto
qed

lemma alloc_ok:
  assumes "pool_inv p gq lq dq ac" "enabled p (Alloc w r a b)"
  shows "step_ok (act (Alloc w r a b) p)"
proof -
  note I = pool_invD [OF assms(1)]
  have n: "reqs p w = None" and ph: "phase_of p w = Some Idle" using assms(2) I(2) by (auto simp: mem_ok_def)
  let ?p = "p\<lparr>reqs := (reqs p)(w \<mapsto> r), qs := (qs p)(Work_wq w \<mapsto> a, Req_queue w \<mapsto> b)\<rparr>"
  let ?F = "fam (draining p) (executing p) gq lq dq ac"
  have "Work_wq w \<notin> dom (qs p)" "Req_queue w \<notin> dom (qs p)" using I(2) n by (auto simp: mem_ok_def)
  then have "Work_wq w \<notin> nodes ?F" "Req_queue w \<notin> nodes ?F" using holds_nodes [OF I(1)] by auto
  then have H: "holds (qs ?p) ?F" by (intro holds_frame [OF I(1)]) auto
  have ex: "executing ?p = executing p" by (simp add: executing_def [abs_def])
  have lo: "loop_of p w = None" by (simp add: loop_of_def n)
  show ?thesis
  proof (rule step_okI)
    show "act (Alloc w r a b) p = Inr ?p" by simp
    show "pool_inv ?p gq lq dq ac"
    proof (rule pool_invI)
      show "mem_ok ?p" using I(2) by (auto simp: mem_ok_def)
      show "gq_ok ?p gq" using I(3) by (simp add: gq_ok_def)
      show "lq_ok ?p lq dq" using I(4) lo ph by (auto simp: lq_ok_def loop_of_def)
      show "ac_ok ?p ac" using I(5) lo ph by (auto simp: ac_ok_def loop_of_def)
      show "cancel_ok ?p" using I(6) lo ph by (auto simp: cancel_ok_def loop_of_def)
      show "work_ok ?p" using I(7) ph by (auto simp: work_ok_def)
      show "thr_ok ?p" by (rule thr_ok_same [OF I(8)]) auto
      show "wake_ok ?p gq lq" using I(9) by (simp add: wake_ok_def attended_def)
    qed (use H ex in simp)
  qed
qed

lemma free_ok:
  assumes "pool_inv p gq lq dq ac" "enabled p (Free w)"
  shows "step_ok (act (Free w) p)"
proof -
  note I = pool_invD [OF assms(1)]
  have ph: "phase_of p w = Some Idle" using assms(2) by simp
  let ?p = "p\<lparr>reqs := (reqs p)(w := None), qs := (qs p)(Work_wq w := None, Req_queue w := None)\<rparr>"
  let ?F = "fam (draining p) (executing p) gq lq dq ac"
  have "Work_wq w \<notin> nodes ?F" "Req_queue w \<notin> nodes ?F"
    using I(3-5) ph by (auto simp: fam_nodes(1) fam_nodes(2) [OF I(10)] gq_ok_def lq_ok_def ac_ok_def executing_def)
  then have H: "holds (qs ?p) ?F" by (intro holds_frame [OF I(1)]) auto
  have ex: "executing ?p = executing p" by (simp add: executing_def [abs_def])
  show ?thesis
  proof (rule step_okI)
    show "act (Free w) p = Inr ?p" by simp
    show "pool_inv ?p gq lq dq ac"
    proof (rule pool_invI)
      show "mem_ok ?p" using I(2) ph by (auto simp: mem_ok_def)
      show "gq_ok ?p gq" using I(3) by (simp add: gq_ok_def)
      show "lq_ok ?p lq dq" using I(4) ph by (auto simp: lq_ok_def loop_of_def)
      show "ac_ok ?p ac" using I(5) ph by (auto simp: ac_ok_def loop_of_def)
      show "cancel_ok ?p" using I(6) ph by (auto simp: cancel_ok_def loop_of_def)
      show "work_ok ?p" using I(7) ph by (auto simp: work_ok_def)
      show "thr_ok ?p" by (rule thr_ok_same [OF I(8)]) auto
      show "wake_ok ?p gq lq" using I(9) by (simp add: wake_ok_def attended_def)
    qed (use H ex in simp)
  qed
qed

lemma exit_ok:
  assumes "pool_inv p gq lq dq ac" "enabled p (Exit j)"
  shows "step_ok (act (Exit j) p)"
proof (cases "initialized p")
  case False
  then show ?thesis using assms(1) by (intro step_okI) (simp_all add: cleanup_post_def)
next
  case True
  note I = pool_invD [OF assms(1)]
  have nx: "\<not> exit_posted p" and mw: "may_wake p j" using assms(2) by auto
  have "Exit_message \<notin> nodes (fam (draining p) (executing p) gq lq dq ac)"
    using I(3) nx by (auto simp: fam_nodes gq_ok_def)
  moreover have "Exit_message \<in> dom (qs p)" using I(2) by (simp add: mem_ok_def)
  ultimately obtain s where s: "QUEUE_INSERT_TAIL Wq Exit_message (qs p) = Inr s" "dom s = dom (qs p)"
      "holds s (fam (draining p) (executing p) (gq @ [Exit_message]) lq dq ac)"
    using fam_insert_wq [OF I(1), of Exit_message] by blast
  let ?p = "(uv_cond_signal j (p\<lparr>qs := s\<rparr>))\<lparr>exit_posted := True\<rparr>"
  have ex: "executing ?p = executing p" by (simp add: executing_def [abs_def])
  have at: "attended ?p" by (rule attended_same [OF signal_wakes [OF mw]]) simp_all
  show ?thesis
  proof (rule step_okI)
    show "act (Exit j) p = Inr ?p" using s(1) True by (simp add: cleanup_post_def post_def on_qs_def)
    show "pool_inv ?p (gq @ [Exit_message]) lq dq ac"
    proof (rule pool_invI)
      show "mem_ok ?p" using I(2) s(2) by (simp add: mem_ok_def)
      show "gq_ok ?p (gq @ [Exit_message])" using I(3) nx by (auto simp: gq_ok_def)
      show "lq_ok ?p lq dq" using I(4) by (simp add: lq_ok_def loop_of_def)
      show "ac_ok ?p ac" using I(5) by (simp add: ac_ok_def loop_of_def)
      show "cancel_ok ?p" using I(6) by (simp add: cancel_ok_def loop_of_def)
      show "work_ok ?p" using I(7) by (simp add: work_ok_def)
      show "thr_ok ?p" by (rule thr_ok_signal [OF I(8), of _ j]) auto
      show "wake_ok ?p (gq @ [Exit_message]) lq" using I(9) at by (simp add: wake_ok_def)
    qed (use s(3) ex in simp)
  qed
qed

lemma submit_ok:
  assumes "pool_inv p gq lq dq ac" "enabled p (Submit l w after j)"
  shows "step_ok (act (Submit l w after j) p)"
proof -
  note I = pool_invD [OF assms(1)]
  have ph: "phase_of p w = Some Idle" and mw: "may_wake p j" using assms(2) by auto
  obtain r where r: "reqs p w = Some r" using assms(2) by auto
  have dom: "Work_wq w \<in> dom (qs p)" "Req_queue w \<in> dom (qs p)" using I(2) r by (simp_all add: mem_ok_def)
  let ?ac = "ac(l := ac l @ [w])" and ?gq = "gq @ [Work_wq w]"
  have "Req_queue w \<notin> nodes (fam (draining p) (executing p) gq lq dq ac)"
    using I(5) ph by (auto simp: fam_nodes(2) [OF I(10)] ac_ok_def)
  from fam_insert_active [OF I(1) dom(2) this] obtain s1 where
    s1: "QUEUE_INSERT_TAIL (Active_reqs l) (Req_queue w) (qs p) = Inr s1" "dom s1 = dom (qs p)"
      "holds s1 (fam (draining p) (executing p) gq lq dq ?ac)" by blast
  have "Work_wq w \<notin> nodes (fam (draining p) (executing p) gq lq dq ?ac)"
    using I(3,4) ph by (auto simp: fam_nodes(1) gq_ok_def lq_ok_def executing_def)
  then obtain s where s: "QUEUE_INSERT_TAIL Wq (Work_wq w) s1 = Inr s" "dom s = dom (qs p)"
      "holds s (fam (draining p) (executing p) ?gq lq dq ?ac)"
    using fam_insert_wq [OF s1(3), of "Work_wq w"] dom(1) s1(2) by auto
  let ?r = "r\<lparr>after_work_cb := after, w_loop := l, w_work := Some Queue_work\<rparr>"
  let ?q = "p\<lparr>reqs := (reqs p)(w \<mapsto> ?r), qs := s\<rparr>"
  let ?p = "note_event (Submitted w) (uv_cond_signal j ?q)"
  have ex: "executing ?p = executing p" by (rule ext) (auto simp: executing_def ph)
  have at: "attended ?p" by (rule attended_same [OF signal_wakes [OF mw]]) simp_all
  show ?thesis
  proof (rule step_okI)
    show "act (Submit l w after j) p = Inr ?p"
      using s1(1) s(1) r by (simp add: uv_queue_work_def uv__req_register_def on_qs_def get_req_def uv__work_submit_def post_def set_req_def)
    show "pool_inv ?p ?gq lq dq ?ac"
    proof (rule pool_invI)
      show "mem_ok ?p" using I(2) s(2) r ph by (auto simp: mem_ok_def)
      show "gq_ok ?p ?gq" using I(3) ph by (auto simp: gq_ok_def)
      show "lq_ok ?p lq dq" using I(4) ph by (auto simp: lq_ok_def loop_of_def)
      show "ac_ok ?p ?ac" using I(5) ph by (auto simp: ac_ok_def loop_of_def)
      show "cancel_ok ?p" using I(6) ph by (auto simp: cancel_ok_def loop_of_def)
      show "work_ok ?p" using I(7) ph by (auto simp: work_ok_def)
      show "thr_ok ?p" by (rule thr_ok_signal [OF I(8), of _ j]) (auto simp: ph)
      show "wake_ok ?p ?gq lq" using I(9) at by (simp add: wake_ok_def)
    qed (use s(3) ex in simp)
  qed
qed

lemma cancel2_ok:
  assumes "pool_inv p gq lq dq ac" "enabled p (Cancel2 l w)"
  shows "step_ok (act (Cancel2 l w) p)"
proof -
  note I = pool_invD [OF assms(1)]
  have cl: "cancelling p l = Some w" using assms(2) by simp
  then have ph: "phase_of p w = Some Cancelling" and lo: "loop_of p w = Some l" using I(6) by (auto simp: cancel_ok_def)
  then obtain r where r: "reqs p w = Some r" "w_loop r = l" by (auto simp: loop_of_def)
  have "Work_wq w \<notin> nodes (fam (draining p) (executing p) gq lq dq ac)"
    using I(3,4) ph by (auto simp: fam_nodes(1) gq_ok_def lq_ok_def executing_def)
  moreover have "Work_wq w \<in> dom (qs p)" using I(2) r by (simp add: mem_ok_def)
  ultimately obtain s where s: "QUEUE_INSERT_TAIL (Loop_wq l) (Work_wq w) (qs p) = Inr s" "dom s = dom (qs p)"
      "holds s (fam (draining p) (executing p) gq (lq(l := lq l @ [w])) dq ac)"
    using fam_insert_loop [OF I(1)] by blast
  let ?q = "(set_req w (r\<lparr>w_work := Some Cancelled_work\<rparr>) p)\<lparr>qs := s\<rparr>"
  let ?p = "note_event (Cancel_queued w) ((uv_async_send l ?q)\<lparr>cancelling := (cancelling p)(l := None)\<rparr>)"
  have ex: "executing ?p = executing p" by (rule ext) (auto simp: executing_def ph)
  show ?thesis
  proof (rule step_okI)
    show "act (Cancel2 l w) p = Inr ?p" using s(1) r by (simp add: uv__work_cancel2_def on_qs_def get_req_def)
    show "pool_inv ?p gq (lq(l := lq l @ [w])) dq ac"
    proof (rule pool_invI)
      show "mem_ok ?p" using I(2) s(2) r ph by (auto simp: mem_ok_def)
      show "gq_ok ?p gq" using I(3) ph by (auto simp: gq_ok_def)
      show "lq_ok ?p (lq(l := lq l @ [w])) dq" using I(4) ph r by (auto simp: lq_ok_def loop_of_def)
      show "ac_ok ?p ac" using I(5) ph r by (auto simp: ac_ok_def loop_of_def)
      show "cancel_ok ?p" unfolding cancel_ok_def
      proof (intro allI)
        fix k v
        have "v = w" if "phase_of p v = Some Cancelling" "loop_of p v = Some l"
          using I(6) [unfolded cancel_ok_def, rule_format, of l v] that cl by simp
        then show "cancelling ?p k = Some v \<longleftrightarrow> phase_of ?p v = Some Cancelling \<and> loop_of ?p v = Some k"
          using I(6) [unfolded cancel_ok_def, rule_format, of k v] ph r by (auto simp: loop_of_def)
      qed
      show "work_ok ?p" using I(7) ph by (auto simp: work_ok_def)
      show "thr_ok ?p" by (rule thr_ok_same [OF I(8)]) (auto simp: ph)
      show "wake_ok ?p gq (lq(l := lq l @ [w]))" using I(9) attended_same [of p ?p] by (auto simp: wake_ok_def)
    qed (use s(3) ex in simp)
  qed
qed

lemma done1_ok:
  assumes "pool_inv p gq lq dq ac" "enabled p (Done1 l)"
  shows "step_ok (act (Done1 l) p)"
proof -
  note I = pool_invD [OF assms(1)]
  have nd: "\<not> draining p l" using assms(2) by simp
  have "Local_wq l \<notin> nodes (fam (draining p) (executing p) gq lq dq ac)" using nd by (simp add: fam_nodes(3) [OF I(10)])
  moreover have "Local_wq l \<in> dom (qs p)" using I(2) by (simp add: mem_ok_def)
  ultimately obtain s where s: "res_bind (QUEUE_INIT (Local_wq l) (qs p)) (\<lambda>s. res_bind (QUEUE_EMPTY s (Loop_wq l)) (\<lambda>empty.
        if empty then Inr s else res_bind (QUEUE_HEAD s (Loop_wq l)) (\<lambda>q. QUEUE_SPLIT (Loop_wq l) q (Local_wq l) s))) = Inr s"
      "dom s = dom (qs p)" "holds s ((fam (draining p) (executing p) gq lq dq ac)(Loop_wq l \<mapsto> [], Local_wq l \<mapsto> map Work_wq (lq l)))"
    using uvq.take_all [OF I(1) fam_simps(3)] by blast
  have H: "holds s (fam ((draining p)(l := True)) (executing p) gq (lq(l := [])) (dq(l := lq l)) ac)"
    using s(3) fam_upd(2) [of _ _ _ _ _ _ l "[]"] by (simp add: fam_upd)
  let ?p = "p\<lparr>pending := (pending p)(l := False), draining := (draining p)(l := True), qs := s\<rparr>"
  have ex: "executing ?p = executing p" by (simp add: executing_def [abs_def])
  show ?thesis
  proof (rule step_okI)
    show "act (Done1 l) p = Inr ?p" using s(1) by (simp add: uv__work_done1_def on_qs_def)
    show "pool_inv ?p gq (lq(l := [])) (dq(l := lq l)) ac"
    proof (rule pool_invI)
      show "mem_ok ?p" using I(2) s(2) by (simp add: mem_ok_def)
      show "gq_ok ?p gq" using I(3) by (simp add: gq_ok_def)
      show "lq_ok ?p (lq(l := [])) (dq(l := lq l))" using I(4) nd by (auto simp: lq_ok_def loop_of_def)
      show "ac_ok ?p ac" using I(5) by (simp add: ac_ok_def loop_of_def)
      show "cancel_ok ?p" using I(6) by (simp add: cancel_ok_def loop_of_def)
      show "work_ok ?p" using I(7) by (simp add: work_ok_def)
      show "thr_ok ?p" by (rule thr_ok_same [OF I(8)]) auto
      show "wake_ok ?p gq (lq(l := []))" using I(9) attended_same [of p ?p] by (auto simp: wake_ok_def)
    qed (use H ex in simp)
  qed
qed

text \<open>A request leaves the queue it waits in on its loop: done, or cancelled again.\<close>

lemma lq_ok_leave:
  assumes "lq_ok p lq dq" "phase_of p w = Some Finishing \<or> phase_of p w = Some Cancelled" "loop_of p w = Some l"
    "hist p' = e # hist p" "about e = w" "life w (e # hist p) \<notin> {Some Finishing, Some Cancelled}" "reqs p' = reqs p" "draining p' = draining p"
    "\<And>v k. (v \<in> set (lq' k) \<or> draining p k \<and> v \<in> set (dq' k)) \<longleftrightarrow> (v \<in> set (lq k) \<or> draining p k \<and> v \<in> set (dq k)) \<and> (v, k) \<noteq> (w, l)"
  shows "lq_ok p' lq' dq'"
  unfolding lq_ok_def
proof (intro allI)
  fix v k
  have "(v \<in> set (lq' k) \<or> draining p' k \<and> v \<in> set (dq' k)) \<longleftrightarrow>
      ((phase_of p v = Some Finishing \<or> phase_of p v = Some Cancelled) \<and> loop_of p v = Some k) \<and> (v, k) \<noteq> (w, l)"
    using assms(1,8,9) unfolding lq_ok_def by simp
  then show "(v \<in> set (lq' k) \<or> draining p' k \<and> v \<in> set (dq' k)) \<longleftrightarrow>
      (phase_of p' v = Some Finishing \<or> phase_of p' v = Some Cancelled) \<and> loop_of p' v = Some k"
    using assms(2-7) by (auto simp: loop_of_def)
qed

text \<open>The callbacks of a loop: the pass ends when the local queue is empty.\<close>

lemma done2_ends:
  assumes "pool_inv p gq lq dq ac" "enabled p (Done2 l)" and Nil: "dq l = []"
  shows "step_ok (act (Done2 l) p)"
proof -
  note I = pool_invD [OF assms(1)]
  have dr: "draining p l" using assms(2) by simp
  have e: "QUEUE_EMPTY (qs p) (Local_wq l) = Inr (dq l = [])"
    using uvq.empty_law [OF I(1), of "Local_wq l" "map Work_wq (dq l)"] dr by simp
  let ?p = "p\<lparr>draining := (draining p)(l := False)\<rparr>"
  have ex: "executing ?p = executing p" by (simp add: executing_def [abs_def])
  have H: "holds (qs p) (fam ((draining p)(l := False)) (executing p) gq lq dq ac)"
    using uvq.forget_law [OF I(1), of "Local_wq l"] by (simp add: fam_upd)
  show ?thesis
  proof (rule step_okI)
    show "act (Done2 l) p = Inr ?p" using e Nil by (simp add: uv__work_done2_def)
    show "pool_inv ?p gq lq dq ac"
    proof (rule pool_invI)
      show "mem_ok ?p" using I(2) by (simp add: mem_ok_def)
      show "gq_ok ?p gq" using I(3) by (simp add: gq_ok_def)
      show "lq_ok ?p lq dq" unfolding lq_ok_def
      proof (intro allI)
        fix w k
        show "(w \<in> set (lq k) \<or> draining ?p k \<and> w \<in> set (dq k)) \<longleftrightarrow>
            (phase_of ?p w = Some Finishing \<or> phase_of ?p w = Some Cancelled) \<and> loop_of ?p w = Some k"
          using I(4) [unfolded lq_ok_def, rule_format, of w k] Nil by (cases "k = l") (simp_all add: loop_of_def)
      qed
      show "ac_ok ?p ac" using I(5) by (simp add: ac_ok_def loop_of_def)
      show "cancel_ok ?p" using I(6) by (simp add: cancel_ok_def loop_of_def)
      show "work_ok ?p" using I(7) by (simp add: work_ok_def)
      show "thr_ok ?p" by (rule thr_ok_same [OF I(8)]) auto
      show "wake_ok ?p gq lq" using I(9) attended_same [of p ?p] by (simp add: wake_ok_def)
    qed (use H ex in simp)
  qed
qed

text \<open>Otherwise the first request of the queue is answered.\<close>

lemma done2_answers:
  assumes "pool_inv p gq lq dq ac" "enabled p (Done2 l)" and Cons: "dq l = w # ws"
  shows "step_ok (act (Done2 l) p)"
proof -
  note I = pool_invD [OF assms(1)]
  have dr: "draining p l" using assms(2) by simp
  have e: "QUEUE_EMPTY (qs p) (Local_wq l) = Inr (dq l = [])"
    using uvq.empty_law [OF I(1), of "Local_wq l" "map Work_wq (dq l)"] dr by simp
  have wd: "w \<in> set (dq l)" using Cons by simp
  have ph: "phase_of p w = Some Finishing \<or> phase_of p w = Some Cancelled" and lo: "loop_of p w = Some l"
    using I(4) wd dr unfolding lq_ok_def by blast+
  then obtain r where r: "reqs p w = Some r" "w_loop r = l" by (auto simp: loop_of_def)
  have hd: "QUEUE_HEAD (qs p) (Local_wq l) = Inr (Work_wq w)"
    using uvq.head_law [OF I(1), of "Local_wq l" "Work_wq w" "map Work_wq ws"] dr Cons by simp
  obtain s1 where s1: "QUEUE_REMOVE (Work_wq w) (qs p) = Inr s1" "dom s1 = dom (qs p)"
      "holds s1 (fam (draining p) (executing p) gq lq (dq(l := remove1 w (dq l))) ac)"
    using fam_remove_local [where w = w, OF I(1) dr wd] by blast
  have wa: "w \<in> set (ac l)" using I(5) ph lo by (auto simp: ac_ok_def)
  have na: "QUEUE_EMPTY s1 (Active_reqs l) = Inr False"
    using uvq.empty_law [OF s1(3) fam_simps(5), of l] wa by auto
  obtain s where s: "QUEUE_REMOVE (Req_queue w) s1 = Inr s" "dom s = dom (qs p)"
      "holds s (fam (draining p) (executing p) gq lq (dq(l := remove1 w (dq l))) (ac(l := remove1 w (ac l))))"
    using fam_remove_active [OF s1(3) wa] s1(2) by auto
  let ?err = "if w_work r = Some Cancelled_work then UV_ECANCELED else 0"
  let ?p = "note_event (Done w ?err (after_work_cb r)) (p\<lparr>qs := s\<rparr>)"
  have wk: "w_work r = Some Cancelled_work \<longleftrightarrow> phase_of p w = Some Cancelled"
    using I(7) r(1) ph by (auto simp: work_ok_def)
  have ph': "phase_of ?p w = Some Idle" using ph wk by auto
  have ex: "executing ?p = executing p" by (rule ext) (use ph ph' in \<open>auto simp: executing_def\<close>)
  note ds = fam_distinct [OF I(1)]
  show ?thesis
  proof (rule step_okI)
    show "act (Done2 l) p = Inr ?p"
      using e hd Cons s1(1) na s(1) r
      by (simp add: uv__work_done2_def on_qs_def QUEUE_DATA_def get_req_def uv__queue_done_def uv__req_unregister_def uv__has_active_reqs_def)
    show "pool_inv ?p gq lq (dq(l := remove1 w (dq l))) (ac(l := remove1 w (ac l)))"
    proof (rule pool_invI)
      show "mem_ok ?p" using I(2) s(2) r(1) ph' by (auto simp: mem_ok_def)
      show "gq_ok ?p gq" using I(3) ph ph' by (auto simp: gq_ok_def)
      show "lq_ok ?p lq (dq(l := remove1 w (dq l)))"
        by (rule lq_ok_leave [OF I(4) ph lo]) (use ph' ds(3) [OF dr] ds(5) [OF dr] wd in auto)
      show "ac_ok ?p (ac(l := remove1 w (ac l)))" using I(5) ph ph' lo ds(4) [of l] by (auto simp: ac_ok_def loop_of_def)
      show "cancel_ok ?p" using I(6) ph ph' by (auto simp: cancel_ok_def loop_of_def)
      show "work_ok ?p" using I(7) ph' by (auto simp: work_ok_def)
      show "thr_ok ?p" by (rule thr_ok_same [OF I(8)]) (use ph ph' in auto)
      show "wake_ok ?p gq lq" using I(9) attended_same [of p ?p] by (simp add: wake_ok_def)
    qed (use s(3) ex in simp)
  qed
qed

lemma done2_ok: "pool_inv p gq lq dq ac \<Longrightarrow> enabled p (Done2 l) \<Longrightarrow> step_ok (act (Done2 l) p)"
  using done2_ends done2_answers by (cases "dq l") blast+

lemma cancel1_busy:
  assumes "pool_inv p gq lq dq ac" "reqs p w = Some r"
    "phase_of p w \<in> {Some Executing, Some Executed, Some Finishing}"
  shows "step_ok (map_sum id fst (uv__work_cancel1 (w_loop r) w p))"
proof -
  note I = pool_invD [OF assms(1)]
  have "\<exists>b. QUEUE_EMPTY (qs p) (Work_wq w) = Inr b \<and> (b \<or> w_work r = None)"
  proof (cases "phase_of p w = Some Finishing")
    case True
    let ?l = "w_loop r"
    have "w \<in> set (lq ?l) \<or> draining p ?l \<and> w \<in> set (dq ?l)"
      using I(4) True assms(2) by (auto simp: lq_ok_def loop_of_def)
    then have "QUEUE_EMPTY (qs p) (Work_wq w) = Inr False"
      using uvq.member_law [OF I(1), of "Loop_wq ?l" "map Work_wq (lq ?l)" "Work_wq w"]
        uvq.member_law [OF I(1), of "Local_wq ?l" "map Work_wq (dq ?l)" "Work_wq w"] by auto
    then show ?thesis using I(7) True assms(2) by (auto simp: work_ok_def)
  next
    case False
    then have "executing p w" using assms(3) by (auto simp: executing_def)
    then show ?thesis using uvq.empty_law [OF I(1), of "Work_wq w" "[]"] by auto
  qed
  then have a: "map_sum id fst (uv__work_cancel1 (w_loop r) w p) = Inr (note_event (Cancel_busy w) p)"
    using assms(2) by (auto simp: uv__work_cancel1_def get_req_def)
  have ph: "phase_of (note_event (Cancel_busy w) p) v = phase_of p v" for v using assms(3) by auto
  have "thr_ok (note_event (Cancel_busy w) p)" by (rule thr_ok_same [OF I(8)]) (simp_all only: ph upd_pool_simps(1-8) simp_thms)
  moreover have "gq \<noteq> [] \<longrightarrow> attended (note_event (Cancel_busy w) p)" using I(9) by (simp add: wake_ok_def attended_def)
  ultimately have "pool_inv (note_event (Cancel_busy w) p) gq lq dq ac"
    by (intro pool_inv_threads [OF assms(1)]) (simp_all only: upd_pool_simps(1-8) ph)
  with a show ?thesis by (rule step_okI)
qed

lemma cancel1_take:
  assumes inv: "pool_inv p gq lq dq ac" and r: "reqs p w = Some r" "w_work r \<noteq> None" and l: "cancelling p (w_loop r) = None"
    and ph: "phase_of p w = Some Queued \<or> phase_of p w = Some Cancelled"
    and q: "QUEUE_EMPTY (qs p) (Work_wq w) = Inr False"
    and s: "QUEUE_REMOVE (Work_wq w) (qs p) = Inr s" "dom s = dom (qs p)" "holds s (fam (draining p) (executing p) gq' lq' dq' ac)"
    and gq: "gq_ok (note_event (Cancel_ok w) p) gq'" and lq: "lq_ok (note_event (Cancel_ok w) p) lq' dq'"
    and sub: "gq' \<noteq> [] \<longrightarrow> gq \<noteq> []" "\<And>k. lq' k \<noteq> [] \<Longrightarrow> lq k \<noteq> []"
  shows "step_ok (map_sum id fst (uv__work_cancel1 (w_loop r) w p))"
proof (rule step_okI)
  note I = pool_invD [OF inv]
  let ?p = "note_event (Cancel_ok w) (p\<lparr>qs := s, cancelling := (cancelling p)(w_loop r \<mapsto> w)\<rparr>)"
  show "map_sum id fst (uv__work_cancel1 (w_loop r) w p) = Inr ?p"
    using r q s(1) by (simp add: uv__work_cancel1_def get_req_def on_qs_def)
  have ph': "phase_of ?p w = Some Cancelling" using ph by auto
  have ex: "executing ?p = executing p" by (rule ext) (use ph in \<open>auto simp: executing_def\<close>)
  show "pool_inv ?p gq' lq' dq' ac"
  proof (rule pool_invI)
    show "mem_ok ?p" using I(2) s(2) r(1) ph' by (auto simp: mem_ok_def)
    show "gq_ok ?p gq'" using gq by (simp add: gq_ok_def)
    show "lq_ok ?p lq' dq'" using lq by (simp add: lq_ok_def loop_of_def)
    show "ac_ok ?p ac" using I(5) ph ph' by (auto simp: ac_ok_def loop_of_def)
    show "cancel_ok ?p" unfolding cancel_ok_def
    proof (intro allI)
      fix k v
      have "\<not> (phase_of p v = Some Cancelling \<and> loop_of p v = Some (w_loop r))"
        using I(6) [unfolded cancel_ok_def, rule_format, of "w_loop r" v] l by simp
      then show "cancelling ?p k = Some v \<longleftrightarrow> phase_of ?p v = Some Cancelling \<and> loop_of ?p v = Some k"
        using I(6) [unfolded cancel_ok_def, rule_format, of k v] ph ph' r(1) by (auto simp: loop_of_def)
    qed
    show "work_ok ?p" using I(7) ph ph' by (auto simp: work_ok_def)
    show "thr_ok ?p" by (rule thr_ok_same [OF I(8)]) (use ph ph' in auto)
    show "wake_ok ?p gq' lq'" using I(9) attended_same [of p ?p] sub by (auto simp: wake_ok_def)
  qed (use s(3) ex in simp)
qed

lemma cancel1_ok:
  assumes "pool_inv p gq lq dq ac" "enabled p (Cancel1 ty w)"
  shows "step_ok (act (Cancel1 ty w) p)"
proof (cases "ty = UV_OTHER_REQ")
  case True
  then show ?thesis using assms(1) by (intro step_okI) (simp_all add: uv_cancel_def)
next
  case False
  note I = pool_invD [OF assms(1)]
  obtain r where r: "reqs p w = Some r" and l: "cancelling p (w_loop r) = None" and ni: "phase_of p w \<noteq> Some Idle"
    using assms(2) by (auto simp: loop_free_def split: option.splits)
  let ?l = "w_loop r"
  have a: "act (Cancel1 ty w) p = map_sum id fst (uv__work_cancel1 ?l w p)"
    using False r by (simp add: uv_cancel_def get_req_def)
  obtain ph where ph: "phase_of p w = Some ph" using phase_some [OF I(2), of w] by blast
  have "ph \<noteq> Cancelling"
    using I(6) [unfolded cancel_ok_def, rule_format, of ?l w] r l ph by (auto simp: loop_of_def)
  then consider "phase_of p w \<in> {Some Executing, Some Executed, Some Finishing}" | "ph = Queued" | "ph = Cancelled"
    using ph ni by (cases ph) auto
  then show ?thesis
  proof cases
    case 1
    then show ?thesis unfolding a by (rule cancel1_busy [OF assms(1) r])
  next
    case 2
    then have ph: "phase_of p w = Some Queued" using ph by simp
    then have q: "Work_wq w \<in> set gq" using I(3) by (auto simp: gq_ok_def)
    obtain s where s: "QUEUE_REMOVE (Work_wq w) (qs p) = Inr s" "dom s = dom (qs p)"
        "holds s (fam (draining p) (executing p) (remove1 (Work_wq w) gq) lq dq ac)"
      using fam_remove_wq [OF I(1) q] by blast
    have wk: "w_work r \<noteq> None" using I(7) ph r by (simp add: work_ok_def)
    show ?thesis unfolding a
    proof (rule cancel1_take [OF assms(1) r wk l _ uvq.member_law [OF I(1) fam_simps(1) q] s])
      show "gq_ok (note_event (Cancel_ok w) p) (remove1 (Work_wq w) gq)"
        by (rule gq_ok_remove [OF I(3) fam_distinct(1) [OF I(1)], where e = "Cancel_ok w"]) (simp_all add: ph)
      show "lq_ok (note_event (Cancel_ok w) p) lq dq" using I(4) ph by (auto simp: lq_ok_def loop_of_def)
    qed (use ph q in auto)
  next
    case 3
    then have ph: "phase_of p w = Some Cancelled" using ph by simp
    have lo: "loop_of p w = Some ?l" using r by (simp add: loop_of_def)
    have wk: "w_work r \<noteq> None" using I(7) ph r by (simp add: work_ok_def)
    have gq: "gq_ok (note_event (Cancel_ok w) p) gq" using I(3) ph by (auto simp: gq_ok_def)
    note ds = fam_distinct [OF I(1)]
    have "w \<in> set (lq ?l) \<or> draining p ?l \<and> w \<in> set (dq ?l)" using I(4) ph lo by (auto simp: lq_ok_def)
    then show ?thesis
    proof
      assume q: "w \<in> set (lq ?l)"
      have m: "Work_wq w \<in> set (map Work_wq (lq ?l))" using q by simp
      obtain s where s: "QUEUE_REMOVE (Work_wq w) (qs p) = Inr s" "dom s = dom (qs p)"
          "holds s (fam (draining p) (executing p) gq (lq(?l := remove1 w (lq ?l))) dq ac)"
        using fam_remove_loop [where w = w, OF I(1) q] by blast
      show ?thesis unfolding a
      proof (rule cancel1_take [OF assms(1) r wk l _ uvq.member_law [OF I(1) fam_simps(3) m] s gq])
        show "lq_ok (note_event (Cancel_ok w) p) (lq(?l := remove1 w (lq ?l))) dq"
          by (rule lq_ok_leave [OF I(4) _ lo]) (use ph ds(2,5) q in auto)
      qed (use ph q in \<open>auto split: if_splits\<close>)
    next
      assume q: "draining p ?l \<and> w \<in> set (dq ?l)"
      have m: "fam (draining p) (executing p) gq lq dq ac (Local_wq ?l) = Some (map Work_wq (dq ?l))"
        "Work_wq w \<in> set (map Work_wq (dq ?l))" using q by simp_all
      obtain s where s: "QUEUE_REMOVE (Work_wq w) (qs p) = Inr s" "dom s = dom (qs p)"
          "holds s (fam (draining p) (executing p) gq lq (dq(?l := remove1 w (dq ?l))) ac)"
        using fam_remove_local [where w = w, OF I(1)] q by blast
      show ?thesis unfolding a
      proof (rule cancel1_take [OF assms(1) r wk l _ uvq.member_law [OF I(1) m] s gq])
        show "lq_ok (note_event (Cancel_ok w) p) lq (dq(?l := remove1 w (dq ?l)))"
          by (rule lq_ok_leave [OF I(4) _ lo]) (use ph ds(3,5) q in auto)
      qed (use ph q in auto)
    qed
  qed
qed

lemma act_ok:
  assumes "pool_inv p gq lq dq ac" "enabled p a" shows "step_ok (act a p)"
  using assms
  by (cases a) (simp_all only: alloc_ok free_ok submit_ok take_ok work_step_ok finish_ok spurious_ok cancel1_ok cancel2_ok
      done1_ok done2_ok exit_ok)

lemma reach_inv: "pool_reach p \<Longrightarrow> \<exists>gq lq dq ac. pool_inv p gq lq dq ac"
proof (induction rule: pool_reach.induct)
  case (start val al sys p)
  then show ?case using start_inv by blast
next
  case (step p a p')
  then show ?case using act_ok [of p _ _ _ _ a] by (auto simp: step_ok_def)
qed

end
