(* ===== verification/PoolSafe.thy ===== *)
theory PoolSafe
  imports PoolInv
begin

text \<open>
  What the thread pool guarantees for every interleaving of its threads: memory safety and
  the life cycle of requests, one answer for every submission, no lost wake-up, and
  the result of \<open>uv_cancel\<close>; with an example of a run.
\<close>

section \<open>What the threads guarantee\<close>

text \<open>
  C3. Whatever the threads do, in whatever order: no step aborts, uses freed memory or a null
  function, and the history of every request stays within its life cycle.
\<close>

theorem pool_safe:
  assumes "pool_reach p" "enabled p a"
  shows "\<exists>p'. act a p = Inr p' \<and> pool_reach p' \<and> (\<forall>w. phase_of p' w \<noteq> None)"
proof -
  obtain gq lq dq ac where I: "pool_inv p gq lq dq ac" using reach_inv [OF assms(1)] by blast
  obtain p' gq lq dq ac where p': "act a p = Inr p'" "pool_inv p' gq lq dq ac"
    using act_ok [OF I assms(2)] unfolding step_ok_def by blast
  then have "\<forall>w. phase_of p' w \<noteq> None" using pool_invD(2) [OF p'(2)] by (simp add: mem_ok_def)
  then show ?thesis using p'(1) pool_reach.step [OF assms p'(1)] by blast
qed

text \<open>How often something happened.\<close>

definition occurs :: "(event \<Rightarrow> bool) \<Rightarrow> event list \<Rightarrow> nat" where
  "occurs P es = length (filter P es)"

fun is_done :: "nat \<Rightarrow> (int \<Rightarrow> bool) \<Rightarrow> event \<Rightarrow> bool" where
  "is_done w P (Done v err _) = (v = w \<and> P err)"
| "is_done w P _ = False"

lemma occurs_simps [simp]: "occurs P [] = 0" "occurs P (e # es) = (if P e then 1 else 0) + occurs P es"
  by (simp_all add: occurs_def)

lemma life_occurs:
  "life w es = Some ph \<Longrightarrow>
     occurs (\<lambda>e. e = Submitted w) es = occurs (is_done w (\<lambda>_. True)) es + (if ph = Idle then 0 else 1) \<and>
     occurs (\<lambda>e. e = Worked w) es = occurs (is_done w (\<lambda>err. err = 0)) es + (if ph = Executed \<or> ph = Finishing then 1 else 0) \<and>
     occurs (is_done w (\<lambda>_. True)) es = occurs (is_done w (\<lambda>err. err = 0)) es + occurs (is_done w (\<lambda>err. err = UV_ECANCELED)) es"
proof (induction es arbitrary: ph)
  case (Cons e es)
  show ?case
  proof (cases "about e = w")
    case True
    then obtain ph0 where ph0: "life w es = Some ph0" "life_step ph0 e = Some ph" using Cons.prems by (auto simp: bind_eq_Some_conv)
    show ?thesis using Cons.IH [OF ph0(1)] ph0(2) True
      by (cases "(ph0, e)" rule: life_step.cases) (auto simp: UV_ECANCELED_def split: if_splits)
  next
    case False
    then have "e \<noteq> Submitted w" "e \<noteq> Worked w" "\<not> is_done w P e" for P by (cases e; auto)+
    then show ?thesis using Cons False by simp
  qed
qed simp

text \<open>
  C6. Every submission is answered once: \<open>w->done\<close> has been called for all submissions of a
  request but the one in progress, with status 0 exactly for those whose function was
  called, once, and with \<open>UV_ECANCELED\<close> for the others; and a request is among the active
  requests of its loop exactly while its submission is in progress.
\<close>

theorem pool_done_once:
  assumes "pool_reach p"
  shows "\<exists>ph. phase_of p w = Some ph \<and>
     occurs (\<lambda>e. e = Submitted w) (hist p) = occurs (is_done w (\<lambda>_. True)) (hist p) + (if ph = Idle then 0 else 1) \<and>
     occurs (\<lambda>e. e = Worked w) (hist p) =
       occurs (is_done w (\<lambda>err. err = 0)) (hist p) + (if ph = Executed \<or> ph = Finishing then 1 else 0) \<and>
     occurs (is_done w (\<lambda>_. True)) (hist p) =
       occurs (is_done w (\<lambda>err. err = 0)) (hist p) + occurs (is_done w (\<lambda>err. err = UV_ECANCELED)) (hist p) \<and>
     (\<forall>l. \<exists>rs. QUEUE_FOREACH (qs p) (Active_reqs l) = Some (Inr rs) \<and>
            (Req_queue w \<in> set rs \<longleftrightarrow> ph \<noteq> Idle \<and> map_option w_loop (reqs p w) = Some l))"
proof -
  obtain gq lq dq ac where I: "pool_inv p gq lq dq ac" using reach_inv [OF assms] by blast
  obtain ph where ph: "phase_of p w = Some ph" using phase_some [OF pool_invD(2) [OF I]] by blast
  have "\<exists>rs. QUEUE_FOREACH (qs p) (Active_reqs l) = Some (Inr rs) \<and>
            (Req_queue w \<in> set rs \<longleftrightarrow> ph \<noteq> Idle \<and> map_option w_loop (reqs p w) = Some l)" for l
    using queue_foreach [OF holds_queue [OF pool_invD(1) [OF I] fam_simps(5)], of l] pool_invD(5) [OF I] ph
    by (auto simp: ac_ok_def loop_of_def)
  with ph life_occurs [OF ph] show ?thesis by blast
qed

text \<open>The steps that threads make by themselves.\<close>

fun internal :: "action \<Rightarrow> bool" where
  "internal (Take _ _) = True"
| "internal (Work _ _) = True"
| "internal (Finish _ _) = True"
| "internal (Cancel2 _ _) = True"
| "internal (Done1 _) = True"
| "internal (Done2 _) = True"
| "internal _ = False"

lemma may_wake_ex: "\<exists>j. may_wake p j"
  unfolding may_wake_def by blast

text \<open>
  C8. No wake-up is lost.  When no thread has anything left to do, no request is in progress and every
  submission has been answered; or, once the pool has been told to exit, every worker has left
  its loop, so that \<open>cleanup\<close> joins them all.
\<close>

theorem pool_quiescent:
  assumes "pool_reach p" "\<forall>a. internal a \<longrightarrow> \<not> enabled p a"
  shows "if exit_posted p then cleanup_join p \<noteq> None
     else phase_of p w = Some Idle \<and>
          occurs (\<lambda>e. e = Submitted w) (hist p) = occurs (is_done w (\<lambda>_. True)) (hist p)"
proof -
  obtain gq lq dq ac where "pool_inv p gq lq dq ac" using reach_inv [OF assms(1)] by blast
  note I = pool_invD [OF this]
  obtain j where j: "may_wake p j" using may_wake_ex by blast
  have no: "\<not> enabled p a" if "internal a" for a using assms(2) that by blast
  have t0: "threads p i = Asleep \<or> threads p i = Exited" if "i < nthreads p" for i
    using that j no [of "Take i j"] no [of "Work i _"] no [of "Finish i _"] by (cases "threads p i") auto
  show ?thesis
  proof (cases "exit_posted p")
    case True
    then have "Exit_message \<in> set gq" using I(3) by (auto simp: gq_ok_def)
    then have "attended p" using I(9) by (auto simp: wake_ok_def)
    then show ?thesis using True t0 by (auto simp: attended_def cleanup_join_def)
  next
    case False
    have t: "threads p i = Asleep" if "i < nthreads p" for i using t0 [OF that] I(8) False that by (auto simp: thr_ok_def)
    have none: "cancelling p l = None" for l using no [of "Cancel2 l _"] by (cases "cancelling p l") auto
    have dr: "\<not> draining p l" for l using no [of "Done2 l"] none by (auto simp: loop_free_def)
    have pe: "\<not> pending p l" for l using no [of "Done1 l"] none dr by (auto simp: loop_free_def)
    have "0 < nthreads p" using I(8) by (simp add: thr_ok_def)
    then have "\<not> attended p" using t by (auto simp: attended_def)
    then have gq: "gq = []" and lq: "lq l = []" for l using I(9) pe by (auto simp: wake_ok_def)
    obtain ph where ph: "phase_of p w = Some ph" using phase_some [OF I(2)] by blast
    have "ph = Idle"
    proof (cases ph)
      case Queued then show ?thesis using I(3) gq ph by (auto simp: gq_ok_def)
    next
      case Executing
      then obtain i where "threads p i = Running w" using I(8) ph by (auto simp: thr_ok_def)
      then show ?thesis using t [of i] I(8) by (cases "i < nthreads p") (auto simp: thr_ok_def not_less)
    next
      case Executed
      then obtain i where "threads p i = Finished w" using I(8) ph by (auto simp: thr_ok_def)
      then show ?thesis using t [of i] I(8) by (cases "i < nthreads p") (auto simp: thr_ok_def not_less)
    next
      case Finishing
      obtain r where "reqs p w = Some r" using phase_alloc [OF I(2), of w] ph Finishing by auto
      then show ?thesis using I(4) lq dr ph Finishing by (auto simp: lq_ok_def loop_of_def)
    next
      case Cancelling
      obtain r where "reqs p w = Some r" using phase_alloc [OF I(2), of w] ph Cancelling by auto
      then show ?thesis using I(6) none ph Cancelling by (auto simp: cancel_ok_def loop_of_def)
    next
      case Cancelled
      obtain r where "reqs p w = Some r" using phase_alloc [OF I(2), of w] ph Cancelled by auto
      then show ?thesis using I(4) lq dr ph Cancelled by (auto simp: lq_ok_def loop_of_def)
    qed simp
    then show ?thesis using life_occurs [OF ph] ph False by simp
  qed
qed

text \<open>
  \<open>uv_cancel\<close> refuses with \<open>UV_EBUSY\<close> exactly the requests a worker has taken, and goes on to
  cancel the others.
\<close>

lemma uv_cancel_result:
  assumes "pool_reach p" "enabled p (Cancel1 UV_WORK w)"
  shows "\<exists>p' res. uv_cancel UV_WORK w p = Inr (p', res) \<and>
     (res = Some UV_EBUSY \<and> phase_of p w \<in> {Some Executing, Some Executed, Some Finishing} \<or>
      res = None \<and> phase_of p w \<in> {Some Queued, Some Cancelled} \<and> phase_of p' w = Some Cancelling)"
proof -
  obtain gq lq dq ac where I: "pool_inv p gq lq dq ac" using reach_inv [OF assms(1)] by blast
  obtain p1 gq lq dq ac where p1: "act (Cancel1 UV_WORK w) p = Inr p1" "pool_inv p1 gq lq dq ac"
    using act_ok [OF I assms(2)] unfolding step_ok_def by blast
  obtain ph where ph: "phase_of p w = Some ph" using phase_some [OF pool_invD(2) [OF I]] by blast
  obtain ph1 where ph1: "phase_of p1 w = Some ph1" using phase_some [OF pool_invD(2) [OF p1(2)]] by blast
  obtain res where res: "uv_cancel UV_WORK w p = Inr (p1, res)" using p1(1) by (cases "uv_cancel UV_WORK w p") auto
  then have "hist p1 = Cancel_busy w # hist p \<and> res = Some UV_EBUSY \<or> hist p1 = Cancel_ok w # hist p \<and> res = None"
    by (auto simp: uv_cancel_def uv__work_cancel1_def on_qs_def Let_def res_bind_Inr split: if_splits)
  then show ?thesis using ph ph1 res by (cases ph) auto
qed

section \<open>An example\<close>

fun run_actions :: "action list \<Rightarrow> pool \<Rightarrow> pool option" where
  "run_actions [] p = Some p"
| "run_actions (a # as) p =
     (if enabled p a then case act a p of Inl _ \<Rightarrow> None | Inr p' \<Rightarrow> run_actions as p' else None)"

lemma reach_run: "pool_reach p \<Longrightarrow> run_actions as p = Some p' \<Longrightarrow> pool_reach p'"
  by (induction as arbitrary: p) (auto split: if_splits sum.splits intro: pool_reach.step)

definition pool_of :: "pool res \<Rightarrow> pool" where
  "pool_of r = (case r of Inl _ \<Rightarrow> boot | Inr p \<Rightarrow> p)"

text \<open>One worker; two requests, of which the second is cancelled while the first is executed.\<close>

definition demo_actions :: "action list" where
  "demo_actions = [Alloc 0 \<lparr>w_work = None, w_loop = 9, after_work_cb = True\<rparr> \<lparr>q_next = Wq, q_prev = Wq\<rparr> \<lparr>q_next = Wq, q_prev = Wq\<rparr>,
     Alloc 1 \<lparr>w_work = None, w_loop = 9, after_work_cb = True\<rparr> \<lparr>q_next = Wq, q_prev = Wq\<rparr> \<lparr>q_next = Wq, q_prev = Wq\<rparr>,
     Take 0 0, Submit 0 0 True 0, Submit 0 1 False 0, Take 0 0]"

definition demo_end :: "action list" where
  "demo_end = [Work 0 0, Cancel1 UV_WORK 1, Cancel2 0 1, Finish 0 0, Done1 0, Done2 0, Done2 0, Done2 0, Take 0 0]"

definition demo :: pool where
  "demo = the (run_actions demo_actions (pool_of (init_once (Some 1) True True boot)))"

definition demo2 :: pool where
  "demo2 = the (run_actions demo_end demo)"

lemmas exec_defs = on_qs_def get_req_def QUEUE_EMPTY_def QUEUE_HEAD_def QUEUE_INIT_def QUEUE_INSERT_TAIL_def QUEUE_REMOVE_def QUEUE_SPLIT_def
  QUEUE_NEXT_def QUEUE_PREV_def set_QUEUE_NEXT_def set_QUEUE_PREV_def set_QUEUE_PREV_NEXT_def set_QUEUE_NEXT_PREV_def
  worker_take_def worker_work_def worker_finish_def post_def uv__work_submit_def uv_queue_work_def uv__work_cancel1_def uv__work_cancel2_def
  uv__work_done1_def uv__work_done2_def uv__queue_done_def uv__req_unregister_def uv__has_active_reqs_def uv__req_register_def uv__queue_work_def uv_cancel_def QUEUE_DATA_def
  uv_cond_signal_def uv_async_send_def note_event_def set_thread_def set_req_def

lemmas demo_defs = pool_of_def init_once_def pool_size_def boot_def exec_defs Let_def may_wake_def loop_free_def

lemma demo_runs: "run_actions demo_actions (pool_of (init_once (Some 1) True True boot)) \<noteq> None"
  by (simp add: demo_actions_def demo_defs)

lemma demo_facts:
  "hist demo = [Taken 0, Submitted 1, Submitted 0]" "nthreads demo = 1" "threads demo 0 = Running 0"
  "cancelling demo 0 = None" "map_option w_loop (reqs demo 1) = Some 0"
  by (simp_all add: demo_def demo_actions_def demo_defs)

lemma demo_reach: "pool_reach demo"
proof (rule reach_run)
  show "pool_reach (pool_of (init_once (Some 1) True True boot))"
    by (rule pool_reach.start [of "Some 1" True True]) (simp add: demo_defs)
  show "run_actions demo_actions (pool_of (init_once (Some 1) True True boot)) = Some demo"
    using demo_runs by (auto simp: demo_def)
qed

lemma demo2_runs: "run_actions demo_end demo \<noteq> None"
  by (simp add: demo_end_def demo_def demo_actions_def demo_defs)

lemma demo2_facts:
  "hist demo2 = [Done 0 0 True, Done 1 UV_ECANCELED False, Completed 0, Cancel_queued 1, Cancel_ok 1, Worked 0, Taken 0, Submitted 1, Submitted 0]"
  "nthreads demo2 = 1" "threads demo2 0 = Asleep" "cancelling demo2 l = None" "\<not> draining demo2 l" "\<not> pending demo2 l" "\<not> exit_posted demo2"
  by (simp_all add: demo2_def demo_end_def demo_def demo_actions_def demo_defs)

lemma demo2_reach: "pool_reach demo2"
  by (rule reach_run [OF demo_reach]) (use demo2_runs in \<open>auto simp: demo2_def\<close>)

theorem pool_safe_witness: "\<exists>p'. act (Work 0 0) demo = Inr p' \<and> pool_reach p' \<and> (\<forall>w. phase_of p' w \<noteq> None)"
  by (rule pool_safe [OF demo_reach]) (simp add: demo_facts)

theorem pool_done_once_witness:
  "occurs (is_done 1 (\<lambda>_. True)) (hist demo2) = occurs (is_done 1 (\<lambda>err. err = UV_ECANCELED)) (hist demo2) \<and>
   occurs (is_done 0 (\<lambda>err. err = 0)) (hist demo2) = 1"
  using pool_done_once [OF demo2_reach, of 1] pool_done_once [OF demo2_reach, of 0] by (simp add: demo2_facts UV_ECANCELED_def)

theorem pool_quiescent_witness: "phase_of demo2 1 = Some Idle"
proof -
  have "\<not> enabled demo2 a" if "internal a" for a
    using that by (cases a) (auto simp: demo2_facts)
  then have "\<forall>a. internal a \<longrightarrow> \<not> enabled demo2 a" by blast
  from pool_quiescent [OF demo2_reach this, of 1] show ?thesis by (simp only: demo2_facts(7) if_False)
qed

end
