(* ===== verification/LuaTable.thy ===== *)
theory LuaTable
  imports Prelude
begin

text \<open>
  The tables of Lua (\<open>lua/src/ltable.c\<close>): an array part and a hash part, a chained scatter
  table with Brent's variation.  A pointer to a node is its index in the node vector, a
  pointer to a value is a slot.  Numbers are taken up to \<open>luai_numeq\<close>: an integral number in
  the range of \<open>int\<close> is that integer, any other number has an identity of its own.  Objects are
  named by their address; a short string is interned, so that its address identifies it, a long
  one is compared by contents.  The hash functions, which depend on addresses and on the
  representation of numbers, are a parameter; the main position of nil is never asked for.
  The counters and powers of two of a rehash are natural numbers: an \<open>int\<close> holds them for
  tables of up to \<open>2^29\<close> array elements.  Memory for the vectors is assumed
  to be available; the barriers and flags for the collector and for metamethods are left out.
\<close>

section \<open>Values\<close>

datatype lnum = Nint int | Nflt nat | Nnan

datatype tkey = KNil | KNum lnum | KBool bool | KShr nat | KLng nat string | KLight nat | KLcf nat | KGc nat | KDead nat

definition numeq :: "lnum \<Rightarrow> lnum \<Rightarrow> bool" where
  "numeq a b \<longleftrightarrow> a = b \<and> a \<noteq> Nnan"

definition luaV_rawequalobj :: "tkey \<Rightarrow> tkey \<Rightarrow> bool" where
  "luaV_rawequalobj t1 t2 =
     (case t1 of
        KNil \<Rightarrow> t2 = KNil
      | KNum a \<Rightarrow> (case t2 of KNum b \<Rightarrow> numeq a b | _ \<Rightarrow> False)
      | KLng _ s \<Rightarrow> (case t2 of KLng _ s' \<Rightarrow> s = s' | _ \<Rightarrow> False)
      | KBool a \<Rightarrow> t2 = KBool a
      | KShr a \<Rightarrow> t2 = KShr a
      | KLight a \<Rightarrow> t2 = KLight a
      | KLcf a \<Rightarrow> t2 = KLcf a
      | KGc a \<Rightarrow> t2 = KGc a
      | KDead a \<Rightarrow> t2 = KDead a)"

record 'v Node =
  n_val :: "'v option"
  n_key :: tkey
  n_next :: "nat option"

text \<open>\<open>isdummy\<close> says that \<open>node\<close> is the common \<open>dummynode\<close>; \<open>sizearray\<close> is the length of the array.\<close>

record 'v Table =
  array :: "'v option list"
  node :: "'v Node list"
  isdummy :: bool
  lsizenode :: nat
  lastfree :: nat

definition dummynode :: "'v Node" where
  "dummynode = \<lparr>n_val = None, n_key = KNil, n_next = None\<rparr>"

datatype tslot = S_array nat | S_node nat | S_nilobject

text \<open>What a slot contains, and storing into it.\<close>

definition slot_val :: "'v Table \<Rightarrow> tslot \<Rightarrow> 'v option" where
  "slot_val t s = (case s of S_array i \<Rightarrow> array t ! i | S_node i \<Rightarrow> n_val (node t ! i) | S_nilobject \<Rightarrow> None)"

definition set_slot :: "'v Table \<Rightarrow> tslot \<Rightarrow> 'v option \<Rightarrow> 'v Table res" where
  "set_slot t s v =
     (case s of
        S_array i \<Rightarrow> res_bind (mem_set (array t) i v) (\<lambda>a. Inr (t\<lparr>array := a\<rparr>))
      | S_node i \<Rightarrow> res_bind (mem_get (node t) i) (\<lambda>n.
                     res_bind (mem_set (node t) i (n\<lparr>n_val := v\<rparr>)) (\<lambda>ns. Inr (t\<lparr>node := ns\<rparr>)))
      | S_nilobject \<Rightarrow> Inl Out_of_bounds)"

section \<open>Hashing\<close>

record hashing =
  h_num :: "lnum \<Rightarrow> u32"
  h_shr :: "nat \<Rightarrow> u32"
  h_lng :: "string \<Rightarrow> u32"
  h_ptr :: "nat \<Rightarrow> u32"

definition MAXBITS :: nat where "MAXBITS = 30"
definition MAXASIZE :: nat where "MAXASIZE = 2 ^ MAXBITS"

definition sizenode :: "'v Table \<Rightarrow> nat" where
  "sizenode t = 2 ^ lsizenode t"

definition hashpow2 :: "nat \<Rightarrow> nat \<Rightarrow> nat" where
  "hashpow2 sz n = n AND (sz - 1)"

definition hashmod :: "nat \<Rightarrow> nat \<Rightarrow> nat" where
  "hashmod sz n = n mod ((sz - 1) OR 1)"

definition hashnum :: "hashing \<Rightarrow> nat \<Rightarrow> lnum \<Rightarrow> nat" where
  "hashnum H sz n =
     (let i = h_num H n;
          i = (if sint i < 0 then let i = (if i = 0 - i then 0 else i) in - i else i)
      in hashmod sz (unat i))"

definition mainposition :: "hashing \<Rightarrow> nat \<Rightarrow> tkey \<Rightarrow> nat" where
  "mainposition H sz key =
     (case key of
        KNum n \<Rightarrow> hashnum H sz n
      | KLng _ s \<Rightarrow> hashpow2 sz (unat (h_lng H s))
      | KShr a \<Rightarrow> hashpow2 sz (unat (h_shr H a))
      | KBool b \<Rightarrow> hashpow2 sz (if b then 1 else 0)
      | KLight a \<Rightarrow> hashmod sz (unat (h_ptr H a))
      | KLcf a \<Rightarrow> hashmod sz (unat (h_ptr H a))
      | KGc a \<Rightarrow> hashmod sz (unat (h_ptr H a))
      | KDead a \<Rightarrow> hashmod sz (unat (h_ptr H a))
      | KNil \<Rightarrow> hashmod sz 0)"

text \<open>\<open>-1\<close> when the key is not an integral number in the range of \<open>int\<close>.\<close>

definition arrayindex :: "tkey \<Rightarrow> int" where
  "arrayindex key = (case key of KNum (Nint k) \<Rightarrow> k | _ \<Rightarrow> -1)"

section \<open>Searching\<close>

text \<open>A chain is followed with as much fuel as there are nodes.\<close>

fun chain_find :: "nat \<Rightarrow> 'v Node list \<Rightarrow> (tkey \<Rightarrow> bool) \<Rightarrow> nat \<Rightarrow> tslot res" where
  "chain_find 0 ns P n = Inl Diverges"
| "chain_find (Suc f) ns P n =
     res_bind (mem_get ns n) (\<lambda>nd.
       if P (n_key nd) then Inr (S_node n)
       else case n_next nd of None \<Rightarrow> Inr S_nilobject | Some n' \<Rightarrow> chain_find f ns P n')"

definition luaH_getint :: "hashing \<Rightarrow> 'v Table \<Rightarrow> int \<Rightarrow> tslot res" where
  "luaH_getint H t key =
     (if key = - (2 ^ 31) then Inl Int_overflow
      else if unat (word_of_int (key - 1) :: u32) < length (array t)
      then Inr (S_array (unat (word_of_int (key - 1) :: u32)))
      else chain_find (length (node t)) (node t) (\<lambda>k. case k of KNum n \<Rightarrow> numeq n (Nint key) | _ \<Rightarrow> False)
             (hashnum H (sizenode t) (Nint key)))"

definition luaH_getstr :: "hashing \<Rightarrow> 'v Table \<Rightarrow> nat \<Rightarrow> tslot res" where
  "luaH_getstr H t key =
     chain_find (length (node t)) (node t) (\<lambda>k. case k of KShr a \<Rightarrow> a = key | _ \<Rightarrow> False)
       (hashpow2 (sizenode t) (unat (h_shr H key)))"

definition luaH_get :: "hashing \<Rightarrow> 'v Table \<Rightarrow> tkey \<Rightarrow> tslot res" where
  "luaH_get H t key =
     (case key of
        KShr a \<Rightarrow> luaH_getstr H t a
      | KNil \<Rightarrow> Inr S_nilobject
      | KNum (Nint k) \<Rightarrow> luaH_getint H t k
      | _ \<Rightarrow> chain_find (length (node t)) (node t) (\<lambda>k. luaV_rawequalobj k key) (mainposition H (sizenode t) key))"

section \<open>Inserting a key\<close>

fun getfreepos_loop :: "'v Node list \<Rightarrow> nat \<Rightarrow> (nat \<times> nat option) res" where
  "getfreepos_loop ns 0 = Inr (0, None)"
| "getfreepos_loop ns (Suc lf) =
     res_bind (mem_get ns lf) (\<lambda>nd. if n_key nd = KNil then Inr (lf, Some lf) else getfreepos_loop ns lf)"

definition getfreepos :: "'v Table \<Rightarrow> ('v Table \<times> nat option) res" where
  "getfreepos t = res_bind (getfreepos_loop (node t) (lastfree t)) (\<lambda>(lf, n). Inr (t\<lparr>lastfree := lf\<rparr>, n))"

text \<open>\<open>while (gnext(othern) != mp) othern = gnext(othern)\<close>.\<close>

fun find_previous :: "nat \<Rightarrow> 'v Node list \<Rightarrow> nat \<Rightarrow> nat \<Rightarrow> nat res" where
  "find_previous 0 ns mp othern = Inl Diverges"
| "find_previous (Suc f) ns mp othern =
     res_bind (mem_get ns othern) (\<lambda>nd.
       case n_next nd of None \<Rightarrow> Inl Null_deref
       | Some n' \<Rightarrow> if n' = mp then Inr othern else find_previous f ns mp n')"

definition set_node :: "nat \<Rightarrow> ('v Node \<Rightarrow> 'v Node) \<Rightarrow> 'v Table \<Rightarrow> 'v Table res" where
  "set_node i f t =
     res_bind (mem_get (node t) i) (\<lambda>n. res_bind (mem_set (node t) i (f n)) (\<lambda>ns. Inr (t\<lparr>node := ns\<rparr>)))"

text \<open>\<open>grow\<close> is what happens when there is no free position: \<open>rehash\<close> and \<open>luaH_set\<close>.\<close>

definition newkey_with ::
    "('v Table \<Rightarrow> tkey \<Rightarrow> ('v Table \<times> tslot) res) \<Rightarrow> hashing \<Rightarrow> 'v Table \<Rightarrow> tkey \<Rightarrow> ('v Table \<times> tslot) res" where
  "newkey_with grow H t key =
     (if key = KNil then Inl (Lua_error ''table index is nil'')
      else if key = KNum Nnan then Inl (Lua_error ''table index is NaN'')
      else let mp = mainposition H (sizenode t) key
      in res_bind (mem_get (node t) mp) (\<lambda>mpn.
         if n_val mpn \<noteq> None \<or> isdummy t
         then res_bind (getfreepos t) (\<lambda>(t, free).
              case free of
                None \<Rightarrow> grow t key
              | Some n \<Rightarrow>
                  let othern = mainposition H (sizenode t) (n_key mpn)
                  in if othern \<noteq> mp
                     then res_bind (find_previous (length (node t)) (node t) mp othern) (\<lambda>prev.
                          res_bind (set_node prev (\<lambda>x. x\<lparr>n_next := Some n\<rparr>) t) (\<lambda>t.
                          res_bind (mem_get (node t) mp) (\<lambda>m.
                          res_bind (set_node n (\<lambda>_. m) t) (\<lambda>t.
                          res_bind (set_node mp (\<lambda>x. x\<lparr>n_next := None, n_val := None\<rparr>) t) (\<lambda>t.
                          res_bind (set_node mp (\<lambda>x. x\<lparr>n_key := key\<rparr>) t) (\<lambda>t. Inr (t, S_node mp)))))))
                     else res_bind (set_node n (\<lambda>x. x\<lparr>n_next := n_next mpn\<rparr>) t) (\<lambda>t.
                          res_bind (set_node mp (\<lambda>x. x\<lparr>n_next := Some n\<rparr>) t) (\<lambda>t.
                          res_bind (set_node n (\<lambda>x. x\<lparr>n_key := key\<rparr>) t) (\<lambda>t. Inr (t, S_node n)))))
         else res_bind (set_node mp (\<lambda>x. x\<lparr>n_key := key\<rparr>) t) (\<lambda>t. Inr (t, S_node mp))))"

text \<open>The two ways to set a value, over the function \<open>nk\<close> that inserts a key.\<close>

definition set_with ::
    "('v Table \<Rightarrow> tkey \<Rightarrow> ('v Table \<times> tslot) res) \<Rightarrow> hashing \<Rightarrow> 'v Table \<Rightarrow> tkey \<Rightarrow> ('v Table \<times> tslot) res" where
  "set_with nk H t key =
     res_bind (luaH_get H t key) (\<lambda>p. if p \<noteq> S_nilobject then Inr (t, p) else nk t key)"

definition setint_with ::
    "('v Table \<Rightarrow> tkey \<Rightarrow> ('v Table \<times> tslot) res) \<Rightarrow> hashing \<Rightarrow> 'v Table \<Rightarrow> int \<Rightarrow> 'v option \<Rightarrow> 'v Table res" where
  "setint_with nk H t key v =
     res_bind (luaH_getint H t key) (\<lambda>p.
     res_bind (if p \<noteq> S_nilobject then Inr (t, p) else nk t (KNum (Nint key))) (\<lambda>(t, cell). set_slot t cell v))"

section \<open>Rehashing\<close>

definition log_2 :: "nat list" where
  "log_2 = [0, 1] @ replicate 2 2 @ replicate 4 3 @ replicate 8 4 @ replicate 16 5 @ replicate 32 6 @ replicate 64 7 @ replicate 128 8"

text \<open>The loop ends because \<open>x\<close> becomes smaller.\<close>

function ceillog2_loop :: "nat \<Rightarrow> u32 \<Rightarrow> nat res" where
  "ceillog2_loop l x =
     (if x \<ge> 256 then ceillog2_loop (l + 8) (drop_bit 8 x)
      else res_bind (mem_get log_2 (unat x)) (\<lambda>b. Inr (l + b)))"
  by pat_completeness auto
termination
  by (relation "measure (\<lambda>(l, x). unat x)")
    (auto simp: word_le_nat_alt unat_drop_bit_eq drop_bit_eq_div unat_div)

declare ceillog2_loop.simps [simp del]

definition luaO_ceillog2 :: "u32 \<Rightarrow> nat res" where
  "luaO_ceillog2 x = ceillog2_loop 0 (x - 1)"

definition countint :: "tkey \<Rightarrow> nat list \<Rightarrow> (nat list \<times> nat) res" where
  "countint key nums =
     (let k = arrayindex key
      in if 0 < k \<and> k \<le> int MAXASIZE
         then res_bind (luaO_ceillog2 (word_of_int k)) (\<lambda>lg.
              res_bind (mem_get nums lg) (\<lambda>c. res_bind (mem_set nums lg (c + 1)) (\<lambda>nums. Inr (nums, 1))))
         else Inr (nums, 0))"

text \<open>The slices \<open>(2^(lg-1), 2^lg]\<close> of the array part, for the given values of \<open>lg\<close>.\<close>

primrec numusearray_loop :: "'v option list \<Rightarrow> nat list \<Rightarrow> nat \<Rightarrow> nat list \<Rightarrow> nat \<Rightarrow> (nat list \<times> nat) res" where
  "numusearray_loop a [] i nums ause = Inr (nums, ause)"
| "numusearray_loop a (lg # lgs) i nums ause =
     (let ttlg = 2 ^ lg;
          lim = (if ttlg > length a then length a else ttlg)
      in if ttlg > length a \<and> i > lim then Inr (nums, ause)
         else let lc = length (filter (\<lambda>k. a ! (k - 1) \<noteq> None) [i..<lim + 1])
              in res_bind (mem_get nums lg) (\<lambda>c.
                 res_bind (mem_set nums lg (c + lc)) (\<lambda>nums.
                   numusearray_loop a lgs (if i \<le> lim then lim + 1 else i) nums (ause + lc))))"

definition numusearray :: "'v Table \<Rightarrow> nat list \<Rightarrow> (nat list \<times> nat) res" where
  "numusearray t nums = numusearray_loop (array t) [0..<MAXBITS + 1] 1 nums 0"

text \<open>Over the nodes from the last to the first: the counts, the integer keys and all keys.\<close>

primrec numusehash_loop :: "'v Node list \<Rightarrow> nat list \<Rightarrow> nat \<Rightarrow> nat \<Rightarrow> (nat list \<times> nat \<times> nat) res" where
  "numusehash_loop [] nums ause totaluse = Inr (nums, ause, totaluse)"
| "numusehash_loop (n # ns) nums ause totaluse =
     (if n_val n \<noteq> None
      then res_bind (countint (n_key n) nums) (\<lambda>(nums, c). numusehash_loop ns nums (ause + c) (totaluse + 1))
      else numusehash_loop ns nums ause totaluse)"

definition numusehash :: "'v Table \<Rightarrow> nat list \<Rightarrow> nat \<Rightarrow> (nat list \<times> nat \<times> nat) res" where
  "numusehash t nums pnasize =
     res_bind (numusehash_loop (rev (node t)) nums 0 0) (\<lambda>(nums, ause, totaluse). Inr (nums, pnasize + ause, totaluse))"

lemma half_power_gt: "2 ^ i div 2 < n \<Longrightarrow> i \<le> (n :: nat)"
proof (cases i)
  case (Suc j)
  assume "2 ^ i div 2 < n"
  then have "2 ^ j < n" by (simp add: Suc)
  then have "j < n" using less_exp [of j] by linarith
  then show ?thesis by (simp add: Suc)
qed simp

text \<open>The pair of the new size of the array part and the number of keys that go there.\<close>

function computesizes_loop :: "nat list \<Rightarrow> nat \<Rightarrow> nat \<Rightarrow> nat \<Rightarrow> nat \<Rightarrow> nat \<Rightarrow> (nat \<times> nat) res" where
  "computesizes_loop nums narray i a na n =
     (let twotoi = 2 ^ i
      in if twotoi div 2 < narray
         then res_bind (mem_get nums i) (\<lambda>c.
              let a = a + c;
                  (na, n) = (if c > 0 \<and> a > twotoi div 2 then (a, twotoi) else (na, n))
              in if a = narray then Inr (n, na) else computesizes_loop nums narray (i + 1) a na n)
         else Inr (n, na))"
  by pat_completeness auto
termination
  by (relation "measure (\<lambda>(nums, narray, i, a, na, n). narray + 1 - i)") (auto dest: half_power_gt)

declare computesizes_loop.simps [simp del]

definition computesizes :: "nat list \<Rightarrow> nat \<Rightarrow> (nat \<times> nat) res" where
  "computesizes nums narray = computesizes_loop nums narray 0 0 0 0"

definition setarrayvector :: "nat \<Rightarrow> 'v Table \<Rightarrow> 'v Table" where
  "setarrayvector sz t = t\<lparr>array := take sz (array t) @ replicate (sz - length (array t)) None\<rparr>"

definition setnodevector :: "nat \<Rightarrow> 'v Table \<Rightarrow> 'v Table res" where
  "setnodevector sz t =
     (if sz = 0 then Inr (t\<lparr>node := [dummynode], isdummy := True, lsizenode := 0, lastfree := 0\<rparr>)
      else res_bind (luaO_ceillog2 (of_nat sz)) (\<lambda>lsize.
           if lsize > MAXBITS then Inl (Lua_error ''table overflow'')
           else Inr (t\<lparr>node := replicate (2 ^ lsize) dummynode, isdummy := False, lsizenode := lsize, lastfree := 2 ^ lsize\<rparr>)))"

text \<open>The elements of the array part that vanish, with their index, and the old nodes from the last one on.\<close>

primrec reinsert_array ::
    "('v Table \<Rightarrow> tkey \<Rightarrow> ('v Table \<times> tslot) res) \<Rightarrow> hashing \<Rightarrow> nat \<Rightarrow> 'v option list \<Rightarrow> 'v Table \<Rightarrow> 'v Table res" where
  "reinsert_array nk H i [] t = Inr t"
| "reinsert_array nk H i (v # vs) t =
     res_bind (if v \<noteq> None then setint_with nk H t (int i + 1) v else Inr t) (reinsert_array nk H (i + 1) vs)"

primrec reinsert_nodes ::
    "('v Table \<Rightarrow> tkey \<Rightarrow> ('v Table \<times> tslot) res) \<Rightarrow> hashing \<Rightarrow> 'v Node list \<Rightarrow> 'v Table \<Rightarrow> 'v Table res" where
  "reinsert_nodes nk H [] t = Inr t"
| "reinsert_nodes nk H (old # ns) t =
     res_bind (if n_val old \<noteq> None
               then res_bind (set_with nk H t (n_key old)) (\<lambda>(t, p). set_slot t p (n_val old)) else Inr t)
       (reinsert_nodes nk H ns)"

definition resize_with ::
    "('v Table \<Rightarrow> tkey \<Rightarrow> ('v Table \<times> tslot) res) \<Rightarrow> hashing \<Rightarrow> nat \<Rightarrow> nat \<Rightarrow> 'v Table \<Rightarrow> 'v Table res" where
  "resize_with nk H nasize nhsize t =
     (let olda = array t; nold = node t;
          t = (if nasize > length olda then setarrayvector nasize t else t)
      in res_bind (setnodevector nhsize t) (\<lambda>t.
         res_bind (if nasize < length olda
                   then reinsert_array nk H nasize (drop nasize olda) (t\<lparr>array := take nasize olda\<rparr>) else Inr t)
           (reinsert_nodes nk H (rev nold))))"

definition rehash_with ::
    "('v Table \<Rightarrow> tkey \<Rightarrow> ('v Table \<times> tslot) res) \<Rightarrow> hashing \<Rightarrow> 'v Table \<Rightarrow> tkey \<Rightarrow> 'v Table res" where
  "rehash_with nk H t ek =
     res_bind (numusearray t (replicate (MAXBITS + 1) 0)) (\<lambda>(nums, nasize).
     res_bind (numusehash t nums nasize) (\<lambda>(nums, nasize', hashuse).
     res_bind (countint ek nums) (\<lambda>(nums, c).
     res_bind (computesizes nums (nasize' + c)) (\<lambda>(newsize, na).
       resize_with nk H newsize (nasize + hashuse + 1 - na) t))))"

text \<open>
  The functions call each other: a new key may need a rehash, and a rehash inserts the old
  keys again.  The first argument bounds how often a rehash happens within a rehash;
  at the bound it is a fault.
\<close>

fun luaH_newkey_n :: "nat \<Rightarrow> hashing \<Rightarrow> 'v Table \<Rightarrow> tkey \<Rightarrow> ('v Table \<times> tslot) res" where
  "luaH_newkey_n 0 H t key = newkey_with (\<lambda>_ _. Inl Out_of_fuel) H t key"
| "luaH_newkey_n (Suc d) H t key =
     newkey_with (\<lambda>t key. res_bind (rehash_with (luaH_newkey_n d H) H t key) (\<lambda>t. set_with (luaH_newkey_n d H) H t key)) H t key"

definition luaH_newkey :: "hashing \<Rightarrow> 'v Table \<Rightarrow> tkey \<Rightarrow> ('v Table \<times> tslot) res" where
  "luaH_newkey = luaH_newkey_n 1"

definition luaH_set :: "hashing \<Rightarrow> 'v Table \<Rightarrow> tkey \<Rightarrow> ('v Table \<times> tslot) res" where
  "luaH_set H = set_with (luaH_newkey H) H"

definition luaH_setint :: "hashing \<Rightarrow> 'v Table \<Rightarrow> int \<Rightarrow> 'v option \<Rightarrow> 'v Table res" where
  "luaH_setint H = setint_with (luaH_newkey H) H"

definition luaH_resize :: "hashing \<Rightarrow> nat \<Rightarrow> nat \<Rightarrow> 'v Table \<Rightarrow> 'v Table res" where
  "luaH_resize H = resize_with (luaH_newkey H) H"

definition luaH_resizearray :: "hashing \<Rightarrow> nat \<Rightarrow> 'v Table \<Rightarrow> 'v Table res" where
  "luaH_resizearray H nasize t = luaH_resize H nasize (if isdummy t then 0 else sizenode t) t"

definition luaH_new :: "'v Table" where
  "luaH_new = \<lparr>array = [], node = [dummynode], isdummy = True, lsizenode = 0, lastfree = 0\<rparr>"

text \<open>What \<open>luaH_free\<close> gives back, with the sizes it accounts for.\<close>

datatype block = B_nodes nat | B_array nat | B_table

definition luaH_free :: "'v Table \<Rightarrow> block list" where
  "luaH_free t = (if isdummy t then [] else [B_nodes (sizenode t)]) @ [B_array (length (array t)), B_table]"

text \<open>
  The collector marks the keys of empty entries as dead when nothing else refers to them
  (\<open>lgc.c\<close>); \<open>white\<close> says which objects are not marked.
\<close>

definition gcvalue :: "tkey \<Rightarrow> nat option" where
  "gcvalue k = (case k of KShr a \<Rightarrow> Some a | KLng a _ \<Rightarrow> Some a | KGc a \<Rightarrow> Some a | _ \<Rightarrow> None)"

definition removeentry :: "(nat \<Rightarrow> bool) \<Rightarrow> 'v Node \<Rightarrow> 'v Node" where
  "removeentry white n =
     (case gcvalue (n_key n) of None \<Rightarrow> n | Some a \<Rightarrow> if white a then n\<lparr>n_key := KDead a\<rparr> else n)"

definition traversestrongtable :: "(nat \<Rightarrow> bool) \<Rightarrow> 'v Table \<Rightarrow> 'v Table" where
  "traversestrongtable white t = t\<lparr>node := map (\<lambda>n. if n_val n = None then removeentry white n else n) (node t)\<rparr>"

section \<open>Traversal\<close>

definition findindex :: "hashing \<Rightarrow> 'v Table \<Rightarrow> tkey \<Rightarrow> int res" where
  "findindex H t key =
     (if key = KNil then Inr (-1)
      else let i = arrayindex key
      in if 0 < i \<and> i \<le> int (length (array t)) then Inr (i - 1)
         else res_bind (chain_find (length (node t)) (node t)
                (\<lambda>k. luaV_rawequalobj k key \<or> (\<exists>a. k = KDead a \<and> gcvalue key = Some a))
                (mainposition H (sizenode t) key)) (\<lambda>s.
              case s of S_node n \<Rightarrow> Inr (int n + int (length (array t)))
              | _ \<Rightarrow> Inl (Lua_error ''invalid key to next'')))"

fun next_array :: "nat \<Rightarrow> 'v option list \<Rightarrow> (tkey \<times> 'v) option" where
  "next_array i [] = None"
| "next_array i (v # vs) = (case v of None \<Rightarrow> next_array (i + 1) vs | Some x \<Rightarrow> Some (KNum (Nint (int i + 1)), x))"

fun next_node :: "'v Node list \<Rightarrow> (tkey \<times> 'v) option" where
  "next_node [] = None"
| "next_node (n # ns) = (case n_val n of None \<Rightarrow> next_node ns | Some x \<Rightarrow> Some (n_key n, x))"

text \<open>The next entry, or \<open>None\<close> when there are no more elements.\<close>

definition luaH_next :: "hashing \<Rightarrow> 'v Table \<Rightarrow> tkey \<Rightarrow> (tkey \<times> 'v) option res" where
  "luaH_next H t key =
     res_bind (findindex H t key) (\<lambda>i.
       let i = nat (i + 1); sa = length (array t)
       in Inr (case next_array i (drop i (array t)) of
                 Some e \<Rightarrow> Some e
               | None \<Rightarrow> next_node (drop (if i < sa then 0 else i - sa) (node t))))"

section \<open>The length\<close>

text \<open>
  The positions are \<open>unsigned int\<close>; they stay below \<open>2 * MAX_INT\<close>, so nothing wraps around.
\<close>

definition MAX_INT :: nat where "MAX_INT = 2 ^ 31 - 3"

definition isnil_int :: "hashing \<Rightarrow> 'v Table \<Rightarrow> nat \<Rightarrow> bool res" where
  "isnil_int H t j = res_bind (luaH_getint H t (int j)) (\<lambda>s. Inr (slot_val t s = None))"

text \<open>The linear search, for tables \<open>built with bad purposes\<close>, has as much fuel as the table has entries.\<close>

fun linear_search :: "nat \<Rightarrow> hashing \<Rightarrow> 'v Table \<Rightarrow> nat \<Rightarrow> nat res" where
  "linear_search 0 H t i = Inl Diverges"
| "linear_search (Suc f) H t i = res_bind (isnil_int H t i) (\<lambda>e. if e then Inr (i - 1) else linear_search f H t (i + 1))"

text \<open>The search between a present index and one that is not.\<close>

function binary_search :: "(nat \<Rightarrow> bool res) \<Rightarrow> nat \<Rightarrow> nat \<Rightarrow> nat res" where
  "binary_search nil i j =
     (if j - i > 1
      then let m = (i + j) div 2 in res_bind (nil m) (\<lambda>e. if e then binary_search nil i m else binary_search nil m j)
      else Inr i)"
  by pat_completeness auto
termination
  by (relation "measure (\<lambda>(nil, i, j). j - i)") auto

declare binary_search.simps [simp del]

text \<open>The first loop doubles \<open>j\<close> until it passes \<open>MAX_INT\<close>; fuel 32 is enough.\<close>

fun unbound_loop :: "nat \<Rightarrow> hashing \<Rightarrow> 'v Table \<Rightarrow> nat \<Rightarrow> nat \<Rightarrow> nat res" where
  "unbound_loop 0 H t i j = Inl Diverges"
| "unbound_loop (Suc f) H t i j =
     res_bind (isnil_int H t j) (\<lambda>e.
       if e then binary_search (isnil_int H t) i j
       else let i = j; j = j * 2
            in if j > MAX_INT then linear_search (length (array t) + length (node t) + 1) H t 1
               else unbound_loop f H t i j)"

definition unbound_search :: "hashing \<Rightarrow> 'v Table \<Rightarrow> nat \<Rightarrow> nat res" where
  "unbound_search H t j = unbound_loop 32 H t j (j + 1)"

definition luaH_getn :: "hashing \<Rightarrow> 'v Table \<Rightarrow> nat res" where
  "luaH_getn H t =
     (let j = length (array t)
      in if j > 0 \<and> array t ! (j - 1) = None
         then binary_search (\<lambda>m. res_bind (mem_get (array t) (m - 1)) (\<lambda>v. Inr (v = None))) 0 j
         else if isdummy t then Inr j
         else unbound_search H t j)"

end
