(* ===== verification/LuaHash.thy ===== *)
theory LuaHash
  imports LuaTable
begin

text \<open>
  The hash part of Lua's tables: its chains, the invariant of Brent's variation, and that
  searching finds exactly the keys that are there and inserting adds exactly the new key.
\<close>

section \<open>Keys and positions\<close>

definition dead :: "tkey \<Rightarrow> bool" where
  "dead k \<longleftrightarrow> (\<exists>a. k = KDead a)"

text \<open>The keys a search may find, and those that may be used to index a table.\<close>

definition normal :: "tkey \<Rightarrow> bool" where
  "normal k \<longleftrightarrow> k \<noteq> KNil \<and> k \<noteq> KNum Nnan \<and> \<not> dead k"

lemma normal_simps [simp]: "\<not> normal KNil" "\<not> normal (KDead a)" "normal (KNum (Nint i))" "\<not> dead KNil" "dead (KDead a)"
  by (simp_all add: normal_def dead_def)

text \<open>Keys are equal when their classes are: the address of a long string does not matter.\<close>

definition key_class :: "tkey \<Rightarrow> tkey" where
  "key_class k = (case k of KLng a s \<Rightarrow> KLng 0 s | _ \<Rightarrow> k)"

lemma rawequal_class: "luaV_rawequalobj a b \<longleftrightarrow> key_class a = key_class b \<and> a \<noteq> KNum Nnan"
  by (cases a; cases b) (auto simp: luaV_rawequalobj_def key_class_def numeq_def)

lemma class_nan: "key_class k = KNum Nnan \<longleftrightarrow> k = KNum Nnan" "key_class (KNum n) = KNum n"
  by (cases k; simp add: key_class_def) (simp add: key_class_def)

lemma rawequal_refl: "luaV_rawequalobj k k \<longleftrightarrow> k \<noteq> KNum Nnan"
  by (simp add: rawequal_class)

lemma rawequal_sym: "luaV_rawequalobj a b = luaV_rawequalobj b a"
  by (metis rawequal_class class_nan)

lemma rawequal_trans: "luaV_rawequalobj a b \<Longrightarrow> luaV_rawequalobj b c \<Longrightarrow> luaV_rawequalobj a c"
  by (simp add: rawequal_class)

lemma rawequal_normal: "luaV_rawequalobj a b \<Longrightarrow> normal a = normal b"
  by (cases a; cases b) (auto simp: luaV_rawequalobj_def normal_def dead_def numeq_def)

lemma rawequal_int: "luaV_rawequalobj k (KNum (Nint i)) \<longleftrightarrow> k = KNum (Nint i)"
  by (cases k) (auto simp: luaV_rawequalobj_def numeq_def)

lemma rawequal_num [simp]: "luaV_rawequalobj (KNum a) (KNum b) = numeq a b"
  by (simp add: luaV_rawequalobj_def)

lemma mainposition_cong: "luaV_rawequalobj a b \<Longrightarrow> mainposition H sz a = mainposition H sz b"
  by (cases a; cases b) (auto simp: luaV_rawequalobj_def mainposition_def numeq_def)

lemma hashmod_less: "0 < sz \<Longrightarrow> hashmod sz n < sz"
proof -
  assume s: "0 < sz"
  show ?thesis
  proof (cases "sz = 1")
    case False
    have e: "(sz - 1) OR 1 = sz - 1 + of_bool (even (sz - 1))" by (rule or_one_eq)
    then have "(sz - 1) OR 1 \<le> sz" using s by (simp only:) (simp split: split_of_bool)
    moreover have "0 < (sz - 1) OR 1" using e False s by linarith
    ultimately show ?thesis unfolding hashmod_def using mod_less_divisor less_le_trans by blast
  qed (simp add: hashmod_def)
qed

lemma hashpow2_less: "hashpow2 (2 ^ k) n < 2 ^ k"
proof -
  have "n AND (2 ^ k - 1) = take_bit k n" by (simp add: take_bit_eq_mask mask_eq_exp_minus_1)
  then show ?thesis by (simp add: hashpow2_def)
qed

lemma mainposition_less: "mainposition H (2 ^ k) key < 2 ^ k"
  by (simp add: mainposition_def hashpow2_less hashmod_less hashnum_def Let_def split: tkey.splits)

section \<open>Chains\<close>

text \<open>\<open>before xs m x\<close>: a walk along the chain \<open>xs\<close> that starts at \<open>m\<close> comes to \<open>x\<close>.\<close>

definition before :: "'a list \<Rightarrow> 'a \<Rightarrow> 'a \<Rightarrow> bool" where
  "before xs m x \<longleftrightarrow> (\<exists>us vs. xs = us @ m # vs \<and> x \<in> set (m # vs))"

lemma before_self: "x \<in> set xs \<Longrightarrow> before xs x x"
  by (fastforce simp: before_def dest: split_list)

lemma before_mem: "before xs m x \<Longrightarrow> m \<in> set xs \<and> x \<in> set xs"
  by (auto simp: before_def)

lemma before_map: "before xs m x \<Longrightarrow> before (map f xs) (f m) (f x)"
proof -
  assume "before xs m x"
  then obtain us vs where "xs = us @ m # vs" "x \<in> set (m # vs)" by (auto simp: before_def)
  then show ?thesis unfolding before_def by (intro exI [of _ "map f us"] exI [of _ "map f vs"]) auto
qed

lemma before_insert: "before (us @ y # vs) m x \<Longrightarrow> before (us @ y # n # vs) m x"
  unfolding before_def
proof (elim exE conjE)
  fix as bs assume eq: "us @ y # vs = as @ m # bs" and x: "x \<in> set (m # bs)"
  then consider zs where "us = as @ m # zs" "bs = zs @ y # vs" | "us = as" "y = m" "vs = bs" | zs where "as = us @ y # zs" "vs = zs @ m # bs"
    by (auto simp: append_eq_append_conv2 Cons_eq_append_conv append_eq_Cons_conv)
  then show "\<exists>as bs. us @ y # n # vs = as @ m # bs \<and> x \<in> set (m # bs)"
  proof cases
    case 1 then show ?thesis using x by (intro exI [of _ as] exI [of _ "zs @ y # n # vs"]) auto
  next
    case 2 then show ?thesis using x by (intro exI [of _ as] exI [of _ "n # vs"]) auto
  next
    case 3 then show ?thesis using x by (intro exI [of _ "us @ y # n # zs"] exI [of _ bs]) auto
  qed
qed

fun linked :: "'v Node list \<Rightarrow> nat list \<Rightarrow> bool" where
  "linked ns [] = True"
| "linked ns (x # xs) = (n_next (ns ! x) = (case xs of [] \<Rightarrow> None | y # _ \<Rightarrow> Some y) \<and> linked ns xs)"

text \<open>Up to a node that follows.\<close>

fun linked_to :: "'v Node list \<Rightarrow> nat list \<Rightarrow> nat \<Rightarrow> bool" where
  "linked_to ns [] y = True"
| "linked_to ns (x # xs) y = (n_next (ns ! x) = Some (hd (xs @ [y])) \<and> linked_to ns xs y)"

lemma linked_append: "linked ns (us @ y # vs) \<longleftrightarrow> linked_to ns us y \<and> linked ns (y # vs)"
proof (induction us)
  case (Cons u us)
  then show ?case by (cases us) auto
qed simp

lemma linked_to_append: "linked_to ns (us @ x # vs) y \<longleftrightarrow> linked_to ns us x \<and> linked_to ns (x # vs) y"
  by (induction us) (auto simp: hd_append split: list.splits)

lemma linked_cong: "(\<And>x. x \<in> set xs \<Longrightarrow> n_next (ns' ! x) = n_next (ns ! x)) \<Longrightarrow> linked ns' xs = linked ns xs"
  by (induction xs) auto

lemma linked_to_cong: "(\<And>x. x \<in> set xs \<Longrightarrow> n_next (ns' ! x) = n_next (ns ! x)) \<Longrightarrow> linked_to ns' xs y = linked_to ns xs y"
  by (induction xs) auto

lemma linked_suffix: "linked ns (us @ vs) \<Longrightarrow> linked ns vs"
  by (cases vs) (auto simp: linked_append)

text \<open>A search along a chain.\<close>

lemma chain_find_linked:
  assumes "linked ns (x # xs)" "set (x # xs) \<subseteq> {..<length ns}" "length xs < f"
  shows "chain_find f ns P x = Inr (case find (\<lambda>i. P (n_key (ns ! i))) (x # xs) of None \<Rightarrow> S_nilobject | Some i \<Rightarrow> S_node i)"
  using assms
proof (induction xs arbitrary: x f)
  case Nil
  then obtain g where "f = Suc g" by (cases f) auto
  then show ?case using Nil by (simp add: mem_get_ok)
next
  case (Cons y ys)
  then obtain g where g: "f = Suc g" by (cases f) auto
  have "chain_find g ns P y = Inr (case find (\<lambda>i. P (n_key (ns ! i))) (y # ys) of None \<Rightarrow> S_nilobject | Some i \<Rightarrow> S_node i)"
    using Cons.prems g by (intro Cons.IH) auto
  then show ?case using Cons.prems g by (simp add: mem_get_ok)
qed

lemma find_previous_linked:
  assumes "linked_to ns (x # ws) mp" "set (x # ws) \<subseteq> {..<length ns}" "length ws < f" "mp \<notin> set ws"
  shows "find_previous f ns mp x = Inr (last (x # ws))"
  using assms
proof (induction ws arbitrary: x f)
  case Nil
  then obtain g where "f = Suc g" by (cases f) auto
  then show ?case using Nil by (simp add: mem_get_ok)
next
  case (Cons y ys)
  then obtain g where g: "f = Suc g" by (cases f) auto
  have "find_previous g ns mp y = Inr (last (y # ys))"
    using Cons.prems g by (intro Cons.IH) auto
  then show ?case using Cons.prems g by (simp add: mem_get_ok)
qed

section \<open>The invariant\<close>

text \<open>
  The nodes with a key are disjoint chains; a node whose key a search can find comes, in its
  chain, after the main position of the key; and the main position is held by a key that
  belongs there (or by a dead one).  This last part is the main invariant that the header
  of \<open>ltable.c\<close> describes.
\<close>

abbreviation nkey :: "'v Node list \<Rightarrow> nat \<Rightarrow> tkey" where
  "nkey ns i \<equiv> n_key (ns ! i)"

definition chains_ok :: "'v Node list \<Rightarrow> nat list set \<Rightarrow> bool" where
  "chains_ok ns C \<longleftrightarrow> (\<forall>xs\<in>C. distinct xs \<and> linked ns xs) \<and>
     (\<forall>xs\<in>C. \<forall>ys\<in>C. xs \<noteq> ys \<longrightarrow> set xs \<inter> set ys = {}) \<and>
     (\<forall>i. (\<exists>xs\<in>C. i \<in> set xs) \<longleftrightarrow> i < length ns \<and> nkey ns i \<noteq> KNil) \<and>
     (\<forall>i<length ns. nkey ns i = KNil \<longrightarrow> n_next (ns ! i) = None)"

definition in_chains :: "hashing \<Rightarrow> 'v Node list \<Rightarrow> nat list set \<Rightarrow> bool" where
  "in_chains H ns C \<longleftrightarrow> (\<forall>xs\<in>C. \<forall>x\<in>set xs. normal (nkey ns x) \<longrightarrow>
     before xs (mainposition H (length ns) (nkey ns x)) x)"

definition brent :: "hashing \<Rightarrow> 'v Node list \<Rightarrow> bool" where
  "brent H ns \<longleftrightarrow> (\<forall>x<length ns. normal (nkey ns x) \<longrightarrow>
     (let m = mainposition H (length ns) (nkey ns x) in dead (nkey ns m) \<or> mainposition H (length ns) (nkey ns m) = m))"

definition keys_ok :: "'v Node list \<Rightarrow> bool" where
  "keys_ok ns \<longleftrightarrow> (\<forall>i<length ns. nkey ns i \<noteq> KNum Nnan \<and> (\<not> normal (nkey ns i) \<longrightarrow> n_val (ns ! i) = None)) \<and>
     (\<forall>i<length ns. \<forall>j<length ns. normal (nkey ns i) \<longrightarrow> luaV_rawequalobj (nkey ns i) (nkey ns j) \<longrightarrow> i = j)"

definition hash_ok :: "hashing \<Rightarrow> 'v Node list \<Rightarrow> nat list set \<Rightarrow> bool" where
  "hash_ok H ns C \<longleftrightarrow> (\<exists>k. length ns = 2 ^ k) \<and> chains_ok ns C \<and> in_chains H ns C \<and> brent H ns \<and> keys_ok ns"

lemma hash_okD:
  assumes "hash_ok H ns C"
  shows "chains_ok ns C" "in_chains H ns C" "brent H ns" "keys_ok ns"
  using assms by (auto simp: hash_ok_def)

lemma main_less: "hash_ok H ns C \<Longrightarrow> mainposition H (length ns) k < length ns"
  by (auto simp: hash_ok_def mainposition_less)

lemma chainsD:
  assumes "chains_ok ns C" "xs \<in> C"
  shows "distinct xs" "linked ns xs" "set xs \<subseteq> {..<length ns}"
    "x \<in> set xs \<Longrightarrow> nkey ns x \<noteq> KNil" "ys \<in> C \<Longrightarrow> x \<in> set xs \<Longrightarrow> x \<in> set ys \<Longrightarrow> xs = ys"
proof -
  have m: "x < length ns \<and> nkey ns x \<noteq> KNil" if "x \<in> set xs" for x using assms that unfolding chains_ok_def by blast
  show "distinct xs" "linked ns xs" using assms by (auto simp: chains_ok_def)
  show "set xs \<subseteq> {..<length ns}" using m by auto
  show "x \<in> set xs \<Longrightarrow> nkey ns x \<noteq> KNil" using m by blast
  show "ys \<in> C \<Longrightarrow> x \<in> set xs \<Longrightarrow> x \<in> set ys \<Longrightarrow> xs = ys" using assms unfolding chains_ok_def by blast
qed

lemma chain_exists: "chains_ok ns C \<Longrightarrow> i < length ns \<Longrightarrow> nkey ns i \<noteq> KNil \<Longrightarrow> \<exists>xs\<in>C. i \<in> set xs"
  unfolding chains_ok_def by blast

lemma distinct_length: "distinct xs \<Longrightarrow> set xs \<subseteq> {..<n :: nat} \<Longrightarrow> length xs \<le> n"
  using card_mono [of "{..<n}" "set xs"] by (simp add: distinct_card)

section \<open>Searching\<close>

text \<open>The nodes on the walk from a position.\<close>

lemma chain_find_from:
  assumes C: "chains_ok ns C" and m: "m < length ns"
  shows "\<exists>ws. chain_find (length ns) ns P m = Inr (case find (\<lambda>i. P (nkey ns i)) ws of None \<Rightarrow> S_nilobject | Some i \<Rightarrow> S_node i)
     \<and> set ws \<subseteq> {..<length ns} \<and> m \<in> set ws \<and> (\<forall>xs\<in>C. \<forall>x. before xs m x \<longrightarrow> x \<in> set ws)"
proof (cases "nkey ns m = KNil")
  case True
  then have "linked ns [m]" using C m unfolding chains_ok_def by simp
  from chain_find_linked [OF this, of "length ns" P] have
    "chain_find (length ns) ns P m = Inr (case find (\<lambda>i. P (nkey ns i)) [m] of None \<Rightarrow> S_nilobject | Some i \<Rightarrow> S_node i)"
    using m by (cases ns) auto
  moreover have "\<not> before xs m x" if "xs \<in> C" for xs x using chainsD(4) [OF C that] True by (auto dest: before_mem)
  ultimately show ?thesis using m by (intro exI [of _ "[m]"]) auto
next
  case False
  then obtain xs where xs: "xs \<in> C" "m \<in> set xs" using chain_exists [OF C m] by blast
  then obtain us vs where s: "xs = us @ m # vs" using split_list by fast
  note D = chainsD [OF C xs(1)]
  have len: "length vs < length ns" using distinct_length [OF D(1,3)] s by simp
  have "linked ns (m # vs)" using D(2) s by (auto dest: linked_suffix)
  from chain_find_linked [OF this _ len, of P] have
    "chain_find (length ns) ns P m = Inr (case find (\<lambda>i. P (nkey ns i)) (m # vs) of None \<Rightarrow> S_nilobject | Some i \<Rightarrow> S_node i)"
    using D(3) s by auto
  moreover have "x \<in> set (m # vs)" if ys: "ys \<in> C" and b: "before ys m x" for ys x
  proof -
    have "ys = xs" using chainsD(5) [OF C ys xs(1), of m] xs(2) before_mem [OF b] by simp
    then obtain as bs where ab: "xs = as @ m # bs" "x \<in> set (m # bs)" using b by (auto simp: before_def)
    have "m \<notin> set us" "m \<notin> set vs" using D(1) s by auto
    then have "vs = bs" using append_Cons_eq_iff [of m us vs as bs] ab(1) s by simp
    then show ?thesis using ab(2) by simp
  qed
  ultimately show ?thesis using D(3) s by (intro exI [of _ "m # vs"]) auto
qed

lemma find_unique:
  assumes "i \<in> set ws" "P i" "\<And>j. j \<in> set ws \<Longrightarrow> P j \<Longrightarrow> j = i" shows "find P ws = Some i"
proof (cases "find P ws")
  case None then show ?thesis using assms(1,2) by (auto simp: find_None_iff)
next
  case (Some j)
  then have "j \<in> set ws" "P j" by (auto simp: find_Some_iff)
  then show ?thesis using assms(3) Some by simp
qed

lemma hash_find:
  assumes H: "hash_ok H ns C" and k: "normal k"
  shows "i < length ns \<Longrightarrow> luaV_rawequalobj (nkey ns i) k \<Longrightarrow>
           chain_find (length ns) ns (\<lambda>k'. luaV_rawequalobj k' k) (mainposition H (length ns) k) = Inr (S_node i)"
    and "(\<And>i. i < length ns \<Longrightarrow> \<not> luaV_rawequalobj (nkey ns i) k) \<Longrightarrow>
           chain_find (length ns) ns (\<lambda>k'. luaV_rawequalobj k' k) (mainposition H (length ns) k) = Inr S_nilobject"
proof -
  note D = hash_okD [OF H]
  let ?m = "mainposition H (length ns) k"
  obtain ws where ws: "chain_find (length ns) ns (\<lambda>k'. luaV_rawequalobj k' k) ?m =
      Inr (case find (\<lambda>i. luaV_rawequalobj (nkey ns i) k) ws of None \<Rightarrow> S_nilobject | Some i \<Rightarrow> S_node i)"
    "set ws \<subseteq> {..<length ns}" "\<forall>xs\<in>C. \<forall>x. before xs ?m x \<longrightarrow> x \<in> set ws"
    using chain_find_from [OF D(1) main_less [OF H]] by blast
  {
    assume i: "i < length ns" "luaV_rawequalobj (nkey ns i) k"
    have n: "normal (nkey ns i)" using rawequal_normal [OF i(2)] k by simp
    then have "nkey ns i \<noteq> KNil" by (auto simp: normal_def)
    then obtain xs where xs: "xs \<in> C" "i \<in> set xs" using chain_exists [OF D(1) i(1)] by blast
    have "before xs (mainposition H (length ns) (nkey ns i)) i" using D(2) xs n unfolding in_chains_def by blast
    then have "before xs ?m i" by (simp add: mainposition_cong [OF i(2)])
    then have iw: "i \<in> set ws" using ws(3) xs(1) by blast
    have uq: "j = i" if "j \<in> set ws" "luaV_rawequalobj (nkey ns j) k" for j
    proof -
      have "luaV_rawequalobj (nkey ns i) (nkey ns j)" by (rule rawequal_trans [OF i(2)]) (subst rawequal_sym, rule that(2))
      then show ?thesis using D(4) n i(1) ws(2) that(1) unfolding keys_ok_def by blast
    qed
    have "find (\<lambda>i. luaV_rawequalobj (nkey ns i) k) ws = Some i" by (rule find_unique [where P = "\<lambda>i. luaV_rawequalobj (nkey ns i) k", OF iw i(2) uq])
    then show "chain_find (length ns) ns (\<lambda>k'. luaV_rawequalobj k' k) ?m = Inr (S_node i)" using ws(1) by simp
  next
    assume no: "\<And>i. i < length ns \<Longrightarrow> \<not> luaV_rawequalobj (nkey ns i) k"
    then have "find (\<lambda>i. luaV_rawequalobj (nkey ns i) k) ws = None" using ws(2) by (auto simp: find_None_iff)
    then show "chain_find (length ns) ns (\<lambda>k'. luaV_rawequalobj k' k) ?m = Inr S_nilobject" using ws(1) by simp
  }
qed

section \<open>Inserting\<close>

definition absent :: "'v Node list \<Rightarrow> tkey \<Rightarrow> bool" where
  "absent ns k \<longleftrightarrow> (\<forall>i<length ns. \<not> luaV_rawequalobj (nkey ns i) k)"

text \<open>The entries of the hash part.\<close>

definition entry :: "'v Node list \<Rightarrow> tkey \<Rightarrow> 'v \<Rightarrow> bool" where
  "entry ns k v \<longleftrightarrow> (\<exists>i<length ns. luaV_rawequalobj (nkey ns i) k \<and> n_val (ns ! i) = Some v)"

lemma normal_rawequal_neq: "normal k \<Longrightarrow> luaV_rawequalobj k k"
  by (simp add: rawequal_refl normal_def)

lemma before_split: "x \<in> set (m # vs) \<Longrightarrow> before (us @ m # vs) m x"
  unfolding before_def by blast

lemma keys_ok_upd:
  assumes K: "keys_ok ns" and len: "length ns' = length ns" and key: "normal key" "absent ns key" and s: "s < length ns"
    and f: "\<And>i. i < length ns \<Longrightarrow> nkey ns' i = (if i = s then key else nkey ns (f i))"
    and inj: "\<And>i j. i < length ns \<Longrightarrow> j < length ns \<Longrightarrow> i \<noteq> s \<Longrightarrow> j \<noteq> s \<Longrightarrow> f i = f j \<Longrightarrow> i = j"
    and fl: "\<And>i. i < length ns \<Longrightarrow> i \<noteq> s \<Longrightarrow> f i < length ns"
    and v: "\<And>i. i < length ns \<Longrightarrow> i \<noteq> s \<Longrightarrow> n_val (ns' ! i) = n_val (ns ! f i)"
  shows "keys_ok ns'"
  unfolding keys_ok_def
proof (intro conjI allI impI)
  fix i assume i: "i < length ns'"
  show "nkey ns' i \<noteq> KNum Nnan"
    using K i f [of i] fl [of i] key(1) len by (cases "i = s") (auto simp: keys_ok_def normal_def)
  show "n_val (ns' ! i) = None" if "\<not> normal (nkey ns' i)"
    using K i f [of i] fl [of i] v [of i] key(1) len that by (cases "i = s") (auto simp: keys_ok_def)
next
  fix i j assume ij: "i < length ns'" "j < length ns'" "normal (nkey ns' i)" "luaV_rawequalobj (nkey ns' i) (nkey ns' j)"
  have ab: "\<not> luaV_rawequalobj (nkey ns i) key" "\<not> luaV_rawequalobj key (nkey ns i)" if "i < length ns" for i
    using key(2) that rawequal_sym [of key "nkey ns i"] by (auto simp: absent_def)
  consider "i = s" "j = s" | "i = s" "j \<noteq> s" | "i \<noteq> s" "j = s" | "i \<noteq> s" "j \<noteq> s" by blast
  then show "i = j"
  proof cases
    case 1 then show ?thesis by simp
  next
    case 2 then show ?thesis using ij f [of i] f [of j] ab(2) [of "f j"] fl [of j] len by auto
  next
    case 3 then show ?thesis using ij f [of i] f [of j] ab(1) [of "f i"] fl [of i] len by auto
  next
    case 4
    then have "f i = f j" using ij f [of i] f [of j] fl [of i] fl [of j] K len unfolding keys_ok_def by auto
    then show ?thesis using inj [of i j] ij 4 len by simp
  qed
qed

lemma main_in_chain:
  assumes H: "hash_ok H ns C" and i: "i < length ns" "normal (nkey ns i)"
  shows "\<exists>xs\<in>C. mainposition H (length ns) (nkey ns i) \<in> set xs"
proof -
  note D = hash_okD [OF H]
  have "nkey ns i \<noteq> KNil" using i(2) by (auto simp: normal_def)
  then obtain xs where xs: "xs \<in> C" "i \<in> set xs" using chain_exists [OF D(1) i(1)] by blast
  have "before xs (mainposition H (length ns) (nkey ns i)) i" using D(2) xs i(2) unfolding in_chains_def by blast
  from before_mem [OF this] xs(1) show ?thesis by blast
qed

text \<open>
  What an insertion has to show.  The new key is at \<open>s\<close>, the others come from the nodes \<open>f i\<close>;
  a chain leads from the main position \<open>mp\<close> of the new key to it and from the main positions
  of the others to them, and no main position is taken away from the key that belongs there.
\<close>

lemma hash_ok_insert:
  assumes H: "hash_ok H ns C" and mp: "mp = mainposition H (length ns) key" and key: "normal key" "absent ns key"
    and len: "length ns' = length ns" and s: "s < length ns" and C': "chains_ok ns' C'"
    and nk: "\<And>i. i < length ns \<Longrightarrow> nkey ns' i = (if i = s then key else nkey ns (f i))"
    and inj: "\<And>i j. i < length ns \<Longrightarrow> j < length ns \<Longrightarrow> i \<noteq> s \<Longrightarrow> j \<noteq> s \<Longrightarrow> f i = f j \<Longrightarrow> i = j"
    and fl: "\<And>i. i < length ns \<Longrightarrow> i \<noteq> s \<Longrightarrow> f i < length ns \<and> n_val (ns' ! i) = n_val (ns ! f i)"
    and new: "\<exists>xs\<in>C'. before xs mp s" "mp = s \<or> f mp = mp \<and> mainposition H (length ns) (nkey ns mp) = mp"
    and old: "\<And>i xs. i < length ns \<Longrightarrow> i \<noteq> s \<Longrightarrow> normal (nkey ns (f i)) \<Longrightarrow> xs \<in> C' \<Longrightarrow> i \<in> set xs \<Longrightarrow>
        before xs (mainposition H (length ns) (nkey ns (f i))) i"
    and pos: "\<And>i m. i < length ns \<Longrightarrow> normal (nkey ns i) \<Longrightarrow> m = mainposition H (length ns) (nkey ns i) \<Longrightarrow>
        m = s \<and> s = mp \<or> m \<noteq> s \<and> f m = m"
  shows "hash_ok H ns' C'"
proof -
  note D = hash_okD [OF H]
  have ml: "mp < length ns" using main_less [OF H] mp by simp
  have "in_chains H ns' C'" unfolding in_chains_def len
  proof (intro ballI impI)
    fix xs x assume x: "xs \<in> C'" "x \<in> set xs" "normal (nkey ns' x)"
    have xl: "x < length ns" using chainsD(3) [OF C' x(1)] x(2) len by auto
    show "before xs (mainposition H (length ns) (nkey ns' x)) x"
    proof (cases "x = s")
      case True
      obtain ys where ys: "ys \<in> C'" "before ys mp s" using new(1) by blast
      then have "ys = xs" using chainsD(5) [OF C' ys(1) x(1), of s] before_mem [OF ys(2)] x(2) True by simp
      then show ?thesis using ys True nk [OF s] mp by simp
    next
      case False
      then show ?thesis using old [OF xl False _ x(1,2)] x(3) nk [OF xl] by simp
    qed
  qed
  moreover have "brent H ns'" unfolding brent_def len
  proof (intro allI impI)
    fix x assume x: "x < length ns" "normal (nkey ns' x)"
    define m where "m = mainposition H (length ns) (nkey ns' x)"
    have m: "m < length ns" using main_less [OF H] by (simp add: m_def)
    have "dead (nkey ns' m) \<or> mainposition H (length ns) (nkey ns' m) = m"
    proof (cases "x = s")
      case True
      then have "m = mp" using nk [OF s] mp by (simp add: m_def)
      then show ?thesis using new(2) nk [OF ml] mp by (cases "mp = s") simp_all
    next
      case False
      have y: "f x < length ns" "normal (nkey ns (f x))" "m = mainposition H (length ns) (nkey ns (f x))"
        using fl [OF x(1) False] x(2) nk [OF x(1)] False by (simp_all add: m_def)
      have "dead (nkey ns m) \<or> mainposition H (length ns) (nkey ns m) = m" using D(3) y by (auto simp: brent_def Let_def)
      then show ?thesis using pos [OF y] nk [OF m] mp by auto
    qed
    then show "let m = mainposition H (length ns) (nkey ns' x) in dead (nkey ns' m) \<or> mainposition H (length ns) (nkey ns' m) = m"
      by (simp add: m_def Let_def)
  qed
  moreover have "keys_ok ns'" by (rule keys_ok_upd [OF D(4) len key s nk inj]) (use fl in auto)
  ultimately show ?thesis using H C' len by (simp add: hash_ok_def)
qed

text \<open>The main position holds no value: the key takes it over.\<close>

lemma chains_take_over:
  assumes C: "chains_ok ns C" and m: "mp < length ns" and key: "key \<noteq> KNil"
  defines "ns' \<equiv> ns[mp := (ns ! mp)\<lparr>n_key := key\<rparr>]"
  shows "chains_ok ns' (if nkey ns mp = KNil then insert [mp] C else C)"
proof -
  have nk: "nkey ns' i = (if i = mp then key else nkey ns i)" and nn: "n_next (ns' ! i) = n_next (ns ! i)" if "i < length ns" for i
    using that m by (simp_all add: ns'_def nth_list_update)
  let ?C = "if nkey ns mp = KNil then insert [mp] C else C"
  have notin: "mp \<notin> set xs" if "nkey ns mp = KNil" "xs \<in> C" for xs using chainsD(4) [OF C that(2)] that(1) by blast
  have lk: "linked ns' xs" if "xs \<in> C" for xs
    using linked_cong [of xs ns' ns] nn chainsD(2,3) [OF C that] by auto
  have l1: "linked ns' [mp]" if "nkey ns mp = KNil" using C m that nn [OF m] by (simp add: chains_ok_def)
  have "(\<exists>xs\<in>?C. i \<in> set xs) \<longleftrightarrow> i < length ns' \<and> nkey ns' i \<noteq> KNil" for i
  proof -
    have "(\<exists>xs\<in>C. i \<in> set xs) \<longleftrightarrow> i < length ns \<and> nkey ns i \<noteq> KNil" using C unfolding chains_ok_def by blast
    then show ?thesis using m key nk [of i] by (cases "i = mp") (auto simp: ns'_def)
  qed
  moreover have "\<forall>xs\<in>?C. distinct xs \<and> linked ns' xs" using lk l1 C by (auto simp: chains_ok_def)
  moreover have "\<forall>xs\<in>?C. \<forall>ys\<in>?C. xs \<noteq> ys \<longrightarrow> set xs \<inter> set ys = {}" using C notin by (auto simp: chains_ok_def)
  moreover have "\<forall>i<length ns'. nkey ns' i = KNil \<longrightarrow> n_next (ns' ! i) = None"
    using C nk nn key by (auto simp: chains_ok_def ns'_def)
  ultimately show ?thesis unfolding chains_ok_def by blast
qed

lemma insert_main:
  assumes H: "hash_ok H ns C" and mp: "mp = mainposition H (length ns) key" and key: "normal key" "absent ns key"
    and nil: "n_val (ns ! mp) = None"
  defines "ns' \<equiv> ns[mp := (ns ! mp)\<lparr>n_key := key\<rparr>]"
  shows "hash_ok H ns' (if nkey ns mp = KNil then insert [mp] C else C)"
proof -
  note D = hash_okD [OF H]
  have m: "mp < length ns" using main_less [OF H] mp by simp
  have kn: "key \<noteq> KNil" using key(1) by (auto simp: normal_def)
  let ?C = "if nkey ns mp = KNil then insert [mp] C else C"
  have c: "chains_ok ns' ?C" unfolding ns'_def by (rule chains_take_over [OF D(1) m kn])
  have len: "length ns' = length ns" by (simp add: ns'_def)
  have nk: "nkey ns' i = (if i = mp then key else nkey ns i)" and nv: "n_val (ns' ! i) = n_val (ns ! i)" if "i < length ns" for i
    using that m by (simp_all add: ns'_def nth_list_update)
  show ?thesis
  proof (rule hash_ok_insert [OF H mp key len m c, where f = id])
    have "nkey ns' mp \<noteq> KNil" using m kn by (simp add: ns'_def)
    then obtain xs where xs: "xs \<in> ?C" "mp \<in> set xs" using chain_exists [OF c, of mp] m by (auto simp: ns'_def)
    from before_self [OF xs(2)] xs(1) show "\<exists>xs\<in>?C. before xs mp mp" by blast
  next
    fix i xs assume i: "i < length ns" "i \<noteq> mp" "normal (nkey ns (id i))" "xs \<in> ?C" "i \<in> set xs"
    then have "xs \<in> C" by (auto split: if_splits)
    then show "before xs (mainposition H (length ns) (nkey ns (id i))) i" using D(2) i(3,5) by (simp add: in_chains_def)
  qed (auto simp: nk nv)
qed

text \<open>A chain is replaced by chains of the same nodes and a free one.\<close>

lemma chains_replace:
  assumes C: "chains_ok ns C" and xs: "xs \<in> C" and len: "length ns' = length ns" and n: "n < length ns" "nkey ns n = KNil"
    and E: "\<forall>ys\<in>E. distinct ys \<and> linked ns' ys" "\<And>ys zs. ys \<in> E \<Longrightarrow> zs \<in> E \<Longrightarrow> ys \<noteq> zs \<Longrightarrow> set ys \<inter> set zs = {}"
      "\<Union> (set ` E) = insert n (set xs)"
    and same: "\<And>i. i < length ns \<Longrightarrow> i \<notin> insert n (set xs) \<Longrightarrow> n_next (ns' ! i) = n_next (ns ! i) \<and> nkey ns' i = nkey ns i"
    and keys: "\<And>i. i \<in> insert n (set xs) \<Longrightarrow> nkey ns' i \<noteq> KNil"
  shows "chains_ok ns' (E \<union> (C - {xs}))"
proof -
  have fresh: "n \<notin> set zs" if "zs \<in> C" for zs using chainsD(4) [OF C that] n(2) by blast
  have apart: "set zs \<inter> insert n (set xs) = {}" if "zs \<in> C - {xs}" for zs
    using chainsD(5) [OF C, of zs xs] xs fresh [of zs] that by blast
  have lk: "linked ns' zs" if z: "zs \<in> C - {xs}" for zs
  proof -
    have zc: "zs \<in> C" using z by blast
    have "linked ns' zs = linked ns zs"
    proof (rule linked_cong)
      fix x assume "x \<in> set zs"
      then show "n_next (ns' ! x) = n_next (ns ! x)" using same [of x] chainsD(3) [OF C zc] apart [OF z] by auto
    qed
    then show ?thesis using chainsD(2) [OF C zc] by simp
  qed
  have "\<forall>ys\<in>E \<union> (C - {xs}). distinct ys \<and> linked ns' ys" using E(1) lk C by (auto simp: chains_ok_def)
  moreover have "set ys \<inter> set zs = {}" if "ys \<in> E \<union> (C - {xs})" "zs \<in> E \<union> (C - {xs})" "ys \<noteq> zs" for ys zs
  proof -
    have "set ys \<subseteq> insert n (set xs)" if "ys \<in> E" for ys using E(3) that by blast
    moreover have "set ys \<inter> set zs = {}" if "ys \<in> C" "zs \<in> C" using C that \<open>ys \<noteq> zs\<close> unfolding chains_ok_def by blast
    ultimately show ?thesis using that E(2) [of ys zs] apart by blast
  qed
  moreover have "(\<exists>ys\<in>E \<union> (C - {xs}). i \<in> set ys) \<longleftrightarrow> i < length ns' \<and> nkey ns' i \<noteq> KNil" for i
  proof -
    have "(\<exists>ys\<in>E \<union> (C - {xs}). i \<in> set ys) \<longleftrightarrow> i \<in> \<Union> (set ` E) \<or> (\<exists>ys\<in>C - {xs}. i \<in> set ys)" by blast
    also have "\<dots> \<longleftrightarrow> i = n \<or> (\<exists>ys\<in>C. i \<in> set ys)" unfolding E(3) using xs by blast
    also have "\<dots> \<longleftrightarrow> i = n \<or> i < length ns \<and> nkey ns i \<noteq> KNil" using C unfolding chains_ok_def by blast
    finally show ?thesis using same [of i] keys [of i] chainsD(3) [OF C xs] chainsD(4) [OF C xs, of i] n(1) len
      by (cases "i \<in> insert n (set xs)") auto
  qed
  moreover have "n_next (ns' ! i) = None" if i: "i < length ns'" "nkey ns' i = KNil" for i
  proof -
    have "i \<notin> insert n (set xs)" using keys i(2) by blast
    then have "n_next (ns' ! i) = n_next (ns ! i)" "nkey ns i = KNil" using same [of i] i len by simp_all
    then show ?thesis using C i(1) len by (simp add: chains_ok_def)
  qed
  ultimately show ?thesis unfolding chains_ok_def by blast
qed

text \<open>
  The main position is taken by a key that belongs there: the new key goes to the free node,
  which is put after the main position.
\<close>

lemma linked_insert_free:
  assumes "linked ns (us @ mp # vs)" "distinct (us @ mp # vs)" "n \<notin> set (us @ mp # vs)"
    and nn: "\<And>i. i \<in> insert n (set (us @ mp # vs)) \<Longrightarrow>
      n_next (ns' ! i) = (if i = n then n_next (ns ! mp) else if i = mp then Some n else n_next (ns ! i))"
  shows "linked ns' (us @ mp # n # vs)"
proof -
  have lx: "linked_to ns us mp" "linked ns (mp # vs)" using assms(1) by (simp_all add: linked_append)
  have "linked_to ns' us mp = linked_to ns us mp" using nn assms(2,3) by (intro linked_to_cong) auto
  moreover have "linked ns' vs = linked ns vs" using nn assms(2,3) by (intro linked_cong) auto
  ultimately show ?thesis using lx nn [of mp] nn [of n] assms(3) by (simp add: linked_append)
qed

lemma insert_free:
  assumes H: "hash_ok H ns C" and mp: "mp = mainposition H (length ns) key" and key: "normal key" "absent ns key"
    and main: "nkey ns mp \<noteq> KNil" "mainposition H (length ns) (nkey ns mp) = mp" and n: "n < length ns" "nkey ns n = KNil"
  defines "ns' \<equiv> ns[n := (ns ! n)\<lparr>n_next := n_next (ns ! mp), n_key := key\<rparr>, mp := (ns ! mp)\<lparr>n_next := Some n\<rparr>]"
  shows "\<exists>C'. hash_ok H ns' C'"
proof -
  note D = hash_okD [OF H]
  have m: "mp < length ns" using main_less [OF H] mp by simp
  have nm: "n \<noteq> mp" using main(1) n(2) by auto
  have kn: "key \<noteq> KNil" using key(1) by (auto simp: normal_def)
  have len: "length ns' = length ns" by (simp add: ns'_def)
  have nk: "nkey ns' i = (if i = n then key else nkey ns i)"
    and nn: "n_next (ns' ! i) = (if i = n then n_next (ns ! mp) else if i = mp then Some n else n_next (ns ! i))"
    and nv: "n_val (ns' ! i) = n_val (ns ! i)" if "i < length ns" for i
    using that m n(1) nm by (simp_all add: ns'_def nth_list_update)
  obtain xs where xs: "xs \<in> C" "mp \<in> set xs" using chain_exists [OF D(1) m main(1)] by blast
  then obtain us vs where s: "xs = us @ mp # vs" using split_list by fast
  note X = chainsD [OF D(1) xs(1)]
  have fresh: "n \<notin> set zs" if "zs \<in> C" for zs using chainsD(4) [OF D(1) that] n(2) by blast
  let ?ys = "us @ mp # n # vs"
  have ly: "linked ns' ?ys" using X(1,2,3) fresh [OF xs(1)] n(1) nn unfolding s by (intro linked_insert_free) auto
  have on_xs: "i < length ns" if "i \<in> insert n (set xs)" for i using that X(3) n(1) by auto
  have c: "chains_ok ns' ({?ys} \<union> (C - {xs}))"
  proof (rule chains_replace [OF D(1) xs(1) len n])
    show "\<forall>ys\<in>{?ys}. distinct ys \<and> linked ns' ys" using ly X(1) fresh [OF xs(1)] unfolding s by auto
    show "\<Union> (set ` {?ys}) = insert n (set xs)" unfolding s by auto
    show "nkey ns' i \<noteq> KNil" if "i \<in> insert n (set xs)" for i
      using that nk [OF on_xs [OF that]] X(4) [of i] kn by auto
    show "n_next (ns' ! i) = n_next (ns ! i) \<and> nkey ns' i = nkey ns i" if "i < length ns" "i \<notin> insert n (set xs)" for i
      using that nn [of i] nk [of i] xs(2) by auto
  qed simp
  have "hash_ok H ns' ({?ys} \<union> (C - {xs}))"
  proof (rule hash_ok_insert [OF H mp key len n(1) c, where f = id])
    show "\<exists>zs\<in>{?ys} \<union> (C - {xs}). before zs mp n" using before_split [of n mp "n # vs" us] by auto
  next
    fix i zs assume i: "i < length ns" "i \<noteq> n" "normal (nkey ns (id i))" "zs \<in> {?ys} \<union> (C - {xs})" "i \<in> set zs"
    show "before zs (mainposition H (length ns) (nkey ns (id i))) i"
    proof (cases "zs = ?ys")
      case True
      then have "before xs (mainposition H (length ns) (nkey ns i)) i" using D(2) i s xs(1) by (auto simp: in_chains_def)
      then show ?thesis using True s by (auto intro: before_insert)
    qed (use D(2) i in \<open>auto simp: in_chains_def\<close>)
  next
    fix i k assume i: "i < length ns" "normal (nkey ns i)" "k = mainposition H (length ns) (nkey ns i)"
    have "k \<noteq> n" using main_in_chain [OF H i(1,2)] fresh i(3) by blast
    then show "k = n \<and> n = mp \<or> k \<noteq> n \<and> id k = k" by simp
  qed (simp_all add: nk nv main(2))
  then show ?thesis by blast
qed

text \<open>
  The main position is taken by a key that belongs elsewhere: that key moves to the free node,
  which takes its place in the chain, and the new key is a chain of its own.
\<close>

lemma linked_move:
  assumes l: "linked ns (ps @ mp # zs)" and d: "distinct (ps @ mp # zs)" "n \<notin> set (ps @ mp # zs)" and ps: "ps \<noteq> []"
    and nn: "\<And>i. i \<in> insert n (set (ps @ mp # zs)) \<Longrightarrow> n_next (ns' ! i) =
      (if i = mp then None else if i = n then n_next (ns ! mp) else if i = last ps then Some n else n_next (ns ! i))"
  shows "linked ns' (ps @ n # zs)" "linked ns' [mp]"
proof -
  let ?p = "last ps" and ?qs = "butlast ps"
  have pe: "ps = ?qs @ [?p]" using append_butlast_last_id [OF ps] by simp
  have "distinct (?qs @ [?p])" using d(1) pe by (metis distinct_append)
  then have np: "?p \<notin> set ?qs" by simp
  have pin: "?p \<in> set ps" using ps by simp
  have "linked_to ns (?qs @ [?p]) mp" using l pe by (simp add: linked_append)
  then have lp: "linked_to ns ?qs ?p" unfolding linked_to_append by blast
  have "linked_to ns' ?qs ?p = linked_to ns ?qs ?p"
  proof (rule linked_to_cong)
    fix x assume x: "x \<in> set ?qs"
    then have "x \<in> set ps" by (rule in_set_butlastD)
    then show "n_next (ns' ! x) = n_next (ns ! x)" using nn [of x] d x np by auto
  qed
  then have "linked_to ns' (?qs @ [?p]) n" using lp nn [of ?p] d pin by (auto simp: linked_to_append)
  then have "linked_to ns' ps n" using pe by simp
  moreover have "linked ns' zs = linked ns zs" using nn d pin by (intro linked_cong) auto
  ultimately show "linked ns' (ps @ n # zs)" using l nn [of n] d(2) by (auto simp: linked_append)
  show "linked ns' [mp]" using nn [of mp] by simp
qed

lemma before_moved:
  assumes "before (ps @ mp # zs) m y" "distinct (ps @ mp # zs)" "m \<noteq> mp"
  shows "before (ps @ n # zs) m (if y = mp then n else y)"
proof -
  let ?g = "\<lambda>z. if z = mp then n else z"
  have "map ?g ps = ps" "map ?g zs = zs" using assms(2) by (auto intro: map_idI)
  then have "map ?g (ps @ mp # zs) = ps @ n # zs" by simp
  then show ?thesis using before_map [OF assms(1), of ?g] assms(3) by simp
qed

text \<open>The key that moves comes after its own main position.\<close>

lemma collision_chain:
  assumes H: "hash_ok H ns C" and m: "mp < length ns" and coll: "normal (nkey ns mp)" "othern = mainposition H (length ns) (nkey ns mp)" "othern \<noteq> mp"
  obtains xs us ws zs where "xs \<in> C" "xs = (us @ othern # ws) @ mp # zs"
    "find_previous (length ns) ns mp othern = Inr (last (us @ othern # ws))"
proof -
  note D = hash_okD [OF H]
  have "nkey ns mp \<noteq> KNil" using coll(1) by (auto simp: normal_def)
  then obtain xs where xs: "xs \<in> C" "mp \<in> set xs" using chain_exists [OF D(1) m] by blast
  note X = chainsD [OF D(1) xs(1)]
  have "before xs othern mp" using D(2) xs coll(1,2) unfolding in_chains_def by blast
  then obtain us vs where uv: "xs = us @ othern # vs" "mp \<in> set vs" using coll(3) by (auto simp: before_def)
  then obtain ws zs where wz: "vs = ws @ mp # zs" using split_list by fast
  have s: "xs = (us @ othern # ws) @ mp # zs" using uv wz by simp
  have "linked_to ns (us @ othern # ws) mp" using X(2) s linked_append [of ns "us @ othern # ws" mp zs] by simp
  then have lt: "linked_to ns (othern # ws) mp" unfolding linked_to_append by blast
  have "length ws < length ns" "mp \<notin> set ws" "set (othern # ws) \<subseteq> {..<length ns}" using distinct_length [OF X(1,3)] X(1,3) s by auto
  then have "find_previous (length ns) ns mp othern = Inr (last (othern # ws))" using lt by (intro find_previous_linked) auto
  then have "find_previous (length ns) ns mp othern = Inr (last (us @ othern # ws))" by (simp del: last.simps)
  then show ?thesis by (rule that [OF xs(1) s])
qed

lemma insert_move:
  assumes H: "hash_ok H ns C" and mp: "mp = mainposition H (length ns) key" and key: "normal key" "absent ns key"
    and coll: "normal (nkey ns mp)" "othern = mainposition H (length ns) (nkey ns mp)" "othern \<noteq> mp" and n: "n < length ns" "nkey ns n = KNil"
  shows "\<exists>prev C'. find_previous (length ns) ns mp othern = Inr prev \<and> prev < length ns \<and> prev \<noteq> mp \<and> prev \<noteq> n \<and>
     hash_ok H (ns[prev := (ns ! prev)\<lparr>n_next := Some n\<rparr>, n := ns ! mp, mp := \<lparr>n_val = None, n_key = key, n_next = None\<rparr>]) C'"
proof -
  note D = hash_okD [OF H]
  have m: "mp < length ns" using main_less [OF H] mp by simp
  have kn: "key \<noteq> KNil" "nkey ns mp \<noteq> KNil" using key(1) coll(1) by (auto simp: normal_def)
  then have nm: "n \<noteq> mp" using n(2) by auto
  obtain xs us ws zs where xs: "xs \<in> C" and s: "xs = (us @ othern # ws) @ mp # zs"
    and fp: "find_previous (length ns) ns mp othern = Inr (last (us @ othern # ws))" using collision_chain [OF H m coll] by blast
  define ps where "ps = us @ othern # ws"
  have s: "xs = ps @ mp # zs" and fp: "find_previous (length ns) ns mp othern = Inr (last ps)" and pne: "ps \<noteq> []"
    using s fp by (simp_all add: ps_def)
  note X = chainsD [OF D(1) xs]
  have fresh: "n \<notin> set ys" if "ys \<in> C" for ys using chainsD(4) [OF D(1) that] n(2) by blast
  let ?p = "last ps" and ?f = "\<lambda>i. if i = n then mp else i"
  have pin: "?p \<in> set ps" using pne by simp
  have prev: "?p < length ns" "?p \<noteq> mp" "?p \<noteq> n" using pin X(1,3) fresh [OF xs] s by auto
  define ns' where "ns' = ns[?p := (ns ! ?p)\<lparr>n_next := Some n\<rparr>, n := ns ! mp, mp := \<lparr>n_val = None, n_key = key, n_next = None\<rparr>]"
  have nk: "nkey ns' i = (if i = mp then key else nkey ns (?f i))"
    and nn: "n_next (ns' ! i) = (if i = mp then None else if i = n then n_next (ns ! mp) else if i = ?p then Some n else n_next (ns ! i))"
    and nv: "i \<noteq> mp \<Longrightarrow> n_val (ns' ! i) = n_val (ns ! ?f i)" if "i < length ns" for i
    using that m n(1) nm prev by (simp_all add: ns'_def nth_list_update)
  have len: "length ns' = length ns" by (simp add: ns'_def)
  let ?E = "{[mp], ps @ n # zs}"
  have on_xs: "i < length ns" if "i \<in> insert n (set xs)" for i using that X(3) n(1) by auto
  note lk = linked_move [OF X(2,1) [unfolded s] fresh [OF xs, unfolded s] pne nn [OF on_xs, unfolded s]]
  have c: "chains_ok ns' (?E \<union> (C - {xs}))"
  proof (rule chains_replace [OF D(1) xs len n])
    show "\<forall>ys\<in>?E. distinct ys \<and> linked ns' ys" using lk X(1) fresh [OF xs] unfolding s by auto
    show "\<Union> (set ` ?E) = insert n (set xs)" using s by auto
    show "set ys \<inter> set zs' = {}" if "ys \<in> ?E" "zs' \<in> ?E" "ys \<noteq> zs'" for ys zs' using that X(1) nm unfolding s by auto
    show "nkey ns' i \<noteq> KNil" if "i \<in> insert n (set xs)" for i
      using that nk [OF on_xs [OF that]] X(4) [of i] kn by auto
    show "n_next (ns' ! i) = n_next (ns ! i) \<and> nkey ns' i = nkey ns i" if "i < length ns" "i \<notin> insert n (set xs)" for i
      using that nn [of i] nk [of i] pin s by auto
  qed
  have pos: "k \<noteq> mp \<and> k \<noteq> n" if i: "i < length ns" "normal (nkey ns i)" "k = mainposition H (length ns) (nkey ns i)" for i k
  proof -
    have "k \<noteq> n" using main_in_chain [OF H i(1,2)] fresh i(3) by blast
    moreover have "dead (nkey ns k) \<or> mainposition H (length ns) (nkey ns k) = k" using D(3) i by (auto simp: brent_def Let_def)
    then have "k \<noteq> mp" using coll by (auto simp: normal_def)
    ultimately show ?thesis by simp
  qed
  have "hash_ok H ns' (?E \<union> (C - {xs}))"
  proof (rule hash_ok_insert [OF H mp key len m c, where f = ?f])
    show "\<exists>ys\<in>?E \<union> (C - {xs}). before ys mp mp" using before_self [of mp "[mp]"] by simp
  next
    fix i ys assume i: "i < length ns" "i \<noteq> mp" "normal (nkey ns (?f i))" "ys \<in> ?E \<union> (C - {xs})" "i \<in> set ys"
    let ?m = "mainposition H (length ns) (nkey ns (?f i))"
    have fi: "?f i < length ns" using i(1) m by simp
    show "before ys ?m i"
    proof (cases "ys = ps @ n # zs")
      case True
      then have "?f i \<in> set xs" using i(5) s by auto
      then have "before xs ?m (?f i)" using D(2) xs i(3) unfolding in_chains_def by blast
      from before_moved [OF this [unfolded s] X(1) [unfolded s], of n] pos [OF fi i(3)]
      have "before (ps @ n # zs) ?m (if ?f i = mp then n else ?f i)" by blast
      then show ?thesis using True i(2) by (cases "i = n") simp_all
    next
      case False
      then have "ys \<in> C" "i \<noteq> n" using i(2,4,5) fresh [of ys] by auto
      then show ?thesis using D(2) i(3,5) by (auto simp: in_chains_def)
    qed
  next
    show "i = j" if "i < length ns" "j < length ns" "i \<noteq> mp" "j \<noteq> mp" "?f i = ?f j" for i j using that by (auto split: if_splits)
    show "k = mp \<and> mp = mp \<or> k \<noteq> mp \<and> ?f k = k"
      if "i < length ns" "normal (nkey ns i)" "k = mainposition H (length ns) (nkey ns i)" for i k using pos [OF that] by simp
  qed (simp_all add: nk nv m)
  then show ?thesis using fp prev unfolding ns'_def by blast
qed

end
