(* ===== verification/LuaNewkey.thy ===== *)
theory LuaNewkey
  imports LuaHash
begin

text \<open>
  The invariant of a whole table, the insertion of a key with a free position (\<open>luaH_newkey\<close>),
  what a search finds, and that setting a value changes the entry of its key only.
\<close>

section \<open>Tables\<close>

definition in_array :: "'v Table \<Rightarrow> tkey \<Rightarrow> bool" where
  "in_array t k \<longleftrightarrow> (\<exists>i. k = KNum (Nint i) \<and> 1 \<le> i \<and> i \<le> int (length (array t)))"

definition key_wf :: "tkey \<Rightarrow> bool" where
  "key_wf k \<longleftrightarrow> (\<forall>i. k = KNum (Nint i) \<longrightarrow> - (2 ^ 31) < i \<and> i < 2 ^ 31)"

definition table_ok :: "hashing \<Rightarrow> 'v Table \<Rightarrow> bool" where
  "table_ok H t \<longleftrightarrow> (\<exists>C. hash_ok H (node t) C) \<and> length (node t) = sizenode t \<and> lsizenode t \<le> MAXBITS \<and>
     length (array t) \<le> MAXASIZE \<and> lastfree t \<le> length (node t) \<and>
     (if isdummy t then node t = [dummynode] \<and> lastfree t = 0
      else \<forall>i<length (node t). lastfree t \<le> i \<longrightarrow> nkey (node t) i \<noteq> KNil) \<and>
     (\<forall>i<length (node t). \<not> in_array t (nkey (node t) i) \<and> key_wf (nkey (node t) i))"

definition used :: "'v Node list \<Rightarrow> nat set" where
  "used ns = {i. i < length ns \<and> nkey ns i \<noteq> KNil}"

lemma finite_used [simp]: "finite (used ns)"
  by (simp add: used_def)

lemma getfreepos_loop_result:
  assumes "lf \<le> length ns"
  shows "(\<exists>n<lf. nkey ns n = KNil \<and> (\<forall>i. n < i \<longrightarrow> i < lf \<longrightarrow> nkey ns i \<noteq> KNil) \<and> getfreepos_loop ns lf = Inr (n, Some n)) \<or>
         (\<forall>i<lf. nkey ns i \<noteq> KNil) \<and> getfreepos_loop ns lf = Inr (0, None)"
  using assms
proof (induction lf)
  case (Suc lf)
  have g: "mem_get ns lf = Inr (ns ! lf)" using Suc.prems by (simp add: mem_get_def)
  show ?case
  proof (cases "nkey ns lf = KNil")
    case True
    then show ?thesis using g by (intro disjI1 exI [of _ lf]) simp
  next
    case False
    have e: "getfreepos_loop ns (Suc lf) = getfreepos_loop ns lf" using g False by simp
    from Suc show ?thesis unfolding e using False by (auto simp: less_Suc_eq)
  qed
qed simp

lemma getfreepos_result:
  assumes T: "table_ok H t" and d: "\<not> isdummy t"
  shows "(\<exists>n<length (node t). nkey (node t) n = KNil \<and> (\<forall>i<length (node t). n < i \<longrightarrow> nkey (node t) i \<noteq> KNil) \<and>
            getfreepos t = Inr (t\<lparr>lastfree := n\<rparr>, Some n)) \<or>
         used (node t) = {..<length (node t)} \<and> getfreepos t = Inr (t\<lparr>lastfree := 0\<rparr>, None)"
proof -
  have lf: "lastfree t \<le> length (node t)" "\<And>i. i < length (node t) \<Longrightarrow> lastfree t \<le> i \<Longrightarrow> nkey (node t) i \<noteq> KNil"
    using T d by (auto simp: table_ok_def)
  from getfreepos_loop_result [OF lf(1)] show ?thesis
  proof (elim disjE exE conjE)
    fix n assume n: "n < lastfree t" "nkey (node t) n = KNil" "\<forall>i. n < i \<longrightarrow> i < lastfree t \<longrightarrow> nkey (node t) i \<noteq> KNil"
      "getfreepos_loop (node t) (lastfree t) = Inr (n, Some n)"
    have "nkey (node t) i \<noteq> KNil" if "i < length (node t)" "n < i" for i
      using n(3) lf(2) [of i] that by (cases "i < lastfree t") auto
    then show ?thesis using n lf(1) by (intro disjI1 exI [of _ n]) (auto simp: getfreepos_def)
  next
    assume a: "\<forall>i<lastfree t. nkey (node t) i \<noteq> KNil" "getfreepos_loop (node t) (lastfree t) = Inr (0, None)"
    have "nkey (node t) i \<noteq> KNil" if "i < length (node t)" for i
      using a(1) lf(2) [of i] that by (cases "i < lastfree t") auto
    then show ?thesis using a(2) by (intro disjI2) (auto simp: getfreepos_def used_def)
  qed
qed

text \<open>
  A new key has been put into the table: it has a node without a value, everything else is
  as before, and at most one more node is used.
\<close>

definition key_added :: "hashing \<Rightarrow> 'v Table \<Rightarrow> tkey \<Rightarrow> 'v Table \<times> tslot \<Rightarrow> bool" where
  "key_added H t key r \<longleftrightarrow> (case r of (t', s) \<Rightarrow>
     table_ok H t' \<and> array t' = array t \<and> length (node t') = length (node t) \<and> isdummy t' = isdummy t \<and>
     (\<exists>i<length (node t'). s = S_node i \<and> nkey (node t') i = key \<and> n_val (node t' ! i) = None) \<and>
     (\<forall>k v. entry (node t') k v \<longleftrightarrow> entry (node t) k v) \<and> card (used (node t')) \<le> card (used (node t)) + 1)"

lemma entry_upd:
  assumes len: "length ns' = length ns" and s: "s < length ns" "n_val (ns' ! s) = None"
    and f: "\<And>i. i < length ns \<Longrightarrow> i \<noteq> s \<Longrightarrow> f i < length ns \<and> nkey ns' i = nkey ns (f i) \<and> n_val (ns' ! i) = n_val (ns ! f i)"
    and surj: "\<And>j. j < length ns \<Longrightarrow> n_val (ns ! j) \<noteq> None \<Longrightarrow> \<exists>i<length ns. i \<noteq> s \<and> f i = j"
  shows "entry ns' k v \<longleftrightarrow> entry ns k v"
proof
  assume "entry ns' k v"
  then obtain i where i: "i < length ns" "luaV_rawequalobj (nkey ns' i) k" "n_val (ns' ! i) = Some v" by (auto simp: entry_def len)
  then have "i \<noteq> s" using s(2) by auto
  then show "entry ns k v" using f [OF i(1)] i by (auto simp: entry_def)
next
  assume "entry ns k v"
  then obtain j where j: "j < length ns" "luaV_rawequalobj (nkey ns j) k" "n_val (ns ! j) = Some v" by (auto simp: entry_def)
  then obtain i where i: "i < length ns" "i \<noteq> s" "f i = j" using surj [of j] by auto
  then show "entry ns' k v" using f [OF i(1,2)] j by (auto simp: entry_def len)
qed

lemma used_insert:
  assumes "length ns' = length ns" "\<And>i. i < length ns \<Longrightarrow> nkey ns' i \<noteq> KNil \<Longrightarrow> nkey ns i = KNil \<Longrightarrow> i = x"
  shows "card (used ns') \<le> card (used ns) + 1"
proof -
  have "used ns' \<subseteq> insert x (used ns)" using assms by (auto simp: used_def)
  then have "card (used ns') \<le> card (insert x (used ns))" by (intro card_mono) auto
  then show ?thesis using card_insert_le_m1 [of "card (used ns) + 1" "used ns" x] by (simp add: card_insert_if split: if_splits)
qed

lemma table_ok_node:
  assumes T: "table_ok H t" "\<not> isdummy t" and C: "hash_ok H ns' C'" and len: "length ns' = length (node t)"
    and keys: "\<And>i. i < length ns' \<Longrightarrow> nkey ns' i = key \<or> (\<exists>j<length (node t). nkey ns' i = nkey (node t) j)"
    and key: "\<not> in_array t key" "key_wf key" and lf: "lf \<le> length ns'" "\<And>i. i < length ns' \<Longrightarrow> lf \<le> i \<Longrightarrow> nkey ns' i \<noteq> KNil"
  shows "table_ok H (t\<lparr>node := ns', lastfree := lf\<rparr>)"
proof -
  have "\<not> in_array t (nkey ns' i) \<and> key_wf (nkey ns' i)" if "i < length ns'" for i
    using keys [OF that] key T(1) by (auto simp: table_ok_def)
  then show ?thesis using T C len lf by (auto simp: table_ok_def in_array_def sizenode_def)
qed

lemma set_node_ok: "i < length (node t) \<Longrightarrow> set_node i f t = Inr (t\<lparr>node := (node t)[i := f (node t ! i)]\<rparr>)"
  by (simp add: set_node_def mem_get_def mem_set_def)

lemma node_record: "(r :: 'v Node)\<lparr>n_next := None, n_val := None, n_key := key\<rparr> = \<lparr>n_val = None, n_key = key, n_next = None\<rparr>"
  by (cases r) simp

lemma key_addedI:
  assumes T: "table_ok H t" "\<not> isdummy t" and C: "hash_ok H ns' C'" and len: "length ns' = length (node t)"
    and key: "\<not> in_array t key" "key_wf key" and lf: "lf \<le> length ns'" "\<And>i. i < length ns' \<Longrightarrow> lf \<le> i \<Longrightarrow> nkey ns' i \<noteq> KNil"
    and s: "s < length (node t)" "nkey ns' s = key" "n_val (ns' ! s) = None"
    and f: "\<And>i. i < length (node t) \<Longrightarrow> i \<noteq> s \<Longrightarrow> f i < length (node t) \<and> nkey ns' i = nkey (node t) (f i) \<and> n_val (ns' ! i) = n_val (node t ! f i)"
    and surj: "\<And>j. j < length (node t) \<Longrightarrow> n_val (node t ! j) \<noteq> None \<Longrightarrow> \<exists>i<length (node t). i \<noteq> s \<and> f i = j"
    and us: "\<And>i. i < length (node t) \<Longrightarrow> nkey ns' i \<noteq> KNil \<Longrightarrow> nkey (node t) i = KNil \<Longrightarrow> i = x"
  shows "key_added H t key (t\<lparr>node := ns', lastfree := lf\<rparr>, S_node s)"
proof -
  have keys: "nkey ns' i = key \<or> (\<exists>j<length (node t). nkey ns' i = nkey (node t) j)" if "i < length ns'" for i
    using f [of i] s(2) that len by (cases "i = s") auto
  have "table_ok H (t\<lparr>node := ns', lastfree := lf\<rparr>)" by (rule table_ok_node [OF T C len keys key lf])
  moreover have "entry ns' k v \<longleftrightarrow> entry (node t) k v" for k v by (rule entry_upd [OF len s(1,3) f surj])
  moreover have "card (used ns') \<le> card (used (node t)) + 1" by (rule used_insert [OF len us])
  ultimately show ?thesis using len s by (simp add: key_added_def)
qed

lemma newkey_main:
  assumes T: "table_ok H t" "\<not> isdummy t" and key: "normal key" "key_wf key" "absent (node t) key" "\<not> in_array t key"
    and nil: "n_val (node t ! mainposition H (sizenode t) key) = None"
  shows "\<exists>r. newkey_with grow H t key = Inr r \<and> key_added H t key r"
proof -
  obtain C where C: "hash_ok H (node t) C" and sz: "sizenode t = length (node t)" using T(1) by (auto simp: table_ok_def)
  define mp where "mp = mainposition H (length (node t)) key"
  have m: "mp < length (node t)" using main_less [OF C] by (simp add: mp_def)
  let ?ns = "(node t)[mp := (node t ! mp)\<lparr>n_key := key\<rparr>]"
  have h: "hash_ok H ?ns (if nkey (node t) mp = KNil then insert [mp] C else C)"
    by (rule insert_main [OF C mp_def key(1,3)]) (use nil sz in \<open>simp add: mp_def\<close>)
  have "newkey_with grow H t key = Inr (t\<lparr>node := ?ns\<rparr>, S_node mp)"
    using key(1) nil T(2) m sz by (simp add: newkey_with_def normal_def mem_get_ok set_node_ok Let_def mp_def [symmetric])
  moreover have "key_added H t key (t\<lparr>node := ?ns, lastfree := lastfree t\<rparr>, S_node mp)"
  proof (rule key_addedI [OF T h, where f = id and x = mp])
    show "nkey ?ns i \<noteq> KNil" if "i < length ?ns" "lastfree t \<le> i" for i
      using T that key(1) by (cases "i = mp") (auto simp: table_ok_def normal_def nth_list_update)
  qed (use T key m nil sz in \<open>auto simp: table_ok_def nth_list_update mp_def split: if_splits\<close>)
  ultimately show ?thesis by simp
qed

lemma newkey_collision:
  assumes T: "table_ok H t" "\<not> isdummy t" and key: "normal key" "key_wf key" "absent (node t) key" "\<not> in_array t key"
    and val: "n_val (node t ! mainposition H (sizenode t) key) \<noteq> None"
    and n: "n < length (node t)" "nkey (node t) n = KNil" "\<forall>i<length (node t). n < i \<longrightarrow> nkey (node t) i \<noteq> KNil"
      "getfreepos t = Inr (t\<lparr>lastfree := n\<rparr>, Some n)"
  shows "\<exists>r. newkey_with grow H t key = Inr r \<and> key_added H t key r"
proof -
  obtain C where C: "hash_ok H (node t) C" and sz: "sizenode t = length (node t)" using T(1) by (auto simp: table_ok_def)
  define mp where "mp = mainposition H (length (node t)) key"
  define oth where "oth = mainposition H (length (node t)) (nkey (node t) mp)"
  have m: "mp < length (node t)" using main_less [OF C] by (simp add: mp_def)
  have nv: "n_val (node t ! mp) \<noteq> None" using val sz by (simp add: mp_def)
  have nmp: "normal (nkey (node t) mp)" using hash_okD(4) [OF C] m nv by (auto simp: keys_ok_def)
  then have kn: "nkey (node t) mp \<noteq> KNil" "n \<noteq> mp" using n(2) by (auto simp: normal_def)
  have kk: "key \<noteq> KNil" "key \<noteq> KNum Nnan" using key(1) by (auto simp: normal_def)
  have vn: "n_val (node t ! n) = None" using hash_okD(4) [OF C] n(1,2) by (auto simp: keys_ok_def normal_def)
  have lf: "nkey (node t) i \<noteq> KNil" if "i < length (node t)" "n \<le> i" "i \<noteq> n" for i using n(3) that by simp
  have sz2: "sizenode (t\<lparr>lastfree := n\<rparr>) = length (node t)" using sz by (simp add: sizenode_def)
  show ?thesis
  proof (cases "oth = mp")
    case True
    let ?ns = "(node t)[n := (node t ! n)\<lparr>n_next := n_next (node t ! mp), n_key := key\<rparr>, mp := (node t ! mp)\<lparr>n_next := Some n\<rparr>]"
    obtain C' where h: "hash_ok H ?ns C'"
      using insert_free [OF C mp_def key(1,3) kn(1) _ n(1,2)] True by (auto simp: oth_def)
    have "newkey_with grow H t key = Inr (t\<lparr>node := ?ns, lastfree := n\<rparr>, S_node n)"
      using kk val nv m sz sz2 n(1,4) kn(2) True
      by (simp add: newkey_with_def mem_get_ok set_node_ok Let_def mp_def [symmetric] oth_def [symmetric] list_update_swap)
    moreover have "key_added H t key (t\<lparr>node := ?ns, lastfree := n\<rparr>, S_node n)"
    proof (rule key_addedI [OF T h, where f = id and x = n])
      show "nkey ?ns i \<noteq> KNil" if "i < length ?ns" "n \<le> i" for i
        using lf [of i] that kk kn(1) by (cases "i = n"; cases "i = mp") auto
    qed (use key m n(1,2) kn vn in \<open>auto simp: nth_list_update split: if_splits\<close>)
    ultimately show ?thesis by simp
  next
    case False
    obtain prev C' where p: "find_previous (length (node t)) (node t) mp oth = Inr prev" "prev < length (node t)" "prev \<noteq> mp" "prev \<noteq> n"
      and h: "hash_ok H ((node t)[prev := (node t ! prev)\<lparr>n_next := Some n\<rparr>, n := node t ! mp, mp := \<lparr>n_val = None, n_key = key, n_next = None\<rparr>]) C'"
      using insert_move [OF C mp_def key(1,3) nmp oth_def False n(1,2)] by blast
    let ?ns = "(node t)[prev := (node t ! prev)\<lparr>n_next := Some n\<rparr>, n := node t ! mp, mp := \<lparr>n_val = None, n_key = key, n_next = None\<rparr>]"
    have "newkey_with grow H t key = Inr (t\<lparr>node := ?ns, lastfree := n\<rparr>, S_node mp)"
      using kk val nv m sz sz2 n(1,4) kn(2) False p
      by (simp add: newkey_with_def mem_get_ok set_node_ok Let_def mp_def [symmetric] oth_def [symmetric] node_record)
    moreover have "key_added H t key (t\<lparr>node := ?ns, lastfree := n\<rparr>, S_node mp)"
    proof (rule key_addedI [OF T h, where f = "\<lambda>i. if i = n then mp else i" and x = n])
      show "nkey ?ns i \<noteq> KNil" if "i < length ?ns" "n \<le> i" for i
        using lf [of i] that kk kn p by (cases "i = n"; cases "i = mp"; cases "i = prev") auto
    next
      fix j assume j: "j < length (node t)" "n_val (node t ! j) \<noteq> None"
      then have "j \<noteq> n" using vn by auto
      then show "\<exists>i<length (node t). i \<noteq> mp \<and> (if i = n then mp else i) = j"
        using j n(1) kn(2) by (cases "j = mp") auto
    qed (use key m n(1,2) kn p in \<open>auto simp: nth_list_update split: if_splits\<close>)
    ultimately show ?thesis by simp
  qed
qed

section \<open>Getting and setting values\<close>

definition valid_key :: "tkey \<Rightarrow> bool" where
  "valid_key k \<longleftrightarrow> normal k \<and> key_wf k"

definition arr_ix :: "tkey \<Rightarrow> nat" where
  "arr_ix k = (case k of KNum (Nint i) \<Rightarrow> nat (i - 1) | _ \<Rightarrow> 0)"

text \<open>The table has the value under the key.\<close>

definition has :: "'v Table \<Rightarrow> tkey \<Rightarrow> 'v \<Rightarrow> bool" where
  "has t k v \<longleftrightarrow> (if in_array t k then array t ! arr_ix k = Some v else entry (node t) k v)"

lemma in_array_ix: "in_array t k \<Longrightarrow> arr_ix k < length (array t) \<and> k = KNum (Nint (int (arr_ix k) + 1))"
  by (auto simp: in_array_def arr_ix_def)

lemma in_array_cong: "luaV_rawequalobj k k' \<Longrightarrow> in_array t k \<Longrightarrow> k' = k"
  by (cases k; cases k') (auto simp: luaV_rawequalobj_def in_array_def numeq_def)

lemma rawequal_cong: "luaV_rawequalobj k k' \<Longrightarrow> luaV_rawequalobj a k \<longleftrightarrow> luaV_rawequalobj a k'"
proof
  assume k: "luaV_rawequalobj k k'"
  then show "luaV_rawequalobj a k \<Longrightarrow> luaV_rawequalobj a k'" using rawequal_trans [of a k k'] by blast
  have "luaV_rawequalobj k' k" by (subst rawequal_sym) (rule k)
  then show "luaV_rawequalobj a k' \<Longrightarrow> luaV_rawequalobj a k" using rawequal_trans [of a k' k] by blast
qed

lemma entry_cong: "luaV_rawequalobj k k' \<Longrightarrow> entry ns k v \<longleftrightarrow> entry ns k' v"
  by (simp add: entry_def rawequal_cong)

lemma has_cong:
  assumes "luaV_rawequalobj k k'" shows "has t k v \<longleftrightarrow> has t k' v"
proof (cases "in_array t k \<or> in_array t k'")
  case True
  have "luaV_rawequalobj k' k" by (subst rawequal_sym) (rule assms)
  then show ?thesis using True in_array_cong [OF assms, of t] in_array_cong [of k' k t] by auto
next
  case False
  then show ?thesis using entry_cong [OF assms] by (simp add: has_def)
qed

lemma word_index:
  assumes "- (2 ^ 31) < i" "i < 2 ^ 31" "n \<le> 2 ^ 30"
  shows "unat (word_of_int (i - 1) :: u32) < n \<longleftrightarrow> 1 \<le> i \<and> i \<le> int n"
    and "1 \<le> i \<Longrightarrow> unat (word_of_int (i - 1) :: u32) = nat (i - 1)"
proof -
  have u: "unat (word_of_int (i - 1) :: u32) = nat (take_bit 32 (i - 1))" by (simp only: unat_eq_nat_uint uint_word_of_int_eq) simp
  show 1: "unat (word_of_int (i - 1) :: u32) = nat (i - 1)" if "1 \<le> i"
    unfolding u using that assms(2) by (simp add: take_bit_int_eq_self)
  have "2 ^ 31 \<le> unat (word_of_int (i - 1) :: u32)" if "\<not> 1 \<le> i"
  proof -
    have "take_bit 32 (i - 1) = take_bit 32 (i - 1 + 2 ^ 32)" unfolding take_bit_eq_mod by (rule mod_add_self2 [symmetric])
    also have "\<dots> = i - 1 + 2 ^ 32" using that assms(1) by (intro take_bit_int_eq_self) auto
    finally show ?thesis unfolding u using assms(1) by simp
  qed
  then show "unat (word_of_int (i - 1) :: u32) < n \<longleftrightarrow> 1 \<le> i \<and> i \<le> int n"
    using 1 assms(3) by (cases "1 \<le> i") (auto simp: nat_less_iff)
qed

lemma getint_pred: "(\<lambda>k. case k of KNum n \<Rightarrow> numeq n (Nint key) | _ \<Rightarrow> False) = (\<lambda>k. luaV_rawequalobj k (KNum (Nint key)))"
  by (rule ext) (auto simp: luaV_rawequalobj_def split: tkey.splits)

lemma getstr_pred: "(\<lambda>k. case k of KShr a \<Rightarrow> a = key | _ \<Rightarrow> False) = (\<lambda>k. luaV_rawequalobj k (KShr key))"
  by (rule ext) (auto simp: luaV_rawequalobj_def split: tkey.splits)

lemma luaH_get_eq:
  assumes T: "table_ok H t" and k: "normal k" "key_wf k"
  shows "luaH_get H t k =
     (if in_array t k then Inr (S_array (arr_ix k))
      else chain_find (length (node t)) (node t) (\<lambda>k'. luaV_rawequalobj k' k) (mainposition H (length (node t)) k))"
proof -
  have sz: "sizenode t = length (node t)" "length (array t) \<le> 2 ^ 30" using T by (auto simp: table_ok_def MAXASIZE_def MAXBITS_def)
  show ?thesis
  proof (cases "\<exists>i. k = KNum (Nint i)")
    case True
    then obtain i where i: "k = KNum (Nint i)" by blast
    have b: "- (2 ^ 31) < i" "i < 2 ^ 31" using k(2) i by (auto simp: key_wf_def)
    show ?thesis
      using word_index [OF b sz(2)] i sz(1) b(1)
      by (auto simp: luaH_get_def luaH_getint_def in_array_def arr_ix_def getint_pred mainposition_def)
  next
    case False
    then have "\<not> in_array t k" by (auto simp: in_array_def)
    then show ?thesis using False k(1) sz(1)
      by (auto simp: luaH_get_def luaH_getstr_def getstr_pred mainposition_def split: tkey.splits lnum.splits)
  qed
qed

lemma luaH_get_cases:
  assumes T: "table_ok H t" and k: "valid_key k"
  shows "in_array t k \<Longrightarrow> luaH_get H t k = Inr (S_array (arr_ix k))"
    and "\<not> in_array t k \<Longrightarrow> i < length (node t) \<Longrightarrow> luaV_rawequalobj (nkey (node t) i) k \<Longrightarrow> luaH_get H t k = Inr (S_node i)"
    and "\<not> in_array t k \<Longrightarrow> absent (node t) k \<Longrightarrow> luaH_get H t k = Inr S_nilobject"
proof -
  obtain C where C: "hash_ok H (node t) C" using T by (auto simp: table_ok_def)
  have k': "normal k" "key_wf k" using k by (auto simp: valid_key_def)
  note e = luaH_get_eq [OF T k']
  show "in_array t k \<Longrightarrow> luaH_get H t k = Inr (S_array (arr_ix k))" using e by simp
  show "\<not> in_array t k \<Longrightarrow> i < length (node t) \<Longrightarrow> luaV_rawequalobj (nkey (node t) i) k \<Longrightarrow> luaH_get H t k = Inr (S_node i)"
    using e hash_find(1) [OF C k'(1)] by simp
  show "\<not> in_array t k \<Longrightarrow> absent (node t) k \<Longrightarrow> luaH_get H t k = Inr S_nilobject"
    using e hash_find(2) [OF C k'(1)] by (simp add: absent_def)
qed

lemma entry_at:
  assumes T: "table_ok H t" and k: "normal k" and i: "i < length (node t)" "luaV_rawequalobj (nkey (node t) i) k"
  shows "entry (node t) k v \<longleftrightarrow> n_val (node t ! i) = Some v"
proof -
  obtain C where C: "hash_ok H (node t) C" using T by (auto simp: table_ok_def)
  have n: "normal (nkey (node t) i)" using rawequal_normal [OF i(2)] k by simp
  have "j = i" if "j < length (node t)" "luaV_rawequalobj (nkey (node t) j) k" for j
  proof -
    have "luaV_rawequalobj (nkey (node t) i) (nkey (node t) j)" by (rule rawequal_trans [OF i(2)]) (subst rawequal_sym, rule that(2))
    then show ?thesis using hash_okD(4) [OF C] n i(1) that(1) unfolding keys_ok_def by blast
  qed
  then show ?thesis using i unfolding entry_def by blast
qed

lemma luaH_get_has:
  assumes T: "table_ok H t" and k: "valid_key k"
  shows "\<exists>s. luaH_get H t k = Inr s \<and> (\<forall>v. slot_val t s = Some v \<longleftrightarrow> has t k v)"
proof (cases "in_array t k")
  case True
  then show ?thesis using luaH_get_cases(1) [OF T k] by (simp add: slot_val_def has_def)
next
  case False
  have n: "normal k" using k by (simp add: valid_key_def)
  show ?thesis
  proof (cases "absent (node t) k")
    case True
    then have "\<not> entry (node t) k v" for v by (auto simp: entry_def absent_def)
    then show ?thesis using luaH_get_cases(3) [OF T k False True] False by (auto simp: slot_val_def has_def)
  next
    case F: False
    then obtain i where i: "i < length (node t)" "luaV_rawequalobj (nkey (node t) i) k" by (auto simp: absent_def)
    then show ?thesis using luaH_get_cases(2) [OF T k False i] entry_at [OF T n i] False by (auto simp: slot_val_def has_def)
  qed
qed

text \<open>Setting: a slot for the key, then the value into the slot.\<close>

definition set_then :: "('v Table \<Rightarrow> tkey \<Rightarrow> ('v Table \<times> tslot) res) \<Rightarrow> hashing \<Rightarrow> 'v Table \<Rightarrow> tkey \<Rightarrow> 'v option \<Rightarrow> 'v Table res" where
  "set_then nk H t k v = res_bind (set_with nk H t k) (\<lambda>(t, s). set_slot t s v)"

lemma setint_with_then: "setint_with nk H t i v = set_then nk H t (KNum (Nint i)) v"
  by (simp add: setint_with_def set_then_def set_with_def luaH_get_def res_bind_assoc cong: if_cong)

lemma nth_val_upd:
  "nkey (ns[i := (ns ! i)\<lparr>n_val := v\<rparr>]) j = nkey ns j" "n_next (ns[i := (ns ! i)\<lparr>n_val := v\<rparr>] ! j) = n_next (ns ! j)"
proof -
  have "ns[i := (ns ! i)\<lparr>n_val := v\<rparr>] ! j = (if j = i \<and> i < length ns then (ns ! i)\<lparr>n_val := v\<rparr> else ns ! j)"
    by (cases "i < length ns") (auto simp: nth_list_update list_update_beyond)
  then show "nkey (ns[i := (ns ! i)\<lparr>n_val := v\<rparr>]) j = nkey ns j" "n_next (ns[i := (ns ! i)\<lparr>n_val := v\<rparr>] ! j) = n_next (ns ! j)"
    by auto
qed

lemma hash_ok_val:
  assumes H: "hash_ok H ns C" and i: "i < length ns" "normal (nkey ns i)"
  shows "hash_ok H (ns[i := (ns ! i)\<lparr>n_val := v\<rparr>]) C"
proof -
  let ?ns = "ns[i := (ns ! i)\<lparr>n_val := v\<rparr>]"
  note k = nth_val_upd [of ns i v]
  have l: "linked ?ns xs = linked ns xs" for xs by (rule linked_cong) (rule k)
  note D = hash_okD [OF H]
  have "chains_ok ?ns C" using D(1) unfolding chains_ok_def k l length_list_update .
  moreover have "in_chains H ?ns C" using D(2) unfolding in_chains_def k length_list_update .
  moreover have "brent H ?ns" using D(3) unfolding brent_def k length_list_update .
  moreover have "keys_ok ?ns" unfolding keys_ok_def k length_list_update
  proof (intro conjI allI impI)
    fix j assume j: "j < length ns"
    show "nkey ns j \<noteq> KNum Nnan" using D(4) j by (simp add: keys_ok_def)
    show "n_val (?ns ! j) = None" if "\<not> normal (nkey ns j)" using D(4) j that i by (cases "j = i") (auto simp: keys_ok_def)
  next
    fix j l assume "j < length ns" "l < length ns" "normal (nkey ns j)" "luaV_rawequalobj (nkey ns j) (nkey ns l)"
    then show "j = l" using D(4) unfolding keys_ok_def by blast
  qed
  ultimately show ?thesis using H by (auto simp: hash_ok_def)
qed

lemma table_ok_val:
  assumes T: "table_ok H t" and i: "i < length (node t)" "normal (nkey (node t) i)"
  shows "table_ok H (t\<lparr>node := (node t)[i := (node t ! i)\<lparr>n_val := v\<rparr>]\<rparr>)"
proof -
  obtain C where C: "hash_ok H (node t) C" using T by (auto simp: table_ok_def)
  have "\<not> isdummy t"
  proof
    assume "isdummy t"
    then have "node t = [dummynode]" using T by (simp add: table_ok_def)
    then show False using i by (simp add: dummynode_def)
  qed
  then show ?thesis using T hash_ok_val [OF C i, of v] by (auto simp: table_ok_def sizenode_def in_array_def nth_val_upd)
qed

lemma table_ok_array:
  assumes "table_ok H t" "length a = length (array t)" shows "table_ok H (t\<lparr>array := a\<rparr>)"
  using assms by (auto simp: table_ok_def sizenode_def in_array_def)

text \<open>The table that results when a value is set: only the entry of the key is different.\<close>

definition stored :: "hashing \<Rightarrow> 'v Table \<Rightarrow> tkey \<Rightarrow> 'v option \<Rightarrow> 'v Table \<Rightarrow> bool" where
  "stored H t k v t' \<longleftrightarrow> table_ok H t' \<and>
     (\<forall>k' w. valid_key k' \<longrightarrow> has t' k' w \<longleftrightarrow> (if luaV_rawequalobj k' k then v = Some w else has t k' w))"

lemma stored_array:
  assumes T: "table_ok H t" and k: "valid_key k" "in_array t k"
  shows "set_then nk H t k v = Inr (t\<lparr>array := (array t)[arr_ix k := v]\<rparr>)" "stored H t k v (t\<lparr>array := (array t)[arr_ix k := v]\<rparr>)"
proof -
  note ix = in_array_ix [OF k(2)]
  show "set_then nk H t k v = Inr (t\<lparr>array := (array t)[arr_ix k := v]\<rparr>)"
    using ix by (simp add: set_then_def set_with_def luaH_get_cases(1) [OF T k] set_slot_def mem_set_ok)
  let ?t = "t\<lparr>array := (array t)[arr_ix k := v]\<rparr>"
  have ia: "in_array ?t k' = in_array t k'" for k' by (simp add: in_array_def)
  have "has ?t k' w \<longleftrightarrow> (if luaV_rawequalobj k' k then v = Some w else has t k' w)" for k' w
  proof (cases "luaV_rawequalobj k' k")
    case True
    then have "luaV_rawequalobj k k'" by (subst rawequal_sym)
    then have "k' = k" using in_array_cong k(2) by blast
    then show ?thesis using True ix k(2) by (simp add: has_def ia)
  next
    case False
    have "arr_ix k' \<noteq> arr_ix k" if "in_array t k'"
    proof
      assume "arr_ix k' = arr_ix k"
      then have "k' = k" using ix in_array_ix [OF that] by simp
      then show False using False ix rawequal_refl [of k] k(1) by (auto simp: valid_key_def normal_def)
    qed
    then show ?thesis using False by (cases "in_array t k'") (simp_all add: has_def ia)
  qed
  then show "stored H t k v ?t" using table_ok_array [OF T, of "(array t)[arr_ix k := v]"] by (simp add: stored_def)
qed

lemma stored_node:
  assumes T: "table_ok H t" and k: "valid_key k" "\<not> in_array t k" and i: "i < length (node t)" "luaV_rawequalobj (nkey (node t) i) k"
  shows "set_slot t (S_node i) v = Inr (t\<lparr>node := (node t)[i := (node t ! i)\<lparr>n_val := v\<rparr>]\<rparr>)"
    "stored H t k v (t\<lparr>node := (node t)[i := (node t ! i)\<lparr>n_val := v\<rparr>]\<rparr>)"
proof -
  let ?ns = "(node t)[i := (node t ! i)\<lparr>n_val := v\<rparr>]"
  show "set_slot t (S_node i) v = Inr (t\<lparr>node := ?ns\<rparr>)" using i(1) by (simp add: set_slot_def mem_get_ok mem_set_ok)
  have n: "normal (nkey (node t) i)" using rawequal_normal [OF i(2)] k(1) by (simp add: valid_key_def)
  note T' = table_ok_val [OF T i(1) n, of v]
  have ki: "luaV_rawequalobj k (nkey (node t) i)" by (subst rawequal_sym) (rule i(2))
  have "has (t\<lparr>node := ?ns\<rparr>) k' w \<longleftrightarrow> (if luaV_rawequalobj k' k then v = Some w else has t k' w)" if v': "valid_key k'" for k' w
  proof (cases "luaV_rawequalobj k' k")
    case True
    have kk: "luaV_rawequalobj k k'" by (subst rawequal_sym) (rule True)
    have "\<not> in_array t k'" using in_array_cong [OF True, of t] k(2) by auto
    moreover have "entry ?ns k' w \<longleftrightarrow> n_val (?ns ! i) = Some w"
    proof -
      have "luaV_rawequalobj (nkey (node (t\<lparr>node := ?ns\<rparr>)) i) k'" using rawequal_trans [OF i(2) kk] i(1) by simp
      then show ?thesis using entry_at [OF T', of k' i w] v' i(1) by (simp add: valid_key_def)
    qed
    ultimately show ?thesis using True i(1) by (auto simp: has_def in_array_def)
  next
    case False
    have "\<not> luaV_rawequalobj (nkey (node t) i) k'"
    proof
      assume "luaV_rawequalobj (nkey (node t) i) k'"
      then have "luaV_rawequalobj k k'" by (rule rawequal_trans [OF ki])
      then show False using False by (simp add: rawequal_sym [of k' k])
    qed
    then have "entry ?ns k' w \<longleftrightarrow> entry (node t) k' w" unfolding entry_def nth_val_upd length_list_update
      by (metis nth_list_update_neq)
    moreover have "in_array (t\<lparr>node := ?ns\<rparr>) k' = in_array t k'" by (simp add: in_array_def)
    ultimately show ?thesis using False by (simp add: has_def)
  qed
  then show "stored H t k v (t\<lparr>node := ?ns\<rparr>)" using T' by (simp add: stored_def)
qed

lemma in_array_same: "length (array t') = length (array t) \<Longrightarrow> in_array t' k = in_array t k"
  by (simp add: in_array_def)

text \<open>There is a slot for the key, or a free node.\<close>

definition room :: "'v Table \<Rightarrow> tkey \<Rightarrow> bool" where
  "room t k \<longleftrightarrow> in_array t k \<or> \<not> absent (node t) k \<or> \<not> isdummy t \<and> card (used (node t)) < length (node t)"

definition same_shape :: "'v Table \<Rightarrow> 'v Table \<Rightarrow> nat \<Rightarrow> bool" where
  "same_shape t t' c \<longleftrightarrow> length (array t') = length (array t) \<and> length (node t') = length (node t) \<and> isdummy t' = isdummy t \<and>
     card (used (node t')) \<le> card (used (node t)) + c"

lemma frame_trans: "same_shape t t' c \<Longrightarrow> same_shape t' t'' d \<Longrightarrow> same_shape t t'' (c + d)"
  by (simp add: same_shape_def)

lemma used_val [simp]: "used (ns[i := (ns ! i)\<lparr>n_val := v\<rparr>]) = used ns"
  by (simp add: used_def nth_val_upd)

lemma newkey_room:
  assumes T: "table_ok H t" and key: "valid_key key" "absent (node t) key" "\<not> in_array t key" and r: "room t key"
  shows "\<exists>r. newkey_with grow H t key = Inr r \<and> key_added H t key r"
proof -
  have d: "\<not> isdummy t" and u: "card (used (node t)) < length (node t)" using r key(2,3) by (auto simp: room_def)
  have k: "normal key" "key_wf key" using key(1) by (auto simp: valid_key_def)
  show ?thesis
  proof (cases "n_val (node t ! mainposition H (sizenode t) key) = None")
    case True
    then show ?thesis by (rule newkey_main [OF T d k key(2,3)])
  next
    case False
    from getfreepos_result [OF T d] u obtain n where "n < length (node t)" "nkey (node t) n = KNil"
      "\<forall>i<length (node t). n < i \<longrightarrow> nkey (node t) i \<noteq> KNil" "getfreepos t = Inr (t\<lparr>lastfree := n\<rparr>, Some n)" by auto
    then show ?thesis by (rule newkey_collision [OF T d k key(2,3) False])
  qed
qed

lemma stored_trans_key:
  assumes "key_added H t k (t', s)" and st: "stored H t' k v t''" shows "stored H t k v t''"
proof -
  have "has t' k' w = has t k' w" for k' w using assms(1) in_array_same [of t' t k'] by (simp add: key_added_def has_def)
  then show ?thesis using st by (simp add: stored_def)
qed

lemma set_then_added:
  assumes T: "table_ok H t" and k: "valid_key k" "absent (node t) k" "\<not> in_array t k" and n: "nk t k = Inr (t1, s)" "key_added H t k (t1, s)"
  shows "\<exists>t'. set_then nk H t k v = Inr t' \<and> stored H t k v t' \<and> same_shape t t' 1"
proof -
  from n(2) obtain i where i: "i < length (node t1)" "s = S_node i" "nkey (node t1) i = k" and T1: "table_ok H t1"
    and f: "array t1 = array t" "length (node t1) = length (node t)" "isdummy t1 = isdummy t" "card (used (node t1)) \<le> card (used (node t)) + 1"
    by (auto simp: key_added_def)
  have e: "luaV_rawequalobj (nkey (node t1) i) k" using i(3) k(1) rawequal_refl [of k] by (auto simp: valid_key_def normal_def)
  have na: "\<not> in_array t1 k" using k(3) f(1) by (simp add: in_array_def)
  note S = stored_node [OF T1 k(1) na i(1) e]
  have "set_then nk H t k v = Inr (t1\<lparr>node := (node t1)[i := (node t1 ! i)\<lparr>n_val := v\<rparr>]\<rparr>)"
    using luaH_get_cases(3) [OF T k(1,3,2)] n(1) S(1) i(2) by (simp add: set_then_def set_with_def)
  moreover have "stored H t k v (t1\<lparr>node := (node t1)[i := (node t1 ! i)\<lparr>n_val := v\<rparr>]\<rparr>)"
    by (rule stored_trans_key [OF n(2) S(2)])
  ultimately show ?thesis using f by (simp add: same_shape_def)
qed

lemma set_then_ok:
  assumes T: "table_ok H t" and k: "valid_key k" and r: "room t k"
  shows "\<exists>t'. set_then (newkey_with grow H) H t k v = Inr t' \<and> stored H t k v t' \<and> same_shape t t' (if in_array t k then 0 else 1)"
proof (cases "in_array t k")
  case True
  then show ?thesis using stored_array [OF T k True] by (simp add: same_shape_def)
next
  case False
  show ?thesis
  proof (cases "absent (node t) k")
    case ab: True
    obtain t1 s where "newkey_with grow H t k = Inr (t1, s)" "key_added H t k (t1, s)"
      using newkey_room [OF T k ab False r, of grow] by auto
    from set_then_added [OF T k ab False, of "newkey_with grow H", OF this] show ?thesis using False by simp
  next
    case ab: False
    then obtain i where i: "i < length (node t)" "luaV_rawequalobj (nkey (node t) i) k" by (auto simp: absent_def)
    note S = stored_node [OF T k False i]
    have "set_then (newkey_with grow H) H t k v = Inr (t\<lparr>node := (node t)[i := (node t ! i)\<lparr>n_val := v\<rparr>]\<rparr>)"
      using luaH_get_cases(2) [OF T k False i] S(1) by (simp add: set_then_def set_with_def)
    then show ?thesis using S(2) False by (simp add: same_shape_def)
  qed
qed

end
