(* ===== verification/LuaRehash.thy ===== *)
theory LuaRehash
  imports LuaNewkey "HOL-Library.Log_Nat"
begin

text \<open>
  Growing a table: the logarithm of \<open>lobject.c\<close>, the counts of integer keys, the choice of the
  size of the array part, and that a rehash keeps all entries and has room for the new key.
\<close>

section \<open>Logarithms\<close>

lemma log_2_table: "log_2 = map (floorlog 2) [0..<256]"
  by code_simp

lemma floorlog_256: "256 \<le> n \<Longrightarrow> floorlog 2 n = floorlog 2 (n div 256) + 8"
proof -
  have s: "0 < x \<Longrightarrow> floorlog 2 x = floorlog 2 (x div 2) + 1" for x :: nat using compute_floorlog [of 2 x] by simp
  assume "256 \<le> n"
  then have p: "0 < n div 2" "0 < n div 4" "0 < n div 8" "0 < n div 16" "0 < n div 32" "0 < n div 64" "0 < n div 128" "0 < n" by simp_all
  show ?thesis using s [of n] s [OF p(1)] s [OF p(2)] s [OF p(3)] s [OF p(4)] s [OF p(5)] s [OF p(6)] s [OF p(7)] p(8)
    by (simp add: div_mult2_eq [symmetric])
qed

lemma ceillog2_loop_result: "ceillog2_loop l x = Inr (l + floorlog 2 (unat x))"
proof (induction l x rule: ceillog2_loop.induct)
  case (1 l x)
  show ?case
  proof (cases "x \<ge> 256")
    case True
    have u: "unat (drop_bit 8 x) = unat x div 256" by (simp add: unat_drop_bit_eq drop_bit_eq_div unat_div)
    have "256 \<le> unat x" using True by (simp add: word_le_nat_alt)
    then show ?thesis using 1 [OF True] True u floorlog_256 [of "unat x"] by (subst ceillog2_loop.simps) simp
  next
    case False
    then have "unat x < 256" by (simp add: word_le_nat_alt not_le)
    then have "mem_get log_2 (unat x) = Inr (floorlog 2 (unat x))" unfolding log_2_table by (simp add: mem_get_def)
    then show ?thesis using False by (subst ceillog2_loop.simps) simp
  qed
qed

lemma floorlog_ceillog2: "0 < n \<Longrightarrow> floorlog 2 (n - 1) = ceillog2 n"
proof -
  assume n: "0 < n"
  show ?thesis
  proof (cases "n = 1")
    case True
    then show ?thesis by (simp add: floorlog_eq_zero_iff)
  next
    case False
    let ?l = "floorlog 2 (n - 1)"
    have b: "2 ^ (?l - 1) \<le> n - 1" "n - 1 < 2 ^ ?l" using floorlog_bounds [of "n - 1" 2] n False by simp_all
    have "?l \<noteq> 0" using n False by (simp add: floorlog_eq_zero_iff)
    then have "(2 :: nat) ^ ?l = 2 * 2 ^ (?l - 1)" by (simp add: power_eq_if)
    then have "2 ^ ?l < 2 * n" using b(1) n by linarith
    moreover have "n \<le> 2 ^ ?l" using b(2) by linarith
    ultimately show ?thesis using n by (intro ceillog2_eqI [symmetric]) auto
  qed
qed

lemma luaO_ceillog2_nat: "0 < n \<Longrightarrow> n < 2 ^ 32 \<Longrightarrow> luaO_ceillog2 (of_nat n) = Inr (ceillog2 n)"
proof -
  assume n: "0 < n" "n < 2 ^ 32"
  have "(of_nat n :: u32) - 1 = of_nat (n - 1)" using n(1) by (simp add: of_nat_diff)
  moreover have "unat (of_nat (n - 1) :: u32) = n - 1" using n(2) by (intro unat_of_nat_u32) linarith
  ultimately show ?thesis using floorlog_ceillog2 [OF n(1)] by (simp add: luaO_ceillog2_def ceillog2_loop_result)
qed

section \<open>Resizing\<close>

text \<open>The two loops of \<open>luaH_resize\<close> are sequences of insertions.\<close>

fun inserts :: "('v Table \<Rightarrow> tkey \<Rightarrow> ('v Table \<times> tslot) res) \<Rightarrow> hashing \<Rightarrow> (tkey \<times> 'v) list \<Rightarrow> 'v Table \<Rightarrow> 'v Table res" where
  "inserts nk H [] t = Inr t"
| "inserts nk H ((k, v) # kvs) t = res_bind (set_then nk H t k (Some v)) (inserts nk H kvs)"

fun arr_kvs :: "nat \<Rightarrow> 'v option list \<Rightarrow> (tkey \<times> 'v) list" where
  "arr_kvs i [] = []"
| "arr_kvs i (None # vs) = arr_kvs (i + 1) vs"
| "arr_kvs i (Some v # vs) = (KNum (Nint (int i + 1)), v) # arr_kvs (i + 1) vs"

fun node_kvs :: "'v Node list \<Rightarrow> (tkey \<times> 'v) list" where
  "node_kvs [] = []"
| "node_kvs (n # ns) = (case n_val n of None \<Rightarrow> node_kvs ns | Some v \<Rightarrow> (n_key n, v) # node_kvs ns)"

lemma reinsert_array_inserts: "reinsert_array nk H i vs t = inserts nk H (arr_kvs i vs) t"
  by (induction i vs arbitrary: t rule: arr_kvs.induct) (simp_all add: setint_with_then res_bind_def fun_eq_iff split: sum.splits)

lemma reinsert_nodes_inserts: "reinsert_nodes nk H ns = inserts nk H (node_kvs ns)"
proof
  show "reinsert_nodes nk H ns t = inserts nk H (node_kvs ns) t" for t
    by (induction ns arbitrary: t) (auto simp: set_then_def res_bind_def split: sum.splits option.splits)
qed

lemma inserts_append: "inserts nk H (as @ bs) t = res_bind (inserts nk H as t) (inserts nk H bs)"
  by (induction nk H as t rule: inserts.induct) (auto simp: res_bind_assoc res_bind_def split: sum.splits)

definition unequal :: "(tkey \<times> 'v) list \<Rightarrow> bool" where
  "unequal kvs \<longleftrightarrow> sorted_wrt (\<lambda>a b. \<not> luaV_rawequalobj (fst a) (fst b)) kvs"

lemma unequal_Cons: "unequal (a # kvs) \<longleftrightarrow> (\<forall>b\<in>set kvs. \<not> luaV_rawequalobj (fst a) (fst b)) \<and> unequal kvs"
  by (simp add: unequal_def)

lemma unequal_append: "unequal (as @ bs) \<longleftrightarrow> unequal as \<and> unequal bs \<and> (\<forall>a\<in>set as. \<forall>b\<in>set bs. \<not> luaV_rawequalobj (fst a) (fst b))"
  by (auto simp: unequal_def sorted_wrt_append)

definition beyond :: "nat \<Rightarrow> tkey \<Rightarrow> bool" where
  "beyond n k \<longleftrightarrow> (\<forall>i. k = KNum (Nint i) \<longrightarrow> \<not> (1 \<le> i \<and> i \<le> int n))"

lemma in_array_outside: "in_array t k \<longleftrightarrow> \<not> beyond (length (array t)) k"
  by (auto simp: in_array_def beyond_def)

definition has_in :: "(tkey \<times> 'v) list \<Rightarrow> tkey \<Rightarrow> 'v \<Rightarrow> bool" where
  "has_in kvs k w \<longleftrightarrow> (\<exists>k'. (k', w) \<in> set kvs \<and> luaV_rawequalobj k k')"

text \<open>There is room for all of them when there are enough free nodes for those that do not go to the array part.\<close>

lemma inserts_ok:
  assumes "table_ok H t" "\<forall>(k, v)\<in>set kvs. valid_key k" "unequal kvs"
    and "isdummy t \<Longrightarrow> \<forall>(k, v)\<in>set kvs. in_array t k"
    and "card (used (node t)) + length (filter (\<lambda>(k, v). beyond (length (array t)) k) kvs) \<le> length (node t)"
  shows "\<exists>t'. inserts (newkey_with grow H) H kvs t = Inr t' \<and> table_ok H t' \<and>
     same_shape t t' (length (filter (\<lambda>(k, v). beyond (length (array t)) k) kvs)) \<and>
     (\<forall>k w. valid_key k \<longrightarrow> has t' k w \<longleftrightarrow> has_in kvs k w \<or> (\<forall>(k', v)\<in>set kvs. \<not> luaV_rawequalobj k k') \<and> has t k w)"
  using assms
proof (induction kvs arbitrary: t)
  case Nil
  then show ?case by (auto simp: same_shape_def has_in_def)
next
  case (Cons kv kvs)
  obtain k v where kv: "kv = (k, v)" by force
  have vk: "valid_key k" using Cons.prems(2) kv by simp
  have "room t k"
  proof (cases "in_array t k")
    case False
    then have "beyond (length (array t)) k" by (simp add: in_array_outside)
    then show ?thesis using Cons.prems(4,5) kv False by (auto simp: room_def)
  qed (simp add: room_def)
  from set_then_ok [OF Cons.prems(1) vk this, of grow "Some v"] obtain t1 where t1: "set_then (newkey_with grow H) H t k (Some v) = Inr t1"
    "stored H t k (Some v) t1" "same_shape t t1 (if in_array t k then 0 else 1)" by blast
  have sh: "length (array t1) = length (array t)" "length (node t1) = length (node t)" "isdummy t1 = isdummy t"
    using t1(3) by (auto simp: same_shape_def)
  have T1: "table_ok H t1" using t1(2) by (simp add: stored_def)
  let ?out = "\<lambda>kvs :: (tkey \<times> 'a) list. length (filter (\<lambda>(k, v). beyond (length (array t)) k) kvs)"
  have c: "?out (kv # kvs) = (if in_array t k then 0 else 1) + ?out kvs" using kv by (simp add: in_array_outside)
  have u: "card (used (node t1)) + ?out kvs \<le> length (node t1)" using Cons.prems(5) t1(3) c sh(2) by (auto simp: same_shape_def split: if_splits)
  have d: "\<forall>(k, v)\<in>set kvs. in_array t1 k" if "isdummy t1"
    using Cons.prems(4) that sh in_array_same [OF sh(1)] by auto
  from Cons.IH [OF T1 _ _ d] Cons.prems(2,3) u sh(1) obtain t2 where t2: "inserts (newkey_with grow H) H kvs t1 = Inr t2" "table_ok H t2"
    "same_shape t1 t2 (?out kvs)"
    "\<forall>k w. valid_key k \<longrightarrow> has t2 k w \<longleftrightarrow> has_in kvs k w \<or> (\<forall>(k', v)\<in>set kvs. \<not> luaV_rawequalobj k k') \<and> has t1 k w"
    by (auto simp: unequal_Cons)
  have "same_shape t t2 (?out (kv # kvs))" unfolding c by (rule frame_trans [OF t1(3) t2(3)])
  moreover have "has t2 k' w \<longleftrightarrow> has_in (kv # kvs) k' w \<or> (\<forall>(k'', v)\<in>set (kv # kvs). \<not> luaV_rawequalobj k' k'') \<and> has t k' w"
    if k': "valid_key k'" for k' w
  proof -
    have h1: "has t1 k' w \<longleftrightarrow> (if luaV_rawequalobj k' k then v = w else has t k' w)" using t1(2) k' by (simp add: stored_def)
    have dj: "\<not> luaV_rawequalobj k' (fst b)" if "luaV_rawequalobj k' k" "b \<in> set kvs" for b
    proof
      assume b: "luaV_rawequalobj k' (fst b)"
      have "luaV_rawequalobj k k'" by (subst rawequal_sym) (rule that(1))
      then have "luaV_rawequalobj k (fst b)" using b by (rule rawequal_trans)
      then show False using Cons.prems(3) that(2) kv by (auto simp: unequal_Cons)
    qed
    show ?thesis
    proof (cases "luaV_rawequalobj k' k")
      case True
      then show ?thesis using dj [OF True] h1 t2(4) k' kv by (force simp: has_in_def)
    next
      case False
      then show ?thesis using h1 t2(4) k' kv by (auto simp: has_in_def)
    qed
  qed
  ultimately show ?case using t1(1) t2(1,2) kv by auto
qed

text \<open>A table whose nodes are all empty.\<close>

definition empty_nodes :: "nat \<Rightarrow> 'v Node list" where
  "empty_nodes sz = (if sz = 0 then [dummynode] else replicate (2 ^ ceillog2 sz) dummynode)"

lemma empty_nodes_nth: "i < length (empty_nodes sz) \<Longrightarrow> empty_nodes sz ! i = dummynode"
  by (auto simp: empty_nodes_def split: if_splits)

lemma empty_nodes_fields:
  assumes "i < length (empty_nodes sz :: 'v Node list)"
  shows "nkey (empty_nodes sz :: 'v Node list) i = KNil" "n_val ((empty_nodes sz :: 'v Node list) ! i) = None"
    "n_next ((empty_nodes sz :: 'v Node list) ! i) = None"
  unfolding empty_nodes_nth [OF assms] by (simp_all add: dummynode_def)

lemma length_empty_nodes: "length (empty_nodes sz) = 2 ^ (if sz = 0 then 0 else ceillog2 sz)" "sz \<le> length (empty_nodes sz)"
  by (auto simp: empty_nodes_def le_two_power_ceillog2)

lemma used_empty [simp]: "used (empty_nodes sz) = {}"
  by (auto simp: used_def empty_nodes_nth dummynode_def)

lemma hash_ok_empty: "hash_ok H (empty_nodes sz :: 'v Node list) {}"
proof -
  have "\<exists>k. length (empty_nodes sz :: 'v Node list) = 2 ^ k" using length_empty_nodes(1) by blast
  then show ?thesis by (auto simp: empty_nodes_fields hash_ok_def chains_ok_def in_chains_def brent_def keys_ok_def)
qed

definition empty_hash :: "nat \<Rightarrow> 'v option list \<Rightarrow> 'v Table" where
  "empty_hash sz a = \<lparr>array = a, node = empty_nodes sz, isdummy = (sz = 0), lsizenode = (if sz = 0 then 0 else ceillog2 sz),
     lastfree = (if sz = 0 then 0 else 2 ^ ceillog2 sz)\<rparr>"

lemma table_ok_empty:
  assumes "length a \<le> MAXASIZE" "sz \<le> 2 ^ MAXBITS" shows "table_ok H (empty_hash sz a)"
proof -
  have "ceillog2 sz \<le> MAXBITS" using assms(2) by (cases "sz = 0") (simp_all add: ceillog2_le_iff)
  moreover have "\<not> in_array t (nkey (empty_nodes sz :: 'a Node list) i) \<and> key_wf (nkey (empty_nodes sz :: 'a Node list) i)"
    if "i < length (empty_nodes sz :: 'a Node list)" for i and t :: "'a Table"
    using empty_nodes_fields(1) [OF that] by (simp add: in_array_def key_wf_def)
  ultimately show ?thesis using assms(1) hash_ok_empty [of H sz] length_empty_nodes(1) [of sz]
    by (auto simp: table_ok_def empty_hash_def sizenode_def empty_nodes_def)
qed

lemma has_empty: "has (empty_hash sz a) k v \<longleftrightarrow> \<not> beyond (length a) k \<and> a ! arr_ix k = Some v"
  by (auto simp: has_def in_array_outside empty_hash_def entry_def empty_nodes_fields)

text \<open>The table before the old entries are inserted again.\<close>

definition new_array :: "nat \<Rightarrow> 'v option list \<Rightarrow> 'v option list" where
  "new_array n a = take n a @ replicate (n - length a) None"

lemma length_new_array [simp]: "length (new_array n a) = n"
  by (simp add: new_array_def)

lemma setnodevector_ok:
  assumes "sz < 2 ^ 32"
  shows "setnodevector sz t = (if sz \<le> 2 ^ MAXBITS then Inr (empty_hash sz (array t)) else Inl (Lua_error ''table overflow''))"
proof (cases "sz = 0")
  case True
  then show ?thesis by (simp add: setnodevector_def empty_hash_def empty_nodes_def)
next
  case False
  then show ?thesis using luaO_ceillog2_nat [OF _ assms] ceillog2_le_iff [of sz MAXBITS]
    by (auto simp add: setnodevector_def empty_hash_def empty_nodes_def)
qed

lemma resize_with_eq:
  assumes "nh < 2 ^ 32"
  shows "resize_with nk H na nh t =
    (if nh \<le> 2 ^ MAXBITS
     then inserts nk H (arr_kvs na (drop na (array t)) @ node_kvs (rev (node t))) (empty_hash nh (new_array na (array t)))
     else Inl (Lua_error ''table overflow''))"
proof -
  consider "na > length (array t)" | "na = length (array t)" | "na < length (array t)" by linarith
  then show ?thesis
    by cases (simp_all add: resize_with_def Let_def setnodevector_ok [OF assms] setarrayvector_def new_array_def
        reinsert_array_inserts reinsert_nodes_inserts inserts_append empty_hash_def)
qed

lemma arr_kvs_mem: "(k, v) \<in> set (arr_kvs i vs) \<longleftrightarrow> (\<exists>j<length vs. k = KNum (Nint (int (i + j) + 1)) \<and> vs ! j = Some v)"
proof (induction i vs rule: arr_kvs.induct)
  case (2 i vs)
  then show ?case by (auto simp: less_Suc_eq_0_disj algebra_simps)
next
  case (3 i v vs)
  then show ?case by (auto simp: less_Suc_eq_0_disj algebra_simps)
qed simp

lemma node_kvs_mem: "(k, v) \<in> set (node_kvs ns) \<longleftrightarrow> (\<exists>n\<in>set ns. n_key n = k \<and> n_val n = Some v)"
  by (induction ns) (auto split: option.splits)

lemma unequal_arr_kvs: "unequal (arr_kvs i vs)"
proof (induction i vs rule: arr_kvs.induct)
  case (3 i v vs)
  have "\<not> luaV_rawequalobj (KNum (Nint (int i + 1))) k" if "(k, w) \<in> set (arr_kvs (i + 1) vs)" for k w
    using that by (auto simp: arr_kvs_mem numeq_def)
  then show ?case using 3 by (force simp: unequal_Cons)
qed (simp_all add: unequal_def)

lemma node_kvs_append: "node_kvs (xs @ ys) = node_kvs xs @ node_kvs ys"
  by (induction xs) (auto split: option.splits)

lemma unequal_rev: "unequal (rev kvs) = unequal kvs"
  by (simp add: unequal_def sorted_wrt_rev rawequal_sym)

lemma node_kvs_rev: "node_kvs (rev ns) = rev (node_kvs ns)"
  by (induction ns) (auto simp: node_kvs_append split: option.splits)

text \<open>All entries of a table, in the order in which \<open>luaH_next\<close> gives them.\<close>

definition entries :: "'v Table \<Rightarrow> (tkey \<times> 'v) list" where
  "entries t = arr_kvs 0 (array t) @ node_kvs (node t)"

lemma node_kvs_nth: "(k, v) \<in> set (node_kvs ns) \<longleftrightarrow> (\<exists>i<length ns. nkey ns i = k \<and> n_val (ns ! i) = Some v)"
proof -
  have "(k, v) \<in> set (node_kvs ns) \<longleftrightarrow> (\<exists>n. n \<in> set ns \<and> n_key n = k \<and> n_val n = Some v)" by (auto simp: node_kvs_mem)
  then show ?thesis unfolding in_set_conv_nth [of _ ns] by blast
qed

lemma node_kvs_valid:
  assumes T: "table_ok H t" and k: "(k, v) \<in> set (node_kvs (node t))"
  shows "valid_key k" "\<not> in_array t k"
proof -
  obtain C where C: "hash_ok H (node t) C" using T by (auto simp: table_ok_def)
  obtain i where i: "i < length (node t)" "nkey (node t) i = k" "n_val (node t ! i) = Some v"
    using k unfolding node_kvs_nth by blast
  then have "normal k" using hash_okD(4) [OF C] by (auto simp: keys_ok_def)
  then show "valid_key k" "\<not> in_array t k" using T i by (auto simp: valid_key_def table_ok_def)
qed

lemma node_kvs_nth_unequal:
  assumes "keys_ok ns" shows "unequal (node_kvs ns)"
proof -
  have "unequal (node_kvs xs)" if "xs = drop m ns" for m xs using that
  proof (induction xs arbitrary: m)
    case Nil
    then show ?case by (simp add: unequal_def)
  next
    case (Cons x xs)
    have m: "m < length ns" using Cons.prems by (metis drop_all leI list.distinct(1))
    have "x # xs = ns ! m # drop (Suc m) ns" using Cons.prems Cons_nth_drop_Suc [OF m] by (rule trans [OF _ sym])
    then have x: "x = ns ! m" and xs: "xs = drop (Suc m) ns" by simp_all
    have "\<not> luaV_rawequalobj (n_key x) k" if v: "n_val x = Some v" and kv: "(k, w) \<in> set (node_kvs xs)" for v k w
    proof
      assume e: "luaV_rawequalobj (n_key x) k"
      obtain j where j: "m + Suc j < length ns" "nkey ns (m + Suc j) = k"
        using kv unfolding node_kvs_nth xs by (force simp: less_diff_conv add.commute)
      have "normal (nkey ns m)" using assms m v by (auto simp: keys_ok_def x)
      then have "m = m + Suc j" using assms m j e unfolding keys_ok_def x by blast
      then show False by simp
    qed
    then show ?case using Cons.IH [OF xs] by (force simp: unequal_Cons split: option.splits)
  qed
  from this [of ns 0] show ?thesis by simp
qed

lemma entries_unequal:
  assumes T: "table_ok H t" shows "unequal (arr_kvs i (drop i (array t)) @ node_kvs (node t))"
proof -
  obtain C where C: "hash_ok H (node t) C" using T by (auto simp: table_ok_def)
  have "\<not> luaV_rawequalobj k k'" if "(k, v) \<in> set (arr_kvs i (drop i (array t)))" "(k', v') \<in> set (node_kvs (node t))" for k v k' v'
  proof
    assume e: "luaV_rawequalobj k k'"
    have "in_array t k" using that(1) by (auto simp: arr_kvs_mem in_array_def)
    then have "in_array t k'" using in_array_cong [OF e] by auto
    then show False using node_kvs_valid(2) [OF T that(2)] by simp
  qed
  then show ?thesis using node_kvs_nth_unequal [OF hash_okD(4) [OF C]] by (fastforce simp: unequal_append unequal_arr_kvs)
qed

lemma arr_kvs_outside: "(k, v) \<in> set (arr_kvs i vs) \<Longrightarrow> beyond i k"
  by (auto simp: arr_kvs_mem beyond_def)

lemma has_nodes: "entry (node t) k w \<longleftrightarrow> has_in (node_kvs (node t)) k w"
proof -
  have "has_in (node_kvs (node t)) k w \<longleftrightarrow> (\<exists>i<length (node t). luaV_rawequalobj k (nkey (node t) i) \<and> n_val (node t ! i) = Some w)"
    unfolding has_in_def node_kvs_nth by blast
  then show ?thesis by (simp add: entry_def rawequal_sym [of k])
qed

lemma has_slice:
  assumes k: "valid_key k"
  shows "has_in (arr_kvs i (drop i (array t))) k w \<longleftrightarrow> in_array t k \<and> beyond i k \<and> array t ! arr_ix k = Some w"
proof
  assume "has_in (arr_kvs i (drop i (array t))) k w"
  then obtain j where j: "j < length (array t) - i" "luaV_rawequalobj k (KNum (Nint (int (i + j) + 1)))" "array t ! (i + j) = Some w"
    by (auto simp: has_in_def arr_kvs_mem)
  then have "k = KNum (Nint (int (i + j) + 1))" by (simp add: rawequal_int)
  then show "in_array t k \<and> beyond i k \<and> array t ! arr_ix k = Some w" using j(1,3) by (auto simp: in_array_def beyond_def arr_ix_def nat_add_distrib)
next
  assume a: "in_array t k \<and> beyond i k \<and> array t ! arr_ix k = Some w"
  then have ix: "arr_ix k < length (array t)" "k = KNum (Nint (int (arr_ix k) + 1))" using in_array_ix by auto
  then have "i \<le> arr_ix k" using a by (auto simp: beyond_def)
  then have "(k, w) \<in> set (arr_kvs i (drop i (array t)))" using ix a by (auto simp: arr_kvs_mem intro!: exI [of _ "arr_ix k - i"])
  moreover have "luaV_rawequalobj k k" using k rawequal_refl by (auto simp: valid_key_def normal_def)
  ultimately show "has_in (arr_kvs i (drop i (array t))) k w" by (auto simp: has_in_def)
qed

lemma resize_has:
  fixes t :: "'v Table" and na :: nat
  assumes T: "table_ok H t" and k: "valid_key k"
  defines "kvs \<equiv> arr_kvs na (drop na (array t)) @ node_kvs (node t)"
  shows "has_in kvs k w \<or> (\<forall>(k', v)\<in>set kvs. \<not> luaV_rawequalobj k k') \<and> has (empty_hash nh (new_array na (array t))) k w \<longleftrightarrow> has t k w"
proof -
  have n: "has_in (node_kvs (node t)) k w \<longleftrightarrow> entry (node t) k w" by (simp add: has_nodes)
  have hs: "has_in kvs k w \<longleftrightarrow> in_array t k \<and> beyond na k \<and> array t ! arr_ix k = Some w \<or> entry (node t) k w"
    using has_slice [OF k, of na t w] n by (auto simp: kvs_def has_in_def)
  have old: "in_array t k \<Longrightarrow> \<not> (\<exists>(k', v)\<in>set (node_kvs (node t)). luaV_rawequalobj k k')"
    using in_array_cong node_kvs_valid(2) [OF T] by fastforce
  then have ne: "in_array t k \<Longrightarrow> \<not> entry (node t) k w" using n by (auto simp: has_in_def)
  show ?thesis
  proof (cases "in_array t k")
    case True
    note ix = in_array_ix [OF True]
    show ?thesis
    proof (cases "beyond na k")
      case o: True
      then show ?thesis using hs ne True by (simp add: has_def [of t] has_empty)
    next
      case o: False
      have "\<not> luaV_rawequalobj k k'" if "(k', v) \<in> set (arr_kvs na (drop na (array t)))" for k' v
        using in_array_cong [OF _ True, of k'] arr_kvs_outside [OF that] o by auto
      then have "\<forall>(k', v)\<in>set kvs. \<not> luaV_rawequalobj k k'" using old [OF True] by (auto simp: kvs_def)
      moreover have "arr_ix k < na" using o ix by (auto simp: beyond_def arr_ix_def)
      then have "new_array na (array t) ! arr_ix k = array t ! arr_ix k" using ix by (simp add: new_array_def nth_append)
      ultimately show ?thesis using hs ne True o by (simp add: has_def [of t] has_empty)
    qed
  next
    case False
    have "new_array na (array t) ! arr_ix k = None" if "\<not> beyond na k"
    proof -
      from that obtain i where i: "k = KNum (Nint i)" "1 \<le> i" "i \<le> int na" by (auto simp: beyond_def)
      then have "\<not> arr_ix k < length (array t)" "arr_ix k < na" using False by (auto simp: in_array_def arr_ix_def)
      then show ?thesis by (simp add: new_array_def nth_append)
    qed
    then show ?thesis using hs False by (auto simp: has_def [of t] has_empty)
  qed
qed

text \<open>Resizing keeps all entries when the new hash part is large enough for those that do not fit the new array part.\<close>

lemma resize_ok:
  assumes T: "table_ok H t" and na: "na \<le> MAXASIZE" and nh: "nh < 2 ^ 32"
    and c: "length (arr_kvs na (drop na (array t))) + length (filter (\<lambda>(k, v). beyond na k) (node_kvs (node t))) \<le> nh"
  shows "2 ^ MAXBITS < nh \<Longrightarrow> resize_with nk H na nh t = Inl (Lua_error ''table overflow'')"
    and "nh \<le> 2 ^ MAXBITS \<Longrightarrow> \<exists>t'. resize_with (newkey_with grow H) H na nh t = Inr t' \<and> table_ok H t' \<and> length (array t') = na \<and>
       isdummy t' = (nh = 0) \<and> nh \<le> length (node t') \<and>
       card (used (node t')) \<le> length (arr_kvs na (drop na (array t))) + length (filter (\<lambda>(k, v). beyond na k) (node_kvs (node t))) \<and>
       (\<forall>k w. valid_key k \<longrightarrow> has t' k w \<longleftrightarrow> has t k w)"
proof -
  show "2 ^ MAXBITS < nh \<Longrightarrow> resize_with nk H na nh t = Inl (Lua_error ''table overflow'')"
    by (simp add: resize_with_eq [OF nh])
  assume nb: "nh \<le> 2 ^ MAXBITS"
  let ?as = "arr_kvs na (drop na (array t))" and ?ns = "node_kvs (rev (node t))" and ?t0 = "empty_hash nh (new_array na (array t))"
  let ?out = "\<lambda>kvs :: (tkey \<times> 'a) list. length (filter (\<lambda>(k, v). beyond na k) kvs)"
  have "filter (\<lambda>(k, v). beyond na k) ?as = ?as" by (auto intro: filter_True dest: arr_kvs_outside)
  then have out: "?out (?as @ ?ns) = length ?as + ?out (node_kvs (node t))" by (simp add: node_kvs_rev rev_filter [symmetric])
  have T0: "table_ok H ?t0" by (rule table_ok_empty) (use na nb in auto)
  have l0: "length (array ?t0) = na" "length (node ?t0) \<ge> nh" "isdummy ?t0 = (nh = 0)" "used (node ?t0) = {}"
    using length_empty_nodes(2) [of nh] by (simp_all add: empty_hash_def)
  have vk: "\<forall>(k, v)\<in>set (?as @ ?ns). valid_key k"
  proof -
    have "valid_key k" if "(k, v) \<in> set ?as" for k v
      using that T by (auto simp: arr_kvs_mem valid_key_def key_wf_def table_ok_def MAXASIZE_def MAXBITS_def)
    then show ?thesis using node_kvs_valid(1) [OF T] by (auto simp: node_kvs_rev)
  qed
  have un: "unequal (?as @ ?ns)"
    using entries_unequal [OF T, of na] by (auto simp: unequal_append node_kvs_rev unequal_rev)
  have dm: "\<forall>(k, v)\<in>set (?as @ ?ns). in_array ?t0 k" if "isdummy ?t0"
  proof -
    have "?out (?as @ ?ns) = 0" using c out that l0(3) by simp
    then show ?thesis unfolding in_array_outside l0(1) by (auto simp: filter_empty_conv)
  qed
  have "card (used (node ?t0)) + ?out (?as @ ?ns) \<le> length (node ?t0)" using c out l0 by simp
  with inserts_ok [OF T0 vk un dm, of grow] l0(1) obtain t' where t': "inserts (newkey_with grow H) H (?as @ ?ns) ?t0 = Inr t'" "table_ok H t'"
    "same_shape ?t0 t' (?out (?as @ ?ns))"
    "\<forall>k w. valid_key k \<longrightarrow> has t' k w \<longleftrightarrow> has_in (?as @ ?ns) k w \<or> (\<forall>(k', v)\<in>set (?as @ ?ns). \<not> luaV_rawequalobj k k') \<and> has ?t0 k w"
    by auto
  show "\<exists>t'. resize_with (newkey_with grow H) H na nh t = Inr t' \<and> table_ok H t' \<and> length (array t') = na \<and>
       isdummy t' = (nh = 0) \<and> nh \<le> length (node t') \<and> card (used (node t')) \<le> length ?as + ?out (node_kvs (node t)) \<and>
       (\<forall>k w. valid_key k \<longrightarrow> has t' k w \<longleftrightarrow> has t k w)"
  proof (intro exI [of _ t'] conjI allI impI)
    show "resize_with (newkey_with grow H) H na nh t = Inr t'" using t'(1) nb by (simp add: resize_with_eq [OF nh])
    show "length (array t') = na" "isdummy t' = (nh = 0)" "nh \<le> length (node t')"
      "card (used (node t')) \<le> length ?as + ?out (node_kvs (node t))" using t'(3) l0 out by (simp_all add: same_shape_def)
    show "has t' k w \<longleftrightarrow> has t k w" if "valid_key k" for k w using t'(4) that resize_has [OF T that] by (simp add: node_kvs_rev has_in_def)
  qed (rule t'(2))
qed

section \<open>Counting integer keys\<close>

text \<open>\<open>nums[i]\<close> is the number of keys \<open>k\<close> with \<open>2^(i-1) < k \<le> 2^i\<close>, that is, with logarithm \<open>i\<close>.\<close>

definition counts :: "nat list \<Rightarrow> nat list" where
  "counts ks = map (\<lambda>i. length (filter (\<lambda>k. ceillog2 k = i) ks)) [0..<MAXBITS + 1]"

definition idx :: "tkey \<Rightarrow> nat list" where
  "idx key = (case key of KNum (Nint k) \<Rightarrow> if 0 < k \<and> k \<le> int MAXASIZE then [nat k] else [] | _ \<Rightarrow> [])"

definition hidx :: "'v Node list \<Rightarrow> nat list" where
  "hidx ns = concat (map (\<lambda>n. if n_val n \<noteq> None then idx (n_key n) else []) ns)"

definition akeys :: "'v option list \<Rightarrow> nat list" where
  "akeys a = filter (\<lambda>k. a ! (k - 1) \<noteq> None) [1..<length a + 1]"

lemma length_counts [simp]: "length (counts ks) = MAXBITS + 1"
  by (simp add: counts_def)

lemma counts_nth: "i \<le> MAXBITS \<Longrightarrow> counts ks ! i = length (filter (\<lambda>k. ceillog2 k = i) ks)"
  unfolding counts_def by (subst nth_map) (auto simp del: upt_Suc)

lemma counts_zero: "replicate (MAXBITS + 1) 0 = counts []"
  by (simp add: counts_def map_replicate_const del: upt_Suc)

lemma counts_Cons:
  assumes "ceillog2 k \<le> MAXBITS"
  shows "(counts ks)[ceillog2 k := counts ks ! ceillog2 k + 1] = counts (k # ks)"
  by (rule nth_equalityI) (use assms in \<open>auto simp: nth_list_update counts_nth less_Suc_eq_le\<close>)

lemma countint_counts: "countint key (counts ks) = Inr (counts (idx key @ ks), length (idx key))"
proof (cases "0 < arrayindex key \<and> arrayindex key \<le> int MAXASIZE")
  case True
  then obtain k where k: "key = KNum (Nint k)" "0 < k" "k \<le> int MAXASIZE" "arrayindex key = k"
    by (auto simp: arrayindex_def split: tkey.splits lnum.splits)
  have n: "0 < nat k" "nat k \<le> 2 ^ MAXBITS" "int (nat k) = k" using k by (auto simp: MAXASIZE_def)
  have "nat k < 2 ^ 32" using n(2) by (simp add: MAXBITS_def)
  from luaO_ceillog2_nat [OF n(1) this] have l: "luaO_ceillog2 (word_of_int k) = Inr (ceillog2 (nat k))" using n(3) by (metis of_int_of_nat_eq)
  have b: "ceillog2 (nat k) \<le> MAXBITS" using n by (simp add: ceillog2_le_iff)
  have "idx key = [nat k]" using k by (simp add: idx_def)
  then show ?thesis using True k l b counts_Cons [OF b, of ks] by (simp add: countint_def mem_get_ok mem_set_ok)
next
  case False
  then have "idx key = []" by (auto simp: arrayindex_def idx_def split: tkey.splits lnum.splits)
  then show ?thesis using False by (auto simp: countint_def Let_def)
qed

lemma numusehash_loop_counts:
  "numusehash_loop ns (counts ks) a u = Inr (counts (hidx (rev ns) @ ks), a + length (hidx (rev ns)), u + length (node_kvs ns))"
proof (induction ns arbitrary: ks a u)
  case (Cons n ns)
  then show ?case by (cases "n_val n") (simp_all add: countint_counts hidx_def)
qed (simp add: hidx_def)

lemma numusehash_counts:
  "numusehash t (counts ks) p = Inr (counts (hidx (node t) @ ks), p + length (hidx (node t)), length (node_kvs (node t)))"
  by (simp add: numusehash_def numusehash_loop_counts node_kvs_rev)

lemma idx_outside: "n \<le> MAXASIZE \<Longrightarrow> length (filter (\<lambda>k. k \<le> n) (idx key)) = (if beyond n key then 0 else 1)"
  by (auto simp: idx_def beyond_def split: tkey.splits lnum.splits)

lemma hidx_outside:
  "n \<le> MAXASIZE \<Longrightarrow> length (filter (\<lambda>k. k \<le> n) (hidx ns)) + length (filter (\<lambda>(k, v). beyond n k) (node_kvs ns)) = length (node_kvs ns)"
proof (induction ns)
  case (Cons m ns)
  then show ?case using idx_outside [of n "n_key m"] by (auto simp: hidx_def split: option.splits if_splits)
qed (simp add: hidx_def)

lemma length_arr_kvs: "length (arr_kvs i vs) = length (filter (\<lambda>v. v \<noteq> None) vs)"
  by (induction i vs rule: arr_kvs.induct) auto

lemma filter_upt_drop: "length (filter (\<lambda>k. a ! (k - 1) \<noteq> None) [n + 1..<length a + 1]) = length (filter (\<lambda>v. v \<noteq> None) (drop n a))"
proof -
  have "drop n a = map (\<lambda>k. a ! (k - 1)) [n + 1..<length a + 1]"
    by (rule nth_equalityI) (auto simp del: upt_Suc)
  then show ?thesis by (simp add: filter_map comp_def del: upt_Suc)
qed

lemma akeys_slice: "length (filter (\<lambda>k. k \<le> n) (akeys a)) + length (arr_kvs n (drop n a)) = length (akeys a)"
proof -
  have "filter (\<lambda>k. \<not> k \<le> n) (akeys a) = filter (\<lambda>k. a ! (k - 1) \<noteq> None) [n + 1..<length a + 1]"
  proof (cases "n \<le> length a")
    case True
    then have "[1..<length a + 1] = [1..<n + 1] @ [n + 1..<length a + 1]" using upt_add_eq_append [of 1 "n + 1" "length a - n"] by simp
    then have "filter (\<lambda>k. \<not> k \<le> n) (akeys a) = filter (\<lambda>k. a ! (k - 1) \<noteq> None \<and> \<not> k \<le> n) [n + 1..<length a + 1]"
      unfolding akeys_def by (auto simp: filter_empty_conv simp del: upt_Suc)
    then show ?thesis by (auto intro: filter_cong simp del: upt_Suc)
  next
    case False
    then show ?thesis by (auto simp: akeys_def filter_empty_conv simp del: upt_Suc)
  qed
  then show ?thesis using filter_upt_drop [of a n] sum_length_filter_compl [of "\<lambda>k. k \<le> n" "akeys a"] by (simp add: length_arr_kvs)
qed

text \<open>The slices of the array part.\<close>

definition slice_start :: "nat \<Rightarrow> nat" where
  "slice_start lg = (if lg = 0 then 1 else 2 ^ (lg - 1) + 1)"

lemma slice_start_Suc: "slice_start (Suc lg) = 2 ^ lg + 1"
  by (simp add: slice_start_def)

lemma ceillog2_slice: "0 < k \<Longrightarrow> ceillog2 k = lg \<longleftrightarrow> slice_start lg \<le> k \<and> k \<le> 2 ^ lg"
proof -
  assume k: "0 < k"
  have "ceillog2 k = lg \<longleftrightarrow> ceillog2 k \<le> lg \<and> \<not> (lg \<noteq> 0 \<and> ceillog2 k \<le> lg - 1)" by auto
  then show ?thesis using k by (auto simp: ceillog2_le_iff slice_start_def not_le)
qed

lemma akeys_filter_slice:
  "filter (\<lambda>k. ceillog2 k = lg) (akeys a) = filter (\<lambda>k. a ! (k - 1) \<noteq> None) [slice_start lg..<min (length a) (2 ^ lg) + 1]"
proof -
  have "filter (\<lambda>k. ceillog2 k = lg) [1..<length a + 1] = [slice_start lg..<min (length a) (2 ^ lg) + 1]"
  proof (rule sorted_distinct_set_unique)
    show "set (filter (\<lambda>k. ceillog2 k = lg) [1..<length a + 1]) = set [slice_start lg..<min (length a) (2 ^ lg) + 1]"
    proof (rule set_eqI)
      fix k
      have "1 \<le> slice_start lg" by (simp add: slice_start_def)
      then show "k \<in> set (filter (\<lambda>k. ceillog2 k = lg) [1..<length a + 1]) \<longleftrightarrow> k \<in> set [slice_start lg..<min (length a) (2 ^ lg) + 1]"
        using ceillog2_slice [of k lg] by (cases "0 < k") (auto simp del: upt_Suc)
    qed
  qed (auto intro: sorted_wrt_filter simp del: upt_Suc)
  then show ?thesis unfolding akeys_def by (metis (no_types, lifting) filter_filter filter_cong conj_commute)
qed

definition ause :: "'v option list \<Rightarrow> nat \<Rightarrow> nat" where
  "ause a lg = length (filter (\<lambda>k. lg \<le> ceillog2 k) (akeys a))"

lemma ause_Suc: "ause a lg = length (filter (\<lambda>k. ceillog2 k = lg) (akeys a)) + ause a (Suc lg)"
proof -
  have "length (filter (\<lambda>k. lg \<le> ceillog2 k) xs) = length (filter (\<lambda>k. ceillog2 k = lg) xs) + length (filter (\<lambda>k. Suc lg \<le> ceillog2 k) xs)" for xs
    by (induction xs) auto
  then show ?thesis by (simp add: ause_def)
qed

lemma ause_zero: "length a < slice_start lg \<Longrightarrow> ause a lg = 0"
proof -
  assume l: "length a < slice_start lg"
  have "\<not> lg \<le> ceillog2 k" if "k \<in> set (akeys a)" for k
  proof (cases lg)
    case 0
    then show ?thesis using that l by (simp add: akeys_def slice_start_def)
  next
    case (Suc m)
    then have "0 < k" "k \<le> 2 ^ m" using that l by (auto simp: akeys_def slice_start_def)
    then show ?thesis using ceillog2_le_iff [of k m] Suc by simp
  qed
  then show ?thesis by (simp add: ause_def filter_empty_conv)
qed

lemma slice_start_le: "slice_start lg \<le> 2 ^ lg"
  by (cases lg) (simp_all add: slice_start_def)

lemma numusearray_loop_counts:
  assumes len: "length a \<le> MAXASIZE" and lg: "lg \<le> MAXBITS + 1" and i: "i = min (slice_start lg) (length a + 1)"
    and nums: "length nums = MAXBITS + 1" "\<forall>j\<le>MAXBITS. nums ! j = (if j < lg then counts (akeys a) ! j else 0)"
  shows "numusearray_loop a [lg..<MAXBITS + 1] i nums u = Inr (counts (akeys a), u + ause a lg)"
  using lg i nums
proof (induction "MAXBITS + 1 - lg" arbitrary: lg i nums u)
  case 0
  then have "lg = MAXBITS + 1" by simp
  then have "nums = counts (akeys a)" using 0(4,5) by (intro nth_equalityI) (auto simp: less_Suc_eq_le)
  moreover have "ause a lg = 0" using len \<open>lg = MAXBITS + 1\<close> by (intro ause_zero) (simp add: slice_start_def MAXASIZE_def)
  ultimately show ?case using \<open>lg = MAXBITS + 1\<close> by simp
next
  case (Suc d)
  then have l: "lg \<le> MAXBITS" by simp
  have up: "[lg..<MAXBITS + 1] = lg # [lg + 1..<MAXBITS + 1]" using l by (simp add: upt_conv_Cons)
  let ?lim = "if 2 ^ lg > length a then length a else 2 ^ lg"
  have lim: "?lim = min (length a) (2 ^ lg)" by simp
  show ?case
  proof (cases "2 ^ lg > length a \<and> i > ?lim")
    case True
    then have t: "length a < 2 ^ lg" "length a < i" by (auto split: if_splits)
    then have u: "ause a lg = 0" using Suc.prems(2) by (intro ause_zero) auto
    then have z: "length (filter (\<lambda>k. ceillog2 k = j) (akeys a)) = 0" if "lg \<le> j" for j
      using that by (auto simp: ause_def filter_empty_conv)
    then have "nums = counts (akeys a)" using Suc.prems(3,4) by (intro nth_equalityI) (auto simp: less_Suc_eq_le counts_nth)
    then show ?thesis using u t unfolding up by (simp add: Let_def del: upt_Suc)
  next
    case False
    let ?lc = "length (filter (\<lambda>k. a ! (k - 1) \<noteq> None) [i..<?lim + 1])"
    have lc: "?lc = length (filter (\<lambda>k. ceillog2 k = lg) (akeys a))"
      using Suc.prems(2) unfolding lim akeys_filter_slice by (cases "slice_start lg \<le> length a + 1") auto
    have il: "i \<le> ?lim" using False Suc.prems(2) slice_start_le [of lg] by (auto split: if_splits)
    have "numusearray_loop a [lg + 1..<MAXBITS + 1] (if i \<le> ?lim then ?lim + 1 else i) (nums[lg := nums ! lg + ?lc]) (u + ?lc)
      = Inr (counts (akeys a), u + ?lc + ause a (lg + 1))"
    proof (rule Suc.hyps(1))
      show "(if i \<le> ?lim then ?lim + 1 else i) = min (slice_start (lg + 1)) (length a + 1)" using il by (simp add: slice_start_Suc)
      show "\<forall>j\<le>MAXBITS. nums[lg := nums ! lg + ?lc] ! j = (if j < lg + 1 then counts (akeys a) ! j else 0)"
        using Suc.prems(3,4) l lc counts_nth [OF l, of "akeys a"] by (auto simp: nth_list_update)
    qed (use Suc.prems Suc.hyps(2) l in auto)
    then show ?thesis using False l Suc.prems(3) lc ause_Suc [of a lg] unfolding up by (simp add: Let_def mem_get_ok mem_set_ok del: upt_Suc)
  qed
qed

lemma numusearray_counts:
  assumes "length (array t) \<le> MAXASIZE"
  shows "numusearray t (counts []) = Inr (counts (akeys (array t)), length (akeys (array t)))"
proof -
  have "ause (array t) 0 = length (akeys (array t))" by (simp add: ause_def)
  then show ?thesis using numusearray_loop_counts [OF assms, of 0 1 "counts []" 0]
    by (simp add: numusearray_def slice_start_def counts_nth del: upt_Suc)
qed

section \<open>The size of the array part\<close>

text \<open>The number of the keys up to \<open>n\<close>, and what a size must satisfy: more than half of its slots are in use.\<close>

definition keys_upto :: "nat list \<Rightarrow> nat \<Rightarrow> nat" where
  "keys_upto ks n = length (filter (\<lambda>k. k \<le> n) ks)"

definition index_keys :: "nat list \<Rightarrow> bool" where
  "index_keys ks \<longleftrightarrow> distinct ks \<and> (\<forall>k\<in>set ks. 0 < k \<and> k \<le> MAXASIZE)"

lemma keys_upto_le: "distinct ks \<Longrightarrow> \<forall>k\<in>set ks. 0 < k \<Longrightarrow> keys_upto ks n \<le> n"
proof -
  assume d: "distinct ks" "\<forall>k\<in>set ks. 0 < k"
  have "keys_upto ks n = card (set (filter (\<lambda>k. k \<le> n) ks))" by (simp add: keys_upto_def distinct_card [OF distinct_filter [OF d(1)], symmetric] del: set_filter)
  also have "\<dots> \<le> card {1..n}" using d(2) by (intro card_mono) auto
  finally show ?thesis by simp
qed

lemma keys_upto_mono: "m \<le> n \<Longrightarrow> keys_upto ks m \<le> keys_upto ks n"
  by (induction ks) (auto simp: keys_upto_def)

lemma keys_upto_total: "keys_upto ks n \<le> length ks"
  by (simp add: keys_upto_def)

lemma keys_upto_Suc:
  assumes "\<forall>k\<in>set ks. 0 < k"
  shows "length (filter (\<lambda>k. ceillog2 k < i) ks) + length (filter (\<lambda>k. ceillog2 k = i) ks) = keys_upto ks (2 ^ i)"
proof -
  have "length (filter (\<lambda>k. ceillog2 k < i) ks) + length (filter (\<lambda>k. ceillog2 k = i) ks) = length (filter (\<lambda>k. ceillog2 k \<le> i) ks)"
    by (induction ks) auto
  also have "filter (\<lambda>k. ceillog2 k \<le> i) ks = filter (\<lambda>k. k \<le> 2 ^ i) ks" using assms by (auto intro: filter_cong simp: ceillog2_le_iff)
  finally show ?thesis by (simp add: keys_upto_def)
qed

text \<open>The best size among the powers below \<open>2 ^ i\<close>.\<close>

definition best_below :: "nat list \<Rightarrow> nat \<Rightarrow> nat \<Rightarrow> bool" where
  "best_below ks i n \<longleftrightarrow> (n = 0 \<or> (\<exists>j<i. n = 2 ^ j \<and> n < 2 * keys_upto ks n)) \<and> (\<forall>j<i. n < 2 ^ j \<longrightarrow> 2 * keys_upto ks (2 ^ j) \<le> 2 ^ j)"

definition best_size :: "nat list \<Rightarrow> nat \<Rightarrow> bool" where
  "best_size ks n \<longleftrightarrow> (n = 0 \<or> (\<exists>j\<le>MAXBITS. n = 2 ^ j \<and> n < 2 * keys_upto ks n)) \<and> (\<forall>j. n < 2 ^ j \<longrightarrow> 2 * keys_upto ks (2 ^ j) \<le> 2 ^ j)"

lemma best_belowE: "best_below ks i n \<Longrightarrow> i \<le> MAXBITS + 1 \<Longrightarrow> (\<And>j. i \<le> j \<Longrightarrow> 2 * keys_upto ks (2 ^ j) \<le> 2 ^ j) \<Longrightarrow> best_size ks n"
proof -
  assume b: "best_below ks i n" "i \<le> MAXBITS + 1" "\<And>j. i \<le> j \<Longrightarrow> 2 * keys_upto ks (2 ^ j) \<le> 2 ^ j"
  have "n = 0 \<or> (\<exists>j\<le>MAXBITS. n = 2 ^ j \<and> n < 2 * keys_upto ks n)" using b(1,2) by (auto simp: best_below_def less_Suc_eq_le dest: less_le_trans)
  moreover have "2 * keys_upto ks (2 ^ j) \<le> 2 ^ j" if "n < 2 ^ j" for j
    using b(1) b(3) [of j] that by (cases "j < i") (auto simp: best_below_def)
  ultimately show ?thesis by (simp add: best_size_def)
qed

lemma best_below_step:
  assumes "best_below ks i n" "n' = 2 ^ i \<and> 2 ^ i < 2 * keys_upto ks (2 ^ i) \<or> n' = n \<and> 2 * keys_upto ks (2 ^ i) \<le> 2 ^ i"
  shows "best_below ks (i + 1) n'"
  using assms(2)
proof
  assume n: "n' = 2 ^ i \<and> 2 ^ i < 2 * keys_upto ks (2 ^ i)"
  have "\<not> 2 ^ i < (2 :: nat) ^ j" if "j < i + 1" for j using that by simp
  then show ?thesis unfolding best_below_def using n by (intro conjI disjI2 exI [of _ i]) auto
next
  assume "n' = n \<and> 2 * keys_upto ks (2 ^ i) \<le> 2 ^ i"
  then show ?thesis using assms(1) by (auto simp: best_below_def less_Suc_eq)
qed

lemma small_above:
  assumes "length ks \<le> 2 ^ l" "l < j" shows "2 * keys_upto ks (2 ^ j) \<le> 2 ^ j"
proof -
  have "keys_upto ks (2 ^ j) \<le> 2 ^ l" using assms(1) keys_upto_total [of ks "2 ^ j"] by simp
  moreover have "(2 :: nat) * 2 ^ l \<le> 2 ^ j" using assms(2) by (metis Suc_leI power_Suc power_increasing one_le_numeral)
  ultimately show ?thesis by linarith
qed

text \<open>A slice without keys does not make the array part worth its size.\<close>

lemma empty_slice:
  assumes ks: "index_keys ks" and i: "i \<le> MAXBITS" "counts ks ! i = 0" shows "2 * keys_upto ks (2 ^ i) \<le> 2 ^ i"
proof -
  have pos: "\<forall>k\<in>set ks. 0 < k" and d: "distinct ks" using ks by (auto simp: index_keys_def)
  have e: "keys_upto ks (2 ^ i) = length (filter (\<lambda>k. ceillog2 k < i) ks)" using keys_upto_Suc [OF pos, of i] counts_nth [OF i(1), of ks] i(2) by simp
  show ?thesis
  proof (cases i)
    case (Suc l)
    have "\<forall>k\<in>set ks. ceillog2 k < i \<longleftrightarrow> k \<le> 2 ^ l" using pos ceillog2_le_iff [of _ l] Suc by (auto simp: less_Suc_eq_le)
    then have "filter (\<lambda>k. ceillog2 k < i) ks = filter (\<lambda>k. k \<le> 2 ^ l) ks" by (auto intro: filter_cong)
    then have "keys_upto ks (2 ^ i) = keys_upto ks (2 ^ l)" using e by (simp add: keys_upto_def)
    then show ?thesis using keys_upto_le [OF d pos, of "2 ^ l"] Suc by simp
  qed (use e in simp)
qed

lemma computesizes_loop_ok:
  assumes ks: "index_keys ks" and i: "i \<le> MAXBITS + 1" and a: "a = length (filter (\<lambda>k. ceillog2 k < i) ks)"
    and b: "best_below ks i n" "na = keys_upto ks n"
  shows "\<exists>m. computesizes_loop (counts ks) (length ks) i a na n = Inr (m, keys_upto ks m) \<and> best_size ks m"
  using i a b
proof (induction "MAXBITS + 1 - i" arbitrary: i a na n rule: less_induct)
  case (less i a na n)
  have pos: "\<forall>k\<in>set ks. 0 < k" and d: "distinct ks" using ks by (auto simp: index_keys_def)
  have le: "keys_upto ks m \<le> m" for m by (rule keys_upto_le [OF d pos])
  have all: "keys_upto ks MAXASIZE = length ks" using ks by (simp add: keys_upto_def index_keys_def)
  note eq = computesizes_loop.simps [of "counts ks" "length ks" i a na n]
  show ?case
  proof (cases "2 ^ i div 2 < length ks")
    case False
    have "2 * keys_upto ks (2 ^ j) \<le> 2 ^ j" if j: "i \<le> j" for j
    proof (cases i)
      case 0
      then have "ks = []" using False by auto
      then show ?thesis by (simp add: keys_upto_def)
    next
      case (Suc l)
      then show ?thesis using small_above [of ks l j] False j by simp
    qed
    then have "best_size ks n" by (rule best_belowE [OF less.prems(3,1)])
    then show ?thesis using False less.prems(4) eq by auto
  next
    case True
    have il: "i \<le> MAXBITS"
    proof (rule ccontr)
      assume "\<not> i \<le> MAXBITS"
      then have "i = MAXBITS + 1" using less.prems(1) by simp
      then show False using True le [of MAXASIZE] all by (simp add: MAXASIZE_def)
    qed
    let ?c = "counts ks ! i" let ?a = "a + ?c"
    have ac: "?a = keys_upto ks (2 ^ i)" using keys_upto_Suc [OF pos, of i] less.prems(2) counts_nth [OF il, of ks] by simp
    obtain na' n' where nn: "(na', n') = (if ?c > 0 \<and> ?a > 2 ^ i div 2 then (?a, 2 ^ i) else (na, n))" by (metis surj_pair)
    have na': "na' = keys_upto ks n'" using nn ac less.prems(4) by (auto split: if_splits)
    have bb: "best_below ks (i + 1) n'"
    proof (rule best_below_step [OF less.prems(3)])
      show "n' = 2 ^ i \<and> 2 ^ i < 2 * keys_upto ks (2 ^ i) \<or> n' = n \<and> 2 * keys_upto ks (2 ^ i) \<le> 2 ^ i"
      proof (cases "?c > 0 \<and> ?a > 2 ^ i div 2")
        case c: True
        then show ?thesis using nn ac by auto
      next
        case c: False
        then have "2 * keys_upto ks (2 ^ i) \<le> 2 ^ i" using ac empty_slice [OF ks il] by (cases "?c = 0") auto
        then show ?thesis using c nn by auto
      qed
    qed
    show ?thesis
    proof (cases "?a = length ks")
      case t: True
      have "2 * keys_upto ks (2 ^ j) \<le> 2 ^ j" if j: "i + 1 \<le> j" for j
        using small_above [of ks i j] t ac le [of "2 ^ i"] j by simp
      then have "best_size ks n'" by (intro best_belowE [OF bb]) (use il in simp)
      moreover have "computesizes_loop (counts ks) (length ks) i a na n = Inr (n', na')"
        using True t il nn by (subst eq) (auto simp: mem_get_ok Let_def split: if_splits)
      ultimately show ?thesis using na' by auto
    next
      case t: False
      have "computesizes_loop (counts ks) (length ks) i a na n = computesizes_loop (counts ks) (length ks) (i + 1) ?a na' n'"
        using True t il nn by (subst eq) (auto simp: mem_get_ok Let_def split: if_splits)
      moreover have "\<exists>m. computesizes_loop (counts ks) (length ks) (i + 1) ?a na' n' = Inr (m, keys_upto ks m) \<and> best_size ks m"
      proof (rule less.hyps)
        have "ceillog2 k < i + 1 \<longleftrightarrow> k \<le> 2 ^ i" if "k \<in> set ks" for k using pos that ceillog2_le_iff [of k i] by (auto simp: less_Suc_eq_le)
        then show "?a = length (filter (\<lambda>k. ceillog2 k < i + 1) ks)" unfolding ac keys_upto_def by (metis (mono_tags, lifting) filter_cong)
      qed (use il bb na' in auto)
      ultimately show ?thesis by simp
    qed
  qed
qed

lemma computesizes_ok:
  assumes ks: "index_keys ks"
  shows "\<exists>m. computesizes (counts ks) (length ks) = Inr (m, keys_upto ks m) \<and> best_size ks m"
proof -
  have "keys_upto ks 0 = 0" using keys_upto_le [of ks 0] ks by (simp add: index_keys_def)
  then show ?thesis unfolding computesizes_def by (intro computesizes_loop_ok [OF ks]) (auto simp: best_below_def)
qed

section \<open>Rehashing keeps all entries and makes room\<close>

definition all_keys :: "'v Table \<Rightarrow> tkey \<Rightarrow> nat list" where
  "all_keys t ek = idx ek @ hidx (node t) @ akeys (array t)"

lemma akeys_mem: "k \<in> set (akeys a) \<Longrightarrow> 0 < k \<and> k \<le> length a"
  by (auto simp: akeys_def simp del: upt_Suc)

lemma idx_mem: "k \<in> set (idx key) \<longleftrightarrow> key = KNum (Nint (int k)) \<and> 0 < k \<and> k \<le> MAXASIZE"
  by (auto simp: idx_def split: tkey.splits lnum.splits)

lemma idx_distinct: "distinct (idx key)"
  by (auto simp: idx_def split: tkey.splits lnum.splits)

lemma hidx_nth: "k \<in> set (hidx ns) \<longleftrightarrow> (\<exists>i<length ns. n_val (ns ! i) \<noteq> None \<and> k \<in> set (idx (nkey ns i)))"
proof -
  have "k \<in> set (hidx ns) \<longleftrightarrow> (\<exists>n. n \<in> set ns \<and> n_val n \<noteq> None \<and> k \<in> set (idx (n_key n)))" by (auto simp: hidx_def)
  then show ?thesis unfolding in_set_conv_nth [of _ ns] by blast
qed

lemma hidx_distinct: "keys_ok ns \<Longrightarrow> distinct (hidx ns)"
proof -
  assume K: "keys_ok ns"
  have "unequal (node_kvs ns) \<Longrightarrow> distinct (hidx ns)"
  proof (induction ns)
    case (Cons n ns)
    show ?case
    proof (cases "n_val n")
      case None
      then show ?thesis using Cons by (simp add: hidx_def)
    next
      case (Some v)
      then have u: "unequal (node_kvs ns)" "\<And>k w. (k, w) \<in> set (node_kvs ns) \<Longrightarrow> \<not> luaV_rawequalobj (n_key n) k"
        using Cons.prems by (force simp: unequal_Cons)+
      have "k \<notin> set (hidx ns)" if "k \<in> set (idx (n_key n))" for k
      proof
        assume "k \<in> set (hidx ns)"
        then obtain i w where "i < length ns" "n_val (ns ! i) = Some w" "k \<in> set (idx (nkey ns i))" unfolding hidx_nth by auto
        moreover have "nkey ns i = n_key n" using calculation(3) that by (simp add: idx_mem)
        ultimately have "(n_key n, w) \<in> set (node_kvs ns)" unfolding node_kvs_nth by blast
        then show False using u(2) [of "n_key n" w] that by (auto simp: idx_mem numeq_def)
      qed
      then show ?thesis using Cons.IH [OF u(1)] Some idx_distinct [of "n_key n"] by (auto simp: hidx_def)
    qed
  qed (simp add: hidx_def)
  then show ?thesis using node_kvs_nth_unequal [OF K] by simp
qed

lemma all_keys_index:
  assumes T: "table_ok H t" and ek: "absent (node t) ek" "\<not> in_array t ek" shows "index_keys (all_keys t ek)"
proof -
  obtain C where C: "hash_ok H (node t) C" using T by (auto simp: table_ok_def)
  have la: "length (array t) \<le> MAXASIZE" using T by (simp add: table_ok_def)
  have ia: "in_array t (KNum (Nint (int k)))" if "k \<in> set (akeys (array t))" for k
    using akeys_mem [OF that] by (simp add: in_array_def)
  have e1: "k \<notin> set (akeys (array t))" if "k \<in> set (idx ek)" for k using that ek(2) ia by (auto simp: idx_mem)
  have e2: "k \<notin> set (hidx (node t))" if "k \<in> set (idx ek)" for k
    using that ek(1) by (auto simp: idx_mem hidx_nth absent_def numeq_def)
  have e3: "k \<notin> set (akeys (array t))" if "k \<in> set (hidx (node t))" for k
    using that ia T by (auto simp: idx_mem hidx_nth table_ok_def)
  have "distinct (akeys (array t))" by (simp add: akeys_def del: upt_Suc)
  then have "distinct (all_keys t ek)"
    using hidx_distinct [OF hash_okD(4) [OF C]] idx_distinct [of ek] e1 e2 e3 by (auto simp: all_keys_def)
  moreover have "0 < k \<and> k \<le> MAXASIZE" if "k \<in> set (all_keys t ek)" for k
    using that la akeys_mem [of k "array t"] by (auto simp: all_keys_def idx_mem hidx_nth)
  ultimately show ?thesis by (simp add: index_keys_def)
qed

lemma length_akeys: "length (akeys a) = length (arr_kvs 0 a)"
  using akeys_slice [of 0 a] akeys_mem [of _ a] by (auto simp: filter_empty_conv)

lemma length_node_kvs: "length (node_kvs ns) \<le> length ns"
  by (induction ns) (auto split: option.splits)

lemma rehash_sizes:
  assumes m: "m \<le> MAXASIZE"
  shows "length (akeys (array t)) + length (node_kvs (node t)) + 1 - keys_upto (all_keys t ek) m =
    length (arr_kvs m (drop m (array t))) + length (filter (\<lambda>(k, v). beyond m k) (node_kvs (node t))) + (if beyond m ek then 1 else 0)"
  using idx_outside [OF m, of ek] hidx_outside [OF m, of "node t"] akeys_slice [of m "array t"]
  by (auto simp: keys_upto_def all_keys_def)

lemma best_size_le: "best_size ks n \<Longrightarrow> n \<le> MAXASIZE"
  by (auto simp: best_size_def MAXASIZE_def)

lemma rehash_resize:
  assumes T: "table_ok H t" and ek: "absent (node t) ek" "\<not> in_array t ek"
  obtains m where "best_size (all_keys t ek) m"
    "rehash_with nk H t ek = resize_with nk H m (length (akeys (array t)) + length (node_kvs (node t)) + 1 - keys_upto (all_keys t ek) m) t"
proof -
  have la: "length (array t) \<le> MAXASIZE" using T by (simp add: table_ok_def)
  from computesizes_ok [OF all_keys_index [OF T ek]] obtain m where m: "best_size (all_keys t ek) m"
    "computesizes (counts (all_keys t ek)) (length (all_keys t ek)) = Inr (m, keys_upto (all_keys t ek) m)" by blast
  have "rehash_with nk H t ek = resize_with nk H m (length (akeys (array t)) + length (node_kvs (node t)) + 1 - keys_upto (all_keys t ek) m) t"
    unfolding rehash_with_def counts_zero numusearray_counts [OF la]
    using m(2) by (simp add: numusehash_counts countint_counts all_keys_def add.commute add.left_commute)
  with m(1) show ?thesis by (rule that)
qed

lemma rehash_ok:
  assumes T: "table_ok H t" and ek: "absent (node t) ek" "\<not> in_array t ek"
  shows "2 ^ MAXBITS \<le> length (entries t) \<and> rehash_with (newkey_with grow H) H t ek = Inl (Lua_error ''table overflow'') \<or>
     (\<exists>t'. rehash_with (newkey_with grow H) H t ek = Inr t' \<and> table_ok H t' \<and> room t' ek \<and> (\<forall>k w. valid_key k \<longrightarrow> has t' k w \<longleftrightarrow> has t k w))"
proof -
  obtain m where m: "best_size (all_keys t ek) m" and
    eq: "rehash_with (newkey_with grow H) H t ek = resize_with (newkey_with grow H) H m
      (length (akeys (array t)) + length (node_kvs (node t)) + 1 - keys_upto (all_keys t ek) m) t"
    using rehash_resize [OF T ek] by blast
  have ml: "m \<le> MAXASIZE" by (rule best_size_le [OF m])
  let ?c = "length (arr_kvs m (drop m (array t))) + length (filter (\<lambda>(k, v). beyond m k) (node_kvs (node t)))"
  let ?nh = "?c + (if beyond m ek then 1 else 0)"
  note nh = rehash_sizes [OF ml, of t ek]
  have le: "?nh \<le> length (entries t) + 1" using nh by (simp add: entries_def length_akeys)
  have "length (akeys (array t)) \<le> 2 ^ 30" "length (node_kvs (node t)) \<le> 2 ^ 30"
    using T length_node_kvs [of "node t"] power_increasing [of "lsizenode t" 30 "2 :: nat"] length_filter_le [of _ "[1..<length (array t) + 1]"]
    by (auto simp: table_ok_def MAXASIZE_def MAXBITS_def sizenode_def akeys_def intro: order_trans simp del: upt_Suc)
  then have lt: "?nh < 2 ^ 32" unfolding nh [symmetric] by simp
  show ?thesis
  proof (cases "?nh \<le> 2 ^ MAXBITS")
    case True
    from resize_ok(2) [OF T ml lt _ True, of grow] obtain t' where t': "resize_with (newkey_with grow H) H m ?nh t = Inr t'"
      "table_ok H t'" "length (array t') = m" "isdummy t' = (?nh = 0)" "?nh \<le> length (node t')" "card (used (node t')) \<le> ?c"
      "\<forall>k w. valid_key k \<longrightarrow> has t' k w \<longleftrightarrow> has t k w" by auto
    have "room t' ek" using t'(3-6) by (auto simp: room_def in_array_outside split: if_splits)
    then show ?thesis using t' unfolding eq nh by auto
  next
    case False
    then have "resize_with (newkey_with grow H) H m ?nh t = Inl (Lua_error ''table overflow'')" by (intro resize_ok(1) [OF T ml lt]) auto
    then show ?thesis using False le unfolding eq nh by auto
  qed
qed

section \<open>Properties\<close>

text \<open>
  C25. \<open>luaO_ceillog2\<close>, which works with a table of 256 bytes and shifts by eight, computes the
  logarithm rounded up, for every 32-bit number but 0.
\<close>

theorem luaO_ceillog2_correct:
  assumes "x \<noteq> 0" shows "luaO_ceillog2 x = Inr (ceillog2 (unat x))"
proof -
  have "0 < unat x" using assms by (simp add: unat_gt_0)
  moreover have "unat x < 2 ^ 32" using unsigned_less [of x] by simp
  ultimately show ?thesis using luaO_ceillog2_nat [of "unat x"] by simp
qed

theorem luaO_ceillog2_correct_witness: "luaO_ceillog2 1000 = Inr 10"
proof -
  have "ceillog2 1000 = 10" by code_simp
  then show ?thesis using luaO_ceillog2_correct [of 1000] by simp
qed

text \<open>
  C23. \<open>computesizes\<close>: given the numbers of integer keys in the slices between powers of two, the
  chosen size of the array part is 0 or a power of two up to \<open>2^30\<close> of which more than half the
  slots will be in use, every larger power of two would be at most half full, and the number that
  comes with it counts the keys that go to the array part.
\<close>

theorem computesizes_optimal:
  assumes "distinct ks" and "\<forall>k\<in>set ks. 0 < k \<and> k \<le> MAXASIZE"
  shows "\<exists>n na. computesizes (counts ks) (length ks) = Inr (n, na) \<and> na = length (filter (\<lambda>k. k \<le> n) ks) \<and>
     (n = 0 \<or> (\<exists>j\<le>MAXBITS. n = 2 ^ j \<and> n < 2 * na)) \<and>
     (\<forall>j. n < 2 ^ j \<longrightarrow> 2 * length (filter (\<lambda>k. k \<le> 2 ^ j) ks) \<le> 2 ^ j)"
proof -
  have "index_keys ks" using assms by (simp add: index_keys_def)
  from computesizes_ok [OF this] show ?thesis unfolding best_size_def keys_upto_def by blast
qed

theorem computesizes_optimal_witness:
  "\<exists>n na. computesizes (counts [1, 2, 3, 5, 40]) 5 = Inr (n, na) \<and> na = length (filter (\<lambda>k. k \<le> n) [1, 2, 3, 5, 40]) \<and>
     (n = 0 \<or> (\<exists>j\<le>MAXBITS. n = 2 ^ j \<and> n < 2 * na))"
proof -
  have "distinct [1, 2, 3, 5, 40 :: nat]" "\<forall>k\<in>set [1, 2, 3, 5, 40]. 0 < k \<and> k \<le> MAXASIZE" by (simp_all add: MAXASIZE_def MAXBITS_def)
  moreover have "length [1, 2, 3, 5, 40 :: nat] = 5" by simp
  ultimately show ?thesis using computesizes_optimal [of "[1, 2, 3, 5, 40]"] by metis
qed

end
