(* ===== verification/LuaMap.thy ===== *)
theory LuaMap
  imports LuaRehash
begin

text \<open>
  Lua's tables as maps: setting a value in any table, the traversal by the collector, reserving
  space, and the refinement of a map through all histories of these operations.
\<close>

section \<open>Setting a value in any table\<close>

lemma newkey_result:
  assumes T: "table_ok H t" and k: "valid_key k" "absent (node t) k" "\<not> in_array t k"
  shows "(\<exists>r. newkey_with grow H t k = Inr r \<and> key_added H t k r) \<or>
     newkey_with grow H t k = grow (t\<lparr>lastfree := 0\<rparr>) k \<and> table_ok H (t\<lparr>lastfree := 0\<rparr>)"
proof -
  obtain C where C: "hash_ok H (node t) C" and sz: "sizenode t = length (node t)" using T by (auto simp: table_ok_def)
  have m: "mainposition H (sizenode t) k < length (node t)" using main_less [OF C] sz by simp
  have n: "normal k" "key_wf k" "k \<noteq> KNil" "k \<noteq> KNum Nnan" using k(1) by (auto simp: valid_key_def normal_def)
  consider "isdummy t" | "\<not> isdummy t" "n_val (node t ! mainposition H (sizenode t) k) = None" |
    "\<not> isdummy t" "n_val (node t ! mainposition H (sizenode t) k) \<noteq> None" by blast
  then show ?thesis
  proof cases
    case 1
    then have l: "lastfree t = 0" "getfreepos t = Inr (t\<lparr>lastfree := 0\<rparr>, None)" using T by (auto simp: table_ok_def getfreepos_def)
    then have "t\<lparr>lastfree := 0\<rparr> = t" by (cases t) simp
    then show ?thesis using T 1 n m l(2) by (simp add: newkey_with_def mem_get_ok Let_def)
  next
    case 2
    then show ?thesis using newkey_main [OF T 2(1) n(1,2) k(2,3) 2(2)] by blast
  next
    case 3
    from getfreepos_result [OF T 3(1)] show ?thesis
    proof (elim disjE exE conjE)
      fix i assume "i < length (node t)" "nkey (node t) i = KNil" "\<forall>j<length (node t). i < j \<longrightarrow> nkey (node t) j \<noteq> KNil"
        "getfreepos t = Inr (t\<lparr>lastfree := i\<rparr>, Some i)"
      from newkey_collision [OF T 3(1) n(1,2) k(2,3) 3(2) this] show ?thesis by blast
    next
      assume u: "used (node t) = {..<length (node t)}" "getfreepos t = Inr (t\<lparr>lastfree := 0\<rparr>, None)"
      have "nkey (node t) i \<noteq> KNil" if "i < length (node t)" for i using u(1) that by (auto simp: used_def)
      then have "table_ok H (t\<lparr>lastfree := 0\<rparr>)" using T 3(1) by (auto simp: table_ok_def in_array_def sizenode_def)
      then show ?thesis using 3 n m u(2) by (simp add: newkey_with_def mem_get_ok Let_def)
    qed
  qed
qed

abbreviation grow1 :: "hashing \<Rightarrow> 'v Table \<Rightarrow> tkey \<Rightarrow> ('v Table \<times> tslot) res" where
  "grow1 H \<equiv> \<lambda>t key. res_bind (rehash_with (luaH_newkey_n 0 H) H t key) (\<lambda>t. set_with (luaH_newkey_n 0 H) H t key)"

lemma luaH_newkey_eq: "luaH_newkey H = newkey_with (grow1 H) H" "luaH_newkey_n 0 H = newkey_with (\<lambda>_ _. Inl Out_of_fuel) H"
  by (rule ext, rule ext, simp add: luaH_newkey_def) (rule ext, rule ext, simp)

definition table_set :: "hashing \<Rightarrow> 'v Table \<Rightarrow> tkey \<Rightarrow> 'v option \<Rightarrow> 'v Table res" where
  "table_set H t k v = res_bind (luaH_set H t k) (\<lambda>(t, s). set_slot t s v)"

lemma table_set_then: "table_set H t k v = set_then (luaH_newkey H) H t k v" "luaH_setint H t i v = table_set H t (KNum (Nint i)) v"
  by (simp_all add: table_set_def luaH_set_def set_then_def luaH_setint_def setint_with_then)

lemma has_lastfree: "in_array (t\<lparr>lastfree := l\<rparr>) k = in_array t k" "has (t\<lparr>lastfree := l\<rparr>) k w = has t k w"
  "entries (t\<lparr>lastfree := l\<rparr>) = entries t"
proof -
  show i: "in_array (t\<lparr>lastfree := l\<rparr>) k = in_array t k" by (simp add: in_array_def)
  show "has (t\<lparr>lastfree := l\<rparr>) k w = has t k w" "entries (t\<lparr>lastfree := l\<rparr>) = entries t" by (simp_all add: has_def i entries_def)
qed

lemma table_set_ok:
  assumes T: "table_ok H t" and k: "valid_key k"
  shows "2 ^ MAXBITS \<le> length (entries t) \<and> table_set H t k v = Inl (Lua_error ''table overflow'') \<or>
     (\<exists>t'. table_set H t k v = Inr t' \<and> stored H t k v t')"
proof (cases "in_array t k \<or> \<not> absent (node t) k")
  case True
  then have "room t k" by (auto simp: room_def)
  then show ?thesis using set_then_ok [OF T k, of "grow1 H" v] by (auto simp: table_set_then luaH_newkey_eq(1))
next
  case False
  then have k': "absent (node t) k" "\<not> in_array t k" by auto
  let ?t = "t\<lparr>lastfree := 0\<rparr>"
  from newkey_result [OF T k k', of "grow1 H"] show ?thesis
  proof (elim disjE exE conjE)
    fix r assume r: "newkey_with (grow1 H) H t k = Inr r" "key_added H t k r"
    obtain t1 s where "r = (t1, s)" by force
    with r set_then_added [OF T k k', of "newkey_with (grow1 H) H" t1 s v] show ?thesis by (auto simp: table_set_then luaH_newkey_eq(1))
  next
    assume g: "newkey_with (grow1 H) H t k = grow1 H ?t k" and T0: "table_ok H ?t"
    have "luaH_get H t k = Inr S_nilobject" by (rule luaH_get_cases(3) [OF T k k'(2,1)])
    then have eq: "table_set H t k v = res_bind (rehash_with (luaH_newkey_n 0 H) H ?t k) (\<lambda>t. set_then (luaH_newkey_n 0 H) H t k v)"
      unfolding table_set_then luaH_newkey_eq(1) set_then_def using g by (simp add: set_with_def [of "newkey_with (grow1 H) H"] res_bind_assoc)
    have k0: "absent (node ?t) k" "\<not> in_array ?t k" using k' by (simp_all add: has_lastfree)
    from rehash_ok [OF T0 k0, of "\<lambda>_ _. Inl Out_of_fuel"] show ?thesis
    proof (elim disjE exE conjE)
      fix t1 assume t1: "rehash_with (newkey_with (\<lambda>_ _. Inl Out_of_fuel) H) H ?t k = Inr t1" "table_ok H t1" "room t1 k"
        "\<forall>k w. valid_key k \<longrightarrow> has t1 k w = has ?t k w"
      from set_then_ok [OF t1(2) k t1(3), of "\<lambda>_ _. Inl Out_of_fuel" v] obtain t2 where
        t2: "set_then (newkey_with (\<lambda>_ _. Inl Out_of_fuel) H) H t1 k v = Inr t2" "stored H t1 k v t2" by blast
      have "stored H t k v t2" using t2(2) t1(4) by (simp add: stored_def has_lastfree)
      then show ?thesis using t1(1) t2(1) unfolding eq luaH_newkey_eq(2) by simp
    qed (simp add: eq has_lastfree luaH_newkey_eq(2))
  qed
qed

section \<open>Collecting and reserving\<close>

lemma removeentry_simps [simp]:
  "n_val (removeentry w n) = n_val n" "n_next (removeentry w n) = n_next n"
  "n_key (removeentry w n) = KNil \<longleftrightarrow> n_key n = KNil" "n_key (removeentry w n) = n_key n \<or> dead (n_key (removeentry w n))"
  by (auto simp: removeentry_def gcvalue_def split: tkey.splits)

lemma collect_nth:
  fixes ns :: "'v Node list" and w :: "nat \<Rightarrow> bool"
  assumes "i < length ns"
  defines "ns' \<equiv> map (\<lambda>n. if n_val n = None then removeentry w n else n) ns"
  shows "n_val (ns' ! i) = n_val (ns ! i)" "n_next (ns' ! i) = n_next (ns ! i)" "nkey ns' i = KNil \<longleftrightarrow> nkey ns i = KNil"
    "nkey ns' i = nkey ns i \<or> dead (nkey ns' i) \<and> n_val (ns ! i) = None"
  using assms removeentry_simps(4) [of w "ns ! i"] by auto

lemma hash_ok_collect:
  fixes ns :: "'v Node list" and w :: "nat \<Rightarrow> bool"
  assumes H: "hash_ok H ns C"
  defines "ns' \<equiv> map (\<lambda>n. if n_val n = None then removeentry w n else n) ns"
  shows "hash_ok H ns' C"
proof -
  note D = hash_okD [OF H]
  have len: "length ns' = length ns" by (simp add: ns'_def)
  note c = collect_nth [of _ ns w, folded ns'_def]
  have nk: "nkey ns' i = nkey ns i" if "i < length ns" "normal (nkey ns' i)" for i
    using c(4) [OF that(1)] that(2) by (auto simp: normal_def)
  have in_C: "x < length ns" if "xs \<in> C" "x \<in> set xs" for xs x using chainsD(3) [OF D(1) that(1)] that(2) by auto
  have lk: "linked ns' xs = linked ns xs" if "xs \<in> C" for xs by (rule linked_cong) (rule c(2) [OF in_C [OF that]])
  have "chains_ok ns' C" unfolding chains_ok_def
  proof (intro conjI)
    show "\<forall>xs\<in>C. distinct xs \<and> linked ns' xs" using D(1) lk by (auto simp: chains_ok_def)
    show "\<forall>xs\<in>C. \<forall>ys\<in>C. xs \<noteq> ys \<longrightarrow> set xs \<inter> set ys = {}" using D(1) by (auto simp: chains_ok_def)
    show "\<forall>i. (\<exists>xs\<in>C. i \<in> set xs) \<longleftrightarrow> i < length ns' \<and> nkey ns' i \<noteq> KNil"
    proof
      fix i
      have "(\<exists>xs\<in>C. i \<in> set xs) \<longleftrightarrow> i < length ns \<and> nkey ns i \<noteq> KNil" using D(1) unfolding chains_ok_def by blast
      then show "(\<exists>xs\<in>C. i \<in> set xs) \<longleftrightarrow> i < length ns' \<and> nkey ns' i \<noteq> KNil" using c(3) [of i] len by auto
    qed
    show "\<forall>i<length ns'. nkey ns' i = KNil \<longrightarrow> n_next (ns' ! i) = None" using D(1) c(2,3) len by (auto simp: chains_ok_def)
  qed
  moreover have "in_chains H ns' C" unfolding in_chains_def len
  proof (intro ballI impI)
    fix xs x assume x: "xs \<in> C" "x \<in> set xs" "normal (nkey ns' x)"
    then have "nkey ns' x = nkey ns x" using nk [OF in_C [OF x(1,2)]] by simp
    then show "before xs (mainposition H (length ns) (nkey ns' x)) x" using D(2) x by (auto simp: in_chains_def)
  qed
  moreover have "brent H ns'" unfolding brent_def len
  proof (intro allI impI)
    fix x assume x: "x < length ns" "normal (nkey ns' x)"
    then show "let m = mainposition H (length ns) (nkey ns' x) in dead (nkey ns' m) \<or> mainposition H (length ns) (nkey ns' m) = m"
      using D(3) nk [OF x] c(4) [OF main_less [OF H, of "nkey ns x"]] by (auto simp: brent_def Let_def)
  qed
  moreover have "keys_ok ns'" unfolding keys_ok_def len
  proof (intro conjI allI impI)
    fix i assume i: "i < length ns"
    show "nkey ns' i \<noteq> KNum Nnan" using D(4) c(4) [OF i] i by (auto simp: keys_ok_def dead_def)
    show "n_val (ns' ! i) = None" if "\<not> normal (nkey ns' i)" using D(4) c(1,4) [OF i] i that by (auto simp: keys_ok_def)
  next
    fix i j assume ij: "i < length ns" "j < length ns" "normal (nkey ns' i)" "luaV_rawequalobj (nkey ns' i) (nkey ns' j)"
    then have "normal (nkey ns' j)" using rawequal_normal by blast
    then show "i = j" using D(4) nk [OF ij(1,3)] nk [OF ij(2)] ij unfolding keys_ok_def by auto
  qed
  ultimately show ?thesis using H len by (simp add: hash_ok_def)
qed

lemma collect_ok:
  assumes T: "table_ok H t"
  shows "table_ok H (traversestrongtable w t)" "has (traversestrongtable w t) k v \<longleftrightarrow> has t k v"
proof -
  obtain C where C: "hash_ok H (node t) C" using T by (auto simp: table_ok_def)
  let ?ns = "map (\<lambda>n. if n_val n = None then removeentry w n else n) (node t)"
  note c = collect_nth [of _ "node t" w]
  have kw: "\<not> in_array t (nkey ?ns i) \<and> key_wf (nkey ?ns i)" if "i < length (node t)" for i
    using T c(4) [OF that] that by (auto simp: table_ok_def in_array_def key_wf_def dead_def)
  have d: "?ns = [dummynode]" if "isdummy t"
    using T that by (auto simp: table_ok_def dummynode_def removeentry_def gcvalue_def)
  show "table_ok H (traversestrongtable w t)"
    unfolding table_ok_def traversestrongtable_def
    using T hash_ok_collect [OF C, of w] kw d c(3) by (auto simp: table_ok_def sizenode_def in_array_def)
  have "entry ?ns k v \<longleftrightarrow> entry (node t) k v"
  proof -
    have "luaV_rawequalobj (nkey ?ns i) k \<and> n_val (?ns ! i) = Some v \<longleftrightarrow> luaV_rawequalobj (nkey (node t) i) k \<and> n_val (node t ! i) = Some v"
      if "i < length (node t)" for i using c(1,4) [OF that] by auto
    then show ?thesis unfolding entry_def length_map by blast
  qed
  moreover have "in_array (traversestrongtable w t) k = in_array t k" by (simp add: traversestrongtable_def in_array_def)
  ultimately show "has (traversestrongtable w t) k v \<longleftrightarrow> has t k v" by (simp add: has_def) (simp add: traversestrongtable_def)
qed

lemma resizearray_ok:
  assumes T: "table_ok H t" and n: "length (array t) \<le> n" "n \<le> MAXASIZE"
  shows "\<exists>t'. luaH_resizearray H n t = Inr t' \<and> table_ok H t' \<and> length (array t') = n \<and> (\<forall>k w. valid_key k \<longrightarrow> has t' k w \<longleftrightarrow> has t k w)"
proof -
  let ?nh = "if isdummy t then 0 else sizenode t"
  have b: "?nh \<le> 2 ^ MAXBITS" using T by (auto simp: table_ok_def sizenode_def)
  then have "?nh < 2 ^ 32" by (simp add: MAXBITS_def split: if_splits)
  moreover have "length (node_kvs (node t)) \<le> ?nh" using T length_node_kvs [of "node t"] by (auto simp: table_ok_def dummynode_def)
  then have "length (arr_kvs n (drop n (array t))) + length (filter (\<lambda>(k, v). beyond n k) (node_kvs (node t))) \<le> ?nh"
    using n(1) length_filter_le [of "\<lambda>(k, v). beyond n k" "node_kvs (node t)"] by (simp del: length_filter_le)
  ultimately show ?thesis using resize_ok(2) [OF T n(2) _ _ b, of "grow1 H"]
    unfolding luaH_resizearray_def luaH_resize_def luaH_newkey_eq(1) by blast
qed

section \<open>A table is a map\<close>

lemma rawequal_canon: "normal k \<Longrightarrow> luaV_rawequalobj k k' \<longleftrightarrow> key_class k = key_class k'"
  by (auto simp: rawequal_class normal_def)

definition represents :: "hashing \<Rightarrow> 'v Table \<Rightarrow> (tkey \<rightharpoonup> 'v) \<Rightarrow> bool" where
  "represents H t m \<longleftrightarrow> table_ok H t \<and> (\<forall>k v. valid_key k \<longrightarrow> has t k v \<longleftrightarrow> m (key_class k) = Some v)"

lemma represents_get:
  assumes R: "represents H t m" and k: "valid_key k"
  shows "\<exists>s. luaH_get H t k = Inr s \<and> slot_val t s = m (key_class k)"
proof -
  obtain s where s: "luaH_get H t k = Inr s" "\<forall>v. slot_val t s = Some v \<longleftrightarrow> has t k v"
    using luaH_get_has [OF _ k, of H t] R by (auto simp: represents_def)
  have "slot_val t s = Some v \<longleftrightarrow> m (key_class k) = Some v" for v using s(2) R k by (simp add: represents_def)
  then have "slot_val t s = m (key_class k)" by (cases "m (key_class k)") (auto simp: option.expand)
  then show ?thesis using s(1) by blast
qed

lemma entries_valid:
  assumes T: "table_ok H t" and e: "(k, v) \<in> set (entries t)"
  shows "valid_key k" "has t k v"
proof -
  have "valid_key k \<and> has t k v"
  proof (cases "(k, v) \<in> set (arr_kvs 0 (array t))")
    case True
    then obtain j where j: "j < length (array t)" "k = KNum (Nint (int j + 1))" "array t ! j = Some v" by (auto simp: arr_kvs_mem)
    then have "in_array t k" "arr_ix k = j" by (auto simp: in_array_def arr_ix_def)
    moreover have "valid_key k" using j T by (auto simp: valid_key_def key_wf_def table_ok_def MAXASIZE_def MAXBITS_def)
    ultimately show ?thesis using j by (simp add: has_def)
  next
    case False
    then have n: "(k, v) \<in> set (node_kvs (node t))" using e by (auto simp: entries_def)
    note V = node_kvs_valid [OF T n]
    have "luaV_rawequalobj k k" using V(1) rawequal_refl by (auto simp: valid_key_def normal_def)
    then show ?thesis using n V has_nodes [of t k v] by (auto simp: has_def has_in_def)
  qed
  then show "valid_key k" "has t k v" by auto
qed

lemma unequal_distinct: "unequal kvs \<Longrightarrow> \<forall>(k, v)\<in>set kvs. normal k \<Longrightarrow> distinct (map (key_class \<circ> fst) kvs)"
proof (induction kvs)
  case (Cons a kvs)
  have "key_class (fst a) \<noteq> key_class (fst b)" if "b \<in> set kvs" for b
    using Cons.prems that rawequal_canon [of "fst a" "fst b"] by (auto simp: unequal_Cons)
  then show ?case using Cons by (auto simp: unequal_Cons)
qed simp

lemma entries_distinct:
  assumes T: "table_ok H t" shows "distinct (map (key_class \<circ> fst) (entries t))"
proof -
  have "\<forall>(k, v)\<in>set (entries t). normal k" using entries_valid(1) [OF T] by (auto simp: valid_key_def)
  then show ?thesis using entries_unequal [OF T, of 0] by (intro unequal_distinct) (simp_all add: entries_def)
qed

lemma entries_bound:
  assumes R: "represents H t m" and f: "finite (dom m)" shows "length (entries t) \<le> card (dom m)"
proof -
  have T: "table_ok H t" using R by (simp add: represents_def)
  have "set (map (key_class \<circ> fst) (entries t)) \<subseteq> dom m" using entries_valid [OF T] R by (fastforce simp: represents_def)
  from card_mono [OF f this] distinct_card [OF entries_distinct [OF T]] show ?thesis by simp
qed

section \<open>Histories\<close>

primrec run_history :: "('op \<Rightarrow> 't \<Rightarrow> 't res) \<Rightarrow> 'op list \<Rightarrow> 't \<Rightarrow> 't res" where
  "run_history step [] t = Inr t"
| "run_history step (p # ps) t = res_bind (step p t) (run_history step ps)"

text \<open>
  The contract of a structure that represents a map: as long as fewer than \<open>cap\<close> keys are
  present, every operation succeeds and does to the structure what its
  specification does to the map.
\<close>

locale bounded_map =
  fixes rep :: "'t \<Rightarrow> ('k \<rightharpoonup> 'v) \<Rightarrow> bool" and empty :: 't and step :: "'op \<Rightarrow> 't \<Rightarrow> 't res"
    and spec :: "'op \<Rightarrow> ('k \<rightharpoonup> 'v) \<Rightarrow> ('k \<rightharpoonup> 'v)" and ok :: "'op \<Rightarrow> bool" and cap :: nat
  assumes rep_empty: "rep empty Map.empty"
    and rep_step: "rep t m \<Longrightarrow> ok p \<Longrightarrow> finite (dom m) \<Longrightarrow> card (dom m) < cap \<Longrightarrow> \<exists>t'. step p t = Inr t' \<and> rep t' (spec p m)"
    and dom_step: "finite (dom m) \<Longrightarrow> finite (dom (spec p m)) \<and> card (dom (spec p m)) \<le> card (dom m) + 1"
begin

lemma run_represents:
  assumes "rep t m" "finite (dom m)" "card (dom m) + length ps \<le> cap" "\<forall>p\<in>set ps. ok p"
  shows "\<exists>t'. run_history step ps t = Inr t' \<and> rep t' (fold spec ps m)"
  using assms
proof (induction ps arbitrary: t m)
  case (Cons p ps)
  obtain t1 where t1: "step p t = Inr t1" "rep t1 (spec p m)" using rep_step [OF Cons.prems(1)] Cons.prems by auto
  have "\<exists>t'. run_history step ps t1 = Inr t' \<and> rep t' (fold spec ps (spec p m))"
    using dom_step [of m p] Cons.prems by (intro Cons.IH t1(2)) auto
  then show ?case using t1(1) by simp
qed simp

lemma history: "length ps \<le> cap \<Longrightarrow> \<forall>p\<in>set ps. ok p \<Longrightarrow> \<exists>t. run_history step ps empty = Inr t \<and> rep t (fold spec ps Map.empty)"
  by (rule run_represents [OF rep_empty]) auto

end

text \<open>
  What happens to a Lua table: a key is set (\<open>luaH_set\<close> and a store into the slot it gives),
  an integer key is set, space is reserved the way the constructor does it in \<open>OP_SETLIST\<close>,
  and the collector traverses it.
\<close>

datatype 'v table_op = Op_set tkey "'v option" | Op_setint int "'v option" | Op_reserve nat | Op_collect "nat \<Rightarrow> bool"

fun table_step :: "hashing \<Rightarrow> 'v table_op \<Rightarrow> 'v Table \<Rightarrow> 'v Table res" where
  "table_step H (Op_set k v) t = table_set H t k v"
| "table_step H (Op_setint i v) t = luaH_setint H t i v"
| "table_step H (Op_reserve n) t = (if n > length (array t) then luaH_resizearray H n t else Inr t)"
| "table_step H (Op_collect w) t = Inr (traversestrongtable w t)"

fun table_spec :: "'v table_op \<Rightarrow> (tkey \<rightharpoonup> 'v) \<Rightarrow> (tkey \<rightharpoonup> 'v)" where
  "table_spec (Op_set k v) m = m(key_class k := v)"
| "table_spec (Op_setint i v) m = m(KNum (Nint i) := v)"
| "table_spec (Op_reserve n) m = m"
| "table_spec (Op_collect w) m = m"

fun op_valid :: "'v table_op \<Rightarrow> bool" where
  "op_valid (Op_set k v) = valid_key k"
| "op_valid (Op_setint i v) = (- (2 ^ 31) < i \<and> i < 2 ^ 31)"
| "op_valid (Op_reserve n) = (n \<le> MAXASIZE)"
| "op_valid (Op_collect w) = True"

lemma represents_new: "represents H (luaH_new :: 'v Table) Map.empty"
proof -
  have e: "luaH_new = (empty_hash 0 [] :: 'v Table)" by (simp add: luaH_new_def empty_hash_def empty_nodes_def)
  have "table_ok H (empty_hash 0 [] :: 'v Table)" by (rule table_ok_empty) simp_all
  then show ?thesis unfolding e represents_def by (auto simp: has_empty beyond_def)
qed

lemma represents_stored:
  assumes R: "represents H t m" and k: "valid_key k" and s: "stored H t k v t'"
  shows "represents H t' (m(key_class k := v))"
proof -
  have "has t' k' w \<longleftrightarrow> (m(key_class k := v)) (key_class k') = Some w" if "valid_key k'" for k' w
    using that s R rawequal_canon [of k' k] by (auto simp: stored_def represents_def valid_key_def)
  then show ?thesis using s by (simp add: represents_def stored_def)
qed

lemma represents_set:
  assumes R: "represents H t m" and k: "valid_key k" and f: "finite (dom m)" "card (dom m) < 2 ^ MAXBITS"
  shows "\<exists>t'. table_set H t k v = Inr t' \<and> represents H t' (m(key_class k := v))"
proof -
  have "table_ok H t" using R by (simp add: represents_def)
  from table_set_ok [OF this k, of v] entries_bound [OF R f(1)] f(2) show ?thesis using represents_stored [OF R k] by auto
qed

lemma represents_cong:
  assumes "represents H t m" "table_ok H t'" "\<And>k w. valid_key k \<Longrightarrow> has t' k w \<longleftrightarrow> has t k w" shows "represents H t' m"
  using assms by (simp add: represents_def)

interpretation lt: bounded_map "represents H" luaH_new "table_step H" table_spec op_valid "2 ^ MAXBITS" for H
proof unfold_locales
  show "represents H luaH_new Map.empty" by (rule represents_new)
next
  fix t :: "'a Table" and m and p :: "'a table_op"
  assume R: "represents H t m" and p: "op_valid p" and f: "finite (dom m)" "card (dom m) < 2 ^ MAXBITS"
  then have T: "table_ok H t" by (simp add: represents_def)
  show "\<exists>t'. table_step H p t = Inr t' \<and> represents H t' (table_spec p m)"
  proof (cases p)
    case (Op_set k v)
    then show ?thesis using represents_set [OF R _ f, of k v] p by simp
  next
    case (Op_setint i v)
    then have "valid_key (KNum (Nint i))" using p by (simp add: valid_key_def key_wf_def)
    from represents_set [OF R this f, of v] show ?thesis using Op_setint by (simp add: table_set_then(2) key_class_def)
  next
    case (Op_reserve n)
    show ?thesis
    proof (cases "n > length (array t)")
      case True
      then obtain t' where "luaH_resizearray H n t = Inr t'" "table_ok H t'" "\<forall>k w. valid_key k \<longrightarrow> has t' k w \<longleftrightarrow> has t k w"
        using resizearray_ok [OF T, of n] Op_reserve p by auto
      then show ?thesis using Op_reserve True represents_cong [OF R, of t'] by auto
    qed (use R Op_reserve in simp)
  next
    case (Op_collect w)
    then show ?thesis using collect_ok [OF T, of w] represents_cong [OF R] by simp
  qed
next
  fix m :: "tkey \<rightharpoonup> 'a" and p :: "'a table_op"
  assume "finite (dom m)"
  then have "finite (dom (m(k := v))) \<and> card (dom (m(k := v))) \<le> card (dom m) + 1" for k v
    using card_insert_le_m1 [of "card (dom m) + 1" "dom m" k] card_Diff1_le [of "dom m" k] by (cases v) (auto simp: card_insert_if)
  then show "finite (dom (table_spec p m)) \<and> card (dom (table_spec p m)) \<le> card (dom m) + 1"
    using \<open>finite (dom m)\<close> by (cases p) auto
qed

section \<open>Properties\<close>

definition zero_hash :: hashing where
  "zero_hash = \<lparr>h_num = \<lambda>_. 0, h_shr = \<lambda>_. 0, h_lng = \<lambda>_. 0, h_ptr = \<lambda>_. 0\<rparr>"

text \<open>A history in which every key collides with every other one.\<close>

definition sample_ops :: "nat table_op list" where
  "sample_ops = [Op_set (KShr 5) (Some 1), Op_set (KBool True) (Some 2), Op_setint 1 (Some 3), Op_reserve 4,
     Op_set (KShr 5) None, Op_collect (\<lambda>_. True), Op_set (KLng 7 ''abc'') (Some 4), Op_setint 2 (Some 5)]"

lemma sample_ops_ok: "length sample_ops \<le> 2 ^ MAXBITS" "\<forall>p\<in>set sample_ops. op_valid p"
  by (simp_all add: sample_ops_def MAXBITS_def MAXASIZE_def valid_key_def normal_def dead_def key_wf_def)

text \<open>
  C2. Through every history of at most \<open>2^30\<close> operations that starts with a new table, every
  operation succeeds, whatever the hash functions are, and a search for any key gives the value
  that the same operations give on a map.  This includes all collisions, rehashes, resizes and
  the reuse of entries that the collector has marked as dead.
\<close>

theorem table_refines_map:
  assumes "length ps \<le> 2 ^ MAXBITS" and "\<forall>p\<in>set ps. op_valid p"
  shows "\<exists>t. run_history (table_step H) ps luaH_new = Inr t \<and>
     (\<forall>k. valid_key k \<longrightarrow> (\<exists>s. luaH_get H t k = Inr s \<and> slot_val t s = fold table_spec ps Map.empty (key_class k)))"
  using lt.history [OF assms, of H] represents_get by blast

theorem table_refines_map_witness:
  "\<exists>t. run_history (table_step zero_hash) sample_ops luaH_new = Inr t \<and>
     (\<exists>s. luaH_get zero_hash t (KLng 9 ''abc'') = Inr s \<and> slot_val t s = Some 4) \<and>
     (\<exists>s. luaH_get zero_hash t (KShr 5) = Inr s \<and> slot_val t s = None)"
proof -
  obtain t where t: "run_history (table_step zero_hash) sample_ops luaH_new = Inr t"
    and g: "\<forall>k. valid_key k \<longrightarrow> (\<exists>s. luaH_get zero_hash t k = Inr s \<and> slot_val t s = fold table_spec sample_ops Map.empty (key_class k))"
    using table_refines_map [OF sample_ops_ok, of zero_hash] by blast
  have "\<exists>s. luaH_get zero_hash t (KLng 9 ''abc'') = Inr s \<and> slot_val t s = Some 4"
    using g [rule_format, of "KLng 9 ''abc''"] by (simp add: sample_ops_def key_class_def valid_key_def normal_def dead_def key_wf_def)
  moreover have "\<exists>s. luaH_get zero_hash t (KShr 5) = Inr s \<and> slot_val t s = None"
    using g [rule_format, of "KShr 5"] by (simp add: sample_ops_def key_class_def valid_key_def normal_def dead_def key_wf_def)
  ultimately show ?thesis using t by blast
qed

text \<open>
  C11. The main invariant of the scatter table: in every table such a history can lead to, if the
  main position of the key of an entry holds another entry, then that other entry is in its own
  main position.  The number of nodes is the power of two that \<open>lsizenode\<close> says, and
  in a table that is not the dummy one no node from \<open>lastfree\<close> on is free.
\<close>

theorem table_main_invariant:
  assumes "length ps \<le> 2 ^ MAXBITS" and "\<forall>p\<in>set ps. op_valid p" and "run_history (table_step H) ps luaH_new = Inr t"
  shows "length (node t) = 2 ^ lsizenode t \<and>
     (\<forall>x<length (node t). n_val (node t ! x) \<noteq> None \<longrightarrow>
        (let m = mainposition H (sizenode t) (nkey (node t) x)
         in n_val (node t ! m) = None \<or> mainposition H (sizenode t) (nkey (node t) m) = m)) \<and>
     (\<not> isdummy t \<longrightarrow> (\<forall>x<length (node t). lastfree t \<le> x \<longrightarrow> nkey (node t) x \<noteq> KNil))"
proof -
  have T: "table_ok H t" using lt.history [OF assms(1,2), of H] assms(3) by (auto simp: represents_def)
  then obtain C where C: "hash_ok H (node t) C" and sz: "sizenode t = length (node t)" by (auto simp: table_ok_def)
  have "n_val (node t ! m) = None \<or> mainposition H (length (node t)) (nkey (node t) m) = m"
    if x: "x < length (node t)" "n_val (node t ! x) \<noteq> None" "m = mainposition H (length (node t)) (nkey (node t) x)" for x m
  proof -
    have K: "keys_ok (node t)" "brent H (node t)" using hash_okD [OF C] by auto
    have "normal (nkey (node t) x)" using K(1) x(1,2) by (auto simp: keys_ok_def)
    then have "dead (nkey (node t) m) \<or> mainposition H (length (node t)) (nkey (node t) m) = m"
      using K(2) x by (auto simp: brent_def Let_def)
    then show ?thesis using K(1) main_less [OF C, of "nkey (node t) x"] x(3) by (auto simp: keys_ok_def normal_def)
  qed
  then show ?thesis using T sz by (auto simp: table_ok_def Let_def sizenode_def)
qed

theorem table_main_invariant_witness:
  "\<exists>t. run_history (table_step zero_hash) sample_ops luaH_new = Inr t \<and> length (node t) = 2 ^ lsizenode t"
  using table_main_invariant [OF sample_ops_ok, of zero_hash] lt.history [OF sample_ops_ok, of zero_hash] by blast



end
