(* ===== verification/LuaNext.thy ===== *)
theory LuaNext
  imports LuaMap
begin

text \<open>
  The length of a table is a len_border, and a traversal with \<open>luaH_next\<close> meets every entry once.
\<close>

section \<open>The length of a table\<close>

definition present :: "'v Table \<Rightarrow> nat \<Rightarrow> bool" where
  "present t j \<longleftrightarrow> (\<exists>v. has t (KNum (Nint (int j))) v)"

text \<open>A len_border: the index is present, or zero, and the next one is not.\<close>

definition len_border :: "'v Table \<Rightarrow> nat \<Rightarrow> bool" where
  "len_border t j \<longleftrightarrow> (j = 0 \<or> present t j) \<and> \<not> present t (j + 1)"

lemma isnil_int_ok:
  assumes T: "table_ok H t" and j: "j < 2 ^ 31" shows "isnil_int H t j = Inr (\<not> present t j)"
proof -
  have "valid_key (KNum (Nint (int j)))" using j by (simp add: valid_key_def key_wf_def)
  from luaH_get_has [OF T this] obtain s where "luaH_getint H t (int j) = Inr s" "\<forall>v. slot_val t s = Some v \<longleftrightarrow> has t (KNum (Nint (int j))) v"
    by (auto simp: luaH_get_def)
  then show ?thesis by (cases "slot_val t s") (auto simp: isnil_int_def present_def)
qed

lemma binary_search_ok:
  assumes "i < j" "\<And>m. i < m \<Longrightarrow> m < j \<Longrightarrow> nil m = Inr (\<not> P m)" "\<not> P j"
  shows "\<exists>r. binary_search nil i j = Inr r \<and> i \<le> r \<and> r < j \<and> (r = i \<or> P r) \<and> \<not> P (r + 1)"
  using assms
proof (induction nil i j rule: binary_search.induct)
  case (1 nil i j)
  show ?case
  proof (cases "j - i > 1")
    case True
    define m where "m = (i + j) div 2"
    have m: "i < m" "m < j" using True by (auto simp: m_def)
    have n: "nil m = Inr (\<not> P m)" by (rule 1(4) [OF m])
    show ?thesis
    proof (cases "P m")
      case t: True
      have "\<exists>r. binary_search nil m j = Inr r \<and> m \<le> r \<and> r < j \<and> (r = m \<or> P r) \<and> \<not> P (r + 1)"
        using n t m 1(4,5) by (intro 1(2) [OF True m_def]) auto
      then obtain r where "binary_search nil m j = Inr r" "m \<le> r" "r < j" "r = m \<or> P r" "\<not> P (r + 1)" by blast
      then show ?thesis using True n t m by (subst binary_search.simps) (auto simp: m_def [symmetric])
    next
      case t: False
      have "\<exists>r. binary_search nil i m = Inr r \<and> i \<le> r \<and> r < m \<and> (r = i \<or> P r) \<and> \<not> P (r + 1)"
        using n t m 1(4) by (intro 1(1) [OF True m_def]) auto
      then obtain r where "binary_search nil i m = Inr r" "i \<le> r" "r < m" "r = i \<or> P r" "\<not> P (r + 1)" by blast
      then show ?thesis using True n t m by (subst binary_search.simps) (auto simp: m_def [symmetric])
    qed
  next
    case False
    then have "j = i + 1" using 1(3) by simp
    then show ?thesis using False 1(5) by (subst binary_search.simps) auto
  qed
qed

lemma present_entries:
  assumes "present t j" shows "KNum (Nint (int j)) \<in> set (map fst (entries t))"
proof -
  from assms obtain v where v: "has t (KNum (Nint (int j))) v" by (auto simp: present_def)
  show ?thesis
  proof (cases "in_array t (KNum (Nint (int j)))")
    case True
    then have "(KNum (Nint (int j)), v) \<in> set (arr_kvs 0 (array t))" using v
      by (auto simp: has_def in_array_def arr_ix_def arr_kvs_mem intro!: exI [of _ "j - 1"] simp: nat_diff_distrib)
    then show ?thesis by (force simp: entries_def)
  next
    case False
    then have "has_in (node_kvs (node t)) (KNum (Nint (int j))) v" using v by (simp add: has_def has_nodes)
    then obtain k where "(k, v) \<in> set (node_kvs (node t))" "luaV_rawequalobj (KNum (Nint (int j))) k" by (auto simp: has_in_def)
    moreover have "k = KNum (Nint (int j))" using calculation(2) rawequal_int [of k "int j"] by (simp add: rawequal_sym [of k])
    ultimately show ?thesis by (force simp: entries_def)
  qed
qed

lemma length_entries: "length (entries t) \<le> length (array t) + length (node t)"
  using length_node_kvs [of "node t"] length_filter_le [of "\<lambda>v. v \<noteq> None" "array t"]
  by (simp add: entries_def length_arr_kvs add_mono)

text \<open>There are not more indices that are present than entries.\<close>

lemma present_count:
  assumes "1 \<le> i" "\<forall>j. 1 \<le> j \<longrightarrow> j < i \<longrightarrow> present t j" shows "i \<le> length (entries t) + 1"
proof -
  have "(\<lambda>j. KNum (Nint (int j))) ` {1..<i} \<subseteq> set (map fst (entries t))" using present_entries assms(2) by force
  from card_mono [OF _ this] have "card ((\<lambda>j. KNum (Nint (int j))) ` {1..<i}) \<le> length (entries t)"
    using card_length [of "map fst (entries t)"] by simp
  moreover have "card ((\<lambda>j. KNum (Nint (int j))) ` {1..<i}) = i - 1" by (subst card_image) (auto simp: inj_on_def)
  ultimately show ?thesis by simp
qed

lemma linear_search_ok:
  assumes T: "table_ok H t" and N: "length (entries t) < 2 ^ 31 - 1"
    and i: "1 \<le> i" "\<forall>j. 1 \<le> j \<longrightarrow> j < i \<longrightarrow> present t j" "f + i = length (array t) + length (node t) + 2"
  shows "\<exists>r. linear_search f H t i = Inr r \<and> len_border t r \<and> r < 2 ^ 31 - 1"
  using i
proof (induction f arbitrary: i)
  case 0
  then show ?case using present_count [of i t] length_entries [of t] by simp
next
  case (Suc f)
  have c: "i \<le> length (entries t) + 1" by (rule present_count [OF Suc.prems(1,2)])
  have "isnil_int H t i = Inr (\<not> present t i)" using N c by (intro isnil_int_ok [OF T]) simp
  moreover have "\<exists>r. linear_search f H t (i + 1) = Inr r \<and> len_border t r \<and> r < 2 ^ 31 - 1" if "present t i"
    using Suc.prems that by (intro Suc.IH) (auto simp: less_Suc_eq)
  moreover have "i - 1 < 2 ^ 31 - 1" using N c by simp
  moreover have "len_border t (i - 1)" if "\<not> present t i" using Suc.prems(1) Suc.prems(2) [rule_format, of "i - 1"] that by (cases "i = 1") (auto simp: len_border_def)
  ultimately show ?case by (cases "present t i") auto
qed

lemma unbound_loop_ok:
  assumes T: "table_ok H t" and N: "length (entries t) < 2 ^ 31 - 1"
    and i: "i < j" "i = 0 \<or> present t i" "j \<le> MAX_INT" "2 ^ (32 - f) \<le> j" "f \<le> 32"
  shows "\<exists>r. unbound_loop f H t i j = Inr r \<and> len_border t r \<and> r < 2 ^ 31 - 1"
  using i
proof (induction f arbitrary: i j)
  case 0
  then show ?case by (simp add: MAX_INT_def)
next
  case (Suc f)
  have nj: "isnil_int H t m = Inr (\<not> present t m)" if "m \<le> j" for m using Suc.prems that by (intro isnil_int_ok [OF T]) (simp add: MAX_INT_def)
  show ?case
  proof (cases "present t j")
    case False
    have "\<exists>r. binary_search (isnil_int H t) i j = Inr r \<and> i \<le> r \<and> r < j \<and> (r = i \<or> present t r) \<and> \<not> present t (r + 1)"
      using False Suc.prems(1) nj by (intro binary_search_ok) auto
    then show ?thesis using False nj [of j] Suc.prems(2,3) by (auto simp: len_border_def MAX_INT_def)
  next
    case True
    have ls: "\<exists>r. linear_search (length (array t) + length (node t) + 1) H t 1 = Inr r \<and> len_border t r \<and> r < 2 ^ 31 - 1"
      by (rule linear_search_ok [OF T N]) auto
    have "\<exists>r. unbound_loop f H t j (j * 2) = Inr r \<and> len_border t r \<and> r < 2 ^ 31 - 1" if "\<not> j * 2 > MAX_INT"
    proof (rule Suc.IH)
      have "(2 :: nat) ^ (32 - f) = 2 * 2 ^ (32 - Suc f)" using Suc.prems(5) by (simp add: Suc_diff_le flip: power_Suc)
      then show "2 ^ (32 - f) \<le> j * 2" using Suc.prems(4) by simp
    qed (use True Suc.prems that in auto)
    then show ?thesis using True nj [of j] ls by (auto simp: Let_def)
  qed
qed

lemma luaH_getn_ok:
  assumes T: "table_ok H t" and N: "length (entries t) < 2 ^ 31 - 1"
  shows "\<exists>r. luaH_getn H t = Inr r \<and> len_border t r \<and> r < 2 ^ 31 - 1"
proof -
  let ?j = "length (array t)"
  have jl: "?j < 2 ^ 31 - 1" using T by (simp add: table_ok_def MAXASIZE_def MAXBITS_def)
  have ar: "present t m \<longleftrightarrow> array t ! (m - 1) \<noteq> None" if "1 \<le> m" "m \<le> ?j" for m
    using that by (auto simp: present_def has_def in_array_def arr_ix_def nat_diff_distrib)
  show ?thesis
  proof (cases "?j > 0 \<and> array t ! (?j - 1) = None")
    case True
    have "\<exists>r. binary_search (\<lambda>m. res_bind (mem_get (array t) (m - 1)) (\<lambda>v. Inr (v = None))) 0 ?j = Inr r \<and> 0 \<le> r \<and> r < ?j \<and> (r = 0 \<or> present t r) \<and> \<not> present t (r + 1)"
    proof (rule binary_search_ok)
      show "\<not> present t ?j" using True ar [of ?j] by (simp add: Suc_leI)
    qed (use True ar in \<open>auto simp: mem_get_ok\<close>)
    then show ?thesis using True jl by (auto simp: luaH_getn_def Let_def len_border_def)
  next
    case False
    have p: "?j = 0 \<or> present t ?j" using False ar [of ?j] by (cases "array t") auto
    show ?thesis
    proof (cases "isdummy t")
      case d: True
      then have "node t = [dummynode]" using T by (simp add: table_ok_def)
      then have "\<not> present t (?j + 1)" by (auto simp: present_def has_def in_array_def entry_def dummynode_def)
      then show ?thesis using False d p jl by (auto simp: luaH_getn_def Let_def len_border_def)
    next
      case d: False
      have "?j + 1 \<le> MAX_INT" using T by (simp add: table_ok_def MAXASIZE_def MAXBITS_def MAX_INT_def)
      then have "\<exists>r. unbound_loop 32 H t ?j (?j + 1) = Inr r \<and> len_border t r \<and> r < 2 ^ 31 - 1" using p by (intro unbound_loop_ok [OF T N]) auto
      then show ?thesis using False d by (auto simp: luaH_getn_def unbound_search_def Let_def)
    qed
  qed
qed

section \<open>Traversal\<close>

text \<open>The entries from a position on: first the array part, then the nodes.\<close>

definition entries_from :: "nat \<Rightarrow> 'v Table \<Rightarrow> (tkey \<times> 'v) list" where
  "entries_from p t = arr_kvs p (drop p (array t)) @ node_kvs (drop (p - length (array t)) (node t))"

lemma entries_from_0: "entries_from 0 t = entries t"
  by (simp add: entries_from_def entries_def)

abbreviation hd_option :: "'a list \<Rightarrow> 'a option" where
  "hd_option xs \<equiv> (case xs of [] \<Rightarrow> None | x # _ \<Rightarrow> Some x)"

lemma next_array_kvs: "next_array i vs = hd_option (arr_kvs i vs)"
  by (induction i vs rule: arr_kvs.induct) auto

lemma next_node_kvs: "next_node ns = hd_option (node_kvs ns)"
  by (induction ns) (auto split: option.splits)

lemma luaH_next_eq:
  assumes "findindex H t k = Inr (int p - 1)"
  shows "luaH_next H t k = Inr (hd_option (entries_from p t))"
proof -
  have "(if p < length (array t) then 0 else p - length (array t)) = p - length (array t)" by simp
  then show ?thesis using assms
    by (simp add: luaH_next_def Let_def next_array_kvs next_node_kvs entries_from_def split: list.splits)
qed

text \<open>The entry of a position.\<close>

lemma entries_from_step:
  "p < length (array t) \<Longrightarrow> entries_from p t = (case array t ! p of None \<Rightarrow> [] | Some v \<Rightarrow> [(KNum (Nint (int p + 1)), v)]) @ entries_from (p + 1) t"
  "length (array t) \<le> p \<Longrightarrow> p - length (array t) < length (node t) \<Longrightarrow>
     entries_from p t = node_kvs [node t ! (p - length (array t))] @ entries_from (p + 1) t"
proof -
  show "p < length (array t) \<Longrightarrow> entries_from p t = (case array t ! p of None \<Rightarrow> [] | Some v \<Rightarrow> [(KNum (Nint (int p + 1)), v)]) @ entries_from (p + 1) t"
    unfolding entries_from_def by (simp add: Cons_nth_drop_Suc [symmetric] split: option.splits)
  assume p: "length (array t) \<le> p" "p - length (array t) < length (node t)"
  have "drop (p - length (array t)) (node t) = [node t ! (p - length (array t))] @ drop (p + 1 - length (array t)) (node t)"
    using p by (simp add: Cons_nth_drop_Suc Suc_diff_le)
  then show "entries_from p t = node_kvs [node t ! (p - length (array t))] @ entries_from (p + 1) t"
    using p(1) unfolding entries_from_def by (simp only: node_kvs_append) simp
qed

text \<open>The address of a dead key has not come back as the address of another key.\<close>

definition no_stale :: "'v Table \<Rightarrow> bool" where
  "no_stale t \<longleftrightarrow> (\<forall>i<length (node t). \<forall>j<length (node t). \<forall>a. nkey (node t) i = KDead a \<longrightarrow> gcvalue (nkey (node t) j) \<noteq> Some a)"

lemma chain_find_cong: "(\<And>i. i < length ns \<Longrightarrow> P (nkey ns i) = Q (nkey ns i)) \<Longrightarrow> chain_find f ns P m = chain_find f ns Q m"
  by (induction f ns P m rule: chain_find.induct) (auto simp: mem_get_def res_bind_def split: option.splits)

lemma findindex_array: "p < length (array t) \<Longrightarrow> findindex H t (KNum (Nint (int p + 1))) = Inr (int p)"
  by (simp add: findindex_def arrayindex_def)

lemma findindex_node:
  assumes T: "table_ok H t" and st: "no_stale t" and i: "i < length (node t)" "n_val (node t ! i) = Some v"
  shows "findindex H t (nkey (node t) i) = Inr (int i + int (length (array t)))"
proof -
  obtain C where C: "hash_ok H (node t) C" and sz: "sizenode t = length (node t)" using T by (auto simp: table_ok_def)
  let ?k = "nkey (node t) i"
  have n: "normal ?k" using hash_okD(4) [OF C] i by (auto simp: keys_ok_def)
  have e: "luaV_rawequalobj ?k ?k" using n rawequal_refl by (auto simp: normal_def)
  have "?k \<noteq> KNil" using n by (auto simp: normal_def)
  moreover have "\<not> in_array t ?k" using T i(1) by (simp add: table_ok_def)
  then have "\<not> (0 < arrayindex ?k \<and> arrayindex ?k \<le> int (length (array t)))"
    by (auto simp: in_array_def arrayindex_def split: tkey.splits lnum.splits)
  moreover have "chain_find (length (node t)) (node t) (\<lambda>k. luaV_rawequalobj k ?k \<or> (\<exists>a. k = KDead a \<and> gcvalue ?k = Some a)) (mainposition H (length (node t)) ?k)
      = chain_find (length (node t)) (node t) (\<lambda>k. luaV_rawequalobj k ?k) (mainposition H (length (node t)) ?k)"
    using st i(1) by (intro chain_find_cong) (auto simp: no_stale_def)
  moreover have "\<dots> = Inr (S_node i)" by (rule hash_find(1) [OF C n i(1) e])
  ultimately show ?thesis using sz by (auto simp: findindex_def Let_def)
qed

text \<open>The loop of a client.\<close>

fun traverse :: "nat \<Rightarrow> hashing \<Rightarrow> 'v Table \<Rightarrow> tkey \<Rightarrow> (tkey \<times> 'v) list res" where
  "traverse 0 H t k = Inl Out_of_fuel"
| "traverse (Suc f) H t k =
     res_bind (luaH_next H t k) (\<lambda>e.
       case e of None \<Rightarrow> Inr [] | Some (k', v) \<Rightarrow> res_bind (traverse f H t k') (\<lambda>r. Inr ((k', v) # r)))"

text \<open>The first entry from a position on is at a position from which the next ones are found.\<close>

lemma first_entry:
  assumes T: "table_ok H t" and st: "no_stale t" and ne: "entries_from p t = (k, v) # es"
  shows "\<exists>q\<ge>p. findindex H t k = Inr (int q) \<and> entries_from (q + 1) t = es"
  using ne
proof (induction "length (array t) + length (node t) - p" arbitrary: p)
  case 0
  then show ?case by (simp add: entries_from_def)
next
  case (Suc d)
  have IH: ?case if "entries_from p t = entries_from (p + 1) t"
  proof -
    have "\<exists>q\<ge>p + 1. findindex H t k = Inr (int q) \<and> entries_from (q + 1) t = es"
      using that Suc.prems Suc.hyps(2) by (intro Suc.hyps(1)) auto
    then show ?thesis by (metis Suc_leD Suc_eq_plus1)
  qed
  show ?case
  proof (cases "p < length (array t)")
    case True
    show ?thesis
    proof (cases "array t ! p")
      case None
      then show ?thesis using entries_from_step(1) [OF True] by (intro IH) simp
    next
      case (Some w)
      then have "k = KNum (Nint (int p + 1))" "entries_from (p + 1) t = es" using entries_from_step(1) [OF True] Suc.prems by auto
      then show ?thesis using findindex_array [OF True] by auto
    qed
  next
    case False
    let ?i = "p - length (array t)"
    have i: "?i < length (node t)" "length (array t) \<le> p" using False Suc.hyps(2) by auto
    note e = entries_from_step(2) [OF i(2,1)]
    show ?thesis
    proof (cases "n_val (node t ! ?i)")
      case None
      then show ?thesis using e by (intro IH) simp
    next
      case (Some w)
      then have k: "k = nkey (node t) ?i" "entries_from (p + 1) t = es" using e Suc.prems by auto
      have "findindex H t k = Inr (int p)" unfolding k(1) using findindex_node [OF T st i(1) Some] i(2) by simp
      then show ?thesis using k(2) by auto
    qed
  qed
qed

lemma traverse_from:
  assumes T: "table_ok H t" and st: "no_stale t"
    and k: "findindex H t k = Inr (int p - 1)" "length (entries_from p t) < f"
  shows "traverse f H t k = Inr (entries_from p t)"
  using k
proof (induction f arbitrary: k p)
  case (Suc f)
  note n = luaH_next_eq [OF Suc.prems(1)]
  show ?case
  proof (cases "entries_from p t")
    case Nil
    then show ?thesis using n by simp
  next
    case (Cons e es)
    obtain k' v where e: "e = (k', v)" by force
    obtain q where q: "findindex H t k' = Inr (int q)" "entries_from (q + 1) t = es" using first_entry [OF T st] Cons e by blast
    have "traverse f H t k' = Inr (entries_from (q + 1) t)" using q Suc.prems(2) Cons by (intro Suc.IH) auto
    then show ?thesis using n Cons e q(2) by simp
  qed
qed simp

lemma traverse_all:
  assumes T: "table_ok H t" and st: "no_stale t"
  shows "traverse (length (array t) + length (node t) + 1) H t KNil = Inr (entries t)"
proof -
  have "findindex H t KNil = Inr (int 0 - 1)" by (simp add: findindex_def)
  moreover have "length (entries t) < length (array t) + length (node t) + 1"
    using length_entries [of t] by simp
  ultimately show ?thesis using traverse_from [OF T st, of KNil 0 "length (array t) + length (node t) + 1"]
    by (simp add: entries_from_0 del: traverse.simps)
qed

text \<open>
  C24. The length that \<open>luaH_getn\<close> gives is a border: the element at it is present, unless it is
  0, and the next one is nil.  The binary search, the doubling search and the linear search for
  tables with very large indices all end.
\<close>

theorem luaH_getn_border:
  assumes T: "table_ok H t" and N: "length (entries t) < 2 ^ 31 - 1"
  shows "\<exists>n. luaH_getn H t = Inr n \<and> (n = 0 \<or> isnil_int H t n = Inr False) \<and> isnil_int H t (n + 1) = Inr True"
proof -
  obtain n where n: "luaH_getn H t = Inr n" "len_border t n" "n < 2 ^ 31 - 1" using luaH_getn_ok [OF T N] by blast
  have "isnil_int H t n = Inr (\<not> present t n)" "isnil_int H t (n + 1) = Inr (\<not> present t (n + 1))"
    using n(3) by (auto intro: isnil_int_ok [OF T])
  then show ?thesis using n(1,2) by (auto simp: len_border_def)
qed

definition sample_table :: "nat Table" where
  "sample_table = empty_hash 0 [Some 10, None, Some 30]"

lemma sample_table_ok: "table_ok H sample_table" "array sample_table = [Some 10, None, Some 30]" "node sample_table = [dummynode]"
  unfolding sample_table_def by (rule table_ok_empty) (simp_all add: MAXASIZE_def MAXBITS_def empty_hash_def empty_nodes_def)

theorem luaH_getn_border_witness:
  "\<exists>n. luaH_getn zero_hash sample_table = Inr n \<and> (n = 0 \<or> isnil_int zero_hash sample_table n = Inr False) \<and>
     isnil_int zero_hash sample_table (n + 1) = Inr True"
  using luaH_getn_border [OF sample_table_ok(1) [of zero_hash]] length_entries [of sample_table] sample_table_ok(2,3) by simp

text \<open>
  C20. A traversal that starts with nil and gives \<open>luaH_next\<close> the last key each time ends, meets
  no key twice, and meets exactly the pairs that \<open>luaH_get\<close> finds.  (The address of a dead key
  must not have come back as the address of another key of the table.)
\<close>

theorem luaH_next_traverses:
  assumes T: "table_ok H t" and st: "no_stale t"
  shows "\<exists>es. traverse (length (array t) + length (node t) + 1) H t KNil = Inr es \<and> distinct (map (key_class \<circ> fst) es) \<and>
     (\<forall>k v. valid_key k \<longrightarrow> (\<exists>s. luaH_get H t k = Inr s \<and> slot_val t s = Some v) \<longleftrightarrow> (\<exists>k'. (k', v) \<in> set es \<and> luaV_rawequalobj k k'))"
proof (intro exI conjI allI impI)
  show "traverse (length (array t) + length (node t) + 1) H t KNil = Inr (entries t)" by (rule traverse_all [OF T st])
  show "distinct (map (key_class \<circ> fst) (entries t))" by (rule entries_distinct [OF T])
next
  fix k v assume k: "valid_key k"
  obtain s where s: "luaH_get H t k = Inr s" "\<forall>v. slot_val t s = Some v \<longleftrightarrow> has t k v" using luaH_get_has [OF T k] by blast
  have "has t k v \<longleftrightarrow> has_in (entries t) k v"
    using resize_has [OF T k, of 0 v 0] by (simp add: has_empty beyond_def entries_def)
  then show "(\<exists>s. luaH_get H t k = Inr s \<and> slot_val t s = Some v) \<longleftrightarrow> (\<exists>k'. (k', v) \<in> set (entries t) \<and> luaV_rawequalobj k k')"
    using s by (simp add: has_in_def)
qed

theorem luaH_next_traverses_witness:
  "\<exists>es. traverse 5 zero_hash sample_table KNil = Inr es \<and> distinct (map (key_class \<circ> fst) es) \<and>
     (\<forall>k v. valid_key k \<longrightarrow> (\<exists>s. luaH_get zero_hash sample_table k = Inr s \<and> slot_val sample_table s = Some v) \<longleftrightarrow>
        (\<exists>k'. (k', v) \<in> set es \<and> luaV_rawequalobj k k'))"
proof -
  have "no_stale sample_table" by (simp add: no_stale_def sample_table_ok(3) dummynode_def)
  moreover have n: "length (array sample_table) + length (node sample_table) + 1 = 5" by (simp add: sample_table_ok(2,3))
  ultimately show ?thesis using luaH_next_traverses [OF sample_table_ok(1), of zero_hash] unfolding n by blast
qed

end
