(* ===== verification/TabLib.thy ===== *)
theory TabLib
  imports LuaNext "HOL-Library.Multiset"
begin

text \<open>
  The table library of Lua (\<open>lua/src/ltablib.c\<close>) on the tables of \<open>ltable.c\<close>: insertion and
  removal of elements, concatenation, packing and unpacking, and the quicksort.  The functions
  take the two operations \<open>rg\<close> and \<open>rs\<close> that read and write an element of the table, which are
  those of \<open>lua_rawgeti\<close> and \<open>lua_rawseti\<close>.  The order of a sort (\<open>sort_comp\<close>) is a function that
  has a state of its own and may fail, as a Lua function may; it leaves the table alone.  Tables
  have no metamethods, so that \<open>luaL_len\<close> is \<open>luaH_getn\<close>.
\<close>

section \<open>Access to elements\<close>

definition table_rawgeti :: "hashing \<Rightarrow> 'v Table \<Rightarrow> int \<Rightarrow> 'v option res" where
  "table_rawgeti H t n = res_bind (luaH_getint H t n) (\<lambda>s. Inr (slot_val t s))"

definition table_rawseti :: "hashing \<Rightarrow> 'v Table \<Rightarrow> int \<Rightarrow> 'v option \<Rightarrow> 'v Table res" where
  "table_rawseti H t n v = luaH_setint H t n v"

definition lua_createtable :: "hashing \<Rightarrow> nat \<Rightarrow> nat \<Rightarrow> 'v Table res" where
  "lua_createtable H narray nrec =
     (if narray > 0 \<or> nrec > 0 then luaH_resize H narray nrec luaH_new else Inr luaH_new)"

definition aux_getn :: "hashing \<Rightarrow> 'v Table \<Rightarrow> int res" where
  "aux_getn H t = res_bind (luaH_getn H t) (\<lambda>n. Inr (int n))"

section \<open>Insertion and removal\<close>

type_synonym ('t, 'v) getter = "'t \<Rightarrow> int \<Rightarrow> 'v res"
type_synonym ('t, 'v) setter = "'t \<Rightarrow> int \<Rightarrow> 'v \<Rightarrow> 't res"

text \<open>\<open>for (i = e; i > pos; i--) t[i] = t[i-1]\<close> and \<open>for (; pos < size; pos++) t[pos] = t[pos+1]\<close>.\<close>

function move_up :: "('t, 'v) getter \<Rightarrow> ('t, 'v) setter \<Rightarrow> int \<Rightarrow> int \<Rightarrow> 't \<Rightarrow> 't res" where
  "move_up rg rs pos i t =
     (if i > pos then res_bind (rg t (i - 1)) (\<lambda>x. res_bind (rs t i x) (move_up rg rs pos (i - 1))) else Inr t)"
  by pat_completeness auto
termination
  by (relation "measure (\<lambda>(rg, rs, pos, i, t). nat (i - pos))") auto

function move_down :: "('t, 'v) getter \<Rightarrow> ('t, 'v) setter \<Rightarrow> int \<Rightarrow> int \<Rightarrow> 't \<Rightarrow> 't res" where
  "move_down rg rs sz pos t =
     (if pos < sz then res_bind (rg t (pos + 1)) (\<lambda>x. res_bind (rs t pos x) (move_down rg rs sz (pos + 1))) else Inr t)"
  by pat_completeness auto
termination
  by (relation "measure (\<lambda>(rg, rs, sz, pos, t). nat (sz - pos))") auto

declare move_up.simps [simp del] move_down.simps [simp del]

text \<open>The overflow of an \<open>int\<close> is a fault.  The arguments after the table; \<open>checkint\<close> is \<open>luaL_checkint\<close>, \<open>None\<close> for what is not a number.\<close>

definition tinsert :: "hashing \<Rightarrow> ('v \<Rightarrow> int option) \<Rightarrow> 'v Table \<Rightarrow> 'v option list \<Rightarrow> 'v Table res" where
  "tinsert H checkint t args =
     res_bind (aux_getn H t) (\<lambda>n. let e = n + 1 in
       if e \<ge> 2 ^ 31 then Inl Int_overflow
       else case args of
         [v] \<Rightarrow> table_rawseti H t e v
       | [p, v] \<Rightarrow>
           (case Option.bind p checkint of
              None \<Rightarrow> Inl (Lua_error ''number expected'')
            | Some pos \<Rightarrow>
                if \<not> (1 \<le> pos \<and> pos \<le> e) then Inl (Lua_error ''position out of bounds'')
                else res_bind (move_up (table_rawgeti H) (table_rawseti H) pos e t) (\<lambda>t. table_rawseti H t pos v))
       | _ \<Rightarrow> Inl (Lua_error ''wrong number of arguments to insert''))"

text \<open>The position is optional.\<close>

definition tremove :: "hashing \<Rightarrow> 'v Table \<Rightarrow> int option \<Rightarrow> ('v Table \<times> 'v option) res" where
  "tremove H t arg =
     res_bind (aux_getn H t) (\<lambda>sz.
       let pos = (case arg of None \<Rightarrow> sz | Some p \<Rightarrow> p)
       in if pos \<noteq> sz \<and> 1 \<le> pos \<and> sz + 1 \<ge> 2 ^ 31 then Inl Int_overflow
          else if pos \<noteq> sz \<and> \<not> (1 \<le> pos \<and> pos \<le> sz + 1) then Inl (Lua_error ''position out of bounds'')
          else res_bind (table_rawgeti H t pos) (\<lambda>r.
               res_bind (move_down (table_rawgeti H) (table_rawseti H) sz pos t) (\<lambda>t.
               res_bind (table_rawseti H t (if pos < sz then sz else pos) None) (\<lambda>t. Inr (t, r)))))"

section \<open>Concatenation, packing and unpacking\<close>

definition addfield :: "('t, 'v) getter \<Rightarrow> ('v \<Rightarrow> string option) \<Rightarrow> 't \<Rightarrow> string \<Rightarrow> int \<Rightarrow> string res" where
  "addfield rg tostr t b i =
     res_bind (rg t i) (\<lambda>x.
       case tostr x of None \<Rightarrow> Inl (Lua_error ''invalid value in table for concat'') | Some s \<Rightarrow> Inr (b @ s))"

function concat_loop :: "('t, 'v) getter \<Rightarrow> ('v \<Rightarrow> string option) \<Rightarrow> 't \<Rightarrow> string \<Rightarrow> int \<Rightarrow> string \<Rightarrow> int \<Rightarrow> (string \<times> int) res" where
  "concat_loop rg tostr t sep lst b i =
     (if i < lst then res_bind (addfield rg tostr t b i) (\<lambda>b. concat_loop rg tostr t sep lst (b @ sep) (i + 1)) else Inr (b, i))"
  by pat_completeness auto
termination
  by (relation "measure (\<lambda>(rg, tostr, t, sep, lst, b, i). nat (lst - i))") auto

declare concat_loop.simps [simp del]

definition tconcat :: "hashing \<Rightarrow> ('v option \<Rightarrow> string option) \<Rightarrow> 'v Table \<Rightarrow> string option \<Rightarrow> int option \<Rightarrow> int option \<Rightarrow> string res" where
  "tconcat H tostr t sep i lst =
     (let sep = (case sep of None \<Rightarrow> '''' | Some s \<Rightarrow> s); i = (case i of None \<Rightarrow> 1 | Some i \<Rightarrow> i)
      in res_bind (case lst of None \<Rightarrow> aux_getn H t | Some l \<Rightarrow> Inr l) (\<lambda>lst.
         res_bind (concat_loop (table_rawgeti H) tostr t sep lst '''' i) (\<lambda>(b, i).
           if i = lst then addfield (table_rawgeti H) tostr t b i else Inr b)))"

text \<open>The elements are assigned from the last one on; \<open>n\<close> is the string of that name.\<close>

fun pack_loop :: "hashing \<Rightarrow> nat \<Rightarrow> 'v option list \<Rightarrow> 'v Table \<Rightarrow> 'v Table res" where
  "pack_loop H i [] t = Inr t"
| "pack_loop H i (v # vs) t = res_bind (table_rawseti H t (int i) v) (pack_loop H (i - 1) vs)"

definition pack_table :: "hashing \<Rightarrow> nat \<Rightarrow> (int \<Rightarrow> 'v) \<Rightarrow> 'v option list \<Rightarrow> 'v Table res" where
  "pack_table H str_n number args =
     (let n = length args
      in res_bind (lua_createtable H n 1) (\<lambda>t.
         res_bind (table_set H t (KShr str_n) (Some (number (int n)))) (\<lambda>t.
         if n > 0
         then res_bind (table_rawseti H t 1 (args ! 0)) (pack_loop H n (rev (drop 1 args)))
         else Inr t)))"

text \<open>
  The loop \<open>while (i++ < e)\<close> increments \<open>i\<close> once more when it ends.  \<open>checkstack\<close> says for how
  many values there is space on the stack.
\<close>

function unpack_loop :: "('t, 'v) getter \<Rightarrow> 't \<Rightarrow> int \<Rightarrow> int \<Rightarrow> 'v list res" where
  "unpack_loop rg t i e =
     (if i < e then res_bind (rg t (i + 1)) (\<lambda>x. res_bind (unpack_loop rg t (i + 1) e) (\<lambda>xs. Inr (x # xs)))
      else if i = 2 ^ 31 - 1 then Inl Int_overflow else Inr [])"
  by pat_completeness auto
termination
  by (relation "measure (\<lambda>(rg, t, i, e). nat (e - i))") auto

declare unpack_loop.simps [simp del]

definition unpack_table :: "hashing \<Rightarrow> (int \<Rightarrow> bool) \<Rightarrow> 'v Table \<Rightarrow> int option \<Rightarrow> int option \<Rightarrow> 'v option list res" where
  "unpack_table H checkstack t i e =
     (let i = (case i of None \<Rightarrow> 1 | Some i \<Rightarrow> i)
      in res_bind (case e of None \<Rightarrow> aux_getn H t | Some e \<Rightarrow> Inr e) (\<lambda>e.
         if i > e then Inr []
         else if e - i + 1 \<ge> 2 ^ 31 then Inl Int_overflow
         else if \<not> checkstack (e - i + 1) then Inl (Lua_error ''too many results to unpack'')
         else res_bind (table_rawgeti H t i) (\<lambda>x. res_bind (unpack_loop (table_rawgeti H) t i e) (\<lambda>xs. Inr (x # xs)))))"

section \<open>Sorting\<close>

definition set2 :: "('t, 'v) setter \<Rightarrow> 't \<Rightarrow> int \<Rightarrow> int \<Rightarrow> 'v \<Rightarrow> 'v \<Rightarrow> 't res" where
  "set2 rs t i j v1 v2 = res_bind (rs t i v1) (\<lambda>t. rs t j v2)"

type_synonym ('s, 'v) order = "'s \<Rightarrow> 'v \<Rightarrow> 'v \<Rightarrow> (bool \<times> 's) res"

text \<open>\<open>while (t[++i] < P)\<close> and \<open>while (P < t[--j])\<close>, with the check for an invalid order.\<close>

function scan_up :: "('t, 'v) getter \<Rightarrow> ('s, 'v) order \<Rightarrow> 't \<Rightarrow> int \<Rightarrow> 'v \<Rightarrow> int \<Rightarrow> 's \<Rightarrow> (int \<times> 'v \<times> 's) res" where
  "scan_up rg cmp t u P i s =
     res_bind (rg t (i + 1)) (\<lambda>x.
     res_bind (cmp s x P) (\<lambda>(b, s).
       if b then if i + 1 \<ge> u then Inl (Lua_error ''invalid order function for sorting'') else scan_up rg cmp t u P (i + 1) s
       else Inr (i + 1, x, s)))"
  by pat_completeness auto
termination
  by (relation "measure (\<lambda>(rg, cmp, t, u, P, i, s). nat (u - i))") auto

function scan_down :: "('t, 'v) getter \<Rightarrow> ('s, 'v) order \<Rightarrow> 't \<Rightarrow> int \<Rightarrow> 'v \<Rightarrow> int \<Rightarrow> 's \<Rightarrow> (int \<times> 'v \<times> 's) res" where
  "scan_down rg cmp t l P j s =
     res_bind (rg t (j - 1)) (\<lambda>x.
     res_bind (cmp s P x) (\<lambda>(b, s).
       if b then if j - 1 \<le> l then Inl (Lua_error ''invalid order function for sorting'') else scan_down rg cmp t l P (j - 1) s
       else Inr (j - 1, x, s)))"
  by pat_completeness auto
termination
  by (relation "measure (\<lambda>(rg, cmp, t, l, P, j, s). nat (j - l))") auto

declare scan_up.simps [simp del] scan_down.simps [simp del]

lemma scan_up_result: "scan_up rg cmp t u P i s = Inr (i', x, s') \<Longrightarrow> i < i' \<and> (i < u \<longrightarrow> i' \<le> u)"
proof (induction rg cmp t u P i s rule: scan_up.induct)
  case (1 rg cmp t u P i s)
  from "1.prems" show ?case
    by (subst (asm) scan_up.simps) (auto simp: res_bind_Inr dest!: "1.IH" split: if_splits prod.splits)
qed

lemma scan_down_result: "scan_down rg cmp t l P j s = Inr (j', x, s') \<Longrightarrow> j' < j \<and> (l < j \<longrightarrow> l \<le> j')"
proof (induction rg cmp t l P j s rule: scan_down.induct)
  case (1 rg cmp t l P j s)
  from "1.prems" show ?case
    by (subst (asm) scan_down.simps) (auto simp: res_bind_Inr dest!: "1.IH" split: if_splits prod.splits)
qed

text \<open>The loop of the partition; it is not entered again once \<open>j < i\<close>.\<close>

function partition_loop ::
    "('t, 'v) getter \<Rightarrow> ('t, 'v) setter \<Rightarrow> ('s, 'v) order \<Rightarrow> int \<Rightarrow> int \<Rightarrow> 'v \<Rightarrow> int \<Rightarrow> int \<Rightarrow> 't \<Rightarrow> 's \<Rightarrow> ('t \<times> int \<times> 's) res" where
  "partition_loop rg rs cmp l u P i j t s =
     res_bind (scan_up rg cmp t u P i s) (\<lambda>(i', x, s).
     res_bind (scan_down rg cmp t l P j s) (\<lambda>(j', y, s).
       if j' < i' then Inr (t, i', s)
       else res_bind (set2 rs t i' j' y x) (\<lambda>t. partition_loop rg rs cmp l u P i' j' t s)))"
  by pat_completeness auto
termination
  by (relation "measure (\<lambda>(rg, rs, cmp, l, u, P, i, j, t, s). nat (j - i))")
    (auto dest!: scan_up_result scan_down_result)

declare partition_loop.simps [simp del]

definition sort_ends :: "('t, 'v) getter \<Rightarrow> ('t, 'v) setter \<Rightarrow> ('s, 'v) order \<Rightarrow> int \<Rightarrow> int \<Rightarrow> 't \<Rightarrow> 's \<Rightarrow> ('t \<times> 's) res" where
  "sort_ends rg rs cmp l u t s =
     res_bind (rg t l) (\<lambda>x. res_bind (rg t u) (\<lambda>y. res_bind (cmp s y x) (\<lambda>(b, s).
       if b then res_bind (set2 rs t l u y x) (\<lambda>t. Inr (t, s)) else Inr (t, s))))"

definition sort_middle :: "('t, 'v) getter \<Rightarrow> ('t, 'v) setter \<Rightarrow> ('s, 'v) order \<Rightarrow> int \<Rightarrow> int \<Rightarrow> int \<Rightarrow> 't \<Rightarrow> 's \<Rightarrow> ('t \<times> 's) res" where
  "sort_middle rg rs cmp l i u t s =
     res_bind (rg t i) (\<lambda>x. res_bind (rg t l) (\<lambda>y. res_bind (cmp s x y) (\<lambda>(b, s).
       if b then res_bind (set2 rs t i l y x) (\<lambda>t. Inr (t, s))
       else res_bind (rg t u) (\<lambda>z. res_bind (cmp s z x) (\<lambda>(b, s).
              if b then res_bind (set2 rs t i u z x) (\<lambda>t. Inr (t, s)) else Inr (t, s))))))"

definition split_range :: "('t, 'v) getter \<Rightarrow> ('t, 'v) setter \<Rightarrow> ('s, 'v) order \<Rightarrow> int \<Rightarrow> int \<Rightarrow> int \<Rightarrow> 't \<Rightarrow> 's \<Rightarrow> ('t \<times> int \<times> 's) res" where
  "split_range rg rs cmp l i u t s =
     res_bind (rg t i) (\<lambda>P. res_bind (rg t (u - 1)) (\<lambda>q.
     res_bind (set2 rs t i (u - 1) q P) (\<lambda>t.
     res_bind (partition_loop rg rs cmp l u P l (u - 1) t s) (\<lambda>(t, i, s).
     res_bind (rg t (u - 1)) (\<lambda>x. res_bind (rg t i) (\<lambda>y.
     res_bind (set2 rs t (u - 1) i y x) (\<lambda>t. Inr (t, i, s))))))))"

lemma partition_loop_result:
  "partition_loop rg rs cmp l u P i j t s = Inr (t', i', s') \<Longrightarrow> i < u \<Longrightarrow> j \<le> u \<Longrightarrow> i < i' \<and> i' \<le> u"
proof (induction rg rs cmp l u P i j t s rule: partition_loop.induct)
  case (1 rg rs cmp l u P i j t s)
  from "1.prems"(1) obtain i1 x s1 j1 y s2 where
    up: "scan_up rg cmp t u P i s = Inr (i1, x, s1)" and down: "scan_down rg cmp t l P j s1 = Inr (j1, y, s2)" and
    r: "(if j1 < i1 then Inr (t, i1, s2) else res_bind (set2 rs t i1 j1 y x) (\<lambda>t. partition_loop rg rs cmp l u P i1 j1 t s2)) = Inr (t', i', s')"
    by (subst (asm) partition_loop.simps) (auto simp: res_bind_Inr split: prod.splits)
  note b = scan_up_result [OF up] scan_down_result [OF down]
  show ?case
  proof (cases "j1 < i1")
    case True
    then show ?thesis using r b "1.prems"(2) by simp
  next
    case False
    then obtain t1 where "set2 rs t i1 j1 y x = Inr t1" "partition_loop rg rs cmp l u P i1 j1 t1 s2 = Inr (t', i', s')"
      using r by (auto simp: res_bind_Inr)
    from "1.IH" [OF up refl refl down refl refl False this(1,2)] show ?thesis using b False "1.prems"(2,3) by simp
  qed
qed

lemma split_range_result: "split_range rg rs cmp l i u t s = Inr (t', i', s') \<Longrightarrow> l < u \<Longrightarrow> l < i' \<and> i' \<le> u"
  by (auto simp: split_range_def res_bind_Inr dest!: partition_loop_result split: prod.splits)

text \<open>The smaller part is sorted by a recursive call, the other one by the loop.\<close>

function auxsort :: "('t, 'v) getter \<Rightarrow> ('t, 'v) setter \<Rightarrow> ('s, 'v) order \<Rightarrow> int \<Rightarrow> int \<Rightarrow> 't \<Rightarrow> 's \<Rightarrow> ('t \<times> 's) res" where
  "auxsort rg rs cmp l u t s =
     (if l < u
      then res_bind (sort_ends rg rs cmp l u t s) (\<lambda>(t, s).
           if u - l = 1 then Inr (t, s)
           else if l + u \<ge> 2 ^ 31 then Inl Int_overflow
           else res_bind (sort_middle rg rs cmp l ((l + u) div 2) u t s) (\<lambda>(t, s).
             if u - l = 2 then Inr (t, s)
             else res_bind (split_range rg rs cmp l ((l + u) div 2) u t s) (\<lambda>(t, i, s).
               if i - l < u - i
               then res_bind (auxsort rg rs cmp l (i - 1) t s) (\<lambda>(t, s). auxsort rg rs cmp (i + 1) u t s)
               else res_bind (auxsort rg rs cmp (i + 1) u t s) (\<lambda>(t, s). auxsort rg rs cmp l (i - 1) t s))))
      else Inr (t, s))"
  by pat_completeness auto
termination
  by (relation "measure (\<lambda>(rg, rs, cmp, l, u, t, s). nat (u - l))")
    (auto dest!: split_range_result)

declare auxsort.simps [simp del]

definition sort_table :: "hashing \<Rightarrow> ('s, 'v option) order \<Rightarrow> 'v Table \<Rightarrow> 's \<Rightarrow> ('v Table \<times> 's) res" where
  "sort_table H cmp t s = res_bind (aux_getn H t) (\<lambda>n. auxsort (table_rawgeti H) (table_rawseti H) cmp 1 n t s)"

end
