(* ===== verification/TabSort.thy ===== *)
theory TabSort imports TabLib begin

text \<open>
  The sort of the table library: for every order function it ends and permutes the
  elements, and for a strict weak order it sorts them.
\<close>

section \<open>Outcomes\<close>

text \<open>\<open>outcome E Q r\<close>: an error satisfies \<open>E\<close>, a result \<open>Q\<close>.\<close>

definition outcome :: "(fault \<Rightarrow> bool) \<Rightarrow> ('a \<Rightarrow> bool) \<Rightarrow> 'a res \<Rightarrow> bool" where
  "outcome E Q r = (case r of Inl e \<Rightarrow> E e | Inr x \<Rightarrow> Q x)"

lemma outcome_simps [simp]: "outcome E Q (Inl e) = E e" "outcome E Q (Inr x) = Q x"
  by (simp_all add: outcome_def)

lemma outcome_bind: "outcome E P r \<Longrightarrow> (\<And>x. r = Inr x \<Longrightarrow> P x \<Longrightarrow> outcome E Q (k x)) \<Longrightarrow> outcome E Q (res_bind r k)"
  by (cases r) simp_all

lemma outcome_bind2:
  "outcome E (\<lambda>(a, b). P a b) r \<Longrightarrow> (\<And>a b. P a b \<Longrightarrow> outcome E Q (k (a, b))) \<Longrightarrow> outcome E Q (res_bind r k)"
  by (cases r) auto

lemma outcome_bind3:
  "outcome E (\<lambda>(a, b, c). P a b c) r \<Longrightarrow> (\<And>a b c. P a b c \<Longrightarrow> outcome E Q (k (a, b, c))) \<Longrightarrow> outcome E Q (res_bind r k)"
  by (cases r) auto

lemma outcome_mono: "outcome E P r \<Longrightarrow> (\<And>x. r = Inr x \<Longrightarrow> P x \<Longrightarrow> Q x) \<Longrightarrow> outcome E Q r"
  by (cases r) simp_all

section \<open>Rearrangements\<close>

definition rearranged :: "int set \<Rightarrow> (int \<Rightarrow> 'v) \<Rightarrow> (int \<Rightarrow> 'v) \<Rightarrow> bool" where
  "rearranged A f g \<longleftrightarrow> (\<exists>p. bij_betw p A A \<and> (\<forall>i\<in>A. g i = f (p i)) \<and> (\<forall>i. i \<notin> A \<longrightarrow> g i = f i))"

lemma rearranged_refl [simp, intro]: "rearranged A f f"
  unfolding rearranged_def by (intro exI [of _ id]) (auto simp: bij_betw_def)

lemma rearranged_trans: "rearranged A f g \<Longrightarrow> rearranged A g h \<Longrightarrow> rearranged A f h"
  unfolding rearranged_def
proof (elim exE conjE)
  fix p q
  assume p: "bij_betw p A A" "\<forall>i\<in>A. g i = f (p i)" "\<forall>i. i \<notin> A \<longrightarrow> g i = f i"
    and q: "bij_betw q A A" "\<forall>i\<in>A. h i = g (q i)" "\<forall>i. i \<notin> A \<longrightarrow> h i = g i"
  have "q i \<in> A" if "i \<in> A" for i using q(1) that by (auto simp: bij_betw_def)
  then show "\<exists>p. bij_betw p A A \<and> (\<forall>i\<in>A. h i = f (p i)) \<and> (\<forall>i. i \<notin> A \<longrightarrow> h i = f i)"
    using p q by (intro exI [of _ "p \<circ> q"]) (auto intro: bij_betw_trans)
qed

lemma rearranged_swap: "i \<in> A \<Longrightarrow> j \<in> A \<Longrightarrow> rearranged A f (f(i := f j, j := f i))"
  unfolding rearranged_def
proof (intro exI conjI)
  assume ij: "i \<in> A" "j \<in> A"
  let ?p = "id(i := j, j := i)"
  have "bij_betw ?p A A" by (rule bij_betw_byWitness [where f' = ?p]) (use ij in \<open>auto split: if_splits\<close>)
  then show "bij_betw ?p A A" .
  show "\<forall>k\<in>A. (f(i := f j, j := f i)) k = f (?p k)" by auto
  show "\<forall>k. k \<notin> A \<longrightarrow> (f(i := f j, j := f i)) k = f k" using ij by auto
qed

lemma rearranged_mono: "A \<subseteq> B \<Longrightarrow> rearranged A f g \<Longrightarrow> rearranged B f g"
  unfolding rearranged_def
proof (elim exE conjE)
  fix p assume AB: "A \<subseteq> B" and p: "bij_betw p A A" "\<forall>i\<in>A. g i = f (p i)" "\<forall>i. i \<notin> A \<longrightarrow> g i = f i"
  let ?q = "\<lambda>i. if i \<in> A then p i else i"
  have "bij_betw ?q (A \<union> (B - A)) (A \<union> (B - A))"
    using p(1) by (intro bij_betw_combine) (auto simp: bij_betw_def inj_on_def cong: bij_betw_cong)
  moreover have "A \<union> (B - A) = B" using AB by blast
  ultimately show "\<exists>p. bij_betw p B B \<and> (\<forall>i\<in>B. g i = f (p i)) \<and> (\<forall>i. i \<notin> B \<longrightarrow> g i = f i)"
    using p AB by (intro exI [of _ ?q]) auto
qed

lemma rearranged_all: "rearranged A f g \<Longrightarrow> \<forall>i\<in>A. Q (f i) \<Longrightarrow> i \<in> A \<Longrightarrow> Q (g i)"
  unfolding rearranged_def bij_betw_def by (metis image_eqI)

lemma rearranged_outside: "rearranged A f g \<Longrightarrow> i \<notin> A \<Longrightarrow> g i = f i"
  by (auto simp: rearranged_def)

lemma rearranged_parts:
  assumes "rearranged A f g" "rearranged B g h" "A \<inter> B = {}"
  shows "\<forall>k\<in>A. Q (f k) \<Longrightarrow> k \<in> A \<Longrightarrow> Q (h k)" "\<forall>k\<in>B. Q (f k) \<Longrightarrow> k \<in> B \<Longrightarrow> Q (h k)"
proof -
  assume q: "\<forall>k\<in>A. Q (f k)" "k \<in> A"
  have "Q (g k)" by (rule rearranged_all [OF assms(1) q])
  moreover have "h k = g k" using assms(2,3) q(2) by (intro rearranged_outside) auto
  ultimately show "Q (h k)" by simp
next
  assume q: "\<forall>k\<in>B. Q (f k)" "k \<in> B"
  have "g k = f k" if "k \<in> B" for k using assms(1,3) that by (intro rearranged_outside) auto
  then have "\<forall>k\<in>B. Q (g k)" using q(1) by simp
  then show "Q (h k)" by (rule rearranged_all [OF assms(2) _ q(2)])
qed

lemma rearranged_mset: "rearranged A f g \<Longrightarrow> finite A \<Longrightarrow> image_mset g (mset_set A) = image_mset f (mset_set A)"
proof -
  assume r: "rearranged A f g" and fin: "finite A"
  then obtain p where p: "bij_betw p A A" "\<forall>i\<in>A. g i = f (p i)" by (auto simp: rearranged_def)
  have "image_mset g (mset_set A) = image_mset (f \<circ> p) (mset_set A)" using p(2) fin by (intro image_mset_cong) auto
  also have "\<dots> = image_mset f (image_mset p (mset_set A))" by (simp add: multiset.map_comp)
  also have "image_mset p (mset_set A) = mset_set A" using p(1) by (simp add: bij_betw_def image_mset_mset_set)
  finally show ?thesis .
qed

section \<open>Access to a range of elements\<close>

text \<open>What the library needs of a table: within a range, reading gives the element and writing changes it only.\<close>

locale rawseq =
  fixes rg :: "'t \<Rightarrow> int \<Rightarrow> 'v res" and rs :: "'t \<Rightarrow> int \<Rightarrow> 'v \<Rightarrow> 't res"
    and view :: "'t \<Rightarrow> int \<Rightarrow> 'v" and inv :: "'t \<Rightarrow> bool" and D :: "'v set" and lo hi :: int
  assumes rg_ok: "inv t \<Longrightarrow> lo \<le> i \<Longrightarrow> i \<le> hi \<Longrightarrow> rg t i = Inr (view t i)"
    and view_D: "inv t \<Longrightarrow> lo \<le> i \<Longrightarrow> i \<le> hi \<Longrightarrow> view t i \<in> D"
    and rs_ok: "inv t \<Longrightarrow> lo \<le> i \<Longrightarrow> i \<le> hi \<Longrightarrow> v \<in> D \<Longrightarrow> \<exists>t'. rs t i v = Inr t' \<and> inv t' \<and> view t' = (view t)(i := v)"
begin

lemma set2_ok:
  assumes "inv t" "lo \<le> i" "i \<le> hi" "lo \<le> j" "j \<le> hi" "x \<in> D" "y \<in> D"
  shows "\<exists>t'. set2 rs t i j x y = Inr t' \<and> inv t' \<and> view t' = (view t)(i := x, j := y)"
proof -
  obtain t1 where t1: "rs t i x = Inr t1" "inv t1" "view t1 = (view t)(i := x)" using rs_ok [OF assms(1-3,6)] by blast
  obtain t2 where "rs t1 j y = Inr t2" "inv t2" "view t2 = (view t1)(j := y)" using rs_ok [OF t1(2) assms(4,5,7)] by blast
  then show ?thesis using t1 by (auto simp: set2_def)
qed

lemma move_up_ok:
  assumes "inv t" "lo \<le> pos" "i \<le> hi"
  shows "\<exists>t'. move_up rg rs pos i t = Inr t' \<and> inv t' \<and> view t' = (\<lambda>k. if pos < k \<and> k \<le> i then view t (k - 1) else view t k)"
  using assms
proof (induction "nat (i - pos)" arbitrary: i t rule: less_induct)
  case less
  show ?case
  proof (cases "i > pos")
    case True
    have r: "rg t (i - 1) = Inr (view t (i - 1))" using less.prems True by (intro rg_ok) auto
    obtain t1 where t1: "rs t i (view t (i - 1)) = Inr t1" "inv t1" "view t1 = (view t)(i := view t (i - 1))"
      using rs_ok [of t i] view_D [of t "i - 1"] less.prems True by auto
    obtain t2 where t2: "move_up rg rs pos (i - 1) t1 = Inr t2" "inv t2"
      "view t2 = (\<lambda>k. if pos < k \<and> k \<le> i - 1 then view t1 (k - 1) else view t1 k)"
      using less.hyps [of "i - 1" t1] less.prems t1(2) True by auto
    have "view t2 = (\<lambda>k. if pos < k \<and> k \<le> i then view t (k - 1) else view t k)"
      unfolding t2(3) t1(3) using True by (intro ext) auto
    then show ?thesis using r t1(1) t2(1,2) True by (subst move_up.simps) simp
  next
    case False
    then show ?thesis using less.prems(1) by (subst move_up.simps) (auto simp: fun_eq_iff)
  qed
qed

lemma move_down_ok:
  assumes "inv t" "lo \<le> pos" "sz \<le> hi"
  shows "\<exists>t'. move_down rg rs sz pos t = Inr t' \<and> inv t' \<and> view t' = (\<lambda>k. if pos \<le> k \<and> k < sz then view t (k + 1) else view t k)"
  using assms
proof (induction "nat (sz - pos)" arbitrary: pos t rule: less_induct)
  case less
  show ?case
  proof (cases "pos < sz")
    case True
    have r: "rg t (pos + 1) = Inr (view t (pos + 1))" using less.prems True by (intro rg_ok) auto
    obtain t1 where t1: "rs t pos (view t (pos + 1)) = Inr t1" "inv t1" "view t1 = (view t)(pos := view t (pos + 1))"
      using rs_ok [of t pos] view_D [of t "pos + 1"] less.prems True by auto
    obtain t2 where t2: "move_down rg rs sz (pos + 1) t1 = Inr t2" "inv t2"
      "view t2 = (\<lambda>k. if pos + 1 \<le> k \<and> k < sz then view t1 (k + 1) else view t1 k)"
      using less.hyps [of "pos + 1" t1] less.prems t1(2) True by auto
    have "view t2 = (\<lambda>k. if pos \<le> k \<and> k < sz then view t (k + 1) else view t k)"
      unfolding t2(3) t1(3) using True by (intro ext) auto
    then show ?thesis using r t1(1) t2(1,2) True by (subst move_down.simps) simp
  next
    case False
    then show ?thesis using less.prems(1) by (subst move_down.simps) (auto simp: fun_eq_iff)
  qed
qed

lemma unpack_loop_ok:
  assumes "inv t" "lo \<le> i + 1" "e \<le> hi" "i \<le> e" "e < 2 ^ 31 - 1"
  shows "unpack_loop rg t i e = Inr (map (view t) [i + 1..e])"
  using assms
proof (induction "nat (e - i)" arbitrary: i rule: less_induct)
  case less
  show ?case
  proof (cases "i < e")
    case True
    have "rg t (i + 1) = Inr (view t (i + 1))" using less.prems True by (intro rg_ok) auto
    moreover have "unpack_loop rg t (i + 1) e = Inr (map (view t) [i + 1 + 1..e])" using less.prems True by (intro less.hyps) auto
    ultimately show ?thesis using True by (subst unpack_loop.simps) (simp add: upto_rec1)
  next
    case False
    then show ?thesis using less.prems by (subst unpack_loop.simps) simp
  qed
qed

end

text \<open>
  An order function: it may be anything, and when \<open>V\<close> holds it is the strict weak order
  \<open>lt\<close>.  The errors of a sort are its errors and the check of the order.
\<close>

definition sort_err :: "bool \<Rightarrow> ('s, 'v) order \<Rightarrow> fault \<Rightarrow> bool" where
  "sort_err V cmp e \<longleftrightarrow> \<not> V \<and> (e = Lua_error ''invalid order function for sorting'' \<or> (\<exists>s x y. cmp s x y = Inl e))"

text \<open>Where the two scans stop.\<close>

definition split_at :: "bool \<Rightarrow> ('v \<Rightarrow> 'v \<Rightarrow> bool) \<Rightarrow> (int \<Rightarrow> 'v) \<Rightarrow> int \<Rightarrow> int \<Rightarrow> 'v \<Rightarrow> int \<Rightarrow> bool" where
  "split_at V lt f l u P i \<longleftrightarrow> (V \<longrightarrow> i < u \<and> f (u - 1) = P \<and>
     (\<forall>k. l \<le> k \<longrightarrow> k < i \<longrightarrow> \<not> lt P (f k)) \<and> (\<forall>k. i \<le> k \<longrightarrow> k \<le> u \<longrightarrow> \<not> lt (f k) P))"

definition sorted_range :: "('v \<Rightarrow> 'v \<Rightarrow> bool) \<Rightarrow> (int \<Rightarrow> 'v) \<Rightarrow> int \<Rightarrow> int \<Rightarrow> bool" where
  "sorted_range lt f l u \<longleftrightarrow> (\<forall>i j. l \<le> i \<longrightarrow> i \<le> j \<longrightarrow> j \<le> u \<longrightarrow> \<not> lt (f j) (f i))"

definition stopped_up :: "bool \<Rightarrow> ('v \<Rightarrow> 'v \<Rightarrow> bool) \<Rightarrow> (int \<Rightarrow> 'v) \<Rightarrow> int \<Rightarrow> 'v \<Rightarrow> int \<Rightarrow> int \<times> 'v \<times> 's \<Rightarrow> bool" where
  "stopped_up V lt f u P i r = (case r of (i', x, s) \<Rightarrow> i < i' \<and> i' \<le> u \<and> x = f i' \<and>
     (V \<longrightarrow> i' < u \<and> (\<forall>k. i < k \<longrightarrow> k < i' \<longrightarrow> lt (f k) P) \<and> \<not> lt (f i') P))"

definition stopped_down :: "bool \<Rightarrow> ('v \<Rightarrow> 'v \<Rightarrow> bool) \<Rightarrow> (int \<Rightarrow> 'v) \<Rightarrow> int \<Rightarrow> 'v \<Rightarrow> int \<Rightarrow> int \<times> 'v \<times> 's \<Rightarrow> bool" where
  "stopped_down V lt f l P j r = (case r of (j', x, s) \<Rightarrow> j' < j \<and> l \<le> j' \<and> x = f j' \<and>
     (V \<longrightarrow> (\<forall>k. j' < k \<longrightarrow> k < j \<longrightarrow> lt P (f k)) \<and> \<not> lt P (f j')))"

lemma stopped_upE:
  assumes "stopped_up V lt f u P i r"
  obtains i' x s where "r = (i', x, s)" "i < i'" "i' \<le> u" "x = f i'" "V \<longrightarrow> i' < u \<and> (\<forall>k. i < k \<longrightarrow> k < i' \<longrightarrow> lt (f k) P) \<and> \<not> lt (f i') P"
  using assms by (auto simp: stopped_up_def)

lemma stopped_downE:
  assumes "stopped_down V lt f l P j r"
  obtains j' x s where "r = (j', x, s)" "j' < j" "l \<le> j'" "x = f j'" "V \<longrightarrow> (\<forall>k. j' < k \<longrightarrow> k < j \<longrightarrow> lt P (f k)) \<and> \<not> lt P (f j')"
  using assms by (auto simp: stopped_down_def)

lemma stopped_up_step: "stopped_up V lt f u P (i + 1) r \<Longrightarrow> V \<longrightarrow> lt (f (i + 1)) P \<Longrightarrow> stopped_up V lt f u P i r"
  unfolding stopped_up_def
proof (clarify, intro conjI impI allI)
  fix i' x s k assume *: "V \<longrightarrow> lt (f (i + 1)) P" "V \<longrightarrow> i' < u \<and> (\<forall>k>i + 1. k < i' \<longrightarrow> lt (f k) P) \<and> \<not> lt (f i') P" "V" "i < k" "k < i'"
  then show "lt (f k) P" by (cases "k = i + 1") auto
qed auto

lemma stopped_down_step: "stopped_down V lt f l P (j - 1) r \<Longrightarrow> V \<longrightarrow> lt P (f (j - 1)) \<Longrightarrow> stopped_down V lt f l P j r"
  unfolding stopped_down_def
proof (clarify, intro conjI impI allI)
  fix j' x s k assume *: "V \<longrightarrow> lt P (f (j - 1))" "V \<longrightarrow> (\<forall>k>j'. k < j - 1 \<longrightarrow> lt P (f k)) \<and> \<not> lt P (f j')" "V" "j' < k" "k < j"
  then show "lt P (f k)" by (cases "k = j - 1") auto
qed auto

locale sorting = rawseq rg rs view inv D lo hi
  for rg :: "'t \<Rightarrow> int \<Rightarrow> 'v res" and rs view inv D lo hi +
  fixes cmp :: "'s \<Rightarrow> 'v \<Rightarrow> 'v \<Rightarrow> (bool \<times> 's) res" and lt :: "'v \<Rightarrow> 'v \<Rightarrow> bool" and V :: bool
  assumes cmp_less: "V \<Longrightarrow> x \<in> D \<Longrightarrow> y \<in> D \<Longrightarrow> cmp s x y = Inr (lt x y, s)"
    and asym: "V \<Longrightarrow> lt x y \<Longrightarrow> \<not> lt y x"
    and negtrans: "V \<Longrightarrow> \<not> lt x y \<Longrightarrow> \<not> lt y z \<Longrightarrow> \<not> lt x z"
    and small: "inv t \<Longrightarrow> 2 * hi < 2 ^ 31"
begin

lemma cmp_outcome: "x \<in> D \<Longrightarrow> y \<in> D \<Longrightarrow> outcome (sort_err V cmp) (\<lambda>(b, s'). V \<longrightarrow> b = lt x y) (cmp s x y)"
  using cmp_less [of x y s] by (cases "cmp s x y") (auto simp: sort_err_def)

lemma outcome_cmp:
  assumes "x \<in> D" "y \<in> D" "\<And>b s'. V \<longrightarrow> b = lt x y \<Longrightarrow> outcome (sort_err V cmp) Q (k (b, s'))"
  shows "outcome (sort_err V cmp) Q (res_bind (cmp s x y) k)"
  by (rule outcome_bind [OF cmp_outcome [OF assms(1,2)]]) (use assms(3) in auto)

lemma scan_up_outcome:
  assumes "inv t" "lo \<le> i" "i < u" "u \<le> hi" and P: "P \<in> D" and ex: "V \<Longrightarrow> \<exists>k. i < k \<and> k < u \<and> \<not> lt (view t k) P"
  shows "outcome (sort_err V cmp) (stopped_up V lt (view t) u P i) (scan_up rg cmp t u P i s)"
  using assms(2,3) ex
proof (induction "nat (u - i)" arbitrary: i s rule: less_induct)
  case less
  have g: "rg t (i + 1) = Inr (view t (i + 1))" and d: "view t (i + 1) \<in> D" using less.prems assms(1,4) by (auto intro: rg_ok view_D)
  have "outcome (sort_err V cmp) (stopped_up V lt (view t) u P i)
     (if b then if i + 1 \<ge> u then Inl (Lua_error ''invalid order function for sorting'') else scan_up rg cmp t u P (i + 1) s'
      else Inr (i + 1, view t (i + 1), s'))" if b: "V \<longrightarrow> b = lt (view t (i + 1)) P" for b s'
  proof (cases b)
    case True
    have ex: "\<exists>k. i + 1 < k \<and> k < u \<and> \<not> lt (view t k) P" if "V"
    proof -
      from less.prems(3) [OF that] obtain k where k: "i < k" "k < u" "\<not> lt (view t k) P" by blast
      moreover have "k \<noteq> i + 1" using k(3) b True that by auto
      ultimately show ?thesis by (intro exI [of _ k]) simp
    qed
    show ?thesis
    proof (cases "i + 1 \<ge> u")
      case e: True
      then have "\<not> V" using ex by auto
      then show ?thesis using True e by (simp add: sort_err_def)
    next
      case e: False
      have "outcome (sort_err V cmp) (stopped_up V lt (view t) u P (i + 1)) (scan_up rg cmp t u P (i + 1) s')"
        using less.hyps [of "i + 1"] e less.prems ex by simp
      then have "outcome (sort_err V cmp) (stopped_up V lt (view t) u P i) (scan_up rg cmp t u P (i + 1) s')"
        by (rule outcome_mono) (erule stopped_up_step, use b True in simp)
      then show ?thesis using True e by simp
    qed
  next
    case False
    then show ?thesis using b less.prems(2,3) by (auto simp: stopped_up_def)
  qed
  then show ?case
    by (subst scan_up.simps) (auto simp: g intro!: outcome_cmp [OF d P] split: prod.splits)
qed

lemma scan_down_outcome:
  assumes "inv t" "lo \<le> l" "l < j" "j \<le> hi + 1" and P: "P \<in> D" and first: "V \<Longrightarrow> \<not> lt P (view t l)"
  shows "outcome (sort_err V cmp) (stopped_down V lt (view t) l P j) (scan_down rg cmp t l P j s)"
  using assms(3,4)
proof (induction "nat (j - l)" arbitrary: j s rule: less_induct)
  case less
  have g: "rg t (j - 1) = Inr (view t (j - 1))" and d: "view t (j - 1) \<in> D" using less.prems assms(1,2) by (auto intro: rg_ok view_D)
  have "outcome (sort_err V cmp) (stopped_down V lt (view t) l P j)
     (if b then if j - 1 \<le> l then Inl (Lua_error ''invalid order function for sorting'') else scan_down rg cmp t l P (j - 1) s'
      else Inr (j - 1, view t (j - 1), s'))" if b: "V \<longrightarrow> b = lt P (view t (j - 1))" for b s'
  proof (cases "b \<and> \<not> j - 1 \<le> l")
    case True
    have "outcome (sort_err V cmp) (stopped_down V lt (view t) l P (j - 1)) (scan_down rg cmp t l P (j - 1) s')"
      using less.hyps [of "j - 1"] True less.prems by simp
    then have "outcome (sort_err V cmp) (stopped_down V lt (view t) l P j) (scan_down rg cmp t l P (j - 1) s')"
      by (rule outcome_mono) (erule stopped_down_step, use b True in simp)
    then show ?thesis using True by simp
  next
    case False
    have "view t (j - 1) = view t l" if "j - 1 \<le> l"
    proof -
      have "j = l + 1" using that less.prems(1) by simp
      then show ?thesis by simp
    qed
    then show ?thesis using b False first less.prems(1) by (cases b) (auto simp: stopped_down_def sort_err_def)
  qed
  then show ?case
    by (subst scan_down.simps) (auto simp: g intro!: outcome_cmp [OF P d] split: prod.splits)
qed

text \<open>The invariant of the partition, as the comment in the code has it: \<open>a[l..i] \<le> P \<le> a[j..u]\<close>.\<close>

lemma partition_outcome:
  assumes "inv t" "lo \<le> l" "u \<le> hi" "l \<le> i" "i < u - 1" "i \<le> j" "l < j" "j \<le> u - 1"
    and P: "P \<in> D" and "V \<Longrightarrow> view t (u - 1) = P" "V \<Longrightarrow> \<forall>k. l \<le> k \<longrightarrow> k \<le> i \<longrightarrow> \<not> lt P (view t k)" "V \<Longrightarrow> \<forall>k. j \<le> k \<longrightarrow> k \<le> u \<longrightarrow> \<not> lt (view t k) P"
  shows "outcome (sort_err V cmp) (\<lambda>(t', i', s'). inv t' \<and> rearranged {l..u} (view t) (view t') \<and> i < i' \<and> i' \<le> u \<and>
     split_at V lt (view t') l u P i')
     (partition_loop rg rs cmp l u P i j t s)"
  using assms(1-8,10-12)
proof (induction "nat (j - i)" arbitrary: i j t s rule: less_induct)
  case less
  note p = less.prems
  have irrefl: "V \<Longrightarrow> \<not> lt P P" using asym by blast
  have up: "outcome (sort_err V cmp) (stopped_up V lt (view t) u P i) (scan_up rg cmp t u P i s)"
  proof (rule scan_up_outcome [OF p(1)])
    show "\<exists>k. i < k \<and> k < u \<and> \<not> lt (view t k) P" if V using p(5,9) irrefl that by (intro exI [of _ "u - 1"]) auto
  qed (use p P in auto)
  have down: "outcome (sort_err V cmp) (stopped_down V lt (view t) l P j) (scan_down rg cmp t l P j s')" for s'
    by (rule scan_down_outcome [OF p(1,2,7)]) (use p(3,4,8,10) P in auto)
  have "outcome (sort_err V cmp) (\<lambda>(t', i', s'). inv t' \<and> rearranged {l..u} (view t) (view t') \<and> i < i' \<and> i' \<le> u \<and> split_at V lt (view t') l u P i')
      (if j1 < i1 then Inr (t, i1, s2) else res_bind (set2 rs t i1 j1 y x) (\<lambda>t. partition_loop rg rs cmp l u P i1 j1 t s2))"
    if i1: "i < i1" "i1 \<le> u" "x = view t i1" "V \<longrightarrow> i1 < u \<and> (\<forall>k. i < k \<longrightarrow> k < i1 \<longrightarrow> lt (view t k) P) \<and> \<not> lt (view t i1) P"
      and j1: "j1 < j" "l \<le> j1" "y = view t j1" "V \<longrightarrow> (\<forall>k. j1 < k \<longrightarrow> k < j \<longrightarrow> lt P (view t k)) \<and> \<not> lt P (view t j1)"
    for i1 x j1 y s2
  proof -
    have lower: "\<not> lt P (view t k)" if V "l \<le> k" "k < i1" for k 
      using that i1(4) p(10) asym [OF that(1), of "view t k" P] by (cases "k \<le> i") auto
    have upper: "\<not> lt (view t k) P" if V "j1 < k" "k \<le> u" for k 
      using that j1(4) p(11) asym [OF that(1), of P "view t k"] by (cases "j \<le> k") auto
    show ?thesis
    proof (cases "j1 < i1")
      case True
      then show ?thesis using i1 p(1,9) lower upper by (auto simp: split_at_def)
    next
      case False
      obtain t1 where t1: "set2 rs t i1 j1 y x = Inr t1" "inv t1" "view t1 = (view t)(i1 := view t j1, j1 := view t i1)"
        using set2_ok [OF p(1), of i1 j1 y x] view_D [OF p(1), of i1] view_D [OF p(1), of j1] i1 j1 p False by auto
      have re: "rearranged {l..u} (view t) (view t1)" unfolding t1(3) using i1 j1 p by (intro rearranged_swap) auto
      have "outcome (sort_err V cmp) (\<lambda>(t', i', s'). inv t' \<and> rearranged {l..u} (view t1) (view t') \<and> i1 < i' \<and> i' \<le> u \<and> split_at V lt (view t') l u P i')
        (partition_loop rg rs cmp l u P i1 j1 t1 s2)"
      proof (rule less.hyps)
        show "view t1 (u - 1) = P" if V using p(8,9) j1(1) False that unfolding t1(3) by simp
        show "\<forall>k. l \<le> k \<longrightarrow> k \<le> i1 \<longrightarrow> \<not> lt P (view t1 k)" if V using that lower j1(4) False unfolding t1(3) by auto
        show "\<forall>k. j1 \<le> k \<longrightarrow> k \<le> u \<longrightarrow> \<not> lt (view t1 k) P" if V using that upper i1(4) False unfolding t1(3) by auto
      qed (use t1(2) p i1 j1 False in auto)
      then have "outcome (sort_err V cmp) (\<lambda>(t', i', s'). inv t' \<and> rearranged {l..u} (view t) (view t') \<and> i < i' \<and> i' \<le> u \<and> split_at V lt (view t') l u P i')
        (partition_loop rg rs cmp l u P i1 j1 t1 s2)"
        by (rule outcome_mono) (use i1(1) rearranged_trans [OF re] in auto)
      then show ?thesis using False t1(1) by simp
    qed
  qed
  then show ?case
    by (subst partition_loop.simps) (auto intro!: outcome_bind [OF up] outcome_bind [OF down] elim!: stopped_upE stopped_downE)
qed

lemma swap_outcome:
  assumes "inv t" "lo \<le> l" "u \<le> hi" "a \<in> {l..u}" "b \<in> {l..u}" "x = view t b" "y = view t a"
    and "\<And>t'. inv t' \<Longrightarrow> view t' = (view t)(a := view t b, b := view t a) \<Longrightarrow> rearranged {l..u} (view t) (view t') \<Longrightarrow> Q t'"
  shows "outcome E (\<lambda>(t', s'). Q t') (res_bind (set2 rs t a b x y) (\<lambda>t. Inr (t, s)))"
proof -
  obtain t' where "set2 rs t a b x y = Inr t'" "inv t'" "view t' = (view t)(a := view t b, b := view t a)"
    using set2_ok [of t a b x y] view_D [OF assms(1), of a] view_D [OF assms(1), of b] assms by auto
  then show ?thesis using assms(8) [of t'] rearranged_swap [OF assms(4,5), of "view t"] by simp
qed

lemma sort_ends_outcome:
  assumes "inv t" "lo \<le> l" "l < u" "u \<le> hi"
  shows "outcome (sort_err V cmp) (\<lambda>(t', s'). inv t' \<and> rearranged {l..u} (view t) (view t') \<and> (V \<longrightarrow> \<not> lt (view t' u) (view t' l)))
     (sort_ends rg rs cmp l u t s)"
proof -
  have step: "outcome (sort_err V cmp) (\<lambda>(t', s'). inv t' \<and> rearranged {l..u} (view t) (view t') \<and> (V \<longrightarrow> \<not> lt (view t' u) (view t' l)))
      (if b then res_bind (set2 rs t l u (view t u) (view t l)) (\<lambda>t. Inr (t, s')) else Inr (t, s'))"
    if b: "V \<longrightarrow> b = lt (view t u) (view t l)" for b s'
  proof (cases b)
    case True
    then show ?thesis using assms b asym [of "view t u" "view t l"] by (auto intro!: swap_outcome [of _ l u])
  qed (use assms b in auto)
  have g: "rg t l = Inr (view t l)" "rg t u = Inr (view t u)" and d: "view t u \<in> D" "view t l \<in> D" using assms by (auto intro: rg_ok view_D)
  show ?thesis unfolding sort_ends_def g res_bind_simps
    by (rule outcome_cmp [OF d]) (simp only: split_conv, rule step)
qed

lemma sort_middle_outcome:
  assumes "inv t" "lo \<le> l" "l < i" "i < u" "u \<le> hi" "V \<longrightarrow> \<not> lt (view t u) (view t l)"
  shows "outcome (sort_err V cmp) (\<lambda>(t', s'). inv t' \<and> rearranged {l..u} (view t) (view t') \<and>
      (V \<longrightarrow> \<not> lt (view t' i) (view t' l) \<and> \<not> lt (view t' u) (view t' i))) (sort_middle rg rs cmp l i u t s)"
    (is "outcome _ ?Q _")
proof -
  have d: "view t l \<in> D" "view t i \<in> D" "view t u \<in> D" using assms by (auto intro: view_D)
  have 1: "outcome (sort_err V cmp) ?Q (res_bind (set2 rs t i l (view t l) (view t i)) (\<lambda>t. Inr (t, s')))"
    if "V \<longrightarrow> lt (view t i) (view t l)" for s'
    using assms that asym [of "view t i" "view t l"] by (auto intro!: swap_outcome [of _ l u])
  have 2: "outcome (sort_err V cmp) ?Q (if c then res_bind (set2 rs t i u (view t u) (view t i)) (\<lambda>t. Inr (t, s')) else Inr (t, s'))"
    if "V \<longrightarrow> \<not> lt (view t i) (view t l)" "V \<longrightarrow> c = lt (view t u) (view t i)" for c s'
  proof (cases c)
    case True
    then show ?thesis using assms that asym [of "view t u" "view t i"] by (auto intro!: swap_outcome [of _ l u])
  qed (use assms that in auto)
  have 3: "outcome (sort_err V cmp) ?Q (res_bind (cmp s' (view t u) (view t i)) (\<lambda>(b, s).
      if b then res_bind (set2 rs t i u (view t u) (view t i)) (\<lambda>t. Inr (t, s)) else Inr (t, s)))"
    if "V \<longrightarrow> \<not> lt (view t i) (view t l)" for s'
    by (rule outcome_cmp [OF d(3,2)]) (simp only: split_conv, rule 2 [OF that])
  have g: "rg t l = Inr (view t l)" "rg t i = Inr (view t i)" "rg t u = Inr (view t u)" using assms by (auto intro: rg_ok)
  have 4: "outcome (sort_err V cmp) ?Q (if b then res_bind (set2 rs t i l (view t l) (view t i)) (\<lambda>t. Inr (t, s'))
      else res_bind (cmp s' (view t u) (view t i)) (\<lambda>(b, s). if b then res_bind (set2 rs t i u (view t u) (view t i)) (\<lambda>t. Inr (t, s)) else Inr (t, s)))"
    if "V \<longrightarrow> b = lt (view t i) (view t l)" for b s'
    using that 1 [of s'] 3 [of s'] by (cases b) simp_all
  show ?thesis unfolding sort_middle_def g res_bind_simps
    by (rule outcome_cmp [OF d(2,1)]) (simp only: split_conv, rule 4)
qed

lemma split_range_outcome:
  assumes "inv t" "lo \<le> l" "l < i" "i < u" "l + 2 < u" "u \<le> hi" "V \<longrightarrow> \<not> lt (view t i) (view t l) \<and> \<not> lt (view t u) (view t i)"
  shows "outcome (sort_err V cmp) (\<lambda>(t', i', s'). inv t' \<and> rearranged {l..u} (view t) (view t') \<and> l < i' \<and> i' \<le> u \<and>
     (V \<longrightarrow> (\<forall>k. l \<le> k \<longrightarrow> k < i' \<longrightarrow> \<not> lt (view t' i') (view t' k)) \<and> (\<forall>k. i' < k \<longrightarrow> k \<le> u \<longrightarrow> \<not> lt (view t' k) (view t' i'))))
     (split_range rg rs cmp l i u t s)"
proof -
  let ?P = "view t i"
  have d: "?P \<in> D" "view t (u - 1) \<in> D" using assms by (auto intro!: view_D)
  obtain t1 where t1: "set2 rs t i (u - 1) (view t (u - 1)) ?P = Inr t1" "inv t1" "view t1 = (view t)(i := view t (u - 1), u - 1 := ?P)"
    using set2_ok [OF assms(1), of i "u - 1" "view t (u - 1)" ?P] assms d by auto
  have re1: "rearranged {l..u} (view t) (view t1)" unfolding t1(3) using assms by (intro rearranged_swap) auto
  have irrefl: "V \<Longrightarrow> \<not> lt ?P ?P" using asym by blast
  have vl: "view t1 l = view t l" "view t1 u = view t u" "view t1 (u - 1) = ?P" using assms(3-5) by (auto simp: t1(3))
  have part: "outcome (sort_err V cmp) (\<lambda>(t', i', s'). inv t' \<and> rearranged {l..u} (view t1) (view t') \<and> l < i' \<and> i' \<le> u \<and> split_at V lt (view t') l u ?P i')
     (partition_loop rg rs cmp l u ?P l (u - 1) t1 s)"
  proof (rule partition_outcome [OF t1(2)])
    show "\<forall>k. l \<le> k \<longrightarrow> k \<le> l \<longrightarrow> \<not> lt ?P (view t1 k)" if V using assms(7) vl(1) that by auto
    show "\<forall>k. u - 1 \<le> k \<longrightarrow> k \<le> u \<longrightarrow> \<not> lt (view t1 k) ?P" if V
    proof (intro allI impI)
      fix k assume "u - 1 \<le> k" "k \<le> u"
      then have "k = u - 1 \<or> k = u" by auto
      then show "\<not> lt (view t1 k) ?P" using assms(7) vl irrefl that by auto
    qed
  qed (use assms vl d in auto)
  have fin: "outcome (sort_err V cmp) (\<lambda>(t', i', s'). inv t' \<and> rearranged {l..u} (view t) (view t') \<and> l < i' \<and> i' \<le> u \<and>
     (V \<longrightarrow> (\<forall>k. l \<le> k \<longrightarrow> k < i' \<longrightarrow> \<not> lt (view t' i') (view t' k)) \<and> (\<forall>k. i' < k \<longrightarrow> k \<le> u \<longrightarrow> \<not> lt (view t' k) (view t' i'))))
     (res_bind (rg t2 (u - 1)) (\<lambda>x. res_bind (rg t2 m) (\<lambda>y. res_bind (set2 rs t2 (u - 1) m y x) (\<lambda>t. Inr (t, m, s')))))"
    if t2: "inv t2" "rearranged {l..u} (view t1) (view t2)" "l < m" "m \<le> u" "split_at V lt (view t2) l u ?P m" for t2 m s'
  proof -
    have g: "rg t2 (u - 1) = Inr (view t2 (u - 1))" "rg t2 m = Inr (view t2 m)" using assms t2 by (auto intro!: rg_ok)
    obtain t3 where t3: "set2 rs t2 (u - 1) m (view t2 m) (view t2 (u - 1)) = Inr t3" "inv t3"
      "view t3 = (view t2)(u - 1 := view t2 m, m := view t2 (u - 1))"
      using set2_ok [OF t2(1), of "u - 1" m] view_D [OF t2(1), of "u - 1"] view_D [OF t2(1), of m] assms t2 by auto
    have "rearranged {l..u} (view t2) (view t3)" unfolding t3(3) using assms t2 by (intro rearranged_swap) auto
    then have re: "rearranged {l..u} (view t) (view t3)" using rearranged_trans [OF re1 t2(2)] rearranged_trans by blast
    have "V \<longrightarrow> (\<forall>k. l \<le> k \<longrightarrow> k < m \<longrightarrow> \<not> lt (view t3 m) (view t3 k)) \<and> (\<forall>k. m < k \<longrightarrow> k \<le> u \<longrightarrow> \<not> lt (view t3 k) (view t3 m))"
      using t2(5) unfolding split_at_def t3(3) by auto
    then show ?thesis using g t2 t3(1,2) re by simp
  qed
  have g: "rg t i = Inr ?P" "rg t (u - 1) = Inr (view t (u - 1))" using assms by (auto intro!: rg_ok)
  show ?thesis unfolding split_range_def g res_bind_simps t1(1)
    by (rule outcome_bind3 [OF part], elim conjE, simp only: split_conv, rule fin)
qed

lemma sorted_join:
  assumes V "\<forall>k. l \<le> k \<longrightarrow> k < i \<longrightarrow> \<not> lt (f i) (f k)" "\<forall>k. i < k \<longrightarrow> k \<le> u \<longrightarrow> \<not> lt (f k) (f i)"
    and "sorted_range lt f l (i - 1)" "sorted_range lt f (i + 1) u"
  shows "sorted_range lt f l u"
  unfolding sorted_range_def
proof (intro allI impI)
  fix a b assume ab: "l \<le> a" "a \<le> b" "b \<le> u"
  have ii: "\<not> lt (f i) (f i)" using asym [OF assms(1)] by blast
  consider "b < i" | "i < a" | "a \<le> i" "i \<le> b" by linarith
  then show "\<not> lt (f b) (f a)"
  proof cases
    case 1 then show ?thesis using assms(4) ab unfolding sorted_range_def by simp
  next
    case 2 then show ?thesis using assms(5) ab unfolding sorted_range_def by simp
  next
    case 3
    have "\<not> lt (f b) (f i)" using 3 ab assms(3) ii by (cases "b = i") auto
    moreover have "\<not> lt (f i) (f a)" using 3 ab assms(2) ii by (cases "a = i") auto
    ultimately show ?thesis by (rule negtrans [OF assms(1)])
  qed
qed

text \<open>Both parts are sorted, in one order or the other.\<close>

lemma join_parts:
  assumes f: "l < i" "i \<le> u" "V \<longrightarrow> (\<forall>k. l \<le> k \<longrightarrow> k < i \<longrightarrow> \<not> lt (f i) (f k)) \<and> (\<forall>k. i < k \<longrightarrow> k \<le> u \<longrightarrow> \<not> lt (f k) (f i))"
    and r: "rearranged {l..i - 1} f g \<and> rearranged {i + 1..u} g h \<or> rearranged {i + 1..u} f g \<and> rearranged {l..i - 1} g h"
    and s: "V \<longrightarrow> sorted_range lt h l (i - 1) \<and> sorted_range lt h (i + 1) u"
  shows "rearranged {l..u} f h \<and> (V \<longrightarrow> sorted_range lt h l u)"
proof -
  have sub: "{l..i - 1} \<subseteq> {l..u}" "{i + 1..u} \<subseteq> {l..u}" using f by auto
  have "rearranged {l..u} f h" using r rearranged_mono [OF sub(1)] rearranged_mono [OF sub(2)] rearranged_trans by metis
  moreover have "sorted_range lt h l u" if V
  proof (rule sorted_join [OF that, where i = i])
    have hi: "h i = f i" using r by (auto simp: rearranged_outside)
    have dj: "{l..i - 1} \<inter> {i + 1..u} = {}" "{i + 1..u} \<inter> {l..i - 1} = {}" by auto
    have lower: "\<forall>k\<in>{l..i - 1}. \<not> lt (f i) (f k)" and upper: "\<forall>k\<in>{i + 1..u}. \<not> lt (f k) (f i)" using f(3) that by auto
    have "\<not> lt (f i) (h k)" if k: "k \<in> {l..i - 1}" for k
      using r rearranged_parts(1) [where Q = "\<lambda>x. \<not> lt (f i) x", OF _ _ dj(1) lower k, of g h]
        rearranged_parts(2) [where Q = "\<lambda>x. \<not> lt (f i) x", OF _ _ dj(2) lower k, of g h] by blast
    then show "\<forall>k. l \<le> k \<longrightarrow> k < i \<longrightarrow> \<not> lt (h i) (h k)" using hi by auto
    have "\<not> lt (h k) (f i)" if k: "k \<in> {i + 1..u}" for k
      using r rearranged_parts(2) [where Q = "\<lambda>x. \<not> lt x (f i)", OF _ _ dj(1) upper k, of g h]
        rearranged_parts(1) [where Q = "\<lambda>x. \<not> lt x (f i)", OF _ _ dj(2) upper k, of g h] by blast
    then show "\<forall>k. i < k \<longrightarrow> k \<le> u \<longrightarrow> \<not> lt (h k) (h i)" using hi by auto
  qed (use s that in auto)
  ultimately show ?thesis by blast
qed

lemma sorted_stays: "sorted_range lt f l u \<Longrightarrow> rearranged A f g \<Longrightarrow> A \<inter> {l..u} = {} \<Longrightarrow> sorted_range lt g l u"
  unfolding sorted_range_def
proof (intro allI impI)
  fix i j assume s: "\<forall>i j. l \<le> i \<longrightarrow> i \<le> j \<longrightarrow> j \<le> u \<longrightarrow> \<not> lt (f j) (f i)" and r: "rearranged A f g" "A \<inter> {l..u} = {}" and ij: "l \<le> i" "i \<le> j" "j \<le> u"
  then have "i \<notin> A" "j \<notin> A" by auto
  then show "\<not> lt (g j) (g i)" using s ij rearranged_outside [OF r(1)] by simp
qed

lemma sorted_small:
  assumes V
  shows "u \<le> l \<Longrightarrow> sorted_range lt f l u" "\<not> lt (f (l + 1)) (f l) \<Longrightarrow> sorted_range lt f l (l + 1)"
    "\<not> lt (f (l + 1)) (f l) \<Longrightarrow> \<not> lt (f (l + 2)) (f (l + 1)) \<Longrightarrow> sorted_range lt f l (l + 2)"
proof -
  have ii: "\<not> lt x x" for x using asym [OF assms] by blast
  show a: "sorted_range lt f l u" if "u \<le> l" for l u
    unfolding sorted_range_def
  proof (intro allI impI)
    fix i j assume "l \<le> i" "i \<le> j" "j \<le> u"
    then have "i = j" using that by simp
    then show "\<not> lt (f j) (f i)" using ii by simp
  qed
  show "sorted_range lt f l (l + 1)" if "\<not> lt (f (l + 1)) (f l)"
  proof (rule sorted_join [OF assms, where i = l])
    show "\<forall>k. l < k \<longrightarrow> k \<le> l + 1 \<longrightarrow> \<not> lt (f k) (f l)"
    proof (intro allI impI)
      fix k assume "l < k" "k \<le> l + 1"
      then have "k = l + 1" by simp
      then show "\<not> lt (f k) (f l)" using that by simp
    qed
  qed (auto intro: a)
  show "sorted_range lt f l (l + 2)" if "\<not> lt (f (l + 1)) (f l)" "\<not> lt (f (l + 2)) (f (l + 1))"
  proof (rule sorted_join [OF assms, where i = "l + 1"])
    show "\<forall>k. l \<le> k \<longrightarrow> k < l + 1 \<longrightarrow> \<not> lt (f (l + 1)) (f k)"
    proof (intro allI impI)
      fix k assume "l \<le> k" "k < l + 1"
      then have "k = l" by simp
      then show "\<not> lt (f (l + 1)) (f k)" using that(1) by simp
    qed
    show "\<forall>k. l + 1 < k \<longrightarrow> k \<le> l + 2 \<longrightarrow> \<not> lt (f k) (f (l + 1))"
    proof (intro allI impI)
      fix k assume "l + 1 < k" "k \<le> l + 2"
      then have "k = l + 2" by simp
      then show "\<not> lt (f k) (f (l + 1))" using that(2) by simp
    qed
  qed (auto intro: a)
qed

definition sorts :: "int \<Rightarrow> int \<Rightarrow> 't \<Rightarrow> 't \<times> 's \<Rightarrow> bool" where
  "sorts l u t r = (case r of (t', s') \<Rightarrow> inv t' \<and> rearranged {l..u} (view t) (view t') \<and> (V \<longrightarrow> sorted_range lt (view t') l u))"

lemma sort_parts:
  assumes IH: "\<And>a b t s. nat (b - a) < nat (u - l) \<Longrightarrow> inv t \<Longrightarrow> lo \<le> a \<Longrightarrow> b \<le> hi \<Longrightarrow> outcome (sort_err V cmp) (sorts a b t) (auxsort rg rs cmp a b t s)"
    and p: "lo \<le> l" "u \<le> hi" "inv t1" "rearranged {l..u} (view t) (view t1)" "l < i" "i \<le> u"
      "V \<longrightarrow> (\<forall>k. l \<le> k \<longrightarrow> k < i \<longrightarrow> \<not> lt (view t1 i) (view t1 k)) \<and> (\<forall>k. i < k \<longrightarrow> k \<le> u \<longrightarrow> \<not> lt (view t1 k) (view t1 i))"
  shows "outcome (sort_err V cmp) (sorts l u t) (res_bind (auxsort rg rs cmp l (i - 1) t1 s) (\<lambda>(t, s). auxsort rg rs cmp (i + 1) u t s))"
    "outcome (sort_err V cmp) (sorts l u t) (res_bind (auxsort rg rs cmp (i + 1) u t1 s) (\<lambda>(t, s). auxsort rg rs cmp l (i - 1) t s))"
proof -
  have low: "outcome (sort_err V cmp) (sorts l (i - 1) t2) (auxsort rg rs cmp l (i - 1) t2 s)" if "inv t2" for t2 s
    using p that by (intro IH) auto
  have high: "outcome (sort_err V cmp) (sorts (i + 1) u t2) (auxsort rg rs cmp (i + 1) u t2 s)" if "inv t2" for t2 s
    using p that by (intro IH) auto
  have dj: "{i + 1..u} \<inter> {l..i - 1} = {}" "{l..i - 1} \<inter> {i + 1..u} = {}" by auto
  have join: "sorts l u t (t3, s3)"
    if "inv t3" "rearranged {l..i - 1} (view t1) g \<and> rearranged {i + 1..u} g (view t3) \<or> rearranged {i + 1..u} (view t1) g \<and> rearranged {l..i - 1} g (view t3)"
      "V \<longrightarrow> sorted_range lt (view t3) l (i - 1) \<and> sorted_range lt (view t3) (i + 1) u" for g t3 s3
    using join_parts [OF p(5,6,7) that(2,3)] that(1) rearranged_trans [OF p(4)] by (auto simp: sorts_def)
  show "outcome (sort_err V cmp) (sorts l u t) (res_bind (auxsort rg rs cmp l (i - 1) t1 s) (\<lambda>(t, s). auxsort rg rs cmp (i + 1) u t s))"
  proof (rule outcome_bind [OF low [OF p(3)]])
    fix r assume r: "sorts l (i - 1) t1 r"
    obtain t2 s2 where e: "r = (t2, s2)" by force
    have t2: "inv t2" "rearranged {l..i - 1} (view t1) (view t2)" "V \<longrightarrow> sorted_range lt (view t2) l (i - 1)" using r e by (auto simp: sorts_def)
    have "outcome (sort_err V cmp) (sorts l u t) (auxsort rg rs cmp (i + 1) u t2 s2)"
    proof (rule outcome_mono [OF high [OF t2(1)]])
      fix q assume "sorts (i + 1) u t2 q"
      then show "sorts l u t q" using t2 sorted_stays [OF _ _ dj(1)] by (cases q) (auto simp: sorts_def [of "i + 1"] intro!: join [of _ "view t2"])
    qed
    then show "outcome (sort_err V cmp) (sorts l u t) (case r of (t, s) \<Rightarrow> auxsort rg rs cmp (i + 1) u t s)" using e by simp
  qed
  show "outcome (sort_err V cmp) (sorts l u t) (res_bind (auxsort rg rs cmp (i + 1) u t1 s) (\<lambda>(t, s). auxsort rg rs cmp l (i - 1) t s))"
  proof (rule outcome_bind [OF high [OF p(3)]])
    fix r assume r: "sorts (i + 1) u t1 r"
    obtain t2 s2 where e: "r = (t2, s2)" by force
    have t2: "inv t2" "rearranged {i + 1..u} (view t1) (view t2)" "V \<longrightarrow> sorted_range lt (view t2) (i + 1) u" using r e by (auto simp: sorts_def)
    have "outcome (sort_err V cmp) (sorts l u t) (auxsort rg rs cmp l (i - 1) t2 s2)"
    proof (rule outcome_mono [OF low [OF t2(1)]])
      fix q assume "sorts l (i - 1) t2 q"
      then show "sorts l u t q" using t2 sorted_stays [OF _ _ dj(2)] by (cases q) (auto simp: sorts_def [of l "i - 1"] intro!: join [of _ "view t2"])
    qed
    then show "outcome (sort_err V cmp) (sorts l u t) (case r of (t, s) \<Rightarrow> auxsort rg rs cmp l (i - 1) t s)" using e by simp
  qed
qed

lemma sort_split:
  assumes IH: "\<And>a b t s. nat (b - a) < nat (u - l) \<Longrightarrow> inv t \<Longrightarrow> lo \<le> a \<Longrightarrow> b \<le> hi \<Longrightarrow> outcome (sort_err V cmp) (sorts a b t) (auxsort rg rs cmp a b t s)"
    and p: "lo \<le> l" "u \<le> hi" "inv t1" "rearranged {l..u} (view t) (view t1)" and r: "l < m" "m < u" "l + 2 < u"
    and mid: "V \<longrightarrow> \<not> lt (view t1 m) (view t1 l) \<and> \<not> lt (view t1 u) (view t1 m)"
  shows "outcome (sort_err V cmp) (sorts l u t) (res_bind (split_range rg rs cmp l m u t1 s) (\<lambda>(t, i, s).
     if i - l < u - i then res_bind (auxsort rg rs cmp l (i - 1) t s) (\<lambda>(t, s). auxsort rg rs cmp (i + 1) u t s)
     else res_bind (auxsort rg rs cmp (i + 1) u t s) (\<lambda>(t, s). auxsort rg rs cmp l (i - 1) t s)))"
proof -
  have parts: "outcome (sort_err V cmp) (sorts l u t)
      (if i - l < u - i then res_bind (auxsort rg rs cmp l (i - 1) t3 s3) (\<lambda>(t, s). auxsort rg rs cmp (i + 1) u t s)
       else res_bind (auxsort rg rs cmp (i + 1) u t3 s3) (\<lambda>(t, s). auxsort rg rs cmp l (i - 1) t s))"
    if t3: "inv t3" "rearranged {l..u} (view t) (view t3)" "l < i" "i \<le> u"
      "V \<longrightarrow> (\<forall>k. l \<le> k \<longrightarrow> k < i \<longrightarrow> \<not> lt (view t3 i) (view t3 k)) \<and> (\<forall>k. i < k \<longrightarrow> k \<le> u \<longrightarrow> \<not> lt (view t3 k) (view t3 i))" for t3 i s3
    using sort_parts [OF IH p(1,2) t3] by simp
  show ?thesis
    by (rule outcome_bind3 [OF split_range_outcome [OF p(3,1) r p(2) mid]], elim conjE, simp only: split_conv,
        rule parts [OF _ rearranged_trans [OF p(4)]])
qed

text \<open>What follows once the two ends are in order.\<close>

lemma sort_from_ends:
  assumes IH: "\<And>a b t s. nat (b - a) < nat (u - l) \<Longrightarrow> inv t \<Longrightarrow> lo \<le> a \<Longrightarrow> b \<le> hi \<Longrightarrow> outcome (sort_err V cmp) (sorts a b t) (auxsort rg rs cmp a b t s)"
    and p: "lo \<le> l" "u \<le> hi" "inv t1" "rearranged {l..u} (view t) (view t1)" and lu: "l < u" "u - l \<noteq> 1"
    and ends: "V \<longrightarrow> \<not> lt (view t1 u) (view t1 l)"
  shows "outcome (sort_err V cmp) (sorts l u t) (res_bind (sort_middle rg rs cmp l ((l + u) div 2) u t1 s) (\<lambda>(t, s).
     if u - l = 2 then Inr (t, s) else res_bind (split_range rg rs cmp l ((l + u) div 2) u t s) (\<lambda>(t, i, s).
       if i - l < u - i then res_bind (auxsort rg rs cmp l (i - 1) t s) (\<lambda>(t, s). auxsort rg rs cmp (i + 1) u t s)
       else res_bind (auxsort rg rs cmp (i + 1) u t s) (\<lambda>(t, s). auxsort rg rs cmp l (i - 1) t s))))"
proof -
  let ?i = "(l + u) div 2"
  have r: "l < ?i" "?i < u" using lu by auto
  have rest: "outcome (sort_err V cmp) (sorts l u t)
      (if u - l = 2 then Inr (t2, s2) else res_bind (split_range rg rs cmp l ?i u t2 s2) (\<lambda>(t, i, s).
        if i - l < u - i then res_bind (auxsort rg rs cmp l (i - 1) t s) (\<lambda>(t, s). auxsort rg rs cmp (i + 1) u t s)
        else res_bind (auxsort rg rs cmp (i + 1) u t s) (\<lambda>(t, s). auxsort rg rs cmp l (i - 1) t s)))"
    if t2: "inv t2" "rearranged {l..u} (view t) (view t2)"
      "V \<longrightarrow> \<not> lt (view t2 ?i) (view t2 l) \<and> \<not> lt (view t2 u) (view t2 ?i)" for t2 s2
  proof (cases "u - l = 2")
    case True
    then have "u = l + 2" "?i = l + 1" by auto
    then show ?thesis using t2 sorted_small(3) [of "view t2" l] by (simp add: sorts_def)
  next
    case False
    then have "l + 2 < u" using lu by simp
    from sort_split [OF IH p(1,2) t2(1,2) r this t2(3), of s2] show ?thesis using False by simp
  qed
  show ?thesis
    by (rule outcome_bind2 [OF sort_middle_outcome [OF p(3,1) r p(2) ends]], elim conjE, simp only: split_conv,
        rule rest, assumption, rule rearranged_trans [OF p(4)])
qed

lemma auxsort_outcome:
  assumes "inv t" "lo \<le> l" "u \<le> hi"
  shows "outcome (sort_err V cmp) (sorts l u t) (auxsort rg rs cmp l u t s)"
  using assms
proof (induction "nat (u - l)" arbitrary: l u t s rule: less_induct)
  case less
  note p = less.prems
  show ?case
  proof (cases "l < u")
    case False
    then show ?thesis using p(1) sorted_small(1) [of u l] by (subst auxsort.simps) (simp add: sorts_def)
  next
    case lu: True
    let ?i = "(l + u) div 2"
    have small': "\<not> l + u \<ge> 2 ^ 31" using p small [OF p(1)] lu by simp
    have main: "outcome (sort_err V cmp) (sorts l u t)
        (if u - l = 1 then Inr (t1, s1)
         else if l + u \<ge> 2 ^ 31 then Inl Int_overflow
         else res_bind (sort_middle rg rs cmp l ?i u t1 s1) (\<lambda>(t, s).
             if u - l = 2 then Inr (t, s) else res_bind (split_range rg rs cmp l ?i u t s) (\<lambda>(t, i, s).
               if i - l < u - i then res_bind (auxsort rg rs cmp l (i - 1) t s) (\<lambda>(t, s). auxsort rg rs cmp (i + 1) u t s)
               else res_bind (auxsort rg rs cmp (i + 1) u t s) (\<lambda>(t, s). auxsort rg rs cmp l (i - 1) t s))))"
      if t1: "inv t1" "rearranged {l..u} (view t) (view t1)" "V \<longrightarrow> \<not> lt (view t1 u) (view t1 l)" for t1 s1
    proof (cases "u - l = 1")
      case True
      then have "u = l + 1" by simp
      then show ?thesis using t1 sorted_small(2) [of "view t1" l] by (simp add: sorts_def)
    next
      case False
      from sort_from_ends [OF less.hyps p(2,3) t1(1,2) lu False t1(3), of s1] show ?thesis using False small' by simp
    qed
    show ?thesis
      by (subst auxsort.simps) (simp only: lu if_True, rule outcome_bind2 [OF sort_ends_outcome [OF p(1,2) lu p(3)]],
          elim conjE, simp only: split_conv, rule main)
  qed
qed

end

end
