(* ===== verification/TabSeq.thy ===== *)
theory TabSeq imports TabSort begin

text \<open>
  The table library on Lua's tables: the elements of a table as a sequence, and what the
  functions of the library do to it.
\<close>

section \<open>A range of elements\<close>

abbreviation ikey :: "int \<Rightarrow> tkey" where "ikey i \<equiv> KNum (Nint i)"

lemma rawgeti_ok:
  assumes "represents H t m" "- (2 ^ 31) < i" "i < 2 ^ 31" shows "table_rawgeti H t i = Inr (m (ikey i))"
proof -
  have "valid_key (ikey i)" using assms(2,3) by (simp add: valid_key_def key_wf_def)
  from represents_get [OF assms(1) this] show ?thesis by (auto simp: luaH_get_def table_rawgeti_def key_class_def)
qed

lemma rawseti_ok:
  assumes "represents H t m" "- (2 ^ 31) < i" "i < 2 ^ 31" "finite (dom m)" "card (dom m) < 2 ^ MAXBITS"
  shows "\<exists>t'. table_rawseti H t i v = Inr t' \<and> represents H t' (m(ikey i := v))"
proof -
  have "valid_key (ikey i)" using assms(2,3) by (simp add: valid_key_def key_wf_def)
  from represents_set [OF assms(1) this assms(4,5), of v] show ?thesis by (simp add: table_rawseti_def table_set_then key_class_def)
qed

text \<open>The map \<open>m\<close> with the elements from \<open>lo\<close> to \<open>hi\<close> replaced.\<close>

definition put_range :: "(tkey \<rightharpoonup> 'v) \<Rightarrow> int \<Rightarrow> int \<Rightarrow> (int \<Rightarrow> 'v option) \<Rightarrow> tkey \<rightharpoonup> 'v" where
  "put_range m lo hi f k = (case k of KNum (Nint i) \<Rightarrow> if lo \<le> i \<and> i \<le> hi then f i else m k | _ \<Rightarrow> m k)"

definition range_view :: "hashing \<Rightarrow> int \<Rightarrow> int \<Rightarrow> 'v Table \<Rightarrow> int \<Rightarrow> 'v option" where
  "range_view H lo hi t i = (if lo \<le> i \<and> i \<le> hi then case table_rawgeti H t i of Inr v \<Rightarrow> v | Inl _ \<Rightarrow> None else None)"

definition range_room :: "(tkey \<rightharpoonup> 'v) \<Rightarrow> int \<Rightarrow> int \<Rightarrow> bool" where
  "range_room m lo hi \<longleftrightarrow> - (2 ^ 31) < lo \<and> hi < 2 ^ 30 \<and> finite (dom m) \<and> card (dom m \<union> ikey ` {lo..hi}) < 2 ^ 30"

definition range_inv :: "hashing \<Rightarrow> (tkey \<rightharpoonup> 'v) \<Rightarrow> 'v option set \<Rightarrow> int \<Rightarrow> int \<Rightarrow> 'v Table \<Rightarrow> bool" where
  "range_inv H m D lo hi t \<longleftrightarrow> range_room m lo hi \<and> (\<exists>f. represents H t (put_range m lo hi f) \<and> (\<forall>i. lo \<le> i \<longrightarrow> i \<le> hi \<longrightarrow> f i \<in> D))"

lemma put_range_idx [simp]: "lo \<le> i \<Longrightarrow> i \<le> hi \<Longrightarrow> put_range m lo hi f (ikey i) = f i"
  by (simp add: put_range_def)

lemma put_range_other: "k \<notin> ikey ` {lo..hi} \<Longrightarrow> put_range m lo hi f k = m k"
  by (auto simp: put_range_def split: tkey.splits lnum.splits)

lemma put_range_upd: "lo \<le> i \<Longrightarrow> i \<le> hi \<Longrightarrow> (put_range m lo hi f)(ikey i := v) = put_range m lo hi (f(i := v))"
  by (rule ext) (auto simp: put_range_def split: tkey.splits lnum.splits)

lemma put_range_same: "put_range m lo hi (\<lambda>i. m (ikey i)) = m"
  by (rule ext) (auto simp: put_range_def split: tkey.splits lnum.splits)

lemma put_range_dom:
  assumes "range_room m lo hi" shows "finite (dom (put_range m lo hi f))" "card (dom (put_range m lo hi f)) < 2 ^ 30"
proof -
  have s: "dom (put_range m lo hi f) \<subseteq> dom m \<union> ikey ` {lo..hi}"
    using put_range_other [of _ lo hi m f] by (auto simp: dom_def)
  have f: "finite (dom m \<union> ikey ` {lo..hi})" using assms by (simp add: range_room_def)
  show "finite (dom (put_range m lo hi f))" by (rule finite_subset [OF s f])
  show "card (dom (put_range m lo hi f)) < 2 ^ 30" using card_mono [OF f s] assms by (simp add: range_room_def)
qed

lemma range_view_put:
  assumes "represents H t (put_range m lo hi f)" "range_room m lo hi"
  shows "range_view H lo hi t = (\<lambda>i. if lo \<le> i \<and> i \<le> hi then f i else None)"
proof
  fix i show "range_view H lo hi t i = (if lo \<le> i \<and> i \<le> hi then f i else None)"
    using rawgeti_ok [OF assms(1), of i] assms(2) by (auto simp: range_view_def range_room_def)
qed

lemma range_invE:
  assumes "range_inv H m D lo hi t"
  shows "range_room m lo hi" "represents H t (put_range m lo hi (range_view H lo hi t))" "lo \<le> i \<Longrightarrow> i \<le> hi \<Longrightarrow> range_view H lo hi t i \<in> D"
proof -
  from assms obtain f where f: "represents H t (put_range m lo hi f)" "\<forall>i. lo \<le> i \<longrightarrow> i \<le> hi \<longrightarrow> f i \<in> D" and r: "range_room m lo hi"
    by (auto simp: range_inv_def)
  note v = range_view_put [OF f(1) r]
  show "range_room m lo hi" by (rule r)
  have "put_range m lo hi (range_view H lo hi t) = put_range m lo hi f" unfolding v
    by (rule ext) (auto simp: put_range_def split: tkey.splits lnum.splits)
  then show "represents H t (put_range m lo hi (range_view H lo hi t))" using f(1) by simp
  show "lo \<le> i \<Longrightarrow> i \<le> hi \<Longrightarrow> range_view H lo hi t i \<in> D" using f(2) unfolding v by simp
qed

lemma range_invI:
  assumes "represents H t m" "range_room m lo hi" "\<And>i. lo \<le> i \<Longrightarrow> i \<le> hi \<Longrightarrow> m (ikey i) \<in> D"
  shows "range_inv H m D lo hi t" "range_view H lo hi t = (\<lambda>i. if lo \<le> i \<and> i \<le> hi then m (ikey i) else None)"
  using assms range_view_put [of H t m lo hi "\<lambda>i. m (ikey i)"]
  by (auto simp: range_inv_def put_range_same intro!: exI [of _ "\<lambda>i. m (ikey i)"])

interpretation tr: rawseq "table_rawgeti H" "table_rawseti H" "range_view H lo hi" "range_inv H m D lo hi" D lo hi
  for H m D lo hi
proof unfold_locales
  fix t i v assume inv: "range_inv H m D lo hi t" and i: "lo \<le> i" "i \<le> hi"
  note e = range_invE [OF inv]
  have b: "- (2 ^ 31) < i" "i < 2 ^ 31" using e(1) i by (auto simp: range_room_def)
  show "table_rawgeti H t i = Inr (range_view H lo hi t i)" using rawgeti_ok [OF e(2) b] i by simp
  show "range_view H lo hi t i \<in> D" by (rule e(3) [OF i])
  assume v: "v \<in> D"
  obtain t' where t': "table_rawseti H t i v = Inr t'" "represents H t' (put_range m lo hi ((range_view H lo hi t)(i := v)))"
    using rawseti_ok [OF e(2) b put_range_dom(1) [OF e(1)], of v] put_range_dom(2) [OF e(1)] unfolding put_range_upd [OF i] MAXBITS_def by blast
  have "range_view H lo hi t' = (range_view H lo hi t)(i := v)"
    unfolding range_view_put [OF t'(2) e(1)] using i by (auto simp: range_view_def fun_eq_iff)
  moreover have "range_inv H m D lo hi t'" unfolding range_inv_def using e(1,3) t'(2) v by (intro conjI exI) auto
  ultimately show "\<exists>t'. table_rawseti H t i v = Inr t' \<and> range_inv H m D lo hi t' \<and> range_view H lo hi t' = (range_view H lo hi t)(i := v)"
    using t'(1) by blast
qed

text \<open>An order function that is a strict weak order on \<open>D\<close>.\<close>

definition orders :: "'v option set \<Rightarrow> ('s, 'v option) order \<Rightarrow> ('v option \<Rightarrow> 'v option \<Rightarrow> bool) \<Rightarrow> bool" where
  "orders D cmp lt \<longleftrightarrow> (\<forall>s. \<forall>x\<in>D. \<forall>y\<in>D. cmp s x y = Inr (lt x y, s)) \<and>
     (\<forall>x y. lt x y \<longrightarrow> \<not> lt y x) \<and> (\<forall>x y z. \<not> lt x y \<longrightarrow> \<not> lt y z \<longrightarrow> \<not> lt x z)"

lemma ordersD:
  assumes "orders D cmp lt"
  shows "x \<in> D \<Longrightarrow> y \<in> D \<Longrightarrow> cmp s x y = Inr (lt x y, s)" "lt x y \<Longrightarrow> \<not> lt y x" "\<not> lt x y \<Longrightarrow> \<not> lt y z \<Longrightarrow> \<not> lt x z"
proof -
  note o = assms [unfolded orders_def]
  show "x \<in> D \<Longrightarrow> y \<in> D \<Longrightarrow> cmp s x y = Inr (lt x y, s)" by (simp add: o [THEN conjunct1])
  show "lt x y \<Longrightarrow> \<not> lt y x" by (rule o [THEN conjunct2, THEN conjunct1, rule_format])
  show "\<not> lt x y \<Longrightarrow> \<not> lt y z \<Longrightarrow> \<not> lt x z" by (rule o [THEN conjunct2, THEN conjunct2, rule_format])
qed

interpretation ts: sorting "table_rawgeti H" "table_rawseti H" "range_view H lo hi" "range_inv H m D lo hi" D lo hi cmp lt "orders D cmp lt"
  for H m D lo hi cmp lt
proof unfold_locales
  fix t assume "range_inv H m D lo hi t"
  then show "2 * hi < 2 ^ 31" by (simp add: range_inv_def range_room_def)
qed (rule ordersD; assumption)+

section \<open>Sequences\<close>

text \<open>
  A table that is a sequence: the elements from 1 on are those of a list, with nothing after
  them, and the map \<open>r\<close> has the rest of the table.
\<close>

definition elem :: "'v list \<Rightarrow> int \<Rightarrow> 'v option" where
  "elem xs i = (if 1 \<le> i \<and> i \<le> int (length xs) then Some (xs ! nat (i - 1)) else None)"

definition seq_map :: "(tkey \<rightharpoonup> 'v) \<Rightarrow> 'v list \<Rightarrow> tkey \<rightharpoonup> 'v" where
  "seq_map r xs k = (case k of KNum (Nint i) \<Rightarrow> if 1 \<le> i then elem xs i else r k | _ \<Rightarrow> r k)"

definition is_seq :: "hashing \<Rightarrow> 'v Table \<Rightarrow> (tkey \<rightharpoonup> 'v) \<Rightarrow> 'v list \<Rightarrow> bool" where
  "is_seq H t r xs \<longleftrightarrow> represents H t (seq_map r xs) \<and> finite (dom r)"

lemma seq_map_idx [simp]: "1 \<le> i \<Longrightarrow> seq_map r xs (ikey i) = elem xs i"
  by (simp add: seq_map_def)

lemma seq_map_dom: "dom (seq_map r xs) \<subseteq> dom r \<union> ikey ` {1..int (length xs)}"
proof
  fix k assume k: "k \<in> dom (seq_map r xs)"
  show "k \<in> dom r \<union> ikey ` {1..int (length xs)}"
  proof (cases "\<exists>i. k = ikey i \<and> 1 \<le> i")
    case True
    then show ?thesis using k by (auto simp: elem_def split: if_splits)
  next
    case False
    then have "seq_map r xs k = r k" by (auto simp: seq_map_def split: tkey.splits lnum.splits)
    then show ?thesis using k by (simp add: dom_def)
  qed
qed

lemma seq_map_card:
  assumes "finite (dom r)" "int (length xs) \<le> hi" "int (card (dom r)) + hi < 2 ^ 30"
  shows "finite (dom (seq_map r xs))" "range_room (seq_map r xs) 1 hi"
proof -
  have f: "finite (dom r \<union> ikey ` {1..hi})" using assms(1) by simp
  have s: "dom (seq_map r xs) \<union> ikey ` {1..hi} \<subseteq> dom r \<union> ikey ` {1..hi}" using seq_map_dom [of r xs] assms(2) by force
  show fin: "finite (dom (seq_map r xs))" using finite_subset [OF s f] by simp
  have "card (dom r \<union> ikey ` {1..hi}) \<le> card (dom r) + nat hi"
    using card_Un_le [of "dom r" "ikey ` {1..hi}"] card_image_le [of "{1..hi}" ikey] by simp
  with card_mono [OF f s] have "card (dom (seq_map r xs) \<union> ikey ` {1..hi}) \<le> card (dom r) + nat hi" by linarith
  moreover have "card (dom r) + nat hi < 2 ^ 30" using assms(2,3) by simp
  ultimately have "card (dom (seq_map r xs) \<union> ikey ` {1..hi}) < 2 ^ 30" by linarith
  then show "range_room (seq_map r xs) 1 hi" using fin assms(3) by (simp add: range_room_def)
qed

lemma put_range_seq:
  assumes "int (length xs) \<le> hi" "int (length ys) \<le> hi" "\<And>i. 1 \<le> i \<Longrightarrow> i \<le> hi \<Longrightarrow> f i = elem ys i"
  shows "put_range (seq_map r xs) 1 hi f = seq_map r ys"
  by (rule ext) (use assms in \<open>auto simp: put_range_def seq_map_def elem_def split: tkey.splits lnum.splits\<close>)

lemma seq_range:
  assumes "is_seq H t r xs" "int (length xs) \<le> hi" "int (card (dom r)) + hi < 2 ^ 30" "\<And>i. 1 \<le> i \<Longrightarrow> i \<le> hi \<Longrightarrow> elem xs i \<in> D"
  shows "range_inv H (seq_map r xs) D 1 hi t" "1 \<le> i \<Longrightarrow> i \<le> hi \<Longrightarrow> range_view H 1 hi t i = elem xs i"
proof -
  have R: "represents H t (seq_map r xs)" and f: "finite (dom r)" using assms(1) by (auto simp: is_seq_def)
  show "range_inv H (seq_map r xs) D 1 hi t" by (rule range_invI(1) [OF R seq_map_card(2) [OF f assms(2,3)]]) (simp add: assms(4))
  show "1 \<le> i \<Longrightarrow> i \<le> hi \<Longrightarrow> range_view H 1 hi t i = elem xs i"
    using range_invI(2) [OF R seq_map_card(2) [OF f assms(2,3)], of UNIV] by simp
qed

lemma seq_from_range:
  assumes "range_inv H (seq_map r xs) D 1 hi t" "int (length xs) \<le> hi" "int (length ys) \<le> hi" "finite (dom r)"
    "\<And>i. 1 \<le> i \<Longrightarrow> i \<le> hi \<Longrightarrow> range_view H 1 hi t i = elem ys i"
  shows "is_seq H t r ys"
  using range_invE(2) [OF assms(1)] assms(4) by (simp add: is_seq_def put_range_seq [OF assms(2,3,5)])

lemma aux_getn_seq:
  assumes "is_seq H t r xs" "int (card (dom r)) + int (length xs) < 2 ^ 30"
  shows "aux_getn H t = Inr (int (length xs))"
proof -
  have R: "represents H t (seq_map r xs)" and f: "finite (dom r)" using assms(1) by (auto simp: is_seq_def)
  have T: "table_ok H t" using R by (simp add: represents_def)
  note c = seq_map_card [OF f order_refl assms(2)]
  have "card (dom (seq_map r xs)) \<le> card (dom (seq_map r xs) \<union> ikey ` {1..int (length xs)})" using c(1) by (intro card_mono) auto
  then have "length (entries t) < 2 ^ 31 - 1" using entries_bound [OF R c(1)] c(2) by (simp add: range_room_def)
  from luaH_getn_ok [OF T this] obtain n where n: "luaH_getn H t = Inr n" "len_border t n" "n < 2 ^ 31 - 1" by blast
  have p: "present t j \<longleftrightarrow> 1 \<le> j \<and> j \<le> length xs" if "1 \<le> j" "j < 2 ^ 31" for j
  proof -
    have "valid_key (ikey (int j))" using that(2) by (simp add: valid_key_def key_wf_def)
    then have "present t j \<longleftrightarrow> (\<exists>v. seq_map r xs (ikey (int j)) = Some v)" using R by (simp add: present_def represents_def class_nan)
    then show ?thesis using that(1) by (auto simp: elem_def)
  qed
  have "n = length xs" using n(2,3) p [of n] p [of "n + 1"] by (cases "n = 0") (simp_all add: len_border_def Suc_le_eq)
  then show ?thesis using n(1) by (simp add: aux_getn_def)
qed

section \<open>Sorting\<close>

lemma elem_mset: "image_mset (elem xs) (mset_set {1..int (length xs)}) = mset (map Some xs)"
proof -
  let ?f = "\<lambda>k. int k + 1"
  have im: "?f ` {0..<length xs} = {1..int (length xs)}"
  proof (intro equalityI subsetI)
    fix i assume "i \<in> {1..int (length xs)}"
    then show "i \<in> ?f ` {0..<length xs}" by (intro image_eqI [of _ _ "nat (i - 1)"]) auto
  qed auto
  have "map Some xs = map (elem xs \<circ> ?f) [0..<length xs]" by (rule nth_equalityI) (auto simp: elem_def)
  then have "mset (map Some xs) = image_mset (elem xs \<circ> ?f) (mset_set {0..<length xs})" by simp
  also have "\<dots> = image_mset (elem xs) (image_mset ?f (mset_set {0..<length xs}))" by (simp add: multiset.map_comp)
  also have "image_mset ?f (mset_set {0..<length xs}) = mset_set (?f ` {0..<length xs})" by (rule image_mset_mset_set) (simp add: inj_on_def)
  finally show ?thesis by (simp only: im)
qed

text \<open>An order on values, with nil as the least one.\<close>

definition opt_lt :: "('v \<Rightarrow> 'v \<Rightarrow> bool) \<Rightarrow> 'v option \<Rightarrow> 'v option \<Rightarrow> bool" where
  "opt_lt lt x y = (case y of None \<Rightarrow> False | Some b \<Rightarrow> (case x of None \<Rightarrow> True | Some a \<Rightarrow> lt a b))"

definition weak_order :: "('v \<Rightarrow> 'v \<Rightarrow> bool) \<Rightarrow> bool" where
  "weak_order lt \<longleftrightarrow> (\<forall>x y. lt x y \<longrightarrow> \<not> lt y x) \<and> (\<forall>x y z. \<not> lt x y \<longrightarrow> \<not> lt y z \<longrightarrow> \<not> lt x z)"

lemma weak_orderD:
  assumes "weak_order lt" shows "lt x y \<Longrightarrow> \<not> lt y x" "\<not> lt x y \<Longrightarrow> \<not> lt y z \<Longrightarrow> \<not> lt x z"
proof -
  note w = assms [unfolded weak_order_def]
  show "lt x y \<Longrightarrow> \<not> lt y x" by (rule w [THEN conjunct1, rule_format])
  show "\<not> lt x y \<Longrightarrow> \<not> lt y z \<Longrightarrow> \<not> lt x z" by (rule w [THEN conjunct2, rule_format])
qed

lemma opt_lt_orders:
  assumes "weak_order lt" "\<forall>s. \<forall>x\<in>A. \<forall>y\<in>A. cmp s (Some x) (Some y) = Inr (lt x y, s)"
  shows "orders (Some ` A) cmp (opt_lt lt)"
  unfolding orders_def
proof (intro conjI allI ballI impI)
  fix s x y assume "x \<in> Some ` A" "y \<in> Some ` A"
  then show "cmp s x y = Inr (opt_lt lt x y, s)" using assms(2) by (auto simp: opt_lt_def)
next
  fix x y assume "opt_lt lt x y"
  then show "\<not> opt_lt lt y x" using weak_orderD(1) [OF assms(1), of "the x" "the y"] by (cases x; cases y) (simp_all add: opt_lt_def)
next
  fix x y z assume "\<not> opt_lt lt x y" "\<not> opt_lt lt y z"
  then show "\<not> opt_lt lt x z" using weak_orderD(2) [OF assms(1), of "the x" "the y" "the z"] by (cases x; cases y; cases z) (simp_all add: opt_lt_def)
qed

lemma sorted_elems:
  assumes "\<And>i. 1 \<le> i \<Longrightarrow> i \<le> int (length ys) \<Longrightarrow> f i = elem ys i" "sorted_range (opt_lt lt) f 1 (int (length ys))"
  shows "sorted_wrt (\<lambda>x y. \<not> lt y x) ys"
  unfolding sorted_wrt_iff_nth_less
proof (intro allI impI)
  fix i j assume ij: "i < j" "j < length ys"
  have "\<not> opt_lt lt (f (int j + 1)) (f (int i + 1))" using assms(2) ij unfolding sorted_range_def by simp
  then show "\<not> lt (ys ! j) (ys ! i)" using ij assms(1) [of "int i + 1"] assms(1) [of "int j + 1"] by (simp add: elem_def opt_lt_def)
qed

lemma permuted_elems:
  assumes re: "rearranged {1..int (length xs)} f g" and f: "\<And>i. 1 \<le> i \<Longrightarrow> i \<le> int (length xs) \<Longrightarrow> f i = elem xs i"
  obtains ys where "mset ys = mset xs" "\<And>i. 1 \<le> i \<Longrightarrow> i \<le> int (length ys) \<Longrightarrow> g i = elem ys i"
proof
  let ?n = "length xs" and ?ys = "map (\<lambda>k. the (g (int k + 1))) [0..<length xs]"
  have "\<forall>i\<in>{1..int ?n}. f i \<noteq> None" using f by (simp add: elem_def)
  then have g: "g i \<noteq> None" if "1 \<le> i" "i \<le> int ?n" for i
    using rearranged_all [OF re, where Q = "\<lambda>x. x \<noteq> None"] that by simp
  show e: "g i = elem ?ys i" if "1 \<le> i" "i \<le> int (length ?ys)" for i using g [of i] that by (auto simp: elem_def)
  have "image_mset (elem ?ys) (mset_set {1..int ?n}) = image_mset g (mset_set {1..int ?n})" using e by (intro image_mset_cong) auto
  also have "\<dots> = image_mset f (mset_set {1..int ?n})" by (rule rearranged_mset [OF re]) simp
  also have "\<dots> = image_mset (elem xs) (mset_set {1..int ?n})" using f by (intro image_mset_cong) auto
  finally have "mset (map Some ?ys) = mset (map Some xs)" using elem_mset [of xs] elem_mset [of ?ys] by simp
  then have "image_mset the (mset (map Some ?ys)) = image_mset the (mset (map Some xs))" by simp
  then show "mset ?ys = mset xs" by (simp add: multiset.map_comp comp_def)
qed

lemma sort_seq:
  assumes S: "is_seq H t r xs" and n: "int (card (dom r)) + int (length xs) < 2 ^ 30"
    and w: "weak_order lt" and c: "\<forall>s. \<forall>x\<in>set xs. \<forall>y\<in>set xs. cmp s (Some x) (Some y) = Inr (lt x y, s)"
  shows "\<exists>t' s' ys. sort_table H cmp t s = Inr (t', s') \<and> is_seq H t' r ys \<and> mset ys = mset xs \<and> sorted_wrt (\<lambda>x y. \<not> lt y x) ys"
proof -
  let ?n = "int (length xs)" and ?D = "Some ` set xs"
  have D: "elem xs i \<in> ?D" if "1 \<le> i" "i \<le> ?n" for i using that by (simp add: elem_def)
  note range = seq_range [OF S order_refl n D]
  note V = opt_lt_orders [OF w c]
  have o: "outcome (sort_err (orders ?D cmp (opt_lt lt)) cmp) (ts.sorts H 1 ?n (seq_map r xs) ?D (opt_lt lt) cmp 1 ?n t) (auxsort (table_rawgeti H) (table_rawseti H) cmp 1 ?n t s)"
    by (rule ts.auxsort_outcome [OF range(1)]) simp_all
  obtain t' s' where a: "auxsort (table_rawgeti H) (table_rawseti H) cmp 1 ?n t s = Inr (t', s')"
    and i: "range_inv H (seq_map r xs) ?D 1 ?n t'" and re: "rearranged {1..?n} (range_view H 1 ?n t) (range_view H 1 ?n t')"
    and so: "sorted_range (opt_lt lt) (range_view H 1 ?n t') 1 ?n"
    using o [unfolded ts.sorts_def] V by (auto simp: outcome_def sort_err_def split: sum.splits prod.splits)
  from permuted_elems [OF re range(2)] obtain ys where
    ys: "mset ys = mset xs" "\<And>i. 1 \<le> i \<Longrightarrow> i \<le> int (length ys) \<Longrightarrow> range_view H 1 ?n t' i = elem ys i" by blast
  have len: "length ys = length xs" using ys(1) by (rule mset_eq_length)
  have "is_seq H t' r ys" by (rule seq_from_range [OF i]) (use ys(2) len S in \<open>auto simp: is_seq_def\<close>)
  moreover have "sorted_wrt (\<lambda>x y. \<not> lt y x) ys" by (rule sorted_elems [OF ys(2)]) (use so len in simp_all)
  ultimately show ?thesis using a ys(1) aux_getn_seq [OF S n] by (auto simp: sort_table_def)
qed

end
