(* ===== verification/TabOps.thy ===== *)
theory TabOps imports TabSeq begin

text \<open>
  Properties of the table library: sorting, insertion and removal, and packing.
\<close>

section \<open>Sorting any table\<close>

lemma sort_any:
  assumes R: "represents H t m" and f: "finite (dom m)" and n: "luaH_getn H t = Inr n" "card (dom m) + n < 2 ^ 30"
  shows "outcome (\<lambda>e. e = Lua_error ''invalid order function for sorting'' \<or> (\<exists>s x y. cmp s x y = Inl e))
     (\<lambda>(t', s'). \<exists>p. bij_betw p {1..int n} {1..int n} \<and> represents H t' (put_range m 1 (int n) (\<lambda>i. m (ikey (p i)))))
     (sort_table H cmp t s)"
proof -
  let ?n = "int n" and ?lt = "\<lambda>_ _. False"
  have "card (dom m \<union> ikey ` {1..?n}) \<le> card (dom m) + n"
    using card_Un_le [of "dom m" "ikey ` {1..?n}"] card_image_le [of "{1..?n}" ikey] by simp
  then have "range_room m 1 ?n" using f n(2) by (simp add: range_room_def)
  note r = range_invI [OF R this, of UNIV]
  have o: "outcome (sort_err (orders UNIV cmp ?lt) cmp) (ts.sorts H 1 ?n m UNIV ?lt cmp 1 ?n t) (auxsort (table_rawgeti H) (table_rawseti H) cmp 1 ?n t s)"
    by (rule ts.auxsort_outcome [OF r(1)]) simp_all
  have "\<exists>p. bij_betw p {1..?n} {1..?n} \<and> represents H t' (put_range m 1 ?n (\<lambda>i. m (ikey (p i))))"
    if i: "range_inv H m UNIV 1 ?n t'" and re: "rearranged {1..?n} (range_view H 1 ?n t) (range_view H 1 ?n t')" for t'
  proof -
    from re obtain p where p: "bij_betw p {1..?n} {1..?n}" "\<forall>i\<in>{1..?n}. range_view H 1 ?n t' i = range_view H 1 ?n t (p i)"
      by (auto simp: rearranged_def)
    have "p i \<in> {1..?n}" if "i \<in> {1..?n}" for i using p(1) that by (auto simp: bij_betw_def)
    then have "range_view H 1 ?n t' i = m (ikey (p i))" if "1 \<le> i" "i \<le> ?n" for i using p(2) r(2) that by auto
    then have "put_range m 1 ?n (range_view H 1 ?n t') = put_range m 1 ?n (\<lambda>i. m (ikey (p i)))"
      by (intro ext) (simp add: put_range_def split: tkey.splits lnum.splits)
    then show ?thesis using range_invE(2) [OF i] p(1) by (intro exI [of _ p]) simp
  qed
  then show ?thesis using o [unfolded ts.sorts_def] n(1)
    by (auto simp: outcome_def sort_err_def sort_table_def aux_getn_def split: sum.splits)
qed

section \<open>Insertion and removal\<close>

abbreviation insert_at :: "nat \<Rightarrow> 'v \<Rightarrow> 'v list \<Rightarrow> 'v list" where
  "insert_at k v xs \<equiv> take k xs @ v # drop k xs"

abbreviation remove_at :: "nat \<Rightarrow> 'v list \<Rightarrow> 'v list" where
  "remove_at k xs \<equiv> take k xs @ drop (Suc k) xs"

lemma elem_nth: "elem xs (int j + 1) = (if j < length xs then Some (xs ! j) else None)"
  by (auto simp: elem_def)

lemma elem_insert_at:
  assumes "k \<le> length xs" "1 \<le> i"
  shows "elem (insert_at k v xs) i = (if i = int k + 1 then Some v else if int k + 1 < i then elem xs (i - 1) else elem xs i)"
proof -
  obtain j where j: "i = int j + 1" using assms(2) by (metis add.commute zle_iff_zadd)
  show ?thesis
  proof (cases "k < j")
    case True
    then obtain j' where "j = Suc j'" by (cases j) auto
    then have e: "i = int (Suc j') + 1" "i - 1 = int j' + 1" and k: "k \<le> j'" using j True by simp_all
    have "elem (insert_at k v xs) (int (Suc j') + 1) = elem xs (int j' + 1)"
      unfolding elem_nth using k assms(1) by (auto simp: nth_append nth_Cons' min_def Suc_diff_le)
    then show ?thesis using e k by (simp add: add.commute)
  qed (use j assms(1) in \<open>auto simp: elem_nth nth_append min_def\<close>)
qed

lemma elem_remove_at:
  assumes "k < length xs" "1 \<le> i"
  shows "elem (remove_at k xs) i = (if i \<le> int k then elem xs i else elem xs (i + 1))"
proof -
  obtain j where j: "i = int j + 1" using assms(2) by (metis add.commute zle_iff_zadd)
  show ?thesis using elem_nth [of xs "Suc j"] assms(1) by (auto simp: j elem_nth nth_append min_def)
qed

lemma insert_seq:
  assumes S: "is_seq H t r xs" and n: "int (card (dom r)) + int (length xs) + 1 < 2 ^ 30" and k: "k \<le> length xs"
  shows "\<exists>t'. res_bind (move_up (table_rawgeti H) (table_rawseti H) (int k + 1) (int (length xs) + 1) t) (\<lambda>t. table_rawseti H t (int k + 1) (Some v)) = Inr t'
     \<and> is_seq H t' r (insert_at k v xs)"
proof -
  let ?e = "int (length xs) + 1" and ?p = "int k + 1"
  have range: "range_inv H (seq_map r xs) UNIV 1 ?e t" "range_view H 1 ?e t i = elem xs i" if "1 \<le> i" "i \<le> ?e" for i
    using seq_range [OF S, of ?e UNIV] n that by simp_all
  have inv: "range_inv H (seq_map r xs) UNIV 1 ?e t" by (rule range(1) [of 1]) simp_all
  from tr.move_up_ok [OF inv, of ?p ?e] obtain t1 where
    t1: "move_up (table_rawgeti H) (table_rawseti H) ?p ?e t = Inr t1" "range_inv H (seq_map r xs) UNIV 1 ?e t1"
      "range_view H 1 ?e t1 = (\<lambda>j. if ?p < j \<and> j \<le> ?e then range_view H 1 ?e t (j - 1) else range_view H 1 ?e t j)" by auto
  from tr.rs_ok [OF t1(2), of ?p "Some v"] k obtain t2 where
    t2: "table_rawseti H t1 ?p (Some v) = Inr t2" "range_inv H (seq_map r xs) UNIV 1 ?e t2"
      "range_view H 1 ?e t2 = (range_view H 1 ?e t1)(?p := Some v)" by auto
  have "is_seq H t2 r (insert_at k v xs)"
  proof (rule seq_from_range [OF t2(2)])
    show "range_view H 1 ?e t2 i = elem (insert_at k v xs) i" if "1 \<le> i" "i \<le> ?e" for i
      unfolding elem_insert_at [OF k that(1)] t2(3) t1(3) using that range(2) [of i] range(2) [of "i - 1"] k by auto
  qed (use S k in \<open>auto simp: is_seq_def\<close>)
  then show ?thesis using t1(1) t2(1) by simp
qed

lemma remove_seq:
  assumes S: "is_seq H t r xs" and n: "int (card (dom r)) + int (length xs) < 2 ^ 30" and k: "k < length xs"
  shows "\<exists>t'. res_bind (move_down (table_rawgeti H) (table_rawseti H) (int (length xs)) (int k + 1) t) (\<lambda>t. table_rawseti H t (int (length xs)) None) = Inr t'
     \<and> is_seq H t' r (remove_at k xs)"
proof -
  let ?e = "int (length xs)" and ?p = "int k + 1"
  have range: "range_inv H (seq_map r xs) UNIV 1 ?e t" "range_view H 1 ?e t i = elem xs i" if "1 \<le> i" "i \<le> ?e" for i
    using seq_range [OF S, of ?e UNIV] n that by simp_all
  have inv: "range_inv H (seq_map r xs) UNIV 1 ?e t" by (rule range(1) [of 1]) (use k in simp_all)
  from tr.move_down_ok [OF inv, of ?p ?e] obtain t1 where
    t1: "move_down (table_rawgeti H) (table_rawseti H) ?e ?p t = Inr t1" "range_inv H (seq_map r xs) UNIV 1 ?e t1"
      "range_view H 1 ?e t1 = (\<lambda>j. if ?p \<le> j \<and> j < ?e then range_view H 1 ?e t (j + 1) else range_view H 1 ?e t j)" by auto
  from tr.rs_ok [OF t1(2), of ?e None] k obtain t2 where
    t2: "table_rawseti H t1 ?e None = Inr t2" "range_inv H (seq_map r xs) UNIV 1 ?e t2"
      "range_view H 1 ?e t2 = (range_view H 1 ?e t1)(?e := None)" by auto
  have "is_seq H t2 r (remove_at k xs)"
  proof (rule seq_from_range [OF t2(2)])
    show "range_view H 1 ?e t2 i = elem (remove_at k xs) i" if "1 \<le> i" "i \<le> ?e" for i
      unfolding elem_remove_at [OF k that(1)] t2(3) t1(3) using that range(2) [of i] range(2) [of "i + 1"] k by (auto simp: elem_def)
  qed (use S k in \<open>auto simp: is_seq_def\<close>)
  then show ?thesis using t1(1) t2(1) by simp
qed

lemma tinsert_seq:
  assumes S: "is_seq H t r xs" and n: "int (card (dom r)) + int (length xs) + 1 < 2 ^ 30"
  shows "\<exists>t'. tinsert H checkint t [Some v] = Inr t' \<and> is_seq H t' r (xs @ [v])"
    "checkint p = Some pos \<Longrightarrow> 1 \<le> pos \<Longrightarrow> pos \<le> int (length xs) + 1 \<Longrightarrow>
       \<exists>t'. tinsert H checkint t [Some p, Some v] = Inr t' \<and> is_seq H t' r (insert_at (nat (pos - 1)) v xs)"
    "checkint p = Some pos \<Longrightarrow> \<not> (1 \<le> pos \<and> pos \<le> int (length xs) + 1) \<Longrightarrow>
       tinsert H checkint t [Some p, Some v] = Inl (Lua_error ''position out of bounds'')"
    "length args \<notin> {1, 2} \<Longrightarrow> tinsert H checkint t args = Inl (Lua_error ''wrong number of arguments to insert'')"
proof -
  have g: "aux_getn H t = Inr (int (length xs))" using aux_getn_seq [OF S] n by simp
  have o: "\<not> int (length xs) + 1 \<ge> 2 ^ 31" using n by simp
  have m: "move_up (table_rawgeti H) (table_rawseti H) e e t = Inr t" for e by (subst move_up.simps) simp
  show "\<exists>t'. tinsert H checkint t [Some v] = Inr t' \<and> is_seq H t' r (xs @ [v])"
    using insert_seq [OF S n order_refl, of v] o by (simp add: tinsert_def g m Let_def)
  show "\<exists>t'. tinsert H checkint t [Some p, Some v] = Inr t' \<and> is_seq H t' r (insert_at (nat (pos - 1)) v xs)"
    if "checkint p = Some pos" "1 \<le> pos" "pos \<le> int (length xs) + 1"
    using insert_seq [OF S n, of "nat (pos - 1)" v] that o by (simp add: tinsert_def g Let_def)
  show "tinsert H checkint t [Some p, Some v] = Inl (Lua_error ''position out of bounds'')"
    if "checkint p = Some pos" "\<not> (1 \<le> pos \<and> pos \<le> int (length xs) + 1)"
    using that o by (auto simp: tinsert_def g Let_def)
  show "tinsert H checkint t args = Inl (Lua_error ''wrong number of arguments to insert'')" if "length args \<notin> {1, 2}"
    using that o by (auto simp: tinsert_def g Let_def split: list.splits)
qed

lemma tremove_seq:
  assumes S: "is_seq H t r xs" and n: "int (card (dom r)) + int (length xs) < 2 ^ 30"
  shows "k < length xs \<Longrightarrow> arg = Some (int k + 1) \<or> arg = None \<and> Suc k = length xs \<Longrightarrow>
       \<exists>t'. tremove H t arg = Inr (t', Some (xs ! k)) \<and> is_seq H t' r (remove_at k xs)"
    "pos \<noteq> int (length xs) \<Longrightarrow> \<not> (1 \<le> pos \<and> pos \<le> int (length xs) + 1) \<Longrightarrow> tremove H t (Some pos) = Inl (Lua_error ''position out of bounds'')"
proof -
  have g: "aux_getn H t = Inr (int (length xs))" using aux_getn_seq [OF S n] by simp
  have o: "\<not> int (length xs) + 1 \<ge> 2 ^ 31" using n by simp
  show "\<exists>t'. tremove H t arg = Inr (t', Some (xs ! k)) \<and> is_seq H t' r (remove_at k xs)"
    if k: "k < length xs" and arg: "arg = Some (int k + 1) \<or> arg = None \<and> Suc k = length xs"
  proof -
    have "table_rawgeti H t (int k + 1) = Inr (Some (xs ! k))"
      using rawgeti_ok [of H t "seq_map r xs" "int k + 1"] S n k by (simp add: is_seq_def elem_nth)
    moreover obtain x t' where "move_down (table_rawgeti H) (table_rawseti H) (int (length xs)) (int k + 1) t = Inr x"
      and x: "table_rawseti H x (int (length xs)) None = Inr t'" and "is_seq H t' r (remove_at k xs)"
      using remove_seq [OF S n k] by (auto simp: res_bind_Inr)
    moreover have "table_rawseti H x (if int k + 1 < int (length xs) then int (length xs) else int k + 1) None = Inr t'"
    proof (cases "int k + 1 < int (length xs)")
      case False
      then have "int (length xs) = int k + 1" using k by simp
      with x False show ?thesis by metis
    qed (use x in simp)
    ultimately have "tremove H t (Some (int k + 1)) = Inr (t', Some (xs ! k))" "is_seq H t' r (remove_at k xs)"
      using k o by (simp_all add: tremove_def g Let_def split del: if_split)
    moreover have "tremove H t arg = tremove H t (Some (int k + 1))" using arg
    proof (elim disjE conjE)
      assume "arg = None" "Suc k = length xs"
      moreover have "tremove H t None = tremove H t (Some (int (length xs)))" by (simp add: tremove_def g Let_def)
      ultimately show ?thesis by (metis of_nat_Suc add.commute)
    qed simp
    ultimately show ?thesis by simp
  qed
  show "tremove H t (Some pos) = Inl (Lua_error ''position out of bounds'')"
    if "pos \<noteq> int (length xs)" "\<not> (1 \<le> pos \<and> pos \<le> int (length xs) + 1)"
    using that o by (auto simp: tremove_def g Let_def)
qed

section \<open>Packing\<close>

lemma createtable_ok:
  assumes "n \<le> MAXASIZE" shows "\<exists>t :: 'v Table. lua_createtable H n 1 = Inr t \<and> represents H t Map.empty"
proof -
  have T: "table_ok H (luaH_new :: 'v Table)" using represents_new by (auto simp: represents_def)
  have e: "array (luaH_new :: 'v Table) = []" "node_kvs (node (luaH_new :: 'v Table)) = []"
    by (simp_all add: luaH_new_def dummynode_def)
  obtain t :: "'v Table" where t: "luaH_resize H n 1 luaH_new = Inr t" "table_ok H t" "\<forall>k w. valid_key k \<longrightarrow> has t k w \<longleftrightarrow> has luaH_new k w"
    using resize_ok(2) [OF T assms, of 1 "grow1 H"] e unfolding luaH_resize_def luaH_newkey_eq(1) MAXBITS_def by auto
  have "represents H t Map.empty" by (rule represents_cong [OF represents_new t(2)]) (use t(3) in blast)
  then show ?thesis using t(1) by (simp add: lua_createtable_def)
qed

lemma pack_loop_ok:
  assumes "range_inv H m UNIV 1 hi t" "length vs < i" "int i \<le> hi"
  shows "\<exists>t'. pack_loop H i vs t = Inr t' \<and> range_inv H m UNIV 1 hi t' \<and>
     range_view H 1 hi t' = (\<lambda>j. if int i - int (length vs) < j \<and> j \<le> int i then vs ! nat (int i - j) else range_view H 1 hi t j)"
  using assms
proof (induction vs arbitrary: i t)
  case (Cons v vs)
  obtain t1 where t1: "table_rawseti H t (int i) v = Inr t1" "range_inv H m UNIV 1 hi t1" "range_view H 1 hi t1 = (range_view H 1 hi t)(int i := v)"
    using tr.rs_ok [OF Cons.prems(1), of "int i" v] Cons.prems(2,3) by auto
  obtain t2 where t2: "pack_loop H (i - 1) vs t1 = Inr t2" "range_inv H m UNIV 1 hi t2"
    "range_view H 1 hi t2 = (\<lambda>j. if int (i - 1) - int (length vs) < j \<and> j \<le> int (i - 1) then vs ! nat (int (i - 1) - j) else range_view H 1 hi t1 j)"
    using Cons.IH [OF t1(2), of "i - 1"] Cons.prems(2,3) less_diff_conv [of "length vs" i 1] by auto
  have "range_view H 1 hi t2 = (\<lambda>j. if int i - int (length (v # vs)) < j \<and> j \<le> int i then (v # vs) ! nat (int i - j) else range_view H 1 hi t j)"
    unfolding t2(3) t1(3) using Cons.prems(2) by (intro ext) (auto simp: nth_Cons' intro!: arg_cong [of _ _ "nth vs"])
  then show ?case using t1(1) t2(1,2) by auto
qed (auto simp: fun_eq_iff)

lemma pack_table_ok:
  fixes args :: "'v option list"
  assumes n: "length args < 2 ^ 30 - 1"
  shows "\<exists>t. pack_table H str_n number args = Inr t \<and>
     represents H t (put_range [KShr str_n \<mapsto> number (int (length args))] 1 (int (length args)) (\<lambda>i. args ! nat (i - 1)))"
proof -
  let ?n = "length args" and ?m = "[KShr str_n \<mapsto> number (int (length args))]"
  obtain t0 :: "'v Table" where t0: "lua_createtable H ?n 1 = Inr t0" "represents H t0 Map.empty"
    using createtable_ok [of ?n H] n by (auto simp: MAXASIZE_def MAXBITS_def)
  have k: "valid_key (KShr str_n)" "key_class (KShr str_n) = KShr str_n" by (simp_all add: valid_key_def normal_def dead_def key_wf_def key_class_def)
  obtain t1 where t1: "table_set H t0 (KShr str_n) (Some (number (int ?n))) = Inr t1" "represents H t1 ?m"
    using represents_set [OF t0(2) k(1), of "Some (number (int ?n))"] by (auto simp: k(2) MAXBITS_def)
  show ?thesis
  proof (cases "args = []")
    case True
    then have "put_range ?m 1 (int ?n) (\<lambda>i. args ! nat (i - 1)) = ?m" by (auto simp: put_range_def fun_eq_iff split: tkey.splits lnum.splits)
    then show ?thesis using True t0(1) t1 by (simp add: pack_table_def Let_def)
  next
    case False
    have "card (dom ?m \<union> ikey ` {1..int ?n}) \<le> 1 + ?n"
      using card_Un_le [of "dom ?m" "ikey ` {1..int ?n}"] card_image_le [of "{1..int ?n}" ikey] by simp
    then have room: "range_room ?m 1 (int ?n)" using n by (simp add: range_room_def)
    have inv: "range_inv H ?m UNIV 1 (int ?n) t1" by (rule range_invI(1) [OF t1(2) room]) simp
    obtain t2 where t2: "table_rawseti H t1 1 (args ! 0) = Inr t2" "range_inv H ?m UNIV 1 (int ?n) t2"
      "range_view H 1 (int ?n) t2 = (range_view H 1 (int ?n) t1)(1 := args ! 0)"
      using tr.rs_ok [OF inv, of 1 "args ! 0"] False by (auto simp: Suc_le_eq)
    let ?vs = "rev (drop 1 args)"
    obtain t3 where t3: "pack_loop H ?n ?vs t2 = Inr t3" "range_inv H ?m UNIV 1 (int ?n) t3"
      "range_view H 1 (int ?n) t3 = (\<lambda>j. if int ?n - int (length ?vs) < j \<and> j \<le> int ?n then ?vs ! nat (int ?n - j) else range_view H 1 (int ?n) t2 j)"
      using pack_loop_ok [OF t2(2), of ?vs ?n] False by auto
    have "range_view H 1 (int ?n) t3 i = args ! nat (i - 1)" if i: "1 \<le> i" "i \<le> int ?n" for i
    proof (cases "i = 1")
      case True
      moreover have "int ?n - int (length ?vs) = 1" using False by (cases args) simp_all
      ultimately show ?thesis by (simp add: t3(3) t2(3))
    next
      case i1: False
      have "?vs ! nat (int ?n - i) = drop 1 args ! (length (drop 1 args) - Suc (nat (int ?n - i)))" using i i1 by (intro rev_nth) auto
      also have "\<dots> = args ! (1 + (length (drop 1 args) - Suc (nat (int ?n - i))))" using i i1 by (intro nth_drop) auto
      also have "1 + (length (drop 1 args) - Suc (nat (int ?n - i))) = nat (i - 1)" using i i1 by auto
      finally show ?thesis using i i1 by (simp add: t3(3))
    qed
    then have "put_range ?m 1 (int ?n) (range_view H 1 (int ?n) t3) = put_range ?m 1 (int ?n) (\<lambda>i. args ! nat (i - 1))"
      by (intro ext) (simp add: put_range_def split: tkey.splits lnum.splits)
    then show ?thesis using range_invE(2) [OF t3(2)] t0(1) t1(1) t2(1) t3(1) False by (simp add: pack_table_def Let_def)
  qed
qed

lemma unpack_ok:
  assumes R: "represents H t m" and room: "range_room m 1 e" and c: "1 \<le> e \<Longrightarrow> checkstack e"
  shows "unpack_table H checkstack t (Some 1) (Some e) = Inr (map (\<lambda>i. m (ikey i)) [1..e])"
proof (cases "1 \<le> e")
  case True
  note r = range_invI [OF R room, of UNIV]
  have e: "e < 2 ^ 30" using room by (simp add: range_room_def)
  have "table_rawgeti H t 1 = Inr (m (ikey 1))" using rawgeti_ok [OF R, of 1] by simp
  moreover have "unpack_loop (table_rawgeti H) t 1 e = Inr (map (range_view H 1 e t) [1 + 1..e])"
    using e True by (intro tr.unpack_loop_ok [OF r(1)]) simp_all
  moreover have "map (range_view H 1 e t) [1 + 1..e] = map (\<lambda>i. m (ikey i)) [1 + 1..e]" using r(2) by simp
  ultimately show ?thesis using True e c by (simp add: unpack_table_def upto_rec1)
qed (simp add: unpack_table_def)

text \<open>
  The number of values overflows when it is greater than an \<open>int\<close>, and so does the counter of
  the loop for the last index.
\<close>

lemma unpack_overflows:
  assumes "represents H t m" "checkstack 1"
  shows "unpack_table H checkstack t (Some 0) (Some (2 ^ 31 - 1)) = Inl Int_overflow"
    "unpack_table H checkstack t (Some (2 ^ 31 - 1)) (Some (2 ^ 31 - 1)) = Inl Int_overflow"
proof -
  show "unpack_table H checkstack t (Some 0) (Some (2 ^ 31 - 1)) = Inl Int_overflow" by (simp add: unpack_table_def)
  have "table_rawgeti H t (2 ^ 31 - 1) = Inr (m (ikey (2 ^ 31 - 1)))" by (rule rawgeti_ok [OF assms(1)]) simp_all
  moreover have "unpack_loop (table_rawgeti H) t (2 ^ 31 - 1) (2 ^ 31 - 1) = Inl Int_overflow" by (subst unpack_loop.simps) simp
  ultimately show "unpack_table H checkstack t (Some (2 ^ 31 - 1)) (Some (2 ^ 31 - 1)) = Inl Int_overflow"
    using assms(2) by (simp add: unpack_table_def)
qed

section \<open>Concatenation\<close>

fun join_strings :: "string \<Rightarrow> string list \<Rightarrow> string" where
  "join_strings sep [] = []"
| "join_strings sep [s] = s"
| "join_strings sep (s # ss) = s @ sep @ join_strings sep ss"

text \<open>The strings of the values, unless one of them has none.\<close>

fun strings :: "('v option \<Rightarrow> string option) \<Rightarrow> 'v list \<Rightarrow> string list option" where
  "strings tostr [] = Some []"
| "strings tostr (x # xs) =
     (case tostr (Some x) of None \<Rightarrow> None | Some s \<Rightarrow> (case strings tostr xs of None \<Rightarrow> None | Some ss \<Rightarrow> Some (s # ss)))"

abbreviation concat_error :: fault where
  "concat_error \<equiv> Lua_error ''invalid value in table for concat''"

lemma concat_seq:
  assumes "is_seq H t r xs" "length xs < 2 ^ 30" "xs = ys @ zs" "zs \<noteq> []"
  shows "res_bind (concat_loop (table_rawgeti H) tostr t sep (int (length xs)) b (int (length ys) + 1))
       (\<lambda>(b, i). if i = int (length xs) then addfield (table_rawgeti H) tostr t b i else Inr b) =
     (case strings tostr zs of None \<Rightarrow> Inl concat_error | Some ss \<Rightarrow> Inr (b @ join_strings sep ss))"
  using assms(3,4)
proof (induction zs arbitrary: ys b)
  case (Cons z zs)
  let ?i = "int (length ys) + 1"
  have "table_rawgeti H t ?i = Inr (Some z)" using rawgeti_ok [of H t "seq_map r xs" ?i] assms(1,2) Cons.prems(1) elem_nth [of xs "length ys"]
    by (simp add: is_seq_def)
  then have a: "addfield (table_rawgeti H) tostr t b ?i = (case tostr (Some z) of None \<Rightarrow> Inl concat_error | Some s \<Rightarrow> Inr (b @ s))" for b
    by (simp add: addfield_def)
  show ?case
  proof (cases "zs = []")
    case True
    then have "int (length xs) = ?i" using Cons.prems(1) by simp
    then show ?thesis using True a by (subst concat_loop.simps) (simp split: option.splits)
  next
    case False
    have i: "?i < int (length xs)" "int (length (ys @ [z])) + 1 = ?i + 1" using Cons.prems(1) False by simp_all
    have j: "join_strings sep (s # ss) = s @ sep @ join_strings sep ss" if "strings tostr zs = Some ss" for s ss
      using that False by (cases zs; cases ss) (simp_all split: option.splits)
    show ?thesis
    proof (cases "tostr (Some z)")
      case (Some s)
      have "res_bind (concat_loop (table_rawgeti H) tostr t sep (int (length xs)) ((b @ s) @ sep) (?i + 1))
         (\<lambda>(b, i). if i = int (length xs) then addfield (table_rawgeti H) tostr t b i else Inr b) =
         (case strings tostr zs of None \<Rightarrow> Inl concat_error | Some ss \<Rightarrow> Inr (((b @ s) @ sep) @ join_strings sep ss))"
        using Cons.IH [of "ys @ [z]" "(b @ s) @ sep"] Cons.prems(1) False by (simp add: i(2) add.commute)
      then show ?thesis using i(1) a [of b] Some j by (subst concat_loop.simps) (simp split: option.splits)
    qed (use i(1) a [of b] in \<open>subst concat_loop.simps, simp\<close>)
  qed
qed simp

lemma tconcat_seq:
  assumes S: "is_seq H t r xs" and n: "int (card (dom r)) + int (length xs) < 2 ^ 30"
  shows "tconcat H tostr t (Some sep) None None =
     (case strings tostr xs of None \<Rightarrow> Inl concat_error | Some ss \<Rightarrow> Inr (join_strings sep ss))"
proof (cases "xs = []")
  case True
  then show ?thesis using aux_getn_seq [OF S n] by (simp add: tconcat_def Let_def) (subst concat_loop.simps, simp)
next
  case False
  then show ?thesis using aux_getn_seq [OF S n] concat_seq [OF S, of "[]" xs tostr sep "[]"] n by (simp add: tconcat_def Let_def split: option.splits)
qed

section \<open>Properties\<close>

lemma array_seq:
  assumes "length xs \<le> MAXASIZE" shows "is_seq H (empty_hash 0 (map Some xs)) Map.empty xs"
proof -
  have "has (empty_hash 0 (map Some xs)) k v \<longleftrightarrow> seq_map Map.empty xs (key_class k) = Some v" for k v
  proof (cases "\<exists>i. k = ikey i \<and> 1 \<le> i")
    case True
    then show ?thesis by (auto simp: has_empty beyond_def arr_ix_def class_nan elem_def split: if_splits)
  next
    case False
    then have "seq_map Map.empty xs (key_class k) = None"
      by (cases k) (auto simp: seq_map_def key_class_def split: lnum.splits)
    then show ?thesis using False by (auto simp: has_empty beyond_def)
  qed
  then show ?thesis using table_ok_empty [of "map Some xs" 0 H] assms by (simp add: is_seq_def represents_def)
qed

text \<open>The table of the examples, \<open>{3, 1, 2}\<close>, with its elements in the array part.\<close>

definition sample_seq :: "int Table" where
  "sample_seq = empty_hash 0 (map Some [3, 1, 2])"

lemma sample_seq_ok: "is_seq H sample_seq Map.empty [3, 1, 2]"
  unfolding sample_seq_def by (rule array_seq) (simp add: MAXASIZE_def MAXBITS_def)

text \<open>
  C5. For a strict weak order, \<open>sort\<close> ends without an error and leaves the elements of the
  sequence in order, with the same elements as before and everything else in the table unchanged.
  The order function needs to work on the elements of the table only.
\<close>

theorem sort_sorts:
  assumes "is_seq H t r xs" and "int (card (dom r)) + int (length xs) < 2 ^ 30" and "weak_order lt"
    and "\<forall>s. \<forall>x\<in>set xs. \<forall>y\<in>set xs. cmp s (Some x) (Some y) = Inr (lt x y, s)"
  shows "\<exists>t' s' ys. sort_table H cmp t s = Inr (t', s') \<and> is_seq H t' r ys \<and> mset ys = mset xs \<and> sorted_wrt (\<lambda>x y. \<not> lt y x) ys"
  by (rule sort_seq [OF assms])

definition int_order :: "(unit, int option) order" where
  "int_order s x y = (case x of None \<Rightarrow> Inl (Lua_error ''attempt to compare nil'')
     | Some a \<Rightarrow> (case y of None \<Rightarrow> Inl (Lua_error ''attempt to compare nil'') | Some b \<Rightarrow> Inr (a < b, s)))"

theorem sort_sorts_witness:
  "\<exists>t' s'. sort_table zero_hash int_order sample_seq () = Inr (t', s') \<and> is_seq zero_hash t' Map.empty [1, 2, 3]"
proof -
  have "weak_order ((<) :: int \<Rightarrow> int \<Rightarrow> bool)" by (auto simp: weak_order_def)
  from sort_sorts [OF sample_seq_ok _ this, of int_order zero_hash "()"] obtain t' s' ys where
    t': "sort_table zero_hash int_order sample_seq () = Inr (t', s')" "is_seq zero_hash t' Map.empty ys"
    and ys: "mset ys = mset [3, 1, 2]" "sorted ys" by (auto simp: int_order_def not_less)
  have "sort [3, 1, 2] = ys" by (rule properties_for_sort [OF ys])
  then show ?thesis using t' by auto
qed

text \<open>
  C19. Whatever the order function does, \<open>sort\<close> ends, within the table: it either raises an
  error of that function, or finds the order invalid, or permutes the elements up to the length
  of the table and leaves everything else in the table unchanged.
\<close>

theorem sort_permutes:
  assumes "represents H t m" and "finite (dom m)" and "luaH_getn H t = Inr n" and "card (dom m) + n < 2 ^ 30"
  shows "case sort_table H cmp t s of
       Inl e \<Rightarrow> e = Lua_error ''invalid order function for sorting'' \<or> (\<exists>s x y. cmp s x y = Inl e)
     | Inr (t', s') \<Rightarrow> \<exists>p. bij_betw p {1..int n} {1..int n} \<and> represents H t' (put_range m 1 (int n) (\<lambda>i. m (ikey (p i))))"
  using sort_any [OF assms, of cmp s] by (auto simp: outcome_def split: sum.splits)

theorem sort_permutes_witness:
  "case sort_table zero_hash (\<lambda>s x y. Inr (True, s + 1)) sample_seq (0 :: int) of
     Inl e \<Rightarrow> e = Lua_error ''invalid order function for sorting''
   | Inr (t', s') \<Rightarrow> \<exists>p. bij_betw p {1..3} {1..3} \<and>
       represents zero_hash t' (put_range (seq_map Map.empty [3, 1, 2]) 1 3 (\<lambda>i. seq_map Map.empty [3, 1, 2] (ikey (p i))))"
proof -
  note S = sample_seq_ok [of zero_hash]
  have R: "represents zero_hash sample_seq (seq_map Map.empty [3, 1, 2])" using S by (simp add: is_seq_def)
  have n: "luaH_getn zero_hash sample_seq = Inr 3" using aux_getn_seq [OF S] by (auto simp: aux_getn_def res_bind_Inr)
  have d: "dom (seq_map Map.empty [3, 1, 2 :: int]) \<subseteq> ikey ` {1..3}" using seq_map_dom [of Map.empty "[3, 1, 2 :: int]"] by simp
  then have "finite (dom (seq_map Map.empty [3, 1, 2 :: int]))" by (rule finite_subset) simp
  moreover have "card (dom (seq_map Map.empty [3, 1, 2 :: int])) \<le> 3" using card_mono [OF _ d] card_image_le [of "{1..3}" ikey] by simp
  ultimately show ?thesis using sort_permutes [OF R _ n, of "\<lambda>s x y. Inr (True, s + 1)" "0 :: int"] by (auto split: sum.splits)
qed

text \<open>
  C26. \<open>insert\<close> puts a value into a sequence, at its end or at a position from 1 to one after
  the end, and moves the values from there on up; any other position, and any other number of
  arguments, is an error.
\<close>

theorem tinsert_result:
  assumes "is_seq H t r xs" and "int (card (dom r)) + int (length xs) + 1 < 2 ^ 30" and "checkint p = Some pos"
  shows "(\<exists>t'. tinsert H checkint t [Some v] = Inr t' \<and> is_seq H t' r (xs @ [v])) \<and>
     (if 1 \<le> pos \<and> pos \<le> int (length xs) + 1
      then \<exists>t'. tinsert H checkint t [Some p, Some v] = Inr t' \<and> is_seq H t' r (insert_at (nat (pos - 1)) v xs)
      else tinsert H checkint t [Some p, Some v] = Inl (Lua_error ''position out of bounds'')) \<and>
     (length args \<notin> {1, 2} \<longrightarrow> tinsert H checkint t args = Inl (Lua_error ''wrong number of arguments to insert''))"
  using tinsert_seq [OF assms(1,2), where checkint = checkint] assms(3) by simp

theorem tinsert_result_witness:
  "(\<exists>t'. tinsert zero_hash Some sample_seq [Some 2, Some 7] = Inr t' \<and> is_seq zero_hash t' Map.empty [3, 7, 1, 2]) \<and>
   tinsert zero_hash Some sample_seq [Some 5, Some 7] = Inl (Lua_error ''position out of bounds'')"
  using tinsert_result [OF sample_seq_ok [of zero_hash], of Some 2 2 7 "[]"]
    tinsert_result [OF sample_seq_ok [of zero_hash], of Some 5 5 7 "[]"] by simp

text \<open>
  C21. \<open>remove\<close> undoes \<open>insert\<close>: it gives back the value that was inserted at a position, and
  the table is the same sequence as before.
\<close>

theorem insert_remove:
  assumes "is_seq H t r xs" and "int (card (dom r)) + int (length xs) + 1 < 2 ^ 30"
    and "checkint p = Some pos" and "1 \<le> pos" and "pos \<le> int (length xs) + 1"
  shows "\<exists>t1 t2. tinsert H checkint t [Some p, Some v] = Inr t1 \<and> tremove H t1 (Some pos) = Inr (t2, Some v) \<and> is_seq H t2 r xs"
proof -
  let ?k = "nat (pos - 1)" and ?ys = "insert_at (nat (pos - 1)) v xs"
  have k: "?k \<le> length xs" "int ?k + 1 = pos" using assms(4,5) by simp_all
  obtain t1 where t1: "tinsert H checkint t [Some p, Some v] = Inr t1" "is_seq H t1 r ?ys"
    using tinsert_seq(2) [OF assms(1,2), where checkint = checkint] assms(3-5) by blast
  have "\<exists>t2. tremove H t1 (Some pos) = Inr (t2, Some (?ys ! ?k)) \<and> is_seq H t2 r (remove_at ?k ?ys)"
    using k assms(2) by (intro tremove_seq(1) [OF t1(2)]) simp_all
  moreover have "?ys ! ?k = v" "remove_at ?k ?ys = xs" using k(1) by (simp_all add: nth_append min_def)
  ultimately show ?thesis using t1(1) by auto
qed

theorem insert_remove_witness:
  "\<exists>t1 t2. tinsert zero_hash Some sample_seq [Some 2, Some 7] = Inr t1 \<and>
     tremove zero_hash t1 (Some 2) = Inr (t2, Some 7) \<and> is_seq zero_hash t2 Map.empty [3, 1, 2]"
  using insert_remove [OF sample_seq_ok [of zero_hash], of Some 2 2 7] by simp



text \<open>
  C27. \<open>concat\<close> of a sequence is the concatenation of its strings with the separator between
  them, and an error when one of the values is not a string or a number.
\<close>

theorem tconcat_joins:
  assumes "is_seq H t r xs" and "int (card (dom r)) + int (length xs) < 2 ^ 30"
  shows "tconcat H tostr t (Some sep) None None =
     (case strings tostr xs of None \<Rightarrow> Inl concat_error | Some ss \<Rightarrow> Inr (join_strings sep ss))"
  by (rule tconcat_seq [OF assms])

theorem tconcat_joins_witness:
  "tconcat zero_hash (\<lambda>x. map_option (\<lambda>n. replicate (nat n) CHR ''a'') x) sample_seq (Some '', '') None None = Inr ''aaa, a, aa''"
  using tconcat_joins [OF sample_seq_ok [of zero_hash], of "\<lambda>x. map_option (\<lambda>n. replicate (nat n) CHR ''a'') x" "'', ''"]
  by (simp add: numeral_3_eq_3 numeral_2_eq_2)

end
