(* ===== verification/Spec2Isabelle.thy ===== *)
theory Spec2Isabelle
  imports Automem Minheap Codec Decoder Registry TcpServer UvTimer UvLua Reactor NtyReactor MyNet
    BitLib Dbcs Pinyin Inet6 HeapInl PoolSafe TabOps
begin

text \<open>
  Verification of the C components of the repository.

  \<^bold>\<open>The programs.\<close>  The repository is a collection of programs around network servers.
  \<^item> \<open>src/c-c++test/libuv-lua\<close> is a Lua module (\<open>libuv-lua/src\<close>) that runs TCP servers and
    timers on libuv: \<open>uvlua.c\<close> has the loop object, which creates servers
    (\<open>tcpserver.c\<close>) and timers (\<open>timer.c\<close>); a server keeps its connections in a heap
    ordered by the time of their last data (\<open>minheap.c\<close>) and hands what they
    receive to a decoder (\<open>lua-decoder.c\<close>), which cuts the stream into frames and
    turns them into Lua values; the bytes live in growable buffers (\<open>automem.c\<close>),
    and Lua values the C code keeps are references of the registry (\<open>lauxlib.c\<close>).
    Below it are libuv's timers (\<open>unix/timer.c\<close>), their heap (\<open>heap-inl.h\<close>), the
    queues (\<open>queue.h\<close>), the thread pool (\<open>threadpool.c\<close>) and the address conversions (\<open>inet.c\<close>),
    and Lua's tables (\<open>ltable.c\<close>), table library (\<open>ltablib.c\<close>) and \<open>bit32\<close> library
    (\<open>lbitlib.c\<close>).
  \<^item> \<open>src/c-c++test\<close> has four programs on the socket interface: a reactor that keeps a list
    of events per descriptor (\<open>reactor_thread2.c\<close>), one with an array of events
    (\<open>reactor_thread.c\<close>), a polling and an edge-triggered server (\<open>mynet_easy.c\<close>,
    \<open>mynet_epoll.c\<close>) and a client (\<open>myclient.c\<close>).
  \<^item> \<open>src/luatest\<close> has C libraries for Lua: bit operations (\<open>LuaBitOp-1.0.2/bit.c\<close>) and
    double-byte character sets (\<open>luagbk/ldbcs.h\<close>, compiled for GBK and JIS) and the
    readings of Chinese characters (\<open>luagbk/lpinyin.c\<close>).

  \<^bold>\<open>How the code is modelled.\<close>  Machine integers are words of their width (\<open>u8\<close> to \<open>u64\<close>)
  wherever they can wrap around.  A struct is a record of the same fields, memory is a list
  of cells or a map from addresses to records, a C string is the list of its characters.
  Every function that can go wrong returns a \<open>res\<close>: \<open>Inl\<close> of a fault for what C
  leaves undefined (null pointers, accesses outside a block, reads of unwritten memory,
  freed memory, bad shifts), for a loop that never ends and for a Lua error, and \<open>Inr\<close> of
  the result otherwise; error codes of the program are part of the result.  What the
  system, libuv's streams, the allocator and Lua functions answer are arguments
  (records such as \<open>uvenv\<close>, \<open>os\<close>, \<open>net\<close>), and what a theorem needs of them is a
  hypothesis with a name (\<open>env_ok\<close>, \<open>ctl_ok\<close>, \<open>renv_ok\<close>).

  \<^bold>\<open>Theories.\<close>
  \<^item> Prelude: words, faults, the result monad, blocks of memory, equality of words by bits.
  \<^item> Automem (\<open>automem.c\<close>): every buffer operation; a history of operations has the
    effect of the same history on a list of bytes, and growth stays within bounds.
    The locale \<open>byte_sink\<close> is what the encoder needs of a buffer.
  \<^item> Minheap (\<open>minheap.c\<close>): the array heap over a store of nodes that hold their index;
    push, pop, erase and adjust keep the order and the indices and change exactly the
    given node.  The locale \<open>timeout_queue\<close> is what the server's idle timer needs.
  \<^item> Codec, Decoder (\<open>lua-decoder.c\<close>): packing and unpacking of values (round trip, length
    format) and the frame decoder (whole frames, split headers, incomplete payloads).
  \<^item> Registry (\<open>lauxlib.c\<close>: \<open>luaL_ref\<close>, \<open>luaL_unref\<close>): the free list of references;
    locale \<open>ref_store\<close>.
  \<^item> TcpServer (\<open>tcpserver.c\<close>): the handlers as functions on the server's state, their
    histories as an inductive relation, and the invariant that ties the heap to the
    open connections and their references.
  \<^item> UvTimer (\<open>unix/timer.c\<close>), UvLua (\<open>timer.c\<close>, \<open>uvlua.c\<close>): timers, the objects Lua sees.
  \<^item> HeapInl (\<open>heap-inl.h\<close>): the pointer heap of the timers, position by position of the
    complete tree; locale \<open>node_order\<close>, interpreted on the order of the timers; the heap
    keeps the contract that UvTimer assumes of it.
  \<^item> UvQueue (\<open>queue.h\<close>): the macros of the circular lists on a memory of nodes; a memory
    holds a family of disjoint rings, and every macro changes it as lists change.  The locale
    \<open>queue_store\<close> is what the users of the macros need.
  \<^item> ThreadPool, PoolInv, PoolSafe (\<open>threadpool.c\<close>): the threads of the pool and of the loops as
    interleaved critical sections; the invariant that ties queues, requests and threads
    together; safety, one answer for every submission, no lost wake-up.
  \<^item> LuaTable (\<open>ltable.c\<close> with \<open>luaO_ceillog2\<close> of \<open>lobject.c\<close>): the tables of Lua, an array part
    and a hash part with chained collisions.  LuaHash: the chains and Brent's invariant; LuaNewkey:
    the invariant of a table, searching and inserting with a free position; LuaRehash: counting of
    the integer keys, the size of the array part, a rehash keeps all entries and has room; LuaMap:
    a table is a map through all histories (locale \<open>bounded_map\<close>); LuaNext: length and
    traversal.
  \<^item> TabLib (\<open>ltablib.c\<close>): the table library on these tables.  TabSort: what the library needs
    of a range of elements (locale \<open>rawseq\<close>), and the quicksort for any order function (locale
    \<open>sorting\<close>); TabSeq: both interpreted on \<open>lua_rawgeti\<close> and \<open>lua_rawseti\<close>, and tables that are
    sequences; TabOps: insertion and removal, packing and unpacking, concatenation.
  \<^item> Inet, Inet6 (\<open>inet.c\<close>): reading and printing of IPv4 and IPv6 addresses.
  \<^item> Reactor (\<open>reactor_thread2.c\<close>), NtyReactor (\<open>reactor_thread.c\<close>), MyNet
    (\<open>mynet_easy.c\<close>, \<open>mynet_epoll.c\<close>, \<open>myclient.c\<close>): the servers over a kernel set of
    watched descriptors; doubly linked lists as segments of a store of events.
  \<^item> BitLib (\<open>bit.c\<close>, \<open>lbitlib.c\<close>), Dbcs (\<open>ldbcs.h\<close>): the two bit libraries agree; UTF-8 and
    the double-byte sets are read back from what is written.
  \<^item> Pinyin (\<open>lpinyin.c\<close>): the binary searches agree with linear ones, a text gets the readings
    of its characters in order, and which rhymes the search misses.

  \<^bold>\<open>What the theorems show.\<close>  The container theories show functional correctness and
  refinement (buffer to list, heap to set of nodes with a least element, registry and Lua table to map);
  the codecs show round trips; the servers show invariants over histories, with memory
  safety, and what each handler does; the timers show that a pass ends and fires
  exactly the due timers in order; the table library changes sequences as the operations on
  lists do, and its sort permutes and sorts; the thread pool shows safety and progress for every
  interleaving of its threads.  Where the code does something else than it means to, a
  theorem states what it does, among them: the decoder loops forever on a chunk that ends
  inside a payload, it delivers a frame with a split header twice, a server without an
  \<open>onconn\<close> function reads an uninitialised field, the loop releases only its first object,
  a refused registration leaves a dangling pointer, \<open>byte\<close> of the double-byte sets is off
  by one, the search for a rhyme misses thirteen of them, a store under the key \<open>-2^31\<close>
  overflows, and so does the loop of \<open>unpack\<close> at the last index.

  \<^bold>\<open>Bounds and fuel.\<close>  Loops are structural recursion or recursion with a measure where they
  end by themselves.  The growth loop of the buffer has fuel 33: it doubles a 32-bit
  size.  The loops of the pointer heap have as much fuel as the heap has elements plus
  one, and are shown not to use it up.  A pass over the timers takes its number of
  iterations as an argument, because callbacks may start new timers; with callbacks that
  leave the timers alone it is shown to end when that number is larger than the number of
  timers in the heap.  Walks along the event lists of the reactor
  are partial functions whose not returning is a fault, and so is \<open>QUEUE_FOREACH\<close>.
  A chain of a Lua table is followed with as much fuel as it has nodes; a rehash within a
  rehash has no fuel, and histories of up to \<open>2^30\<close> operations are shown not to need any.  Sizes are bounded where the code
  relies on it: buffers and chunks below 2 GiB, array heaps below \<open>2^31\<close> elements and
  pointer heaps below \<open>2^32 - 1\<close>, descriptors below 1024, receives below 4096 bytes,
  address strings below 2 GiB, tables below \<open>2^30\<close> entries for the table library.

  \<^bold>\<open>Not modelled.\<close>  The rest of libuv and of the Lua interpreter and \<open>wepoll.c\<close> are vendored:
  their parts that the programs rely on are parameters or modelled above.  Of Lua's tables the
  errors of the allocator, the barriers of the collector and metamethods are left out, of the
  table library \<open>maxn\<close>, which is there for older programs.  CppNet, Toys and
  the other C++ programs, the Lua, Python and Go scripts are other languages.  The
  tables of \<open>gbk.h\<close>, \<open>jis.h\<close> and \<open>pinyin.h\<close> are generated data, a parameter of the
  functions that read them; \<open>bitpos.c\<close> and \<open>test.c\<close> print sizes and addresses; the
  registration of functions with Lua and printing have no state to verify.
\<close>

end
